(* ===== verification/ZmPrelude.thy ===== *)
theory ZmPrelude
  imports Main "HOL-Library.Word"
begin

text \<open>
  Shared vocabulary of the development.  A C++ \<open>std::string\<close> is a HOL \<open>string\<close> (a list of
  8-bit characters), a \<open>BYTE*\<close> buffer is a list of \<open>8 word\<close>, \<open>size_t\<close> and the other
  fixed-width integers are words of their width where wrap-around can be observed.
  Accesses that C++ leaves undefined are values of \<open>mem_error\<close>.

  The theory also holds the block operations on lists that model \<open>memcpy\<close>, \<open>memmove\<close> and
  \<open>memset\<close>, and two interfaces used by several components: a transition system with an
  invariant, and an encoder with its decoder.
\<close>

type_synonym u8 = "8 word"
type_synonym u16 = "16 word"
type_synonym u32 = "32 word"
type_synonym u64 = "64 word"
type_synonym bytes = "8 word list"

datatype mem_error = OutOfBounds | NullPointer | OutOfRange

named_theorems block_simps \<open>equations for list blocks: length, nth and composition\<close>
named_theorems step_inv \<open>preservation lemmas of the state machines\<close>
named_theorems char_simps \<open>conversions between characters and bytes\<close>

section \<open>Characters and bytes\<close>

definition char_byte :: "char \<Rightarrow> u8" where
  "char_byte c = of_char c"

definition byte_char :: "u8 \<Rightarrow> char" where
  "byte_char b = char_of (unat b)"

definition char_code :: "char \<Rightarrow> nat" where
  "char_code c = of_char c"

text \<open>\<open>tolower\<close> of the C locale.\<close>

definition lower_char :: "char \<Rightarrow> char" where
  "lower_char c = (if 65 \<le> char_code c \<and> char_code c \<le> 90 then char_of (char_code c + 32) else c)"

lemma char_code_less [simp]: "char_code c < 256"
proof -
  have "(of_char c :: nat) mod 256 = of_char c"
    by simp
  then show ?thesis
    unfolding char_code_def by (metis mod_less_divisor zero_less_numeral)
qed

lemma unat_char_byte [char_simps]: "unat (char_byte c) = char_code c"
proof -
  have "char_byte c = of_nat (char_code c)"
    unfolding char_byte_def char_code_def by (rule of_nat_of_char [symmetric])
  then show ?thesis
    using char_code_less [of c] by (simp add: unat_of_nat)
qed

lemma byte_char_char_byte [simp]: "byte_char (char_byte c) = c"
  by (simp add: byte_char_def unat_char_byte) (simp add: char_code_def)

lemma unat_byte_less [simp]: "unat (b :: u8) < 256"
proof -
  have "unat b < 2 ^ LENGTH(8)" by (rule unsigned_less)
  then show ?thesis by simp
qed

lemma char_code_byte_char [char_simps]: "char_code (byte_char b) = unat b"
proof -
  have "unat b < 256" using unat_byte_less [of b] by simp
  then show ?thesis by (simp add: char_code_def byte_char_def of_char_of)
qed

lemma char_byte_byte_char [simp]: "char_byte (byte_char b) = b"
  by (rule word_unat_eq_iff [THEN iffD2]) (simp add: char_simps)

lemma char_byte_inject [simp]: "char_byte a = char_byte b \<longleftrightarrow> a = b"
  by (metis byte_char_char_byte)

lemma byte_char_inject [simp]: "byte_char a = byte_char b \<longleftrightarrow> a = b"
  by (metis char_byte_byte_char)

lemma byte_cases_nat: "(\<And>n. n < 256 \<Longrightarrow> P (of_nat n :: u8)) \<Longrightarrow> P b"
proof -
  assume a: "\<And>n. n < 256 \<Longrightarrow> P (of_nat n :: u8)"
  have "unat b < 256" using unat_byte_less [of b] by simp
  then show "P b" using a [of "unat b"] by simp
qed

lemma word_mask_8: "(0xFF :: 'a::len word) = mask 8"
  by (simp add: mask_eq_exp_minus_1)

lemma unat_drop_bit_div: "unat (drop_bit n w) = unat w div 2 ^ n"
  unfolding unat_drop_bit_eq by (rule drop_bit_eq_div)

lemma bit_push_bit_1: "bit (push_bit n (1 :: 'a::len word)) i \<longleftrightarrow> i = n \<and> i < LENGTH('a)"
  by (auto simp: bit_simps)

section \<open>Blocks of a list: memcpy, memmove, memset\<close>

definition blit :: "nat \<Rightarrow> 'a list \<Rightarrow> 'a list \<Rightarrow> 'a list" where
  "blit off src dst = take off dst @ src @ drop (off + length src) dst"

definition fill :: "nat \<Rightarrow> nat \<Rightarrow> 'a \<Rightarrow> 'a list \<Rightarrow> 'a list" where
  "fill off n v dst = blit off (replicate n v) dst"

lemma length_blit [block_simps]:
  "off + length src \<le> length dst \<Longrightarrow> length (blit off src dst) = length dst"
  by (simp add: blit_def)

lemma length_fill [block_simps]:
  "off + n \<le> length dst \<Longrightarrow> length (fill off n v dst) = length dst"
  by (simp add: fill_def length_blit)

lemma nth_blit [block_simps]:
  assumes "off + length src \<le> length dst" and "i < length dst"
  shows "blit off src dst ! i =
    (if off \<le> i \<and> i < off + length src then src ! (i - off) else dst ! i)"
  using assms by (auto simp: blit_def nth_append min_def not_less)

lemma nth_fill [block_simps]:
  assumes "off + n \<le> length dst" and "i < length dst"
  shows "fill off n v dst ! i = (if off \<le> i \<and> i < off + n then v else dst ! i)"
  using assms by (auto simp: fill_def nth_blit)

lemma blit_nil [simp]: "blit off [] dst = dst"
  by (simp add: blit_def)

lemma take_blit [block_simps]: "off \<le> length dst \<Longrightarrow> take off (blit off src dst) = take off dst"
  by (simp add: blit_def)

lemma blit_full: "length src = length dst \<Longrightarrow> blit 0 src dst = src"
  by (simp add: blit_def)

lemma blit_blit_append:
  assumes "off + length a + length b \<le> length dst"
  shows "blit (off + length a) b (blit off a dst) = blit off (a @ b) dst"
proof (rule nth_equalityI)
  from assms show "length (blit (off + length a) b (blit off a dst)) = length (blit off (a @ b) dst)"
    by (simp add: length_blit)
next
  fix i assume "i < length (blit (off + length a) b (blit off a dst))"
  with assms have "i < length dst" by (simp add: length_blit)
  with assms show "blit (off + length a) b (blit off a dst) ! i = blit off (a @ b) dst ! i"
    by (auto simp: nth_blit length_blit nth_append)
qed

section \<open>Interface: a transition system and its invariant\<close>

text \<open>A run of a step function that may end in an error; it stops at the first error.\<close>

fun run_steps :: "('e \<Rightarrow> 's \<Rightarrow> 'x + 's) \<Rightarrow> 'e list \<Rightarrow> 's \<Rightarrow> 'x + 's" where
  "run_steps step [] s = Inr s"
| "run_steps step (e # es) s = (case step e s of Inl x \<Rightarrow> Inl x | Inr s' \<Rightarrow> run_steps step es s')"

lemma run_steps_append:
  "run_steps step (es @ fs) s = (case run_steps step es s of Inl x \<Rightarrow> Inl x | Inr s' \<Rightarrow> run_steps step fs s')"
  by (induction es arbitrary: s) (auto split: sum.splits)

text \<open>An invariant that every step keeps, for the events that \<open>allowed\<close> admits.\<close>

locale invariant_system =
  fixes inv :: "'s \<Rightarrow> bool"
    and allowed :: "'e \<Rightarrow> bool"
    and step :: "'e \<Rightarrow> 's \<Rightarrow> 'x + 's"
  assumes inv_step: "inv s \<Longrightarrow> allowed e \<Longrightarrow> step e s = Inr s' \<Longrightarrow> inv s'"
begin

lemma inv_run: "inv s \<Longrightarrow> \<forall>e \<in> set es. allowed e \<Longrightarrow> run_steps step es s = Inr s' \<Longrightarrow> inv s'"
  by (induction es arbitrary: s) (auto split: sum.splits intro: inv_step)

end

text \<open>Steps that moreover never fail where the invariant holds.\<close>

locale total_system = invariant_system inv allowed step
  for inv :: "'s \<Rightarrow> bool" and allowed :: "'e \<Rightarrow> bool" and step :: "'e \<Rightarrow> 's \<Rightarrow> 'x + 's" +
  assumes step_total: "inv s \<Longrightarrow> allowed e \<Longrightarrow> \<exists>s'. step e s = Inr s'"
begin

lemma run_total: "inv s \<Longrightarrow> \<forall>e \<in> set es. allowed e \<Longrightarrow> \<exists>s'. run_steps step es s = Inr s' \<and> inv s'"
proof (induction es arbitrary: s)
  case Nil
  then show ?case by simp
next
  case (Cons e es)
  have "\<exists>s1. step e s = Inr s1" using Cons.prems by (intro step_total) simp_all
  then obtain s1 where s1: "step e s = Inr s1" by blast
  have "inv s1" using Cons.prems s1 inv_step [of s e s1] by simp
  with Cons s1 show ?case by auto
qed

end

section \<open>Interface: an encoder with its decoder\<close>

locale codec =
  fixes valid :: "'a \<Rightarrow> bool"
    and encode :: "'a \<Rightarrow> 'b"
    and decode :: "'b \<Rightarrow> 'a"
  assumes decode_encode: "valid x \<Longrightarrow> decode (encode x) = x"
begin

lemma encode_inject: "valid x \<Longrightarrow> valid y \<Longrightarrow> encode x = encode y \<longleftrightarrow> x = y"
  by (metis decode_encode)

lemma encode_inj_on: "inj_on encode {x. valid x}"
  by (auto simp: inj_on_def encode_inject)

end

section \<open>Lists of threads\<close>

text \<open>Counting, and a pointer to the one element with a property: used where several threads share a state.\<close>

lemma sum_list_update_add:
  fixes f :: "'a \<Rightarrow> 'b::comm_monoid_add"
  assumes "i < length ws"
  shows "sum_list (map f (ws[i := x])) + f (ws ! i) = sum_list (map f ws) + f x"
  using assms by (induction ws arbitrary: i) (auto simp: add_ac split: nat.splits)

definition tally :: "('a \<Rightarrow> bool) \<Rightarrow> 'a list \<Rightarrow> nat" where
  "tally P ws = sum_list (map (\<lambda>w. of_bool (P w)) ws)"

lemma tally_simps [simp]:
  "tally P [] = 0"
  "tally P (w # ws) = of_bool (P w) + tally P ws"
  "tally P (ws @ vs) = tally P ws + tally P vs"
  by (simp_all add: tally_def)

lemma tally_replicate [simp]: "tally P (replicate n w) = (if P w then n else 0)"
  by (simp add: tally_def sum_list_replicate)

lemma tally_update: "i < length ws \<Longrightarrow> tally P (ws[i := x]) + of_bool (P (ws ! i)) = tally P ws + of_bool (P x)"
  using sum_list_update_add [of i ws "\<lambda>w. of_bool (P w) :: nat" x] by (simp add: tally_def)

lemma tally_pos: "i < length ws \<Longrightarrow> P (ws ! i) \<Longrightarrow> 0 < tally P ws"
  by (induction ws arbitrary: i) (auto simp: nth_Cons split: nat.splits)

lemma tally_mem: "w \<in> set ws \<Longrightarrow> P w \<Longrightarrow> 0 < tally P ws"
  by (metis in_set_conv_nth tally_pos)

lemma tally_le_length: "tally P ws \<le> length ws"
  by (induction ws) auto

lemma tally_all: "tally P ws = length ws \<longleftrightarrow> list_all P ws"
proof (induction ws)
  case (Cons w ws)
  then show ?case
    using tally_le_length [of P ws] by auto
qed simp

definition marks :: "('a \<Rightarrow> bool) \<Rightarrow> nat option \<Rightarrow> 'a list \<Rightarrow> bool" where
  "marks P L ws \<longleftrightarrow> (\<forall>i. L = Some i \<longleftrightarrow> i < length ws \<and> P (ws ! i))"

lemma marks_outside: "marks P L ws \<Longrightarrow> i < length ws \<Longrightarrow> \<not> P (ws ! i) \<Longrightarrow> \<not> P x \<Longrightarrow> marks P L (ws[i := x])"
  unfolding marks_def by (metis length_list_update nth_list_update)

lemma marks_inside: "marks P L ws \<Longrightarrow> i < length ws \<Longrightarrow> P (ws ! i) \<Longrightarrow> P x \<Longrightarrow> marks P L (ws[i := x])"
  unfolding marks_def by (metis length_list_update nth_list_update)

lemma marks_take: "marks P None ws \<Longrightarrow> i < length ws \<Longrightarrow> P x \<Longrightarrow> marks P (Some i) (ws[i := x])"
  unfolding marks_def by (metis length_list_update nth_list_update option.distinct(1) option.inject)

lemma marks_give:
  assumes "marks P L ws" "i < length ws" "P (ws ! i)" "\<not> P x"
  shows "marks P None (ws[i := x])"
proof -
  have "L = Some i"
    using assms unfolding marks_def by blast
  then show ?thesis
    using assms unfolding marks_def by (metis length_list_update nth_list_update option.distinct(1) option.inject)
qed

lemma marks_append: "marks P L ws \<Longrightarrow> \<not> P x \<Longrightarrow> marks P L (ws @ [x])"
  unfolding marks_def by (auto simp: nth_append less_Suc_eq)

lemma marks_map: "marks P L ws \<Longrightarrow> (\<And>w. P (f w) = P w) \<Longrightarrow> marks P L (map f ws)"
  unfolding marks_def by (simp cong: conj_cong)

lemmas marks_intros = marks_outside marks_inside marks_take marks_give marks_append

lemma tally_none: "list_all (\<lambda>w. \<not> P w) ws \<Longrightarrow> tally P ws = 0"
  by (induction ws) simp_all

lemma marks_tally: "marks P L ws \<Longrightarrow> tally P ws \<le> 1"
proof (induction ws arbitrary: L rule: rev_induct)
  case (snoc w ws)
  show ?case
  proof (cases "P w")
    case True
    then have "L = Some (length ws)"
      using snoc.prems unfolding marks_def by (metis length_append_singleton lessI nth_append_length)
    then have "\<not> P (ws ! i)" if "i < length ws" for i
      using snoc.prems that unfolding marks_def
      by (metis length_append_singleton less_SucI nat_neq_iff nth_append option.inject)
    then have "tally P ws = 0"
      by (intro tally_none) (simp add: list_all_length)
    then show ?thesis
      by simp
  next
    case False
    then have "marks P L ws"
      using snoc.prems unfolding marks_def
      by (metis length_append_singleton less_Suc_eq nth_append nth_append_length)
    then show ?thesis
      using snoc.IH False by simp
  qed
qed simp

end
