(* ===== verification/BcFrame.thy ===== *)
theory BcFrame
  imports ZmPrelude
begin

unbundle bit_operations_syntax

text \<open>
  The broadcast wire protocol of \<open>net/zm_net_broadcast_base.cpp\<close>: a frame is a four byte
  big-endian length followed by a JSON body.  An \<open>evbuffer\<close> is the string of its bytes.
  \<open>bc_frame_decode\<close> is one call of \<open>BcFrameDecode\<close>, \<open>bc_frame_encode\<close> one call of
  \<open>BcFrameEncode\<close> over a write function of libevent, \<open>bc_decode_all\<close> the loop of both read
  callbacks.  The lemmas show that frames survive the wire whatever way TCP splits them.
\<close>

section \<open>Frames\<close>

datatype zm_broadcast_state =
  ZM_BC_STATE_IDLE | ZM_BC_STATE_STARTING | ZM_BC_STATE_LISTENING
| ZM_BC_STATE_STOPPING | ZM_BC_STATE_STOPPED | ZM_BC_STATE_ERROR

record bc_message =
  msg_id :: string
  msg_topic :: string
  msg_tag :: string
  msg_content :: string
  msg_timestamp :: string

record bc_client_info =
  ci_clientId :: string
  ci_ip :: string
  ci_port :: u16
  ci_connectTime :: u64
  ci_tags :: "string list"
  ci_queuePending :: nat
  ci_lastActiveTime :: u64
  ci_sentCount :: u64

definition bc_len_of_header :: "u8 \<Rightarrow> u8 \<Rightarrow> u8 \<Rightarrow> u8 \<Rightarrow> u32" where
  "bc_len_of_header h0 h1 h2 h3 =
     push_bit 24 (ucast h0) OR push_bit 16 (ucast h1) OR push_bit 8 (ucast h2) OR ucast h3"

definition bc_max_body :: u32 where
  "bc_max_body = 16 * 1024 * 1024"

definition bc_frame_decode :: "string \<Rightarrow> string \<times> string" where
  "bc_frame_decode input =
    (if length input < 4 then ([], input)
     else
       let bodyLen = bc_len_of_header (char_byte (input ! 0)) (char_byte (input ! 1))
                       (char_byte (input ! 2)) (char_byte (input ! 3))
       in if bodyLen > bc_max_body then ([], input)
          else if length input < 4 + unat bodyLen then ([], input)
          else let rest = drop 4 input
               in (take (unat bodyLen) rest, drop (unat bodyLen) rest))"

definition bc_header :: "u32 \<Rightarrow> string" where
  "bc_header bodyLen =
    [byte_char (ucast (drop_bit 24 bodyLen AND 0xFF)),
     byte_char (ucast (drop_bit 16 bodyLen AND 0xFF)),
     byte_char (ucast (drop_bit 8 bodyLen AND 0xFF)),
     byte_char (ucast (bodyLen AND 0xFF))]"

definition bc_frame :: "string \<Rightarrow> string" where
  "bc_frame json = bc_header (word_of_nat (length json)) @ json"

text \<open>
  \<open>bufferevent_write\<close> is a parameter: it returns the new output buffer, or \<open>None\<close> for a
  non-zero result.  The result is the boolean of the call with the buffer it leaves behind.
\<close>

definition bc_frame_encode ::
  "('b \<Rightarrow> string \<Rightarrow> 'b option) \<Rightarrow> 'b option \<Rightarrow> string \<Rightarrow> bool \<times> 'b option" where
  "bc_frame_encode bw bev json =
    (case bev of
       None \<Rightarrow> (False, None)
     | Some b \<Rightarrow>
         if json = [] then (False, Some b)
         else (case bw b (bc_header (word_of_nat (length json))) of
                 None \<Rightarrow> (False, Some b)
               | Some b1 \<Rightarrow>
                   (case bw b1 json of
                      None \<Rightarrow> (False, Some b1)
                    | Some b2 \<Rightarrow> (True, Some b2))))"

text \<open>The write of a healthy bufferevent appends to its output.\<close>

definition bev_append :: "string \<Rightarrow> string \<Rightarrow> string option" where
  "bev_append out s = Some (out @ s)"

definition bc_body_ok :: "string \<Rightarrow> bool" where
  "bc_body_ok json \<longleftrightarrow> json \<noteq> [] \<and> length json \<le> 16 * 1024 * 1024"

subsection \<open>Length header\<close>

lemma bc_len_of_header_bytes:
  "bc_len_of_header (ucast (drop_bit 24 n AND 0xFF)) (ucast (drop_bit 16 n AND 0xFF))
     (ucast (drop_bit 8 n AND 0xFF)) (ucast (n AND 0xFF)) = (n :: u32)" (is "?l = n")
proof (rule bit_word_eqI)
  fix i assume "i < LENGTH(32)"
  then consider "i < 8" | "8 \<le> i" "i < 16" | "16 \<le> i" "i < 24" | "24 \<le> i" "i < 32"
    by fastforce
  then show "bit ?l i = bit n i"
    unfolding bc_len_of_header_def word_mask_8 by cases (auto simp: bit_simps)
qed

lemma length_bc_header [simp]: "length (bc_header n) = 4"
  by (simp add: bc_header_def)

lemma length_bc_frame [simp]: "length (bc_frame json) = 4 + length json"
  by (simp add: bc_frame_def)

lemma bc_frame_not_nil [simp]: "bc_frame json \<noteq> []"
  by (simp add: bc_frame_def bc_header_def)

lemma bc_body_len:
  assumes "bc_body_ok json"
  shows "unat (word_of_nat (length json) :: u32) = length json"
    and "\<not> word_of_nat (length json) > bc_max_body"
proof -
  from assms have le: "length json \<le> 16777216" by (simp add: bc_body_ok_def)
  then show u: "unat (word_of_nat (length json) :: u32) = length json"
    by (simp add: unat_of_nat)
  show "\<not> word_of_nat (length json) > bc_max_body"
    using le by (simp add: not_less word_le_nat_alt u bc_max_body_def)
qed

lemma bc_frame_decode_header:
  "bc_frame_decode (bc_header n @ r) =
     (if n > bc_max_body then ([], bc_header n @ r)
      else if length r < unat n then ([], bc_header n @ r)
      else (take (unat n) r, drop (unat n) r))"
proof -
  have len: "bc_len_of_header (char_byte ((bc_header n @ r) ! 0)) (char_byte ((bc_header n @ r) ! 1))
          (char_byte ((bc_header n @ r) ! 2)) (char_byte ((bc_header n @ r) ! 3)) = n"
    by (simp add: bc_header_def bc_len_of_header_bytes)
  show ?thesis
    unfolding bc_frame_decode_def Let_def len by (simp add: bc_header_def)
qed

lemma bc_decode_frame:
  "bc_body_ok json \<Longrightarrow> bc_frame_decode (bc_frame json @ r) = (json, r)"
  unfolding bc_frame_def by (simp add: bc_frame_decode_header bc_body_len)

lemma bc_decode_partial:
  assumes "bc_body_ok json" and "x @ y = bc_frame json @ z" and "length x < length (bc_frame json)"
  shows "bc_frame_decode x = ([], x)"
proof (cases "length x < 4")
  case True
  then show ?thesis by (simp add: bc_frame_decode_def)
next
  case False
  let ?h = "bc_header (word_of_nat (length json))"
  from assms(2) have "take 4 x = take 4 (?h @ json @ z)"
    using False by (metis append_assoc bc_frame_def le_eq_less_or_eq linorder_not_less take_all_iff
        take_append diff_is_0_eq' append_Nil2 take0)
  then have x: "x = ?h @ drop 4 x"
    by (metis append_take_drop_id append_eq_conv_conj length_bc_header)
  from assms(3) False have "length (drop 4 x) < length json" by simp
  then have "bc_frame_decode (?h @ drop 4 x) = ([], ?h @ drop 4 x)"
    using assms(1) by (simp add: bc_frame_decode_header bc_body_len del: length_drop)
  then show ?thesis using x by simp
qed

section \<open>The read loop and the stream\<close>

text \<open>
  \<open>OnClientReadCB\<close> and \<open>OnReadCB\<close> both loop over \<open>BcFrameDecode\<close> until it returns the
  empty string; every round that continues has consumed a header and a body.
\<close>

lemma bc_frame_decode_shrinks:
  assumes "bc_frame_decode input = (json, rest)" and "json \<noteq> []"
  shows "length rest < length input"
  using assms by (auto simp: bc_frame_decode_def Let_def split: if_splits)

function bc_decode_all :: "string \<Rightarrow> string list \<times> string" where
  "bc_decode_all input =
    (let (json, rest) = bc_frame_decode input
     in if json = [] then ([], rest)
        else let (msgs, left) = bc_decode_all rest in (json # msgs, left))"
  by pat_completeness auto
termination
  by (relation "measure length") (auto intro: bc_frame_decode_shrinks [OF sym])

declare bc_decode_all.simps [simp del]

lemma bc_decode_all_Nil [simp]: "bc_decode_all [] = ([], [])"
  by (subst bc_decode_all.simps) (simp add: bc_frame_decode_def)

lemma bc_decode_all_frame:
  assumes "bc_body_ok json"
  shows "bc_decode_all (bc_frame json @ r) =
     (json # fst (bc_decode_all r), snd (bc_decode_all r))"
proof -
  from assms have "json \<noteq> []" by (simp add: bc_body_ok_def)
  then show ?thesis
    by (subst bc_decode_all.simps) (simp add: bc_decode_frame assms split_beta)
qed

lemma bc_decode_all_partial:
  assumes "bc_body_ok json" and "x @ y = bc_frame json @ z" and "length x < length (bc_frame json)"
  shows "bc_decode_all x = ([], x)"
  by (subst bc_decode_all.simps) (simp add: bc_decode_partial [OF assms])

definition bc_stream :: "string list \<Rightarrow> string" where
  "bc_stream js = concat (map bc_frame js)"

text \<open>A prefix of a stream of frames decodes to the frames it holds completely.\<close>

lemma bc_decode_prefix:
  assumes "\<forall>j \<in> set js. bc_body_ok j" and "x @ y = bc_stream js"
  shows "\<exists>k. bc_decode_all x = (take k js, snd (bc_decode_all x)) \<and>
           snd (bc_decode_all x) @ y = bc_stream (drop k js) \<and> (y = [] \<longrightarrow> length js \<le> k)"
  using assms
proof (induction js arbitrary: x)
  case Nil
  then show ?case by (simp add: bc_stream_def)
next
  case (Cons j js)
  from Cons.prems have ok: "bc_body_ok j" and oks: "\<forall>j \<in> set js. bc_body_ok j" by auto
  from Cons.prems have eq: "x @ y = bc_frame j @ bc_stream js" by (simp add: bc_stream_def)
  show ?case
  proof (cases "length x < length (bc_frame j)")
    case True
    from ok eq True have dx: "bc_decode_all x = ([], x)" by (rule bc_decode_all_partial)
    from arg_cong [OF eq, of length] True have "y \<noteq> []" by auto
    with dx Cons.prems show ?thesis by (intro exI [of _ 0]) simp
  next
    case False
    then obtain x' where x: "x = bc_frame j @ x'"
      using eq by (metis append_eq_append_conv_if append_take_drop_id linorder_not_less)
    with eq have "x' @ y = bc_stream js" by simp
    from Cons.IH [OF oks this] obtain k where
      k: "bc_decode_all x' = (take k js, snd (bc_decode_all x'))"
         "snd (bc_decode_all x') @ y = bc_stream (drop k js)" "y = [] \<longrightarrow> length js \<le> k"
      by blast
    have "bc_decode_all x = (j # take k js, snd (bc_decode_all x'))"
      unfolding x bc_decode_all_frame [OF ok] using k(1) by (metis fst_conv)
    with k show ?thesis by (intro exI [of _ "Suc k"]) simp
  qed
qed

text \<open>
  The input buffer over the life of a connection: each chunk that TCP delivers is appended
  and the read callback runs the loop.
\<close>

fun bc_feed :: "string list \<Rightarrow> string \<Rightarrow> string list \<times> string" where
  "bc_feed [] buf = ([], buf)"
| "bc_feed (c # cs) buf =
    (let (msgs, left) = bc_decode_all (buf @ c); (more, final) = bc_feed cs left
     in (msgs @ more, final))"

lemma bc_feed_prefix:
  assumes "\<forall>j \<in> set js. bc_body_ok j" and "buf @ concat cs = bc_stream js" and "cs \<noteq> []"
  shows "bc_feed cs buf = (js, [])"
  using assms
proof (induction cs arbitrary: buf js)
  case Nil
  then show ?case by simp
next
  case (Cons c cs)
  let ?d = "bc_decode_all (buf @ c)"
  from Cons.prems have "(buf @ c) @ concat cs = bc_stream js" by simp
  from bc_decode_prefix [OF Cons.prems(1) this] obtain k where
    k: "?d = (take k js, snd ?d)" "snd ?d @ concat cs = bc_stream (drop k js)"
       "concat cs = [] \<longrightarrow> length js \<le> k" by blast
  show ?case
  proof (cases "cs = []")
    case True
    with k have "js = take k js" "snd ?d = []" by (auto simp: bc_stream_def)
    with True k(1) show ?thesis by (simp add: split_beta prod_eq_iff)
  next
    case False
    have "\<forall>j \<in> set (drop k js). bc_body_ok j"
      using Cons.prems(1) by (meson in_set_dropD)
    with Cons.IH [OF this k(2) False] have "bc_feed cs (snd ?d) = (drop k js, [])" by simp
    moreover from k(1) have "fst ?d = take k js" by (metis fst_conv)
    ultimately show ?thesis by (simp add: split_beta)
  qed
qed

section \<open>Identifiers\<close>

definition hex_digit :: "nat \<Rightarrow> char" where
  "hex_digit n = ''0123456789abcdef'' ! (n mod 16)"

fun hex_nat :: "nat \<Rightarrow> string" where
  "hex_nat n = (if n < 16 then [hex_digit n] else hex_nat (n div 16) @ [hex_digit n])"

declare hex_nat.simps [simp del]

text \<open>\<open>printf\<close> with \<open>%0kx\<close>: at least \<open>k\<close> digits, padded with zeros on the left.\<close>

definition hex_pad :: "nat \<Rightarrow> u32 \<Rightarrow> string" where
  "hex_pad k w = (let s = hex_nat (unat w) in replicate (k - length s) CHR ''0'' @ s)"

definition bc_uuid_version :: "u32 \<Rightarrow> u32" where
  "bc_uuid_version b = (b AND 0xFFFF0FFF) OR 0x00004000"

definition bc_uuid_variant :: "u32 \<Rightarrow> u32" where
  "bc_uuid_variant c = (c AND 0x3FFFFFFF) OR 0x80000000"

text \<open>
  The four random words of \<open>std::mt19937\<close> are arguments.  \<open>snprintf\<close> keeps at most 36
  characters of the text in the 37 byte buffer.
\<close>

definition bc_generate_uuid :: "u32 \<Rightarrow> u32 \<Rightarrow> u32 \<Rightarrow> u32 \<Rightarrow> string" where
  "bc_generate_uuid a b0 c0 d =
    (let b = bc_uuid_version b0; c = bc_uuid_variant c0
     in take 36 (hex_pad 8 a @ ''-'' @ hex_pad 4 (drop_bit 16 b) @ ''-'' @ hex_pad 4 (b AND 0xFFFF)
          @ ''-'' @ hex_pad 4 (drop_bit 16 c) @ ''-'' @ hex_pad 4 (c AND 0xFFFF) @ hex_pad 8 d))"

lemma length_hex_nat_le: "0 < k \<Longrightarrow> n < 16 ^ k \<Longrightarrow> length (hex_nat n) \<le> k"
proof (induction n arbitrary: k rule: hex_nat.induct)
  case (1 n)
  show ?case
  proof (cases "n < 16")
    case True
    with "1.prems" show ?thesis by (simp add: hex_nat.simps [of n])
  next
    case False
    with "1.prems" obtain k' where k: "k = Suc k'" "0 < k'"
      by (cases k; cases "k - 1") auto
    with "1.prems" have "n div 16 < 16 ^ k'" by (simp add: less_mult_imp_div_less mult.commute)
    with "1.IH" [OF False k(2)] False k show ?thesis by (simp add: hex_nat.simps [of n])
  qed
qed

lemma length_hex_pad: "0 < k \<Longrightarrow> unat w < 16 ^ k \<Longrightarrow> length (hex_pad k w) = k"
  by (simp add: hex_pad_def Let_def length_hex_nat_le)

lemma unat_u32_less: "unat (w :: u32) < 4294967296"
proof -
  have "unat w < 2 ^ LENGTH(32)" by (rule unsigned_less)
  then show ?thesis by simp
qed

lemma unat_high_half: "unat (drop_bit 16 (w :: u32)) < 65536"
proof -
  have "unat w div 2 ^ 16 < 65536"
    using unat_u32_less [of w] by (simp add: less_mult_imp_div_less)
  then show ?thesis by (simp only: unat_drop_bit_div)
qed

lemma unat_low_half: "unat ((w :: u32) AND 0xFFFF) < 65536"
proof -
  have "w AND 0xFFFF \<le> 0xFFFF" by (rule word_and_le1)
  then have "unat (w AND 0xFFFF) \<le> unat (0xFFFF :: u32)" by (simp add: word_le_nat_alt)
  then show ?thesis by simp
qed

lemma length_bc_generate_uuid: "length (bc_generate_uuid a b c d) = 36"
  using unat_u32_less [of a] unat_u32_less [of d]
  by (simp add: bc_generate_uuid_def Let_def length_hex_pad unat_high_half unat_low_half)

lemma hex_pad_4_hd:
  assumes "unat w < 65536"
  shows "hd (hex_pad 4 w) = hex_digit (unat w div 4096)"
proof (cases "unat w < 4096")
  case True
  then have "length (hex_nat (unat w)) \<le> 3" by (intro length_hex_nat_le) auto
  moreover from True have "hex_digit (unat w div 4096) = CHR ''0''" by (simp add: hex_digit_def)
  ultimately show ?thesis by (simp add: hex_pad_def Let_def)
next
  case False
  from assms False have "\<not> unat w < 16" "\<not> unat w div 16 < 16" "\<not> unat w div 256 < 16" "unat w div 4096 < 16"
    by auto
  then have "hex_nat (unat w) = [hex_digit (unat w div 4096), hex_digit (unat w div 256),
      hex_digit (unat w div 16), hex_digit (unat w)]"
    by (simp add: hex_nat.simps [of "unat w"] hex_nat.simps [of "unat w div 16"]
        hex_nat.simps [of "unat w div 256"] hex_nat.simps [of "unat w div 4096"] div_mult2_eq [symmetric])
  then show ?thesis by (simp add: hex_pad_def)
qed

lemma hex_pad_4_first:
  assumes "unat w < 65536"
  shows "hex_pad 4 w ! 0 = hex_digit (unat w div 4096)"
proof -
  have "length (hex_pad 4 w) = 4" using assms by (simp add: length_hex_pad)
  then have "hex_pad 4 w \<noteq> []" by auto
  then show ?thesis using hex_pad_4_hd [OF assms] by (simp add: hd_conv_nth)
qed

lemma bc_uuid_masks:
  "(0xFFFF :: u32) = mask 16" "(0xFFFF0FFF :: u32) = NOT (push_bit 12 (mask 4))"
  "(0x00004000 :: u32) = push_bit 14 1" "(0x3FFFFFFF :: u32) = mask 30"
  "(0x80000000 :: u32) = push_bit 31 1"
  by (simp_all add: mask_eq_exp_minus_1 not_eq_complement)

lemma bc_uuid_version_nibble: "unat (bc_uuid_version b AND 0xFFFF) div 4096 = 4"
proof -
  have "drop_bit 12 (bc_uuid_version b AND 0xFFFF) = push_bit 2 1"
  proof (rule bit_word_eqI)
    fix i assume "i < LENGTH(32)"
    then consider "i = 0" | "i = 1" | "i = 2" | "i = 3" | "4 \<le> i" by fastforce
    then show "bit (drop_bit 12 (bc_uuid_version b AND 0xFFFF)) i = bit (push_bit 2 (1 :: u32)) i"
      unfolding bc_uuid_version_def bc_uuid_masks bit_push_bit_1 by cases (auto simp: bit_simps)
  qed
  then have "unat (drop_bit 12 (bc_uuid_version b AND 0xFFFF)) = 4" by simp
  then show ?thesis by (simp only: unat_drop_bit_div) simp
qed

lemma bc_uuid_variant_nibble: "unat (drop_bit 16 (bc_uuid_variant c)) div 4096 \<in> {8 ..< 12}"
proof -
  have "drop_bit 30 (bc_uuid_variant c) = push_bit 1 1"
  proof (rule bit_word_eqI)
    fix i assume "i < LENGTH(32)"
    then consider "i = 0" | "i = 1" | "2 \<le> i" by fastforce
    then show "bit (drop_bit 30 (bc_uuid_variant c)) i = bit (push_bit 1 (1 :: u32)) i"
      unfolding bc_uuid_variant_def bc_uuid_masks bit_push_bit_1 by cases (auto simp: bit_simps)
  qed
  then have "unat (drop_bit 30 (bc_uuid_variant c)) = 2" by simp
  then have "unat (bc_uuid_variant c) div 2 ^ 30 = 2" by (simp only: unat_drop_bit_div)
  then have "unat (bc_uuid_variant c) div 2 ^ 16 div 4096 \<in> {8 ..< 12}"
    by (simp add: div_mult2_eq [symmetric]) arith
  then show ?thesis by (simp only: unat_drop_bit_div)
qed

section \<open>Contracts\<close>

interpretation bc_frame_codec: codec bc_body_ok bc_frame "\<lambda>s. fst (bc_frame_decode s)"
proof
  fix json assume "bc_body_ok json"
  from bc_decode_frame [OF this, of "[]"] show "fst (bc_frame_decode (bc_frame json)) = json" by simp
qed

lemma bc_frame_encode_append:
  "json \<noteq> [] \<Longrightarrow> bc_frame_encode bev_append (Some out) json = (True, Some (out @ bc_frame json))"
  by (simp add: bc_frame_encode_def bev_append_def bc_frame_def)

lemma bc_frame_encode_rejects:
  "bc_frame_encode bw None json = (False, None)"
  "bc_frame_encode bw (Some b) [] = (False, Some b)"
  by (simp_all add: bc_frame_encode_def)

text \<open>
  A write that fails after the header leaves the header alone on the wire.
\<close>

lemma bc_frame_encode_torn:
  assumes "json \<noteq> []" and "bw b (bc_header (word_of_nat (length json))) = Some b1" and "bw b1 json = None"
  shows "bc_frame_encode bw (Some b) json = (False, Some b1)"
  using assms by (simp add: bc_frame_encode_def)

text \<open>A frame with an empty body ends the read loop although a complete frame follows it.\<close>

lemma bc_empty_frame_stops_loop:
  assumes "bc_body_ok json"
  shows "bc_decode_all (bc_header 0 @ bc_frame json) = ([], bc_frame json)"
  by (subst bc_decode_all.simps) (simp add: bc_frame_decode_header)

lemma bc_feed_stalled:
  assumes "\<And>more. bc_decode_all (buf @ more) = ([], buf @ more)"
  shows "bc_feed cs buf = ([], buf @ concat cs)"
proof (induction cs rule: rev_induct)
  case Nil
  then show ?case by simp
next
  case (snoc c cs)
  have "bc_feed cs' (buf @ pre) = ([], buf @ pre @ concat cs')" for cs' pre
    by (induction cs' arbitrary: pre) (auto simp: assms)
  from this [of "cs @ [c]" "[]"] show ?case by simp
qed

section \<open>Properties\<close>



text \<open>A header that announces more than 16 MB blocks the connection for good: the loop
  delivers no message and consumes no byte, now and after any further input, so the input buffer
  only grows.\<close>

theorem bc_oversized_stalls:
  assumes "n > bc_max_body"
  shows "bc_feed cs (bc_header n @ r) = ([], bc_header n @ r @ concat cs)"
proof -
  have "bc_decode_all ((bc_header n @ r) @ more) = ([], (bc_header n @ r) @ more)" for more
    by (subst bc_decode_all.simps) (simp add: bc_frame_decode_header assms)
  from bc_feed_stalled [OF this] show ?thesis by simp
qed

theorem bc_oversized_stalls_witness:
  "bc_feed [bc_frame ''{}''] (bc_header 0x7FFFFFFF) = ([], bc_header 0x7FFFFFFF @ bc_frame ''{}'')"
  using bc_oversized_stalls [of "0x7FFFFFFF" "[bc_frame ''{}'']" "[]"]
  by (simp add: bc_max_body_def word_less_nat_alt)

text \<open>Every generated identifier has the shape of a version 4 UUID: 36 characters, dashes at
  positions 8, 13, 18 and 23, the version digit 4 at position 14 and a variant digit 8, 9, a or b at
  position 19, whatever the random words are.\<close>

theorem bc_generate_uuid_format:
  "length (bc_generate_uuid a b c d) = 36 \<and>
   map ((!) (bc_generate_uuid a b c d)) [8, 13, 18, 23] = ''----'' \<and>
   bc_generate_uuid a b c d ! 14 = CHR ''4'' \<and>
   bc_generate_uuid a b c d ! 19 \<in> set ''89ab''"
proof -
  let ?b = "bc_uuid_version b" and ?c = "bc_uuid_variant c"
  have la: "length (hex_pad 8 a) = 8" and ld: "length (hex_pad 8 d) = 8"
    using unat_u32_less [of a] unat_u32_less [of d] by (simp_all add: length_hex_pad)
  have l4: "length (hex_pad 4 (drop_bit 16 ?b)) = 4" "length (hex_pad 4 (?b AND 0xFFFF)) = 4"
    "length (hex_pad 4 (drop_bit 16 ?c)) = 4" "length (hex_pad 4 (?c AND 0xFFFF)) = 4"
    using unat_high_half [of ?b] unat_low_half [of ?b] unat_high_half [of ?c] unat_low_half [of ?c]
    by (simp_all add: length_hex_pad)
  have v: "hex_pad 4 (?b AND 0xFFFF) ! 0 = CHR ''4''"
    using hex_pad_4_first [OF unat_low_half, of ?b]
    by (simp add: bc_uuid_version_nibble hex_digit_def)
  have "unat (drop_bit 16 ?c) div 4096 \<in> {8, 9, 10, 11}"
    using bc_uuid_variant_nibble [of c] by auto
  then have w: "hex_pad 4 (drop_bit 16 ?c) ! 0 \<in> set ''89ab''"
    using hex_pad_4_first [OF unat_high_half, of ?c]
    by (auto simp: hex_digit_def)
  from la ld l4 v w show ?thesis
    by (simp add: length_bc_generate_uuid) (simp add: bc_generate_uuid_def Let_def nth_append)
qed

end
