(* ===== verification/ZmJson.thy ===== *)
theory ZmJson
  imports ZmPrelude
begin

text \<open>
  JSON values and the helpers of \<open>util/zm_util_json\<close>.  \<open>ZMJSON\<close> is nlohmann's
  \<open>ordered_json\<close>: an object is the list of its members in insertion order.  The text form is
  produced and read by the vendored library; \<open>json_api\<close> holds these two functions as
  parameters.  A number that is not an integer is kept as the text the library prints for it.
\<close>

datatype json =
  JNull | JBool bool | JInt int | JFloat string | JStr string
| JArr "json list" | JObj "(string \<times> json) list"

record json_api =
  jparse :: "string \<Rightarrow> json option"
  jdump :: "json \<Rightarrow> string"

section \<open>Writing a value\<close>

text \<open>
  \<open>dump\<close> with its default error handler throws for a string, or a key, that is not UTF-8.
  \<open>utf8_scan\<close> is the automaton it decodes with (the table of \<open>decode\<close> in \<open>json/json.hpp\<close>): how
  many bytes of the sequence are missing, and the range of the next.
\<close>

definition utf8_lead :: "nat \<Rightarrow> (nat \<times> nat \<times> nat) option" where
  "utf8_lead n =
    (if 0xC2 \<le> n \<and> n \<le> 0xDF then Some (1, 0x80, 0xBF)
     else if n = 0xE0 then Some (2, 0xA0, 0xBF)
     else if n = 0xED then Some (2, 0x80, 0x9F)
     else if 0xE1 \<le> n \<and> n \<le> 0xEF then Some (2, 0x80, 0xBF)
     else if n = 0xF0 then Some (3, 0x90, 0xBF)
     else if 0xF1 \<le> n \<and> n \<le> 0xF3 then Some (3, 0x80, 0xBF)
     else if n = 0xF4 then Some (3, 0x80, 0x8F) else None)"

fun utf8_scan :: "nat \<times> nat \<times> nat \<Rightarrow> string \<Rightarrow> bool" where
  "utf8_scan (k, lo, hi) [] \<longleftrightarrow> k = 0"
| "utf8_scan (k, lo, hi) (c # s) \<longleftrightarrow>
    (if k = 0
     then (if char_code c < 0x80 then utf8_scan (0, 0, 0) s
           else case utf8_lead (char_code c) of None \<Rightarrow> False | Some st \<Rightarrow> utf8_scan st s)
     else lo \<le> char_code c \<and> char_code c \<le> hi \<and> utf8_scan (k - 1, 0x80, 0xBF) s)"

definition utf8_ok :: "string \<Rightarrow> bool" where
  "utf8_ok s \<longleftrightarrow> utf8_scan (0, 0, 0) s"

fun json_utf8 :: "json \<Rightarrow> bool" where
  "json_utf8 (JStr s) \<longleftrightarrow> utf8_ok s"
| "json_utf8 (JArr vs) \<longleftrightarrow> list_all json_utf8 vs"
| "json_utf8 (JObj kvs) \<longleftrightarrow> list_all (\<lambda>(k, v). utf8_ok k \<and> json_utf8 v) kvs"
| "json_utf8 _ \<longleftrightarrow> True"

definition json_dump :: "json_api \<Rightarrow> json \<Rightarrow> string option" where
  "json_dump J j = (if json_utf8 j then Some (jdump J j) else None)"

lemma utf8_ascii: "list_all (\<lambda>c. char_code c < 0x80) s \<Longrightarrow> utf8_ok s"
  unfolding utf8_ok_def by (induction s) simp_all

fun is_object :: "json \<Rightarrow> bool" where
  "is_object (JObj _) = True"
| "is_object _ = False"

fun json_find :: "json \<Rightarrow> string \<Rightarrow> json option" where
  "json_find (JObj kvs) k = map_of kvs k"
| "json_find _ k = None"

text \<open>\<open>operator[]\<close> with an assignment: an existing member keeps its place.\<close>

fun members_set :: "(string \<times> json) list \<Rightarrow> string \<Rightarrow> json \<Rightarrow> (string \<times> json) list" where
  "members_set [] k v = [(k, v)]"
| "members_set ((k', v') # kvs) k v =
    (if k' = k then (k, v) # kvs else (k', v') # members_set kvs k v)"

fun members_erase :: "(string \<times> json) list \<Rightarrow> string \<Rightarrow> (string \<times> json) list" where
  "members_erase [] k = []"
| "members_erase ((k', v') # kvs) k = (if k' = k then kvs else (k', v') # members_erase kvs k)"

section \<open>Reading members\<close>

text \<open>
  \<open>std::stoi\<close>: leading white space, an optional sign, then digits of the base; in base 16 an
  optional \<open>0x\<close>.  \<open>None\<close> stands for the two exceptions (no digits, value outside \<open>int\<close>), both
  of which the callers catch.
\<close>

definition is_space :: "char \<Rightarrow> bool" where
  "is_space c \<longleftrightarrow> char_code c = 32 \<or> (9 \<le> char_code c \<and> char_code c \<le> 13)"

definition digit_val :: "char \<Rightarrow> nat option" where
  "digit_val c =
    (let n = char_code c
     in if 48 \<le> n \<and> n \<le> 57 then Some (n - 48)
        else if 97 \<le> n \<and> n \<le> 122 then Some (n - 87)
        else if 65 \<le> n \<and> n \<le> 90 then Some (n - 55) else None)"

fun digits_acc :: "nat \<Rightarrow> string \<Rightarrow> int \<Rightarrow> bool \<Rightarrow> int option" where
  "digits_acc b [] acc seen = (if seen then Some acc else None)"
| "digits_acc b (c # cs) acc seen =
    (case digit_val c of
       Some d \<Rightarrow> if d < b then digits_acc b cs (acc * int b + int d) True
                 else if seen then Some acc else None
     | None \<Rightarrow> if seen then Some acc else None)"

definition skip_0x :: "nat \<Rightarrow> string \<Rightarrow> string" where
  "skip_0x b s =
    (case s of
       z # x # d # cs \<Rightarrow>
         if b = 16 \<and> z = CHR ''0'' \<and> (x = CHR ''x'' \<or> x = CHR ''X'') \<and>
            (\<exists>v \<in> set_option (digit_val d). v < 16)
         then d # cs else s
     | _ \<Rightarrow> s)"

definition stoi :: "nat \<Rightarrow> string \<Rightarrow> int option" where
  "stoi b str =
    (let s = dropWhile is_space str;
         neg = (s \<noteq> [] \<and> hd s = CHR ''-'');
         t = (if s \<noteq> [] \<and> (hd s = CHR ''-'' \<or> hd s = CHR ''+'') then tl s else s)
     in case digits_acc b (skip_0x b t) 0 False of
          None \<Rightarrow> None
        | Some v \<Rightarrow> let r = (if neg then - v else v)
                    in if - (2 ^ 31) \<le> r \<and> r < 2 ^ 31 then Some r else None)"

definition as_int32 :: "int \<Rightarrow> int" where
  "as_int32 v = signed_take_bit 31 v"

definition zm_json_get_int :: "json \<Rightarrow> string \<Rightarrow> int \<Rightarrow> int" where
  "zm_json_get_int json kname default_value =
    (case json_find json kname of
       None \<Rightarrow> default_value
     | Some (JInt v) \<Rightarrow> as_int32 v
     | Some (JStr str) \<Rightarrow>
         (let r = (if 2 < length str \<and> str ! 0 = CHR ''0'' \<and> (str ! 1 = CHR ''x'' \<or> str ! 1 = CHR ''X'')
                   then stoi 16 str else stoi 10 str)
          in case r of None \<Rightarrow> default_value | Some v \<Rightarrow> v)
     | Some (JBool b) \<Rightarrow> (if b then 1 else 0)
     | Some _ \<Rightarrow> default_value)"

definition zm_json_get_str :: "json_api \<Rightarrow> json \<Rightarrow> string \<Rightarrow> string \<Rightarrow> string" where
  "zm_json_get_str J json kname default_value =
    (case json_find json kname of
       None \<Rightarrow> default_value
     | Some (JStr s) \<Rightarrow> s
     | Some (JInt v) \<Rightarrow> jdump J (JInt v)
     | Some (JFloat v) \<Rightarrow> jdump J (JFloat v)
     | Some (JObj kvs) \<Rightarrow> jdump J (JObj kvs)
     | Some (JArr vs) \<Rightarrow> jdump J (JArr vs)
     | Some (JBool b) \<Rightarrow> (if b then ''true'' else ''false'')
     | Some JNull \<Rightarrow> default_value)"

definition is_false_word :: "string \<Rightarrow> bool" where
  "is_false_word str \<longleftrightarrow> length str = 5 \<and>
     (str ! 0 = CHR ''f'' \<or> str ! 0 = CHR ''F'') \<and> (str ! 1 = CHR ''a'' \<or> str ! 1 = CHR ''A'') \<and>
     (str ! 2 = CHR ''l'' \<or> str ! 2 = CHR ''L'') \<and> (str ! 3 = CHR ''s'' \<or> str ! 3 = CHR ''S'') \<and>
     (str ! 4 = CHR ''e'' \<or> str ! 4 = CHR ''E'')"

definition zm_json_get_bool :: "json \<Rightarrow> string \<Rightarrow> bool \<Rightarrow> bool" where
  "zm_json_get_bool json kname default_value =
    (case json_find json kname of
       None \<Rightarrow> default_value
     | Some (JBool b) \<Rightarrow> b
     | Some (JInt v) \<Rightarrow> as_int32 v \<noteq> 0
     | Some (JStr str) \<Rightarrow> \<not> (str = [] \<or> str = ''0'') \<and> \<not> is_false_word str
     | Some _ \<Rightarrow> default_value)"

definition zm_json_has :: "json \<Rightarrow> string \<Rightarrow> bool" where
  "zm_json_has json kname \<longleftrightarrow> is_object json \<and> json_find json kname \<noteq> None"

fun zm_json_size :: "json \<Rightarrow> nat" where
  "zm_json_size (JArr vs) = length vs"
| "zm_json_size (JObj kvs) = length kvs"
| "zm_json_size _ = 0"

section \<open>Changing objects\<close>

text \<open>\<open>find\<close> on a value that is not an object is \<open>end()\<close>, so nothing is erased.\<close>

fun zm_json_erase :: "json \<Rightarrow> string \<Rightarrow> json" where
  "zm_json_erase (JObj kvs) name = JObj (members_erase kvs name)"
| "zm_json_erase j name = j"

definition merge_members :: "(string \<times> json) list \<Rightarrow> (string \<times> json) list \<Rightarrow> (string \<times> json) list" where
  "merge_members tgt src = fold (\<lambda>(k, v) m. members_set m k v) src tgt"

definition zm_json_merge :: "json \<Rightarrow> json \<Rightarrow> json" where
  "zm_json_merge target source =
    (case source of
       JObj src \<Rightarrow>
         (let t = (case target of JNull \<Rightarrow> JObj [] | _ \<Rightarrow> target)
          in case t of JObj tgt \<Rightarrow> JObj (merge_members tgt src) | _ \<Rightarrow> t)
     | _ \<Rightarrow> target)"

text \<open>
  \<open>zm_json_set\<close>; on a value that is neither null nor an object \<open>operator[]\<close> throws
  (\<open>None\<close>).
\<close>

fun zm_json_set :: "json \<Rightarrow> string \<Rightarrow> json \<Rightarrow> json option" where
  "zm_json_set JNull k v = Some (JObj [(k, v)])"
| "zm_json_set (JObj kvs) k v = Some (JObj (members_set kvs k v))"
| "zm_json_set _ k v = None"

section \<open>Paths\<close>

fun split_on :: "char \<Rightarrow> string \<Rightarrow> string list" where
  "split_on d [] = [[]]"
| "split_on d (c # cs) =
    (if c = d then [] # split_on d cs
     else (case split_on d cs of [] \<Rightarrow> [[c]] | p # ps \<Rightarrow> (c # p) # ps))"

definition path_keys :: "string \<Rightarrow> string list" where
  "path_keys path = filter (\<lambda>k. k \<noteq> []) (split_on CHR ''.'' path)"

fun json_descend :: "json \<Rightarrow> string list \<Rightarrow> json option" where
  "json_descend j [] = Some j"
| "json_descend j (k # ks) =
    (case json_find j k of None \<Rightarrow> None | Some j' \<Rightarrow> json_descend j' ks)"

text \<open>\<open>get<T>()\<close> is the argument \<open>conv\<close>; \<open>None\<close> is the exception that the code catches.\<close>

definition zm_json_get_path :: "(json \<Rightarrow> 'a option) \<Rightarrow> json \<Rightarrow> string \<Rightarrow> 'a \<Rightarrow> 'a" where
  "zm_json_get_path conv json path default_value =
    (if \<not> is_object json \<or> path = [] then default_value
     else let keys = path_keys path
          in if keys = [] then default_value
             else case json_descend json keys of
                    None \<Rightarrow> default_value
                  | Some cur \<Rightarrow> (case conv cur of None \<Rightarrow> default_value | Some v \<Rightarrow> v))"

fun conv_all :: "(json \<Rightarrow> 'a option) \<Rightarrow> json list \<Rightarrow> 'a list option" where
  "conv_all conv [] = Some []"
| "conv_all conv (j # js) =
    (case conv j of None \<Rightarrow> None
     | Some v \<Rightarrow> (case conv_all conv js of None \<Rightarrow> None | Some vs \<Rightarrow> Some (v # vs)))"

definition zm_json_get_array :: "(json \<Rightarrow> 'a option) \<Rightarrow> json \<Rightarrow> string \<Rightarrow> 'a list \<Rightarrow> 'a list" where
  "zm_json_get_array conv json kname default_value =
    (case json_find json kname of
       Some (JArr vs) \<Rightarrow> (case conv_all conv vs of None \<Rightarrow> default_value | Some xs \<Rightarrow> xs)
     | _ \<Rightarrow> default_value)"

section \<open>Facts about objects\<close>

lemma map_of_members_set: "map_of (members_set kvs k v) = (map_of kvs)(k \<mapsto> v)"
  by (induction kvs k v rule: members_set.induct) auto

lemma keys_members_set:
  "map fst (members_set kvs k v) = (if k \<in> fst ` set kvs then map fst kvs else map fst kvs @ [k])"
  by (induction kvs k v rule: members_set.induct) (auto simp: image_iff)

lemma map_of_members_erase:
  "distinct (map fst kvs) \<Longrightarrow> map_of (members_erase kvs k) = (map_of kvs)(k := None)"
  by (induction kvs k rule: members_erase.induct) (auto simp: fun_eq_iff map_of_eq_None_iff)

lemma merge_members_Cons [simp]:
  "merge_members tgt ((k, v) # src) = merge_members (members_set tgt k v) src"
  by (simp add: merge_members_def)

lemma merge_members_Nil [simp]: "merge_members tgt [] = tgt"
  by (simp add: merge_members_def)

lemma map_of_merge_members:
  "distinct (map fst src) \<Longrightarrow> map_of (merge_members tgt src) = map_of tgt ++ map_of src"
proof (induction src arbitrary: tgt)
  case Nil
  then show ?case by simp
next
  case (Cons kv src)
  obtain k v where kv: "kv = (k, v)" by force
  with Cons.prems have "map_of src k = None" by (simp add: map_of_eq_None_iff)
  with Cons kv show ?case
    by (simp add: map_of_members_set) (auto simp: map_add_def fun_eq_iff split: option.splits)
qed

lemma keys_merge_members:
  "distinct (map fst src) \<Longrightarrow>
   map fst (merge_members tgt src) = map fst tgt @ filter (\<lambda>k. k \<notin> fst ` set tgt) (map fst src)"
proof (induction src arbitrary: tgt)
  case Nil
  then show ?case by simp
next
  case (Cons kv src)
  obtain k v where kv: "kv = (k, v)" by force
  have "fst ` set (members_set tgt k v) = insert k (fst ` set tgt)"
    using arg_cong [OF keys_members_set, of set tgt k v] by (auto split: if_splits)
  moreover have "k \<notin> fst ` set src" using Cons.prems kv by simp
  then have "filter (\<lambda>x. x \<notin> insert k (fst ` set tgt)) (map fst src) =
      filter (\<lambda>x. x \<notin> fst ` set tgt) (map fst src)"
    by (intro filter_cong) auto
  ultimately show ?case using Cons kv by (auto simp: keys_members_set)
qed

section \<open>Properties\<close>

text \<open>Merging two objects behaves as the union of two dictionaries in which the source wins,
  keeps every member of the target in its place and appends the new members in source order.\<close>

theorem zm_json_merge_objects:
  assumes "distinct (map fst src)"
  shows "json_find (zm_json_merge (JObj tgt) (JObj src)) k =
           (case map_of src k of None \<Rightarrow> map_of tgt k | Some v \<Rightarrow> Some v) \<and>
         (\<exists>kvs. zm_json_merge (JObj tgt) (JObj src) = JObj kvs \<and>
           map fst kvs = map fst tgt @ filter (\<lambda>k. k \<notin> fst ` set tgt) (map fst src))"
  using assms
  by (simp add: zm_json_merge_def map_of_merge_members keys_merge_members map_add_def)

theorem zm_json_merge_objects_witness:
  "json_find (zm_json_merge (JObj [(''a'', JInt 1), (''b'', JNull)]) (JObj [(''b'', JInt 2), (''c'', JInt 3)])) ''b''
     = Some (JInt 2)"
  using zm_json_merge_objects [of "[(''b'', JInt 2), (''c'', JInt 3)]" "[(''a'', JInt 1), (''b'', JNull)]" "''b''"]
  by simp

end
