(* ===== verification/BcServer.thy ===== *)
theory BcServer
  imports BcFrame ZmJson "HOL-Library.Signed_Division"
begin

unbundle bit_operations_syntax

text \<open>
  The TCP broadcast server, \<open>net/zm_net_broadcast_server\<close>.  \<open>bc_server\<close> holds the members of
  \<open>ZmBroadcastServer\<close>; \<open>m_clients\<close> is an association list (the iteration order of the
  \<open>unordered_map\<close> is not specified, and no result below depends on it), a \<open>bufferevent\<close> is
  the string of bytes handed to it, an \<open>event*\<close> is a handle, and \<open>ev_live\<close> lists the
  handles that were created and not freed.  \<open>sv_log\<close> records the calls of the callback set.
  The environment of a step (clock, random words, results of libevent) is the record
  \<open>bc_env\<close>.  Undefined behaviour is the result \<open>Inl\<close>.
\<close>

section \<open>State\<close>

record bc_server_config =
  cfg_listenIp :: string
  cfg_listenPort :: u16
  cfg_maxConnections :: int
  cfg_heartbeatTime :: int
  cfg_handshakeTimeout :: int
  cfg_clientQueueMaxSize :: nat
  cfg_evbase :: bool

definition bc_server_config_default :: bc_server_config where
  "bc_server_config_default =
    \<lparr>cfg_listenIp = ''0.0.0.0'', cfg_listenPort = 0, cfg_maxConnections = 0, cfg_heartbeatTime = 60,
     cfg_handshakeTimeout = 10, cfg_clientQueueMaxSize = 1024, cfg_evbase = False\<rparr>"

datatype bc_callback =
  OnListenSuccess u16 | OnListenFailed string | OnListenStopped
| OnClientOnline bc_client_info | OnClientOffline bc_client_info

record bc_client =
  cl_clientId :: string
  cl_in :: string
  cl_out :: string
  cl_info :: bc_client_info
  cl_msgQueue :: "string list"
  cl_heartbeatTimer :: "nat option"
  cl_handshakeTimer :: "nat option"
  cl_handshakeDone :: bool
  cl_lastActiveTime :: u64
  cl_lastDataSentTime :: u64

datatype bc_task_type = BC_TASK_START | BC_TASK_STOP | BC_TASK_SEND | BC_TASK_KICK

record bc_task =
  tk_type :: bc_task_type
  tk_message :: bc_message
  tk_clientId :: string
  tk_delayMs :: u32
  tk_timestampMs :: u64
  tk_isBroadcast :: bool

definition bc_message_empty :: bc_message where
  "bc_message_empty = \<lparr>msg_id = [], msg_topic = [], msg_tag = [], msg_content = [], msg_timestamp = []\<rparr>"

definition bc_task_new :: "bc_task_type \<Rightarrow> bc_task" where
  "bc_task_new t = \<lparr>tk_type = t, tk_message = bc_message_empty, tk_clientId = [], tk_delayMs = 0,
     tk_timestampMs = 0, tk_isBroadcast = False\<rparr>"

record bc_server =
  sv_config :: bc_server_config
  sv_state :: zm_broadcast_state
  sv_listenPort :: u16
  sv_listener :: bool
  sv_clients :: "(string \<times> bc_client) list"
  sv_pendingTasks :: "bc_task list"
  sv_dispatchEvent :: "nat option"
  sv_dispatchActive :: bool
  sv_retryTimer :: "nat option"
  sv_sentCount :: u64
  sv_discardCount :: u64
  sv_startTime :: u64
  sv_retryCount :: nat
  sv_loopThreadId :: "nat option"
  sv_delayed :: "(nat \<times> u32 \<times> bc_task) list"
  sv_log :: "bc_callback list"
  ev_next :: nat
  ev_live :: "nat list"

record bc_env =
  env_thread :: nat
  env_now :: u64
  env_uuid :: string
  env_timestamp :: string
  env_dispatch_ok :: bool
  env_bind :: "u16 option option"
  env_bev_ok :: bool
  env_peer :: "(string \<times> u16) option"

definition bc_server_new :: "bc_server_config \<Rightarrow> bc_server" where
  "bc_server_new config = \<lparr>sv_config = config, sv_state = ZM_BC_STATE_IDLE, sv_listenPort = 0,
     sv_listener = False, sv_clients = [], sv_pendingTasks = [], sv_dispatchEvent = None, sv_dispatchActive = False,
     sv_retryTimer = None, sv_sentCount = 0, sv_discardCount = 0, sv_startTime = 0,
     sv_retryCount = 0, sv_loopThreadId = None, sv_delayed = [], sv_log = [], ev_next = 0, ev_live = []\<rparr>"

section \<open>Events of libevent\<close>

definition event_new :: "bc_server \<Rightarrow> nat \<times> bc_server" where
  "event_new s = (ev_next s, s\<lparr>ev_next := Suc (ev_next s), ev_live := ev_next s # ev_live s\<rparr>)"

definition event_free :: "nat option \<Rightarrow> bc_server \<Rightarrow> bc_server" where
  "event_free h s = (case h of None \<Rightarrow> s | Some e \<Rightarrow> s\<lparr>ev_live := removeAll e (ev_live s)\<rparr>)"

definition sv_call :: "bc_callback \<Rightarrow> bc_server \<Rightarrow> bc_server" where
  "sv_call c s = s\<lparr>sv_log := sv_log s @ [c]\<rparr>"

fun clients_put :: "string \<Rightarrow> bc_client \<Rightarrow> (string \<times> bc_client) list \<Rightarrow> (string \<times> bc_client) list" where
  "clients_put k c [] = [(k, c)]"
| "clients_put k c ((k', c') # kcs) =
    (if k' = k then (k, c) # kcs else (k', c') # clients_put k c kcs)"

fun clients_erase :: "string \<Rightarrow> (string \<times> bc_client) list \<Rightarrow> (string \<times> bc_client) list" where
  "clients_erase k [] = []"
| "clients_erase k ((k', c') # kcs) = (if k' = k then kcs else (k', c') # clients_erase k kcs)"

section \<open>Queries and runtime configuration\<close>

definition GetConnectionCount :: "bc_server \<Rightarrow> nat" where
  "GetConnectionCount s = length (sv_clients s)"

definition GetRunningTime :: "bc_env \<Rightarrow> bc_server \<Rightarrow> u64" where
  "GetRunningTime E s =
    (if sv_startTime s = 0 then 0 else (env_now E - sv_startTime s) div 1000)"

definition client_snapshot :: "bc_client \<Rightarrow> bc_client_info" where
  "client_snapshot c = (cl_info c)\<lparr>ci_queuePending := length (cl_msgQueue c)\<rparr>"

definition bc_client_info_empty :: bc_client_info where
  "bc_client_info_empty = \<lparr>ci_clientId = [], ci_ip = [], ci_port = 0, ci_connectTime = 0, ci_tags = [],
     ci_queuePending = 0, ci_lastActiveTime = 0, ci_sentCount = 0\<rparr>"

definition GetClientInfo :: "string \<Rightarrow> bc_server \<Rightarrow> bc_client_info" where
  "GetClientInfo clientId s =
    (case map_of (sv_clients s) clientId of
       Some c \<Rightarrow> client_snapshot c | None \<Rightarrow> bc_client_info_empty)"

definition GetAllClients :: "bc_server \<Rightarrow> bc_client_info list" where
  "GetAllClients s = map (\<lambda>(k, c). client_snapshot c) (sv_clients s)"

definition SetMaxConnections :: "int \<Rightarrow> bc_server \<Rightarrow> bc_server" where
  "SetMaxConnections m s = s\<lparr>sv_config := (sv_config s)\<lparr>cfg_maxConnections := m\<rparr>\<rparr>"

definition SetHeartbeatTime :: "int \<Rightarrow> bc_server \<Rightarrow> bc_server" where
  "SetHeartbeatTime seconds s =
    (if seconds > 0 then s\<lparr>sv_config := (sv_config s)\<lparr>cfg_heartbeatTime := seconds\<rparr>\<rparr> else s)"

definition SetClientQueueMaxSize :: "nat \<Rightarrow> bc_server \<Rightarrow> bc_server" where
  "SetClientQueueMaxSize m s = s\<lparr>sv_config := (sv_config s)\<lparr>cfg_clientQueueMaxSize := m\<rparr>\<rparr>"

section \<open>Starting and stopping on the event loop\<close>

definition DoStart :: "bc_env \<Rightarrow> bc_server \<Rightarrow> bc_server" where
  "DoStart E s =
    (if \<not> cfg_evbase (sv_config s) then
       sv_call (OnListenFailed ''event_base is null'') (s\<lparr>sv_state := ZM_BC_STATE_ERROR\<rparr>)
     else
       let s1 = s\<lparr>sv_loopThreadId := Some (env_thread E)\<rparr>
       in if \<not> env_dispatch_ok E then
            sv_call (OnListenFailed ''Failed to create dispatch event'')
              (s1\<lparr>sv_dispatchEvent := None, sv_dispatchActive := False, sv_state := ZM_BC_STATE_ERROR\<rparr>)
          else
            let (d, s2) = event_new s1;
                s3 = s2\<lparr>sv_dispatchEvent := Some d, sv_dispatchActive := False\<rparr>;
                s4 = (event_free (sv_retryTimer s3) s3)\<lparr>sv_retryTimer := None\<rparr>
            in case env_bind E of
                 Some sock \<Rightarrow>
                   let s5 = s4\<lparr>sv_listener := True\<rparr>;
                       s6 = (case sock of
                               None \<Rightarrow> s5
                             | Some port \<Rightarrow>
                                 s5\<lparr>sv_listenPort := port,
                                   sv_config := (if cfg_listenPort (sv_config s5) = 0
                                     then (sv_config s5)\<lparr>cfg_listenPort := port\<rparr> else sv_config s5)\<rparr>)
                   in sv_call (OnListenSuccess (sv_listenPort s6))
                        (s6\<lparr>sv_startTime := env_now E, sv_retryCount := 0, sv_state := ZM_BC_STATE_LISTENING\<rparr>)
               | None \<Rightarrow>
                   let (t, s5) = event_new (s4\<lparr>sv_listener := False, sv_retryCount := Suc (sv_retryCount s4)\<rparr>)
                   in s5\<lparr>sv_retryTimer := Some t\<rparr>)"

text \<open>
  \<open>Start\<close>: the two compare-and-swap operations, then the check of the event base.  A \<open>True\<close>
  result means that \<open>DoStart\<close> was posted to the loop with \<open>event_base_once\<close>.
\<close>

definition Start :: "bc_server \<Rightarrow> bool \<times> bc_server" where
  "Start s =
    (if sv_state s \<noteq> ZM_BC_STATE_IDLE \<and> sv_state s \<noteq> ZM_BC_STATE_STOPPED then (False, s)
     else let s1 = s\<lparr>sv_state := ZM_BC_STATE_STARTING\<rparr>
          in if \<not> cfg_evbase (sv_config s1) then
               (False, sv_call (OnListenFailed ''evbase is null'') (s1\<lparr>sv_state := ZM_BC_STATE_ERROR\<rparr>))
             else (True, s1))"

definition RemoveClient :: "string \<Rightarrow> bc_server \<Rightarrow> bc_server" where
  "RemoveClient clientId s =
    (case map_of (sv_clients s) clientId of
       None \<Rightarrow> s
     | Some c \<Rightarrow>
         let s1 = s\<lparr>sv_clients := clients_erase clientId (sv_clients s)\<rparr>;
             s2 = sv_call (OnClientOffline (client_snapshot c)) s1;
             s3 = event_free (cl_handshakeTimer c) s2
         in event_free (cl_heartbeatTimer c) s3)"

definition DoStop :: "bc_server \<Rightarrow> bc_server" where
  "DoStop s =
    (let s1 = s\<lparr>sv_listener := False\<rparr>;
         allIds = map fst (sv_clients s1);
         s2 = fold RemoveClient allIds s1;
         s3 = (event_free (sv_retryTimer s2) s2)\<lparr>sv_retryTimer := None\<rparr>;
         s4 = (event_free (sv_dispatchEvent s3) s3)\<lparr>sv_dispatchEvent := None, sv_dispatchActive := False\<rparr>
     in sv_call OnListenStopped (s4\<lparr>sv_startTime := 0, sv_state := ZM_BC_STATE_STOPPED\<rparr>))"

section \<open>Connections\<close>

definition bc_settings_json :: "int \<Rightarrow> json" where
  "bc_settings_json heartbeatTime =
    JObj [(''settings'', JObj [(''heartbeat_time'', JInt heartbeatTime)])]"

definition write_frame :: "string \<Rightarrow> bc_client \<Rightarrow> bool \<times> bc_client" where
  "write_frame json c =
    (let (ok, out) = bc_frame_encode bev_append (Some (cl_out c)) json
     in (ok, c\<lparr>cl_out := (case out of None \<Rightarrow> cl_out c | Some o' \<Rightarrow> o')\<rparr>))"

definition OnAcceptConnCB :: "json_api \<Rightarrow> bc_env \<Rightarrow> bc_server \<Rightarrow> bc_server" where
  "OnAcceptConnCB J E s =
    (if cfg_maxConnections (sv_config s) > 0 \<and>
        int (length (sv_clients s)) \<ge> cfg_maxConnections (sv_config s) then s
     else if \<not> env_bev_ok E then s
     else
       let info = bc_client_info_empty\<lparr>ci_clientId := env_uuid E, ci_connectTime := env_now E,
                    ci_lastActiveTime := env_now E\<rparr>;
           info' = (case env_peer E of None \<Rightarrow> info
                    | Some (ip, port) \<Rightarrow> info\<lparr>ci_ip := ip, ci_port := port\<rparr>);
           c0 = \<lparr>cl_clientId = env_uuid E, cl_in = [], cl_out = [], cl_info = info', cl_msgQueue = [],
                  cl_heartbeatTimer = None, cl_handshakeTimer = None, cl_handshakeDone = False,
                  cl_lastActiveTime = env_now E, cl_lastDataSentTime = 0\<rparr>;
           (ok, c1) = write_frame (jdump J (bc_settings_json (cfg_heartbeatTime (sv_config s)))) c0;
           (t, s1) = event_new s;
           c2 = c1\<lparr>cl_lastDataSentTime := env_now E, cl_handshakeTimer := Some t\<rparr>
       in s1\<lparr>sv_clients := clients_put (env_uuid E) c2 (sv_clients s1)\<rparr>)"

definition put_client :: "bc_client \<Rightarrow> bc_server \<Rightarrow> bc_server" where
  "put_client c s = s\<lparr>sv_clients := clients_put (cl_clientId c) c (sv_clients s)\<rparr>"

fun subscribe_tags :: "json list \<Rightarrow> string list \<Rightarrow> string list" where
  "subscribe_tags [] tags = tags"
| "subscribe_tags (JStr t # js) tags =
    (if t \<in> set tags then subscribe_tags js tags else subscribe_tags js (tags @ [t]))"
| "subscribe_tags (_ # js) tags = subscribe_tags js tags"

fun unsubscribe_tags :: "json list \<Rightarrow> string list \<Rightarrow> string list" where
  "unsubscribe_tags [] tags = tags"
| "unsubscribe_tags (JStr t # js) tags = unsubscribe_tags js (remove1 t tags)"
| "unsubscribe_tags (_ # js) tags = unsubscribe_tags js tags"

definition set_tags :: "(string list \<Rightarrow> string list) \<Rightarrow> bc_client \<Rightarrow> bc_client" where
  "set_tags f c = c\<lparr>cl_info := (cl_info c)\<lparr>ci_tags := f (ci_tags (cl_info c))\<rparr>\<rparr>"

section \<open>Messages from a client\<close>

definition ping_interval :: "int \<Rightarrow> int" where
  "ping_interval heartbeatTime = (let p = heartbeatTime sdiv 2 in if p < 1 then 1 else p)"

definition msg_tags :: "json \<Rightarrow> json list option" where
  "msg_tags msg = (case json_find msg ''tags'' of Some (JArr ts) \<Rightarrow> Some ts | _ \<Rightarrow> None)"

text \<open>
  One round of the loop of \<open>OnClientReadCB\<close>, for a decoded non-empty frame.  \<open>continue\<close> is
  returning the state.
\<close>

definition handle_client_frame :: "json_api \<Rightarrow> bc_env \<Rightarrow> string \<Rightarrow> bc_client \<times> bc_server \<Rightarrow> bc_client \<times> bc_server" where
  "handle_client_frame J E json cs =
    (let (c0, s) = cs;
         c = c0\<lparr>cl_lastActiveTime := env_now E,
                cl_info := (cl_info c0)\<lparr>ci_lastActiveTime := env_now E\<rparr>\<rparr>
     in case jparse J json of
          None \<Rightarrow> (c, s)
        | Some msg \<Rightarrow>
            if \<not> is_object msg then (c, s)
            else
              let action = zm_json_get_str J msg ''action'' []
              in if action = ''confirm_settings'' then
                   if cl_handshakeDone c then (c, s)
                   else
                     let s1 = event_free (cl_handshakeTimer c) s;
                         (t, s2) = event_new s1;
                         c1 = c\<lparr>cl_handshakeDone := True, cl_handshakeTimer := None,
                                cl_heartbeatTimer := Some t\<rparr>
                     in (c1, sv_call (OnClientOnline (cl_info c1)) s2)
                 else if action = ''pong'' then (c, s)
                 else if action = ''subscribe'' then
                   (case msg_tags msg of
                      None \<Rightarrow> (c, s) | Some ts \<Rightarrow> (set_tags (subscribe_tags ts) c, s))
                 else if action = ''unsubscribe'' then
                   (case msg_tags msg of
                      None \<Rightarrow> (c, s) | Some ts \<Rightarrow> (set_tags (unsubscribe_tags ts) c, s))
                 else (c, s))"

text \<open>
  \<open>OnClientReadCB\<close> with the bytes that arrived since the last call.  libevent delivers no
  callback for a freed \<open>bufferevent\<close>, so an unknown client leaves the state alone.
\<close>

definition OnClientReadCB :: "json_api \<Rightarrow> bc_env \<Rightarrow> string \<Rightarrow> string \<Rightarrow> bc_server \<Rightarrow> bc_server" where
  "OnClientReadCB J E clientId data s =
    (case map_of (sv_clients s) clientId of
       None \<Rightarrow> s
     | Some c \<Rightarrow>
         let (msgs, left) = bc_decode_all (cl_in c @ data);
             (c', s') = fold (handle_client_frame J E) msgs (c\<lparr>cl_in := left\<rparr>, s)
         in put_client c' s')"

definition BEV_EVENT_EOF :: u16 where "BEV_EVENT_EOF = 0x10"

definition BEV_EVENT_ERROR :: u16 where "BEV_EVENT_ERROR = 0x20"

definition BEV_EVENT_TIMEOUT :: u16 where "BEV_EVENT_TIMEOUT = 0x40"

definition BEV_EVENT_CONNECTED :: u16 where "BEV_EVENT_CONNECTED = 0x80"

definition OnClientEventCB :: "string \<Rightarrow> u16 \<Rightarrow> bc_server \<Rightarrow> bc_server" where
  "OnClientEventCB clientId events s =
    (if events AND BEV_EVENT_EOF \<noteq> 0 \<or> events AND BEV_EVENT_ERROR \<noteq> 0 \<or>
        events AND BEV_EVENT_TIMEOUT \<noteq> 0
     then RemoveClient clientId s else s)"

definition client_write_done :: "bc_client \<Rightarrow> bc_client" where
  "client_write_done c =
    (let c1 = (case cl_msgQueue c of [] \<Rightarrow> c | _ # q \<Rightarrow> c\<lparr>cl_msgQueue := q\<rparr>)
     in case cl_msgQueue c1 of [] \<Rightarrow> c1 | f # _ \<Rightarrow> c1\<lparr>cl_out := cl_out c1 @ f\<rparr>)"

definition OnClientWriteCB :: "string \<Rightarrow> bc_server \<Rightarrow> bc_server" where
  "OnClientWriteCB clientId s =
    (case map_of (sv_clients s) clientId of
       None \<Rightarrow> s | Some c \<Rightarrow> put_client (client_write_done c) s)"

definition OnHandshakeTimeoutCB :: "string \<Rightarrow> bc_server \<Rightarrow> bc_server" where
  "OnHandshakeTimeoutCB clientId s = RemoveClient clientId s"

definition bc_ping_json :: json where
  "bc_ping_json = JObj [(''action'', JStr ''ping'')]"

definition OnHeartbeatCheckCB :: "json_api \<Rightarrow> bc_env \<Rightarrow> string \<Rightarrow> bc_server \<Rightarrow> bc_server" where
  "OnHeartbeatCheckCB J E clientId s =
    (case map_of (sv_clients s) clientId of
       None \<Rightarrow> s
     | Some c \<Rightarrow>
         let now = env_now E;
             heartbeatTimeMs = (word_of_int (cfg_heartbeatTime (sv_config s)) :: u64) * 1000;
             p = (word_of_int (cfg_heartbeatTime (sv_config s) sdiv 2) :: u64) * 1000;
             pingIntervalMs = (if p < 1000 then 1000 else p);
             elapsed = now - cl_lastActiveTime c
         in if elapsed \<ge> heartbeatTimeMs then RemoveClient clientId s
            else if now - cl_lastDataSentTime c \<ge> pingIntervalMs then
              (let (ok, c1) = write_frame (jdump J bc_ping_json) c
               in put_client (if ok then c1\<lparr>cl_lastDataSentTime := now\<rparr> else c1) s)
            else s)"

section \<open>Sending\<close>

text \<open>
  \<open>DeliverToClient\<close> on one client; the flag says that the oldest frame was dropped.  With a
  queue limit of 0 the code pops from an empty \<open>deque\<close>.
\<close>

definition DeliverToClient :: "nat \<Rightarrow> string \<Rightarrow> bc_client \<Rightarrow> mem_error + (bc_client \<times> bool)" where
  "DeliverToClient maxSize jsonStr c =
    (let frame = bc_frame jsonStr;
         full = (length (cl_msgQueue c) \<ge> maxSize)
     in if full \<and> cl_msgQueue c = [] then Inl OutOfBounds
        else
          let q = (if full then tl (cl_msgQueue c) else cl_msgQueue c) @ [frame];
              out = (if length q = 1 then cl_out c @ hd q else cl_out c);
              info = (cl_info c)\<lparr>ci_sentCount := ci_sentCount (cl_info c) + 1,
                                 ci_queuePending := length q\<rparr>
          in Inr (c\<lparr>cl_msgQueue := q, cl_out := out, cl_info := info\<rparr>, full))"

definition tag_matches :: "string \<Rightarrow> bc_client \<Rightarrow> bool" where
  "tag_matches tag c \<longleftrightarrow> tag = [] \<or> tag \<in> set (ci_tags (cl_info c))"

fun broadcast_clients ::
  "nat \<Rightarrow> string \<Rightarrow> string \<Rightarrow> (string \<times> bc_client) list \<Rightarrow> mem_error + ((string \<times> bc_client) list \<times> nat \<times> nat)" where
  "broadcast_clients m tag jsonStr [] = Inr ([], 0, 0)"
| "broadcast_clients m tag jsonStr ((k, c) # kcs) =
    (if \<not> cl_handshakeDone c \<or> \<not> tag_matches tag c then
       (case broadcast_clients m tag jsonStr kcs of
          Inl e \<Rightarrow> Inl e
        | Inr (kcs', n, d) \<Rightarrow> Inr ((k, c) # kcs', n, d))
     else
       (case DeliverToClient m jsonStr c of
          Inl e \<Rightarrow> Inl e
        | Inr (c', dropped) \<Rightarrow>
            (case broadcast_clients m tag jsonStr kcs of
               Inl e \<Rightarrow> Inl e
             | Inr (kcs', n, d) \<Rightarrow> Inr ((k, c') # kcs', Suc n, (if dropped then Suc d else d)))))"

definition actual_delay :: "u64 \<Rightarrow> u32 \<Rightarrow> u64 \<Rightarrow> u32" where
  "actual_delay now delayMs timestampMs =
    (if timestampMs > 0 then (if timestampMs > now then ucast (timestampMs - now) else 0) else delayMs)"

definition bc_wire_json :: "json_api \<Rightarrow> bc_message \<Rightarrow> json" where
  "bc_wire_json J msg =
    JObj [(''id'', JStr (msg_id msg)), (''timestamp'', JStr (msg_timestamp msg)),
          (''topic'', JStr (msg_topic msg)),
          (''content'', (case jparse J (msg_content msg) of Some j \<Rightarrow> j | None \<Rightarrow> JStr (msg_content msg)))]"

definition DoSend ::
  "json_api \<Rightarrow> bc_env \<Rightarrow> bc_message \<Rightarrow> string \<Rightarrow> bool \<Rightarrow> u32 \<Rightarrow> u64 \<Rightarrow> bc_server \<Rightarrow> mem_error + bc_server" where
  "DoSend J E msg clientId isBroadcast delayMs timestampMs s =
    (let actualDelay = actual_delay (env_now E) delayMs timestampMs
     in if actualDelay > 0 then
          let (t, s1) = event_new s;
              task = (bc_task_new BC_TASK_SEND)\<lparr>tk_clientId := clientId, tk_isBroadcast := isBroadcast,
                       tk_message := msg\<rparr>
          in Inr (s1\<lparr>sv_delayed := sv_delayed s1 @ [(t, actualDelay, task)]\<rparr>)
        else
          let jsonStr = jdump J (bc_wire_json J msg);
              m = cfg_clientQueueMaxSize (sv_config s)
          in if isBroadcast then
               (case broadcast_clients m (msg_tag msg) jsonStr (sv_clients s) of
                  Inl e \<Rightarrow> Inl e
                | Inr (kcs, n, d) \<Rightarrow>
                    Inr (s\<lparr>sv_clients := kcs, sv_sentCount := sv_sentCount s + word_of_nat n,
                           sv_discardCount := sv_discardCount s + word_of_nat d\<rparr>))
             else
               (case map_of (sv_clients s) clientId of
                  None \<Rightarrow> Inr s
                | Some c \<Rightarrow>
                    if \<not> cl_handshakeDone c \<or> \<not> tag_matches (msg_tag msg) c then Inr s
                    else (case DeliverToClient m jsonStr c of
                            Inl e \<Rightarrow> Inl e
                          | Inr (c', dropped) \<Rightarrow>
                              Inr (s\<lparr>sv_clients := clients_put clientId c' (sv_clients s),
                                     sv_sentCount := sv_sentCount s + 1,
                                     sv_discardCount := sv_discardCount s + (if dropped then 1 else 0)\<rparr>))))"

section \<open>Tasks\<close>

definition ExecuteTask :: "json_api \<Rightarrow> bc_env \<Rightarrow> bc_task \<Rightarrow> bc_server \<Rightarrow> mem_error + bc_server" where
  "ExecuteTask J E task s =
    (case tk_type task of
       BC_TASK_START \<Rightarrow> Inr (DoStart E s)
     | BC_TASK_STOP \<Rightarrow> Inr (DoStop s)
     | BC_TASK_SEND \<Rightarrow> DoSend J E (tk_message task) (tk_clientId task) (tk_isBroadcast task)
                         (tk_delayMs task) (tk_timestampMs task) s
     | BC_TASK_KICK \<Rightarrow> Inr (RemoveClient (tk_clientId task) s))"

text \<open>
  \<open>ScheduleTask\<close> called on the thread of \<open>env_thread\<close>: directly on the loop thread, otherwise
  queued, with the dispatch event made active when there is one.
\<close>

definition ScheduleTask :: "json_api \<Rightarrow> bc_env \<Rightarrow> bc_task \<Rightarrow> bc_server \<Rightarrow> mem_error + bc_server" where
  "ScheduleTask J E task s =
    (if sv_loopThreadId s = Some (env_thread E) then ExecuteTask J E task s
     else Inr (s\<lparr>sv_pendingTasks := sv_pendingTasks s @ [task],
                 sv_dispatchActive := (sv_dispatchEvent s \<noteq> None \<or> sv_dispatchActive s)\<rparr>))"

fun execute_tasks :: "json_api \<Rightarrow> bc_env \<Rightarrow> bc_task list \<Rightarrow> bc_server \<Rightarrow> mem_error + bc_server" where
  "execute_tasks J E [] s = Inr s"
| "execute_tasks J E (t # ts) s =
    (case ExecuteTask J E t s of Inl e \<Rightarrow> Inl e | Inr s' \<Rightarrow> execute_tasks J E ts s')"

definition OnDispatchEventCB :: "json_api \<Rightarrow> bc_env \<Rightarrow> bc_server \<Rightarrow> mem_error + bc_server" where
  "OnDispatchEventCB J E s =
    execute_tasks J E (sv_pendingTasks s) (s\<lparr>sv_pendingTasks := [], sv_dispatchActive := False\<rparr>)"

definition AsyncStop :: "json_api \<Rightarrow> bc_env \<Rightarrow> bc_server \<Rightarrow> mem_error + bc_server" where
  "AsyncStop J E s =
    (let stop = ScheduleTask J E (bc_task_new BC_TASK_STOP)
     in case sv_state s of
          ZM_BC_STATE_LISTENING \<Rightarrow> stop (s\<lparr>sv_state := ZM_BC_STATE_STOPPING\<rparr>)
        | ZM_BC_STATE_STARTING \<Rightarrow> stop (s\<lparr>sv_state := ZM_BC_STATE_STOPPING\<rparr>)
        | ZM_BC_STATE_STOPPED \<Rightarrow> Inr s
        | ZM_BC_STATE_IDLE \<Rightarrow> Inr s
        | ZM_BC_STATE_STOPPING \<Rightarrow> Inr s
        | ZM_BC_STATE_ERROR \<Rightarrow> stop s)"

definition send_task :: "bc_env \<Rightarrow> string \<Rightarrow> bool \<Rightarrow> string \<Rightarrow> string \<Rightarrow> string \<Rightarrow> u32 \<Rightarrow> u64 \<Rightarrow> bc_task" where
  "send_task E clientId isBroadcast topic content tag delayMs timestampMs =
    (bc_task_new BC_TASK_SEND)\<lparr>tk_clientId := clientId, tk_isBroadcast := isBroadcast,
       tk_delayMs := delayMs, tk_timestampMs := timestampMs,
       tk_message := \<lparr>msg_id = env_uuid E, msg_topic = topic, msg_tag = tag, msg_content = content,
                      msg_timestamp = env_timestamp E\<rparr>\<rparr>"

text \<open>The entry points return \<open>false\<close> on an invalid argument, before anything is queued.\<close>

definition scheduled :: "mem_error + bc_server \<Rightarrow> mem_error + (bool \<times> bc_server)" where
  "scheduled r = (case r of Inl e \<Rightarrow> Inl e | Inr s \<Rightarrow> Inr (True, s))"

definition Send :: "json_api \<Rightarrow> bc_env \<Rightarrow> string \<Rightarrow> string \<Rightarrow> string \<Rightarrow> string \<Rightarrow> bc_server \<Rightarrow> mem_error + (bool \<times> bc_server)" where
  "Send J E clientId topic content tag s =
    (if clientId = [] \<or> topic = [] then Inr (False, s)
     else scheduled (ScheduleTask J E (send_task E clientId False topic content tag 0 0) s))"

definition Broadcast :: "json_api \<Rightarrow> bc_env \<Rightarrow> string \<Rightarrow> string \<Rightarrow> string \<Rightarrow> bc_server \<Rightarrow> mem_error + (bool \<times> bc_server)" where
  "Broadcast J E topic content tag s =
    (if topic = [] then Inr (False, s)
     else scheduled (ScheduleTask J E (send_task E [] True topic content tag 0 0) s))"

definition SendDelayed ::
  "json_api \<Rightarrow> bc_env \<Rightarrow> string \<Rightarrow> string \<Rightarrow> string \<Rightarrow> string \<Rightarrow> u32 \<Rightarrow> bc_server \<Rightarrow> mem_error + (bool \<times> bc_server)" where
  "SendDelayed J E clientId topic content tag delayMs s =
    (if clientId = [] \<or> topic = [] then Inr (False, s)
     else scheduled (ScheduleTask J E (send_task E clientId False topic content tag delayMs 0) s))"

definition BroadcastDelayed ::
  "json_api \<Rightarrow> bc_env \<Rightarrow> string \<Rightarrow> string \<Rightarrow> string \<Rightarrow> u32 \<Rightarrow> bc_server \<Rightarrow> mem_error + (bool \<times> bc_server)" where
  "BroadcastDelayed J E topic content tag delayMs s =
    (if topic = [] then Inr (False, s)
     else scheduled (ScheduleTask J E (send_task E [] True topic content tag delayMs 0) s))"

definition SendAt ::
  "json_api \<Rightarrow> bc_env \<Rightarrow> string \<Rightarrow> string \<Rightarrow> string \<Rightarrow> string \<Rightarrow> u64 \<Rightarrow> bc_server \<Rightarrow> mem_error + (bool \<times> bc_server)" where
  "SendAt J E clientId topic content tag timestampMs s =
    (if clientId = [] \<or> topic = [] then Inr (False, s)
     else scheduled (ScheduleTask J E (send_task E clientId False topic content tag 0 timestampMs) s))"

definition BroadcastAt ::
  "json_api \<Rightarrow> bc_env \<Rightarrow> string \<Rightarrow> string \<Rightarrow> string \<Rightarrow> u64 \<Rightarrow> bc_server \<Rightarrow> mem_error + (bool \<times> bc_server)" where
  "BroadcastAt J E topic content tag timestampMs s =
    (if topic = [] then Inr (False, s)
     else scheduled (ScheduleTask J E (send_task E [] True topic content tag 0 timestampMs) s))"

definition KickClient :: "json_api \<Rightarrow> bc_env \<Rightarrow> string \<Rightarrow> bc_server \<Rightarrow> mem_error + (bool \<times> bc_server)" where
  "KickClient J E clientId s =
    (if clientId = [] then Inr (False, s)
     else if map_of (sv_clients s) clientId = None then Inr (False, s)
     else scheduled (ScheduleTask J E ((bc_task_new BC_TASK_KICK)\<lparr>tk_clientId := clientId\<rparr>) s))"

text \<open>The timer of a delayed message fires: the heap task is taken out and runs as an immediate one.\<close>

definition OnDelayedSendCB :: "json_api \<Rightarrow> bc_env \<Rightarrow> nat \<Rightarrow> bc_server \<Rightarrow> mem_error + bc_server" where
  "OnDelayedSendCB J E timer s =
    (case map_of (sv_delayed s) timer of
       None \<Rightarrow> Inr s
     | Some (ms, task) \<Rightarrow>
         let s1 = event_free (Some timer) (s\<lparr>sv_delayed := filter (\<lambda>d. fst d \<noteq> timer) (sv_delayed s)\<rparr>)
         in ScheduleTask J E (task\<lparr>tk_delayMs := 0, tk_timestampMs := 0\<rparr>) s1)"

section \<open>Steps of the whole server\<close>

datatype bc_event =
  EvStart | EvDoStart | EvAsyncStop | EvAccept
| EvRead string string | EvWritten string | EvBufferEvent string u16
| EvHandshakeTimeout string | EvHeartbeat string | EvDispatch | EvDelayed nat
| EvSend string string string string | EvBroadcast string string string
| EvSendDelayed string string string string u32 | EvBroadcastDelayed string string string u32
| EvSendAt string string string string u64 | EvBroadcastAt string string string u64
| EvKick string | EvSetMaxConnections int | EvSetHeartbeat int | EvSetQueueMax nat

definition drop_result :: "mem_error + (bool \<times> bc_server) \<Rightarrow> mem_error + bc_server" where
  "drop_result r = (case r of Inl e \<Rightarrow> Inl e | Inr (b, s) \<Rightarrow> Inr s)"

fun bc_server_step :: "json_api \<Rightarrow> bc_env \<Rightarrow> bc_event \<Rightarrow> bc_server \<Rightarrow> mem_error + bc_server" where
  "bc_server_step J E EvStart s = Inr (snd (Start s))"
| "bc_server_step J E EvDoStart s = Inr (DoStart E s)"
| "bc_server_step J E EvAsyncStop s = AsyncStop J E s"
| "bc_server_step J E EvAccept s = Inr (OnAcceptConnCB J E s)"
| "bc_server_step J E (EvRead k d) s = Inr (OnClientReadCB J E k d s)"
| "bc_server_step J E (EvWritten k) s = Inr (OnClientWriteCB k s)"
| "bc_server_step J E (EvBufferEvent k ev) s = Inr (OnClientEventCB k ev s)"
| "bc_server_step J E (EvHandshakeTimeout k) s = Inr (OnHandshakeTimeoutCB k s)"
| "bc_server_step J E (EvHeartbeat k) s = Inr (OnHeartbeatCheckCB J E k s)"
| "bc_server_step J E EvDispatch s = OnDispatchEventCB J E s"
| "bc_server_step J E (EvDelayed t) s = OnDelayedSendCB J E t s"
| "bc_server_step J E (EvSend k tp ct tg) s = drop_result (Send J E k tp ct tg s)"
| "bc_server_step J E (EvBroadcast tp ct tg) s = drop_result (Broadcast J E tp ct tg s)"
| "bc_server_step J E (EvSendDelayed k tp ct tg d) s = drop_result (SendDelayed J E k tp ct tg d s)"
| "bc_server_step J E (EvBroadcastDelayed tp ct tg d) s = drop_result (BroadcastDelayed J E tp ct tg d s)"
| "bc_server_step J E (EvSendAt k tp ct tg ts) s = drop_result (SendAt J E k tp ct tg ts s)"
| "bc_server_step J E (EvBroadcastAt tp ct tg ts) s = drop_result (BroadcastAt J E tp ct tg ts s)"
| "bc_server_step J E (EvKick k) s = drop_result (KickClient J E k s)"
| "bc_server_step J E (EvSetMaxConnections m) s = Inr (SetMaxConnections m s)"
| "bc_server_step J E (EvSetHeartbeat m) s = Inr (SetHeartbeatTime m s)"
| "bc_server_step J E (EvSetQueueMax m) s = Inr (SetClientQueueMaxSize m s)"

text \<open>A run stops at the first undefined behaviour.\<close>

definition bc_server_run :: "json_api \<Rightarrow> (bc_env \<times> bc_event) list \<Rightarrow> bc_server \<Rightarrow> mem_error + bc_server" where
  "bc_server_run J = run_steps (\<lambda>(E, e). bc_server_step J E e)"

lemma bc_server_run_simps [simp]:
  "bc_server_run J [] s = Inr s"
  "bc_server_run J ((E, e) # es) s =
    (case bc_server_step J E e s of Inl err \<Rightarrow> Inl err | Inr s' \<Rightarrow> bc_server_run J es s')"
  by (simp_all add: bc_server_run_def split: sum.splits)

end
