(* ===== verification/BcClient.thy ===== *)
theory BcClient
  imports BcServer
begin

unbundle bit_operations_syntax

text \<open>
  The TCP broadcast client, \<open>net/zm_net_broadcast_client\<close>.  \<open>bc_cli\<close> holds the members of
  \<open>ZmBroadcastClient\<close>.  A connection is the bytes received and not decoded and the bytes written,
  with the event callback that is installed on it.  \<open>cc_posted\<close> is the queue of closures handed to
  \<open>event_base_once\<close>, run by the loop in order; a thread that waits in \<open>Disconnect\<close> for its closure
  finishes in a step of its own (\<open>cc_waiting\<close> counts those whose promise is set).  Messages given to
  the thread pool are listed in \<open>cc_submitted\<close>, calls of the other callbacks in \<open>cc_log\<close>.
\<close>

section \<open>State\<close>

record bc_cli_config =
  cf_serverIp :: string
  cf_serverPort :: u16
  cf_handshakeTimeout :: int
  cf_initialTags :: "string list"
  cf_evbase :: bool

datatype bc_cli_callback =
  OnConnected string u16 | OnConnectFailed string | OnDisconnected | OnError string

record bc_conn =
  cn_in :: string
  cn_out :: string
  cn_connected :: bool

datatype bc_cli_task = BC_CLIENT_TASK_CONNECT | BC_CLIENT_TASK_DISCONNECT | BC_CLIENT_TASK_SEND string

datatype bc_posted = PostConnect | PostDisconnect

record bc_cli =
  cc_config :: bc_cli_config
  cc_state :: zm_broadcast_state
  cc_threadPool :: bool
  cc_bev :: "bc_conn option"
  cc_retryTimer :: "nat option"
  cc_handshakeTimer :: "nat option"
  cc_dispatchEvent :: "nat option"
  cc_dispatchActive :: bool
  cc_handshakeDone :: bool
  cc_startTime :: u64
  cc_receivedCount :: u64
  cc_currentTags :: "string list"
  cc_pendingTasks :: "bc_cli_task list"
  cc_loopThreadId :: "nat option"
  cc_posted :: "bc_posted list"
  cc_waiting :: nat
  cc_submitted :: "(string \<times> string) list"
  cc_log :: "bc_cli_callback list"
  ce_next :: nat
  ce_live :: "nat list"

record bc_cli_env =
  cv_thread :: nat
  cv_now :: u64
  cv_dispatch_ok :: bool
  cv_bev_ok :: bool
  cv_pton_ok :: bool
  cv_connect_ok :: bool

definition bc_cli_new :: "bc_cli_config \<Rightarrow> bc_cli" where
  "bc_cli_new config = \<lparr>cc_config = config, cc_state = ZM_BC_STATE_IDLE, cc_threadPool = False, cc_bev = None,
     cc_retryTimer = None, cc_handshakeTimer = None, cc_dispatchEvent = None, cc_dispatchActive = False,
     cc_handshakeDone = False, cc_startTime = 0, cc_receivedCount = 0, cc_currentTags = cf_initialTags config,
     cc_pendingTasks = [], cc_loopThreadId = None, cc_posted = [], cc_waiting = 0, cc_submitted = [], cc_log = [],
     ce_next = 0, ce_live = []\<rparr>"

section \<open>Events and callbacks\<close>

definition cc_event_new :: "bc_cli \<Rightarrow> nat \<times> bc_cli" where
  "cc_event_new s = (ce_next s, s\<lparr>ce_next := Suc (ce_next s), ce_live := ce_next s # ce_live s\<rparr>)"

definition cc_event_free :: "nat option \<Rightarrow> bc_cli \<Rightarrow> bc_cli" where
  "cc_event_free h s = (case h of None \<Rightarrow> s | Some e \<Rightarrow> s\<lparr>ce_live := removeAll e (ce_live s)\<rparr>)"

definition cc_call :: "bc_cli_callback \<Rightarrow> bc_cli \<Rightarrow> bc_cli" where
  "cc_call c s = s\<lparr>cc_log := cc_log s @ [c]\<rparr>"

definition free_retry :: "bc_cli \<Rightarrow> bc_cli" where
  "free_retry s = (cc_event_free (cc_retryTimer s) s)\<lparr>cc_retryTimer := None\<rparr>"

definition free_handshake :: "bc_cli \<Rightarrow> bc_cli" where
  "free_handshake s = (cc_event_free (cc_handshakeTimer s) s)\<lparr>cc_handshakeTimer := None\<rparr>"

definition free_dispatch :: "bc_cli \<Rightarrow> bc_cli" where
  "free_dispatch s =
    (cc_event_free (cc_dispatchEvent s) s)\<lparr>cc_dispatchEvent := None,
       cc_dispatchActive := (cc_dispatchActive s \<and> cc_dispatchEvent s = None)\<rparr>"

definition cli_GetRunningTime :: "bc_cli_env \<Rightarrow> bc_cli \<Rightarrow> u64" where
  "cli_GetRunningTime E s = (if cc_startTime s = 0 then 0 else (cv_now E - cc_startTime s) div 1000)"

section \<open>Connecting and disconnecting\<close>

definition ScheduleRetry :: "bc_cli \<Rightarrow> bc_cli" where
  "ScheduleRetry s =
    (if \<not> cf_evbase (cc_config s) then s
     else let (t, s1) = cc_event_new (free_retry s) in s1\<lparr>cc_retryTimer := Some t\<rparr>)"

definition connect_failed :: "string \<Rightarrow> bc_cli \<Rightarrow> bc_cli" where
  "connect_failed msg s =
    (let s1 = cc_call (OnConnectFailed msg) (s\<lparr>cc_bev := None\<rparr>)
     in if cc_state s1 \<noteq> ZM_BC_STATE_STOPPED then ScheduleRetry s1 else s1)"

definition ensure_dispatch :: "bc_cli_env \<Rightarrow> bc_cli \<Rightarrow> bc_cli" where
  "ensure_dispatch E s =
    (if cc_dispatchEvent s = None \<and> cv_dispatch_ok E
     then let (d, s') = cc_event_new s in s'\<lparr>cc_dispatchEvent := Some d\<rparr> else s)"

definition DoConnect :: "bc_cli_env \<Rightarrow> bc_cli \<Rightarrow> bc_cli" where
  "DoConnect E s =
    (let s1 = (free_retry s)\<lparr>cc_loopThreadId := Some (cv_thread E)\<rparr>
     in if \<not> cf_evbase (cc_config s1) then
          cc_call (OnError ''event_base is null'') (s1\<lparr>cc_state := ZM_BC_STATE_ERROR\<rparr>)
        else
          let s2 = ensure_dispatch E s1
          in if \<not> cv_bev_ok E then connect_failed ''Failed to create socket'' s2
             else if \<not> cv_pton_ok E then
               connect_failed (''Invalid server IP: '' @ cf_serverIp (cc_config s2)) s2
             else if \<not> cv_connect_ok E then connect_failed ''Connect failed immediately'' s2
             else s2\<lparr>cc_bev := Some \<lparr>cn_in = [], cn_out = [], cn_connected = False\<rparr>\<rparr>)"

definition Connect :: "bc_cli \<Rightarrow> bool \<times> bc_cli" where
  "Connect s =
    (if cc_state s \<noteq> ZM_BC_STATE_IDLE \<and> cc_state s \<noteq> ZM_BC_STATE_STOPPED then (False, s)
     else
       let s1 = s\<lparr>cc_state := ZM_BC_STATE_STARTING\<rparr>
       in if cf_serverIp (cc_config s1) = [] \<or> cf_serverPort (cc_config s1) = 0 \<or> \<not> cf_evbase (cc_config s1) then
            (False, cc_call (OnError ''Invalid config: serverIp/serverPort/evbase required'')
                      (s1\<lparr>cc_state := ZM_BC_STATE_ERROR\<rparr>))
          else (True, s1\<lparr>cc_threadPool := True, cc_posted := cc_posted s1 @ [PostConnect]\<rparr>))"

definition DoDisconnect :: "bc_cli \<Rightarrow> bc_cli" where
  "DoDisconnect s =
    (free_dispatch (free_retry (free_handshake s)))\<lparr>cc_bev := None, cc_handshakeDone := False,
       cc_startTime := 0, cc_state := ZM_BC_STATE_STOPPED\<rparr>"

definition disconnect_finish :: "bc_cli \<Rightarrow> bc_cli" where
  "disconnect_finish s = (cc_call OnDisconnected s)\<lparr>cc_threadPool := False\<rparr>"

definition Disconnect :: "bc_cli_env \<Rightarrow> bc_cli \<Rightarrow> bc_cli" where
  "Disconnect E s =
    (if cc_state s \<in> {ZM_BC_STATE_STARTING, ZM_BC_STATE_LISTENING, ZM_BC_STATE_ERROR} then
       let s1 = s\<lparr>cc_state := ZM_BC_STATE_STOPPING\<rparr>
       in if cc_loopThreadId s1 = Some (cv_thread E) then disconnect_finish (DoDisconnect s1)
          else if cf_evbase (cc_config s1) then s1\<lparr>cc_posted := cc_posted s1 @ [PostDisconnect]\<rparr>
          else disconnect_finish s1
     else s)"

text \<open>The loop runs the next posted closure.\<close>

definition run_posted :: "bc_cli_env \<Rightarrow> bc_cli \<Rightarrow> bc_cli" where
  "run_posted E s =
    (case cc_posted s of
       [] \<Rightarrow> s
     | PostConnect # ps \<Rightarrow> DoConnect E (s\<lparr>cc_posted := ps\<rparr>)
     | PostDisconnect # ps \<Rightarrow>
         (let s1 = DoDisconnect (s\<lparr>cc_posted := ps\<rparr>) in s1\<lparr>cc_waiting := Suc (cc_waiting s1)\<rparr>))"

definition wake_disconnect :: "bc_cli \<Rightarrow> bc_cli" where
  "wake_disconnect s =
    (case cc_waiting s of 0 \<Rightarrow> s | Suc n \<Rightarrow> disconnect_finish (s\<lparr>cc_waiting := n\<rparr>))"

section \<open>Tasks\<close>

definition bev_send :: "string \<Rightarrow> bc_cli \<Rightarrow> bc_cli" where
  "bev_send json s =
    (case cc_bev s of
       None \<Rightarrow> s
     | Some cn \<Rightarrow>
         let (ok, out) = bc_frame_encode bev_append (Some (cn_out cn)) json
         in s\<lparr>cc_bev := Some (cn\<lparr>cn_out := (case out of None \<Rightarrow> cn_out cn | Some b \<Rightarrow> b)\<rparr>)\<rparr>)"

definition cli_ExecuteTask :: "bc_cli_env \<Rightarrow> bc_cli_task \<Rightarrow> bc_cli \<Rightarrow> bc_cli" where
  "cli_ExecuteTask E task s =
    (case task of
       BC_CLIENT_TASK_CONNECT \<Rightarrow> DoConnect E s
     | BC_CLIENT_TASK_DISCONNECT \<Rightarrow> DoDisconnect s
     | BC_CLIENT_TASK_SEND json \<Rightarrow> bev_send json s)"

definition cli_ScheduleTask :: "bc_cli_env \<Rightarrow> bc_cli_task \<Rightarrow> bc_cli \<Rightarrow> bc_cli" where
  "cli_ScheduleTask E task s =
    (if cc_loopThreadId s = Some (cv_thread E) then cli_ExecuteTask E task s
     else s\<lparr>cc_pendingTasks := cc_pendingTasks s @ [task],
            cc_dispatchActive := (cc_dispatchActive s \<or> cc_dispatchEvent s \<noteq> None)\<rparr>)"

definition cli_OnDispatchEventCB :: "bc_cli_env \<Rightarrow> bc_cli \<Rightarrow> bc_cli" where
  "cli_OnDispatchEventCB E s =
    fold (cli_ExecuteTask E) (cc_pendingTasks s) (s\<lparr>cc_pendingTasks := [], cc_dispatchActive := False\<rparr>)"

definition SendJson :: "bc_cli_env \<Rightarrow> string \<Rightarrow> bc_cli \<Rightarrow> bc_cli" where
  "SendJson E json s = (if json = [] then s else cli_ScheduleTask E (BC_CLIENT_TASK_SEND json) s)"

section \<open>Tags\<close>

fun add_tags :: "string list \<Rightarrow> string list \<Rightarrow> string list" where
  "add_tags [] current = current"
| "add_tags (t # ts) current = add_tags ts (if t \<in> set current then current else current @ [t])"

fun drop_tags :: "string list \<Rightarrow> string list \<Rightarrow> string list" where
  "drop_tags [] current = current"
| "drop_tags (t # ts) current = drop_tags ts (remove1 t current)"

definition tags_json :: "string \<Rightarrow> string list \<Rightarrow> json" where
  "tags_json action tags = JObj [(''action'', JStr action), (''tags'', JArr (map JStr tags))]"

definition Subscribe :: "json_api \<Rightarrow> bc_cli_env \<Rightarrow> string list \<Rightarrow> bc_cli \<Rightarrow> bool \<times> bc_cli" where
  "Subscribe J E tags s =
    (if tags = [] then (False, s)
     else
       let s1 = s\<lparr>cc_currentTags := add_tags tags (cc_currentTags s)\<rparr>
       in (True, if cc_handshakeDone s1 then SendJson E (jdump J (tags_json ''subscribe'' tags)) s1 else s1))"

definition Unsubscribe :: "json_api \<Rightarrow> bc_cli_env \<Rightarrow> string list \<Rightarrow> bc_cli \<Rightarrow> bool \<times> bc_cli" where
  "Unsubscribe J E tags s =
    (if tags = [] then (False, s)
     else
       let s1 = s\<lparr>cc_currentTags := drop_tags tags (cc_currentTags s)\<rparr>
       in (True, if cc_handshakeDone s1 then SendJson E (jdump J (tags_json ''unsubscribe'' tags)) s1 else s1))"

definition SendCurrentTags :: "json_api \<Rightarrow> bc_cli_env \<Rightarrow> bc_cli \<Rightarrow> bc_cli" where
  "SendCurrentTags J E s =
    (if cc_currentTags s = [] then s
     else SendJson E (jdump J (tags_json ''subscribe'' (cc_currentTags s))) s)"

section \<open>Messages from the server\<close>

definition action_json :: "string \<Rightarrow> json" where
  "action_json action = JObj [(''action'', JStr action)]"

definition is_settings :: "json \<Rightarrow> bool" where
  "is_settings msg = (case json_find msg ''settings'' of Some j \<Rightarrow> is_object j | None \<Rightarrow> False)"

definition msg_content_text :: "json_api \<Rightarrow> json \<Rightarrow> string" where
  "msg_content_text J msg =
    (case json_find msg ''content'' of None \<Rightarrow> [] | Some (JStr t) \<Rightarrow> t | Some j \<Rightarrow> jdump J j)"

definition HandleMessage :: "json_api \<Rightarrow> bc_cli_env \<Rightarrow> string \<Rightarrow> bc_cli \<Rightarrow> bc_cli" where
  "HandleMessage J E json s =
    (case jparse J json of
       None \<Rightarrow> s
     | Some msg \<Rightarrow>
         if \<not> is_object msg then s
         else if is_settings msg then
           let s1 = SendJson E (jdump J (action_json ''confirm_settings'')) s;
               s2 = (free_handshake s1)\<lparr>cc_handshakeDone := True, cc_startTime := cv_now E,
                      cc_state := ZM_BC_STATE_LISTENING\<rparr>;
               s3 = SendCurrentTags J E s2
           in cc_call (OnConnected (cf_serverIp (cc_config s3)) (cf_serverPort (cc_config s3))) s3
         else if zm_json_get_str J msg ''action'' [] = ''ping'' then
           SendJson E (jdump J (action_json ''pong'')) s
         else if json_find msg ''id'' \<noteq> None \<and> json_find msg ''topic'' \<noteq> None then
           let s1 = s\<lparr>cc_receivedCount := cc_receivedCount s + 1\<rparr>
           in if cc_threadPool s1
              then s1\<lparr>cc_submitted := cc_submitted s1 @
                     [(zm_json_get_str J msg ''topic'' [], msg_content_text J msg)]\<rparr>
              else s1
         else s)"

section \<open>Callbacks of the connection\<close>

definition OnConnectCB :: "bool \<Rightarrow> bc_cli \<Rightarrow> bc_cli" where
  "OnConnectCB connected s =
    (if connected then
       let s1 = free_retry (s\<lparr>cc_bev := map_option (\<lambda>cn. cn\<lparr>cn_connected := True\<rparr>) (cc_bev s)\<rparr>);
           (t, s2) = cc_event_new s1
       in s2\<lparr>cc_handshakeTimer := Some t\<rparr>
     else connect_failed ''Connection failed'' s)"

definition OnReadCB :: "json_api \<Rightarrow> bc_cli_env \<Rightarrow> string \<Rightarrow> bc_cli \<Rightarrow> bc_cli" where
  "OnReadCB J E data s =
    (case cc_bev s of
       None \<Rightarrow> s
     | Some cn \<Rightarrow>
         let (msgs, left) = bc_decode_all (cn_in cn @ data)
         in fold (HandleMessage J E) msgs (s\<lparr>cc_bev := Some (cn\<lparr>cn_in := left\<rparr>)\<rparr>))"

definition OnEventCB :: "u16 \<Rightarrow> bc_cli \<Rightarrow> bc_cli" where
  "OnEventCB events s =
    (if events AND (BEV_EVENT_EOF OR BEV_EVENT_ERROR OR BEV_EVENT_TIMEOUT) \<noteq> 0 then
       let s1 = cc_call OnDisconnected ((free_handshake s)\<lparr>cc_bev := None, cc_handshakeDone := False\<rparr>)
       in if cc_state s1 \<noteq> ZM_BC_STATE_STOPPED then ScheduleRetry s1 else s1
     else s)"

definition cli_OnHandshakeTimeoutCB :: "bc_cli \<Rightarrow> bc_cli" where
  "cli_OnHandshakeTimeoutCB s =
    ScheduleRetry ((free_handshake s)\<lparr>cc_bev := None, cc_handshakeDone := False\<rparr>)"

text \<open>
  The event callback of a connection: \<open>OnConnectCB\<close> until the connection is up, then \<open>OnEventCB\<close>.
  Without a connection libevent calls neither.
\<close>

definition conn_event :: "u16 \<Rightarrow> bc_cli \<Rightarrow> bc_cli" where
  "conn_event events s =
    (case cc_bev s of
       None \<Rightarrow> s
     | Some cn \<Rightarrow> if cn_connected cn then OnEventCB events s else OnConnectCB (events AND BEV_EVENT_CONNECTED \<noteq> 0) s)"

section \<open>Steps of the whole client\<close>

datatype bc_cli_event =
  CvConnect | CvDisconnect | CvPosted | CvWake | CvConnEvent u16 | CvRead string
| CvRetry | CvHandshakeTimeout | CvDispatch | CvSubscribe "string list" | CvUnsubscribe "string list"

text \<open>A timer callback runs only while its timer exists.\<close>

fun bc_cli_step :: "json_api \<Rightarrow> bc_cli_env \<Rightarrow> bc_cli_event \<Rightarrow> bc_cli \<Rightarrow> bc_cli" where
  "bc_cli_step J E CvConnect s = snd (Connect s)"
| "bc_cli_step J E CvDisconnect s = Disconnect E s"
| "bc_cli_step J E CvPosted s = run_posted E s"
| "bc_cli_step J E CvWake s = wake_disconnect s"
| "bc_cli_step J E (CvConnEvent ev) s = conn_event ev s"
| "bc_cli_step J E (CvRead d) s = OnReadCB J E d s"
| "bc_cli_step J E CvRetry s = (if cc_retryTimer s = None then s else DoConnect E s)"
| "bc_cli_step J E CvHandshakeTimeout s =
    (if cc_handshakeTimer s = None then s else cli_OnHandshakeTimeoutCB s)"
| "bc_cli_step J E CvDispatch s = (if cc_dispatchActive s then cli_OnDispatchEventCB E s else s)"
| "bc_cli_step J E (CvSubscribe ts) s = snd (Subscribe J E ts s)"
| "bc_cli_step J E (CvUnsubscribe ts) s = snd (Unsubscribe J E ts s)"

definition bc_cli_run :: "json_api \<Rightarrow> (bc_cli_env \<times> bc_cli_event) list \<Rightarrow> bc_cli \<Rightarrow> bc_cli" where
  "bc_cli_run J es s = fold (\<lambda>(E, e). bc_cli_step J E e) es s"

end
