(* ===== verification/BcServerInv.thy ===== *)
theory BcServerInv
  imports BcServer "HOL-Library.Multiset"
begin

text \<open>
  The invariant of the broadcast server, for every order of API calls and libevent callbacks:
  a client is stored under its own id, its subscriptions have no duplicates, it has exactly one
  timer (the handshake timer before the handshake, the heartbeat timer after it), and every
  event handle the server refers to is live and referred to once, so that no event is freed
  twice or used after it was freed.
\<close>

section \<open>The client table\<close>

lemma map_of_clients_put: "map_of (clients_put k c kcs) = (map_of kcs)(k \<mapsto> c)"
  by (induction k c kcs rule: clients_put.induct) auto

lemma keys_clients_put:
  "map fst (clients_put k c kcs) = (if k \<in> fst ` set kcs then map fst kcs else map fst kcs @ [k])"
  by (induction k c kcs rule: clients_put.induct) (auto simp: image_iff)

lemma set_clients_put: "set (clients_put k c kcs) \<subseteq> insert (k, c) (set kcs)"
  by (induction k c kcs rule: clients_put.induct) auto

lemma set_clients_erase: "set (clients_erase k kcs) \<subseteq> set kcs"
  by (induction k kcs rule: clients_erase.induct) auto

lemma keys_clients_erase: "map fst (clients_erase k kcs) = remove1 k (map fst kcs)"
  by (induction k kcs rule: clients_erase.induct) auto

lemma map_of_clients_erase:
  "distinct (map fst kcs) \<Longrightarrow> map_of (clients_erase k kcs) = (map_of kcs)(k := None)"
  by (induction k kcs rule: clients_erase.induct) (auto simp: fun_eq_iff map_of_eq_None_iff)

lemma clients_erase_None: "map_of kcs k = None \<Longrightarrow> clients_erase k kcs = kcs"
  by (induction k kcs rule: clients_erase.induct) (auto split: if_splits)

lemma distinct_clients_put: "distinct (map fst kcs) \<Longrightarrow> distinct (map fst (clients_put k c kcs))"
  by (simp add: keys_clients_put)

lemma distinct_clients_erase: "distinct (map fst kcs) \<Longrightarrow> distinct (map fst (clients_erase k kcs))"
  by (simp add: keys_clients_erase)

section \<open>Event handles\<close>

definition opt_handle :: "nat option \<Rightarrow> nat multiset" where
  "opt_handle h = (case h of None \<Rightarrow> {#} | Some e \<Rightarrow> {#e#})"

definition client_handles :: "bc_client \<Rightarrow> nat multiset" where
  "client_handles c = opt_handle (cl_heartbeatTimer c) + opt_handle (cl_handshakeTimer c)"

fun clients_handles :: "(string \<times> bc_client) list \<Rightarrow> nat multiset" where
  "clients_handles [] = {#}"
| "clients_handles ((k, c) # kcs) = client_handles c + clients_handles kcs"

definition delayed_handles :: "(nat \<times> u32 \<times> bc_task) list \<Rightarrow> nat multiset" where
  "delayed_handles ds = mset (map fst ds)"

definition server_handles :: "bc_server \<Rightarrow> nat multiset" where
  "server_handles s = clients_handles (sv_clients s) + delayed_handles (sv_delayed s)
     + opt_handle (sv_retryTimer s) + opt_handle (sv_dispatchEvent s)"

definition handles_ok :: "nat multiset \<Rightarrow> bc_server \<Rightarrow> bool" where
  "handles_ok H s \<longleftrightarrow> H \<subseteq># mset (ev_live s) \<and> distinct (ev_live s) \<and> (\<forall>e \<in> set (ev_live s). e < ev_next s)"

lemma opt_handle_simps [simp]: "opt_handle None = {#}" "opt_handle (Some e) = {#e#}"
  by (simp_all add: opt_handle_def)

lemma clients_handles_put_Some:
  "map_of kcs k = Some c0 \<Longrightarrow>
   clients_handles (clients_put k c kcs) + client_handles c0 = clients_handles kcs + client_handles c"
  by (induction k c kcs rule: clients_put.induct) (auto simp: ac_simps split: if_splits)

lemma clients_handles_put_None:
  "map_of kcs k = None \<Longrightarrow> clients_handles (clients_put k c kcs) = clients_handles kcs + client_handles c"
  by (induction k c kcs rule: clients_put.induct) (auto simp: ac_simps split: if_splits)

lemma clients_handles_erase:
  "map_of kcs k = Some c \<Longrightarrow> clients_handles (clients_erase k kcs) + client_handles c = clients_handles kcs"
  by (induction k kcs rule: clients_erase.induct) (auto simp: ac_simps split: if_splits)

lemma handles_ok_mono: "handles_ok H s \<Longrightarrow> H' \<subseteq># H \<Longrightarrow> handles_ok H' s"
  by (auto simp: handles_ok_def)

lemma handles_ok_new:
  assumes "handles_ok H s"
  shows "handles_ok (add_mset (ev_next s) H) (snd (event_new s))"
  using assms by (auto simp: handles_ok_def event_new_def)

lemma handles_ok_free:
  assumes "handles_ok (opt_handle h + H) s"
  shows "handles_ok H (event_free h s)"
proof (cases h)
  case None
  with assms show ?thesis by (simp add: event_free_def)
next
  case (Some e)
  from assms Some have sub: "add_mset e H \<subseteq># mset (ev_live s)" and d: "distinct (ev_live s)"
    and b: "\<forall>e \<in> set (ev_live s). e < ev_next s"
    by (auto simp: handles_ok_def)
  have "mset (removeAll e (ev_live s)) = mset (ev_live s) - {#e#}"
    using d by (simp add: distinct_remove1_removeAll [symmetric])
  moreover have "H \<subseteq># mset (ev_live s) - {#e#}"
    using sub by (simp add: insert_subset_eq_iff)
  ultimately show ?thesis using Some d b by (auto simp: handles_ok_def event_free_def distinct_removeAll)
qed

section \<open>The invariant\<close>

definition client_ok :: "string \<Rightarrow> bc_client \<Rightarrow> bool" where
  "client_ok k c \<longleftrightarrow> cl_clientId c = k \<and> ci_clientId (cl_info c) = k \<and> distinct (ci_tags (cl_info c)) \<and>
     (cl_heartbeatTimer c \<noteq> None \<longleftrightarrow> cl_handshakeDone c) \<and>
     (cl_handshakeTimer c = None \<longleftrightarrow> cl_handshakeDone c)"

definition server_inv :: "bc_server \<Rightarrow> bool" where
  "server_inv s \<longleftrightarrow> distinct (map fst (sv_clients s)) \<and> (\<forall>(k, c) \<in> set (sv_clients s). client_ok k c) \<and>
     handles_ok (server_handles s) s"

lemma server_inv_cong:
  assumes "server_inv s" and "sv_clients s' = sv_clients s" and "sv_delayed s' = sv_delayed s"
    and "sv_retryTimer s' = sv_retryTimer s" and "sv_dispatchEvent s' = sv_dispatchEvent s"
    and "ev_live s' = ev_live s" and "ev_next s' = ev_next s"
  shows "server_inv s'"
  using assms by (simp add: server_inv_def server_handles_def handles_ok_def)

lemma server_inv_state: "server_inv s \<Longrightarrow> server_inv (s\<lparr>sv_state := st\<rparr>)"
  by (erule server_inv_cong) simp_all

lemma server_inv_call [step_inv]: "server_inv s \<Longrightarrow> server_inv (sv_call cb s)"
  by (erule server_inv_cong) (simp_all add: sv_call_def)

text \<open>A client taken out of the table while a callback works on it.\<close>

definition other_handles :: "string \<Rightarrow> bc_server \<Rightarrow> nat multiset" where
  "other_handles k s = clients_handles (clients_erase k (sv_clients s)) + delayed_handles (sv_delayed s)
     + opt_handle (sv_retryTimer s) + opt_handle (sv_dispatchEvent s)"

definition checked_out :: "string \<Rightarrow> bc_client \<Rightarrow> bc_server \<Rightarrow> bool" where
  "checked_out k c s \<longleftrightarrow> distinct (map fst (sv_clients s)) \<and>
     (\<forall>(k', c') \<in> set (sv_clients s). k' \<noteq> k \<longrightarrow> client_ok k' c') \<and> client_ok k c \<and>
     handles_ok (other_handles k s + client_handles c) s"

lemma clients_handles_put:
  "clients_handles (clients_put k c kcs) = clients_handles (clients_erase k kcs) + client_handles c"
proof (cases "map_of kcs k")
  case None
  then show ?thesis by (simp add: clients_handles_put_None clients_erase_None)
next
  case (Some c0)
  from clients_handles_put_Some [OF Some, of c] clients_handles_erase [OF Some]
  have "clients_handles (clients_put k c kcs) + client_handles c0
      = clients_handles (clients_erase k kcs) + client_handles c + client_handles c0"
    by (simp add: ac_simps)
  then show ?thesis by simp
qed

lemma checked_out_put:
  assumes "checked_out k c s"
  shows "server_inv (put_client c s)"
proof -
  from assms have k: "cl_clientId c = k" by (simp add: checked_out_def client_ok_def)
  have "\<forall>(k', c') \<in> set (clients_put k c (sv_clients s)). client_ok k' c'"
  proof clarify
    fix k' c' assume m: "(k', c') \<in> set (clients_put k c (sv_clients s))"
    have "distinct (map fst (clients_put k c (sv_clients s)))"
      using assms by (simp add: checked_out_def distinct_clients_put)
    with m have "map_of (clients_put k c (sv_clients s)) k' = Some c'" by simp
    then show "client_ok k' c'"
      using assms by (auto simp: map_of_clients_put checked_out_def split: if_splits dest: map_of_SomeD)
  qed
  moreover have "server_handles (put_client c s) = other_handles k s + client_handles c"
    by (simp add: server_handles_def other_handles_def put_client_def k clients_handles_put ac_simps)
  ultimately show ?thesis
    using assms unfolding server_inv_def
    by (simp add: put_client_def k checked_out_def distinct_clients_put handles_ok_def)
qed

lemma server_inv_check_out:
  assumes "server_inv s" and "map_of (sv_clients s) k = Some c"
  shows "checked_out k c s"
proof -
  from assms(2) have "(k, c) \<in> set (sv_clients s)" by (rule map_of_SomeD)
  moreover have "server_handles s = other_handles k s + client_handles c"
    using clients_handles_erase [OF assms(2)]
    by (simp add: server_handles_def other_handles_def ac_simps)
  ultimately show ?thesis using assms(1) by (auto simp: server_inv_def checked_out_def)
qed

section \<open>Every operation keeps the invariant\<close>

lemma server_inv_new: "server_inv (bc_server_new cfg)"
  by (simp add: server_inv_def bc_server_new_def server_handles_def handles_ok_def delayed_handles_def)

lemma RemoveClient_inv [step_inv]:
  assumes "server_inv s"
  shows "server_inv (RemoveClient k s)"
proof (cases "map_of (sv_clients s) k")
  case None
  with assms show ?thesis by (simp add: RemoveClient_def)
next
  case (Some c)
  let ?s2 = "sv_call (OnClientOffline (client_snapshot c)) (s\<lparr>sv_clients := clients_erase k (sv_clients s)\<rparr>)"
  from server_inv_check_out [OF assms Some] have co: "checked_out k c s" .
  then have "handles_ok (opt_handle (cl_handshakeTimer c) + (opt_handle (cl_heartbeatTimer c) + other_handles k s)) ?s2"
    by (simp add: checked_out_def handles_ok_def sv_call_def client_handles_def ac_simps)
  then have "handles_ok (other_handles k s)
      (event_free (cl_heartbeatTimer c) (event_free (cl_handshakeTimer c) ?s2))"
    by (intro handles_ok_free)
  moreover have "\<forall>(k', c') \<in> set (clients_erase k (sv_clients s)). client_ok k' c'"
    using assms set_clients_erase [of k "sv_clients s"] by (auto simp: server_inv_def)
  ultimately show ?thesis
    using Some assms
    by (simp add: RemoveClient_def server_inv_def event_free_def sv_call_def distinct_clients_erase
        server_handles_def other_handles_def split: option.splits)
qed

lemma fold_RemoveClient_inv: "server_inv s \<Longrightarrow> server_inv (fold RemoveClient ks s)"
  by (induction ks arbitrary: s) (auto intro: RemoveClient_inv)

text \<open>Freeing one of the server's own handles, and creating one.\<close>

lemma handles_ok_cong:
  "handles_ok H s \<Longrightarrow> ev_live s' = ev_live s \<Longrightarrow> ev_next s' = ev_next s \<Longrightarrow> handles_ok H s'"
  by (simp add: handles_ok_def)

lemma event_free_fields [simp]:
  "sv_clients (event_free h s) = sv_clients s" "sv_delayed (event_free h s) = sv_delayed s"
  "sv_retryTimer (event_free h s) = sv_retryTimer s" "sv_dispatchEvent (event_free h s) = sv_dispatchEvent s"
  "sv_config (event_free h s) = sv_config s" "sv_state (event_free h s) = sv_state s"
  "sv_pendingTasks (event_free h s) = sv_pendingTasks s" "sv_log (event_free h s) = sv_log s"
  by (simp_all add: event_free_def split: option.splits)

lemma free_retry_inv:
  assumes "server_inv s"
  shows "server_inv ((event_free (sv_retryTimer s) s)\<lparr>sv_retryTimer := None\<rparr>)"
proof -
  let ?H = "clients_handles (sv_clients s) + delayed_handles (sv_delayed s) + opt_handle (sv_dispatchEvent s)"
  from assms have "handles_ok (opt_handle (sv_retryTimer s) + ?H) s"
    by (simp add: server_inv_def server_handles_def ac_simps)
  then have "handles_ok ?H (event_free (sv_retryTimer s) s)" by (rule handles_ok_free)
  with assms show ?thesis by (simp add: server_inv_def server_handles_def handles_ok_def)
qed

lemma free_dispatch_inv:
  assumes "server_inv s"
  shows "server_inv ((event_free (sv_dispatchEvent s) s)\<lparr>sv_dispatchEvent := None, sv_dispatchActive := False\<rparr>)"
proof -
  let ?H = "clients_handles (sv_clients s) + delayed_handles (sv_delayed s) + opt_handle (sv_retryTimer s)"
  from assms have "handles_ok (opt_handle (sv_dispatchEvent s) + ?H) s"
    by (simp add: server_inv_def server_handles_def ac_simps)
  then have "handles_ok ?H (event_free (sv_dispatchEvent s) s)" by (rule handles_ok_free)
  with assms show ?thesis by (simp add: server_inv_def server_handles_def handles_ok_def)
qed

text \<open>A new event stored over the dispatch event (the old handle is forgotten).\<close>

lemma new_dispatch_inv:
  assumes "server_inv s"
  shows "server_inv ((snd (event_new s))\<lparr>sv_dispatchEvent := Some (ev_next s), sv_dispatchActive := b\<rparr>)"
proof -
  let ?H = "clients_handles (sv_clients s) + delayed_handles (sv_delayed s) + opt_handle (sv_retryTimer s)"
  from assms have "handles_ok ?H s"
    by (auto simp: server_inv_def server_handles_def intro: handles_ok_mono)
  from handles_ok_new [OF this] assms show ?thesis
    by (simp add: server_inv_def server_handles_def handles_ok_def event_new_def)
qed

lemma new_retry_inv:
  assumes "server_inv s" and "sv_retryTimer s = None"
  shows "server_inv ((snd (event_new s))\<lparr>sv_retryTimer := Some (ev_next s)\<rparr>)"
proof -
  from assms have "handles_ok (server_handles s) s" by (simp add: server_inv_def)
  from handles_ok_new [OF this] assms show ?thesis
    by (simp add: server_inv_def server_handles_def handles_ok_def event_new_def ac_simps)
qed

lemma DoStop_inv [step_inv]: "server_inv s \<Longrightarrow> server_inv (DoStop s)"
proof -
  assume s: "server_inv s"
  define s2 where "s2 = fold RemoveClient (map fst (sv_clients s)) (s\<lparr>sv_listener := False\<rparr>)"
  have "server_inv (s\<lparr>sv_listener := False\<rparr>)" by (rule server_inv_cong [OF s]) simp_all
  then have "server_inv s2" unfolding s2_def by (rule fold_RemoveClient_inv)
  from free_dispatch_inv [OF free_retry_inv [OF this]] show ?thesis
    unfolding DoStop_def Let_def s2_def
    by (intro server_inv_call) (erule server_inv_cong; simp)
qed

lemma DoStart_inv [step_inv]:
  assumes s: "server_inv s"
  shows "server_inv (DoStart E s)"
proof (cases "cfg_evbase (sv_config s) \<and> env_dispatch_ok E")
  case False
  then show ?thesis
  proof (cases "cfg_evbase (sv_config s)")
    case True
    let ?H = "clients_handles (sv_clients s) + delayed_handles (sv_delayed s) + opt_handle (sv_retryTimer s)"
    from s have "handles_ok ?H s"
      by (auto simp: server_inv_def server_handles_def intro: handles_ok_mono)
    with True False s show ?thesis
      by (simp add: DoStart_def server_inv_def server_handles_def sv_call_def handles_ok_def)
  next
    case f: False
    with s show ?thesis by (simp add: DoStart_def) (intro server_inv_call, erule server_inv_cong; simp)
  qed
next
  case True
  define s1 where "s1 = s\<lparr>sv_loopThreadId := Some (env_thread E)\<rparr>"
  define s3 where "s3 = (snd (event_new s1))\<lparr>sv_dispatchEvent := Some (ev_next s1), sv_dispatchActive := False\<rparr>"
  define s4 where "s4 = (event_free (sv_retryTimer s3) s3)\<lparr>sv_retryTimer := None\<rparr>"
  have "server_inv s1" unfolding s1_def by (rule server_inv_cong [OF s]) simp_all
  then have i4: "server_inv s4" unfolding s4_def s3_def by (intro free_retry_inv new_dispatch_inv)
  show ?thesis
  proof (cases "env_bind E")
    case None
    define s5 where "s5 = s4\<lparr>sv_listener := False, sv_retryCount := Suc (sv_retryCount s4)\<rparr>"
    have i5: "server_inv s5" unfolding s5_def by (rule server_inv_cong [OF i4]) simp_all
    have "sv_retryTimer s5 = None" by (simp add: s5_def s4_def)
    from new_retry_inv [OF i5 this] None True show ?thesis
      by (simp add: DoStart_def Let_def s1_def s3_def s4_def s5_def event_new_def)
  next
    case (Some sock)
    from i4 show ?thesis
      using True Some
      by (cases sock) (simp_all add: DoStart_def Let_def s1_def s3_def s4_def event_new_def sv_call_def
          server_inv_def server_handles_def handles_ok_def)
  qed
qed

lemma other_handles_sub: "other_handles k s \<subseteq># server_handles s"
proof (cases "map_of (sv_clients s) k")
  case None
  then show ?thesis by (simp add: other_handles_def server_handles_def clients_erase_None)
next
  case (Some c)
  from clients_handles_erase [OF this] have "clients_handles (clients_erase k (sv_clients s)) \<subseteq># clients_handles (sv_clients s)"
    by (metis mset_subset_eq_add_left)
  then show ?thesis by (simp add: other_handles_def server_handles_def subset_mset.add_mono)
qed

lemma other_handles_cong:
  "sv_clients s' = sv_clients s \<Longrightarrow> sv_delayed s' = sv_delayed s \<Longrightarrow> sv_retryTimer s' = sv_retryTimer s \<Longrightarrow>
   sv_dispatchEvent s' = sv_dispatchEvent s \<Longrightarrow> other_handles k s' = other_handles k s"
  by (simp add: other_handles_def)

lemma event_new_fields [simp]:
  "fst (event_new s) = ev_next s"
  "sv_clients (snd (event_new s)) = sv_clients s" "sv_delayed (snd (event_new s)) = sv_delayed s"
  "sv_retryTimer (snd (event_new s)) = sv_retryTimer s" "sv_dispatchEvent (snd (event_new s)) = sv_dispatchEvent s"
  "sv_config (snd (event_new s)) = sv_config s" "sv_state (snd (event_new s)) = sv_state s"
  by (simp_all add: event_new_def)

lemma write_frame_fields [simp]:
  "cl_clientId (snd (write_frame j c)) = cl_clientId c" "cl_info (snd (write_frame j c)) = cl_info c"
  "cl_msgQueue (snd (write_frame j c)) = cl_msgQueue c"
  "cl_heartbeatTimer (snd (write_frame j c)) = cl_heartbeatTimer c"
  "cl_handshakeTimer (snd (write_frame j c)) = cl_handshakeTimer c"
  "cl_handshakeDone (snd (write_frame j c)) = cl_handshakeDone c"
  by (simp_all add: write_frame_def split_beta)

lemma OnAcceptConnCB_inv [step_inv]:
  assumes s: "server_inv s"
  shows "server_inv (OnAcceptConnCB J E s)"
proof -
  have key: "server_inv ((snd (event_new s))\<lparr>sv_clients := clients_put k c (sv_clients s)\<rparr>)"
    if "client_ok k c" "client_handles c = {#ev_next s#}" for k c
  proof -
    from s have "handles_ok (other_handles k s) s"
      by (auto simp: server_inv_def intro: handles_ok_mono other_handles_sub)
    from handles_ok_new [OF this] have "handles_ok (other_handles k s + client_handles c) (snd (event_new s))"
      by (simp add: that)
    then have "checked_out k c (snd (event_new s))"
      using s that other_handles_cong [of "snd (event_new s)" s k]
      by (auto simp: checked_out_def server_inv_def)
    from checked_out_put [OF this] that show ?thesis by (simp add: put_client_def client_ok_def)
  qed
  show ?thesis
    unfolding OnAcceptConnCB_def Let_def split_beta
    using s by (auto simp: client_ok_def client_handles_def bc_client_info_empty_def
        split: option.splits intro!: key)
qed

lemma distinct_subscribe_tags: "distinct tags \<Longrightarrow> distinct (subscribe_tags ts tags)"
  by (induction ts tags rule: subscribe_tags.induct) auto

lemma distinct_unsubscribe_tags: "distinct tags \<Longrightarrow> distinct (unsubscribe_tags ts tags)"
  by (induction ts tags rule: unsubscribe_tags.induct) auto

lemma set_tags_fields [simp]:
  "cl_clientId (set_tags f c) = cl_clientId c" "ci_clientId (cl_info (set_tags f c)) = ci_clientId (cl_info c)"
  "ci_tags (cl_info (set_tags f c)) = f (ci_tags (cl_info c))"
  "cl_heartbeatTimer (set_tags f c) = cl_heartbeatTimer c" "cl_handshakeTimer (set_tags f c) = cl_handshakeTimer c"
  "cl_handshakeDone (set_tags f c) = cl_handshakeDone c" "client_handles (set_tags f c) = client_handles c"
  by (simp_all add: set_tags_def client_handles_def)

lemma checked_out_upd:
  assumes "checked_out k c s" and "client_ok k c'" and "client_handles c' = client_handles c"
  shows "checked_out k c' s"
  using assms by (simp add: checked_out_def)

lemma checked_out_tags:
  assumes "checked_out k c s" and "\<And>ts. distinct ts \<Longrightarrow> distinct (f ts)"
  shows "checked_out k (set_tags f c) s"
  using assms by (auto intro!: checked_out_upd [OF assms(1)] simp: checked_out_def client_ok_def)

lemma checked_out_active:
  assumes "checked_out k c s"
  shows "checked_out k (c\<lparr>cl_lastActiveTime := t, cl_info := (cl_info c)\<lparr>ci_lastActiveTime := t\<rparr>\<rparr>) s"
  using assms by (auto intro!: checked_out_upd [OF assms(1)] simp: checked_out_def client_ok_def client_handles_def)

lemma checked_out_handshake:
  assumes co: "checked_out k c s" and nd: "\<not> cl_handshakeDone c"
  defines "s1 \<equiv> event_free (cl_handshakeTimer c) s"
  shows "checked_out k (c\<lparr>cl_handshakeDone := True, cl_handshakeTimer := None, cl_heartbeatTimer := Some (ev_next s1)\<rparr>)
           (snd (event_new s1))"
proof -
  from co nd have hb: "cl_heartbeatTimer c = None" by (simp add: checked_out_def client_ok_def)
  from co hb have "handles_ok (opt_handle (cl_handshakeTimer c) + other_handles k s) s"
    by (simp add: checked_out_def client_handles_def ac_simps)
  from handles_ok_new [OF handles_ok_free [OF this]]
  have "handles_ok (add_mset (ev_next s1) (other_handles k s)) (snd (event_new s1))"
    by (simp add: s1_def)
  moreover have "other_handles k (snd (event_new s1)) = other_handles k s"
    by (rule other_handles_cong) (simp_all add: s1_def)
  ultimately show ?thesis
    using co by (simp add: checked_out_def client_ok_def client_handles_def s1_def)
qed

lemma handle_client_frame_checked_out:
  assumes "checked_out k c s"
  shows "case handle_client_frame J E json (c, s) of (c', s') \<Rightarrow> checked_out k c' s'"
proof -
  let ?c = "c\<lparr>cl_lastActiveTime := env_now E, cl_info := (cl_info c)\<lparr>ci_lastActiveTime := env_now E\<rparr>\<rparr>"
  from assms have a: "checked_out k ?c s" by (rule checked_out_active)
  have call: "checked_out k c' (sv_call cb s')" if "checked_out k c' s'" for c' s' cb
    using that by (simp add: checked_out_def sv_call_def other_handles_def handles_ok_def)
  show ?thesis
    using a by (auto simp: handle_client_frame_def Let_def split_beta split: option.splits
        intro!: call checked_out_handshake [OF a, simplified] checked_out_tags
        distinct_subscribe_tags distinct_unsubscribe_tags)
qed

lemma fold_frames_checked_out:
  assumes "checked_out k c s"
  shows "case fold (handle_client_frame J E) msgs (c, s) of (c', s') \<Rightarrow> checked_out k c' s'"
  using assms
proof (induction msgs arbitrary: c s)
  case Nil
  then show ?case by simp
next
  case (Cons m msgs)
  obtain c1 s1 where h: "handle_client_frame J E m (c, s) = (c1, s1)" by force
  with handle_client_frame_checked_out [OF Cons.prems, of J E m] have "checked_out k c1 s1" by simp
  from Cons.IH [OF this] h show ?case by simp
qed

lemma OnClientReadCB_inv [step_inv]:
  assumes "server_inv s"
  shows "server_inv (OnClientReadCB J E k data s)"
proof (cases "map_of (sv_clients s) k")
  case None
  with assms show ?thesis by (simp add: OnClientReadCB_def)
next
  case (Some c)
  obtain msgs left where d: "bc_decode_all (cl_in c @ data) = (msgs, left)" by force
  have "checked_out k (c\<lparr>cl_in := left\<rparr>) s"
    using server_inv_check_out [OF assms Some]
    by (rule checked_out_upd) (use server_inv_check_out [OF assms Some] in \<open>simp_all add: checked_out_def client_ok_def client_handles_def\<close>)
  from fold_frames_checked_out [OF this, of J E msgs] Some d show ?thesis
    by (auto simp: OnClientReadCB_def intro: checked_out_put split: prod.splits)
qed

lemma OnClientEventCB_inv [step_inv]: "server_inv s \<Longrightarrow> server_inv (OnClientEventCB k ev s)"
  by (simp add: OnClientEventCB_def RemoveClient_inv)

lemma client_write_done_fields [simp]:
  "cl_clientId (client_write_done c) = cl_clientId c" "cl_info (client_write_done c) = cl_info c"
  "cl_heartbeatTimer (client_write_done c) = cl_heartbeatTimer c"
  "cl_handshakeTimer (client_write_done c) = cl_handshakeTimer c"
  "cl_handshakeDone (client_write_done c) = cl_handshakeDone c"
  by (simp_all add: client_write_done_def Let_def split: list.splits)

text \<open>A callback that changes neither the identity, the tags nor the timers of its client.\<close>

lemma put_same_inv:
  assumes "server_inv s" and "map_of (sv_clients s) k = Some c"
    and "cl_clientId c' = cl_clientId c" and "ci_clientId (cl_info c') = ci_clientId (cl_info c)"
    and "ci_tags (cl_info c') = ci_tags (cl_info c)"
    and "cl_heartbeatTimer c' = cl_heartbeatTimer c" and "cl_handshakeTimer c' = cl_handshakeTimer c"
    and "cl_handshakeDone c' = cl_handshakeDone c"
  shows "server_inv (put_client c' s)"
proof -
  from assms(1,2) have co: "checked_out k c s" by (rule server_inv_check_out)
  then have "checked_out k c' s"
    by (rule checked_out_upd) (use co assms(3-) in \<open>simp_all add: checked_out_def client_ok_def client_handles_def\<close>)
  then show ?thesis by (rule checked_out_put)
qed

lemma OnClientWriteCB_inv [step_inv]: "server_inv s \<Longrightarrow> server_inv (OnClientWriteCB k s)"
  by (auto simp: OnClientWriteCB_def intro: put_same_inv split: option.splits)

lemma OnHeartbeatCheckCB_inv [step_inv]: "server_inv s \<Longrightarrow> server_inv (OnHeartbeatCheckCB J E k s)"
  by (auto simp: OnHeartbeatCheckCB_def Let_def split_beta intro: put_same_inv RemoveClient_inv
      split: option.splits)

lemma DeliverToClient_fields:
  "DeliverToClient m js c = Inr (c', d) \<Longrightarrow>
   cl_clientId c' = cl_clientId c \<and> ci_clientId (cl_info c') = ci_clientId (cl_info c) \<and>
   ci_tags (cl_info c') = ci_tags (cl_info c) \<and> cl_heartbeatTimer c' = cl_heartbeatTimer c \<and>
   cl_handshakeTimer c' = cl_handshakeTimer c \<and> cl_handshakeDone c' = cl_handshakeDone c"
  by (auto simp: DeliverToClient_def Let_def split: if_splits)

lemma broadcast_clients_ok:
  assumes "broadcast_clients m tag js kcs = Inr (kcs', n, d)" and "\<forall>(k, c) \<in> set kcs. client_ok k c"
  shows "map fst kcs' = map fst kcs \<and> (\<forall>(k, c) \<in> set kcs'. client_ok k c) \<and>
         clients_handles kcs' = clients_handles kcs"
  using assms
proof (induction kcs arbitrary: kcs' n d)
  case Nil
  then show ?case by simp
next
  case (Cons kc kcs)
  obtain k c where kc: "kc = (k, c)" by force
  show ?case
  proof (cases "\<not> cl_handshakeDone c \<or> \<not> tag_matches tag c")
    case True
    with Cons.prems kc obtain t n' d' where "broadcast_clients m tag js kcs = Inr (t, n', d')"
      and "kcs' = (k, c) # t" by (auto split: sum.splits)
    with Cons kc show ?thesis by auto
  next
    case False
    with Cons.prems kc obtain c' b t n' d' where dl: "DeliverToClient m js c = Inr (c', b)"
      and "broadcast_clients m tag js kcs = Inr (t, n', d')" and "kcs' = (k, c') # t"
      by (auto split: sum.splits)
    with Cons kc DeliverToClient_fields [OF dl] show ?thesis
      by (auto simp: client_ok_def client_handles_def)
  qed
qed

lemma DoSend_inv [step_inv]:
  assumes s: "server_inv s" and r: "DoSend J E msg k b d ts s = Inr s'"
  shows "server_inv s'"
proof (cases "actual_delay (env_now E) d ts > 0")
  case True
  from s have "handles_ok (server_handles s) s" by (simp add: server_inv_def)
  from handles_ok_new [OF this] s True r show ?thesis
    by (auto simp: DoSend_def Let_def split_beta server_inv_def server_handles_def delayed_handles_def
        handles_ok_def event_new_def)
next
  case now: False
  show ?thesis
  proof (cases b)
    case True
    with now r obtain kcs n dd where bc: "broadcast_clients (cfg_clientQueueMaxSize (sv_config s)) (msg_tag msg)
        (jdump J (bc_wire_json J msg)) (sv_clients s) = Inr (kcs, n, dd)"
      and s': "s' = s\<lparr>sv_clients := kcs, sv_sentCount := sv_sentCount s + word_of_nat n,
        sv_discardCount := sv_discardCount s + word_of_nat dd\<rparr>"
      by (auto simp: DoSend_def Let_def split: sum.splits)
    from s have "\<forall>(k, c) \<in> set (sv_clients s). client_ok k c" by (simp add: server_inv_def)
    from broadcast_clients_ok [OF bc this] s s' show ?thesis
      by (simp add: server_inv_def server_handles_def handles_ok_def)
  next
    case False
    show ?thesis
    proof (cases "map_of (sv_clients s) k")
      case None
      with now False r s show ?thesis by (simp add: DoSend_def)
    next
      case (Some c)
      from server_inv_check_out [OF s Some] have id: "cl_clientId c = k"
        by (simp add: checked_out_def client_ok_def)
      show ?thesis
      proof (cases "DeliverToClient (cfg_clientQueueMaxSize (sv_config s)) (jdump J (bc_wire_json J msg)) c")
        case (Inl e)
        with now False r Some s show ?thesis by (auto simp: DoSend_def Let_def split: if_splits)
      next
        case (Inr cd)
        obtain c' dr where cd: "cd = (c', dr)" by force
        note f = DeliverToClient_fields [OF Inr [unfolded cd]]
        have "server_inv (put_client c' s)" using f by (intro put_same_inv [OF s Some]) auto
        with now False r Some s Inr cd f id show ?thesis
          by (auto simp: DoSend_def Let_def put_client_def intro: server_inv_cong split: if_splits)
      qed
    qed
  qed
qed

lemma ExecuteTask_inv [step_inv]:
  "server_inv s \<Longrightarrow> ExecuteTask J E t s = Inr s' \<Longrightarrow> server_inv s'"
  by (auto simp: ExecuteTask_def split: bc_task_type.splits
      intro: DoStart_inv DoStop_inv DoSend_inv RemoveClient_inv)

lemma ScheduleTask_inv [step_inv]:
  assumes "server_inv s" and "ScheduleTask J E t s = Inr s'"
  shows "server_inv s'"
  using assms by (auto simp: ScheduleTask_def split: if_splits intro: ExecuteTask_inv server_inv_cong)

lemma execute_tasks_inv:
  "server_inv s \<Longrightarrow> execute_tasks J E ts s = Inr s' \<Longrightarrow> server_inv s'"
  by (induction ts arbitrary: s) (auto split: sum.splits intro: ExecuteTask_inv)

lemma OnDispatchEventCB_inv [step_inv]:
  assumes "server_inv s" and "OnDispatchEventCB J E s = Inr s'"
  shows "server_inv s'"
proof -
  have "server_inv (s\<lparr>sv_pendingTasks := [], sv_dispatchActive := False\<rparr>)"
    by (rule server_inv_cong [OF assms(1)]) simp_all
  from execute_tasks_inv [OF this] assms(2) show ?thesis by (simp add: OnDispatchEventCB_def)
qed

lemma AsyncStop_inv [step_inv]:
  assumes "server_inv s" and "AsyncStop J E s = Inr s'"
  shows "server_inv s'"
proof -
  from assms show ?thesis
    by (auto simp: AsyncStop_def Let_def split: zm_broadcast_state.splits intro: ScheduleTask_inv server_inv_state)
qed

lemma delayed_handles_remove:
  assumes "map_of ds t = Some v"
  shows "add_mset t (delayed_handles (filter (\<lambda>d. fst d \<noteq> t) ds)) \<subseteq># delayed_handles ds"
proof -
  have "t \<in># delayed_handles ds"
    using map_of_SomeD [OF assms] by (force simp: delayed_handles_def image_iff)
  moreover have "delayed_handles (filter (\<lambda>d. fst d \<noteq> t) ds) = filter_mset (\<lambda>x. x \<noteq> t) (delayed_handles ds)"
    by (induction ds) (auto simp: delayed_handles_def)
  ultimately show ?thesis
    by (auto simp: subseteq_mset_def count_filter_mset not_in_iff)
qed

lemma OnDelayedSendCB_inv [step_inv]:
  assumes s: "server_inv s" and r: "OnDelayedSendCB J E t s = Inr s'"
  shows "server_inv s'"
proof (cases "map_of (sv_delayed s) t")
  case None
  with s r show ?thesis by (simp add: OnDelayedSendCB_def)
next
  case (Some v)
  let ?s1 = "s\<lparr>sv_delayed := filter (\<lambda>d. fst d \<noteq> t) (sv_delayed s)\<rparr>"
  let ?H = "server_handles ?s1"
  have "add_mset t ?H \<subseteq># server_handles s"
    using delayed_handles_remove [OF Some]
    by (simp add: server_handles_def subset_mset.add_mono ac_simps)
  with s have "handles_ok (add_mset t ?H) ?s1"
    by (auto simp: server_inv_def handles_ok_def intro: subset_mset.order_trans)
  then have "handles_ok (opt_handle (Some t) + ?H) ?s1" by simp
  then have "handles_ok ?H (event_free (Some t) ?s1)" by (rule handles_ok_free)
  with s have "server_inv (event_free (Some t) ?s1)"
    by (simp add: server_inv_def server_handles_def)
  with r Some show ?thesis
    by (auto simp: OnDelayedSendCB_def Let_def split: prod.splits intro: ScheduleTask_inv)
qed

lemma drop_scheduled: "drop_result (scheduled r) = r"
  by (simp add: drop_result_def scheduled_def split: sum.splits)

lemma drop_result_Inr: "drop_result (Inr (b, s)) = Inr s"
  by (simp add: drop_result_def)

lemma api_inv:
  assumes "server_inv s"
  shows "drop_result (Send J E k tp ct tg s) = Inr s' \<Longrightarrow> server_inv s'"
    and "drop_result (Broadcast J E tp ct tg s) = Inr s' \<Longrightarrow> server_inv s'"
    and "drop_result (SendDelayed J E k tp ct tg d s) = Inr s' \<Longrightarrow> server_inv s'"
    and "drop_result (BroadcastDelayed J E tp ct tg d s) = Inr s' \<Longrightarrow> server_inv s'"
    and "drop_result (SendAt J E k tp ct tg ts s) = Inr s' \<Longrightarrow> server_inv s'"
    and "drop_result (BroadcastAt J E tp ct tg ts s) = Inr s' \<Longrightarrow> server_inv s'"
    and "drop_result (KickClient J E k s) = Inr s' \<Longrightarrow> server_inv s'"
  using assms
  by (auto simp: Send_def Broadcast_def SendDelayed_def BroadcastDelayed_def SendAt_def BroadcastAt_def
      KickClient_def drop_scheduled drop_result_Inr split: if_splits dest: ScheduleTask_inv)

lemma Start_inv [step_inv]: "server_inv s \<Longrightarrow> server_inv (snd (Start s))"
  by (auto simp: Start_def Let_def intro: server_inv_call server_inv_state)

lemma config_inv:
  assumes "server_inv s"
  shows "server_inv (SetMaxConnections m s)" "server_inv (SetHeartbeatTime m s)" "server_inv (SetClientQueueMaxSize q s)"
  using assms by (auto simp: SetMaxConnections_def SetHeartbeatTime_def SetClientQueueMaxSize_def
      intro: server_inv_cong)

lemma bc_server_step_inv:
  assumes s: "server_inv s" and r: "bc_server_step J E e s = Inr s'"
  shows "server_inv s'"
  using r s
  by (cases e) (auto intro: step_inv api_inv config_inv simp: OnHandshakeTimeoutCB_def)

section \<open>Absence of undefined behaviour\<close>

text \<open>The only undefined access is the pop from an empty queue when the queue limit is 0.\<close>

definition queue_max :: "bc_server \<Rightarrow> nat" where
  "queue_max s = cfg_clientQueueMaxSize (sv_config s)"

lemma DeliverToClient_total: "0 < m \<Longrightarrow> \<exists>c' d. DeliverToClient m js c = Inr (c', d)"
  by (auto simp: DeliverToClient_def Let_def)

lemma broadcast_clients_total: "0 < m \<Longrightarrow> \<exists>r. broadcast_clients m tag js kcs = Inr r"
proof (induction kcs)
  case Nil
  then show ?case by simp
next
  case (Cons kc kcs)
  then obtain r where "broadcast_clients m tag js kcs = Inr r" by blast
  with DeliverToClient_total [OF Cons.prems, of js "snd kc"] show ?case
    by (cases kc) (auto split: prod.splits)
qed

lemma DoSend_total:
  assumes "0 < queue_max s"
  shows "\<exists>s'. DoSend J E msg k b d ts s = Inr s' \<and> queue_max s' = queue_max s"
proof -
  from broadcast_clients_total [OF assms] obtain kcs n dd where
    "broadcast_clients (queue_max s) (msg_tag msg) (jdump J (bc_wire_json J msg)) (sv_clients s) = Inr (kcs, n, dd)"
    by (metis prod_cases3)
  moreover have "\<exists>c' dr. DeliverToClient (queue_max s) (jdump J (bc_wire_json J msg)) c = Inr (c', dr)" for c
    using DeliverToClient_total [OF assms] .
  then have "\<exists>c' dr. DeliverToClient (queue_max s) (jdump J (bc_wire_json J msg)) c = Inr (c', dr)" for c .
  ultimately show ?thesis
    by (cases "map_of (sv_clients s) k")
       (auto simp: DoSend_def Let_def queue_max_def event_new_def split: sum.splits, (metis sum.distinct(1))+)
qed

lemma fold_RemoveClient_config: "sv_config (fold RemoveClient ks s) = sv_config s"
  by (induction ks arbitrary: s) (auto simp: RemoveClient_def Let_def sv_call_def split: option.splits)

lemma RemoveClient_config [simp]: "sv_config (RemoveClient k s) = sv_config s"
  using fold_RemoveClient_config [of "[k]" s] by simp

lemma DoStop_config: "sv_config (DoStop s) = sv_config s"
  by (simp add: DoStop_def Let_def sv_call_def fold_RemoveClient_config)

lemma DoStart_queue_max: "queue_max (DoStart E s) = queue_max s"
  by (auto simp: DoStart_def Let_def queue_max_def sv_call_def event_new_def split: option.splits)

lemma ExecuteTask_total:
  "0 < queue_max s \<Longrightarrow> \<exists>s'. ExecuteTask J E t s = Inr s' \<and> queue_max s' = queue_max s"
  by (cases "tk_type t")
     (simp_all add: ExecuteTask_def DoSend_total DoStart_queue_max, simp_all add: queue_max_def DoStop_config)

lemma ScheduleTask_total:
  "0 < queue_max s \<Longrightarrow> \<exists>s'. ScheduleTask J E t s = Inr s' \<and> queue_max s' = queue_max s"
  using ExecuteTask_total [of s J E t] by (auto simp: ScheduleTask_def queue_max_def)

lemma execute_tasks_total:
  "0 < queue_max s \<Longrightarrow> \<exists>s'. execute_tasks J E ts s = Inr s' \<and> queue_max s' = queue_max s"
proof (induction ts arbitrary: s)
  case Nil
  then show ?case by simp
next
  case (Cons t ts)
  from ExecuteTask_total [OF Cons.prems, of J E t] obtain s1 where
    "ExecuteTask J E t s = Inr s1" "queue_max s1 = queue_max s" by blast
  with Cons show ?case by (metis execute_tasks.simps(2) sum.simps(6))
qed

lemma handle_client_frame_config: "sv_config (snd (handle_client_frame J E j (c, s))) = sv_config s"
  by (auto simp: handle_client_frame_def Let_def split_beta sv_call_def split: option.splits)

lemma fold_frames_config: "sv_config (snd (fold (handle_client_frame J E) msgs cs)) = sv_config (snd cs)"
  by (induction msgs arbitrary: cs) (auto simp: handle_client_frame_config)

lemma callbacks_config:
  "sv_config (snd (Start s)) = sv_config s"
  "sv_config (OnAcceptConnCB J E s) = sv_config s"
  "sv_config (OnClientReadCB J E k d s) = sv_config s"
  "sv_config (OnClientWriteCB k s) = sv_config s"
  "sv_config (OnClientEventCB k ev s) = sv_config s"
  "sv_config (OnHandshakeTimeoutCB k s) = sv_config s"
  "sv_config (OnHeartbeatCheckCB J E k s) = sv_config s"
  by (auto simp: Start_def Let_def sv_call_def OnAcceptConnCB_def split_beta OnClientReadCB_def put_client_def
      fold_frames_config OnClientWriteCB_def OnClientEventCB_def OnHandshakeTimeoutCB_def OnHeartbeatCheckCB_def
      split: option.splits)

lemma api_total:
  assumes "0 < queue_max s"
  shows "\<exists>s'. drop_result (Send J E k tp ct tg s) = Inr s' \<and> queue_max s' = queue_max s"
    and "\<exists>s'. drop_result (Broadcast J E tp ct tg s) = Inr s' \<and> queue_max s' = queue_max s"
    and "\<exists>s'. drop_result (SendDelayed J E k tp ct tg d s) = Inr s' \<and> queue_max s' = queue_max s"
    and "\<exists>s'. drop_result (BroadcastDelayed J E tp ct tg d s) = Inr s' \<and> queue_max s' = queue_max s"
    and "\<exists>s'. drop_result (SendAt J E k tp ct tg ts s) = Inr s' \<and> queue_max s' = queue_max s"
    and "\<exists>s'. drop_result (BroadcastAt J E tp ct tg ts s) = Inr s' \<and> queue_max s' = queue_max s"
    and "\<exists>s'. drop_result (KickClient J E k s) = Inr s' \<and> queue_max s' = queue_max s"
  using ScheduleTask_total [OF assms]
  by (simp_all add: Send_def Broadcast_def SendDelayed_def BroadcastDelayed_def SendAt_def BroadcastAt_def
      KickClient_def drop_scheduled drop_result_Inr)

lemma OnDelayedSendCB_total:
  assumes "0 < queue_max s"
  shows "\<exists>s'. OnDelayedSendCB J E t s = Inr s' \<and> queue_max s' = queue_max s"
proof (cases "map_of (sv_delayed s) t")
  case None
  then show ?thesis by (simp add: OnDelayedSendCB_def)
next
  case (Some v)
  let ?s1 = "event_free (Some t) (s\<lparr>sv_delayed := filter (\<lambda>d. fst d \<noteq> t) (sv_delayed s)\<rparr>)"
  have q: "queue_max ?s1 = queue_max s" by (simp add: queue_max_def)
  with ScheduleTask_total [of ?s1 J E "snd v\<lparr>tk_delayMs := 0, tk_timestampMs := 0\<rparr>"] assms Some show ?thesis
    by (auto simp: OnDelayedSendCB_def Let_def split_beta)
qed

lemma OnDispatchEventCB_total:
  "0 < queue_max s \<Longrightarrow> \<exists>s'. OnDispatchEventCB J E s = Inr s' \<and> queue_max s' = queue_max s"
  using execute_tasks_total [of "s\<lparr>sv_pendingTasks := [], sv_dispatchActive := False\<rparr>" J E "sv_pendingTasks s"]
  by (simp add: OnDispatchEventCB_def queue_max_def)

lemma AsyncStop_total:
  assumes "0 < queue_max s"
  shows "\<exists>s'. AsyncStop J E s = Inr s' \<and> queue_max s' = queue_max s"
proof -
  have "queue_max (s\<lparr>sv_state := st\<rparr>) = queue_max s" for st by (simp add: queue_max_def)
  with ScheduleTask_total [of s J E] ScheduleTask_total [of "s\<lparr>sv_state := ZM_BC_STATE_STOPPING\<rparr>" J E] assms
  show ?thesis by (cases "sv_state s") (simp_all add: AsyncStop_def Let_def)
qed

lemma callbacks_queue_max:
  "queue_max (snd (Start s)) = queue_max s"
  "queue_max (OnAcceptConnCB J E s) = queue_max s"
  "queue_max (OnClientReadCB J E k d s) = queue_max s"
  "queue_max (OnClientWriteCB k s) = queue_max s"
  "queue_max (OnClientEventCB k ev s) = queue_max s"
  "queue_max (OnHandshakeTimeoutCB k s) = queue_max s"
  "queue_max (OnHeartbeatCheckCB J E k s) = queue_max s"
  "queue_max (SetMaxConnections m s) = queue_max s"
  "queue_max (SetHeartbeatTime m s) = queue_max s"
  by (simp_all add: queue_max_def callbacks_config SetMaxConnections_def SetHeartbeatTime_def)

lemma bc_server_step_keeps_max:
  assumes "0 < queue_max s" and "\<forall>m. e \<noteq> EvSetQueueMax m"
  shows "\<exists>s'. bc_server_step J E e s = Inr s' \<and> queue_max s' = queue_max s"
  using assms
  by (cases e) (simp_all add: callbacks_queue_max DoStart_queue_max AsyncStop_total OnDispatchEventCB_total
      OnDelayedSendCB_total api_total)

lemma bc_server_step_total:
  assumes "0 < queue_max s" and "e \<noteq> EvSetQueueMax 0"
  shows "\<exists>s'. bc_server_step J E e s = Inr s' \<and> 0 < queue_max s'"
proof (cases "\<exists>m. e = EvSetQueueMax m")
  case True
  with assms show ?thesis by (auto simp: SetClientQueueMaxSize_def queue_max_def)
next
  case False
  with bc_server_step_keeps_max [OF assms(1), of e J E] assms(1) show ?thesis by auto
qed

section \<open>Runs\<close>

text \<open>
  The laws of the interface hold for the server: the invariant with a positive queue limit, for
  every event but setting that limit to 0.
\<close>

definition queue_event_ok :: "bc_env \<times> bc_event \<Rightarrow> bool" where
  "queue_event_ok Ee \<longleftrightarrow> snd Ee \<noteq> EvSetQueueMax 0"

interpretation bc_srv: invariant_system server_inv "\<lambda>_. True" "\<lambda>(E, e). bc_server_step J E e" for J
  by unfold_locales (auto dest: bc_server_step_inv)

lemma server_step_safe:
  assumes "server_inv s \<and> 0 < queue_max s" and "queue_event_ok Ee"
  shows "\<exists>s'. (case Ee of (E, e) \<Rightarrow> bc_server_step J E e) s = Inr s' \<and> server_inv s' \<and> 0 < queue_max s'"
proof (cases Ee)
  case (Pair E e)
  with assms bc_server_step_total [of s e J E] obtain s' where
    "bc_server_step J E e s = Inr s'" "0 < queue_max s'" by (auto simp: queue_event_ok_def)
  with Pair assms bc_server_step_inv show ?thesis by auto
qed

interpretation bc_total: total_system "\<lambda>s. server_inv s \<and> 0 < queue_max s" queue_event_ok
    "\<lambda>(E, e). bc_server_step J E e" for J
  by unfold_locales (metis server_step_safe sum.inject(2))+

lemma bc_server_run_inv:
  "server_inv s \<Longrightarrow> bc_server_run J es s = Inr s' \<Longrightarrow> server_inv s'"
  using bc_srv.inv_run [of s es J s'] by (simp add: bc_server_run_def)

lemma bc_server_run_total:
  "server_inv s \<Longrightarrow> 0 < queue_max s \<Longrightarrow> \<forall>Ee \<in> set es. queue_event_ok Ee \<Longrightarrow>
   \<exists>s'. bc_server_run J es s = Inr s' \<and> server_inv s'"
  using bc_total.run_total [of s es J] by (auto simp: bc_server_run_def)

end
