(* ===== verification/BcClientInv.thy ===== *)
theory BcClientInv
  imports BcClient BcServerInv
begin

text \<open>
  The invariant of the broadcast client and its preservation by every step: stored timer handles are
  live and stored once, the dispatch event is active only when there is one, a connection exists only
  after the loop thread is known, and the tags stay distinct.
\<close>

definition pool_ok :: "nat multiset \<Rightarrow> nat list \<Rightarrow> nat \<Rightarrow> bool" where
  "pool_ok H live next \<longleftrightarrow> H \<subseteq># mset live \<and> distinct live \<and> (\<forall>e \<in> set live. e < next)"

lemma pool_ok_new: "pool_ok H live n \<Longrightarrow> pool_ok (add_mset n H) (n # live) (Suc n)"
  by (auto simp: pool_ok_def)

lemma pool_ok_free:
  assumes "pool_ok (add_mset e H) live n"
  shows "pool_ok H (removeAll e live) n"
proof -
  from assms have sub: "add_mset e H \<subseteq># mset live" and d: "distinct live" and b: "\<forall>e \<in> set live. e < n"
    by (auto simp: pool_ok_def)
  have "mset (removeAll e live) = mset live - {#e#}"
    using d by (simp add: distinct_remove1_removeAll [symmetric])
  moreover have "H \<subseteq># mset live - {#e#}" using sub by (simp add: insert_subset_eq_iff)
  ultimately show ?thesis using d b by (simp add: pool_ok_def distinct_removeAll)
qed

definition cli_handles :: "bc_cli \<Rightarrow> nat multiset" where
  "cli_handles s = opt_handle (cc_retryTimer s) + opt_handle (cc_handshakeTimer s) + opt_handle (cc_dispatchEvent s)"

definition cli_inv :: "bc_cli \<Rightarrow> bool" where
  "cli_inv s \<longleftrightarrow> pool_ok (cli_handles s) (ce_live s) (ce_next s) \<and>
     (cc_dispatchActive s \<longrightarrow> cc_dispatchEvent s \<noteq> None) \<and>
     (cc_bev s \<noteq> None \<longrightarrow> cc_loopThreadId s \<noteq> None) \<and> distinct (cc_currentTags s)"

lemma cli_inv_new: "distinct (cf_initialTags cfg) \<Longrightarrow> cli_inv (bc_cli_new cfg)"
  by (simp add: cli_inv_def bc_cli_new_def pool_ok_def cli_handles_def)

lemma cli_inv_cong:
  assumes "cli_inv s" and "cc_retryTimer s' = cc_retryTimer s" and "cc_handshakeTimer s' = cc_handshakeTimer s"
    and "cc_dispatchEvent s' = cc_dispatchEvent s" and "ce_live s' = ce_live s" and "ce_next s' = ce_next s"
    and "cc_dispatchActive s' \<longrightarrow> cc_dispatchEvent s' \<noteq> None"
    and "cc_bev s' \<noteq> None \<longrightarrow> cc_loopThreadId s' \<noteq> None" and "distinct (cc_currentTags s')"
  shows "cli_inv s'"
  using assms by (simp add: cli_inv_def cli_handles_def)

lemma cli_inv_call [step_inv]: "cli_inv s \<Longrightarrow> cli_inv (cc_call cb s)"
  by (auto simp: cli_inv_def cli_handles_def cc_call_def)

lemma free_retry_inv' [step_inv]: "cli_inv s \<Longrightarrow> cli_inv (free_retry s)"
  by (cases "cc_retryTimer s")
     (auto simp: cli_inv_def cli_handles_def free_retry_def cc_event_free_def intro: pool_ok_free)

lemma free_handshake_inv [step_inv]: "cli_inv s \<Longrightarrow> cli_inv (free_handshake s)"
  by (cases "cc_handshakeTimer s")
     (auto simp: cli_inv_def cli_handles_def free_handshake_def cc_event_free_def intro: pool_ok_free)

lemma free_dispatch_inv' [step_inv]: "cli_inv s \<Longrightarrow> cli_inv (free_dispatch s)"
  by (cases "cc_dispatchEvent s")
     (auto simp: cli_inv_def cli_handles_def free_dispatch_def cc_event_free_def intro: pool_ok_free)

lemma pool_ok_mono: "pool_ok H live n \<Longrightarrow> H' \<subseteq># H \<Longrightarrow> pool_ok H' live n"
  by (auto simp: pool_ok_def)

lemma new_retry_inv' [step_inv]:
  assumes "cli_inv s"
  shows "cli_inv ((snd (cc_event_new s))\<lparr>cc_retryTimer := Some (fst (cc_event_new s))\<rparr>)"
proof -
  have "opt_handle (cc_handshakeTimer s) + opt_handle (cc_dispatchEvent s) \<subseteq># cli_handles s"
    by (simp add: cli_handles_def)
  then have "pool_ok (add_mset (ce_next s) (opt_handle (cc_handshakeTimer s) + opt_handle (cc_dispatchEvent s)))
      (ce_next s # ce_live s) (Suc (ce_next s))"
    using assms by (intro pool_ok_new) (auto simp: cli_inv_def intro: pool_ok_mono)
  with assms show ?thesis by (auto simp: cli_inv_def cli_handles_def cc_event_new_def)
qed

lemma new_handshake_inv [step_inv]:
  assumes "cli_inv s"
  shows "cli_inv ((snd (cc_event_new s))\<lparr>cc_handshakeTimer := Some (fst (cc_event_new s))\<rparr>)"
proof -
  have "opt_handle (cc_retryTimer s) + opt_handle (cc_dispatchEvent s) \<subseteq># cli_handles s"
    by (simp add: cli_handles_def)
  then have "pool_ok (add_mset (ce_next s) (opt_handle (cc_retryTimer s) + opt_handle (cc_dispatchEvent s)))
      (ce_next s # ce_live s) (Suc (ce_next s))"
    using assms by (intro pool_ok_new) (auto simp: cli_inv_def intro: pool_ok_mono)
  with assms show ?thesis by (auto simp: cli_inv_def cli_handles_def cc_event_new_def)
qed

lemma new_dispatch_inv' [step_inv]:
  assumes "cli_inv s"
  shows "cli_inv ((snd (cc_event_new s))\<lparr>cc_dispatchEvent := Some (fst (cc_event_new s))\<rparr>)"
proof -
  have "opt_handle (cc_retryTimer s) + opt_handle (cc_handshakeTimer s) \<subseteq># cli_handles s"
    by (simp add: cli_handles_def)
  then have "pool_ok (add_mset (ce_next s) (opt_handle (cc_retryTimer s) + opt_handle (cc_handshakeTimer s)))
      (ce_next s # ce_live s) (Suc (ce_next s))"
    using assms by (intro pool_ok_new) (auto simp: cli_inv_def intro: pool_ok_mono)
  with assms show ?thesis by (auto simp: cli_inv_def cli_handles_def cc_event_new_def)
qed

text \<open>Changes of the fields that carry no handle.\<close>

lemma cli_inv_bev_None: "cli_inv s \<Longrightarrow> cli_inv (s\<lparr>cc_bev := None\<rparr>)"
  by (auto simp: cli_inv_def cli_handles_def)

lemma cli_inv_plain:
  "cli_inv s \<Longrightarrow> cli_inv (s\<lparr>cc_state := st\<rparr>)"
  "cli_inv s \<Longrightarrow> cli_inv (s\<lparr>cc_posted := ps\<rparr>)"
  "cli_inv s \<Longrightarrow> cli_inv (s\<lparr>cc_waiting := n\<rparr>)"
  "cli_inv s \<Longrightarrow> cli_inv (s\<lparr>cc_threadPool := b\<rparr>)"
  "cli_inv s \<Longrightarrow> cli_inv (s\<lparr>cc_handshakeDone := b\<rparr>)"
  "cli_inv s \<Longrightarrow> cli_inv (s\<lparr>cc_startTime := t\<rparr>)"
  "cli_inv s \<Longrightarrow> cli_inv (s\<lparr>cc_receivedCount := t\<rparr>)"
  "cli_inv s \<Longrightarrow> cli_inv (s\<lparr>cc_submitted := q\<rparr>)"
  "cli_inv s \<Longrightarrow> cli_inv (s\<lparr>cc_loopThreadId := Some th\<rparr>)"
  by (auto simp: cli_inv_def cli_handles_def)

lemmas cli_inv_intros = step_inv cli_inv_plain cli_inv_bev_None

lemma ScheduleRetry_inv: "cli_inv s \<Longrightarrow> cli_inv (ScheduleRetry s)"
  by (auto simp: ScheduleRetry_def Let_def split_beta intro: cli_inv_intros)

lemma connect_failed_inv: "cli_inv s \<Longrightarrow> cli_inv (connect_failed msg s)"
  by (auto simp: connect_failed_def Let_def intro: cli_inv_intros ScheduleRetry_inv)

lemma DoConnect_inv: "cli_inv s \<Longrightarrow> cli_inv (DoConnect E s)"
proof -
  assume s: "cli_inv s"
  let ?s1 = "(free_retry s)\<lparr>cc_loopThreadId := Some (cv_thread E)\<rparr>"
  let ?s2 = "ensure_dispatch E ?s1"
  have s1: "cli_inv ?s1" using s by (intro cli_inv_intros)
  then have s2: "cli_inv ?s2" by (auto simp: ensure_dispatch_def split_beta intro: cli_inv_intros)
  have "cc_loopThreadId ?s2 \<noteq> None" by (simp add: ensure_dispatch_def cc_event_new_def)
  with s2 have "cli_inv (?s2\<lparr>cc_bev := Some cn\<rparr>)" for cn
    unfolding cli_inv_def cli_handles_def by simp
  with s1 s2 show ?thesis
    by (auto simp: DoConnect_def Let_def intro: connect_failed_inv cli_inv_call cli_inv_plain)
qed

lemma Connect_inv: "cli_inv s \<Longrightarrow> cli_inv (snd (Connect s))"
  by (auto simp: Connect_def Let_def intro!: cli_inv_intros)

lemma DoDisconnect_inv: "cli_inv s \<Longrightarrow> cli_inv (DoDisconnect s)"
  by (auto simp: DoDisconnect_def intro!: cli_inv_intros)

lemma disconnect_finish_inv: "cli_inv s \<Longrightarrow> cli_inv (disconnect_finish s)"
  by (auto simp: disconnect_finish_def intro!: cli_inv_intros)

lemma Disconnect_inv: "cli_inv s \<Longrightarrow> cli_inv (Disconnect E s)"
  by (auto simp: Disconnect_def Let_def intro!: disconnect_finish_inv DoDisconnect_inv cli_inv_intros)

lemma run_posted_inv: "cli_inv s \<Longrightarrow> cli_inv (run_posted E s)"
  by (auto simp: run_posted_def Let_def split: list.splits bc_posted.splits
      intro!: DoConnect_inv DoDisconnect_inv cli_inv_intros)

lemma wake_disconnect_inv: "cli_inv s \<Longrightarrow> cli_inv (wake_disconnect s)"
  by (auto simp: wake_disconnect_def split: nat.splits intro!: disconnect_finish_inv cli_inv_intros)

lemma bev_send_inv: "cli_inv s \<Longrightarrow> cli_inv (bev_send json s)"
  by (auto simp: bev_send_def split_beta cli_inv_def cli_handles_def split: option.splits)

lemma cli_ExecuteTask_inv: "cli_inv s \<Longrightarrow> cli_inv (cli_ExecuteTask E t s)"
  by (cases t) (simp_all add: cli_ExecuteTask_def DoConnect_inv DoDisconnect_inv bev_send_inv)

lemma cli_ScheduleTask_inv: "cli_inv s \<Longrightarrow> cli_inv (cli_ScheduleTask E t s)"
  using cli_ExecuteTask_inv [of s E t] by (auto simp: cli_ScheduleTask_def) (auto simp: cli_inv_def cli_handles_def)

lemma fold_ExecuteTask_inv: "cli_inv s \<Longrightarrow> cli_inv (fold (cli_ExecuteTask E) ts s)"
  by (induction ts arbitrary: s) (auto intro: cli_ExecuteTask_inv)

lemma cli_OnDispatchEventCB_inv: "cli_inv s \<Longrightarrow> cli_inv (cli_OnDispatchEventCB E s)"
  unfolding cli_OnDispatchEventCB_def
  by (rule fold_ExecuteTask_inv) (auto simp: cli_inv_def cli_handles_def)

lemma SendJson_inv: "cli_inv s \<Longrightarrow> cli_inv (SendJson E j s)"
  by (simp add: SendJson_def cli_ScheduleTask_inv)

lemma distinct_add_tags: "distinct cur \<Longrightarrow> distinct (add_tags ts cur)"
  by (induction ts cur rule: add_tags.induct) auto

lemma distinct_drop_tags: "distinct cur \<Longrightarrow> distinct (drop_tags ts cur)"
  by (induction ts cur rule: drop_tags.induct) auto

lemma cli_inv_tags: "cli_inv s \<Longrightarrow> distinct tags \<Longrightarrow> cli_inv (s\<lparr>cc_currentTags := tags\<rparr>)"
  by (auto simp: cli_inv_def cli_handles_def)

lemma Subscribe_inv: "cli_inv s \<Longrightarrow> cli_inv (snd (Subscribe J E ts s))"
  by (auto simp: Subscribe_def Let_def intro!: SendJson_inv cli_inv_tags distinct_add_tags)
     (simp_all add: cli_inv_def)

lemma Unsubscribe_inv: "cli_inv s \<Longrightarrow> cli_inv (snd (Unsubscribe J E ts s))"
  by (auto simp: Unsubscribe_def Let_def intro!: SendJson_inv cli_inv_tags distinct_drop_tags)
     (simp_all add: cli_inv_def)

lemma SendCurrentTags_inv: "cli_inv s \<Longrightarrow> cli_inv (SendCurrentTags J E s)"
  by (simp add: SendCurrentTags_def SendJson_inv)

lemma HandleMessage_inv: "cli_inv s \<Longrightarrow> cli_inv (HandleMessage J E j s)"
  by (auto simp: HandleMessage_def Let_def split: option.splits
      intro!: SendCurrentTags_inv SendJson_inv cli_inv_intros)

lemma fold_HandleMessage_inv: "cli_inv s \<Longrightarrow> cli_inv (fold (HandleMessage J E) msgs s)"
  by (induction msgs arbitrary: s) (auto intro: HandleMessage_inv)

lemma OnConnectCB_inv: "cli_inv s \<Longrightarrow> cli_inv (OnConnectCB b s)"
proof -
  assume s: "cli_inv s"
  then have "cli_inv (s\<lparr>cc_bev := map_option (\<lambda>cn. cn\<lparr>cn_connected := True\<rparr>) (cc_bev s)\<rparr>)"
    by (auto simp: cli_inv_def cli_handles_def)
  with s show ?thesis
    by (auto simp: OnConnectCB_def Let_def split_beta intro!: connect_failed_inv cli_inv_intros)
qed

lemma OnReadCB_inv: "cli_inv s \<Longrightarrow> cli_inv (OnReadCB J E d s)"
  by (auto simp: OnReadCB_def split_beta split: option.splits intro!: fold_HandleMessage_inv)
     (auto simp: cli_inv_def cli_handles_def)

lemma OnEventCB_inv: "cli_inv s \<Longrightarrow> cli_inv (OnEventCB ev s)"
  by (auto simp: OnEventCB_def Let_def intro!: ScheduleRetry_inv cli_inv_intros)

lemma conn_event_inv: "cli_inv s \<Longrightarrow> cli_inv (conn_event ev s)"
  by (auto simp: conn_event_def split: option.splits intro: OnEventCB_inv OnConnectCB_inv)

lemma cli_OnHandshakeTimeoutCB_inv: "cli_inv s \<Longrightarrow> cli_inv (cli_OnHandshakeTimeoutCB s)"
  by (auto simp: cli_OnHandshakeTimeoutCB_def intro!: ScheduleRetry_inv cli_inv_intros)

lemma bc_cli_step_inv: "cli_inv s \<Longrightarrow> cli_inv (bc_cli_step J E e s)"
  by (cases e) (simp_all add: Connect_inv Disconnect_inv run_posted_inv wake_disconnect_inv conn_event_inv
      OnReadCB_inv DoConnect_inv cli_OnHandshakeTimeoutCB_inv cli_OnDispatchEventCB_inv Subscribe_inv Unsubscribe_inv)

interpretation bc_cli_sys: invariant_system cli_inv "\<lambda>_. True"
    "\<lambda>(E, e) s. Inr (bc_cli_step J E e s) :: mem_error + bc_cli" for J
  by unfold_locales (auto dest: bc_cli_step_inv)

lemma bc_cli_run_steps:
  "run_steps (\<lambda>(E, e) s. Inr (bc_cli_step J E e s) :: mem_error + bc_cli) es s = Inr (bc_cli_run J es s)"
  by (induction es arbitrary: s) (auto simp: bc_cli_run_def)

lemma bc_cli_run_inv: "cli_inv s \<Longrightarrow> cli_inv (bc_cli_run J es s)"
  using bc_cli_sys.inv_run [OF _ _ bc_cli_run_steps] by simp

end
