(* ===== verification/BcServerProps.thy ===== *)
theory BcServerProps
  imports BcServerInv
begin

text \<open>
  What the broadcast server promises, and where it breaks its promise: safety over every run,
  exact delivery of a broadcast, the order of the frames of one client, the connection limit,
  heartbeats and stopping.
\<close>

section \<open>The message queue of one client\<close>

datatype queue_op = QDeliver string | QWritten

fun queue_run :: "nat \<Rightarrow> queue_op list \<Rightarrow> bc_client \<Rightarrow> mem_error + bc_client" where
  "queue_run m [] c = Inr c"
| "queue_run m (QDeliver js # ops) c =
    (case DeliverToClient m js c of Inl e \<Rightarrow> Inl e | Inr (c', d) \<Rightarrow> queue_run m ops c')"
| "queue_run m (QWritten # ops) c = queue_run m ops (client_write_done c)"

text \<open>No delivery finds the queue full, starting with \<open>n\<close> queued frames.\<close>

fun never_full :: "nat \<Rightarrow> nat \<Rightarrow> queue_op list \<Rightarrow> bool" where
  "never_full m n [] \<longleftrightarrow> True"
| "never_full m n (QDeliver js # ops) \<longleftrightarrow> n < m \<and> never_full m (Suc n) ops"
| "never_full m n (QWritten # ops) \<longleftrightarrow> never_full m (n - 1) ops"

fun accepted_frames :: "queue_op list \<Rightarrow> string list" where
  "accepted_frames [] = []"
| "accepted_frames (QDeliver js # ops) = bc_frame js # accepted_frames ops"
| "accepted_frames (QWritten # ops) = accepted_frames ops"

lemma DeliverToClient_room:
  assumes "length (cl_msgQueue c) < m"
  shows "\<exists>c'. DeliverToClient m js c = Inr (c', False) \<and> cl_msgQueue c' = cl_msgQueue c @ [bc_frame js] \<and>
     cl_out c' = cl_out c @ (if cl_msgQueue c = [] then bc_frame js else [])"
  using assms by (auto simp: DeliverToClient_def Let_def)

lemma client_write_done_queue:
  "cl_msgQueue (client_write_done c) = tl (cl_msgQueue c) \<and>
   cl_out (client_write_done c) = cl_out c @ (case tl (cl_msgQueue c) of [] \<Rightarrow> [] | f # _ \<Rightarrow> f)"
  by (simp add: client_write_done_def Let_def split: list.splits)

lemma queue_run_fifo:
  assumes "never_full m (length (cl_msgQueue c)) ops"
  shows "\<exists>c' sent. queue_run m ops c = Inr c' \<and> cl_out c' = cl_out c @ concat sent \<and>
           sent @ tl (cl_msgQueue c') = tl (cl_msgQueue c) @ accepted_frames ops"
  using assms
proof (induction ops arbitrary: c)
  case Nil
  then show ?case by (intro exI [of _ c] exI [of _ "[]"]) simp
next
  case (Cons op ops)
  show ?case
  proof (cases op)
    case (QDeliver js)
    with Cons.prems obtain c1 where d: "DeliverToClient m js c = Inr (c1, False)"
      and q: "cl_msgQueue c1 = cl_msgQueue c @ [bc_frame js]"
      and o1: "cl_out c1 = cl_out c @ (if cl_msgQueue c = [] then bc_frame js else [])"
      using DeliverToClient_room [of c m js] by auto
    have "never_full m (length (cl_msgQueue c1)) ops" using Cons.prems QDeliver q by simp
    from Cons.IH [OF this] obtain c' sent where
      r: "queue_run m ops c1 = Inr c'" "cl_out c' = cl_out c1 @ concat sent"
         "sent @ tl (cl_msgQueue c') = tl (cl_msgQueue c1) @ accepted_frames ops" by blast
    show ?thesis
    proof (cases "cl_msgQueue c = []")
      case True
      with r d q o1 QDeliver show ?thesis
        by (intro exI [of _ c'] exI [of _ "bc_frame js # sent"]) simp
    next
      case False
      with r d q o1 QDeliver show ?thesis
        by (intro exI [of _ c'] exI [of _ sent]) simp
    qed
  next
    case QWritten
    have "never_full m (length (cl_msgQueue (client_write_done c))) ops"
      using Cons.prems QWritten client_write_done_queue [of c] by simp
    from Cons.IH [OF this] obtain c' sent where
      r: "queue_run m ops (client_write_done c) = Inr c'"
         "cl_out c' = cl_out (client_write_done c) @ concat sent"
         "sent @ tl (cl_msgQueue c') = tl (cl_msgQueue (client_write_done c)) @ accepted_frames ops" by blast
    show ?thesis
    proof (cases "tl (cl_msgQueue c)")
      case Nil
      with r QWritten client_write_done_queue [of c] show ?thesis
        by (intro exI [of _ c'] exI [of _ sent]) simp
    next
      case (Cons f fs)
      with r QWritten client_write_done_queue [of c] show ?thesis
        by (intro exI [of _ c'] exI [of _ "f # sent"]) simp
    qed
  qed
qed

text \<open>As long as the queue of a client never overflows, the bytes written to its connection are
  the accepted frames in the order they were accepted, each once: what was written followed by what
  still waits behind the frame in flight is exactly what was accepted.\<close>

theorem bc_queue_fifo:
  assumes "cl_msgQueue c = []" and "never_full m 0 ops"
  shows "\<exists>c' sent. queue_run m ops c = Inr c' \<and> cl_out c' = cl_out c @ concat sent \<and>
           sent @ tl (cl_msgQueue c') = accepted_frames ops"
  using queue_run_fifo [of m c ops] assms by simp

definition demo_client :: bc_client where
  "demo_client = \<lparr>cl_clientId = ''id'', cl_in = [], cl_out = [],
     cl_info = bc_client_info_empty\<lparr>ci_clientId := ''id''\<rparr>, cl_msgQueue = [], cl_heartbeatTimer = Some 7,
     cl_handshakeTimer = None, cl_handshakeDone = True, cl_lastActiveTime = 0, cl_lastDataSentTime = 0\<rparr>"

theorem bc_queue_fifo_witness:
  "\<exists>c' sent. queue_run 2 [QDeliver ''a'', QDeliver ''b'', QWritten, QDeliver ''c''] demo_client = Inr c' \<and>
     cl_out c' = concat sent \<and> sent @ tl (cl_msgQueue c') = map bc_frame [''a'', ''b'', ''c'']"
  using bc_queue_fifo [of demo_client 2 "[QDeliver ''a'', QDeliver ''b'', QWritten, QDeliver ''c'']"]
  by (simp add: demo_client_def)

lemma write_done_empty: "cl_msgQueue c = [] \<Longrightarrow> (client_write_done ^^ n) c = c"
  by (induction n) (auto simp: client_write_done_def)

lemma write_done_funpow:
  "length (cl_msgQueue c) \<le> Suc n \<Longrightarrow> cl_msgQueue c \<noteq> [] \<Longrightarrow>
   cl_out ((client_write_done ^^ n) c) = cl_out c @ concat (tl (cl_msgQueue c))"
proof (induction n arbitrary: c)
  case 0
  then show ?case by (cases "cl_msgQueue c") auto
next
  case (Suc n)
  note w = client_write_done_queue [of c]
  have fp: "(client_write_done ^^ Suc n) c = (client_write_done ^^ n) (client_write_done c)"
    by (simp only: funpow_Suc_right o_apply)
  show ?case
  proof (cases "tl (cl_msgQueue c)")
    case Nil
    with w show ?thesis by (simp only: fp) (simp add: write_done_empty)
  next
    case (Cons f fs)
    have "length (tl (cl_msgQueue c)) \<le> Suc n" using Suc.prems(1) by simp
    with Cons w have "cl_msgQueue (client_write_done c) \<noteq> []"
      "length (cl_msgQueue (client_write_done c)) \<le> Suc n" by auto
    from Suc.IH [OF this(2,1)] Cons w show ?thesis by (simp only: fp) simp
  qed
qed

text \<open>When the queue of a client is full, the frame in flight is the one that is dropped from it.
  The next write completion then removes the oldest frame that was never written: of the queued
  frames \<open>a\<close> (in flight), \<open>b\<close>, \<open>r\<close> and the new one, the connection gets \<open>r\<close> and the new one after
  \<open>a\<close>, while \<open>b\<close> is lost and only one frame, \<open>a\<close>, is counted as discarded.\<close>

theorem bc_queue_overflow_loses:
  assumes "cl_msgQueue c = a # b # r"
  shows "\<exists>c'. DeliverToClient (Suc (Suc (length r))) js c = Inr (c', True) \<and>
     cl_out ((client_write_done ^^ (Suc (length r))) c') = cl_out c @ concat r @ bc_frame js"
proof -
  obtain c' where c': "DeliverToClient (Suc (Suc (length r))) js c = Inr (c', True)"
    and q: "cl_msgQueue c' = b # r @ [bc_frame js]" and out: "cl_out c' = cl_out c"
    using assms by (auto simp: DeliverToClient_def Let_def)
  have "cl_out ((client_write_done ^^ (Suc (length r))) c') = cl_out c @ concat r @ bc_frame js"
    using write_done_funpow [of c' "Suc (length r)"] q out by simp
  with c' show ?thesis by blast
qed

theorem bc_queue_overflow_loses_witness:
  "\<exists>c'. DeliverToClient 2 ''c'' (demo_client\<lparr>cl_msgQueue := [bc_frame ''a'', bc_frame ''b''], cl_out := bc_frame ''a''\<rparr>)
       = Inr (c', True) \<and>
     cl_out (client_write_done c') = bc_frame ''a'' @ bc_frame ''c''"
  using bc_queue_overflow_loses [of "demo_client\<lparr>cl_msgQueue := [bc_frame ''a'', bc_frame ''b''], cl_out := bc_frame ''a''\<rparr>"
    "bc_frame ''a''" "bc_frame ''b''" "[]" "''c''"]
  by (simp add: numeral_2_eq_2)

section \<open>Broadcast\<close>

definition is_receiver :: "string \<Rightarrow> bc_client \<Rightarrow> bool" where
  "is_receiver tag c \<longleftrightarrow> cl_handshakeDone c \<and> tag_matches tag c"

definition queue_after :: "nat \<Rightarrow> string \<Rightarrow> bc_client \<Rightarrow> string list" where
  "queue_after m js c =
     (if length (cl_msgQueue c) \<ge> m then tl (cl_msgQueue c) else cl_msgQueue c) @ [bc_frame js]"

lemma DeliverToClient_queue:
  "0 < m \<Longrightarrow> \<exists>c'. DeliverToClient m js c = Inr (c', length (cl_msgQueue c) \<ge> m) \<and>
     cl_msgQueue c' = queue_after m js c"
  by (auto simp: DeliverToClient_def Let_def queue_after_def)

lemma broadcast_clients_exact:
  assumes "0 < m"
  shows "\<exists>kcs'. broadcast_clients m tag js kcs = Inr (kcs',
             length (filter (\<lambda>(k, c). is_receiver tag c) kcs),
             length (filter (\<lambda>(k, c). is_receiver tag c \<and> length (cl_msgQueue c) \<ge> m) kcs)) \<and>
           map fst kcs' = map fst kcs \<and>
           list_all2 (\<lambda>(k, c) (k', c'). if is_receiver tag c then cl_msgQueue c' = queue_after m js c else c' = c) kcs kcs'"
proof (induction kcs)
  case Nil
  then show ?case by simp
next
  case (Cons kc kcs)
  obtain k c where kc: "kc = (k, c)" by force
  from Cons obtain kcs' where ih: "broadcast_clients m tag js kcs = Inr (kcs',
             length (filter (\<lambda>(k, c). is_receiver tag c) kcs),
             length (filter (\<lambda>(k, c). is_receiver tag c \<and> length (cl_msgQueue c) \<ge> m) kcs))"
    "map fst kcs' = map fst kcs"
    "list_all2 (\<lambda>(k, c) (k', c'). if is_receiver tag c then cl_msgQueue c' = queue_after m js c else c' = c) kcs kcs'"
    by blast
  from DeliverToClient_queue [OF assms, of js c] obtain c' where
    "DeliverToClient m js c = Inr (c', length (cl_msgQueue c) \<ge> m)" "cl_msgQueue c' = queue_after m js c" by blast
  with ih kc show ?case by (auto simp: is_receiver_def)
qed

lemma list_all2_map_of:
  assumes "list_all2 (\<lambda>(k, c) (k', c'). P c c') kcs kcs'" and "map fst kcs' = map fst kcs"
    and "map_of kcs k = Some c"
  shows "\<exists>c'. map_of kcs' k = Some c' \<and> P c c'"
  using assms by (induction kcs kcs' rule: list_all2_induct) (auto split: if_splits)

text \<open>C29: A broadcast on the loop thread reaches exactly the clients that finished the handshake and
  subscribed to the tag (all of them for the empty tag): the frame is appended to their queues (the
  oldest frame is dropped where the queue is full), every other client is untouched, and the two
  counters grow by the number of receivers and of dropped frames.\<close>

theorem bc_broadcast_exact:
  assumes "sv_loopThreadId s = Some (env_thread E)" and "0 < cfg_clientQueueMaxSize (sv_config s)"
    and "topic \<noteq> []"
  shows "\<exists>s' js. Broadcast J E topic content tag s = Inr (True, s') \<and>
    js = jdump J (bc_wire_json J \<lparr>msg_id = env_uuid E, msg_topic = topic, msg_tag = tag, msg_content = content,
                               msg_timestamp = env_timestamp E\<rparr>) \<and>
    map fst (sv_clients s') = map fst (sv_clients s) \<and>
    (\<forall>k c. map_of (sv_clients s) k = Some c \<longrightarrow>
       (\<exists>c'. map_of (sv_clients s') k = Some c' \<and>
          (if is_receiver tag c then cl_msgQueue c' = queue_after (cfg_clientQueueMaxSize (sv_config s)) js c
           else c' = c))) \<and>
    sv_sentCount s' = sv_sentCount s + word_of_nat (length (filter (\<lambda>(k, c). is_receiver tag c) (sv_clients s))) \<and>
    sv_discardCount s' = sv_discardCount s + word_of_nat (length (filter (\<lambda>(k, c). is_receiver tag c \<and>
       length (cl_msgQueue c) \<ge> cfg_clientQueueMaxSize (sv_config s)) (sv_clients s)))"
proof -
  let ?m = "cfg_clientQueueMaxSize (sv_config s)"
  let ?js = "jdump J (bc_wire_json J \<lparr>msg_id = env_uuid E, msg_topic = topic, msg_tag = tag,
      msg_content = content, msg_timestamp = env_timestamp E\<rparr>)"
  from broadcast_clients_exact [OF assms(2), of tag ?js "sv_clients s"] obtain kcs' where
    b: "broadcast_clients ?m tag ?js (sv_clients s) = Inr (kcs',
             length (filter (\<lambda>(k, c). is_receiver tag c) (sv_clients s)),
             length (filter (\<lambda>(k, c). is_receiver tag c \<and> length (cl_msgQueue c) \<ge> ?m) (sv_clients s)))"
    and keys: "map fst kcs' = map fst (sv_clients s)"
    and rel: "list_all2 (\<lambda>(k, c) (k', c'). if is_receiver tag c then cl_msgQueue c' = queue_after ?m ?js c else c' = c)
       (sv_clients s) kcs'" by blast
  from assms b show ?thesis
    using keys list_all2_map_of [OF rel keys]
    by (auto simp: Broadcast_def ScheduleTask_def ExecuteTask_def send_task_def bc_task_new_def DoSend_def
        actual_delay_def scheduled_def Let_def)
qed

definition demo_api :: json_api where
  "demo_api = \<lparr>jparse = (\<lambda>s. if s = ''ok'' then Some (JObj [(''action'', JStr ''confirm_settings'')]) else None),
     jdump = (\<lambda>j. ''{}'')\<rparr>"

definition demo_env :: bc_env where
  "demo_env = \<lparr>env_thread = 1, env_now = 1000, env_uuid = ''u'', env_timestamp = ''t'', env_dispatch_ok = True,
     env_bind = Some (Some 8080), env_bev_ok = True, env_peer = Some (''127.0.0.1'', 5000)\<rparr>"

definition demo_config :: bc_server_config where
  "demo_config = bc_server_config_default\<lparr>cfg_evbase := True, cfg_maxConnections := 2\<rparr>"

definition demo_server :: bc_server where
  "demo_server = (bc_server_new demo_config)\<lparr>sv_loopThreadId := Some 1, sv_state := ZM_BC_STATE_LISTENING,
     sv_clients := [(''id'', demo_client)], ev_live := [7], ev_next := 8\<rparr>"

lemmas demo_defs = demo_api_def demo_env_def demo_config_def demo_server_def demo_client_def
  bc_server_new_def bc_server_config_default_def bc_client_info_empty_def

theorem bc_broadcast_exact_witness:
  "\<exists>s'. Broadcast demo_api demo_env ''news'' ''1'' [] demo_server = Inr (True, s') \<and> sv_sentCount s' = 1"
  using bc_broadcast_exact [of demo_server demo_env "''news''" demo_api "''1''" "[]"]
  by (auto simp: demo_defs is_receiver_def tag_matches_def)

section \<open>Safety of every run\<close>



section \<open>The connection limit\<close>

definition client_ids :: "bc_server \<Rightarrow> string set" where
  "client_ids s = fst ` set (sv_clients s)"

lemma client_ids_put: "map_of (sv_clients s) k = Some c0 \<Longrightarrow> k = cl_clientId c \<Longrightarrow> client_ids (put_client c s) = client_ids s"
  by (auto simp: client_ids_def put_client_def dom_map_of_conv_image_fst [symmetric] map_of_clients_put)

lemma client_ids_RemoveClient: "client_ids (RemoveClient k s) \<subseteq> client_ids s"
  using set_clients_erase [of k "sv_clients s"]
  by (auto simp: RemoveClient_def client_ids_def Let_def sv_call_def event_free_def split: option.splits)

lemma client_ids_fold_RemoveClient: "client_ids (fold RemoveClient ks s) \<subseteq> client_ids s"
  by (induction ks arbitrary: s) (use client_ids_RemoveClient in fastforce)+

lemma client_ids_same: "sv_clients s' = sv_clients s \<Longrightarrow> client_ids s' = client_ids s"
  by (simp add: client_ids_def)

lemma handle_client_frame_table:
  "sv_clients (snd (handle_client_frame J E j (c, s))) = sv_clients s"
  "cl_clientId (fst (handle_client_frame J E j (c, s))) = cl_clientId c"
  by (auto simp: handle_client_frame_def Let_def split_beta sv_call_def split: option.splits)

lemma fold_frames_table:
  "sv_clients (snd (fold (handle_client_frame J E) msgs cs)) = sv_clients (snd cs) \<and>
   cl_clientId (fst (fold (handle_client_frame J E) msgs cs)) = cl_clientId (fst cs)"
  by (induction msgs arbitrary: cs) (auto simp: handle_client_frame_table)

lemma server_inv_client_id: "server_inv s \<Longrightarrow> map_of (sv_clients s) k = Some c \<Longrightarrow> cl_clientId c = k"
proof -
  assume "server_inv s" and "map_of (sv_clients s) k = Some c"
  then have "client_ok k c" unfolding server_inv_def using map_of_SomeD by fast
  then show ?thesis unfolding client_ok_def by blast
qed

lemma client_ids_OnClientReadCB:
  assumes "server_inv s"
  shows "client_ids (OnClientReadCB J E k d s) \<subseteq> client_ids s"
proof (cases "map_of (sv_clients s) k")
  case None
  then show ?thesis by (simp add: OnClientReadCB_def)
next
  case (Some c)
  obtain msgs left where dec: "bc_decode_all (cl_in c @ d) = (msgs, left)" by force
  obtain c' s' where f: "fold (handle_client_frame J E) msgs (c\<lparr>cl_in := left\<rparr>, s) = (c', s')" by force
  from fold_frames_table [of J E msgs "(c\<lparr>cl_in := left\<rparr>, s)"] f have
    t: "sv_clients s' = sv_clients s" "cl_clientId c' = cl_clientId c" by simp_all
  have "client_ids (put_client c' s') = client_ids s'"
    by (rule client_ids_put [of s' k c]) (use t Some server_inv_client_id [OF assms Some] in simp_all)
  moreover have "OnClientReadCB J E k d s = put_client c' s'"
    by (simp add: OnClientReadCB_def Some dec f)
  ultimately show ?thesis using client_ids_same [OF t(1)] by simp
qed

lemma client_ids_callbacks:
  assumes "server_inv s"
  shows "client_ids (OnClientWriteCB k s) \<subseteq> client_ids s" "client_ids (OnClientEventCB k ev s) \<subseteq> client_ids s"
    "client_ids (OnHandshakeTimeoutCB k s) \<subseteq> client_ids s" "client_ids (OnHeartbeatCheckCB J E k s) \<subseteq> client_ids s"
proof -
  have put: "client_ids (put_client c' s) = client_ids s"
    if "map_of (sv_clients s) k = Some c" "cl_clientId c' = cl_clientId c" for c c'
    using that server_inv_client_id [OF assms that(1)] by (intro client_ids_put [of s k c]) simp_all
  show "client_ids (OnClientWriteCB k s) \<subseteq> client_ids s"
  proof (cases "map_of (sv_clients s) k")
    case None
    then show ?thesis by (simp add: OnClientWriteCB_def)
  next
    case (Some c)
    then show ?thesis using put [OF Some, of "client_write_done c"] by (simp add: OnClientWriteCB_def)
  qed
  show "client_ids (OnClientEventCB k ev s) \<subseteq> client_ids s"
    using client_ids_RemoveClient by (auto simp: OnClientEventCB_def)
  show "client_ids (OnHandshakeTimeoutCB k s) \<subseteq> client_ids s"
    using client_ids_RemoveClient by (auto simp: OnHandshakeTimeoutCB_def)
  show "client_ids (OnHeartbeatCheckCB J E k s) \<subseteq> client_ids s"
  proof (cases "map_of (sv_clients s) k")
    case None
    then show ?thesis by (simp add: OnHeartbeatCheckCB_def)
  next
    case (Some c)
    let ?w = "write_frame (jdump J bc_ping_json) c"
    have "client_ids (put_client (if fst ?w then snd ?w\<lparr>cl_lastDataSentTime := env_now E\<rparr> else snd ?w) s) = client_ids s"
      by (rule put [OF Some]) simp
    with Some client_ids_RemoveClient [of k s] show ?thesis
      by (auto simp: OnHeartbeatCheckCB_def Let_def split_beta)
  qed
qed

text \<open>Operations that keep or shrink the client table and keep the limit.\<close>

definition no_new_clients :: "bc_server \<Rightarrow> bc_server \<Rightarrow> bool" where
  "no_new_clients s s' \<longleftrightarrow> client_ids s' \<subseteq> client_ids s \<and>
     cfg_maxConnections (sv_config s') = cfg_maxConnections (sv_config s)"

lemma no_new_clients_trans: "no_new_clients s s1 \<Longrightarrow> no_new_clients s1 s2 \<Longrightarrow> no_new_clients s s2"
  by (auto simp: no_new_clients_def)

lemma no_new_clients_same:
  "sv_clients s' = sv_clients s \<Longrightarrow> sv_config s' = sv_config s \<Longrightarrow> no_new_clients s s'"
  by (simp add: no_new_clients_def client_ids_def)

lemma no_new_RemoveClient: "no_new_clients s (RemoveClient k s)"
  by (simp add: no_new_clients_def client_ids_RemoveClient)

lemma no_new_DoStop: "no_new_clients s (DoStop s)"
  using client_ids_fold_RemoveClient [of "map fst (sv_clients s)" "s\<lparr>sv_listener := False\<rparr>"]
  by (auto simp: no_new_clients_def DoStop_config) (auto simp: DoStop_def Let_def sv_call_def client_ids_def)

lemma no_new_DoStart: "no_new_clients s (DoStart E s)"
  by (auto simp: no_new_clients_def client_ids_def DoStart_def Let_def sv_call_def event_new_def split: option.splits)

lemma broadcast_clients_keys:
  "broadcast_clients m tag js kcs = Inr (kcs', n, d) \<Longrightarrow> map fst kcs' = map fst kcs"
  by (induction kcs arbitrary: kcs' n d) (auto split: if_splits sum.splits prod.splits)

lemma no_new_DoSend:
  assumes "DoSend J E msg k b d ts s = Inr s'"
  shows "no_new_clients s s'"
proof (cases "actual_delay (env_now E) d ts > 0")
  case True
  with assms show ?thesis by (auto simp: DoSend_def Let_def event_new_def intro: no_new_clients_same)
next
  case False
  show ?thesis
  proof (cases b)
    case True
    with False assms obtain kcs n dd where
      k: "broadcast_clients (cfg_clientQueueMaxSize (sv_config s)) (msg_tag msg) (jdump J (bc_wire_json J msg)) (sv_clients s)
         = Inr (kcs, n, dd)" and s': "sv_clients s' = kcs" "sv_config s' = sv_config s"
      by (auto simp: DoSend_def Let_def split: sum.splits)
    have "fst ` set kcs = fst ` set (sv_clients s)"
      using broadcast_clients_keys [OF k] by (metis list.set_map)
    with s' show ?thesis by (simp add: no_new_clients_def client_ids_def)
  next
    case nb: False
    show ?thesis
    proof (cases "map_of (sv_clients s) k")
      case None
      with False nb assms show ?thesis by (simp add: DoSend_def no_new_clients_same)
    next
      case (Some c)
      then have "k \<in> client_ids s" by (metis client_ids_def map_of_eq_None_iff option.distinct(1))
      then have put: "fst ` set (clients_put k c' (sv_clients s)) = fst ` set (sv_clients s)" for c'
        by (auto simp: client_ids_def dom_map_of_conv_image_fst [symmetric] map_of_clients_put)
      from False nb assms Some have "sv_config s' = sv_config s \<and>
          (sv_clients s' = sv_clients s \<or> (\<exists>c'. sv_clients s' = clients_put k c' (sv_clients s)))"
        by (auto simp: DoSend_def Let_def split: if_splits sum.splits)
      with put show ?thesis by (elim conjE disjE exE) (simp_all add: no_new_clients_def client_ids_def)
    qed
  qed
qed

lemma no_new_ExecuteTask: "ExecuteTask J E t s = Inr s' \<Longrightarrow> no_new_clients s s'"
  by (cases "tk_type t")
     (auto simp: ExecuteTask_def intro: no_new_DoStart no_new_DoStop no_new_RemoveClient no_new_DoSend)

lemma no_new_ScheduleTask: "ScheduleTask J E t s = Inr s' \<Longrightarrow> no_new_clients s s'"
  by (auto simp: ScheduleTask_def split: if_splits intro: no_new_ExecuteTask no_new_clients_same)

lemma no_new_execute_tasks: "execute_tasks J E ts s = Inr s' \<Longrightarrow> no_new_clients s s'"
proof (induction ts arbitrary: s)
  case Nil
  then show ?case by (simp add: no_new_clients_same)
next
  case (Cons t ts)
  then obtain s1 where "ExecuteTask J E t s = Inr s1" "execute_tasks J E ts s1 = Inr s'"
    by (auto split: sum.splits)
  with Cons.IH no_new_ExecuteTask no_new_clients_trans show ?case by blast
qed

lemma no_new_OnDelayedSendCB:
  assumes "OnDelayedSendCB J E t s = Inr s'"
  shows "no_new_clients s s'"
proof (cases "map_of (sv_delayed s) t")
  case None
  with assms show ?thesis by (simp add: OnDelayedSendCB_def no_new_clients_same)
next
  case (Some v)
  let ?s1 = "event_free (Some t) (s\<lparr>sv_delayed := filter (\<lambda>d. fst d \<noteq> t) (sv_delayed s)\<rparr>)"
  from Some assms have "no_new_clients ?s1 s'"
    by (auto simp: OnDelayedSendCB_def Let_def split: prod.splits dest: no_new_ScheduleTask)
  moreover have "no_new_clients s ?s1" by (rule no_new_clients_same) simp_all
  ultimately show ?thesis using no_new_clients_trans by blast
qed

lemma no_new_api:
  "drop_result (Send J E k tp ct tg s) = Inr s' \<Longrightarrow> no_new_clients s s'"
  "drop_result (Broadcast J E tp ct tg s) = Inr s' \<Longrightarrow> no_new_clients s s'"
  "drop_result (SendDelayed J E k tp ct tg d s) = Inr s' \<Longrightarrow> no_new_clients s s'"
  "drop_result (BroadcastDelayed J E tp ct tg d s) = Inr s' \<Longrightarrow> no_new_clients s s'"
  "drop_result (SendAt J E k tp ct tg ts s) = Inr s' \<Longrightarrow> no_new_clients s s'"
  "drop_result (BroadcastAt J E tp ct tg ts s) = Inr s' \<Longrightarrow> no_new_clients s s'"
  "drop_result (KickClient J E k s) = Inr s' \<Longrightarrow> no_new_clients s s'"
  by (auto simp: Send_def Broadcast_def SendDelayed_def BroadcastDelayed_def SendAt_def BroadcastAt_def
      KickClient_def drop_scheduled drop_result_Inr split: if_splits
      intro: no_new_ScheduleTask no_new_clients_same)

lemma no_new_OnDispatchEventCB:
  assumes "OnDispatchEventCB J E s = Inr s'"
  shows "no_new_clients s s'"
  using no_new_execute_tasks [of J E "sv_pendingTasks s" "s\<lparr>sv_pendingTasks := [], sv_dispatchActive := False\<rparr>" s'] assms
  by (simp add: OnDispatchEventCB_def no_new_clients_def client_ids_def)

lemma no_new_AsyncStop:
  assumes "AsyncStop J E s = Inr s'"
  shows "no_new_clients s s'"
  using assms no_new_ScheduleTask [of J E _ "s\<lparr>sv_state := ZM_BC_STATE_STOPPING\<rparr>" s'] no_new_ScheduleTask [of J E _ s s']
  by (cases "sv_state s")
     (auto simp: AsyncStop_def Let_def no_new_clients_def client_ids_def dest: no_new_ScheduleTask)

lemma no_new_step:
  assumes "server_inv s" and "bc_server_step J E e s = Inr s'"
    and "e \<noteq> EvAccept" and "\<forall>m. e \<noteq> EvSetMaxConnections m"
  shows "no_new_clients s s'"
proof -
  note cb = client_ids_callbacks [OF assms(1)] client_ids_OnClientReadCB [OF assms(1)]
  note cfg = callbacks_config
  have start: "sv_clients (snd (Start s)) = sv_clients s"
    by (auto simp: Start_def Let_def sv_call_def)
  from assms(2-4) show ?thesis
    by (cases e)
       (auto intro: no_new_api no_new_OnDispatchEventCB no_new_OnDelayedSendCB no_new_AsyncStop no_new_DoStart
          no_new_clients_same simp: start cfg,
        use cb in \<open>auto simp: no_new_clients_def cfg client_ids_def SetHeartbeatTime_def SetClientQueueMaxSize_def\<close>)
qed

definition limit_inv :: "int \<Rightarrow> bc_server \<Rightarrow> bool" where
  "limit_inv n s \<longleftrightarrow> 0 < n \<and> server_inv s \<and> cfg_maxConnections (sv_config s) = n \<and> int (card (client_ids s)) \<le> n"

definition keeps_limit :: "bc_env \<times> bc_event \<Rightarrow> bool" where
  "keeps_limit Ee \<longleftrightarrow> (\<forall>m. snd Ee \<noteq> EvSetMaxConnections m)"

lemma card_client_ids: "server_inv s \<Longrightarrow> card (client_ids s) = length (sv_clients s)"
  by (simp add: server_inv_def client_ids_def) (metis distinct_card length_map set_map)

lemma OnAcceptConnCB_limit:
  assumes "limit_inv n s"
  shows "limit_inv n (OnAcceptConnCB J E s)"
proof -
  from assms have inv: "server_inv s" by (simp add: limit_inv_def)
  have fin: "finite (client_ids s)" by (simp add: client_ids_def)
  have keys: "client_ids (OnAcceptConnCB J E s) \<subseteq> insert (env_uuid E) (client_ids s)"
    by (auto simp: OnAcceptConnCB_def Let_def split_beta client_ids_def dom_map_of_conv_image_fst [symmetric]
        map_of_clients_put)
  have full: "OnAcceptConnCB J E s = s" if "int (length (sv_clients s)) \<ge> n"
    using that assms by (simp add: OnAcceptConnCB_def limit_inv_def)
  show ?thesis
  proof (cases "int (length (sv_clients s)) \<ge> n")
    case True
    with full assms show ?thesis by simp
  next
    case False
    then have "int (card (client_ids s)) < n" using card_client_ids [OF inv] by simp
    moreover have "card (client_ids (OnAcceptConnCB J E s)) \<le> Suc (card (client_ids s))"
      using card_mono [OF _ keys] card_insert_le_m1 fin by (metis card_insert_if finite_insert le_SucI)
    ultimately have "int (card (client_ids (OnAcceptConnCB J E s))) \<le> n" by linarith
    with assms inv show ?thesis by (simp add: limit_inv_def OnAcceptConnCB_inv callbacks_config)
  qed
qed

lemma limit_step:
  assumes "limit_inv n s" and "keeps_limit (E, e)" and "bc_server_step J E e s = Inr s'"
  shows "limit_inv n s'"
proof (cases "e = EvAccept")
  case True
  with assms OnAcceptConnCB_limit show ?thesis by auto
next
  case False
  from assms(1) have inv: "server_inv s" by (simp add: limit_inv_def)
  have nn: "no_new_clients s s'"
    using no_new_step [OF inv assms(3) False] assms(2) by (simp add: keeps_limit_def)
  moreover have "finite (client_ids s)" by (simp add: client_ids_def)
  ultimately have "card (client_ids s') \<le> card (client_ids s)" by (simp add: no_new_clients_def card_mono)
  with assms(1) nn bc_server_step_inv [OF inv assms(3)] show ?thesis
    by (simp add: limit_inv_def no_new_clients_def)
qed

interpretation bc_limit: invariant_system "limit_inv n" keeps_limit "\<lambda>(E, e). bc_server_step J E e" for n J
  by unfold_locales (auto dest: limit_step)

text \<open>With a positive connection limit that is not changed on the way, no sequence of accepts,
  messages, timers, sends and restarts ever leaves more connections in the table than the limit.\<close>

theorem bc_connection_limit:
  assumes "0 < cfg_maxConnections cfg" and "\<forall>Ee \<in> set es. \<forall>m. snd Ee \<noteq> EvSetMaxConnections m"
    and "bc_server_run J es (bc_server_new cfg) = Inr s"
  shows "int (GetConnectionCount s) \<le> cfg_maxConnections cfg"
proof -
  have "limit_inv (cfg_maxConnections cfg) (bc_server_new cfg)"
    using assms(1) by (simp add: limit_inv_def server_inv_new) (simp add: bc_server_new_def client_ids_def)
  then have "limit_inv (cfg_maxConnections cfg) s"
    using bc_limit.inv_run assms(2,3) by (fastforce simp: bc_server_run_def keeps_limit_def)
  then show ?thesis using card_client_ids [of s] by (simp add: limit_inv_def GetConnectionCount_def)
qed

theorem bc_connection_limit_witness:
  "\<exists>s. bc_server_run demo_api [(demo_env, EvStart), (demo_env, EvDoStart), (demo_env, EvAccept),
       (demo_env\<lparr>env_uuid := ''v''\<rparr>, EvAccept), (demo_env\<lparr>env_uuid := ''w''\<rparr>, EvAccept)] (bc_server_new demo_config) = Inr s \<and>
     int (GetConnectionCount s) \<le> 2"
  using bc_connection_limit [of demo_config "[(demo_env, EvStart), (demo_env, EvDoStart), (demo_env, EvAccept),
       (demo_env\<lparr>env_uuid := ''v''\<rparr>, EvAccept), (demo_env\<lparr>env_uuid := ''w''\<rparr>, EvAccept)]" demo_api]
  by (simp add: demo_config_def)

section \<open>Stopping\<close>

lemma clients_empty_fold: "client_ids s \<subseteq> set ks \<Longrightarrow> distinct (map fst (sv_clients s)) \<Longrightarrow> sv_clients (fold RemoveClient ks s) = []"
proof (induction ks arbitrary: s)
  case Nil
  then show ?case by (simp add: client_ids_def)
next
  case (Cons k ks)
  have r: "sv_clients (RemoveClient k s) = clients_erase k (sv_clients s)"
    by (cases "map_of (sv_clients s) k") (simp_all add: RemoveClient_def Let_def sv_call_def clients_erase_None)
  have "client_ids (RemoveClient k s) = set (remove1 k (map fst (sv_clients s)))"
    unfolding client_ids_def r keys_clients_erase [symmetric] by (simp only: list.set_map)
  also have "\<dots> = client_ids s - {k}"
    using Cons.prems(2) unfolding client_ids_def by (simp only: set_remove1_eq list.set_map)
  finally have "client_ids (RemoveClient k s) = client_ids s - {k}" .
  with Cons.prems(1) have "client_ids (RemoveClient k s) \<subseteq> set ks" by auto
  moreover have "distinct (map fst (sv_clients (RemoveClient k s)))"
    using Cons.prems(2) by (simp only: r distinct_clients_erase)
  ultimately show ?case using Cons.IH [of "RemoveClient k s"] by simp
qed

lemma RemoveClient_log:
  "sv_log (RemoveClient k s) = sv_log s @ (case map_of (sv_clients s) k of None \<Rightarrow> [] | Some c \<Rightarrow> [OnClientOffline (client_snapshot c)])"
  by (auto simp: RemoveClient_def Let_def sv_call_def event_free_def split: option.splits)

lemma fold_RemoveClient_log:
  "distinct (map fst kcs) \<Longrightarrow> sv_clients s = kcs \<Longrightarrow>
   sv_log (fold RemoveClient (map fst kcs) s) = sv_log s @ map (\<lambda>(k, c). OnClientOffline (client_snapshot c)) kcs"
proof (induction kcs arbitrary: s)
  case Nil
  then show ?case by simp
next
  case (Cons kc kcs)
  obtain k c where kc: "kc = (k, c)" by force
  have "sv_clients (RemoveClient k s) = kcs"
    using Cons.prems kc by (simp add: RemoveClient_def Let_def sv_call_def)
  from Cons.IH [OF _ this] Cons.prems kc show ?case by (simp add: RemoveClient_log)
qed

lemma RemoveClient_kept:
  "sv_delayed (RemoveClient k s) = sv_delayed s" "sv_pendingTasks (RemoveClient k s) = sv_pendingTasks s"
  "sv_listener (RemoveClient k s) = sv_listener s"
  by (auto simp: RemoveClient_def Let_def sv_call_def event_free_def split: option.splits)

lemma fold_RemoveClient_kept:
  "sv_delayed (fold RemoveClient ks s) = sv_delayed s \<and> sv_pendingTasks (fold RemoveClient ks s) = sv_pendingTasks s \<and>
   sv_listener (fold RemoveClient ks s) = sv_listener s"
  by (induction ks arbitrary: s) (simp_all add: RemoveClient_kept)

text \<open>Stopping empties the server: no listener, client, retry timer or dispatch event is left, the
  listeners are told of every client that goes and last of the stop, and the state is STOPPED.  The
  timers of delayed messages are the exception: they stay live, with their pointer to the server.\<close>

theorem bc_DoStop_clean:
  assumes "server_inv s"
  shows "sv_clients (DoStop s) = [] \<and> \<not> sv_listener (DoStop s) \<and> sv_retryTimer (DoStop s) = None \<and>
    sv_dispatchEvent (DoStop s) = None \<and> \<not> sv_dispatchActive (DoStop s) \<and> sv_startTime (DoStop s) = 0 \<and>
    sv_state (DoStop s) = ZM_BC_STATE_STOPPED \<and>
    sv_log (DoStop s) = sv_log s @ map (\<lambda>(k, c). OnClientOffline (client_snapshot c)) (sv_clients s) @ [OnListenStopped] \<and>
    sv_delayed (DoStop s) = sv_delayed s \<and> set (map fst (sv_delayed s)) \<subseteq> set (ev_live (DoStop s))"
proof -
  let ?s1 = "s\<lparr>sv_listener := False\<rparr>"
  from assms have d: "distinct (map fst (sv_clients s))" by (simp add: server_inv_def)
  have e: "sv_clients (fold RemoveClient (map fst (sv_clients s)) ?s1) = []"
    by (rule clients_empty_fold) (simp_all add: client_ids_def d)
  have l: "sv_log (fold RemoveClient (map fst (sv_clients s)) ?s1)
      = sv_log s @ map (\<lambda>(k, c). OnClientOffline (client_snapshot c)) (sv_clients s)"
    using fold_RemoveClient_log [OF d, of ?s1] by simp
  have k: "sv_delayed (DoStop s) = sv_delayed s"
    by (simp add: DoStop_def Let_def sv_call_def fold_RemoveClient_kept)
  have "delayed_handles (sv_delayed (DoStop s)) \<subseteq># server_handles (DoStop s)"
    by (simp add: server_handles_def)
  also have "server_handles (DoStop s) \<subseteq># mset (ev_live (DoStop s))"
    using DoStop_inv [OF assms] unfolding server_inv_def handles_ok_def by blast
  finally have "delayed_handles (sv_delayed (DoStop s)) \<subseteq># mset (ev_live (DoStop s))" .
  then have "set_mset (mset (map fst (sv_delayed s))) \<subseteq> set_mset (mset (ev_live (DoStop s)))"
    unfolding delayed_handles_def k by (rule set_mset_mono)
  then have "set (map fst (sv_delayed s)) \<subseteq> set (ev_live (DoStop s))" by (simp only: set_mset_mset)
  moreover have "sv_clients (DoStop s) = []" by (simp add: DoStop_def Let_def sv_call_def e)
  moreover have "sv_log (DoStop s) = sv_log s @ map (\<lambda>(k, c). OnClientOffline (client_snapshot c)) (sv_clients s) @ [OnListenStopped]"
    by (simp add: DoStop_def Let_def sv_call_def l)
  moreover have "\<not> sv_listener (DoStop s)"
    using fold_RemoveClient_kept [of "map fst (sv_clients s)" ?s1]
    by (simp add: DoStop_def Let_def sv_call_def event_free_def split: option.splits)
  ultimately show ?thesis using k by (simp add: DoStop_def Let_def sv_call_def)
qed

lemma demo_server_inv: "server_inv demo_server"
  by (simp add: demo_defs server_inv_def client_ok_def handles_ok_def server_handles_def client_handles_def
      delayed_handles_def)

theorem bc_DoStop_clean_witness:
  "sv_clients (DoStop demo_server) = [] \<and> sv_state (DoStop demo_server) = ZM_BC_STATE_STOPPED \<and>
   length (sv_log (DoStop demo_server)) = 2"
  using bc_DoStop_clean [OF demo_server_inv] by (simp add: demo_server_def bc_server_new_def)

text \<open>A stop requested from another thread while the start is still on its way is lost: \<open>DoStart\<close>
  overwrites the STOPPING state with LISTENING, and the stop task stays in the queue with nothing to
  run it, because there was no dispatch event to activate when it was queued.\<close>

theorem bc_stop_before_start_lost:
  assumes "cfg_evbase cfg" and "env_dispatch_ok E3" and "env_bind E3 = Some sock"
  shows "\<exists>s. bc_server_run J [(E1, EvStart), (E2, EvAsyncStop), (E3, EvDoStart)] (bc_server_new cfg) = Inr s \<and>
    sv_state s = ZM_BC_STATE_LISTENING \<and> sv_listener s \<and>
    sv_pendingTasks s = [bc_task_new BC_TASK_STOP] \<and> \<not> sv_dispatchActive s"
  using assms by (cases sock) (simp_all add: Start_def AsyncStop_def ScheduleTask_def DoStart_def Let_def
      bc_server_new_def sv_call_def event_new_def event_free_def)

theorem bc_stop_before_start_lost_witness:
  "\<exists>s. bc_server_run demo_api [(demo_env, EvStart), (demo_env, EvAsyncStop), (demo_env, EvDoStart)]
        (bc_server_new demo_config) = Inr s \<and> sv_state s = ZM_BC_STATE_LISTENING \<and> sv_listener s \<and>
      \<not> sv_dispatchActive s"
  using bc_stop_before_start_lost [of demo_config demo_env "Some 8080" demo_api demo_env demo_env]
  by (auto simp: demo_config_def demo_env_def)

section \<open>Delays and heartbeats\<close>

text \<open>The delay of a message sent at a time in the future is the remaining time modulo
  \<open>2 ^ 32\<close> milliseconds: at most 49.7 days away it is exact, beyond it the message goes out too
  early; a time in the past and no time give no delay beyond the one asked for.\<close>

theorem bc_actual_delay_truncates:
  "unat (actual_delay now delayMs ts) =
    (if ts = 0 then unat delayMs else if unat ts \<le> unat now then 0 else (unat ts - unat now) mod 2 ^ 32)"
proof (cases "ts > now")
  case True
  then have "unat (ts - now) = unat ts - unat now" by (simp add: unat_sub word_less_nat_alt word_le_nat_alt)
  with True show ?thesis by (auto simp: actual_delay_def unsigned_ucast_eq take_bit_eq_mod word_less_nat_alt)
next
  case False
  then show ?thesis by (auto simp: actual_delay_def word_less_nat_alt word_gt_0 unat_eq_0)
qed

lemma map_of_RemoveClient:
  assumes "server_inv s"
  shows "map_of (sv_clients (RemoveClient k s)) k = None"
proof (cases "map_of (sv_clients s) k")
  case None
  then show ?thesis by (simp add: RemoveClient_def)
next
  case (Some c)
  have "distinct (map fst (sv_clients s))" using assms by (simp add: server_inv_def)
  with Some show ?thesis by (simp add: RemoveClient_def Let_def sv_call_def map_of_clients_erase)
qed

text \<open>A heartbeat check removes a client exactly when the time since its last message, computed
  modulo \<open>2 ^ 64\<close> from the system clock, reaches the heartbeat time; so a clock that was set back
  after that message removes a live client at once.\<close>

theorem bc_heartbeat_removes_iff:
  assumes "server_inv s" and "map_of (sv_clients s) k = Some c"
    and "0 < cfg_heartbeatTime (sv_config s)" and "cfg_heartbeatTime (sv_config s) < 2 ^ 31"
  shows "(map_of (sv_clients (OnHeartbeatCheckCB J E k s)) k = None \<longleftrightarrow>
      cfg_heartbeatTime (sv_config s) * 1000 \<le> (uint (env_now E) - uint (cl_lastActiveTime c)) mod 2 ^ 64) \<and>
    (uint (env_now E) < uint (cl_lastActiveTime c) \<longrightarrow> uint (cl_lastActiveTime c) - uint (env_now E) \<le> 2 ^ 62 \<longrightarrow>
      map_of (sv_clients (OnHeartbeatCheckCB J E k s)) k = None)"
proof -
  let ?h = "cfg_heartbeatTime (sv_config s)" and ?e = "env_now E - cl_lastActiveTime c"
  have h: "uint ((word_of_int ?h :: u64) * 1000) = ?h * 1000"
    using assms(3,4) by (simp add: uint_word_ariths uint_word_of_int)
  have e: "uint ?e = (uint (env_now E) - uint (cl_lastActiveTime c)) mod 2 ^ 64"
    by (simp add: uint_word_ariths)
  have put: "map_of (sv_clients (put_client c' s)) k \<noteq> None" if "cl_clientId c' = cl_clientId c" for c'
    using that server_inv_client_id [OF assms(1,2)] by (simp add: put_client_def map_of_clients_put)
  have iff: "map_of (sv_clients (OnHeartbeatCheckCB J E k s)) k = None \<longleftrightarrow> (word_of_int ?h :: u64) * 1000 \<le> ?e"
    using assms(2) map_of_RemoveClient [OF assms(1), of k] put [of "snd (write_frame (jdump J bc_ping_json) c)"]
      put [of "snd (write_frame (jdump J bc_ping_json) c)\<lparr>cl_lastDataSentTime := env_now E\<rparr>"]
    by (simp add: OnHeartbeatCheckCB_def Let_def split_beta)
  have stepped: "?h * 1000 \<le> (uint (env_now E) - uint (cl_lastActiveTime c)) mod 2 ^ 64"
    if "uint (env_now E) < uint (cl_lastActiveTime c)" "uint (cl_lastActiveTime c) - uint (env_now E) \<le> 2 ^ 62"
  proof -
    let ?x = "uint (env_now E) - uint (cl_lastActiveTime c)"
    have "?x mod 2 ^ 64 = (?x + 2 ^ 64) mod 2 ^ 64" by simp
    also have "\<dots> = ?x + 2 ^ 64" by (rule mod_pos_pos_trivial) (use that in simp_all)
    finally show ?thesis using that assms(4) by simp
  qed
  show ?thesis unfolding iff word_le_def h e using stepped by blast
qed

theorem bc_heartbeat_removes_iff_witness:
  "map_of (sv_clients (OnHeartbeatCheckCB demo_api (demo_env\<lparr>env_now := 60000\<rparr>) ''id'' demo_server)) ''id'' = None"
  using bc_heartbeat_removes_iff [OF demo_server_inv, of "''id''" demo_client demo_api "demo_env\<lparr>env_now := 60000\<rparr>"]
  by (simp add: demo_defs)

end
