(* ===== verification/BcLink.thy ===== *)
theory BcLink
  imports BcClientInv BcServerProps
begin

text \<open>
  The client and its link to the server: safety of every run of the client, the handshake between the
  two ends over the bytes of the connection, agreement of the two tag lists, and two ways in which a
  disconnect goes wrong.
\<close>

section \<open>Runs of the client\<close>


definition demo_cli_config :: bc_cli_config where
  "demo_cli_config = \<lparr>cf_serverIp = ''127.0.0.1'', cf_serverPort = 8080, cf_handshakeTimeout = 10,
     cf_initialTags = [''news''], cf_evbase = True\<rparr>"

definition demo_cli_env :: bc_cli_env where
  "demo_cli_env = \<lparr>cv_thread = 1, cv_now = 1000, cv_dispatch_ok = True, cv_bev_ok = True, cv_pton_ok = True,
     cv_connect_ok = True\<rparr>"


lemma free_handshake_fields [simp]:
  "cc_bev (free_handshake s) = cc_bev s" "cc_loopThreadId (free_handshake s) = cc_loopThreadId s"
  "cc_currentTags (free_handshake s) = cc_currentTags s" "cc_config (free_handshake s) = cc_config s"
  "cc_log (free_handshake s) = cc_log s" "cc_handshakeTimer (free_handshake s) = None"
  by (auto simp: free_handshake_def cc_event_free_def split: option.splits)

lemma free_timer_fields [simp]:
  "cc_state (free_retry s) = cc_state s" "cc_config (free_retry s) = cc_config s" "cc_log (free_retry s) = cc_log s"
  "cc_posted (free_retry s) = cc_posted s" "cc_threadPool (free_retry s) = cc_threadPool s"
  "cc_posted (free_handshake s) = cc_posted s" "cc_threadPool (free_handshake s) = cc_threadPool s"
  "cc_config (free_dispatch s) = cc_config s" "cc_log (free_dispatch s) = cc_log s"
  "cc_posted (free_dispatch s) = cc_posted s" "cc_threadPool (free_dispatch s) = cc_threadPool s"
  by (auto simp: free_retry_def free_handshake_def free_dispatch_def cc_event_free_def split: option.splits)

lemma ensure_dispatch_fields [simp]:
  "cc_state (ensure_dispatch E s) = cc_state s" "cc_log (ensure_dispatch E s) = cc_log s"
  "cc_threadPool (ensure_dispatch E s) = cc_threadPool s"
  by (auto simp: ensure_dispatch_def cc_event_new_def)

lemma DoConnect_ok:
  assumes "cf_evbase (cc_config s)" and "cv_bev_ok E" and "cv_pton_ok E" and "cv_connect_ok E"
  shows "cc_state (DoConnect E s) = cc_state s" "cc_log (DoConnect E s) = cc_log s"
    "cc_threadPool (DoConnect E s) = cc_threadPool s" "\<exists>cn. cc_bev (DoConnect E s) = Some cn"
  using assms by (simp_all add: DoConnect_def)

section \<open>The handshake\<close>

text \<open>What the handshake relies on of the JSON library: its messages survive a dump and a parse, and fit a frame.\<close>

definition wire_ok :: "json_api \<Rightarrow> json \<Rightarrow> bool" where
  "wire_ok J j \<longleftrightarrow> jparse J (jdump J j) = Some j \<and> bc_body_ok (jdump J j)"

lemma wire_ok_body: "wire_ok J j \<Longrightarrow> bc_body_ok (jdump J j) \<and> jdump J j \<noteq> []"
  by (simp add: wire_ok_def bc_body_ok_def)

definition on_loop :: "bc_cli_env \<Rightarrow> bc_cli \<Rightarrow> bool" where
  "on_loop E q \<longleftrightarrow> cc_loopThreadId q = Some (cv_thread E)"

lemma SendJson_on_loop:
  assumes "on_loop E q" and "cc_bev q = Some cn" and "json \<noteq> []"
  shows "SendJson E json q = q\<lparr>cc_bev := Some (cn\<lparr>cn_out := cn_out cn @ bc_frame json\<rparr>)\<rparr>"
  using assms
  by (simp add: SendJson_def cli_ScheduleTask_def on_loop_def cli_ExecuteTask_def bev_send_def bc_frame_encode_append)

definition confirm_json :: json where
  "confirm_json = action_json ''confirm_settings''"

text \<open>The reply of a client to the settings message.\<close>

definition handshake_reply :: "json_api \<Rightarrow> string list \<Rightarrow> string" where
  "handshake_reply J tags = bc_frame (jdump J confirm_json) @
     (if tags = [] then [] else bc_frame (jdump J (tags_json ''subscribe'' tags)))"

lemma HandleMessage_settings:
  assumes "on_loop E q" and "cc_bev q = Some cn" and "jparse J js = Some (bc_settings_json h)"
    and "wire_ok J confirm_json" and "cc_currentTags q \<noteq> [] \<Longrightarrow> wire_ok J (tags_json ''subscribe'' (cc_currentTags q))"
  shows "cc_bev (HandleMessage J E js q) =
      Some (cn\<lparr>cn_out := cn_out cn @ handshake_reply J (cc_currentTags q)\<rparr>) \<and>
    cc_handshakeDone (HandleMessage J E js q) \<and> cc_handshakeTimer (HandleMessage J E js q) = None \<and>
    cc_state (HandleMessage J E js q) = ZM_BC_STATE_LISTENING \<and>
    cc_log (HandleMessage J E js q) = cc_log q @ [OnConnected (cf_serverIp (cc_config q)) (cf_serverPort (cc_config q))]"
proof -
  let ?q1 = "q\<lparr>cc_bev := Some (cn\<lparr>cn_out := cn_out cn @ bc_frame (jdump J confirm_json)\<rparr>)\<rparr>"
  let ?q2 = "(free_handshake ?q1)\<lparr>cc_handshakeDone := True, cc_startTime := cv_now E, cc_state := ZM_BC_STATE_LISTENING\<rparr>"
  have s1: "SendJson E (jdump J (action_json ''confirm_settings'')) q = ?q1"
    using SendJson_on_loop [OF assms(1,2)] wire_ok_body [OF assms(4)] by (simp add: confirm_json_def)
  have l2: "on_loop E ?q2" using assms(1) by (simp add: on_loop_def)
  have hm: "HandleMessage J E js q = (let s3 = SendCurrentTags J E ?q2
      in cc_call (OnConnected (cf_serverIp (cc_config s3)) (cf_serverPort (cc_config s3))) s3)"
    using assms(3) by (simp add: HandleMessage_def bc_settings_json_def is_settings_def s1)
  show ?thesis
  proof (cases "cc_currentTags q = []")
    case True
    then show ?thesis by (simp add: hm SendCurrentTags_def cc_call_def handshake_reply_def)
  next
    case False
    have b2: "cc_bev ?q2 = Some (cn\<lparr>cn_out := cn_out cn @ bc_frame (jdump J confirm_json)\<rparr>)" by simp
    from False assms(5) wire_ok_body have "jdump J (tags_json ''subscribe'' (cc_currentTags q)) \<noteq> []" by blast
    from SendJson_on_loop [OF l2 b2 this] False show ?thesis
      by (simp add: hm SendCurrentTags_def cc_call_def handshake_reply_def)
  qed
qed

lemma OnReadCB_settings:
  assumes "on_loop E q" and "cc_bev q = Some \<lparr>cn_in = [], cn_out = out, cn_connected = b\<rparr>"
    and "wire_ok J (bc_settings_json h)"
    and "wire_ok J confirm_json" and "cc_currentTags q \<noteq> [] \<Longrightarrow> wire_ok J (tags_json ''subscribe'' (cc_currentTags q))"
  shows "OnReadCB J E (bc_frame (jdump J (bc_settings_json h))) q
       = HandleMessage J E (jdump J (bc_settings_json h)) q"
proof -
  have "bc_decode_all (bc_frame (jdump J (bc_settings_json h))) = ([jdump J (bc_settings_json h)], [])"
    using bc_decode_all_frame [of "jdump J (bc_settings_json h)" "[]"] assms(3) by (simp add: wire_ok_def)
  moreover have eq: "q\<lparr>cc_bev := Some \<lparr>cn_in = [], cn_out = out, cn_connected = b\<rparr>\<rparr> = q"
    using assms(2) by (cases q) simp
  ultimately show ?thesis by (simp add: OnReadCB_def assms(2) eq)
qed

text \<open>The server reads the reply.\<close>

lemma add_subscribe_tags: "subscribe_tags (map JStr ts) cur = add_tags ts cur"
  by (induction ts cur rule: add_tags.induct) auto

lemma drop_unsubscribe_tags: "unsubscribe_tags (map JStr ts) cur = drop_tags ts cur"
  by (induction ts cur rule: drop_tags.induct) auto

lemma add_tags_fresh: "distinct (cur @ ts) \<Longrightarrow> add_tags ts cur = cur @ ts"
proof (induction ts cur rule: add_tags.induct)
  case (2 t ts current)
  then show ?case by (cases "t \<in> set current") auto
qed simp

lemma handle_confirm:
  assumes "jparse J js = Some confirm_json" and "\<not> cl_handshakeDone c"
  shows "\<exists>c' s'. handle_client_frame J E js (c, s) = (c', s') \<and> cl_handshakeDone c' \<and>
    cl_clientId c' = cl_clientId c \<and> cl_in c' = cl_in c \<and> ci_tags (cl_info c') = ci_tags (cl_info c) \<and>
    sv_clients s' = sv_clients s \<and> sv_log s' = sv_log s @ [OnClientOnline (cl_info c')]"
  using assms
  by (simp add: handle_client_frame_def confirm_json_def action_json_def zm_json_get_str_def Let_def split_beta
      sv_call_def event_new_def)

lemma handle_subscribe:
  assumes "jparse J js = Some (tags_json ''subscribe'' ts)"
  shows "\<exists>c'. handle_client_frame J E js (c, s) = (c', s) \<and> cl_handshakeDone c' = cl_handshakeDone c \<and>
    cl_clientId c' = cl_clientId c \<and> ci_tags (cl_info c') = add_tags ts (ci_tags (cl_info c))"
  using assms
  by (simp add: handle_client_frame_def tags_json_def zm_json_get_str_def msg_tags_def set_tags_def add_subscribe_tags)

lemma decode_reply:
  assumes "wire_ok J confirm_json" and "ts \<noteq> [] \<Longrightarrow> wire_ok J (tags_json ''subscribe'' ts)"
  shows "bc_decode_all (handshake_reply J ts) =
    (jdump J confirm_json # (if ts = [] then [] else [jdump J (tags_json ''subscribe'' ts)]), [])"
proof (cases "ts = []")
  case True
  with assms bc_decode_all_frame [of "jdump J confirm_json" "[]"] show ?thesis
    by (simp add: handshake_reply_def wire_ok_def)
next
  case False
  with assms bc_decode_all_frame [of "jdump J (tags_json ''subscribe'' ts)" "[]"]
    bc_decode_all_frame [of "jdump J confirm_json" "bc_frame (jdump J (tags_json ''subscribe'' ts))"]
  show ?thesis by (simp add: handshake_reply_def wire_ok_def)
qed

lemma OnClientReadCB_reply:
  assumes "server_inv s" and "map_of (sv_clients s) k = Some c" and "cl_in c = []" and "\<not> cl_handshakeDone c"
    and "ci_tags (cl_info c) = []" and "distinct ts"
    and "wire_ok J confirm_json" and "ts \<noteq> [] \<Longrightarrow> wire_ok J (tags_json ''subscribe'' ts)"
  shows "\<exists>c'. map_of (sv_clients (OnClientReadCB J E k (handshake_reply J ts) s)) k = Some c' \<and>
    cl_handshakeDone c' \<and> ci_tags (cl_info c') = ts \<and>
    (\<exists>info. sv_log (OnClientReadCB J E k (handshake_reply J ts) s) = sv_log s @ [OnClientOnline info])"
proof -
  have id: "cl_clientId c = k" by (rule server_inv_client_id [OF assms(1,2)])
  let ?c0 = "c\<lparr>cl_in := []\<rparr>"
  have pc: "jparse J (jdump J confirm_json) = Some confirm_json" using assms(7) by (simp add: wire_ok_def)
  from handle_confirm [OF pc, of ?c0 E s] assms(4,5) id obtain c1 s1 where
    h1: "handle_client_frame J E (jdump J confirm_json) (?c0, s) = (c1, s1)" "cl_handshakeDone c1"
      "cl_clientId c1 = k" "ci_tags (cl_info c1) = []" "sv_log s1 = sv_log s @ [OnClientOnline (cl_info c1)]"
    by auto
  show ?thesis
  proof (cases "ts = []")
    case True
    with decode_reply [OF assms(7,8)] assms(2,3) h1 show ?thesis
      by (simp add: OnClientReadCB_def put_client_def map_of_clients_put)
  next
    case False
    then have ps: "jparse J (jdump J (tags_json ''subscribe'' ts)) = Some (tags_json ''subscribe'' ts)"
      using assms(8) by (simp add: wire_ok_def)
    from handle_subscribe [OF ps, of E c1 s1] h1 add_tags_fresh [of "[]" ts] assms(6) obtain c2 where
      "handle_client_frame J E (jdump J (tags_json ''subscribe'' ts)) (c1, s1) = (c2, s1)" "cl_handshakeDone c2"
      "cl_clientId c2 = k" "ci_tags (cl_info c2) = ts" by auto
    with False decode_reply [OF assms(7,8)] assms(2,3) h1 show ?thesis
      by (simp add: OnClientReadCB_def put_client_def map_of_clients_put)
  qed
qed

text \<open>The connection as the server makes it on accept.\<close>

lemma OnAcceptConnCB_client:
  assumes "int (length (sv_clients s)) < cfg_maxConnections (sv_config s) \<or> cfg_maxConnections (sv_config s) \<le> 0"
    and "env_bev_ok E" and "jdump J (bc_settings_json (cfg_heartbeatTime (sv_config s))) \<noteq> []"
  shows "\<exists>c. map_of (sv_clients (OnAcceptConnCB J E s)) (env_uuid E) = Some c \<and> cl_in c = [] \<and>
    cl_out c = bc_frame (jdump J (bc_settings_json (cfg_heartbeatTime (sv_config s)))) \<and>
    \<not> cl_handshakeDone c \<and> ci_tags (cl_info c) = [] \<and> sv_log (OnAcceptConnCB J E s) = sv_log s"
  using assms
  by (cases "env_peer E") (auto simp: OnAcceptConnCB_def Let_def split_beta map_of_clients_put write_frame_def
      bc_frame_encode_append event_new_def bc_client_info_empty_def)


definition link_api :: json_api where
  "link_api = \<lparr>jparse = (\<lambda>t. if t = ''S'' then Some (bc_settings_json 60) else if t = ''C'' then Some confirm_json
       else if t = ''T'' then Some (tags_json ''subscribe'' [''news''])
       else if t = ''U'' then Some (tags_json ''unsubscribe'' [''news'']) else None),
     jdump = (\<lambda>j. if j = bc_settings_json 60 then ''S'' else if j = confirm_json then ''C''
       else if j = tags_json ''subscribe'' [''news''] then ''T''
       else if j = tags_json ''unsubscribe'' [''news''] then ''U'' else ''?'')\<rparr>"

lemma link_api_wire:
  "wire_ok link_api (bc_settings_json 60)" "wire_ok link_api confirm_json"
  "wire_ok link_api (tags_json ''subscribe'' [''news''])" "wire_ok link_api (tags_json ''unsubscribe'' [''news''])"
  by (simp_all add: wire_ok_def link_api_def bc_body_ok_def bc_settings_json_def confirm_json_def action_json_def
      tags_json_def)

definition link_client :: bc_cli where
  "link_client = (bc_cli_new demo_cli_config)\<lparr>cc_loopThreadId := Some 1, cc_state := ZM_BC_STATE_STARTING,
     cc_bev := Some \<lparr>cn_in = [], cn_out = [], cn_connected = True\<rparr>\<rparr>"


section \<open>Tags on both ends\<close>

text \<open>Once connected, the two tag lists stay equal: when the client's list is the list the server
  holds for the connection, a \<open>Subscribe\<close> or \<open>Unsubscribe\<close> of the client sends one frame, and after
  the server handled it the lists are equal again.\<close>

theorem bc_tags_agree:
  assumes "on_loop E q" and "cc_bev q = Some cn" and "cc_handshakeDone q" and "ts \<noteq> []"
    and "ci_tags (cl_info c) = cc_currentTags q"
    and "wire_ok J (tags_json ''subscribe'' ts)" and "wire_ok J (tags_json ''unsubscribe'' ts)"
  shows "(\<exists>q' c'. Subscribe J E ts q = (True, q') \<and>
      cc_bev q' = Some (cn\<lparr>cn_out := cn_out cn @ bc_frame (jdump J (tags_json ''subscribe'' ts))\<rparr>) \<and>
      handle_client_frame J E' (jdump J (tags_json ''subscribe'' ts)) (c, s) = (c', s) \<and>
      ci_tags (cl_info c') = cc_currentTags q') \<and>
    (\<exists>q' c'. Unsubscribe J E ts q = (True, q') \<and>
      cc_bev q' = Some (cn\<lparr>cn_out := cn_out cn @ bc_frame (jdump J (tags_json ''unsubscribe'' ts))\<rparr>) \<and>
      handle_client_frame J E' (jdump J (tags_json ''unsubscribe'' ts)) (c, s) = (c', s) \<and>
      ci_tags (cl_info c') = cc_currentTags q')"
proof
  let ?qs = "q\<lparr>cc_currentTags := add_tags ts (cc_currentTags q)\<rparr>" and ?qu = "q\<lparr>cc_currentTags := drop_tags ts (cc_currentTags q)\<rparr>"
  have l: "on_loop E ?qs" "on_loop E ?qu" and b: "cc_bev ?qs = Some cn" "cc_bev ?qu = Some cn"
    using assms(1,2) by (simp_all add: on_loop_def)
  from SendJson_on_loop [OF l(1) b(1)] wire_ok_body [OF assms(6)]
  have send: "SendJson E (jdump J (tags_json ''subscribe'' ts)) ?qs
      = ?qs\<lparr>cc_bev := Some (cn\<lparr>cn_out := cn_out cn @ bc_frame (jdump J (tags_json ''subscribe'' ts))\<rparr>)\<rparr>" by blast
  from handle_subscribe [of J "jdump J (tags_json ''subscribe'' ts)" ts E' c s] assms(6)
  obtain c' where "handle_client_frame J E' (jdump J (tags_json ''subscribe'' ts)) (c, s) = (c', s)"
      "ci_tags (cl_info c') = add_tags ts (cc_currentTags q)" using assms(5) by (auto simp: wire_ok_def)
  with send assms(3,4) show "\<exists>q' c'. Subscribe J E ts q = (True, q') \<and>
      cc_bev q' = Some (cn\<lparr>cn_out := cn_out cn @ bc_frame (jdump J (tags_json ''subscribe'' ts))\<rparr>) \<and>
      handle_client_frame J E' (jdump J (tags_json ''subscribe'' ts)) (c, s) = (c', s) \<and>
      ci_tags (cl_info c') = cc_currentTags q'"
    by (simp add: Subscribe_def)
  from SendJson_on_loop [OF l(2) b(2)] wire_ok_body [OF assms(7)]
  have "SendJson E (jdump J (tags_json ''unsubscribe'' ts)) ?qu
      = ?qu\<lparr>cc_bev := Some (cn\<lparr>cn_out := cn_out cn @ bc_frame (jdump J (tags_json ''unsubscribe'' ts))\<rparr>)\<rparr>" by blast
  with assms show "\<exists>q' c'. Unsubscribe J E ts q = (True, q') \<and>
      cc_bev q' = Some (cn\<lparr>cn_out := cn_out cn @ bc_frame (jdump J (tags_json ''unsubscribe'' ts))\<rparr>) \<and>
      handle_client_frame J E' (jdump J (tags_json ''unsubscribe'' ts)) (c, s) = (c', s) \<and>
      ci_tags (cl_info c') = cc_currentTags q'"
    by (simp add: Unsubscribe_def wire_ok_def handle_client_frame_def tags_json_def zm_json_get_str_def msg_tags_def
        set_tags_def drop_unsubscribe_tags)
qed

theorem bc_tags_agree_witness:
  "\<exists>q' c'. Unsubscribe link_api demo_cli_env [''news''] (link_client\<lparr>cc_handshakeDone := True\<rparr>) = (True, q') \<and>
     handle_client_frame link_api demo_env ''U'' (set_tags (\<lambda>_. [''news'']) demo_client, demo_server) = (c', demo_server) \<and>
     ci_tags (cl_info c') = cc_currentTags q'"
proof -
  have u: "jdump link_api (tags_json ''unsubscribe'' [''news'']) = ''U''"
    by (simp add: link_api_def tags_json_def bc_settings_json_def confirm_json_def action_json_def)
  show ?thesis
    using bc_tags_agree [of demo_cli_env "link_client\<lparr>cc_handshakeDone := True\<rparr>" _ "[''news'']"
        "set_tags (\<lambda>_. [''news'']) demo_client" link_api demo_env demo_server]
    by (auto simp: link_api_wire u link_client_def on_loop_def demo_cli_env_def bc_cli_new_def demo_cli_config_def
        set_tags_def)
qed

text \<open>With a duplicate in the configured tags the lists part on the first unsubscribe.\<close>

lemma bc_tags_diverge:
  "add_tags [t, t] [] = [t]" "drop_tags [t] [t, t] = [t]" "drop_tags [t] (add_tags [t, t] []) = []"
  by simp_all

section \<open>Disconnecting\<close>

text \<open>A disconnect on the loop thread does not cancel a connect that is posted to the loop and has
  not run yet: the client is told it is disconnected and its state is STOPPED, but then the posted
  \<open>DoConnect\<close> opens the connection all the same, with no thread pool left for its messages.\<close>

theorem bc_disconnect_ignored:
  assumes "on_loop E q" and "cc_state q = ZM_BC_STATE_IDLE \<or> cc_state q = ZM_BC_STATE_STOPPED" and "cc_posted q = []"
    and "cf_serverIp (cc_config q) \<noteq> []" and "cf_serverPort (cc_config q) \<noteq> 0" and "cf_evbase (cc_config q)"
    and "cv_bev_ok E" and "cv_pton_ok E" and "cv_connect_ok E"
  shows "\<exists>q'. bc_cli_run J [(E, CvConnect), (E, CvDisconnect), (E, CvPosted)] q = q' \<and>
    cc_state q' = ZM_BC_STATE_STOPPED \<and> cc_bev q' \<noteq> None \<and> \<not> cc_threadPool q' \<and>
    cc_log q' = cc_log q @ [OnDisconnected]"
proof -
  let ?q1 = "q\<lparr>cc_threadPool := True, cc_posted := [PostConnect], cc_state := ZM_BC_STATE_STOPPING\<rparr>"
  let ?q2 = "disconnect_finish (DoDisconnect ?q1)"
  have "snd (Connect q) = q\<lparr>cc_state := ZM_BC_STATE_STARTING, cc_threadPool := True, cc_posted := [PostConnect]\<rparr>"
    using assms(2-6) by (auto simp: Connect_def Let_def)
  then have "Disconnect E (snd (Connect q)) = ?q2"
    using assms(1) by (simp add: Disconnect_def on_loop_def)
  then have run: "bc_cli_run J [(E, CvConnect), (E, CvDisconnect), (E, CvPosted)] q = run_posted E ?q2"
    by (simp add: bc_cli_run_def)
  have q2: "cc_posted ?q2 = [PostConnect]" "cc_state ?q2 = ZM_BC_STATE_STOPPED" "\<not> cc_threadPool ?q2"
      "cc_log ?q2 = cc_log q @ [OnDisconnected]" "cc_config ?q2 = cc_config q"
    by (simp_all add: disconnect_finish_def DoDisconnect_def cc_call_def)
  then have "run_posted E ?q2 = DoConnect E (?q2\<lparr>cc_posted := []\<rparr>)" by (simp add: run_posted_def)
  with run q2 assms(6-9) show ?thesis
    by (simp add: DoConnect_ok)
qed

theorem bc_disconnect_ignored_witness:
  "\<exists>q'. bc_cli_run demo_api [(demo_cli_env, CvConnect), (demo_cli_env, CvDisconnect), (demo_cli_env, CvPosted)]
      ((bc_cli_new demo_cli_config)\<lparr>cc_loopThreadId := Some 1\<rparr>) = q' \<and> cc_state q' = ZM_BC_STATE_STOPPED \<and> cc_bev q' \<noteq> None"
  using bc_disconnect_ignored [of demo_cli_env "(bc_cli_new demo_cli_config)\<lparr>cc_loopThreadId := Some 1\<rparr>" demo_api]
  by (simp add: on_loop_def demo_cli_env_def bc_cli_new_def demo_cli_config_def)

text \<open>Without an event base a disconnect after the failed connect leaves STOPPING for good.\<close>

lemma bc_stuck_stopping:
  assumes "\<not> cf_evbase (cc_config q)" and "cc_state q = ZM_BC_STATE_IDLE" and "cc_loopThreadId q = None"
  shows "\<exists>q'. bc_cli_run J [(E, CvConnect), (E, CvDisconnect)] q = q' \<and> cc_state q' = ZM_BC_STATE_STOPPING \<and>
    Connect q' = (False, q') \<and> Disconnect E' q' = q'"
  using assms by (simp add: bc_cli_run_def Connect_def Disconnect_def disconnect_finish_def cc_call_def)

end
