(* ===== verification/Containers.thy ===== *)
theory Containers
  imports ZmPrelude
begin

text \<open>
  \<open>ZmArrayList\<close> and \<open>ZmBinaryTable\<close> of \<open>util/zm_util_container.h\<close>.  The block of an array list is the
  list \<open>al_items\<close> of its \<open>m_capacity + 1\<close> slots; a slot cleared by \<open>memset\<close> holds \<open>0\<close>.  Capacities
  are natural numbers: a block of \<open>2 ^ 64\<close> bytes cannot be allocated.  A pointer into the array is the
  index of its slot.
\<close>

section \<open>Array list\<close>

record 'a array_list =
  al_capacity :: nat
  al_count :: nat
  al_items :: "'a list"

definition al_new :: "nat \<Rightarrow> 'a::zero array_list" where
  "al_new capacity = \<lparr>al_capacity = capacity, al_count = 0, al_items = replicate (capacity + 1) 0\<rparr>"

definition IsFull :: "'a array_list \<Rightarrow> bool" where
  "IsFull a \<longleftrightarrow> al_count a \<ge> al_capacity a"

definition At :: "nat \<Rightarrow> 'a array_list \<Rightarrow> nat option" where
  "At pos a = (if pos < al_count a then Some pos else None)"

definition Last :: "'a array_list \<Rightarrow> nat option" where
  "Last a = (if al_count a > 0 then Some (al_count a - 1) else None)"

definition al_Expand :: "'a::zero array_list \<Rightarrow> 'a array_list" where
  "al_Expand a =
    (let capacityx = max (al_count a) (al_capacity a);
         capacity = capacityx + max 2 (capacityx div 4)
     in a\<lparr>al_capacity := capacity,
          al_items := blit 0 (take (al_count a) (al_items a)) (replicate (capacity + 1) 0)\<rparr>)"

definition store_slot :: "nat \<Rightarrow> 'a \<Rightarrow> 'a array_list \<Rightarrow> mem_error + 'a array_list" where
  "store_slot p x a = (if p < length (al_items a) then Inr (a\<lparr>al_items := (al_items a)[p := x]\<rparr>) else Inl OutOfBounds)"

text \<open>\<open>memmove\<close> of \<open>n\<close> slots from \<open>src\<close> to \<open>dst\<close>.\<close>

definition move_slots :: "nat \<Rightarrow> nat \<Rightarrow> nat \<Rightarrow> 'a array_list \<Rightarrow> mem_error + 'a array_list" where
  "move_slots dst src n a =
    (if src + n \<le> length (al_items a) \<and> dst + n \<le> length (al_items a)
     then Inr (a\<lparr>al_items := blit dst (take n (drop src (al_items a))) (al_items a)\<rparr>) else Inl OutOfBounds)"

definition item_or_zero :: "'a::zero option \<Rightarrow> 'a" where
  "item_or_zero item = (case item of Some x \<Rightarrow> x | None \<Rightarrow> 0)"

definition al_Add :: "'a::zero option \<Rightarrow> 'a array_list \<Rightarrow> mem_error + nat \<times> 'a array_list" where
  "al_Add item a =
    (let a1 = (if IsFull a then al_Expand a else a);
         p = al_count a1
     in case store_slot p (item_or_zero item) a1 of
          Inl e \<Rightarrow> Inl e
        | Inr a2 \<Rightarrow> Inr (p, a2\<lparr>al_count := al_count a2 + 1\<rparr>))"

definition al_Insert :: "nat \<Rightarrow> 'a::zero option \<Rightarrow> 'a array_list \<Rightarrow> mem_error + nat \<times> 'a array_list" where
  "al_Insert pos item a =
    (let a1 = (if IsFull a then al_Expand a else a);
         p = min (al_count a1) (max pos 0)
     in case move_slots (p + 1) p (al_count a1 - p) a1 of
          Inl e \<Rightarrow> Inl e
        | Inr a2 \<Rightarrow>
            (case store_slot p (item_or_zero item) a2 of
               Inl e \<Rightarrow> Inl e
             | Inr a3 \<Rightarrow> Inr (p, a3\<lparr>al_count := al_count a3 + 1\<rparr>)))"

definition al_Remove :: "nat \<Rightarrow> 'a::zero array_list \<Rightarrow> mem_error + 'a array_list" where
  "al_Remove pos a =
    (if pos < al_count a then
       (case move_slots pos (pos + 1) (al_count a - pos - 1) a of
          Inl e \<Rightarrow> Inl e
        | Inr a1 \<Rightarrow>
            (case store_slot (al_count a1 - 1) 0 a1 of
               Inl e \<Rightarrow> Inl e
             | Inr a2 \<Rightarrow> Inr (a2\<lparr>al_count := al_count a2 - 1\<rparr>)))
     else Inr a)"

definition al_Swap :: "nat \<Rightarrow> nat \<Rightarrow> 'a array_list \<Rightarrow> mem_error + 'a array_list" where
  "al_Swap p1 p2 a =
    (if p1 \<noteq> p2 then
       (if p1 < length (al_items a) \<and> p2 < length (al_items a)
        then Inr (a\<lparr>al_items := (al_items a)[p1 := al_items a ! p2, p2 := al_items a ! p1]\<rparr>) else Inl OutOfBounds)
     else Inr a)"

definition al_SetAt :: "nat \<Rightarrow> 'a \<Rightarrow> 'a array_list \<Rightarrow> mem_error + 'a array_list" where
  "al_SetAt pos val a = (if pos < al_count a then store_slot pos val a else Inr a)"

definition al_Clear :: "'a::zero array_list \<Rightarrow> mem_error + 'a array_list" where
  "al_Clear a =
    (if al_capacity a \<le> length (al_items a)
     then Inr (a\<lparr>al_count := 0, al_items := fill 0 (al_capacity a) 0 (al_items a)\<rparr>) else Inl OutOfBounds)"

subsection \<open>Refinement to lists\<close>

definition al_inv :: "'a array_list \<Rightarrow> bool" where
  "al_inv a \<longleftrightarrow> length (al_items a) = al_capacity a + 1 \<and> al_count a \<le> al_capacity a"

definition al_list :: "'a array_list \<Rightarrow> 'a list" where
  "al_list a = take (al_count a) (al_items a)"

lemma length_al_list [simp]: "al_inv a \<Longrightarrow> length (al_list a) = al_count a"
  by (simp add: al_inv_def al_list_def)

lemma al_new_spec: "al_inv (al_new c) \<and> al_list (al_new c) = []"
  by (simp add: al_inv_def al_new_def al_list_def)

lemma al_Expand_spec:
  assumes "al_inv a"
  shows "al_inv (al_Expand a) \<and> al_list (al_Expand a) = al_list a \<and> al_count (al_Expand a) = al_count a \<and>
    al_count a < al_capacity (al_Expand a)"
  using assms by (auto simp: al_inv_def al_list_def al_Expand_def Let_def length_blit) (simp add: blit_def)

lemma make_room:
  assumes "al_inv a"
  shows "\<exists>a1. (if IsFull a then al_Expand a else a) = a1 \<and> al_inv a1 \<and> al_list a1 = al_list a \<and>
    al_count a1 = al_count a \<and> al_count a1 < al_capacity a1"
  using assms al_Expand_spec [OF assms] by (auto simp: IsFull_def)

lemma al_Add_spec:
  assumes "al_inv a"
  shows "\<exists>a'. al_Add item a = Inr (al_count a, a') \<and> al_inv a' \<and> al_list a' = al_list a @ [item_or_zero item]"
proof -
  from make_room [OF assms] obtain a1 where
    a1: "(if IsFull a then al_Expand a else a) = a1" "al_inv a1" "al_list a1 = al_list a"
      "al_count a1 = al_count a" "al_count a1 < al_capacity a1" by blast
  then have "al_count a < length (al_items a1)" by (simp add: al_inv_def)
  with a1 show ?thesis
    by (simp add: al_Add_def Let_def store_slot_def al_inv_def al_list_def take_Suc_conv_app_nth)
qed

lemma al_Insert_spec:
  assumes "al_inv a"
  shows "\<exists>a'. al_Insert pos item a = Inr (min (al_count a) pos, a') \<and> al_inv a' \<and>
    al_list a' = take pos (al_list a) @ item_or_zero item # drop pos (al_list a)"
proof -
  from make_room [OF assms] obtain a1 where
    a1: "(if IsFull a then al_Expand a else a) = a1" "al_inv a1" "al_list a1 = al_list a"
      "al_count a1 = al_count a" "al_count a1 < al_capacity a1" by blast
  let ?p = "min (al_count a) pos" and ?n = "al_count a"
  let ?m = "blit (?p + 1) (take (?n - ?p) (drop ?p (al_items a1))) (al_items a1)"
  have len: "length (al_items a1) = al_capacity a1 + 1" "?n < al_capacity a1" using a1 by (simp_all add: al_inv_def)
  then have run: "al_Insert pos item a = Inr (?p, a1\<lparr>al_items := ?m[?p := item_or_zero item], al_count := ?n + 1\<rparr>)"
    using a1(1,4) by (simp add: al_Insert_def Let_def move_slots_def store_slot_def length_blit)
  have "?m[?p := item_or_zero item] = take ?p (al_items a1) @ item_or_zero item # take (?n - ?p) (drop ?p (al_items a1)) @ drop (?n + 1) (al_items a1)"
    using len by (intro nth_equalityI) (auto simp: nth_blit length_blit nth_list_update nth_append nth_Cons' min_def)
  then have "take (?n + 1) (?m[?p := item_or_zero item]) = take ?p (al_items a1) @ item_or_zero item # take (?n - ?p) (drop ?p (al_items a1))"
    using len by (simp add: Suc_diff_le)
  also have "\<dots> = take pos (al_list a) @ item_or_zero item # drop pos (al_list a)"
    unfolding a1(3) [symmetric] using a1(4) by (auto simp: al_list_def drop_take min_def)
  finally have tk: "take (?n + 1) (?m[?p := item_or_zero item]) = \<dots>" .
  let ?a' = "a1\<lparr>al_items := ?m[?p := item_or_zero item], al_count := ?n + 1\<rparr>"
  have "al_list ?a' = take pos (al_list a) @ item_or_zero item # drop pos (al_list a)"
    by (simp only: tk [symmetric]) (simp add: al_list_def)
  moreover have "al_inv ?a'" using len by (simp add: al_inv_def length_blit)
  ultimately show ?thesis using run by blast
qed

lemma al_Remove_spec:
  assumes "al_inv a"
  shows "\<exists>a'. al_Remove pos a = Inr a' \<and> al_inv a' \<and> al_list a' = take pos (al_list a) @ drop (Suc pos) (al_list a)"
proof (cases "pos < al_count a")
  case False
  with assms show ?thesis by (simp add: al_Remove_def)
next
  case True
  let ?n = "al_count a"
  let ?m = "blit pos (take (?n - pos - 1) (drop (pos + 1) (al_items a))) (al_items a)"
  have len: "length (al_items a) = al_capacity a + 1" "?n \<le> al_capacity a" using assms by (simp_all add: al_inv_def)
  have run: "al_Remove pos a = Inr (a\<lparr>al_items := ?m[?n - 1 := 0], al_count := ?n - 1\<rparr>)"
    using True len by (simp add: al_Remove_def move_slots_def store_slot_def length_blit)
  have "take (?n - 1) (?m[?n - 1 := 0]) = take (?n - 1) ?m" by simp
  also have "\<dots> = take pos (al_items a) @ take (?n - pos - 1) (drop (pos + 1) (al_items a))"
    using True len by (simp add: blit_def)
  also have "\<dots> = take pos (al_list a) @ drop (Suc pos) (al_list a)"
    using True by (simp add: al_list_def drop_take)
  finally show ?thesis using run len True by (simp add: al_inv_def al_list_def length_blit)
qed

lemma al_Swap_spec:
  assumes "al_inv a" and "p1 < al_count a" and "p2 < al_count a"
  shows "\<exists>a'. al_Swap p1 p2 a = Inr a' \<and> al_inv a' \<and>
    al_list a' = (al_list a)[p1 := al_list a ! p2, p2 := al_list a ! p1]"
proof (cases "p1 = p2")
  case True
  with assms show ?thesis by (simp add: al_Swap_def)
next
  case False
  with assms show ?thesis by (auto simp: al_Swap_def al_inv_def al_list_def take_update_swap)
qed

lemma al_SetAt_spec:
  assumes "al_inv a"
  shows "\<exists>a'. al_SetAt pos v a = Inr a' \<and> al_inv a' \<and> al_list a' = (al_list a)[pos := v]"
  using assms by (auto simp: al_SetAt_def store_slot_def al_inv_def al_list_def take_update_swap not_less list_update_beyond)

lemma al_Clear_spec:
  assumes "al_inv a"
  shows "\<exists>a'. al_Clear a = Inr a' \<and> al_inv a' \<and> al_list a' = []"
  using assms by (auto simp: al_Clear_def al_inv_def al_list_def length_fill)

section \<open>Binary table\<close>

text \<open>
  An item is the pair of its key and its value pointer (\<open>None\<close> is \<open>NULL\<close>).  The pointers \<open>l\<close> and
  \<open>r\<close> of the search are integers, because \<open>r\<close> moves to one slot before the first.
\<close>

datatype 'v bt_ptr = NullPtr | ValPtr 'v

instantiation bt_ptr :: (type) zero
begin

definition zero_bt_ptr :: "'a bt_ptr" where
  "zero_bt_ptr = NullPtr"

instance ..

end

instantiation prod :: (zero, zero) zero
begin

definition zero_prod :: "'a \<times> 'b" where
  "zero_prod = (0, 0)"

instance ..

end

type_synonym ('k, 'v) bt_item = "'k \<times> 'v bt_ptr"

record ('k, 'v) binary_table =
  bt_items :: "('k, 'v) bt_item array_list"
  bt_temp :: "('k, 'v) bt_item"

definition bt_new :: "('k::zero, 'v) binary_table" where
  "bt_new = \<lparr>bt_items = al_new 32, bt_temp = 0\<rparr>"

datatype bt_act = ACT_GET | ACT_ADD | ACT_DEL

text \<open>The loop: the slot of the key, or the final \<open>l\<close>.\<close>

function bt_search :: "('k::linorder \<times> 'v) list \<Rightarrow> 'k \<Rightarrow> int \<Rightarrow> int \<Rightarrow> nat + int" where
  "bt_search xs key l r =
    (if l \<le> r then
       let m = l + (r - l) div 2;
           k = fst (xs ! nat m)
       in if k = key then Inl (nat m)
          else if k < key then bt_search xs key (m + 1) r
          else bt_search xs key l (m - 1)
     else Inr l)"
  by pat_completeness auto
termination by (relation "measure (\<lambda>(xs, key, l, r). nat (r - l + 1))") auto

declare bt_search.simps [simp del]

text \<open>The result of \<open>Query\<close>: \<open>NULL\<close>, a slot of the array, or the temporary copy.\<close>

datatype bt_result = QNull | QSlot nat | QTemp

definition bt_Query ::
  "'k::{linorder, zero} \<Rightarrow> bt_act \<Rightarrow> ('k, 'v) binary_table \<Rightarrow> mem_error + bt_result \<times> ('k, 'v) binary_table" where
  "bt_Query key act t =
    (let a = bt_items t;
         append = (if act = ACT_ADD
                   then (case al_Add None a of
                           Inl e \<Rightarrow> Inl e
                         | Inr (p, a') \<Rightarrow> Inr (QSlot p, t\<lparr>bt_items := a'\<rparr>))
                   else Inr (QNull, t))
     in if al_count a = 0 then append
        else
          (case bt_search (al_items a) key 0 (int (al_count a) - 1) of
             Inl m \<Rightarrow>
               if act = ACT_DEL
               then (case al_Remove m a of
                       Inl e \<Rightarrow> Inl e
                     | Inr a' \<Rightarrow> Inr (QTemp, t\<lparr>bt_temp := al_items a ! m, bt_items := a'\<rparr>))
               else Inr (QSlot m, t)
           | Inr l \<Rightarrow>
               if act = ACT_ADD
               then (case al_Insert (nat l) None a of
                       Inl e \<Rightarrow> Inl e
                     | Inr (p, a') \<Rightarrow> Inr (QSlot p, t\<lparr>bt_items := a'\<rparr>))
               else Inr (QNull, t)))"

definition bt_Get :: "'k::{linorder, zero} \<Rightarrow> ('k, 'v) binary_table \<Rightarrow> mem_error + 'v bt_ptr" where
  "bt_Get key t =
    (case bt_Query key ACT_GET t of
       Inl e \<Rightarrow> Inl e
     | Inr (QSlot p, t') \<Rightarrow> Inr (snd (al_items (bt_items t') ! p))
     | Inr (_, t') \<Rightarrow> Inr NullPtr)"

definition bt_Put :: "'k::{linorder, zero} \<Rightarrow> 'v bt_ptr \<Rightarrow> ('k, 'v) binary_table \<Rightarrow> mem_error + ('k, 'v) binary_table" where
  "bt_Put key val t =
    (case bt_Query key ACT_ADD t of
       Inl e \<Rightarrow> Inl e
     | Inr (QSlot p, t') \<Rightarrow>
         let old = snd (al_items (bt_items t') ! p)
         in (case store_slot p (key, if val \<noteq> NullPtr then val else old) (bt_items t') of
               Inl e \<Rightarrow> Inl e
             | Inr a \<Rightarrow> Inr (t'\<lparr>bt_items := a\<rparr>))
     | Inr (_, t') \<Rightarrow> Inl NullPointer)"

definition bt_Remove ::
  "'k::{linorder, zero} \<Rightarrow> ('k, 'v) binary_table \<Rightarrow> mem_error + ('k, 'v) bt_item option \<times> ('k, 'v) binary_table" where
  "bt_Remove key t =
    (case bt_Query key ACT_DEL t of
       Inl e \<Rightarrow> Inl e
     | Inr (QTemp, t') \<Rightarrow> Inr (Some (bt_temp t'), t')
     | Inr (_, t') \<Rightarrow> Inr (None, t'))"

definition bt_RemoveAll :: "('k::zero, 'v) binary_table \<Rightarrow> mem_error + ('k, 'v) binary_table" where
  "bt_RemoveAll t = (case al_Clear (bt_items t) of Inl e \<Rightarrow> Inl e | Inr a \<Rightarrow> Inr (t\<lparr>bt_items := a\<rparr>))"

text \<open>
  \<open>ForEach\<close>: \<open>it\<close> stays where it is after a removal.  The two callbacks are pure functions here;
  the result also lists the values that the action was called on, in order.  \<open>RemoveEx\<close> is the case of
  an action that always asks for the removal.  (The test of the count after \<open>al_Remove\<close> always
  succeeds, by \<open>al_Remove_spec\<close>; it is there for the termination proof.)
\<close>

function bt_foreach_from ::
  "('v bt_ptr \<Rightarrow> bool) \<Rightarrow> ('v bt_ptr \<Rightarrow> bool) \<Rightarrow> nat \<Rightarrow> 'v bt_ptr list \<Rightarrow> ('k::zero, 'v) bt_item array_list \<Rightarrow>
   mem_error + 'v bt_ptr list \<times> ('k, 'v) bt_item array_list" where
  "bt_foreach_from fnaction fnmatches it called a =
    (if it < al_count a then
       let v = snd (al_items a ! it);
           hit = fnmatches v
       in if hit \<and> fnaction v then
            (case al_Remove it a of
               Inl e \<Rightarrow> Inl e
             | Inr a' \<Rightarrow> if al_count a' < al_count a
                 then bt_foreach_from fnaction fnmatches it (called @ [v]) a' else Inl OutOfBounds)
          else bt_foreach_from fnaction fnmatches (it + 1) (if hit then called @ [v] else called) a
     else Inr (called, a))"
  by pat_completeness auto
termination by (relation "measure (\<lambda>(fa, fm, it, c, a). al_count a - it)") auto

declare bt_foreach_from.simps [simp del]

definition bt_ForEach ::
  "('v bt_ptr \<Rightarrow> bool) \<Rightarrow> ('v bt_ptr \<Rightarrow> bool) \<Rightarrow> ('k::zero, 'v) binary_table \<Rightarrow>
   mem_error + 'v bt_ptr list \<times> ('k, 'v) binary_table" where
  "bt_ForEach fnaction fnmatches t =
    (case bt_foreach_from fnaction fnmatches 0 [] (bt_items t) of
       Inl e \<Rightarrow> Inl e | Inr (c, a) \<Rightarrow> Inr (c, t\<lparr>bt_items := a\<rparr>))"

definition bt_RemoveEx ::
  "('v bt_ptr \<Rightarrow> bool) \<Rightarrow> 'v bt_ptr list \<Rightarrow> ('k::zero, 'v) binary_table \<Rightarrow>
   mem_error + 'v bt_ptr list \<times> ('k, 'v) binary_table" where
  "bt_RemoveEx fnmatches vals t =
    (case bt_foreach_from (\<lambda>_. True) fnmatches 0 vals (bt_items t) of
       Inl e \<Rightarrow> Inl e | Inr (c, a) \<Rightarrow> Inr (c, t\<lparr>bt_items := a\<rparr>))"

definition bt_ValuesEx :: "('v bt_ptr \<Rightarrow> bool) \<Rightarrow> 'v bt_ptr list \<Rightarrow> ('k, 'v) binary_table \<Rightarrow> 'v bt_ptr list" where
  "bt_ValuesEx fnmatches vals t = vals @ filter fnmatches (map snd (al_list (bt_items t)))"

definition bt_GetEx :: "('v bt_ptr \<Rightarrow> bool) \<Rightarrow> ('k, 'v) binary_table \<Rightarrow> 'v bt_ptr" where
  "bt_GetEx fnmatches t =
    (case filter fnmatches (map snd (al_list (bt_items t))) of [] \<Rightarrow> NullPtr | v # _ \<Rightarrow> v)"

subsection \<open>The search\<close>

definition keys_below :: "('k::linorder \<times> 'v) list \<Rightarrow> 'k \<Rightarrow> int \<Rightarrow> bool" where
  "keys_below xs key l \<longleftrightarrow> (\<forall>i. int i < l \<longrightarrow> fst (xs ! i) < key)"

definition keys_above :: "('k::linorder \<times> 'v) list \<Rightarrow> 'k \<Rightarrow> int \<Rightarrow> int \<Rightarrow> bool" where
  "keys_above xs key r n \<longleftrightarrow> (\<forall>i. r < int i \<and> int i < n \<longrightarrow> key < fst (xs ! i))"

lemma bt_search_correct:
  assumes "\<forall>i j. i < j \<and> int j < n \<longrightarrow> fst (xs ! i) < fst (xs ! j)" and "0 \<le> l" and "r < n" and "l \<le> r + 1"
    and "keys_below xs key l" and "keys_above xs key r n"
  shows "case bt_search xs key l r of
     Inl m \<Rightarrow> int m < n \<and> fst (xs ! m) = key
   | Inr l' \<Rightarrow> 0 \<le> l' \<and> l' \<le> n \<and> keys_below xs key l' \<and> keys_above xs key (l' - 1) n"
  using assms
proof (induction xs key l r rule: bt_search.induct)
  case (1 xs key l r)
  show ?case
  proof (cases "l \<le> r")
    case False
    with "1.prems" have "l = r + 1" by simp
    with "1.prems" show ?thesis by (subst bt_search.simps) simp
  next
    case True
    let ?m = "l + (r - l) div 2"
    from True have m: "l \<le> ?m" "?m \<le> r" by auto
    with "1.prems" have mn: "int (nat ?m) = ?m" "?m < n" by auto
    consider (eq) "fst (xs ! nat ?m) = key" | (lt) "fst (xs ! nat ?m) < key" | (gt) "key < fst (xs ! nat ?m)"
      by (meson linorder_less_linear)
    then show ?thesis
    proof cases
      case eq
      with True mn show ?thesis by (subst bt_search.simps) (simp add: Let_def)
    next
      case lt
      have "keys_below xs key (?m + 1)"
        unfolding keys_below_def
      proof (intro allI impI)
        fix i assume "int i < ?m + 1"
        then have "i < nat ?m \<or> i = nat ?m" by linarith
        with lt "1.prems"(1) mn show "fst (xs ! i) < key" by (metis less_trans)
      qed
      moreover have "bt_search xs key l r = bt_search xs key (?m + 1) r"
        using lt True by (subst bt_search.simps) (auto simp: Let_def)
      ultimately show ?thesis using "1.IH"(1) [OF True refl refl] "1.prems" lt less_imp_neq [OF lt] m by simp
    next
      case gt
      have "keys_above xs key (?m - 1) n"
        unfolding keys_above_def
      proof (intro allI impI)
        fix i assume i: "?m - 1 < int i \<and> int i < n"
        then have "nat ?m < i \<or> i = nat ?m" by linarith
        with gt "1.prems"(1) i show "key < fst (xs ! i)" by (metis less_trans)
      qed
      moreover have "bt_search xs key l r = bt_search xs key l (?m - 1)"
        using gt True by (subst bt_search.simps) (auto simp: Let_def)
      ultimately show ?thesis using "1.IH"(2) [OF True refl refl] "1.prems" gt less_imp_neq [OF gt] less_not_sym [OF gt] m by simp
    qed
  qed
qed

definition bt_inv :: "('k::linorder, 'v) binary_table \<Rightarrow> bool" where
  "bt_inv t \<longleftrightarrow> al_inv (bt_items t) \<and> sorted_wrt (<) (map fst (al_list (bt_items t)))"

text \<open>The table as a list of items, and as a map.\<close>

definition bt_list :: "('k, 'v) binary_table \<Rightarrow> ('k \<times> 'v bt_ptr) list" where
  "bt_list t = al_list (bt_items t)"

definition bt_map :: "('k, 'v) binary_table \<Rightarrow> 'k \<Rightarrow> 'v bt_ptr option" where
  "bt_map t = map_of (bt_list t)"

lemma nth_bt_list: "i < al_count (bt_items t) \<Longrightarrow> bt_list t ! i = al_items (bt_items t) ! i"
  by (simp add: bt_list_def al_list_def)

lemma bt_sorted_nth:
  assumes "bt_inv t" and "i < j" and "j < al_count (bt_items t)"
  shows "fst (al_items (bt_items t) ! i) < fst (al_items (bt_items t) ! j)"
proof -
  from assms have len: "length (bt_list t) = al_count (bt_items t)" by (simp add: bt_inv_def bt_list_def)
  have "sorted_wrt (<) (map fst (bt_list t))" using assms(1) by (simp add: bt_inv_def bt_list_def)
  then have "map fst (bt_list t) ! i < map fst (bt_list t) ! j"
    by (rule sorted_wrt_nth_less) (use assms len in simp_all)
  then show ?thesis using assms len by (simp add: nth_bt_list)
qed

lemma bt_search_table:
  assumes "bt_inv t"
  shows "case bt_search (al_items (bt_items t)) key 0 (int (al_count (bt_items t)) - 1) of
     Inl m \<Rightarrow> m < al_count (bt_items t) \<and> fst (al_items (bt_items t) ! m) = key
   | Inr l \<Rightarrow> nat l \<le> al_count (bt_items t) \<and> (\<forall>i < nat l. fst (al_items (bt_items t) ! i) < key) \<and>
       (\<forall>i. nat l \<le> i \<and> i < al_count (bt_items t) \<longrightarrow> key < fst (al_items (bt_items t) ! i))"
proof -
  let ?xs = "al_items (bt_items t)" and ?n = "int (al_count (bt_items t))"
  have "case bt_search ?xs key 0 (?n - 1) of
     Inl m \<Rightarrow> int m < ?n \<and> fst (?xs ! m) = key
   | Inr l' \<Rightarrow> 0 \<le> l' \<and> l' \<le> ?n \<and> keys_below ?xs key l' \<and> keys_above ?xs key (l' - 1) ?n"
    by (rule bt_search_correct) (use bt_sorted_nth [OF assms] in \<open>auto simp: keys_below_def keys_above_def\<close>)
  then show ?thesis
    by (auto simp: keys_below_def keys_above_def split: sum.splits)
qed

subsection \<open>The table is a map\<close>

lemma bt_distinct: "bt_inv t \<Longrightarrow> distinct (map fst (bt_list t))"
  unfolding bt_inv_def bt_list_def by (simp add: strict_sorted_iff)

lemma length_bt_list: "bt_inv t \<Longrightarrow> length (bt_list t) = al_count (bt_items t)"
  by (simp add: bt_inv_def bt_list_def)

lemma bt_found:
  assumes "bt_inv t" and "m < al_count (bt_items t)" and "fst (al_items (bt_items t) ! m) = key"
  shows "bt_map t key = Some (snd (al_items (bt_items t) ! m))" and "bt_list t ! m = (key, snd (al_items (bt_items t) ! m))"
proof -
  show n: "bt_list t ! m = (key, snd (al_items (bt_items t) ! m))"
    using assms(2,3) by (simp add: nth_bt_list prod_eq_iff)
  have "m < length (bt_list t)" using assms(1,2) by (simp add: length_bt_list)
  then have "(key, snd (al_items (bt_items t) ! m)) \<in> set (bt_list t)" using n by (metis nth_mem)
  with bt_distinct [OF assms(1)] show "bt_map t key = Some (snd (al_items (bt_items t) ! m))"
    by (simp add: bt_map_def)
qed

text \<open>Where a missing key belongs.\<close>

definition gap_at :: "'k::linorder \<Rightarrow> nat \<Rightarrow> ('k \<times> 'v) list \<Rightarrow> bool" where
  "gap_at key p xs \<longleftrightarrow> p \<le> length xs \<and> (\<forall>x \<in> set (take p xs). fst x < key) \<and> (\<forall>x \<in> set (drop p xs). key < fst x)"

lemma gap_atI:
  assumes "p \<le> length xs" and "\<forall>i < p. fst (xs ! i) < key" and "\<forall>i. p \<le> i \<and> i < length xs \<longrightarrow> key < fst (xs ! i)"
  shows "gap_at key p xs"
  unfolding gap_at_def
proof (intro conjI ballI)
  show "p \<le> length xs" by (rule assms(1))
next
  fix x assume "x \<in> set (take p xs)"
  then obtain i where "i < p" "x = xs ! i" by (auto simp: in_set_conv_nth)
  with assms(2) show "fst x < key" by simp
next
  fix x assume "x \<in> set (drop p xs)"
  then obtain i where "i < length xs - p" "x = xs ! (p + i)" by (auto simp: in_set_conv_nth)
  with assms(3) show "key < fst x" by simp
qed

lemma gap_map_of_None: "gap_at key p xs \<Longrightarrow> map_of xs key = None"
proof -
  assume g: "gap_at key p xs"
  have "key \<notin> fst ` set (take p xs @ drop p xs)" using g by (force simp: gap_at_def simp del: append_take_drop_id)
  then show ?thesis by (simp add: map_of_eq_None_iff)
qed

lemma gap_insert:
  assumes "gap_at key p xs" and "sorted_wrt (<) (map fst xs)"
  shows "sorted_wrt (<) (map fst (take p xs @ (key, v) # drop p xs))"
    and "map_of (take p xs @ (key, v) # drop p xs) = (map_of xs)(key \<mapsto> v)"
proof -
  from assms(2) have "sorted_wrt (<) (map fst (take p xs @ drop p xs))" by simp
  then show s: "sorted_wrt (<) (map fst (take p xs @ (key, v) # drop p xs))"
    using assms(1) by (auto simp: sorted_wrt_append gap_at_def simp del: append_take_drop_id)
  have "map_of (take p xs) key = None"
    using assms(1) by (auto simp: gap_at_def map_of_eq_None_iff)
  then have "map_of (take p xs @ (key, v) # drop p xs) = (map_of (take p xs @ drop p xs))(key \<mapsto> v)"
    by (auto simp: fun_eq_iff map_add_def split: option.splits simp del: append_take_drop_id)
  then show "map_of (take p xs @ (key, v) # drop p xs) = (map_of xs)(key \<mapsto> v)" by simp
qed

lemma bt_search_cases:
  assumes "bt_inv t"
  obtains (found) m where "bt_search (al_items (bt_items t)) key 0 (int (al_count (bt_items t)) - 1) = Inl m"
      "m < al_count (bt_items t)" "fst (al_items (bt_items t) ! m) = key"
  | (missing) l where "bt_search (al_items (bt_items t)) key 0 (int (al_count (bt_items t)) - 1) = Inr l"
      "gap_at key (nat l) (bt_list t)"
proof (cases "bt_search (al_items (bt_items t)) key 0 (int (al_count (bt_items t)) - 1)")
  case (Inl m)
  with bt_search_table [OF assms, of key] found show ?thesis by auto
next
  case (Inr l)
  with bt_search_table [OF assms, of key] have
    "nat l \<le> al_count (bt_items t)" "\<forall>i < nat l. fst (al_items (bt_items t) ! i) < key"
    "\<forall>i. nat l \<le> i \<and> i < al_count (bt_items t) \<longrightarrow> key < fst (al_items (bt_items t) ! i)" by auto
  then have "gap_at key (nat l) (bt_list t)"
    by (intro gap_atI) (simp_all add: length_bt_list [OF assms] nth_bt_list)
  with Inr missing show ?thesis by blast
qed

lemma bt_Get_spec:
  assumes "bt_inv t"
  shows "bt_Get key t = Inr (case bt_map t key of Some v \<Rightarrow> v | None \<Rightarrow> NullPtr)"
proof (cases "al_count (bt_items t) = 0")
  case True
  then have "bt_list t = []" using length_bt_list [OF assms] by simp
  with True show ?thesis by (simp add: bt_Get_def bt_Query_def bt_map_def)
next
  case False
  show ?thesis
  proof (rule bt_search_cases [OF assms, of key])
    fix m assume m: "bt_search (al_items (bt_items t)) key 0 (int (al_count (bt_items t)) - 1) = Inl m"
      "m < al_count (bt_items t)" "fst (al_items (bt_items t) ! m) = key"
    from bt_found [OF assms m(2,3)] False m(1) show ?thesis by (simp add: bt_Get_def bt_Query_def)
  next
    fix l assume "bt_search (al_items (bt_items t)) key 0 (int (al_count (bt_items t)) - 1) = Inr l"
      "gap_at key (nat l) (bt_list t)"
    with gap_map_of_None False show ?thesis by (fastforce simp: bt_Get_def bt_Query_def bt_map_def)
  qed
qed

lemma bt_Query_ADD:
  assumes "bt_inv t"
  shows "(\<exists>p. bt_Query key ACT_ADD t = Inr (QSlot p, t) \<and> p < al_count (bt_items t) \<and> fst (al_items (bt_items t) ! p) = key) \<or>
    (\<exists>p t'. bt_Query key ACT_ADD t = Inr (QSlot p, t') \<and> gap_at key p (bt_list t) \<and> al_inv (bt_items t') \<and>
       bt_list t' = take p (bt_list t) @ 0 # drop p (bt_list t))"
proof (cases "al_count (bt_items t) = 0")
  case True
  then have nil: "bt_list t = []" using length_bt_list [OF assms] by simp
  have inv: "al_inv (bt_items t)" using assms by (simp add: bt_inv_def)
  from al_Add_spec [OF inv, of None] True nil show ?thesis
    by (auto simp: bt_Query_def item_or_zero_def bt_list_def gap_at_def)
next
  case False
  have inv: "al_inv (bt_items t)" using assms by (simp add: bt_inv_def)
  show ?thesis
  proof (rule bt_search_cases [OF assms, of key])
    fix m assume "bt_search (al_items (bt_items t)) key 0 (int (al_count (bt_items t)) - 1) = Inl m"
      "m < al_count (bt_items t)" "fst (al_items (bt_items t) ! m) = key"
    with False show ?thesis by (auto simp: bt_Query_def)
  next
    fix l assume l: "bt_search (al_items (bt_items t)) key 0 (int (al_count (bt_items t)) - 1) = Inr l"
      "gap_at key (nat l) (bt_list t)"
    then have "min (al_count (bt_items t)) (nat l) = nat l"
      using length_bt_list [OF assms] by (simp add: gap_at_def)
    with al_Insert_spec [OF inv, of "nat l" None] l False show ?thesis
      by (auto simp: bt_Query_def item_or_zero_def bt_list_def)
  qed
qed

lemma al_list_store: "al_inv a \<Longrightarrow> p < al_count a \<Longrightarrow>
  \<exists>a'. store_slot p x a = Inr a' \<and> al_inv a' \<and> al_list a' = (al_list a)[p := x]"
  by (auto simp: store_slot_def al_inv_def al_list_def take_update_swap)

lemma map_of_update_slot:
  "distinct (map fst xs) \<Longrightarrow> p < length xs \<Longrightarrow> fst (xs ! p) = key \<Longrightarrow> map_of (xs[p := (key, v)]) = (map_of xs)(key \<mapsto> v)"
proof (induction xs arbitrary: p)
  case Nil
  then show ?case by simp
next
  case (Cons x xs)
  show ?case
  proof (cases p)
    case 0
    with Cons.prems show ?thesis by (auto simp: fun_eq_iff)
  next
    case (Suc q)
    with Cons.prems have "fst x \<noteq> key" by (metis distinct.simps(2) length_map list.simps(9) nth_Cons_Suc nth_map nth_mem Suc_less_eq length_Cons)
    with Cons Suc show ?thesis by (auto simp: fun_eq_iff)
  qed
qed

lemma bt_Put_spec:
  assumes "bt_inv t"
  shows "\<exists>t'. bt_Put key val t = Inr t' \<and> bt_inv t' \<and> bt_map t' =
    (bt_map t)(key \<mapsto> (if val \<noteq> NullPtr then val else case bt_map t key of Some v \<Rightarrow> v | None \<Rightarrow> NullPtr))"
  using bt_Query_ADD [OF assms, of key]
proof (elim disjE exE conjE)
  fix p assume q: "bt_Query key ACT_ADD t = Inr (QSlot p, t)" and p: "p < al_count (bt_items t)"
    and k: "fst (al_items (bt_items t) ! p) = key"
  let ?old = "snd (al_items (bt_items t) ! p)"
  let ?v = "if val \<noteq> NullPtr then val else ?old"
  have inv: "al_inv (bt_items t)" using assms by (simp add: bt_inv_def)
  obtain a where a: "store_slot p (key, ?v) (bt_items t) = Inr a" "al_inv a" "al_list a = (bt_list t)[p := (key, ?v)]"
    using al_list_store [OF inv p, of "(key, ?v)"] by (auto simp: bt_list_def)
  have pl: "p < length (bt_list t)" using p length_bt_list [OF assms] by simp
  have kp: "fst (bt_list t ! p) = key" using bt_found(2) [OF assms p k] by simp
  have "map_of (al_list a) = (map_of (bt_list t))(key \<mapsto> ?v)"
    unfolding a(3) by (rule map_of_update_slot [OF bt_distinct [OF assms] pl kp])
  moreover have "map fst (al_list a) = map fst (bt_list t)"
    unfolding a(3) map_update using pl kp by (metis fst_conv length_map list_update_id nth_map)
  moreover have "bt_Put key val t = Inr (t\<lparr>bt_items := a\<rparr>)" using q a(1) by (simp add: bt_Put_def Let_def)
  ultimately show ?thesis
    using a(2) assms bt_found(1) [OF assms p k] by (simp add: bt_inv_def bt_map_def bt_list_def)
next
  fix p t' assume q: "bt_Query key ACT_ADD t = Inr (QSlot p, t')" and g: "gap_at key p (bt_list t)"
    and inv: "al_inv (bt_items t')" and l: "bt_list t' = take p (bt_list t) @ 0 # drop p (bt_list t)"
  have p: "p < al_count (bt_items t')"
    using g l length_al_list [OF inv] by (simp add: bt_list_def gap_at_def)
  have "al_items (bt_items t') ! p = bt_list t' ! p" using nth_bt_list [OF p] by simp
  also have "\<dots> = 0" using g unfolding l by (simp add: nth_append gap_at_def)
  finally have old: "snd (al_items (bt_items t') ! p) = NullPtr" by (simp add: zero_prod_def zero_bt_ptr_def)
  let ?v = "if val \<noteq> NullPtr then val else NullPtr"
  obtain a where a: "store_slot p (key, ?v) (bt_items t') = Inr a" "al_inv a" "al_list a = (bt_list t')[p := (key, ?v)]"
    using al_list_store [OF inv p, of "(key, ?v)"] by (auto simp: bt_list_def)
  have al: "al_list a = take p (bt_list t) @ (key, ?v) # drop p (bt_list t)"
    using g unfolding a(3) l by (simp add: list_update_append gap_at_def)
  have "sorted_wrt (<) (map fst (bt_list t))" using assms by (simp add: bt_inv_def bt_list_def)
  from gap_insert [OF g this, of ?v] have
    "sorted_wrt (<) (map fst (al_list a))" "map_of (al_list a) = (map_of (bt_list t))(key \<mapsto> ?v)"
    unfolding al by simp_all
  moreover have "bt_Put key val t = Inr (t'\<lparr>bt_items := a\<rparr>)" using q a(1) old by (cases "val = NullPtr") (simp_all add: bt_Put_def Let_def)
  ultimately show ?thesis
    using a(2) gap_map_of_None [OF g] by (simp add: bt_inv_def bt_map_def bt_list_def)
qed

lemma remove_slot:
  assumes "sorted_wrt (<) (map fst xs)" and "m < length xs" and "fst (xs ! m) = (key :: 'k::linorder)"
  shows "sorted_wrt (<) (map fst (take m xs @ drop (Suc m) xs))"
    and "map_of (take m xs @ drop (Suc m) xs) = (map_of xs)(key := None)"
proof -
  have xs: "xs = take m xs @ xs ! m # drop (Suc m) xs" using assms(2) by (simp add: id_take_nth_drop [symmetric])
  have s: "sorted_wrt (<) (map fst (take m xs @ xs ! m # drop (Suc m) xs))" using assms(1) xs by simp
  then show "sorted_wrt (<) (map fst (take m xs @ drop (Suc m) xs))" by (auto simp: sorted_wrt_append)
  from s assms(3) have "\<forall>x \<in> set (take m xs). fst x < key" "\<forall>x \<in> set (drop (Suc m) xs). key < fst x"
    by (auto simp: sorted_wrt_append)
  then have n: "map_of (take m xs) key = None" "map_of (drop (Suc m) xs) key = None"
    by (auto simp: map_of_eq_None_iff)
  have "(map_of xs)(key := None) = (map_of (take m xs @ xs ! m # drop (Suc m) xs))(key := None)"
    using xs by simp
  also have "\<dots> = map_of (take m xs @ drop (Suc m) xs)"
    using n assms(3) by (auto simp: fun_eq_iff map_add_def split: option.splits prod.splits)
  finally show "map_of (take m xs @ drop (Suc m) xs) = (map_of xs)(key := None)" by simp
qed

lemma bt_Remove_spec:
  assumes "bt_inv t"
  shows "\<exists>t'. bt_Remove key t = Inr (map_option (Pair key) (bt_map t key), t') \<and> bt_inv t' \<and>
    bt_map t' = (bt_map t)(key := None)"
proof (cases "al_count (bt_items t) = 0")
  case True
  then have "bt_list t = []" using length_bt_list [OF assms] by simp
  with True assms show ?thesis by (auto simp: bt_Remove_def bt_Query_def bt_map_def fun_eq_iff)
next
  case False
  have inv: "al_inv (bt_items t)" using assms by (simp add: bt_inv_def)
  show ?thesis
  proof (rule bt_search_cases [OF assms, of key])
    fix m assume m: "bt_search (al_items (bt_items t)) key 0 (int (al_count (bt_items t)) - 1) = Inl m"
      "m < al_count (bt_items t)" "fst (al_items (bt_items t) ! m) = key"
    obtain a where a: "al_Remove m (bt_items t) = Inr a" "al_inv a"
        "al_list a = take m (bt_list t) @ drop (Suc m) (bt_list t)"
      using al_Remove_spec [OF inv, of m] by (auto simp: bt_list_def)
    let ?t' = "t\<lparr>bt_temp := al_items (bt_items t) ! m, bt_items := a\<rparr>"
    have s: "sorted_wrt (<) (map fst (bt_list t))" using assms by (simp add: bt_inv_def bt_list_def)
    have "bt_inv ?t' \<and> bt_map ?t' = (bt_map t)(key := None)"
      using remove_slot [OF s _ , of m key] m(2) a(2,3) length_bt_list [OF assms] bt_found(2) [OF assms m(2,3)]
      by (simp add: bt_inv_def bt_map_def) (simp add: bt_list_def)
    moreover have "bt_Remove key t = Inr (Some (key, snd (al_items (bt_items t) ! m)), ?t')"
      using False m a(1) by (simp add: bt_Remove_def bt_Query_def prod_eq_iff)
    ultimately show ?thesis using bt_found(1) [OF assms m(2,3)] by simp
  next
    fix l assume l: "bt_search (al_items (bt_items t)) key 0 (int (al_count (bt_items t)) - 1) = Inr l"
      "gap_at key (nat l) (bt_list t)"
    from gap_map_of_None [OF l(2)] have n: "bt_map t key = None" by (simp add: bt_map_def)
    then have "bt_map t = (bt_map t)(key := None)" by auto
    with n l False assms show ?thesis by (simp add: bt_Remove_def bt_Query_def)
  qed
qed

definition kept :: "('v bt_ptr \<Rightarrow> bool) \<Rightarrow> ('v bt_ptr \<Rightarrow> bool) \<Rightarrow> 'k \<times> 'v bt_ptr \<Rightarrow> bool" where
  "kept fnaction fnmatches x \<longleftrightarrow> \<not> (fnmatches (snd x) \<and> fnaction (snd x))"

lemma bt_foreach_from_spec:
  "al_inv a \<Longrightarrow> \<exists>a'. bt_foreach_from fa fm it called a =
      Inr (called @ filter fm (map snd (drop it (al_list a))), a') \<and> al_inv a' \<and>
    al_list a' = take it (al_list a) @ filter (kept fa fm) (drop it (al_list a))"
proof (induction fa fm it called a rule: bt_foreach_from.induct)
  case (1 fa fm it called a)
  show ?case
  proof (cases "it < al_count a")
    case False
    with 1 show ?thesis by (subst bt_foreach_from.simps) simp
  next
    case True
    let ?v = "snd (al_items a ! it)"
    have nth: "al_items a ! it = al_list a ! it" using True by (simp add: al_list_def)
    have d: "drop it (al_list a) = al_list a ! it # drop (Suc it) (al_list a)"
      using True 1 by (simp add: Cons_nth_drop_Suc)
    have t: "take (Suc it) (al_list a) = take it (al_list a) @ [al_list a ! it]"
      using True 1 by (simp add: take_Suc_conv_app_nth)
    show ?thesis
    proof (cases "fm ?v \<and> fa ?v")
      case hit: True
      obtain a1 where a1: "al_Remove it a = Inr a1" "al_inv a1" "al_list a1 = take it (al_list a) @ drop (Suc it) (al_list a)"
        using al_Remove_spec [OF "1.prems", of it] by blast
      have "length (al_list a1) < length (al_list a)" using True 1 unfolding a1(3) by simp
      then have c: "al_count a1 < al_count a" using 1 a1(2) by simp
      have step: "bt_foreach_from fa fm it called a = bt_foreach_from fa fm it (called @ [?v]) a1"
        using True hit a1(1) c by (subst bt_foreach_from.simps) (simp add: Let_def)
      have "drop it (al_list a1) = drop (Suc it) (al_list a)" "take it (al_list a1) = take it (al_list a)"
        using True 1 unfolding a1(3) by simp_all
      with "1.IH"(1) [OF True refl refl hit a1(1) c a1(2)] step d hit show ?thesis
        by (simp add: nth kept_def)
    next
      case miss: False
      have step: "bt_foreach_from fa fm it called a
          = bt_foreach_from fa fm (it + 1) (if fm ?v then called @ [?v] else called) a"
        using True miss by (subst bt_foreach_from.simps) (auto simp: Let_def)
      with "1.IH"(2) [OF True refl refl miss "1.prems"] d t miss show ?thesis
        by (auto simp: nth kept_def)
    qed
  qed
qed

lemma bt_ForEach_spec:
  assumes "bt_inv t"
  shows "\<exists>t'. bt_ForEach fa fm t = Inr (filter fm (map snd (bt_list t)), t') \<and> bt_inv t' \<and>
    bt_list t' = filter (kept fa fm) (bt_list t)"
proof -
  have inv: "al_inv (bt_items t)" using assms by (simp add: bt_inv_def)
  have "sorted_wrt (<) (map fst (filter (kept fa fm) (bt_list t)))"
    using assms by (simp add: bt_inv_def bt_list_def sorted_wrt_map sorted_wrt_filter)
  with bt_foreach_from_spec [OF inv, of fa fm 0 "[]"] show ?thesis
    by (auto simp: bt_ForEach_def bt_inv_def bt_list_def)
qed

lemma bt_RemoveEx_spec:
  assumes "bt_inv t"
  shows "\<exists>t'. bt_RemoveEx fm vals t = Inr (vals @ filter fm (map snd (bt_list t)), t') \<and> bt_inv t' \<and>
    bt_list t' = filter (\<lambda>x. \<not> fm (snd x)) (bt_list t)"
proof -
  have inv: "al_inv (bt_items t)" using assms by (simp add: bt_inv_def)
  have "sorted_wrt (<) (map fst (filter (\<lambda>x. \<not> fm (snd x)) (bt_list t)))"
    using assms by (simp add: bt_inv_def bt_list_def sorted_wrt_map sorted_wrt_filter)
  with bt_foreach_from_spec [OF inv, of "\<lambda>_. True" fm 0 vals] show ?thesis
    by (auto simp: bt_RemoveEx_def bt_inv_def bt_list_def kept_def [abs_def])
qed

lemma bt_new_spec: "bt_inv bt_new \<and> bt_map bt_new = Map.empty"
  by (simp add: bt_new_def bt_inv_def bt_map_def bt_list_def al_new_spec)

section \<open>Interface: a store of values under keys\<close>

text \<open>What a client of a keyed container relies on; values are optional where the container says so.\<close>

locale key_store =
  fixes inv :: "'s \<Rightarrow> bool"
    and fetch :: "'k \<Rightarrow> 's \<Rightarrow> 'v option"
    and store :: "'k \<Rightarrow> 'v \<Rightarrow> 's \<Rightarrow> 's"
    and delete :: "'k \<Rightarrow> 's \<Rightarrow> 's"
  assumes store_inv: "inv s \<Longrightarrow> inv (store k v s)"
    and delete_inv: "inv s \<Longrightarrow> inv (delete k s)"
    and fetch_store: "inv s \<Longrightarrow> fetch k' (store k v s) = (if k' = k then Some v else fetch k' s)"
    and fetch_delete: "inv s \<Longrightarrow> fetch k' (delete k s) = (if k' = k then None else fetch k' s)"
begin

lemma fetch_run:
  "inv s \<Longrightarrow> inv (fold (\<lambda>(k, v). store k v) kvs s) \<and>
   fetch k (fold (\<lambda>(k, v). store k v) kvs s) = (case map_of (rev kvs) k of Some v \<Rightarrow> Some v | None \<Rightarrow> fetch k s)"
  by (induction kvs arbitrary: s) (auto simp: store_inv fetch_store map_add_def split: option.splits)

lemma store_delete: "inv s \<Longrightarrow> fetch k' (delete k (store k v s)) = fetch k' (delete k s)"
  by (simp add: fetch_delete fetch_store store_inv)

end

text \<open>The binary table provides it: \<open>Get\<close>, \<open>Put\<close> of a pointer and \<open>Remove\<close>, which never fail.\<close>

definition bt_fetch :: "'k::{linorder, zero} \<Rightarrow> ('k, 'v) binary_table \<Rightarrow> 'v option" where
  "bt_fetch key t = (case bt_Get key t of Inr (ValPtr v) \<Rightarrow> Some v | _ \<Rightarrow> None)"

definition bt_store :: "'k::{linorder, zero} \<Rightarrow> 'v \<Rightarrow> ('k, 'v) binary_table \<Rightarrow> ('k, 'v) binary_table" where
  "bt_store key v t = (case bt_Put key (ValPtr v) t of Inr t' \<Rightarrow> t' | Inl _ \<Rightarrow> t)"

definition bt_delete :: "'k::{linorder, zero} \<Rightarrow> ('k, 'v) binary_table \<Rightarrow> ('k, 'v) binary_table" where
  "bt_delete key t = (case bt_Remove key t of Inr (_, t') \<Rightarrow> t' | Inl _ \<Rightarrow> t)"

lemma bt_fetch_map: "bt_inv t \<Longrightarrow> bt_fetch key t = (case bt_map t key of Some (ValPtr v) \<Rightarrow> Some v | _ \<Rightarrow> None)"
  by (auto simp: bt_fetch_def bt_Get_spec split: option.splits bt_ptr.splits)

lemma bt_store_map: "bt_inv t \<Longrightarrow> bt_inv (bt_store key v t) \<and> bt_map (bt_store key v t) = (bt_map t)(key \<mapsto> ValPtr v)"
  using bt_Put_spec [of t key "ValPtr v"] by (auto simp: bt_store_def)

lemma bt_delete_map: "bt_inv t \<Longrightarrow> bt_inv (bt_delete key t) \<and> bt_map (bt_delete key t) = (bt_map t)(key := None)"
  using bt_Remove_spec [of t key] by (auto simp: bt_delete_def)

interpretation bt: key_store bt_inv bt_fetch bt_store bt_delete
  by unfold_locales (auto simp: bt_store_map bt_delete_map bt_fetch_map)

section \<open>Properties\<close>

text \<open>The array list behaves as a list, whatever the capacity it started from: \<open>Add\<close> appends,
  \<open>Insert\<close> inserts at the position or at the end if it is beyond it, \<open>Remove\<close> deletes the position
  if it exists, and none of them leaves the allocated block, growing it when it is full.\<close>

theorem array_list_refines_list:
  assumes "al_inv a"
  shows "(\<exists>a'. al_Add item a = Inr (al_count a, a') \<and> al_inv a' \<and> al_list a' = al_list a @ [item_or_zero item]) \<and>
    (\<exists>a'. al_Insert pos item a = Inr (min (al_count a) pos, a') \<and> al_inv a' \<and>
       al_list a' = take pos (al_list a) @ item_or_zero item # drop pos (al_list a)) \<and>
    (\<exists>a'. al_Remove pos a = Inr a' \<and> al_inv a' \<and> al_list a' = take pos (al_list a) @ drop (Suc pos) (al_list a)) \<and>
    (\<exists>a'. al_SetAt pos v a = Inr a' \<and> al_inv a' \<and> al_list a' = (al_list a)[pos := v]) \<and>
    (\<exists>a'. al_Clear a = Inr a' \<and> al_inv a' \<and> al_list a' = [])"
  using al_Add_spec [OF assms] al_Insert_spec [OF assms] al_Remove_spec [OF assms] al_SetAt_spec [OF assms]
    al_Clear_spec [OF assms] by blast

theorem array_list_refines_list_witness:
  "\<exists>a. al_Insert 1 (Some (7 :: nat)) (\<lparr>al_capacity = 2, al_count = 2, al_items = [5, 6, 0]\<rparr>) = Inr (1, a) \<and>
     al_list a = [5, 7, 6]"
  using array_list_refines_list [of "\<lparr>al_capacity = 2, al_count = 2, al_items = [5 :: nat, 6, 0]\<rparr>" "Some 7" 1]
  by (auto simp: al_inv_def al_list_def item_or_zero_def)

text \<open>The binary table is a map.  After any sequence of \<open>Put\<close> of pointers the items are sorted by key,
  and \<open>Get\<close> finds for every key the last value put, through the binary search; \<open>Remove\<close> then takes
  exactly that key out and returns its item.\<close>

theorem binary_table_is_map:
  "bt_inv (fold (\<lambda>(k, v). bt_store k v) kvs bt_new) \<and>
   bt_Get key (fold (\<lambda>(k, v). bt_store k v) kvs bt_new) =
     Inr (case map_of (rev kvs) key of Some v \<Rightarrow> ValPtr v | None \<Rightarrow> NullPtr) \<and>
   (\<exists>t'. bt_Remove key (fold (\<lambda>(k, v). bt_store k v) kvs bt_new) =
       Inr (map_option (\<lambda>v. (key, ValPtr v)) (map_of (rev kvs) key), t') \<and>
     bt_inv t' \<and> bt_map t' = (bt_map (fold (\<lambda>(k, v). bt_store k v) kvs bt_new))(key := None))"
proof -
  let ?t = "fold (\<lambda>(k, v). bt_store k v) kvs bt_new"
  have inv: "bt_inv ?t" using bt.fetch_run [of bt_new kvs] bt_new_spec by blast
  have st: "bt_inv t \<Longrightarrow> bt_map (fold (\<lambda>(k, v). bt_store k v) kvs t) k =
      (case map_of (rev kvs) k of Some v \<Rightarrow> Some (ValPtr v) | None \<Rightarrow> bt_map t k)" for t k
    by (induction kvs arbitrary: t) (auto simp: bt_store_map map_add_def split: option.splits)
  then have m: "bt_map ?t k = map_option ValPtr (map_of (rev kvs) k)" for k
    using st [of bt_new k] by (cases "map_of (rev kvs) k") (simp_all add: bt_new_spec)
  have "bt_Get key ?t = Inr (case map_of (rev kvs) key of Some v \<Rightarrow> ValPtr v | None \<Rightarrow> NullPtr)"
    by (auto simp: bt_Get_spec [OF inv] m split: option.splits)
  moreover have "map_option (Pair key) (bt_map ?t key) = map_option (\<lambda>v. (key, ValPtr v)) (map_of (rev kvs) key)"
    by (simp add: m option.map_comp comp_def)
  ultimately show ?thesis using inv bt_Remove_spec [OF inv, of key] by simp
qed

text \<open>\<open>ForEach\<close> calls the action once on every value that matches, in key order, and removes exactly
  the items whose action asked for it, although it removes from the array it walks over; the items that
  stay keep their order.\<close>

theorem binary_table_ForEach:
  assumes "bt_inv t"
  shows "\<exists>t'. bt_ForEach fnaction fnmatches t = Inr (filter fnmatches (map snd (bt_list t)), t') \<and> bt_inv t' \<and>
    bt_list t' = filter (kept fnaction fnmatches) (bt_list t)"
  by (rule bt_ForEach_spec [OF assms])

definition demo_table :: "(nat, string) binary_table" where
  "demo_table = \<lparr>bt_items = \<lparr>al_capacity = 2, al_count = 2, al_items = [(1, ValPtr ''a''), (2, ValPtr ''b''), 0]\<rparr>,
     bt_temp = 0\<rparr>"

lemma demo_table_inv: "bt_inv demo_table"
  by (simp add: bt_inv_def demo_table_def al_inv_def al_list_def)

theorem binary_table_ForEach_witness:
  "\<exists>t'. bt_ForEach (\<lambda>v. v = ValPtr ''a'') (\<lambda>_. True) demo_table = Inr ([ValPtr ''a'', ValPtr ''b''], t') \<and>
     bt_list t' = [(2, ValPtr ''b'')]"
  using binary_table_ForEach [OF demo_table_inv, of "\<lambda>v. v = ValPtr ''a''" "\<lambda>_. True"]
  by (auto simp: demo_table_def bt_list_def al_list_def kept_def)

end
