(* ===== verification/ObjectPool.thy ===== *)
theory ObjectPool
  imports ZmPrelude
begin

text \<open>
  \<open>ZmObjectPool\<close> of \<open>util/zm_util_container.h\<close>.  An object is its address.  The address that
  \<open>malloc\<close> returns for a new chunk is an argument of \<open>Apply\<close>; of \<open>malloc\<close> the pool relies on this
  alone, that a new block does not overlap a live one (\<open>fresh_chunk\<close>).
\<close>

section \<open>The pool\<close>

fun zm_log2 :: "nat \<Rightarrow> nat" where
  "zm_log2 x = (if x \<le> 1 then 0 else Suc (zm_log2 (x div 2)))"

declare zm_log2.simps [simp del]

text \<open>\<open>(ObjectSize + 0x0F) & ~0xF\<close>\<close>

definition element_size :: "nat \<Rightarrow> nat" where
  "element_size objectSize = (objectSize + 15) div 16 * 16"

record obj_pool =
  op_elem :: nat
  op_chunk_size :: nat
  op_shift :: nat
  op_chunks :: "nat list"
  op_idles :: "nat list"
  op_keys :: "nat set"

definition op_new :: "nat \<Rightarrow> nat \<Rightarrow> obj_pool" where
  "op_new objectSize chunk_size =
    \<lparr>op_elem = element_size objectSize, op_chunk_size = max chunk_size 4,
     op_shift = zm_log2 (1 + element_size objectSize), op_chunks = [], op_idles = [], op_keys = {}\<rparr>"

definition HashKey :: "obj_pool \<Rightarrow> nat \<Rightarrow> nat" where
  "HashKey p obj = obj div 2 ^ op_shift p"

definition chunk_slots :: "obj_pool \<Rightarrow> nat \<Rightarrow> nat list" where
  "chunk_slots p chunk = map (\<lambda>i. chunk + i * op_elem p) [0..<op_chunk_size p]"

definition op_Apply :: "nat \<Rightarrow> obj_pool \<Rightarrow> mem_error + nat \<times> obj_pool" where
  "op_Apply chunk p =
    (let p1 = (if op_idles p = [] then
                 p\<lparr>op_chunks := op_chunks p @ [chunk],
                   op_idles := rev (chunk_slots p chunk) @ op_idles p,
                   op_keys := op_keys p \<union> HashKey p ` set (chunk_slots p chunk)\<rparr>
               else p)
     in case op_idles p1 of
          [] \<Rightarrow> Inl OutOfBounds
        | obj # rest \<Rightarrow>
            if HashKey p1 obj \<in> op_keys p1
            then Inr (obj, p1\<lparr>op_idles := rest, op_keys := op_keys p1 - {HashKey p1 obj}\<rparr>)
            else Inl OutOfBounds)"

definition op_Release :: "nat \<Rightarrow> obj_pool \<Rightarrow> obj_pool" where
  "op_Release obj p =
    (if HashKey p obj \<notin> op_keys p
     then p\<lparr>op_keys := insert (HashKey p obj) (op_keys p), op_idles := obj # op_idles p\<rparr>
     else p)"

definition op_Cleanup :: "obj_pool \<Rightarrow> obj_pool" where
  "op_Cleanup p = p\<lparr>op_chunks := [], op_idles := [], op_keys := {}\<rparr>"

section \<open>Use of a pool\<close>

text \<open>The second component of a state is the set of objects that are handed out and not given back.\<close>

definition far :: "nat \<Rightarrow> nat \<Rightarrow> nat \<Rightarrow> bool" where
  "far n a b \<longleftrightarrow> a + n \<le> b \<or> b + n \<le> a"

definition fresh_chunk :: "obj_pool \<Rightarrow> nat \<Rightarrow> bool" where
  "fresh_chunk p chunk \<longleftrightarrow> (\<forall>c \<in> set (op_chunks p). far (op_elem p * op_chunk_size p) chunk c)"

inductive pool_step :: "obj_pool \<times> nat set \<Rightarrow> obj_pool \<times> nat set \<Rightarrow> bool" where
  step_apply: "fresh_chunk p chunk \<Longrightarrow> op_Apply chunk p = Inr (obj, p') \<Longrightarrow> pool_step (p, u) (p', insert obj u)"
| step_release: "obj \<in> u \<Longrightarrow> pool_step (p, u) (op_Release obj p, u - {obj})"
| step_release_idle: "obj \<in> set (op_idles p) \<Longrightarrow> pool_step (p, u) (op_Release obj p, u)"
| step_cleanup: "pool_step (p, u) (op_Cleanup p, {})"

inductive_cases pool_stepE: "pool_step (p, u) s'"

section \<open>Hash keys of slots\<close>

lemma zm_log2_bound: "0 < x \<Longrightarrow> 2 ^ zm_log2 x \<le> x"
proof (induction x rule: zm_log2.induct)
  case (1 x)
  show ?case
  proof (cases "x \<le> 1")
    case True
    with 1 show ?thesis by (subst zm_log2.simps) simp
  next
    case False
    with 1 have "2 ^ zm_log2 (x div 2) \<le> x div 2" by simp
    then have "2 * 2 ^ zm_log2 (x div 2) \<le> x" by linarith
    with False show ?thesis by (subst zm_log2.simps) simp
  qed
qed

text \<open>The shift never covers more than one slot: \<open>1 + ELEMENT_SIZE\<close> is odd.\<close>

lemma shift_le_elem:
  assumes "0 < objectSize"
  shows "2 ^ zm_log2 (1 + element_size objectSize) \<le> element_size objectSize"
proof -
  let ?e = "element_size objectSize"
  have pos: "0 < ?e" using assms by (simp add: element_size_def)
  have le: "2 ^ zm_log2 (1 + ?e) \<le> 1 + ?e" by (rule zm_log2_bound) simp
  have "2 ^ zm_log2 (1 + ?e) \<noteq> 1 + ?e"
  proof
    assume eq: "2 ^ zm_log2 (1 + ?e) = 1 + ?e"
    have "even ?e" by (simp add: element_size_def)
    then have "odd (1 + ?e)" by simp
    with eq have "zm_log2 (1 + ?e) = 0" by (metis dvd_power even_numeral neq0_conv)
    with eq pos show False by simp
  qed
  with le show ?thesis by simp
qed

lemma far_div:
  assumes "far n a b" and "d \<le> n" and "0 < d"
  shows "a div d \<noteq> b div d"
proof -
  have "x div d < y div d" if "x + n \<le> y" for x y
  proof -
    have "(x + d) div d \<le> y div d" using that assms(2) by (intro div_le_mono) simp
    moreover have "(x + d) div d = Suc (x div d)" using div_add_self2 [of d x] assms(3) by simp
    ultimately show ?thesis by linarith
  qed
  then have "\<And>x y. x + n \<le> y \<Longrightarrow> x div d \<noteq> y div d" by (metis less_irrefl)
  with assms(1) show ?thesis unfolding far_def by metis
qed

section \<open>The invariant\<close>

definition all_slots :: "obj_pool \<Rightarrow> nat set" where
  "all_slots p = (\<Union>c \<in> set (op_chunks p). set (chunk_slots p c))"

definition chunks_ok :: "obj_pool \<Rightarrow> bool" where
  "chunks_ok p \<longleftrightarrow> distinct (op_chunks p) \<and>
     (\<forall>a \<in> set (op_chunks p). \<forall>b \<in> set (op_chunks p). a \<noteq> b \<longrightarrow> far (op_elem p * op_chunk_size p) a b)"

definition pool_inv :: "obj_pool \<times> nat set \<Rightarrow> bool" where
  "pool_inv s \<longleftrightarrow> (case s of (p, u) \<Rightarrow>
     0 < op_elem p \<and> 2 ^ op_shift p \<le> op_elem p \<and> 4 \<le> op_chunk_size p \<and> chunks_ok p \<and>
     distinct (op_idles p) \<and> set (op_idles p) \<inter> u = {} \<and> set (op_idles p) \<union> u = all_slots p \<and>
     op_keys p = HashKey p ` set (op_idles p))"

lemma slot_in_chunk:
  assumes "a \<in> set (chunk_slots p c)"
  obtains i where "i < op_chunk_size p" "a = c + i * op_elem p"
  using assms by (auto simp: chunk_slots_def)

lemma slots_far:
  assumes "chunks_ok p" and "a \<in> all_slots p" and "b \<in> all_slots p" and "a \<noteq> b"
  shows "far (op_elem p) a b"
proof -
  from assms(2) obtain c i where c: "c \<in> set (op_chunks p)" "i < op_chunk_size p" "a = c + i * op_elem p"
    by (auto simp: all_slots_def elim: slot_in_chunk)
  from assms(3) obtain d j where d: "d \<in> set (op_chunks p)" "j < op_chunk_size p" "b = d + j * op_elem p"
    by (auto simp: all_slots_def elim: slot_in_chunk)
  let ?e = "op_elem p" and ?n = "op_chunk_size p"
  have ub: "k * ?e + ?e \<le> ?e * ?n" if "k < ?n" for k
    using mult_le_mono1 [of "Suc k" ?n ?e] that by (simp add: ac_simps)
  show ?thesis
  proof (cases "c = d")
    case True
    with c d assms(4) have "i \<noteq> j" by auto
    then consider "Suc i \<le> j" | "Suc j \<le> i" by linarith
    then show ?thesis
    proof cases
      case 1
      then have "Suc i * ?e \<le> j * ?e" by (rule mult_le_mono1)
      with c d True show ?thesis by (simp add: far_def)
    next
      case 2
      then have "Suc j * ?e \<le> i * ?e" by (rule mult_le_mono1)
      with c d True show ?thesis by (simp add: far_def)
    qed
  next
    case False
    with assms(1) c(1) d(1) have "far (?e * ?n) c d" by (simp add: chunks_ok_def)
    with ub [OF c(2)] ub [OF d(2)] c(3) d(3) show ?thesis by (auto simp: far_def)
  qed
qed

lemma hash_inj:
  assumes "pool_inv (p, u)"
  shows "inj_on (HashKey p) (all_slots p)"
proof (rule inj_onI, rule ccontr)
  fix a b assume ab: "a \<in> all_slots p" "b \<in> all_slots p" "HashKey p a = HashKey p b" "a \<noteq> b"
  from assms have "chunks_ok p" "2 ^ op_shift p \<le> op_elem p" by (simp_all add: pool_inv_def)
  with slots_far [OF _ ab(1,2,4)] far_div [of "op_elem p" a b "2 ^ op_shift p"] ab(3) show False
    by (simp add: HashKey_def)
qed

lemma pool_inv_new: "0 < objectSize \<Longrightarrow> pool_inv (op_new objectSize n, {})"
  using shift_le_elem [of objectSize]
  by (simp add: pool_inv_def op_new_def chunks_ok_def all_slots_def) (simp add: element_size_def)

section \<open>Every step keeps the invariant\<close>

lemma chunk_slots_distinct: "0 < op_elem p \<Longrightarrow> distinct (chunk_slots p c)"
  by (auto simp: chunk_slots_def distinct_map inj_on_def)

definition op_grow :: "nat \<Rightarrow> obj_pool \<Rightarrow> obj_pool" where
  "op_grow chunk p = p\<lparr>op_chunks := op_chunks p @ [chunk], op_idles := rev (chunk_slots p chunk) @ op_idles p,
     op_keys := op_keys p \<union> HashKey p ` set (chunk_slots p chunk)\<rparr>"

lemma op_grow_fields [simp]:
  "op_elem (op_grow c p) = op_elem p" "op_chunk_size (op_grow c p) = op_chunk_size p" "op_shift (op_grow c p) = op_shift p"
  "op_chunks (op_grow c p) = op_chunks p @ [c]" "op_idles (op_grow c p) = rev (chunk_slots p c) @ op_idles p"
  "op_keys (op_grow c p) = op_keys p \<union> HashKey p ` set (chunk_slots p c)"
  "chunk_slots (op_grow c p) = chunk_slots p" "HashKey (op_grow c p) = HashKey p"
  by (simp_all add: op_grow_def chunk_slots_def HashKey_def fun_eq_iff)

lemma new_slots_apart:
  assumes "0 < op_elem p" and "0 < op_chunk_size p" and "fresh_chunk p c"
  shows "c \<notin> set (op_chunks p)" and "set (chunk_slots p c) \<inter> all_slots p = {}"
proof -
  let ?w = "op_elem p * op_chunk_size p"
  have w: "0 < ?w" using assms by simp
  show "c \<notin> set (op_chunks p)"
  proof
    assume "c \<in> set (op_chunks p)"
    with assms(3) have "far ?w c c" by (simp add: fresh_chunk_def)
    with w show False by (simp add: far_def)
  qed
  have ub: "k * op_elem p + op_elem p \<le> ?w" if "k < op_chunk_size p" for k
    using mult_le_mono1 [of "Suc k" "op_chunk_size p" "op_elem p"] that by (simp add: ac_simps)
  show "set (chunk_slots p c) \<inter> all_slots p = {}"
  proof (rule ccontr)
    assume "set (chunk_slots p c) \<inter> all_slots p \<noteq> {}"
    then obtain a d where a: "a \<in> set (chunk_slots p c)" "d \<in> set (op_chunks p)" "a \<in> set (chunk_slots p d)"
      by (auto simp: all_slots_def)
    obtain i where i: "i < op_chunk_size p" "a = c + i * op_elem p" using a(1) by (rule slot_in_chunk)
    obtain j where j: "j < op_chunk_size p" "a = d + j * op_elem p" using a(3) by (rule slot_in_chunk)
    from assms(3) a(2) have "far ?w c d" by (simp add: fresh_chunk_def)
    then consider "c + ?w \<le> d" | "d + ?w \<le> c" unfolding far_def by blast
    then show False
    proof cases
      case 1
      with ub [OF i(1)] i(2) j(2) assms(1) show False by linarith
    next
      case 2
      with ub [OF j(1)] i(2) j(2) assms(1) show False by linarith
    qed
  qed
qed

lemma op_grow_inv:
  assumes "pool_inv (p, u)" and "op_idles p = []" and "fresh_chunk p c"
  shows "pool_inv (op_grow c p, u)"
proof -
  from assms(1) have pos: "0 < op_elem p" "0 < op_chunk_size p" by (simp_all add: pool_inv_def)
  note apart = new_slots_apart [OF pos assms(3)]
  have slots: "all_slots (op_grow c p) = set (chunk_slots p c) \<union> all_slots p"
    by (auto simp: all_slots_def)
  have chunks: "chunks_ok (op_grow c p)"
    using assms(1,3) apart(1) by (auto simp: chunks_ok_def pool_inv_def fresh_chunk_def far_def)
  have u: "u = all_slots p" using assms(1,2) by (simp add: pool_inv_def)
  show ?thesis
    using assms(1,2) apart chunks slots u chunk_slots_distinct [OF pos(1)]
    by (auto simp: pool_inv_def)
qed

lemma op_Apply_grow:
  assumes "op_idles p = []" and "op_idles (op_grow c p) \<noteq> []"
  shows "op_Apply c p = op_Apply c (op_grow c p)"
proof -
  have "op_Apply c p = (case op_idles (op_grow c p) of
          [] \<Rightarrow> Inl OutOfBounds
        | obj # rest \<Rightarrow>
            if HashKey (op_grow c p) obj \<in> op_keys (op_grow c p)
            then Inr (obj, (op_grow c p)\<lparr>op_idles := rest, op_keys := op_keys (op_grow c p) - {HashKey (op_grow c p) obj}\<rparr>)
            else Inl OutOfBounds)"
    unfolding op_Apply_def Let_def if_P [OF assms(1)] op_grow_def [symmetric] by (rule refl)
  also have "\<dots> = op_Apply c (op_grow c p)"
    unfolding op_Apply_def Let_def if_not_P [OF assms(2)] by (rule refl)
  finally show ?thesis .
qed

lemma op_Apply_idle:
  assumes "pool_inv (p, u)" and "op_idles p = obj # rest"
  shows "op_Apply c p = Inr (obj, p\<lparr>op_idles := rest, op_keys := op_keys p - {HashKey p obj}\<rparr>)"
    and "pool_inv (p\<lparr>op_idles := rest, op_keys := op_keys p - {HashKey p obj}\<rparr>, insert obj u)" and "obj \<notin> u"
proof -
  let ?p' = "p\<lparr>op_idles := rest, op_keys := op_keys p - {HashKey p obj}\<rparr>"
  from assms show "op_Apply c p = Inr (obj, ?p')" by (simp add: op_Apply_def pool_inv_def)
  from assms show "obj \<notin> u" by (auto simp: pool_inv_def)
  have sub: "set (obj # rest) \<subseteq> all_slots p" using assms by (auto simp: pool_inv_def)
  have "obj \<notin> set rest" using assms by (simp add: pool_inv_def)
  with sub have "HashKey p obj \<notin> HashKey p ` set rest"
    using inj_on_image_mem_iff [OF hash_inj [OF assms(1)], of obj "set rest"] by simp
  then have "HashKey p ` set (obj # rest) - {HashKey p obj} = HashKey p ` set rest" by auto
  then have "op_keys ?p' = HashKey p ` set rest" using assms by (simp add: pool_inv_def)
  moreover have "all_slots ?p' = all_slots p" "HashKey ?p' = HashKey p" "chunks_ok ?p' = chunks_ok p"
    by (simp_all add: all_slots_def chunk_slots_def HashKey_def chunks_ok_def fun_eq_iff)
  ultimately show "pool_inv (?p', insert obj u)" using assms by (auto simp: pool_inv_def)
qed

lemma op_Apply_spec:
  assumes "pool_inv (p, u)" and "fresh_chunk p c"
  shows "\<exists>obj p'. op_Apply c p = Inr (obj, p') \<and> obj \<notin> u \<and> pool_inv (p', insert obj u)"
proof (cases "op_idles p")
  case (Cons obj rest)
  with op_Apply_idle [OF assms(1) Cons] show ?thesis by blast
next
  case Nil
  have n: "4 \<le> op_chunk_size p" using assms(1) by (simp add: pool_inv_def)
  have "chunk_slots p c \<noteq> []" using n by (simp add: chunk_slots_def)
  then obtain obj rest where idle: "op_idles (op_grow c p) = obj # rest"
    by (cases "rev (chunk_slots p c)") (auto simp: Nil)
  have "op_Apply c p = op_Apply c (op_grow c p)" by (rule op_Apply_grow [OF Nil]) (simp only: idle, simp)
  with op_Apply_idle [OF op_grow_inv [OF assms(1) Nil assms(2)] idle] show ?thesis by auto
qed

lemma op_Release_used:
  assumes "pool_inv (p, u)" and "obj \<in> u"
  shows "pool_inv (op_Release obj p, u - {obj})"
proof -
  from assms have slot: "obj \<in> all_slots p" "obj \<notin> set (op_idles p)" by (auto simp: pool_inv_def)
  have "HashKey p obj \<notin> HashKey p ` set (op_idles p)"
  proof
    assume "HashKey p obj \<in> HashKey p ` set (op_idles p)"
    then obtain b where b: "b \<in> set (op_idles p)" "HashKey p obj = HashKey p b" by auto
    moreover have "b \<in> all_slots p" using b(1) assms(1) by (auto simp: pool_inv_def)
    ultimately have "obj = b" using hash_inj [OF assms(1)] slot(1) by (auto dest: inj_onD)
    with b(1) slot(2) show False by simp
  qed
  then have "op_Release obj p = p\<lparr>op_keys := insert (HashKey p obj) (op_keys p), op_idles := obj # op_idles p\<rparr>" (is "_ = ?p'")
    using assms(1) by (simp add: op_Release_def pool_inv_def)
  moreover have "all_slots ?p' = all_slots p" "HashKey ?p' = HashKey p" "chunks_ok ?p' = chunks_ok p"
    by (simp_all add: all_slots_def chunk_slots_def HashKey_def chunks_ok_def fun_eq_iff)
  ultimately show ?thesis using assms slot by (auto simp: pool_inv_def)
qed

lemma op_Release_idle: "pool_inv (p, u) \<Longrightarrow> obj \<in> set (op_idles p) \<Longrightarrow> op_Release obj p = p"
  by (simp add: op_Release_def pool_inv_def)

lemma op_Cleanup_inv: "pool_inv (p, u) \<Longrightarrow> pool_inv (op_Cleanup p, {})"
  by (simp add: pool_inv_def op_Cleanup_def chunks_ok_def all_slots_def)

lemma pool_step_inv: "pool_step s s' \<Longrightarrow> pool_inv s \<Longrightarrow> pool_inv s'"
proof (induction rule: pool_step.induct)
  case (step_apply p chunk obj p' u)
  with op_Apply_spec [of p u chunk] show ?case by auto
next
  case (step_release obj u p)
  then show ?case by (simp add: op_Release_used)
next
  case (step_release_idle obj p u)
  then show ?case by (simp add: op_Release_idle)
next
  case (step_cleanup p u)
  then show ?case by (rule op_Cleanup_inv)
qed

lemma pool_reach_inv: "pool_step\<^sup>*\<^sup>* s s' \<Longrightarrow> pool_inv s \<Longrightarrow> pool_inv s'"
  by (induction rule: rtranclp_induct) (auto intro: pool_step_inv)

text \<open>However objects are applied for, released (also twice) and cleaned up, the pool always has an
  object to give, and the object it gives does not overlap any object that is still in use.  A second
  release of an idle object changes nothing: the shifted address tells any two slots apart, whatever the
  object size.\<close>

theorem object_pool_no_alias:
  assumes "0 < objectSize" and "pool_step\<^sup>*\<^sup>* (op_new objectSize n, {}) (p, u)" and "fresh_chunk p chunk"
  shows "(\<exists>obj p'. op_Apply chunk p = Inr (obj, p') \<and> (\<forall>used \<in> u. far (op_elem p) obj used)) \<and>
    (\<forall>obj \<in> set (op_idles p). op_Release obj p = p)"
proof -
  have inv: "pool_inv (p, u)" using pool_reach_inv [OF assms(2)] pool_inv_new [OF assms(1)] by blast
  from op_Apply_spec [OF inv assms(3)] obtain obj p' where
    a: "op_Apply chunk p = Inr (obj, p')" "obj \<notin> u" "pool_inv (p', insert obj u)" by blast
  have e: "op_elem p' = op_elem p" using a(1) by (auto simp: op_Apply_def Let_def split: if_splits list.splits)
  have "far (op_elem p) obj used" if "used \<in> u" for used
    using slots_far [of p' obj used] a(2,3) that e by (auto simp: pool_inv_def)
  with a(1) op_Release_idle [OF inv] show ?thesis by blast
qed

theorem object_pool_no_alias_witness:
  "\<exists>obj p'. op_Apply 1000 (op_new 48 4) = Inr (obj, p')"
  using object_pool_no_alias [of 48 4 "op_new 48 4" "{}" 1000]
  by (simp add: fresh_chunk_def op_new_def)

end
