(* ===== verification/StrCodec.thy ===== *)
theory StrCodec
  imports ZmPrelude
begin

unbundle bit_operations_syntax

text \<open>
  The encoders of \<open>util/zm_util_str.cpp\<close>: hexadecimal, URL, base64, base64url, base32 and the PKCS5
  padding.  A \<open>string_view\<close> or a byte array is a list of bytes; the content an encoder leaves in its
  \<open>ZmByteBuffer\<close> is the list of bytes up to the terminator, and the size it reset the buffer to is
  kept where a bound depends on it.
\<close>

abbreviation ascii :: "string \<Rightarrow> bytes" where
  "ascii \<equiv> map char_byte"

section \<open>Hexadecimal\<close>

definition g_hexUpper :: bytes where
  "g_hexUpper = ascii ''0123456789ABCDEF''"

definition g_hexLower :: bytes where
  "g_hexLower = ascii ''0123456789abcdef''"

definition zm_hex_to_char :: "u8 \<Rightarrow> u8" where
  "zm_hex_to_char hex =
    (if 0x30 \<le> hex \<and> hex \<le> 0x39 then hex - 0x30
     else if 0x61 \<le> hex \<and> hex \<le> 0x66 then hex - 0x61 + 0x0A
     else if 0x41 \<le> hex \<and> hex \<le> 0x46 then hex - 0x41 + 0x0A
     else 0)"

definition zm_char_to_hex :: "u8 \<Rightarrow> u8" where
  "zm_char_to_hex code = g_hexLower ! unat (code AND 15)"

fun Hex :: "bool \<Rightarrow> bytes \<Rightarrow> bytes" where
  "Hex lower [] = []"
| "Hex lower (b # bs) =
    (let hex = (if lower then g_hexLower else g_hexUpper)
     in hex ! unat (drop_bit 4 b AND 0x0F) # hex ! unat (b AND 0x0F) # Hex lower bs)"

fun from_hex_pairs :: "bytes \<Rightarrow> bytes" where
  "from_hex_pairs (a # b # r) = (push_bit 4 (zm_hex_to_char a) + zm_hex_to_char b) # from_hex_pairs r"
| "from_hex_pairs _ = []"

text \<open>\<open>FromHex\<close> of the first \<open>inlen\<close> bytes, all of them for 0; the result has the returned length.\<close>

definition FromHex :: "bytes \<Rightarrow> nat \<Rightarrow> mem_error + bytes" where
  "FromHex input inlen0 =
    (let inlen = (if inlen0 = 0 then length input else inlen0)
     in if inlen > length input then Inl OutOfBounds
        else
          let s = take inlen input
          in Inr (if inlen mod 2 = 1 then zm_hex_to_char (s ! 0) # from_hex_pairs (tl s) else from_hex_pairs s))"

section \<open>URL encoding\<close>

definition is_alnum :: "u8 \<Rightarrow> bool" where
  "is_alnum c \<longleftrightarrow> (0x30 \<le> c \<and> c \<le> 0x39) \<or> (0x41 \<le> c \<and> c \<le> 0x5A) \<or> (0x61 \<le> c \<and> c \<le> 0x7A)"

definition url_plain :: "u8 \<Rightarrow> bool" where
  "url_plain c \<longleftrightarrow> is_alnum c \<or> c = 0x2D \<or> c = 0x5F \<or> c = 0x2E \<or> c = 0x7E"

fun URLEncode :: "bytes \<Rightarrow> bytes" where
  "URLEncode [] = []"
| "URLEncode (c # r) =
    (if url_plain c then c # URLEncode r
     else if c = 0x20 then 0x2B # URLEncode r
     else 0x25 # zm_char_to_hex (drop_bit 4 c) # zm_char_to_hex (c AND 15) # URLEncode r)"

text \<open>The decoder into a buffer: a \<open>%\<close> with fewer than two bytes behind it is dropped.\<close>

fun URLDecode :: "bytes \<Rightarrow> bytes" where
  "URLDecode [] = []"
| "URLDecode (c # r) =
    (if c = 0x25 then
       (case r of
          a # b # r' \<Rightarrow> (push_bit 4 (zm_hex_to_char a) OR zm_hex_to_char b) # URLDecode r'
        | _ \<Rightarrow> URLDecode r)
     else if c = 0x2B then 0x20 # URLDecode r
     else c # URLDecode r)"

text \<open>The decoder into a \<open>std::string\<close>: such a \<open>%\<close> is kept.  (\<open>h\<close> and \<open>l\<close> are never negative.)\<close>

fun URLDecode_str :: "bytes \<Rightarrow> bytes" where
  "URLDecode_str [] = []"
| "URLDecode_str (c # r) =
    (if c = 0x25 then
       (case r of
          a # b # r' \<Rightarrow> (push_bit 4 (zm_hex_to_char a) OR zm_hex_to_char b) # URLDecode_str r'
        | _ \<Rightarrow> c # URLDecode_str r)
     else if c = 0x2B then 0x20 # URLDecode_str r
     else c # URLDecode_str r)"

subsection \<open>Correctness\<close>

text \<open>A fact of all bytes below a bound is checked by evaluation.\<close>

lemma byte_check:
  assumes "list_all P (map word_of_nat [0..<k])" and "unat (n :: u8) < k"
  shows "P n"
proof -
  have "P (word_of_nat i)" if "i < k" for i
    using assms(1) that by (simp add: list_all_iff)
  from this [OF assms(2)] show ?thesis by simp
qed

lemma byte_check_all: "list_all P (map word_of_nat [0..<256]) \<Longrightarrow> P (n :: u8)"
  by (rule byte_check [of P 256]) (use unat_byte_less [of n] in simp_all)

lemma hex_digit_back:
  assumes "unat (n :: u8) < 16"
  shows "zm_hex_to_char (g_hexLower ! unat n) = n" and "zm_hex_to_char (g_hexUpper ! unat n) = n"
  by (rule byte_check [OF _ assms]; code_simp)+

lemma unat_nibble: "unat (b AND 0x0F :: u8) < 16" "unat (drop_bit 4 b :: u8) < 16"
proof -
  have "b AND 0x0F \<le> 0x0F" by (rule word_and_le1)
  then show "unat (b AND 0x0F) < 16" by (simp add: word_le_nat_alt)
  have "unat b div 2 ^ 4 < 16" using unat_byte_less [of b] by (simp add: less_mult_imp_div_less)
  then show "unat (drop_bit 4 b) < 16" by (simp only: unat_drop_bit_div)
qed

lemma nibbles_join:
  "push_bit 4 (drop_bit 4 b) + (b AND 0x0F) = (b :: u8)"
  "push_bit 4 (drop_bit 4 b) OR (b AND 0x0F) = (b :: u8)"
  "drop_bit 4 b AND 0x0F = (drop_bit 4 b :: u8)"
proof -
  have m: "(0x0F :: u8) = mask 4" by (simp add: mask_eq_exp_minus_1)
  show o: "push_bit 4 (drop_bit 4 b) OR (b AND 0x0F) = b"
    unfolding m by (rule bit_word_eqI) (auto simp: bit_simps)
  have "push_bit 4 (drop_bit 4 b) AND (b AND 0x0F) = 0"
    unfolding m by (rule bit_word_eqI) (auto simp: bit_simps)
  then show "push_bit 4 (drop_bit 4 b) + (b AND 0x0F) = b"
    using o by (simp add: disjunctive_add_eq_or)
  show "drop_bit 4 b AND 0x0F = drop_bit 4 b"
    unfolding m by (rule bit_word_eqI) (auto simp: bit_simps dest: bit_imp_le_length)
qed

lemma from_hex_pairs_Hex: "from_hex_pairs (Hex lower bs) = bs"
  by (induction bs) (simp_all add: Let_def hex_digit_back unat_nibble nibbles_join)

lemma length_Hex: "length (Hex lower bs) = 2 * length bs"
  by (induction bs) (simp_all add: Let_def)

interpretation hex_codec: codec "\<lambda>_. True" "Hex lower" from_hex_pairs for lower
  by unfold_locales (rule from_hex_pairs_Hex)

lemma FromHex_Hex: "FromHex (Hex lower bs) 0 = Inr bs"
  by (simp add: FromHex_def length_Hex hex_codec.decode_encode)

lemma char_hex_back: "zm_hex_to_char (zm_char_to_hex (b AND 15)) = b AND 15"
    "zm_hex_to_char (zm_char_to_hex (drop_bit 4 b)) = drop_bit 4 b"
  using hex_digit_back(1) [OF unat_nibble(1)] hex_digit_back(1) [OF unat_nibble(2)]
  by (simp_all add: zm_char_to_hex_def nibbles_join)

lemma URLDecode_URLEncode: "URLDecode (URLEncode bs) = bs" "URLDecode_str (URLEncode bs) = bs"
proof (induction bs)
  case (Cons c bs)
  have "c \<noteq> 0x25 \<and> c \<noteq> 0x2B" if "url_plain c"
    using that by (auto simp: url_plain_def is_alnum_def)
  with Cons show "URLDecode (URLEncode (c # bs)) = c # bs" "URLDecode_str (URLEncode (c # bs)) = c # bs"
    by (auto simp: char_hex_back nibbles_join)
qed simp_all

text \<open>The encoded text and its terminator fit the buffer that was reset to \<open>3 * n + 1\<close>.\<close>

lemma length_URLEncode: "length (URLEncode bs) + 1 \<le> 3 * length bs + 1"
  by (induction bs) auto

lemma length_URLDecode: "length (URLDecode bs) \<le> length bs"
proof (induction bs rule: measure_induct_rule [of length])
  case (less bs)
  show ?case
  proof (cases bs)
    case (Cons c r)
    have "length (URLDecode r) \<le> length r" using less Cons by simp
    moreover have "length (URLDecode r') \<le> length r'" if "r = a # b # r'" for a b r' using less Cons that by simp
    ultimately show ?thesis using Cons by (auto split: list.splits intro: le_SucI)
  qed simp
qed

section \<open>Base64\<close>

definition g_base64Chars :: bytes where
  "g_base64Chars = ascii ''ABCDEFGHIJKLMNOPQRSTUVWXYZabcdefghijklmnopqrstuvwxyz0123456789+/''"

definition g_base64UrlChars :: bytes where
  "g_base64UrlChars = ascii ''ABCDEFGHIJKLMNOPQRSTUVWXYZabcdefghijklmnopqrstuvwxyz0123456789-_''"

definition xx :: u8 where "xx = 255"

definition g_base64Table :: bytes where
  "g_base64Table =
    [xx, xx, xx, xx, xx, xx, xx, xx, xx, xx, xx, xx, xx, xx, xx, xx,
     xx, xx, xx, xx, xx, xx, xx, xx, xx, xx, xx, xx, xx, xx, xx, xx,
     xx, xx, xx, xx, xx, xx, xx, xx, xx, xx, xx, 62, xx, xx, xx, 63,
     52, 53, 54, 55, 56, 57, 58, 59, 60, 61, xx, xx, xx, xx, xx, xx,
     xx,  0,  1,  2,  3,  4,  5,  6,  7,  8,  9, 10, 11, 12, 13, 14,
     15, 16, 17, 18, 19, 20, 21, 22, 23, 24, 25, xx, xx, xx, xx, xx,
     xx, 26, 27, 28, 29, 30, 31, 32, 33, 34, 35, 36, 37, 38, 39, 40,
     41, 42, 43, 44, 45, 46, 47, 48, 49, 50, 51, xx, xx, xx, xx, xx]"

definition g_base64UrlTable :: bytes where
  "g_base64UrlTable =
    [xx, xx, xx, xx, xx, xx, xx, xx, xx, xx, xx, xx, xx, xx, xx, xx,
     xx, xx, xx, xx, xx, xx, xx, xx, xx, xx, xx, xx, xx, xx, xx, xx,
     xx, xx, xx, xx, xx, xx, xx, xx, xx, xx, xx, xx, xx, 62, xx, xx,
     52, 53, 54, 55, 56, 57, 58, 59, 60, 61, xx, xx, xx, xx, xx, xx,
     xx,  0,  1,  2,  3,  4,  5,  6,  7,  8,  9, 10, 11, 12, 13, 14,
     15, 16, 17, 18, 19, 20, 21, 22, 23, 24, 25, xx, xx, xx, xx, 63,
     xx, 26, 27, 28, 29, 30, 31, 32, 33, 34, 35, 36, 37, 38, 39, 40,
     41, 42, 43, 44, 45, 46, 47, 48, 49, 50, 51, xx, xx, xx, xx, xx]"

definition Base64Check :: "bytes \<Rightarrow> bool" where
  "Base64Check str \<longleftrightarrow> list_all (\<lambda>c. is_alnum c \<or> c = 0x2B \<or> c = 0x2F \<or> c = 0x3D) str"

text \<open>The four indices of one group of three bytes.\<close>

definition b64_split :: "u8 \<Rightarrow> u8 \<Rightarrow> u8 \<Rightarrow> u8 list" where
  "b64_split x y z =
    [drop_bit 2 (x AND 0xFC), push_bit 4 (x AND 0x03) + drop_bit 4 (y AND 0xF0),
     push_bit 2 (y AND 0x0F) + drop_bit 6 (z AND 0xC0), z AND 0x3F]"

text \<open>A group of the loop; missing bytes are 0.  The counter \<open>i\<close> is an \<open>unsigned int\<close>, so \<open>i * 3\<close> wraps at 32 bits before it
  becomes the index, a \<open>size_t\<close>.\<close>

definition b64_byte :: "bytes \<Rightarrow> nat \<Rightarrow> u8" where
  "b64_byte inBytes i = (if i < length inBytes then inBytes ! i else 0)"

definition b64_group :: "bytes \<Rightarrow> bytes \<Rightarrow> nat \<Rightarrow> bytes" where
  "b64_group chars inBytes i =
    (let index = (i * 3) mod 2 ^ 32
     in map (\<lambda>k. chars ! unat k) (b64_split (b64_byte inBytes index) (b64_byte inBytes (index + 1)) (b64_byte inBytes (index + 2))))"

definition b64_groups :: "bytes \<Rightarrow> bytes \<Rightarrow> nat \<Rightarrow> bytes" where
  "b64_groups chars inBytes n = concat (map (b64_group chars inBytes) [0..<n])"

definition b64_missing :: "nat \<Rightarrow> nat" where
  "b64_missing inLen = (3 - inLen mod 3) mod 3"

text \<open>\<open>base64EncodeImpl\<close>: the last \<open>missing\<close> characters become \<open>=\<close>.  With \<open>2 ^ 32\<close> groups or more the counter never reaches
  their number, and the loop writes past its output.\<close>

definition base64EncodeImpl :: "bytes \<Rightarrow> bytes \<Rightarrow> mem_error + bytes" where
  "base64EncodeImpl chars inBytes =
    (let missing = b64_missing (length inBytes);
         n = (length inBytes + missing) div 3;
         out = b64_groups chars inBytes n
     in if 2 ^ 32 \<le> n then Inl OutOfBounds
        else Inr (take (length out - missing) out @ replicate missing 0x3D))"

definition Base64Encode :: "bytes \<Rightarrow> mem_error + bytes" where
  "Base64Encode = base64EncodeImpl g_base64Chars"

text \<open>Trailing \<open>=\<close> are cleared from the end, but never the first character.\<close>

fun strip_pad :: "bytes \<Rightarrow> bytes" where
  "strip_pad (a # b # r) = (if last (b # r) = 0x3D then strip_pad (butlast (a # b # r)) else a # b # r)"
| "strip_pad s = s"

definition Base64URLEncode :: "bytes \<Rightarrow> mem_error + bytes" where
  "Base64URLEncode data = (case base64EncodeImpl g_base64UrlChars data of Inl e \<Rightarrow> Inl e | Inr s \<Rightarrow> Inr (strip_pad s))"

definition b64_value :: "bytes \<Rightarrow> u8 \<Rightarrow> u8" where
  "b64_value table c = (if c < 128 then table ! unat c else 0xFF)"

definition b64_join :: "u8 \<Rightarrow> u8 \<Rightarrow> u8 \<Rightarrow> u8 \<Rightarrow> bytes" where
  "b64_join p q r s =
    (if q \<noteq> 0xFF then [push_bit 2 (p AND 0x3F) + drop_bit 4 (q AND 0x30)] else []) @
    (if r \<noteq> 0xFF then [push_bit 4 (q AND 0x0F) + drop_bit 2 (r AND 0x3C)] else []) @
    (if s \<noteq> 0xFF then [push_bit 6 (r AND 0x03) + (s AND 0x3F)] else [])"

fun b64_ungroup :: "bytes \<Rightarrow> bytes \<Rightarrow> bytes" where
  "b64_ungroup table (p # q # r # s # rest) =
     b64_join (b64_value table p) (b64_value table q) (b64_value table r) (b64_value table s) @ b64_ungroup table rest"
| "b64_ungroup table _ = []"

text \<open>\<open>base64DecodeImpl\<close> of the first \<open>inLen\<close> bytes, all of them for 0, padded with \<open>=\<close> to a multiple of 4.\<close>

definition base64DecodeImpl :: "bytes \<Rightarrow> bytes \<Rightarrow> nat \<Rightarrow> mem_error + bytes" where
  "base64DecodeImpl table inStr inLen0 =
    (let inLen = (if inLen0 < 1 then length inStr else inLen0)
     in if inStr = [] \<or> inLen < 1 then Inr []
        else if inLen > length inStr then Inl OutOfBounds
        else
          let b64Len = (if inLen mod 4 = 0 then inLen else inLen + 4 - inLen mod 4)
          in Inr (b64_ungroup table (take inLen inStr @ replicate (b64Len - inLen) 0x3D)))"

definition Base64Decode :: "bytes \<Rightarrow> nat \<Rightarrow> mem_error + bytes" where
  "Base64Decode = base64DecodeImpl g_base64Table"

definition Base64URLDecode :: "bytes \<Rightarrow> nat \<Rightarrow> mem_error + bytes" where
  "Base64URLDecode = base64DecodeImpl g_base64UrlTable"

subsection \<open>Correctness\<close>

text \<open>An alphabet of 64 characters and the table that inverts it.\<close>

definition b64_pair :: "bytes \<Rightarrow> bytes \<Rightarrow> bool" where
  "b64_pair chars table \<longleftrightarrow> length chars = 64 \<and> b64_value table 0x3D = 0xFF \<and> 0x3D \<notin> set chars \<and>
     list_all (\<lambda>i. b64_value table (chars ! i) = word_of_nat i) [0..<64]"

lemma b64_pairs: "b64_pair g_base64Chars g_base64Table" "b64_pair g_base64UrlChars g_base64UrlTable"
  by code_simp+

lemma b64_pair_value:
  assumes "b64_pair chars table" and "unat (i :: u8) < 64"
  shows "b64_value table (chars ! unat i) = i" and "i \<noteq> 0xFF" and "chars ! unat i \<noteq> 0x3D"
proof -
  show "b64_value table (chars ! unat i) = i" using assms by (simp add: b64_pair_def list_all_iff)
  show "i \<noteq> 0xFF" using assms(2) by auto
  show "chars ! unat i \<noteq> 0x3D" using assms by (metis b64_pair_def nth_mem)
qed

lemma b64_masks:
  "(0xFC :: u8) = push_bit 2 (mask 6)" "(0x03 :: u8) = mask 2" "(0xF0 :: u8) = push_bit 4 (mask 4)" "(0x0F :: u8) = mask 4"
  "(0xC0 :: u8) = push_bit 6 (mask 2)" "(0x3F :: u8) = mask 6" "(0x30 :: u8) = push_bit 4 (mask 2)" "(0x3C :: u8) = push_bit 2 (mask 4)"
  by (simp_all add: mask_eq_exp_minus_1)

lemma b64_or:
  "push_bit 4 (x AND 0x03) + drop_bit 4 (y AND 0xF0) = (push_bit 4 (x AND 0x03) OR drop_bit 4 (y AND 0xF0) :: u8)"
  "push_bit 2 (y AND 0x0F) + drop_bit 6 (z AND 0xC0) = (push_bit 2 (y AND 0x0F) OR drop_bit 6 (z AND 0xC0) :: u8)"
  "push_bit 2 (x AND 0x3F) + drop_bit 4 (y AND 0x30) = (push_bit 2 (x AND 0x3F) OR drop_bit 4 (y AND 0x30) :: u8)"
  "push_bit 4 (x AND 0x0F) + drop_bit 2 (y AND 0x3C) = (push_bit 4 (x AND 0x0F) OR drop_bit 2 (y AND 0x3C) :: u8)"
  "push_bit 6 (x AND 0x03) + (y AND 0x3F) = (push_bit 6 (x AND 0x03) OR (y AND 0x3F) :: u8)"
  unfolding b64_masks
  by (rule disjunctive_add_eq_or; rule bit_word_eqI; force simp: bit_simps dest: bit_imp_le_length)+

lemma u8_eqI:
  assumes "bit a 0 = bit b 0" "bit a 1 = bit b 1" "bit a 2 = bit b 2" "bit a 3 = bit b 3"
    "bit a 4 = bit b 4" "bit a 5 = bit b 5" "bit a 6 = bit b 6" "bit a 7 = bit b 7"
  shows "a = (b :: u8)"
proof (rule bit_word_eqI)
  fix n assume "n < LENGTH(8)"
  then have "n < 8" by simp
  then have "n = 0 \<or> n = 1 \<or> n = 2 \<or> n = 3 \<or> n = 4 \<or> n = 5 \<or> n = 6 \<or> n = 7" by presburger
  then show "bit a n = bit b n" using assms by (elim disjE) simp_all
qed

lemma b64_bits:
  fixes x y z :: u8
  defines "p \<equiv> drop_bit 2 (x AND 0xFC)" and "q \<equiv> push_bit 4 (x AND 0x03) + drop_bit 4 (y AND 0xF0)"
    and "r \<equiv> push_bit 2 (y AND 0x0F) + drop_bit 6 (z AND 0xC0)" and "s \<equiv> z AND 0x3F"
  shows "push_bit 2 (p AND 0x3F) + drop_bit 4 (q AND 0x30) = x"
    and "push_bit 4 (q AND 0x0F) + drop_bit 2 (r AND 0x3C) = y"
    and "push_bit 6 (r AND 0x03) + (s AND 0x3F) = z"
    and "unat p < 64" and "unat q < 64" and "unat r < 64" and "unat s < 64"
proof -
  have less: "unat w < 64" if "w AND 0x3F = w" for w :: u8
  proof -
    have "w AND 0x3F \<le> 0x3F" by (rule word_and_le1)
    with that show ?thesis by (simp add: word_le_nat_alt)
  qed
  show "push_bit 2 (p AND 0x3F) + drop_bit 4 (q AND 0x30) = x"
    unfolding p_def q_def b64_or unfolding b64_masks by (rule u8_eqI; simp add: bit_simps)
  show "push_bit 4 (q AND 0x0F) + drop_bit 2 (r AND 0x3C) = y"
    unfolding r_def q_def b64_or unfolding b64_masks by (rule u8_eqI; simp add: bit_simps)
  show "push_bit 6 (r AND 0x03) + (s AND 0x3F) = z"
    unfolding r_def s_def b64_or unfolding b64_masks by (rule u8_eqI; simp add: bit_simps)
  show "unat p < 64" unfolding p_def
    by (rule less, unfold b64_masks, rule bit_word_eqI) (auto simp: bit_simps dest: bit_imp_le_length)
  show "unat q < 64" unfolding q_def b64_or
    by (rule less, unfold b64_masks, rule bit_word_eqI) (auto simp: bit_simps dest: bit_imp_le_length)
  show "unat r < 64" unfolding r_def b64_or
    by (rule less, unfold b64_masks, rule bit_word_eqI) (auto simp: bit_simps dest: bit_imp_le_length)
  show "unat s < 64" unfolding s_def
    by (rule less, unfold b64_masks, rule bit_word_eqI) (auto simp: bit_simps dest: bit_imp_le_length)
qed

lemma b64_split_nth:
  assumes "b64_pair chars table"
  shows "map (b64_value table) (map (\<lambda>i. chars ! unat i) (b64_split x y z)) = b64_split x y z"
    and "list_all (\<lambda>i. i \<noteq> 0xFF) (b64_split x y z)"
  using b64_pair_value [OF assms] b64_bits(4-7) by (simp_all add: b64_split_def)

lemma b64_join_split:
  "b64_split x y z = [p, q, r, s] \<Longrightarrow> b64_join p q r s = [x, y, z] \<and> b64_join p q r 0xFF = [x, y] \<and> b64_join p q 0xFF 0xFF = [x]"
proof -
  assume "b64_split x y z = [p, q, r, s]"
  then have e: "p = drop_bit 2 (x AND 0xFC)" "q = push_bit 4 (x AND 0x03) + drop_bit 4 (y AND 0xF0)"
      "r = push_bit 2 (y AND 0x0F) + drop_bit 6 (z AND 0xC0)" "s = z AND 0x3F"
    by (simp_all add: b64_split_def)
  have "unat q < 64" "unat r < 64" "unat s < 64" unfolding e by (rule b64_bits)+
  then have n: "q \<noteq> 0xFF" "r \<noteq> 0xFF" "s \<noteq> 0xFF" by auto
  have "push_bit 2 (p AND 0x3F) + drop_bit 4 (q AND 0x30) = x" "push_bit 4 (q AND 0x0F) + drop_bit 2 (r AND 0x3C) = y"
      "push_bit 6 (r AND 0x03) + (s AND 0x3F) = z" unfolding e by (rule b64_bits)+
  with n show ?thesis by (simp add: b64_join_def)
qed

text \<open>The encoding as its characters and its padding.\<close>

fun b64_core :: "bytes \<Rightarrow> bytes \<Rightarrow> bytes" where
  "b64_core chars [] = []"
| "b64_core chars [x] = take 2 (map (\<lambda>i. chars ! unat i) (b64_split x 0 0))"
| "b64_core chars [x, y] = take 3 (map (\<lambda>i. chars ! unat i) (b64_split x y 0))"
| "b64_core chars (x # y # z # r) = map (\<lambda>i. chars ! unat i) (b64_split x y z) @ b64_core chars r"

lemma induct_list3 [case_names 1 2 3 4]:
  "P [] \<Longrightarrow> (\<And>x. P [x]) \<Longrightarrow> (\<And>x y. P [x, y]) \<Longrightarrow> (\<And>x y z r. P r \<Longrightarrow> P (x # y # z # r)) \<Longrightarrow> P xs"
  by induction_schema (pat_completeness, lexicographic_order)

lemma b64_missing_step: "b64_missing (Suc (Suc (Suc n))) = b64_missing n"
  by (simp add: b64_missing_def mod_Suc)

lemma length_b64_split [simp]: "length (b64_split x y z) = 4"
  by (simp add: b64_split_def)

lemma b64_missing_sum: "(n + b64_missing n) div 3 = (n + 2) div 3"
proof -
  obtain q r where n: "n = 3 * q + r" "r < 3"
    using mult_div_mod_eq [of 3 n] mod_less_divisor [of 3 n] by (metis zero_less_numeral)
  then have "(3 * q + r) mod 3 = r"
    by simp
  moreover have "r = 0 \<or> r = 1 \<or> r = 2"
    using n(2) by linarith
  ultimately show ?thesis
    unfolding n(1) b64_missing_def by (elim disjE) (simp_all only:, simp_all)
qed

text \<open>Below 4 GB no index wraps, and the groups are those of a list that is cut off by three.\<close>

fun b64_list :: "bytes \<Rightarrow> bytes \<Rightarrow> bytes" where
  "b64_list chars [] = []"
| "b64_list chars [x] = map (\<lambda>i. chars ! unat i) (b64_split x 0 0)"
| "b64_list chars [x, y] = map (\<lambda>i. chars ! unat i) (b64_split x y 0)"
| "b64_list chars (x # y # z # r) = map (\<lambda>i. chars ! unat i) (b64_split x y z) @ b64_list chars r"

definition b64_cut :: "bytes \<Rightarrow> bytes \<Rightarrow> nat \<Rightarrow> bytes" where
  "b64_cut chars bs i = map (\<lambda>k. chars ! unat k) (b64_split (b64_byte bs (i * 3)) (b64_byte bs (i * 3 + 1)) (b64_byte bs (i * 3 + 2)))"

lemma b64_byte_Suc: "b64_byte (x # bs) (Suc k) = b64_byte bs k"
  by (simp add: b64_byte_def)

lemma b64_cut_Suc: "b64_cut chars (x # y # z # r) (Suc i) = b64_cut chars r i"
proof -
  have "Suc i * 3 = Suc (Suc (Suc (i * 3)))" "Suc i * 3 + 1 = Suc (Suc (Suc (i * 3 + 1)))" "Suc i * 3 + 2 = Suc (Suc (Suc (i * 3 + 2)))"
    by simp_all
  then show ?thesis
    unfolding b64_cut_def by (simp only: b64_byte_Suc)
qed

lemma b64_cuts_Suc: "concat (map (b64_cut chars (x # y # z # r)) [0..<Suc n])
  = b64_cut chars (x # y # z # r) 0 @ concat (map (b64_cut chars r) [0..<n])"
proof -
  have "[0..<Suc n] = 0 # map Suc [0..<n]"
    by (simp only: map_Suc_upt upt_conv_Cons zero_less_Suc)
  moreover have "map (b64_cut chars (x # y # z # r)) (map Suc [0..<n]) = map (b64_cut chars r) [0..<n]"
    by (simp add: b64_cut_Suc)
  ultimately show ?thesis
    by (simp only: list.map concat.simps)
qed

lemma b64_byte_simps: "b64_byte (x # bs) 0 = x" "b64_byte [] k = 0" "b64_byte (x # bs) 1 = b64_byte bs 0" "b64_byte (x # y # bs) 2 = b64_byte bs 0"
  by (simp_all add: b64_byte_def)

lemma b64_cut_0: "b64_cut chars (x # y # z # r) 0 = map (\<lambda>i. chars ! unat i) (b64_split x y z)"
  "b64_cut chars [x] 0 = map (\<lambda>i. chars ! unat i) (b64_split x 0 0)"
  "b64_cut chars [x, y] 0 = map (\<lambda>i. chars ! unat i) (b64_split x y 0)"
proof -
  have i: "(0 :: nat) * 3 = 0" "(0 :: nat) + 1 = Suc 0" "(0 :: nat) + 2 = Suc (Suc 0)"
    by simp_all
  show "b64_cut chars (x # y # z # r) 0 = map (\<lambda>i. chars ! unat i) (b64_split x y z)"
    "b64_cut chars [x] 0 = map (\<lambda>i. chars ! unat i) (b64_split x 0 0)"
    "b64_cut chars [x, y] 0 = map (\<lambda>i. chars ! unat i) (b64_split x y 0)"
    unfolding b64_cut_def i by (simp_all only: b64_byte_Suc b64_byte_simps)
qed

lemma b64_list_cuts: "concat (map (b64_cut chars bs) [0..<(length bs + 2) div 3]) = b64_list chars bs"
proof (induction bs rule: induct_list3)
  case (4 x y z r)
  have n: "(length (x # y # z # r) + 2) div 3 = Suc ((length r + 2) div 3)"
    by simp
  show ?case
    unfolding n b64_cuts_Suc b64_cut_0 4 b64_list.simps ..
next
  case (2 x)
  have "[0..<(length [x] + 2) div 3] = [0]"
    by simp
  then show ?case
    by (simp only: list.map concat.simps b64_cut_0 b64_list.simps append_Nil2)
next
  case (3 x y)
  have "[0..<(length [x, y] + 2) div 3] = [0]"
    by simp
  then show ?case
    by (simp only: list.map concat.simps b64_cut_0 b64_list.simps append_Nil2)
qed simp

lemma b64_groups_list:
  assumes "length bs \<le> 2 ^ 32"
  shows "b64_groups chars bs ((length bs + 2) div 3) = b64_list chars bs"
proof -
  have "b64_group chars bs i = b64_cut chars bs i" if "i \<in> set [0..<(length bs + 2) div 3]" for i
  proof -
    have "i * 3 < length bs"
      using that by auto
    then have "i * 3 mod 2 ^ 32 = i * 3"
      using assms by simp
    then show ?thesis
      unfolding b64_group_def b64_cut_def Let_def by (simp only:)
  qed
  then have "map (b64_group chars bs) [0..<(length bs + 2) div 3] = map (b64_cut chars bs) [0..<(length bs + 2) div 3]"
    by (rule map_cong [OF refl])
  then show ?thesis
    by (simp only: b64_groups_def b64_list_cuts)
qed

lemma b64_list_length: "length (b64_list chars bs) = length (b64_core chars bs) + b64_missing (length bs)"
  by (induction chars bs rule: b64_list.induct) (simp_all add: b64_missing_def b64_missing_step [unfolded b64_missing_def])

lemma b64_list_take: "take (length (b64_core chars bs)) (b64_list chars bs) = b64_core chars bs"
  by (induction chars bs rule: b64_list.induct) simp_all

lemma base64EncodeImpl_core:
  assumes "length bs \<le> 2 ^ 32"
  shows "base64EncodeImpl chars bs = Inr (b64_core chars bs @ replicate (b64_missing (length bs)) 0x3D)"
proof -
  have "\<not> 2 ^ 32 \<le> (length bs + 2) div 3"
    using assms by simp
  then show ?thesis
    unfolding base64EncodeImpl_def Let_def b64_missing_sum b64_groups_list [OF assms]
    by (simp add: b64_list_length b64_list_take)
qed

lemma b64_core_length: "(length (b64_core chars bs) + b64_missing (length bs)) mod 4 = 0"
  by (induction chars bs rule: b64_core.induct) (simp_all add: b64_missing_def b64_missing_step [unfolded b64_missing_def] add.assoc)

lemma b64_missing_less: "b64_missing n < 4" "b64_missing n \<le> 2"
  by (simp_all add: b64_missing_def)

lemma b64_core_Nil: "b64_core chars bs = [] \<longleftrightarrow> bs = []"
  by (induction chars bs rule: b64_core.induct) (simp_all add: b64_split_def)

lemma b64_value_split:
  assumes "b64_pair chars table"
  obtains p q r s where "b64_split x y z = [p, q, r, s]" and "b64_value table (chars ! unat p) = p"
    and "b64_value table (chars ! unat q) = q" and "b64_value table (chars ! unat r) = r" and "b64_value table (chars ! unat s) = s"
proof -
  obtain p q r s where l: "b64_split x y z = [p, q, r, s]" by (simp add: b64_split_def)
  from b64_split_nth(1) [OF assms, of x y z] show thesis by (intro that [OF l]) (simp_all add: l)
qed

lemma b64_ungroup_core:
  assumes "b64_pair chars table"
  shows "b64_ungroup table (b64_core chars bs @ replicate (b64_missing (length bs)) 0x3D) = bs"
proof -
  have pad: "b64_value table 0x3D = 0xFF" using assms by (simp add: b64_pair_def)
  show ?thesis
  proof (induction bs rule: induct_list3)
    case 1
    then show ?case by (simp add: b64_missing_def)
  next
    case (2 x)
    obtain p q r s where v: "b64_split x 0 0 = [p, q, r, s]" "b64_value table (chars ! unat p) = p"
      "b64_value table (chars ! unat q) = q" "b64_value table (chars ! unat r) = r" "b64_value table (chars ! unat s) = s"
      by (rule b64_value_split [OF assms])
    have core: "b64_core chars [x] = [chars ! unat p, chars ! unat q]" by (simp add: v(1))
    have miss: "replicate (b64_missing (length [x])) (0x3D :: u8) = [0x3D, 0x3D]"
      by (simp add: b64_missing_def numeral_2_eq_2)
    have "b64_join p q 0xFF 0xFF = [x]" using b64_join_split [OF v(1)] by (elim conjE)
    then show ?case unfolding core miss by (simp only: append_Cons append_Nil b64_ungroup.simps v(2,3) pad append_Nil2)
  next
    case (3 x y)
    obtain p q r s where v: "b64_split x y 0 = [p, q, r, s]" "b64_value table (chars ! unat p) = p"
      "b64_value table (chars ! unat q) = q" "b64_value table (chars ! unat r) = r" "b64_value table (chars ! unat s) = s"
      by (rule b64_value_split [OF assms])
    have core: "b64_core chars [x, y] = [chars ! unat p, chars ! unat q, chars ! unat r]" by (simp add: v(1))
    have miss: "replicate (b64_missing (length [x, y])) (0x3D :: u8) = [0x3D]"
      by (simp add: b64_missing_def)
    have "b64_join p q r 0xFF = [x, y]" using b64_join_split [OF v(1)] by (elim conjE)
    then show ?case unfolding core miss by (simp only: append_Cons append_Nil b64_ungroup.simps v(2-4) pad append_Nil2)
  next
    case (4 x y z bs)
    obtain p q r s where v: "b64_split x y z = [p, q, r, s]" "b64_value table (chars ! unat p) = p"
      "b64_value table (chars ! unat q) = q" "b64_value table (chars ! unat r) = r" "b64_value table (chars ! unat s) = s"
      by (rule b64_value_split [OF assms])
    have core: "b64_core chars (x # y # z # bs)
        = [chars ! unat p, chars ! unat q, chars ! unat r, chars ! unat s] @ b64_core chars bs" by (simp add: v(1))
    have miss: "b64_missing (length (x # y # z # bs)) = b64_missing (length bs)" by (simp add: b64_missing_step)
    have "b64_join p q r s = [x, y, z]" using b64_join_split [OF v(1)] by (elim conjE)
    then show ?case unfolding core miss by (simp only: append_Cons append_Nil b64_ungroup.simps v(2-5) 4)
  qed
qed

lemma base64_roundtrip:
  assumes "b64_pair chars table"
  shows "base64DecodeImpl table (b64_core chars bs @ replicate (b64_missing (length bs)) 0x3D) 0 = Inr bs"
proof (cases "bs = []")
  case True
  then show ?thesis by (simp add: base64DecodeImpl_def b64_missing_def)
next
  case False
  then have ne: "b64_core chars bs \<noteq> []" by (simp add: b64_core_Nil)
  then show ?thesis using b64_core_length [of chars bs] b64_ungroup_core [OF assms, of bs]
    by (simp add: base64DecodeImpl_def)
qed

lemma strip_pad_replicate:
  assumes "s \<noteq> []" and "last s \<noteq> 0x3D"
  shows "strip_pad (s @ replicate k 0x3D) = s"
proof (induction k)
  case 0
  with assms show ?case by (cases s rule: strip_pad.cases) auto
next
  case (Suc k)
  let ?t = "s @ replicate k (0x3D :: u8)"
  have t: "s @ replicate (Suc k) 0x3D = ?t @ [0x3D]" by (simp add: replicate_append_same)
  from assms(1) obtain a b r where ab: "?t @ [0x3D] = a # b # r" by (cases s; cases "tl (?t @ [0x3D])") auto
  have "last (b # r) = 0x3D" "butlast (a # b # r) = ?t"
    by (metis ab last_ConsR last_snoc list.distinct(1)) (metis ab butlast_snoc)
  then have "strip_pad (a # b # r) = strip_pad ?t" by (subst strip_pad.simps) simp
  with Suc t ab show ?case by simp
qed

lemma b64_split_less: "i \<in> set (b64_split x y z) \<Longrightarrow> unat i < 64"
  unfolding b64_split_def set_simps insert_iff empty_iff using b64_bits(4-7) by blast

lemma b64_chars_no_pad:
  assumes "b64_pair chars table"
  shows "0x3D \<notin> set (map (\<lambda>i. chars ! unat i) (b64_split x y z))"
  using b64_pair_value(3) [OF assms b64_split_less] by (metis (no_types, lifting) imageE list.set_map)

lemma b64_core_no_pad:
  assumes "b64_pair chars table"
  shows "0x3D \<notin> set (b64_core chars bs)"
proof (induction bs rule: induct_list3)
  case 1
  then show ?case by simp
next
  case (2 x)
  then show ?case using b64_chars_no_pad [OF assms, of x 0 0] by (auto dest: in_set_takeD simp del: list.set_map)
next
  case (3 x y)
  then show ?case using b64_chars_no_pad [OF assms, of x y 0] by (auto dest: in_set_takeD simp del: list.set_map)
next
  case (4 x y z r)
  then show ?case using b64_chars_no_pad [OF assms, of x y z] by (simp del: list.set_map)
qed

lemma base64_stripped_roundtrip:
  assumes "b64_pair chars table"
  shows "base64DecodeImpl table (strip_pad (b64_core chars bs @ replicate (b64_missing (length bs)) 0x3D)) 0 = Inr bs"
proof (cases "bs = []")
  case True
  then show ?thesis by (simp add: base64DecodeImpl_def b64_missing_def)
next
  case False
  then have ne: "b64_core chars bs \<noteq> []" by (simp add: b64_core_Nil)
  then have "last (b64_core chars bs) \<noteq> 0x3D" using b64_core_no_pad [OF assms, of bs] last_in_set by fastforce
  then have strip: "strip_pad (b64_core chars bs @ replicate (b64_missing (length bs)) 0x3D) = b64_core chars bs"
    using ne by (simp add: strip_pad_replicate)
  let ?n = "length (b64_core chars bs)"
  have "(?n + b64_missing (length bs)) mod 4 = 0" by (rule b64_core_length)
  moreover have "b64_missing (length bs) < 4" by (rule b64_missing_less)
  ultimately have "(if ?n mod 4 = 0 then ?n else ?n + 4 - ?n mod 4) - ?n = b64_missing (length bs)"
    by (auto split: if_splits) presburger+
  then show ?thesis using ne b64_ungroup_core [OF assms, of bs]
    by (simp add: base64DecodeImpl_def strip Let_def)
qed

text \<open>The codecs, with the properties that rest on their law.\<close>

definition codec_result :: "mem_error + bytes \<Rightarrow> bytes" where
  "codec_result r = (case r of Inr x \<Rightarrow> x | Inl _ \<Rightarrow> [])"

interpretation b64_codec: codec "\<lambda>bs. length bs \<le> 2 ^ 32" "\<lambda>bs. codec_result (Base64Encode bs)" "\<lambda>s. codec_result (Base64Decode s 0)"
  by unfold_locales
    (simp add: codec_result_def Base64Encode_def Base64Decode_def base64EncodeImpl_core base64_roundtrip [OF b64_pairs(1)])

interpretation b64url_codec: codec "\<lambda>bs. length bs \<le> 2 ^ 32" "\<lambda>bs. codec_result (Base64URLEncode bs)" "\<lambda>s. codec_result (Base64URLDecode s 0)"
  by unfold_locales
    (simp add: codec_result_def Base64URLEncode_def Base64URLDecode_def base64EncodeImpl_core base64_stripped_roundtrip [OF b64_pairs(2)])


text \<open>Beyond 4 GB the groups start again: group 1431655766 is made of the bytes from 2 on.\<close>

lemma b64_index_wraps:
  "b64_group chars bs 1431655766 = map (\<lambda>k. chars ! unat k) (b64_split (b64_byte bs 2) (b64_byte bs 3) (b64_byte bs 4))"
  by (simp add: b64_group_def Let_def)

lemma b64_overrun: "3 * 2 ^ 32 \<le> length bs \<Longrightarrow> base64EncodeImpl chars bs = Inl OutOfBounds"
  by (simp add: base64EncodeImpl_def Let_def b64_missing_sum)

text \<open>The two URL decoders part on a \<open>%\<close> with less than two bytes behind it.\<close>

lemma URLDecode_differ: "URLDecode [0x61, 0x25, 0x34] = [0x61, 0x34]" "URLDecode_str [0x61, 0x25, 0x34] = [0x61, 0x25, 0x34]"
  by simp_all

section \<open>PKCS5 padding\<close>

text \<open>\<open>data\<close> is the memory from the pointer on; \<open>strlen\<close> is the position of its first zero.\<close>

fun strlen :: "bytes \<Rightarrow> mem_error + nat" where
  "strlen [] = Inl OutOfBounds"
| "strlen (b # bs) = (if b = 0 then Inr 0 else case strlen bs of Inl e \<Rightarrow> Inl e | Inr n \<Rightarrow> Inr (Suc n))"

definition PKCS5Pad :: "bytes \<Rightarrow> nat \<Rightarrow> mem_error + bytes" where
  "PKCS5Pad data block_size =
    (case strlen data of
       Inl e \<Rightarrow> Inl e
     | Inr len \<Rightarrow>
         let pad = (word_of_nat (block_size - len mod block_size) :: u8)
         in if len + unat pad > length data then Inl OutOfBounds
            else Inr (blit len (replicate (unat pad) pad) data))"

definition PKCS5Unpad :: "bytes \<Rightarrow> nat \<Rightarrow> mem_error + bytes" where
  "PKCS5Unpad data block_size =
    (case strlen data of
       Inl e \<Rightarrow> Inl e
     | Inr len \<Rightarrow>
         if len = 0 then Inl OutOfBounds
         else
           let pad = data ! (len - 1)
           in if unat pad < block_size then
                (if unat pad > len then Inl OutOfBounds
                 else Inr (fill (len - unat pad) (unat pad) 0 data))
              else Inr data)"

lemma strlen_text: "0 \<notin> set t \<Longrightarrow> strlen (t @ 0 # r) = Inr (length t)"
  by (induction t) auto

lemma PKCS5Pad_text:
  assumes "0 \<notin> set t" and "0 < block_size" and "block_size < 256" and "block_size \<le> length z" and "z = replicate (length z) 0"
    and "pad = block_size - length t mod block_size"
  shows "PKCS5Pad (t @ z) block_size = Inr (t @ replicate pad (word_of_nat pad) @ replicate (length z - pad) 0)"
proof -
  have pad: "0 < pad" "pad \<le> block_size" using assms(2,6) by simp_all
  then have u: "unat (word_of_nat pad :: u8) = pad" using assms(3) by (simp add: unat_of_nat)
  obtain n where "length z = Suc n" using assms(2,4) by (cases "length z") auto
  with assms(5) have z: "z = 0 # replicate n 0" by (metis replicate_Suc)
  then have "strlen (t @ z) = Inr (length t)" by (simp add: strlen_text [OF assms(1)])
  moreover have "blit (length t) (replicate pad (word_of_nat pad)) (t @ z)
      = t @ replicate pad (word_of_nat pad) @ replicate (length z - pad) (0 :: u8)"
    using assms(5) by (simp add: blit_def) (metis drop_replicate)
  ultimately show ?thesis using pad u assms(4) unfolding assms(6) [symmetric]
    by (simp add: PKCS5Pad_def assms(6) [symmetric])
qed

text \<open>Padding then unpadding gives the text back when its length is no multiple of the block size; when
  it is, \<open>PKCS5Pad\<close> adds a whole block and \<open>PKCS5Unpad\<close>, which compares with \<open><\<close>, leaves that block
  in place.  The text has no zero byte and is followed by enough zeros.\<close>

theorem PKCS5_roundtrip:
  assumes "0 \<notin> set t" and "0 < block_size" and "block_size < 256" and "block_size < n"
  shows "\<exists>d. PKCS5Pad (t @ replicate n 0) block_size = Inr d \<and>
    PKCS5Unpad d block_size = Inr (if length t mod block_size = 0
      then t @ replicate block_size (word_of_nat block_size) @ replicate (n - block_size) 0 else t @ replicate n 0)"
proof -
  obtain k where k: "k = block_size - length t mod block_size" by blast
  let ?pad = k and ?z = "replicate n (0 :: u8)"
  let ?p = "word_of_nat ?pad :: u8" and ?d = "t @ replicate ?pad (word_of_nat ?pad) @ replicate (n - ?pad) (0 :: u8)"
  have pad: "0 < ?pad" "?pad \<le> block_size" using assms(2) k by simp_all
  then have u: "unat ?p = ?pad" using assms(3) by (simp add: unat_of_nat)
  then have nz: "?p \<noteq> 0" using pad by auto
  have run: "PKCS5Pad (t @ ?z) block_size = Inr ?d"
    using PKCS5Pad_text [OF assms(1-3) _ _ k, of ?z] assms(4) by simp
  obtain m where m: "n - ?pad = Suc m" using pad assms(4) by (cases "n - ?pad") auto
  have d: "?d = (t @ replicate ?pad ?p) @ 0 # replicate m 0" using m by simp
  have len: "strlen ?d = Inr (length t + ?pad)"
    unfolding d by (subst strlen_text) (use assms(1) nz in auto)
  have last: "?d ! (length t + ?pad - 1) = ?p"
  proof -
    have i: "length t + ?pad - 1 = length t + (?pad - 1)" using pad by simp
    have j: "?pad - 1 < ?pad" using pad by simp
    show ?thesis unfolding i nth_append_length_plus using j
      by (simp only: nth_append length_replicate if_True nth_replicate)
  qed
  show ?thesis
  proof (cases "length t mod block_size = 0")
    case True
    then have "?pad = block_size" using k by simp
    then have "PKCS5Unpad ?d block_size = Inr ?d"
      using len last u pad by (simp add: PKCS5Unpad_def)
    with run True \<open>?pad = block_size\<close> show ?thesis by simp
  next
    case False
    then have lt: "?pad < block_size" using assms(2) k by simp
    have "fill (length t) ?pad 0 ?d = t @ replicate ?pad 0 @ replicate (n - ?pad) 0"
      by (simp add: fill_def blit_def)
    also have "\<dots> = t @ ?z" using pad assms(4) by (simp flip: replicate_add)
    finally have "PKCS5Unpad ?d block_size = Inr (t @ ?z)"
      using len last u lt pad by (simp add: PKCS5Unpad_def Let_def)
    with run False show ?thesis by auto
  qed
qed

theorem PKCS5_roundtrip_witness:
  "\<exists>d. PKCS5Pad ([1, 2, 3, 4] @ replicate 9 0) 4 = Inr d \<and> PKCS5Unpad d 4 = Inr ([1, 2, 3, 4] @ replicate 4 4 @ replicate 5 0)"
  using PKCS5_roundtrip [of "[1, 2, 3, 4]" 4 9] by simp

end
