(* ===== verification/StrUtil.thy ===== *)
theory StrUtil
  imports StrCodec "HOL-Library.Signed_Division"
begin

unbundle bit_operations_syntax

text \<open>
  The text functions of \<open>ZmString\<close> in \<open>util/zm_util_str.cpp\<close>: tests, case, number formatting, search,
  wildcard match, trimming, replacement, hash and ticket check.  A \<open>string_view\<close> is its list of bytes,
  a C string that may be \<open>NULL\<close> is an optional list, and memory behind a \<open>char*\<close> is a list of bytes
  that holds the terminating zero.
\<close>

section \<open>The library functions used\<close>

text \<open>\<open>(int)n\<close> of a \<open>size_t\<close>, 32 bits wide.\<close>

definition c_int :: "nat \<Rightarrow> int" where
  "c_int n = sint (word_of_nat n :: u32)"

text \<open>\<open>std::string::find\<close> from a position on.\<close>

definition occurs_at :: "bytes \<Rightarrow> bytes \<Rightarrow> nat \<Rightarrow> bool" where
  "occurs_at hay needle i \<longleftrightarrow> i + length needle \<le> length hay \<and> take (length needle) (drop i hay) = needle"

definition std_find :: "bytes \<Rightarrow> bytes \<Rightarrow> nat \<Rightarrow> nat option" where
  "std_find hay needle from = find (occurs_at hay needle) [from..<Suc (length hay)]"

text \<open>\<open>isspace\<close> of a \<open>char\<close>: its argument has to be an unsigned char or \<open>EOF\<close>, so that of the bytes from
  0x80 on, negative as \<open>char\<close>, only 0xFF is allowed.\<close>

definition is_blank :: "u8 \<Rightarrow> bool" where
  "is_blank c \<longleftrightarrow> c = 0x20 \<or> (0x09 \<le> c \<and> c \<le> 0x0D)"

definition isspace :: "u8 \<Rightarrow> mem_error + bool" where
  "isspace c = (if 0x80 \<le> c \<and> c \<noteq> 0xFF then Inl OutOfBounds else Inr (is_blank c))"

section \<open>Tests and case\<close>

definition easyToLower :: "u8 \<Rightarrow> u8" where
  "easyToLower c = (if 0x41 \<le> c \<and> c \<le> 0x5A then c - 0x41 + 0x61 else c)"

definition easyToUpper :: "u8 \<Rightarrow> u8" where
  "easyToUpper c = (if 0x61 \<le> c \<and> c \<le> 0x7A then c - 0x61 + 0x41 else c)"

definition Lower :: "bytes \<Rightarrow> bytes" where
  "Lower = map easyToLower"

definition Upper :: "bytes \<Rightarrow> bytes" where
  "Upper = map easyToUpper"

definition IsEmpty :: "bytes option \<Rightarrow> bool" where
  "IsEmpty str \<longleftrightarrow> (case str of None \<Rightarrow> True | Some s \<Rightarrow> s = [])"

definition Equals :: "bytes option \<Rightarrow> bytes option \<Rightarrow> bool \<Rightarrow> bool" where
  "Equals s1 s2 ignoreCase \<longleftrightarrow>
    (case s1 of
       None \<Rightarrow> s2 = None
     | Some a \<Rightarrow> (case s2 of None \<Rightarrow> False | Some b \<Rightarrow> if ignoreCase then Lower a = Lower b else a = b))"

fun IsNumeric_loop :: "bytes \<Rightarrow> bool" where
  "IsNumeric_loop [] \<longleftrightarrow> True"
| "IsNumeric_loop (c # r) \<longleftrightarrow> (if c < 0x30 \<or> c > 0x39 then False else IsNumeric_loop r)"

definition IsNumeric :: "bytes \<Rightarrow> bool" where
  "IsNumeric str \<longleftrightarrow> str \<noteq> [] \<and> IsNumeric_loop str"

fun HasExtendedAscii :: "bytes \<Rightarrow> bool" where
  "HasExtendedAscii [] \<longleftrightarrow> False"
| "HasExtendedAscii (c # r) \<longleftrightarrow> (if c AND 0x80 \<noteq> 0 then True else HasExtendedAscii r)"

text \<open>\<open>IsUTF8\<close>: the lead byte gives the expected length, 0 stands for \<open>return false\<close>.\<close>

definition utf8_expected :: "u8 \<Rightarrow> nat" where
  "utf8_expected b =
    (if b AND 0x80 = 0x00 then 1
     else if b AND 0xE0 = 0xC0 then 2
     else if b AND 0xF0 = 0xE0 then 3
     else if b AND 0xF8 = 0xF0 then 4
     else if b AND 0xFC = 0xF8 then 5
     else if b AND 0xFE = 0xFC then 6
     else 0)"

fun utf8_tail :: "nat \<Rightarrow> bytes \<Rightarrow> bytes option" where
  "utf8_tail 0 s = Some s"
| "utf8_tail (Suc n) [] = None"
| "utf8_tail (Suc n) (b # s) = (if b AND 0xC0 \<noteq> 0x80 then None else utf8_tail n s)"

lemma utf8_tail_length: "utf8_tail n s = Some r \<Longrightarrow> length r \<le> length s"
  by (induction n s rule: utf8_tail.induct) (auto split: if_splits intro: le_SucI)

function IsUTF8_loop :: "bytes \<Rightarrow> bool" where
  "IsUTF8_loop [] \<longleftrightarrow> True"
| "IsUTF8_loop (b # s) \<longleftrightarrow>
    (if utf8_expected b = 0 then False
     else case utf8_tail (utf8_expected b - 1) s of None \<Rightarrow> False | Some r \<Rightarrow> IsUTF8_loop r)"
  by pat_completeness auto
termination
  by (relation "measure length") (auto dest: utf8_tail_length simp: less_Suc_eq_le)

definition IsUTF8 :: "bytes option \<Rightarrow> bool" where
  "IsUTF8 str \<longleftrightarrow>
    (case str of
       None \<Rightarrow> False
     | Some s \<Rightarrow> if length s < 1 then False else if list_all (\<lambda>b. b AND 0x80 = 0) s then True else IsUTF8_loop s)"

definition LongerThan :: "bytes \<Rightarrow> nat \<Rightarrow> bool" where
  "LongerThan str len \<longleftrightarrow> length str > len"

section \<open>Search\<close>

definition Find :: "bytes \<Rightarrow> bytes \<Rightarrow> nat \<Rightarrow> int" where
  "Find haystack needle offset =
    (if haystack = [] \<or> needle = [] then -1
     else if offset \<ge> length haystack then -1
     else case std_find (drop offset haystack) needle 0 of Some pos \<Rightarrow> c_int (pos + offset) | None \<Rightarrow> -1)"

text \<open>The loop of \<open>RFind\<close> counts an \<open>int\<close> down; the list is never read outside for a size up to $2^{31}$.\<close>

fun RFind_loop :: "bytes \<Rightarrow> u8 \<Rightarrow> nat \<Rightarrow> int" where
  "RFind_loop hay needle 0 = -1"
| "RFind_loop hay needle (Suc i) = (if hay ! i = needle then int i else RFind_loop hay needle i)"

definition RFind :: "bytes \<Rightarrow> u8 \<Rightarrow> int" where
  "RFind haystack needle = (if haystack = [] then -1 else RFind_loop haystack needle (nat (c_int (length haystack - 1) + 1)))"

definition Pos :: "bytes \<Rightarrow> bytes \<Rightarrow> int" where
  "Pos haystack needle =
    (if haystack \<noteq> [] \<and> needle \<noteq> []
     then (case std_find haystack needle 0 of Some pos \<Rightarrow> c_int pos | None \<Rightarrow> -1) else -1)"

definition StartsWith :: "bytes \<Rightarrow> bytes \<Rightarrow> bool" where
  "StartsWith base front \<longleftrightarrow> length base \<ge> length front \<and> take (length front) base = front"

definition EndsWith :: "bytes \<Rightarrow> bytes \<Rightarrow> bool" where
  "EndsWith base back \<longleftrightarrow> length base \<ge> length back \<and> drop (length base - length back) base = back"

text \<open>\<open>WildcardMatch\<close>: \<open>pattern[0]\<close> of an empty view reads the byte behind the view, \<open>past\<close>, which is the
  terminating zero for a literal or a \<open>std::string\<close> and undefined (\<open>None\<close>) otherwise; \<open>substr(1)\<close> of an
  empty view throws.\<close>

definition view_head :: "u8 option \<Rightarrow> bytes \<Rightarrow> mem_error + u8" where
  "view_head past p = (case p of c # _ \<Rightarrow> Inr c | [] \<Rightarrow> (case past of Some c \<Rightarrow> Inr c | None \<Rightarrow> Inl OutOfBounds))"

function WildcardMatch :: "u8 option \<Rightarrow> bytes \<Rightarrow> bytes \<Rightarrow> mem_error + bool" where
  "WildcardMatch past subject pat =
    (if pat = [] \<and> subject = [] then Inr True
     else case view_head past pat of
       Inl e \<Rightarrow> Inl e
     | Inr p0 \<Rightarrow>
         if p0 = 0x2A \<and> length pat > 1 \<and> subject = [] then Inr False
         else if p0 = 0x3F \<or> (pat \<noteq> [] \<and> subject \<noteq> [] \<and> p0 = hd subject) then
           (if subject = [] \<or> pat = [] then Inl OutOfRange
            else WildcardMatch past (tl subject) (tl pat))
         else if p0 = 0x2A then
           (if pat = [] then Inl OutOfRange
            else case WildcardMatch past subject (tl pat) of
              Inl e \<Rightarrow> Inl e
            | Inr True \<Rightarrow> Inr True
            | Inr False \<Rightarrow> if subject \<noteq> [] then WildcardMatch past (tl subject) pat else Inr False)
         else Inr False)"
  by pat_completeness auto
termination
  by (relation "measure (\<lambda>(past, s, p). length s + length p)") (auto simp: neq_Nil_conv split: list.splits)

declare WildcardMatch.simps [simp del]

subsection \<open>UTF-8\<close>

text \<open>The byte sequences \<open>IsUTF8\<close> looks for: a lead byte and as many continuation bytes as it announces.\<close>

definition utf8_seq :: "bytes \<Rightarrow> bool" where
  "utf8_seq c \<longleftrightarrow> c \<noteq> [] \<and> utf8_expected (hd c) = length c \<and> list_all (\<lambda>b. b AND 0xC0 = 0x80) (tl c)"

lemma utf8_tail_Some:
  "utf8_tail n s = Some r \<longleftrightarrow> (\<exists>t. s = t @ r \<and> length t = n \<and> list_all (\<lambda>b. b AND 0xC0 = 0x80) t)"
proof (induction n s rule: utf8_tail.induct)
  case (3 n b s)
  show ?case
  proof
    assume "utf8_tail (Suc n) (b # s) = Some r"
    then have "b AND 0xC0 = 0x80" "utf8_tail n s = Some r" by (auto split: if_splits)
    with 3 obtain t where "s = t @ r" "length t = n" "list_all (\<lambda>b. b AND 0xC0 = 0x80) t" by auto
    with \<open>b AND 0xC0 = 0x80\<close> show "\<exists>t. b # s = t @ r \<and> length t = Suc n \<and> list_all (\<lambda>b. b AND 0xC0 = 0x80) t"
      by (intro exI [of _ "b # t"]) simp
  next
    assume "\<exists>t. b # s = t @ r \<and> length t = Suc n \<and> list_all (\<lambda>b. b AND 0xC0 = 0x80) t"
    then obtain t where "b # s = t @ r" "length t = Suc n" "list_all (\<lambda>b. b AND 0xC0 = 0x80) t" by blast
    then show "utf8_tail (Suc n) (b # s) = Some r" using 3 by (cases t) auto
  qed
qed auto

lemma IsUTF8_loop_iff: "IsUTF8_loop s \<longleftrightarrow> (\<exists>cs. concat cs = s \<and> list_all utf8_seq cs)"
proof
  show "IsUTF8_loop s \<Longrightarrow> \<exists>cs. concat cs = s \<and> list_all utf8_seq cs"
  proof (induction s rule: IsUTF8_loop.induct)
    case (2 b s)
    then have lead: "utf8_expected b \<noteq> 0" by (auto split: if_splits)
    with 2(2) obtain r where r: "utf8_tail (utf8_expected b - 1) s = Some r" "IsUTF8_loop r"
      by (auto split: option.splits)
    with 2(1) lead obtain cs where cs: "concat cs = r" "list_all utf8_seq cs" by blast
    obtain t where t: "s = t @ r" "length t = utf8_expected b - 1" "list_all (\<lambda>b. b AND 0xC0 = 0x80) t"
      using r(1) by (auto simp: utf8_tail_Some)
    with lead have "utf8_seq (b # t)" by (simp add: utf8_seq_def)
    with cs t show ?case by (intro exI [of _ "(b # t) # cs"]) simp
  qed (auto intro: exI [of _ "[]"])
next
  have "list_all utf8_seq cs \<Longrightarrow> IsUTF8_loop (concat cs)" for cs
  proof (induction cs)
    case (Cons c cs)
    then obtain b t where c: "c = b # t" by (cases c) (auto simp: utf8_seq_def)
    with Cons have "utf8_expected b = Suc (length t)" "list_all (\<lambda>b. b AND 0xC0 = 0x80) t"
      by (auto simp: utf8_seq_def)
    then have "utf8_tail (utf8_expected b - 1) (t @ concat cs) = Some (concat cs)"
      by (auto simp: utf8_tail_Some)
    with Cons c \<open>utf8_expected b = Suc (length t)\<close> show ?case by simp
  qed simp
  then show "\<exists>cs. concat cs = s \<and> list_all utf8_seq cs \<Longrightarrow> IsUTF8_loop s" by blast
qed

lemma IsUTF8_ascii: "list_all (\<lambda>b. b AND 0x80 = 0) s \<Longrightarrow> IsUTF8_loop s"
  by (induction s) (auto simp: utf8_expected_def)

text \<open>\<open>IsUTF8\<close> accepts exactly the non-empty byte strings that are cut into sequences of a lead byte and
  its continuation bytes.  That is more than UTF-8: an overlong two byte zero, a surrogate half and a five
  byte sequence pass.\<close>

theorem IsUTF8_accepts:
  "(IsUTF8 (Some s) \<longleftrightarrow> s \<noteq> [] \<and> (\<exists>cs. concat cs = s \<and> list_all utf8_seq cs)) \<and> \<not> IsUTF8 None \<and>
   IsUTF8 (Some [0xC0, 0x80]) \<and> IsUTF8 (Some [0xED, 0xA0, 0x80]) \<and> IsUTF8 (Some [0xF8, 0x80, 0x80, 0x80, 0x80])"
proof (intro conjI)
  show "IsUTF8 (Some s) \<longleftrightarrow> s \<noteq> [] \<and> (\<exists>cs. concat cs = s \<and> list_all utf8_seq cs)"
    using IsUTF8_ascii [of s] by (auto simp: IsUTF8_def IsUTF8_loop_iff [symmetric] Suc_le_eq)
qed (code_simp+)

subsection \<open>Wildcards\<close>

text \<open>What a pattern means.\<close>

inductive glob :: "bytes \<Rightarrow> bytes \<Rightarrow> bool" where
  nil: "glob [] []"
| star: "glob p t \<Longrightarrow> glob (0x2A # p) (u @ t)"
| any: "glob p s \<Longrightarrow> glob (0x3F # p) (c # s)"
| lit: "glob p s \<Longrightarrow> c \<noteq> 0x2A \<Longrightarrow> c \<noteq> 0x3F \<Longrightarrow> glob (c # p) (c # s)"

inductive_simps glob_nil_pat: "glob [] s"
inductive_simps glob_star_pat: "glob (0x2A # p) s"
inductive_simps glob_any_pat: "glob (0x3F # p) s"
inductive_simps glob_lit_pat: "glob (c # p) s"

lemma glob_star_unfold: "glob (0x2A # p) s \<longleftrightarrow> glob p s \<or> (s \<noteq> [] \<and> glob (0x2A # p) (tl s))"
proof
  assume "glob (0x2A # p) s"
  then obtain u t where s: "s = u @ t" "glob p t" by (auto simp: glob_star_pat)
  show "glob p s \<or> (s \<noteq> [] \<and> glob (0x2A # p) (tl s))"
    using s by (cases u) (auto intro: glob.star)
next
  assume "glob p s \<or> (s \<noteq> [] \<and> glob (0x2A # p) (tl s))"
  then show "glob (0x2A # p) s"
  proof
    assume "glob p s" then show ?thesis using glob.star [of p s "[]"] by simp
  next
    assume a: "s \<noteq> [] \<and> glob (0x2A # p) (tl s)"
    then obtain u t where "tl s = u @ t" "glob p t" by (auto simp: glob_star_pat)
    with a glob.star [of p t "hd s # u"] show ?thesis by (cases s) simp_all
  qed
qed

lemma glob_nil_subject: "glob (c # p) [] \<longleftrightarrow> c = 0x2A \<and> glob p []"
  by (subst glob_lit_pat) auto

lemma glob_one: "c \<noteq> 0x2A \<Longrightarrow> glob (c # p) (d # s) \<longleftrightarrow> (c = 0x3F \<or> c = d) \<and> glob p s"
  by (subst glob_lit_pat) auto

lemma glob_self: "glob p s \<Longrightarrow> glob (c # p) (c # s)"
  using glob.star [of p s "[c]"] by (cases "c = 0x2A") (auto simp: glob_one)

definition no_double_star :: "bytes \<Rightarrow> bool" where
  "no_double_star = successively (\<lambda>a b. a \<noteq> 0x2A \<or> b \<noteq> 0x2A)"

lemma no_double_star_tl: "no_double_star (c # p) \<Longrightarrow> no_double_star p"
  by (cases p) (simp_all add: no_double_star_def)

lemma WildcardMatch_sound: "WildcardMatch past s p = Inr True \<Longrightarrow> glob p s"
proof (induction past s p rule: WildcardMatch.induct)
  case (1 past s p)
  show ?case
  proof (cases p)
    case Nil
    with 1(4) show ?thesis
      by (subst (asm) WildcardMatch.simps) (auto simp: glob.nil view_head_def split: if_splits sum.splits)
  next
    case p: (Cons c q)
    have head: "view_head past p = Inr c" by (simp add: view_head_def p)
    consider (one) d t where "s = d # t" "c = 0x3F \<or> c = d" "WildcardMatch past t q = Inr True"
      | (skip) "c = 0x2A" "WildcardMatch past s q = Inr True"
      | (eat) d t where "c = 0x2A" "c \<noteq> d" "s = d # t" "WildcardMatch past s q = Inr False" "WildcardMatch past t p = Inr True"
      using 1(4) p head
      by (subst (asm) WildcardMatch.simps) (cases s; auto split: if_splits sum.splits bool.splits)
    then show ?thesis
    proof cases
      case one
      then have "glob q t" using 1(1) [OF _ head] p by auto
      with one p show ?thesis by (auto intro: glob_self glob.any)
    next
      case skip
      have "WildcardMatch past s p = Inr True" by (rule 1)
      with skip p have "s \<noteq> [] \<or> q = []"
        by (subst (asm) WildcardMatch.simps) (auto simp: view_head_def split: if_splits)
      show ?thesis
      proof (cases "s \<noteq> [] \<and> hd s = c")
        case False
        with skip \<open>s \<noteq> [] \<or> q = []\<close> have "glob q s" using 1(2) [OF _ head] p by (auto simp: neq_Nil_conv)
        with skip p show ?thesis by (simp add: glob_star_unfold [of q s])
      next
        case True
        then obtain t where s: "s = c # t" by (cases s) auto
        with 1(4) p head skip have "WildcardMatch past t q = Inr True"
          by (subst (asm) WildcardMatch.simps) simp
        then have "glob q t" using 1(1) [OF _ head] p s skip by auto
        with s p show ?thesis by (auto intro: glob_self)
      qed
    next
      case eat
      then have "glob p t" using 1(3) [OF _ head, of False] p by auto
      with eat p show ?thesis by (simp add: glob_star_unfold [of q "d # t"])
    qed
  qed
qed

lemma WildcardMatch_exact:
  "WildcardMatch past s p = Inr b \<Longrightarrow> 0x2A \<notin> set s \<Longrightarrow> no_double_star p \<Longrightarrow> b \<longleftrightarrow> glob p s"
proof (induction past s p arbitrary: b rule: WildcardMatch.induct)
  case (1 past s p)
  show ?case
  proof (cases p)
    case Nil
    with 1(4) show ?thesis
      by (subst (asm) WildcardMatch.simps)
        (auto simp: glob_nil_pat view_head_def split: if_splits option.splits sum.splits)
  next
    case p: (Cons c q)
    have head: "view_head past p = Inr c" by (simp add: view_head_def p)
    have nds: "no_double_star q" using 1(6) p by (auto dest: no_double_star_tl)
    show ?thesis
    proof (cases s)
      case Nil
      show ?thesis
      proof (cases "c = 0x2A")
        case True
        have "q \<noteq> [] \<Longrightarrow> \<not> glob q []"
          using 1(6) p True by (auto simp: neq_Nil_conv glob_nil_subject no_double_star_def)
        moreover have "q = [] \<Longrightarrow> WildcardMatch past [] [] = Inr True" by (subst WildcardMatch.simps) simp
        ultimately show ?thesis using 1(4) Nil p head True
          by (subst (asm) WildcardMatch.simps) (auto simp: glob_nil_subject glob.nil split: if_splits)
      next
        case False
        with 1(4) Nil p head show ?thesis
          by (subst (asm) WildcardMatch.simps) (auto simp: glob_nil_subject split: if_splits)
      qed
    next
      case s: (Cons d t)
      then have star: "0x2A \<notin> set t" "d \<noteq> 0x2A" using 1(5) by auto
      show ?thesis
      proof (cases "c = 0x2A")
        case False
        show ?thesis
        proof (cases "c = 0x3F \<or> c = d")
          case True
          then have "WildcardMatch past t q = Inr b"
            using 1(4) s p head False by (subst (asm) WildcardMatch.simps) (auto split: if_splits)
          then have "b \<longleftrightarrow> glob q t" using 1(1) [OF _ head] p s star nds True False by auto
          then show ?thesis using False True p s by (simp add: glob_one)
        next
          case no: False
          with 1(4) s p head False show ?thesis by (subst (asm) WildcardMatch.simps) (simp add: glob_one)
        qed
      next
        case True
        have first: "WildcardMatch past s q = Inr x \<Longrightarrow> x \<longleftrightarrow> glob q s" for x
          using 1(2) [OF _ head] p s star nds True 1(5) by auto
        have rest: "WildcardMatch past s q = Inr False \<Longrightarrow> WildcardMatch past t p = Inr x \<Longrightarrow> x \<longleftrightarrow> glob p t" for x
          using 1(3) [OF _ head, of False x] p s star nds True 1(5,6) by auto
        show ?thesis
          using 1(4) s p head True star first rest glob_star_unfold [of q s]
          by (subst (asm) WildcardMatch.simps) (auto split: sum.splits bool.splits)
      qed
    qed
  qed
qed

lemma WildcardMatch_total:
  "0x3F \<notin> set p \<Longrightarrow> past = Some z \<Longrightarrow> z \<noteq> 0x3F \<Longrightarrow> z \<noteq> 0x2A \<Longrightarrow> \<exists>b. WildcardMatch past s p = Inr b"
proof (induction past s p rule: WildcardMatch.induct)
  case (1 past s p)
  show ?case
  proof (cases p)
    case Nil
    with 1 show ?thesis by (subst WildcardMatch.simps) (auto simp: view_head_def)
  next
    case p: (Cons c q)
    have head: "view_head past p = Inr c" by (simp add: view_head_def p)
    show ?thesis
    proof (cases "s \<noteq> [] \<and> hd s = c")
      case True
      then have "\<exists>b. WildcardMatch past (tl s) q = Inr b" using 1(1) [OF _ head] 1(4-7) p by auto
      with True p head show ?thesis by (subst WildcardMatch.simps) auto
    next
      case False
      show ?thesis
      proof (cases "c = 0x2A \<and> (s \<noteq> [] \<or> q = [])")
        case True
        then obtain b where b: "WildcardMatch past s q = Inr b" using 1(2) [OF _ head] 1(4-7) p False by auto
        moreover have "b = False \<Longrightarrow> s \<noteq> [] \<Longrightarrow> \<exists>x. WildcardMatch past (tl s) p = Inr x"
          using 1(3) [OF _ head, of False] 1(4-7) p False True b by auto
        ultimately show ?thesis using True False p head
          by (subst WildcardMatch.simps) (auto split: bool.splits)
      next
        case no: False
        with False p head 1(4) show ?thesis by (subst WildcardMatch.simps) auto
      qed
    qed
  qed
qed

text \<open>A match \<open>WildcardMatch\<close> reports is one; when the subject has no \<open>*\<close> and the pattern no \<open>**\<close>, the
  answer is exact, and it is given whenever the pattern has no \<open>?\<close> and a zero stands behind it.  Without
  those conditions matches are missed, and a pattern with \<open>?\<close> longer than the subject throws.\<close>

theorem WildcardMatch_correct:
  assumes "0x2A \<notin> set s" and "no_double_star p"
  shows "(WildcardMatch past s p = Inr b \<longrightarrow> b = glob p s) \<and>
    (0x3F \<notin> set p \<longrightarrow> WildcardMatch (Some 0) s p = Inr (glob p s)) \<and>
    (WildcardMatch past s' p' = Inr True \<longrightarrow> glob p' s')"
proof (intro conjI impI)
  assume "0x3F \<notin> set p"
  then obtain x where "WildcardMatch (Some 0) s p = Inr x" using WildcardMatch_total [of p "Some 0" 0 s] by auto
  with WildcardMatch_exact [OF this assms] show "WildcardMatch (Some 0) s p = Inr (glob p s)" by simp
qed (use WildcardMatch_exact [OF _ assms] WildcardMatch_sound in auto)

theorem WildcardMatch_correct_witness:
  "WildcardMatch (Some 0) (ascii ''test.txt'') (ascii ''*.txt'') = Inr (glob (ascii ''*.txt'') (ascii ''test.txt''))"
  using WildcardMatch_correct [of "ascii ''test.txt''" "ascii ''*.txt''"] by (auto simp: no_double_star_def char_byte_def)

lemma WildcardMatch_flaws:
  "WildcardMatch (Some 0) (ascii ''a'') (ascii ''a**'') = Inr False" "glob (ascii ''a**'') (ascii ''a'')"
  "WildcardMatch (Some 0) (ascii ''*a'') (ascii ''*'') = Inr False" "glob (ascii ''*'') (ascii ''*a'')"
  "WildcardMatch (Some 0) (ascii ''a'') (ascii ''a?'') = Inl OutOfRange"
  "WildcardMatch None (ascii ''ab'') (ascii ''a'') = Inl OutOfBounds"
proof -
  have lits: "char_byte CHR ''a'' = 0x61" "char_byte CHR ''b'' = 0x62" "char_byte CHR ''*'' = 0x2A" "char_byte CHR ''?'' = 0x3F"
    by (simp_all add: char_byte_def)
  show "glob (ascii ''a**'') (ascii ''a'')"
    using glob.lit [OF glob.star [OF glob.star [OF glob.nil, of "[]"], of "[]"], of "0x61"] by (simp add: lits)
  show "glob (ascii ''*'') (ascii ''*a'')"
    using glob.star [OF glob.nil, of "[0x2A, 0x61]"] by (simp add: lits)
qed (code_simp+)

end
