(* ===== verification/StrEdit.thy ===== *)
theory StrEdit
  imports StrUtil
begin

unbundle bit_operations_syntax

text \<open>
  The rest of \<open>ZmString\<close>: number formatting, trimming, replacement, the hash and the ticket check, with
  \<open>zm_strsep\<close>.  Loops that need not end (\<open>spp\<close>, \<open>Replace\<close>) are partial functions, \<open>None\<close> when they run
  for ever.
\<close>

section \<open>Number formatting\<close>

text \<open>\<open>long\<close> has 32 bits on Windows.  The magnitude goes back into a \<open>long\<close>, where that of the least
  number does not fit; for a radix other than 10 a negative number keeps its sign.\<close>

definition lta_uarg :: "int \<Rightarrow> int \<Rightarrow> int" where
  "lta_uarg num radix = (if radix = 10 \<and> num < 0 then sint (word_of_int (- (num + 1)) + 1 :: u32) else num)"

definition lta_digit :: "int \<Rightarrow> u8" where
  "lta_digit r = word_of_int (r + (if 9 < r then 65 - 10 else 48))"

text \<open>\<open>room\<close> is what is left of the 32 characters before the terminator of \<open>buf\<close>; \<open>ldiv\<close> truncates.\<close>

fun lta_loop :: "nat \<Rightarrow> int \<Rightarrow> int \<Rightarrow> bytes \<Rightarrow> mem_error + bytes" where
  "lta_loop 0 uarg radix acc = (if uarg = 0 then Inr acc else Inl OutOfBounds)"
| "lta_loop (Suc room) uarg radix acc =
    (if uarg = 0 then Inr acc
     else lta_loop room (uarg sdiv radix) radix (lta_digit (uarg smod radix) # acc))"

text \<open>The memory behind the result: \<open>str\<close>, or the static buffer of 33 bytes.  A zero is written behind the
  terminator too.\<close>

definition L_To_A :: "int \<Rightarrow> bytes option \<Rightarrow> int \<Rightarrow> mem_error + bytes" where
  "L_To_A num str radix0 =
    (let head = (case str of Some m \<Rightarrow> m | None \<Rightarrow> replicate 33 0);
         radix = (if 36 < radix0 \<or> 2 > radix0 then 10 else radix0);
         sign = (if radix = 10 \<and> num < 0 then [0x2D] else []);
         uarg = lta_uarg num radix
     in case (if uarg \<noteq> 0 then lta_loop 32 uarg radix [] else Inr [0x30]) of
          Inl e \<Rightarrow> Inl e
        | Inr digits \<Rightarrow>
            (let out = sign @ digits @ [0, 0]
             in if length out > length head then Inl OutOfBounds else Inr (blit 0 out head)))"

section \<open>Trimming\<close>

fun trim_skip :: "bytes \<Rightarrow> mem_error + nat" where
  "trim_skip [] = Inl OutOfBounds"
| "trim_skip (c # r) =
    (case isspace c of
       Inl e \<Rightarrow> Inl e
     | Inr False \<Rightarrow> Inr 0
     | Inr True \<Rightarrow> (case trim_skip r of Inl e \<Rightarrow> Inl e | Inr n \<Rightarrow> Inr (Suc n)))"

fun trim_back :: "bytes \<Rightarrow> nat \<Rightarrow> mem_error + nat" where
  "trim_back s 0 = Inr 0"
| "trim_back s (Suc k) =
    (case isspace (s ! Suc k) of
       Inl e \<Rightarrow> Inl e
     | Inr False \<Rightarrow> Inr (Suc k)
     | Inr True \<Rightarrow> trim_back s k)"

text \<open>\<open>Trim\<close> returns a pointer into the memory, here its offset, and the memory.\<close>

definition Trim :: "bytes \<Rightarrow> mem_error + (nat \<times> bytes)" where
  "Trim m =
    (case trim_skip m of
       Inl e \<Rightarrow> Inl e
     | Inr i \<Rightarrow>
         (let s = drop i m
          in if s ! 0 = 0 then Inr (i, m)
             else case strlen s of
                    Inl e \<Rightarrow> Inl e
                  | Inr n \<Rightarrow>
                      (case trim_back s (n - 1) of
                         Inl e \<Rightarrow> Inl e
                       | Inr k \<Rightarrow> Inr (i, m[i + k + 1 := 0]))))"

definition g_strBlanks :: bytes where
  "g_strBlanks = map word_of_nat [1..<33]"

text \<open>\<open>std::string::find_first_not_of\<close> and \<open>find_last_not_of\<close>.\<close>

definition find_first_not_of :: "bytes \<Rightarrow> bytes \<Rightarrow> nat option" where
  "find_first_not_of s set0 = find (\<lambda>i. \<not> List.member set0 (s ! i)) [0..<length s]"

definition find_last_not_of :: "bytes \<Rightarrow> bytes \<Rightarrow> nat option" where
  "find_last_not_of s set0 = find (\<lambda>i. \<not> List.member set0 (s ! i)) (rev [0..<length s])"

definition TrimEx :: "bytes \<Rightarrow> bytes" where
  "TrimEx str =
    (let s1 = take (case find_last_not_of str g_strBlanks of None \<Rightarrow> 0 | Some i \<Rightarrow> i + 1) str
     in case find_first_not_of s1 g_strBlanks of None \<Rightarrow> [] | Some i \<Rightarrow> drop i s1)"

section \<open>Replacement\<close>

definition str_replace :: "bytes \<Rightarrow> nat \<Rightarrow> nat \<Rightarrow> bytes \<Rightarrow> bytes" where
  "str_replace str pos n dst = take pos str @ dst @ drop (pos + n) str"

partial_function (option) spp_loop :: "bytes \<Rightarrow> bytes \<Rightarrow> nat \<Rightarrow> bytes \<Rightarrow> bytes option" where
  "spp_loop src dst oldPos str =
    (case std_find str src oldPos of
       None \<Rightarrow> Some str
     | Some start \<Rightarrow> spp_loop src dst (start + length dst) (str_replace str start (length src) dst))"

definition spp :: "bytes \<Rightarrow> bytes \<Rightarrow> bytes \<Rightarrow> bytes option" where
  "spp str src dst = spp_loop src dst 0 str"

partial_function (option) Replace_loop :: "bytes \<Rightarrow> bytes \<Rightarrow> bool \<Rightarrow> nat \<Rightarrow> bytes \<Rightarrow> bytes option" where
  "Replace_loop search replace deep offset subject =
    (case std_find subject search offset of
       None \<Rightarrow> Some subject
     | Some pos \<Rightarrow>
         Replace_loop search replace deep (if \<not> deep then pos + length replace else offset)
           (str_replace subject pos (length search) replace))"

definition Replace :: "bytes \<Rightarrow> bytes \<Rightarrow> bytes \<Rightarrow> bool \<Rightarrow> bytes option" where
  "Replace search replace subject deep = Replace_loop search replace deep 0 subject"

section \<open>Hash, tickets, tokens\<close>

definition hash_step :: "u32 \<Rightarrow> u8 \<Rightarrow> u32" where
  "hash_step h0 c =
    (let h = push_bit 4 h0 + ucast c;
         g = h AND 0xF0000000
     in if g \<noteq> 0 then (h XOR g) XOR drop_bit 24 g else h)"

definition Hash :: "bytes \<Rightarrow> u32" where
  "Hash str = foldl hash_step 0 str"

definition is_hex_char :: "u8 \<Rightarrow> bool" where
  "is_hex_char c \<longleftrightarrow> (0x30 \<le> c \<and> c \<le> 0x39) \<or> (0x61 \<le> c \<and> c \<le> 0x66) \<or> (0x41 \<le> c \<and> c \<le> 0x46)"

text \<open>The check works on a copy of the ticket with a zero behind it; the result holds what goes to \<open>output\<close>.\<close>

definition ValidateTicket :: "bytes \<Rightarrow> mem_error + bytes option" where
  "ValidateTicket ticket =
    (if ticket = [] then Inr None
     else case Trim (ticket @ [0]) of
       Inl e \<Rightarrow> Inl e
     | Inr (i, m) \<Rightarrow>
         (case strlen (drop i m) of
            Inl e \<Rightarrow> Inl e
          | Inr n \<Rightarrow>
              if n = 64 then
                (if list_all is_hex_char (take n (drop i m)) then Inr (Some (take 64 (drop i m))) else Inr None)
              else Inr None))"

text \<open>\<open>strpbrk\<close> from a position up to the terminator, then \<open>zm_strsep\<close>: the token's position, the memory and
  the new value of \<open>*stringp\<close>.\<close>

fun strpbrk :: "bytes \<Rightarrow> bytes \<Rightarrow> mem_error + nat option" where
  "strpbrk [] delim = Inl OutOfBounds"
| "strpbrk (c # r) delim =
    (if c = 0 then Inr None
     else if List.member delim c then Inr (Some 0)
     else case strpbrk r delim of Inl e \<Rightarrow> Inl e | Inr q \<Rightarrow> Inr (map_option Suc q))"

definition zm_strsep :: "bytes \<Rightarrow> nat option \<Rightarrow> bytes \<Rightarrow> mem_error + (nat option \<times> bytes \<times> nat option)" where
  "zm_strsep m stringp delim =
    (case stringp of
       None \<Rightarrow> Inr (None, m, None)
     | Some start \<Rightarrow>
         (case strpbrk (drop start m) delim of
            Inl e \<Rightarrow> Inl e
          | Inr None \<Rightarrow> Inr (Some start, m, None)
          | Inr (Some k) \<Rightarrow> Inr (Some start, m[start + k := 0], Some (start + k + 1))))"

section \<open>Correctness: number formatting\<close>

definition digit_value :: "u8 \<Rightarrow> int" where
  "digit_value c = (if c \<le> 0x39 then uint c - 48 else uint c - 55)"

definition text_value :: "int \<Rightarrow> bytes \<Rightarrow> int" where
  "text_value radix = foldl (\<lambda>v c. v * radix + digit_value c) 0"

definition parse_long :: "int \<Rightarrow> bytes \<Rightarrow> int" where
  "parse_long radix s =
    (case s of c # t \<Rightarrow> if c = 0x2D then - text_value radix t else text_value radix s | [] \<Rightarrow> 0)"

definition c_text :: "bytes \<Rightarrow> bytes" where
  "c_text m = takeWhile (\<lambda>b. b \<noteq> 0) m"

lemma c_text_append: "0 \<notin> set t \<Longrightarrow> c_text (t @ 0 # r) = t"
  by (induction t) (auto simp: c_text_def)

lemma lta_digit_correct:
  assumes "0 \<le> r" and "r < 36"
  shows "digit_value (lta_digit r) = r" and "lta_digit r \<noteq> 0" and "lta_digit r \<noteq> 0x2D"
proof -
  let ?n = "r + (if 9 < r then 65 - 10 else 48)"
  have u: "uint (lta_digit r) = ?n"
    unfolding lta_digit_def uint_word_of_int_eq using assms by (simp add: take_bit_int_eq_self)
  show "digit_value (lta_digit r) = r"
    using u assms by (simp add: digit_value_def word_le_def split: if_splits)
  show "lta_digit r \<noteq> 0" using u assms by (auto split: if_splits)
  show "lta_digit r \<noteq> 0x2D" using u assms by (auto split: if_splits)
qed

lemma lta_loop_correct:
  assumes "2 \<le> radix" and "radix \<le> 36"
  shows "0 < u \<Longrightarrow> u < radix ^ n \<Longrightarrow> n \<le> room \<Longrightarrow>
    \<exists>ds. lta_loop room u radix acc = Inr (ds @ acc) \<and> text_value radix ds = u \<and> 0 \<notin> set ds \<and> 0x2D \<notin> set ds \<and>
      ds \<noteq> [] \<and> length ds \<le> n"
proof (induction n arbitrary: room u acc)
  case (Suc n)
  then obtain r where room: "room = Suc r" "n \<le> r" by (cases room) auto
  let ?q = "u div radix" and ?d = "lta_digit (u mod radix)"
  have pos: "0 < u" and sd: "u sdiv radix = ?q" "u smod radix = u mod radix"
    using Suc.prems assms by (simp_all add: signed_divide_int_def signed_modulo_int_def sgn_if)
  have d: "digit_value ?d = u mod radix" "?d \<noteq> 0" "?d \<noteq> 0x2D"
    by (rule lta_digit_correct; use assms pos_mod_sign [of radix u] pos_mod_bound [of radix u] in linarith)+
  show ?case
  proof (cases "?q = 0")
    case True
    then have "u mod radix = u" by (metis add_0 div_mult_mod_eq mult_zero_left)
    with True d room pos sd show ?thesis
      by (intro exI [of _ "[?d]"]) (cases r; simp add: text_value_def)
  next
    case False
    have "0 \<le> ?q" using assms pos by (simp add: pos_imp_zdiv_nonneg_iff)
    with False have "0 < ?q" by simp
    moreover have "?q < radix ^ n"
    proof (rule ccontr)
      assume "\<not> ?q < radix ^ n"
      then have "radix ^ n * radix \<le> ?q * radix" using assms by (intro mult_right_mono) simp_all
      also have "\<dots> \<le> u" using assms by (simp flip: minus_mod_eq_div_mult)
      finally show False using Suc.prems(2) by (simp add: mult.commute)
    qed
    ultimately obtain ds where ds: "lta_loop r ?q radix (?d # acc) = Inr (ds @ ?d # acc)" "text_value radix ds = ?q"
      "0 \<notin> set ds" "0x2D \<notin> set ds" "length ds \<le> n"
      using Suc.IH [of ?q r "?d # acc"] room by blast
    have "text_value radix (ds @ [?d]) = u" using ds(2) d(1) by (simp add: text_value_def)
    with ds d room sd pos show ?thesis by (intro exI [of _ "ds @ [?d]"]) simp
  qed
qed simp

text \<open>The characters for a magnitude: those of the loop, or a single 0.\<close>

lemma lta_digits_correct:
  assumes "2 \<le> radix" and "radix \<le> 36" and "0 \<le> u" and "u < radix ^ n" and "n \<le> 32" and "0 < n"
  shows "\<exists>ds. (if u \<noteq> 0 then lta_loop 32 u radix [] else Inr [0x30]) = Inr ds \<and> text_value radix ds = u \<and>
    0 \<notin> set ds \<and> 0x2D \<notin> set ds \<and> ds \<noteq> [] \<and> length ds \<le> n"
proof (cases "u = 0")
  case True
  with assms(6) show ?thesis by (simp add: text_value_def digit_value_def)
next
  case False
  with assms lta_loop_correct [OF assms(1,2), of u n 32 "[]"] show ?thesis by simp
qed

lemma lta_uarg_neg: "num < 0 \<Longrightarrow> - (2 ^ 31) < num \<Longrightarrow> lta_uarg num 10 = - num"
proof -
  assume a: "num < 0" "- (2 ^ 31) < num"
  have "lta_uarg num 10 = sint (word_of_int (- num) :: u32)" using a by (simp add: lta_uarg_def)
  also have "\<dots> = - num"
    using a by (subst sint_sbintrunc') (auto intro!: signed_take_bit_int_eq_self)
  finally show ?thesis .
qed

text \<open>\<open>L_To_A\<close> writes a text that reads back as the number, into the caller's memory or its own 33 bytes,
  for every number in decimal but the least one and for the numbers from 0 on in the other radices; a radix
  out of range counts as 10.  The least number comes out as punctuation.\<close>

theorem L_To_A_roundtrip:
  assumes "radix = (if 36 < radix0 \<or> 2 > radix0 then 10 else radix0)"
    and "num < 2 ^ 31" and "0 \<le> num \<or> (radix = 10 \<and> - (2 ^ 31) < num)"
    and "case str of Some m \<Rightarrow> 33 \<le> length m | None \<Rightarrow> True"
  shows "(\<exists>m. L_To_A num str radix0 = Inr m \<and> parse_long radix (c_text m) = num) \<and>
    map_sum id c_text (L_To_A (- (2 ^ 31)) None 10) = Inr (ascii ''-./,),(-*,('')"
proof
  have radix: "2 \<le> radix" "radix \<le> 36" using assms(1) by auto
  have room: "33 \<le> length (case str of Some m \<Rightarrow> m | None \<Rightarrow> replicate 33 0)"
    using assms(4) by (cases str) simp_all
  note unf = L_To_A_def Let_def assms(1) [symmetric]
  show "\<exists>m. L_To_A num str radix0 = Inr m \<and> parse_long radix (c_text m) = num"
  proof (cases "num < 0")
    case False
    then have u: "lta_uarg num radix = num" by (simp add: lta_uarg_def)
    have "num < radix ^ 31" using assms(2) power_mono [of 2 radix 31] radix by linarith
    then obtain ds where ds: "(if num \<noteq> 0 then lta_loop 32 num radix [] else Inr [0x30]) = Inr ds" "text_value radix ds = num"
      "0 \<notin> set ds" "0x2D \<notin> set ds" "ds \<noteq> []" "length ds \<le> 31"
      using lta_digits_correct [OF radix, of num 31] False by auto
    moreover have "parse_long radix ds = num"
      using ds by (cases ds) (auto simp: parse_long_def)
    ultimately show ?thesis using False room unfolding unf u ds(1)
      by (simp add: blit_def c_text_append)
  next
    case True
    then have r10: "radix = 10" and gt: "- (2 ^ 31) < num" using assms(3) by auto
    have u: "lta_uarg num radix = - num" using lta_uarg_neg [OF True gt] r10 by simp
    have "- num < radix ^ 10" using gt r10 by simp
    then obtain ds where ds: "(if - num \<noteq> 0 then lta_loop 32 (- num) radix [] else Inr [0x30]) = Inr ds" "text_value radix ds = - num"
      "0 \<notin> set ds" "0x2D \<notin> set ds" "ds \<noteq> []" "length ds \<le> 10"
      using lta_digits_correct [OF radix, of "- num" 10] True by auto
    have "c_text (0x2D # ds @ 0 # 0 # x) = 0x2D # ds" for x
      using c_text_append [of "0x2D # ds"] ds(3) by simp
    then have "parse_long radix (c_text (0x2D # ds @ 0 # 0 # x)) = num" for x
      using ds(2) by (simp add: parse_long_def)
    then show ?thesis using True room ds(2-) unfolding unf u ds(1)
      by (simp add: r10 blit_def)
  qed
  show "map_sum id c_text (L_To_A (- (2 ^ 31)) None 10) = Inr (ascii ''-./,),(-*,('')"
    by code_simp
qed

theorem L_To_A_roundtrip_witness:
  "(\<exists>m. L_To_A (- 409) None 10 = Inr m \<and> parse_long 10 (c_text m) = - 409) \<and>
   map_sum id c_text (L_To_A 255 None 16) = Inr (ascii ''FF'') \<and> map_sum id c_text (L_To_A (- 1) None 2) = Inr (ascii ''/'')"
proof (intro conjI)
  show "\<exists>m. L_To_A (- 409) None 10 = Inr m \<and> parse_long 10 (c_text m) = - 409"
    using L_To_A_roundtrip [of 10 10 "- 409" None] by simp
qed (code_simp+)

section \<open>Correctness: trimming\<close>

definition trimmed :: "('a \<Rightarrow> bool) \<Rightarrow> 'a list \<Rightarrow> 'a list" where
  "trimmed P t = rev (dropWhile P (rev (dropWhile P t)))"

text \<open>The bytes \<open>isspace\<close> may be called with, the terminator left out.\<close>

definition plain_char :: "u8 \<Rightarrow> bool" where
  "plain_char c \<longleftrightarrow> c \<noteq> 0 \<and> (c < 0x80 \<or> c = 0xFF)"

lemma isspace_plain: "plain_char c \<Longrightarrow> isspace c = Inr (is_blank c)"
  by (auto simp: isspace_def plain_char_def not_le)

lemma isspace_0: "isspace 0 = Inr False"
  by (simp add: isspace_def is_blank_def)

lemma trim_skip_text:
  "list_all plain_char t \<Longrightarrow> trim_skip (t @ 0 # r) = Inr (length (takeWhile is_blank t))"
  by (induction t) (auto simp: isspace_0 isspace_plain split: bool.splits)

lemma drop_takeWhile: "drop (length (takeWhile P t)) t = dropWhile P t"
  by (metis append_eq_conv_conj takeWhile_dropWhile_id)

lemma trim_back_text:
  "k < length u \<Longrightarrow> list_all plain_char u \<Longrightarrow> \<not> is_blank (u ! 0) \<Longrightarrow>
   \<exists>j. trim_back (u @ r) k = Inr j \<and> j \<le> k \<and> take (Suc j) u = rev (dropWhile is_blank (rev (take (Suc k) u)))"
proof (induction k)
  case 0
  then show ?case by (cases u) simp_all
next
  case (Suc k)
  have c: "isspace ((u @ r) ! Suc k) = Inr (is_blank (u ! Suc k))"
    using Suc.prems by (simp add: nth_append isspace_plain list_all_length)
  have snoc: "take (Suc (Suc k)) u = take (Suc k) u @ [u ! Suc k]"
    using Suc.prems(1) by (rule take_Suc_conv_app_nth)
  show ?case
  proof (cases "is_blank (u ! Suc k)")
    case True
    with Suc c snoc show ?thesis by (auto simp: le_SucI)
  next
    case False
    with c snoc show ?thesis by simp
  qed
qed

lemma list_all_dropWhile: "list_all Q t \<Longrightarrow> list_all Q (dropWhile P t)"
  by (auto simp: list_all_iff dest: set_dropWhileD)

lemma Trim_text:
  assumes "list_all plain_char t"
  shows "\<exists>m. Trim (t @ 0 # r) = Inr (length (takeWhile is_blank t), m) \<and> length m = length (t @ 0 # r) \<and>
    c_text (drop (length (takeWhile is_blank t)) m) = trimmed is_blank t \<and> 0 \<in> set (drop (length (takeWhile is_blank t)) m)"
proof -
  let ?i = "length (takeWhile is_blank t)" and ?u = "dropWhile is_blank t"
  have s: "drop ?i (t @ 0 # r) = ?u @ 0 # r"
    by (simp add: drop_takeWhile length_takeWhile_le)
  have u: "list_all plain_char ?u" using assms by (rule list_all_dropWhile)
  then have nz: "0 \<notin> set ?u" by (auto simp: list_all_iff plain_char_def)
  show ?thesis
  proof (cases ?u)
    case Nil
    show ?thesis
      by (simp add: Trim_def trim_skip_text [OF assms] trimmed_def c_text_def drop_takeWhile length_takeWhile_le Nil)
  next
    case (Cons c v)
    have nb: "\<not> is_blank (?u ! 0)" using hd_dropWhile [of is_blank t] Cons by (simp add: hd_conv_nth)
    have "length ?u - 1 < length ?u" using Cons by simp
    then obtain j where j: "trim_back (?u @ 0 # r) (length ?u - 1) = Inr j" "j \<le> length ?u - 1"
      "take (Suc j) ?u = rev (dropWhile is_blank (rev (take (Suc (length ?u - 1)) ?u)))"
      using trim_back_text [OF _ u nb, of "length ?u - 1" "0 # r"] by blast
    have full: "take (Suc (length ?u - 1)) ?u = ?u" using Cons by simp
    have head: "(?u @ 0 # r) ! 0 \<noteq> 0" using Cons nz by auto
    let ?m = "(t @ 0 # r)[?i + j + 1 := 0]"
    have run: "Trim (t @ 0 # r) = Inr (?i, ?m)"
      using head by (simp only: Trim_def trim_skip_text [OF assms] sum.case Let_def s strlen_text [OF nz] j(1) if_False)
    have le: "Suc j \<le> length ?u" using j(2) Cons by simp
    have "drop ?i ?m = (?u @ 0 # r)[Suc j := 0]" using s by (simp add: drop_update_swap)
    also have "\<dots> = take (Suc j) ?u @ 0 # drop (Suc (Suc j)) (?u @ 0 # r)"
      using le by (subst upd_conv_take_nth_drop) auto
    finally have m: "drop ?i ?m = take (Suc j) ?u @ 0 # drop (Suc (Suc j)) (?u @ 0 # r)" .
    have "0 \<notin> set (take (Suc j) ?u)" using nz by (auto dest: in_set_takeD)
    then have "c_text (drop ?i ?m) = take (Suc j) ?u" unfolding m by (rule c_text_append)
    with run m j(3) full show ?thesis by (intro exI [of _ ?m]) (simp add: trimmed_def)
  qed
qed

lemma find_first_not_of_drop:
  "(case find_first_not_of s b of None \<Rightarrow> [] | Some i \<Rightarrow> drop i s) = dropWhile (\<lambda>c. c \<in> set b) s"
proof -
  have "(case find (\<lambda>i. \<not> P (s ! i)) [0..<length s] of None \<Rightarrow> [] | Some i \<Rightarrow> drop i s) = dropWhile P s" for P
  proof (induction s)
    case (Cons c s)
    have up: "[0..<Suc (length s)] = 0 # map Suc [0..<length s]" by (simp add: upt_conv_Cons map_Suc_upt del: upt_Suc)
    have find_map: "find Q (map Suc xs) = map_option Suc (find (\<lambda>i. Q (Suc i)) xs)" for Q xs
      by (induction xs) simp_all
    from Cons show ?case unfolding list.size by (simp add: up find_map del: upt_Suc split: option.splits)
  qed simp
  from this [of "\<lambda>c. c \<in> set b"] show ?thesis by (simp add: find_first_not_of_def)
qed

lemma find_last_not_of_take:
  "take (case find_last_not_of s b of None \<Rightarrow> 0 | Some i \<Rightarrow> i + 1) s = rev (dropWhile (\<lambda>c. c \<in> set b) (rev s))"
proof -
  have "take (case find (\<lambda>i. \<not> P (s ! i)) (rev [0..<length s]) of None \<Rightarrow> 0 | Some i \<Rightarrow> i + 1) s = rev (dropWhile P (rev s))" for P
  proof (induction s rule: rev_induct)
    case (snoc c s)
    have "find (\<lambda>i. \<not> P ((s @ [c]) ! i)) (rev [0..<length s]) = find (\<lambda>i. \<not> P (s ! i)) (rev [0..<length s])"
      by (rule find_cong) (simp_all add: nth_append)
    moreover have "find (\<lambda>i. \<not> P (s ! i)) (rev [0..<length s]) = Some i \<Longrightarrow> i < length s" for i
      by (auto simp: find_Some_iff rev_nth)
    ultimately show ?case using snoc by (simp split: option.splits)
  qed simp
  from this [of "\<lambda>c. c \<in> set b"] show ?thesis by (simp add: find_last_not_of_def)
qed

lemma TrimEx_trimmed: "TrimEx s = dropWhile (\<lambda>c. c \<in> set g_strBlanks) (rev (dropWhile (\<lambda>c. c \<in> set g_strBlanks) (rev s)))"
  by (simp add: TrimEx_def Let_def find_last_not_of_take find_first_not_of_drop)

lemma trimmed_sym: "dropWhile P (rev (dropWhile P (rev s))) = trimmed P s"
proof (induction s)
  case (Cons c s)
  have "\<forall>x \<in> set s. P x \<Longrightarrow> dropWhile P s = []" by simp
  with Cons show ?case by (auto simp: trimmed_def dropWhile_append dest: set_dropWhileD)
qed (simp add: trimmed_def)

lemma set_g_strBlanks: "c \<in> set g_strBlanks \<longleftrightarrow> 1 \<le> c \<and> c \<le> 0x20"
proof -
  have "c \<in> set g_strBlanks \<longleftrightarrow> (\<exists>n. 1 \<le> n \<and> n < 33 \<and> c = word_of_nat n)"
    by (auto simp: g_strBlanks_def)
  also have "\<dots> \<longleftrightarrow> 1 \<le> unat c \<and> unat c < 33"
    by (auto simp: unat_of_nat intro: exI [of _ "unat c"])
  also have "\<dots> \<longleftrightarrow> 1 \<le> c \<and> c \<le> 0x20" by (simp add: word_le_nat_alt) linarith
  finally show ?thesis .
qed

text \<open>Both trim functions take the blanks off both ends and nothing else: \<open>Trim\<close> for a text whose bytes
  \<open>isspace\<close> may be called with, in place and inside the memory of the text, \<open>TrimEx\<close> for every string,
  where all control characters count as blank.  A text that starts with another byte makes \<open>Trim\<close> call
  \<open>isspace\<close> out of its range.\<close>

theorem Trim_correct:
  assumes "list_all plain_char t" and "0x80 \<le> c" and "c \<noteq> 0xFF"
  shows "(\<exists>i m. Trim (t @ 0 # r) = Inr (i, m) \<and> length m = length (t @ 0 # r) \<and> c_text (drop i m) = trimmed is_blank t) \<and>
    TrimEx s = trimmed (\<lambda>c. 1 \<le> c \<and> c \<le> 0x20) s \<and> Trim (c # s) = Inl OutOfBounds"
proof (intro conjI)
  show "\<exists>i m. Trim (t @ 0 # r) = Inr (i, m) \<and> length m = length (t @ 0 # r) \<and> c_text (drop i m) = trimmed is_blank t"
    using Trim_text [OF assms(1), of r] by blast
  show "TrimEx s = trimmed (\<lambda>c. 1 \<le> c \<and> c \<le> 0x20) s"
    by (simp add: TrimEx_trimmed trimmed_sym set_g_strBlanks)
  show "Trim (c # s) = Inl OutOfBounds" using assms(2,3) by (simp add: Trim_def isspace_def)
qed

theorem Trim_correct_witness:
  "(\<exists>i m. Trim ([0x20, 0x61, 0x20, 0x62, 0x0A] @ 0 # []) = Inr (i, m) \<and> c_text (drop i m) = [0x61, 0x20, 0x62]) \<and>
   Trim [0xE4, 0xB8, 0xAD, 0] = Inl OutOfBounds"
proof (intro conjI)
  show "\<exists>i m. Trim ([0x20, 0x61, 0x20, 0x62, 0x0A] @ 0 # []) = Inr (i, m) \<and> c_text (drop i m) = [0x61, 0x20, 0x62]"
    using Trim_correct [of "[0x20, 0x61, 0x20, 0x62, 0x0A]" "0x80" "[]"]
    by (simp add: plain_char_def trimmed_def is_blank_def) blast
  show "Trim [0xE4, 0xB8, 0xAD, 0] = Inl OutOfBounds"
    by (rule conjunct2 [OF conjunct2 [OF Trim_correct [of "[]" "0xE4" "[]" "[0xB8, 0xAD, 0]"]]]) simp_all
qed

section \<open>Correctness: tickets\<close>

lemma strlen_c_text: "0 \<in> set m \<Longrightarrow> strlen m = Inr (length (c_text m))"
  by (induction m) (auto simp: c_text_def)

lemma take_c_text: "take (length (c_text m)) m = c_text m"
  unfolding c_text_def by (rule takeWhile_eq_take [symmetric])

text \<open>A ticket whose bytes \<open>isspace\<close> may be called with is accepted exactly when 64 hexadecimal digits are
  left after trimming, and then the output is those digits.\<close>

theorem ValidateTicket_correct:
  assumes "list_all plain_char ticket"
  shows "ValidateTicket ticket =
    Inr (let t = trimmed is_blank ticket in if length t = 64 \<and> list_all is_hex_char t then Some t else None)"
proof (cases "ticket = []")
  case True
  then show ?thesis by (simp add: ValidateTicket_def trimmed_def)
next
  case False
  let ?i = "length (takeWhile is_blank ticket)"
  obtain m where m: "Trim (ticket @ [0]) = Inr (?i, m)" "c_text (drop ?i m) = trimmed is_blank ticket" "0 \<in> set (drop ?i m)"
    using Trim_text [OF assms, of "[]"] by blast
  have "strlen (drop ?i m) = Inr (length (trimmed is_blank ticket))"
    using strlen_c_text [OF m(3)] m(2) by simp
  moreover have "take (length (trimmed is_blank ticket)) (drop ?i m) = trimmed is_blank ticket"
    using take_c_text [of "drop ?i m"] m(2) by simp
  ultimately show ?thesis using False m(1) by (auto simp: ValidateTicket_def Let_def)
qed

theorem ValidateTicket_correct_witness:
  "ValidateTicket (0x20 # replicate 64 0x61 @ [0x0A]) = Inr (Some (replicate 64 0x61)) \<and>
   ValidateTicket (replicate 63 0x61 @ [0x67]) = Inr None"
proof -
  have r64: "replicate 64 (0x61 :: u8) = 0x61 # replicate 63 0x61" "rev (replicate 64 (0x61 :: u8)) = replicate 64 0x61"
    by (simp_all add: numeral_eq_Suc)
  have "ValidateTicket (0x20 # replicate 64 0x61 @ [0x0A]) = Inr (Some (replicate 64 0x61))"
    using ValidateTicket_correct [of "0x20 # replicate 64 0x61 @ [0x0A]"]
    by (simp add: list_all_iff plain_char_def trimmed_def is_blank_def dropWhile_append is_hex_char_def)
  moreover have "ValidateTicket (replicate 63 0x61 @ [0x67]) = Inr None"
    using ValidateTicket_correct [of "replicate 63 0x61 @ [0x67]"]
    by (simp add: list_all_iff plain_char_def trimmed_def is_blank_def dropWhile_append is_hex_char_def)
  ultimately show ?thesis by simp
qed

section \<open>Correctness: replacement\<close>

text \<open>Every occurrence, from the left and not overlapping, replaced.\<close>

function replace_all :: "bytes \<Rightarrow> bytes \<Rightarrow> bytes \<Rightarrow> bytes" where
  "replace_all src dst [] = []"
| "replace_all src dst (c # r) =
    (if take (length src) (c # r) = src then dst @ replace_all src dst (drop (length src - 1) r)
     else c # replace_all src dst r)"
  by pat_completeness auto
termination
  by (relation "measure (\<lambda>(src, dst, s). length s)") auto

lemma find_map: "find Q (map f xs) = map_option f (find (\<lambda>i. Q (f i)) xs)"
  by (induction xs) simp_all

lemma find_SomeD: "find P xs = Some x \<Longrightarrow> P x \<and> x \<in> set xs"
  by (induction xs) (auto split: if_splits)

lemma occurs_at_Suc: "occurs_at (c # s) src (Suc i) = occurs_at s src i"
  by (simp add: occurs_at_def)

lemma occurs_at_0: "occurs_at s src 0 \<longleftrightarrow> take (length src) s = src"
  by (auto simp: occurs_at_def) (metis length_take min.cobounded1)

lemma std_find_Nil: "src \<noteq> [] \<Longrightarrow> std_find [] src 0 = None"
  by (auto simp: std_find_def occurs_at_def)

lemma std_find_Cons:
  "std_find (c # s) src 0 = (if take (length src) (c # s) = src then Some 0 else map_option Suc (std_find s src 0))"
proof -
  have "[0..<Suc (length (c # s))] = 0 # map Suc [0..<Suc (length s)]"
    by (simp add: upt_conv_Cons map_Suc_upt del: upt_Suc)
  then show ?thesis by (simp add: std_find_def find_map occurs_at_0 occurs_at_Suc del: upt_Suc)
qed

lemma occurs_at_append: "occurs_at (pre @ s) src (length pre + i) = occurs_at s src i"
  by (simp add: occurs_at_def)

lemma std_find_append: "std_find (pre @ s) src (length pre) = map_option ((+) (length pre)) (std_find s src 0)"
proof -
  have "[length pre..<Suc (length (pre @ s))] = map ((+) (length pre)) [0..<Suc (length s)]"
    using map_add_upt [of "length pre" "Suc (length s)"] by (simp add: add.commute [of _ "length pre"] del: upt_Suc)
  then show ?thesis by (simp add: std_find_def find_map occurs_at_append del: upt_Suc)
qed

lemma std_find_Some: "std_find s src n = Some k \<Longrightarrow> occurs_at s src k \<and> n \<le> k"
  unfolding std_find_def using find_SomeD [of "occurs_at s src"] by fastforce

lemma std_find_None: "std_find s src 0 = None \<longleftrightarrow> (\<nexists>i. occurs_at s src i)"
  by (auto simp: std_find_def find_None_iff occurs_at_def)

lemma replace_all_None: "src \<noteq> [] \<Longrightarrow> std_find s src 0 = None \<Longrightarrow> replace_all src dst s = s"
  by (induction s) (auto simp: std_find_Cons split: if_splits)

lemma replace_all_Some:
  "src \<noteq> [] \<Longrightarrow> std_find s src 0 = Some k \<Longrightarrow>
   replace_all src dst s = take k s @ dst @ replace_all src dst (drop (k + length src) s)"
proof (induction s arbitrary: k)
  case (Cons c s)
  show ?case
  proof (cases "take (length src) (c # s) = src")
    case True
    with Cons.prems have "k = 0" by (simp add: std_find_Cons)
    moreover obtain n where "length src = Suc n" using Cons.prems(1) by (cases src) simp_all
    ultimately show ?thesis using True by simp
  next
    case False
    with Cons.prems obtain j where "k = Suc j" "std_find s src 0 = Some j" by (auto simp: std_find_Cons)
    with Cons False show ?thesis by simp
  qed
qed (simp add: std_find_Nil)

lemma spp_loop_correct:
  assumes "src \<noteq> []"
  shows "spp_loop src dst (length pre) (pre @ s) = Some (pre @ replace_all src dst s)"
proof (induction s arbitrary: pre rule: measure_induct_rule [where f = length])
  case (less s)
  show ?case
  proof (cases "std_find s src 0")
    case None
    then show ?thesis
      by (subst spp_loop.simps) (simp add: std_find_append replace_all_None [OF assms])
  next
    case (Some k)
    let ?pre = "pre @ take k s @ dst" and ?s = "drop (k + length src) s"
    have k: "k + length src \<le> length s" using std_find_Some [OF Some] by (simp add: occurs_at_def)
    then have shorter: "length ?s < length s" using assms by (cases src) auto
    have "str_replace (pre @ s) (length pre + k) (length src) dst = ?pre @ ?s" "length pre + k + length dst = length ?pre"
      using k by (simp_all add: str_replace_def add.assoc)
    then have "spp_loop src dst (length pre) (pre @ s) = spp_loop src dst (length ?pre) (?pre @ ?s)"
      by (subst spp_loop.simps) (simp add: std_find_append Some add.assoc)
    also have "\<dots> = Some (?pre @ replace_all src dst ?s)" by (rule less.IH [OF shorter])
    finally show ?thesis by (simp add: replace_all_Some [OF assms Some])
  qed
qed

lemma Replace_loop_shallow: "Replace_loop src dst False n s = spp_loop src dst n s"
proof -
  have 1: "\<not> deep \<longrightarrow> spp_loop src dst n s = Some y" if "Replace_loop src dst deep n s = Some y" for deep y
    using that by (rule Replace_loop.raw_induct [rotated, where P = "\<lambda>a b d n s y. \<not> d \<longrightarrow> spp_loop a b n s = Some y"])
      (subst spp_loop.simps, auto split: option.splits)
  have 2: "Replace_loop src dst False n s = Some y" if "spp_loop src dst n s = Some y" for y
    using that by (rule spp_loop.raw_induct [rotated, where P = "\<lambda>a b n s y. Replace_loop a b False n s = Some y"])
      (subst Replace_loop.simps, auto split: option.splits)
  show ?thesis using 1 2 by (cases "spp_loop src dst n s"; cases "Replace_loop src dst False n s") auto
qed

lemma std_find_empty: "n \<le> length s \<Longrightarrow> std_find s [] n = Some n"
  by (simp add: std_find_def occurs_at_def upt_conv_Cons del: upt_Suc)

lemma spp_loop_empty: "spp_loop [] dst n s = Some y \<Longrightarrow> length s < n"
  by (rule spp_loop.raw_induct [rotated, where P = "\<lambda>a b n s y. a = [] \<longrightarrow> length s < n", THEN mp])
    (auto simp: not_less [symmetric] std_find_empty str_replace_def, fastforce simp: not_less std_find_empty str_replace_def)

lemma occurs_at_mid: "occurs_at dst src j \<Longrightarrow> occurs_at (pre @ dst @ post) src (length pre + j)"
  by (auto simp: occurs_at_def)

lemma occurs_at_replace:
  assumes "occurs_at dst src j" and "k + n \<le> length s"
  shows "occurs_at (str_replace s k n dst) src (k + j)"
  using occurs_at_mid [OF assms(1), of "take k s" "drop (k + n) s"] assms(2) by (simp add: str_replace_def)

lemma Replace_loop_diverges:
  assumes "occurs_at dst src j"
  shows "Replace_loop src dst True 0 s = Some y \<Longrightarrow> \<not> occurs_at s src i"
proof -
  let ?P = "\<lambda>a b d (n :: nat) s (y :: bytes). a = src \<longrightarrow> b = dst \<longrightarrow> d \<longrightarrow> n = 0 \<longrightarrow> (\<nexists>i. occurs_at s src i)"
  assume "Replace_loop src dst True 0 s = Some y"
  then have "?P src dst True 0 s y"
  proof (rule Replace_loop.raw_induct [rotated, where P = ?P])
    fix f a b d n s y
    assume IH: "\<And>a b d n s y. f a b d n s = Some y \<Longrightarrow> ?P a b d n s y"
      and run: "(case std_find s a n of None \<Rightarrow> Some s
        | Some pos \<Rightarrow> f a b d (if \<not> d then pos + length b else n) (str_replace s pos (length a) b)) = Some y"
    show "?P a b d n s y"
    proof (intro impI)
      assume eq: "a = src" "b = dst" d "n = 0"
      show "\<nexists>i. occurs_at s src i"
      proof (cases "std_find s src 0")
        case None
        then show ?thesis by (simp add: std_find_None)
      next
        case (Some k)
        then have "f src dst d 0 (str_replace s k (length src) dst) = Some y" using run eq by simp
        then have "\<nexists>i. occurs_at (str_replace s k (length src) dst) src i" using IH eq by blast
        moreover have "k + length src \<le> length s" using std_find_Some [OF Some] by (simp add: occurs_at_def)
        ultimately show ?thesis using occurs_at_replace [OF assms] by blast
      qed
    qed
  qed
  then show ?thesis by blast
qed

lemma Replace_loop_deep:
  assumes "length dst < length src"
  shows "\<exists>y. Replace_loop src dst True 0 s = Some y \<and> (\<nexists>i. occurs_at y src i)"
proof (induction s rule: measure_induct_rule [where f = length])
  case (less s)
  show ?case
  proof (cases "std_find s src 0")
    case None
    then show ?thesis using std_find_None [of s src] by (subst Replace_loop.simps) simp
  next
    case (Some k)
    have "k + length src \<le> length s" using std_find_Some [OF Some] by (simp add: occurs_at_def)
    then have "length (str_replace s k (length src) dst) < length s" using assms by (simp add: str_replace_def)
    from less.IH [OF this] show ?thesis using Some by (subst Replace_loop.simps) simp
  qed
qed

text \<open>With a search text, \<open>spp\<close> and \<open>Replace\<close> end and replace every occurrence from the left; a deep
  \<open>Replace\<close> by a shorter text ends with no occurrence left.\<close>

theorem Replace_correct:
  assumes "search \<noteq> []"
  shows "spp subject search rep = Some (replace_all search rep subject) \<and>
    Replace search rep subject False = Some (replace_all search rep subject) \<and>
    (length rep < length search \<longrightarrow> (\<exists>y. Replace search rep subject True = Some y \<and> (\<nexists>i. occurs_at y search i)))"
  using spp_loop_correct [OF assms, of rep "[]" subject] Replace_loop_deep [of rep search subject]
  by (simp add: spp_def Replace_def Replace_loop_shallow)

theorem Replace_correct_witness:
  "Replace (ascii ''ok'') (ascii ''k'') (ascii ''123oookkk'') False = Some (ascii ''123ookkk'') \<and>
   (\<exists>y. Replace (ascii ''ok'') (ascii ''k'') (ascii ''123oookkk'') True = Some y \<and> (\<nexists>i. occurs_at y (ascii ''ok'') i))"
proof -
  have "replace_all (ascii ''ok'') (ascii ''k'') (ascii ''123oookkk'') = ascii ''123ookkk''" by code_simp
  with Replace_correct [of "ascii ''ok''" "ascii ''123oookkk''" "ascii ''k''"] show ?thesis by simp
qed

text \<open>\<open>spp\<close> and \<open>Replace\<close> never return for an empty search text, nor does a deep \<open>Replace\<close> by a text
  that contains the search text when the subject contains it.\<close>

theorem Replace_diverges:
  assumes "occurs_at rep search j" and "occurs_at subject search i"
  shows "Replace search rep subject True = None \<and> spp s [] dst = None \<and> Replace [] dst s False = None"
proof -
  have "Replace_loop search rep True 0 subject = None"
    using Replace_loop_diverges [OF assms(1), of subject _ i] assms(2) by (cases "Replace_loop search rep True 0 subject") auto
  moreover have "spp_loop [] dst 0 s = None"
    using spp_loop_empty [of dst 0 s] by (cases "spp_loop [] dst 0 s") auto
  ultimately show ?thesis by (simp add: Replace_def spp_def Replace_loop_shallow)
qed

theorem Replace_diverges_witness:
  "Replace (ascii ''a'') (ascii ''aa'') (ascii ''banana'') True = None \<and> Replace [] (ascii ''x'') (ascii ''abc'') False = None"
  using Replace_diverges [of "ascii ''aa''" "ascii ''a''" 0 "ascii ''banana''" 1 "[]" "[]"]
    Replace_diverges [of "ascii ''aa''" "ascii ''a''" 0 "ascii ''banana''" 1 "ascii ''abc''" "ascii ''x''"]
  by (simp add: occurs_at_def char_byte_def)

section \<open>Correctness: hash and tokens\<close>

lemma hash_step_bound: "hash_step h c < 2 ^ 28"
proof -
  let ?h = "push_bit 4 h + ucast c :: u32"
  let ?g = "?h AND 0xF0000000"
  have top: "\<And>i. 28 \<le> i \<Longrightarrow> i < 32 \<Longrightarrow> bit (0xF0000000 :: u32) i"
    and low: "\<And>i. i < 28 \<Longrightarrow> \<not> bit (0xF0000000 :: u32) i"
  proof -
    have m: "(0xF0000000 :: u32) = push_bit 28 (mask 4)" by (simp add: mask_eq_exp_minus_1)
    show "\<And>i. 28 \<le> i \<Longrightarrow> i < 32 \<Longrightarrow> bit (0xF0000000 :: u32) i" unfolding m by (auto simp: bit_simps)
    show "\<And>i. i < 28 \<Longrightarrow> \<not> bit (0xF0000000 :: u32) i" unfolding m by (auto simp: bit_simps)
  qed
  have lt: "x < 2 ^ 28" if "\<And>i. 28 \<le> i \<Longrightarrow> i < 32 \<Longrightarrow> \<not> bit x i" for x :: u32
  proof -
    have "take_bit 28 x = x"
    proof (rule bit_word_eqI)
      fix n assume "n < LENGTH(32)"
      then show "bit (take_bit 28 x) n = bit x n" using that [of n] by (cases "n < 28") (simp_all add: bit_simps)
    qed
    moreover have "take_bit 28 x < 2 ^ 28"
      using take_bit_nat_less_exp [of 28 "unat x"] by (simp add: word_less_nat_alt unsigned_take_bit_eq)
    ultimately show ?thesis by simp
  qed
  show ?thesis
  proof (cases "?g = 0")
    case True
    have "?h < 2 ^ 28"
    proof (rule lt)
      fix i :: nat assume i: "28 \<le> i" "i < 32"
      have "\<not> bit ?g i" using True by simp
      with top [OF i] show "\<not> bit ?h i" by (simp add: bit_simps)
    qed
    with True show ?thesis by (simp add: hash_step_def Let_def)
  next
    case False
    have "(?h XOR ?g) XOR drop_bit 24 ?g < 2 ^ 28"
    proof (rule lt)
      fix i :: nat assume i: "28 \<le> i" "i < 32"
      have "\<not> bit (drop_bit 24 ?g) i" using i by (auto simp: bit_simps dest: bit_imp_le_length)
      with top [OF i] show "\<not> bit ((?h XOR ?g) XOR drop_bit 24 ?g) i" by (simp add: bit_simps)
    qed
    with False show ?thesis by (simp add: hash_step_def Let_def)
  qed
qed

lemma Hash_bound: "Hash str < 2 ^ 28"
  using hash_step_bound by (cases str rule: rev_cases) (simp_all add: Hash_def)

text \<open>\<open>zm_strsep\<close> hands out the text up to the next delimiter and goes on behind it, or the rest at the end.\<close>

lemma strpbrk_text:
  "0 \<notin> set a \<Longrightarrow> set a \<inter> set delim = {} \<Longrightarrow> strpbrk (a @ 0 # r) delim = Inr None"
  "0 \<notin> set a \<Longrightarrow> set a \<inter> set delim = {} \<Longrightarrow> d \<noteq> 0 \<Longrightarrow> d \<in> set delim \<Longrightarrow> strpbrk (a @ d # r) delim = Inr (Some (length a))"
  by (induction a) auto

lemma zm_strsep_token:
  assumes "0 \<notin> set a" and "set a \<inter> set delim = {}" and "d \<noteq> 0" and "d \<in> set delim"
  shows "zm_strsep (p @ a @ d # r) (Some (length p)) delim = Inr (Some (length p), p @ a @ 0 # r, Some (length (p @ a @ [d])))"
    and "zm_strsep (p @ a @ 0 # r) (Some (length p)) delim = Inr (Some (length p), p @ a @ 0 # r, None)"
  using strpbrk_text [OF assms(1,2)] assms(3,4) by (simp_all add: zm_strsep_def list_update_append)

end
