(* ===== verification/ByteBuffer.thy ===== *)
theory ByteBuffer
  imports ZmPrelude
begin

unbundle bit_operations_syntax

text \<open>
  \<open>ZmByteBuffer\<close> of \<open>util/zm_util_container\<close>.  The block behind \<open>m_head\<close> is the list
  \<open>bb_mem\<close> of all its bytes (\<open>m_capacity + 1\<close> of them), sizes are 64-bit words, and an access
  outside the block, or past the end of the caller's buffer, is \<open>Inl\<close>.  The allocator loop of
  \<open>XAlloc\<close> retries until it gets memory, so allocation succeeds here.
\<close>

section \<open>The buffer and its operations\<close>

record byte_buffer =
  bb_capacity :: u64
  bb_size :: u64
  bb_mem :: bytes

text \<open>\<open>memset\<close>, \<open>memcpy\<close> into the block and a read from it, each checked against the block.\<close>

definition mem_set :: "u64 \<Rightarrow> u64 \<Rightarrow> byte_buffer \<Rightarrow> mem_error + byte_buffer" where
  "mem_set off n b =
    (if unat off + unat n \<le> length (bb_mem b) then Inr (b\<lparr>bb_mem := fill (unat off) (unat n) 0 (bb_mem b)\<rparr>)
     else Inl OutOfBounds)"

definition mem_put :: "u64 \<Rightarrow> bytes \<Rightarrow> byte_buffer \<Rightarrow> mem_error + byte_buffer" where
  "mem_put off src b =
    (if unat off + length src \<le> length (bb_mem b) then Inr (b\<lparr>bb_mem := blit (unat off) src (bb_mem b)\<rparr>)
     else Inl OutOfBounds)"

definition mem_get :: "u64 \<Rightarrow> u64 \<Rightarrow> byte_buffer \<Rightarrow> mem_error + bytes" where
  "mem_get off n b =
    (if unat off + unat n \<le> length (bb_mem b) then Inr (take (unat n) (drop (unat off) (bb_mem b)))
     else Inl OutOfBounds)"

definition buf_get :: "u64 \<Rightarrow> bytes \<Rightarrow> mem_error + bytes" where
  "buf_get n buf = (if unat n \<le> length buf then Inr (take (unat n) buf) else Inl OutOfBounds)"

definition bind_err :: "'e + 'a \<Rightarrow> ('a \<Rightarrow> 'e + 'b) \<Rightarrow> 'e + 'b" where
  "bind_err r f = (case r of Inl e \<Rightarrow> Inl e | Inr x \<Rightarrow> f x)"

lemma bind_err_simps [simp]: "bind_err (Inl e) f = Inl e" "bind_err (Inr x) f = f x"
  by (simp_all add: bind_err_def)

lemma bind_err_Inr: "bind_err r f = Inr y \<longleftrightarrow> (\<exists>x. r = Inr x \<and> f x = Inr y)"
  by (cases r) simp_all

definition XAlloc :: "u64 \<Rightarrow> bool \<Rightarrow> byte_buffer \<Rightarrow> mem_error + byte_buffer" where
  "XAlloc capacity remain b =
    (if capacity > bb_capacity b then
       let fresh = b\<lparr>bb_mem := replicate (unat (capacity + 1)) 0, bb_capacity := capacity\<rparr>
       in if remain \<and> bb_mem b \<noteq> []
          then bind_err (mem_get 0 (bb_size b) b) (\<lambda>old. mem_put 0 old fresh)
          else Inr fresh
     else Inr b)"

definition bb_new :: "u64 \<Rightarrow> bytes option \<Rightarrow> mem_error + byte_buffer" where
  "bb_new sz data =
    (let m_size = (if 1 > sz then 1 else sz)
     in bind_err (XAlloc m_size False \<lparr>bb_capacity = 0, bb_size = m_size, bb_mem = []\<rparr>)
          (\<lambda>b. case data of
             Some d \<Rightarrow> if sz > 0 then bind_err (buf_get sz d) (\<lambda>src. mem_put 0 src b) else Inr b
           | None \<Rightarrow> Inr b))"

definition le_uint32 :: "bytes \<Rightarrow> u32" where
  "le_uint32 bs = ucast (bs ! 0) OR push_bit 8 (ucast (bs ! 1)) OR push_bit 16 (ucast (bs ! 2)) OR
     push_bit 24 (ucast (bs ! 3))"

definition GetUINT32 :: "u64 \<Rightarrow> byte_buffer \<Rightarrow> mem_error + u32" where
  "GetUINT32 offset b =
    (if bb_size b \<ge> offset + 4 then bind_err (mem_get offset 4 b) (\<lambda>bs. Inr (le_uint32 bs)) else Inr 0)"

definition bb_get :: "u64 \<Rightarrow> byte_buffer \<Rightarrow> mem_error + u8" where
  "bb_get index b = (if unat index < length (bb_mem b) then Inr (bb_mem b ! unat index) else Inl OutOfBounds)"

definition bb_set :: "u64 \<Rightarrow> u8 \<Rightarrow> byte_buffer \<Rightarrow> mem_error + byte_buffer" where
  "bb_set index v b = mem_put index [v] b"

definition Put :: "bytes \<Rightarrow> u64 \<Rightarrow> u64 \<Rightarrow> byte_buffer \<Rightarrow> mem_error + byte_buffer" where
  "Put buf count offset b =
    (if offset \<ge> bb_size b then Inr b
     else
       let n = (if count < bb_size b - offset then count else bb_size b - offset)
       in bind_err (buf_get n buf) (\<lambda>src. mem_put offset src b))"

definition Compact :: "u64 \<Rightarrow> u64 \<Rightarrow> byte_buffer \<Rightarrow> mem_error + byte_buffer" where
  "Compact offset remains b =
    (if offset + remains \<le> bb_size b then
       bind_err (if remains > 0 then bind_err (mem_get offset remains b) (\<lambda>src. mem_put 0 src b) else Inr b)
         (\<lambda>b1. mem_set remains (bb_size b1 - remains) b1)
     else Inr b)"

definition Expand :: "u64 \<Rightarrow> byte_buffer \<Rightarrow> mem_error + byte_buffer" where
  "Expand newsize b =
    bind_err
      (if newsize > bb_size b then XAlloc newsize True b
       else if newsize < bb_size b then mem_set newsize (bb_size b - newsize) b else Inr b)
      (\<lambda>b1. Inr (b1\<lparr>bb_size := newsize\<rparr>))"

definition Zero :: "u64 \<Rightarrow> byte_buffer \<Rightarrow> mem_error + byte_buffer" where
  "Zero offset b =
    (if bb_mem b \<noteq> [] \<and> offset < bb_capacity b then mem_set offset (bb_capacity b - offset + 1) b else Inr b)"

definition Reset :: "u64 \<Rightarrow> bytes option \<Rightarrow> byte_buffer \<Rightarrow> mem_error + byte_buffer" where
  "Reset sz data b =
    bind_err (XAlloc sz False b) (\<lambda>b1. bind_err (Zero 0 b1) (\<lambda>b2.
      let b3 = b2\<lparr>bb_size := sz\<rparr>
      in case data of None \<Rightarrow> Inr b3 | Some d \<Rightarrow> bind_err (buf_get sz d) (\<lambda>src. mem_put 0 src b3)))"

definition Clean :: "byte_buffer \<Rightarrow> mem_error + byte_buffer" where
  "Clean b = (let b1 = b\<lparr>bb_size := bb_capacity b\<rparr> in mem_set 0 (bb_size b1 + 1) b1)"

text \<open>
  \<open>Sprintf\<close> of a format and arguments that print as \<open>text\<close>: the second \<open>vsnprintf\<close> writes at most
  \<open>m_size - 1\<close> characters and a terminator.
\<close>

definition Sprintf :: "bytes \<Rightarrow> byte_buffer \<Rightarrow> mem_error + byte_buffer" where
  "Sprintf text b =
    bind_err (Expand (word_of_nat (length text) + 1) b) (\<lambda>b1.
      if bb_size b1 = 0 then Inr b1
      else mem_put 0 (take (unat (bb_size b1) - 1) text @ [0]) b1)"

section \<open>The invariant\<close>

text \<open>The block has one byte more than the capacity, and everything from the logical size on is zero.\<close>

definition bb_inv :: "byte_buffer \<Rightarrow> bool" where
  "bb_inv b \<longleftrightarrow> length (bb_mem b) = unat (bb_capacity b) + 1 \<and> unat (bb_size b) \<le> unat (bb_capacity b) \<and>
     0 < unat (bb_capacity b) \<and> bb_capacity b \<noteq> -1 \<and> (\<forall>i. unat (bb_size b) \<le> i \<and> i \<le> unat (bb_capacity b) \<longrightarrow> bb_mem b ! i = 0)"

text \<open>The logical content.\<close>

definition bb_data :: "byte_buffer \<Rightarrow> bytes" where
  "bb_data b = take (unat (bb_size b)) (bb_mem b)"

lemma length_bb_data: "bb_inv b \<Longrightarrow> length (bb_data b) = unat (bb_size b)"
  by (simp add: bb_inv_def bb_data_def)

lemma bb_mem_split: "bb_inv b \<Longrightarrow>
  bb_mem b = bb_data b @ replicate (Suc (unat (bb_capacity b)) - unat (bb_size b)) 0"
  by (rule nth_equalityI) (auto simp: bb_inv_def bb_data_def nth_append min_def)

lemma bb_inv_iff: "bb_inv b \<longleftrightarrow>
  (\<exists>d. bb_mem b = d @ replicate (Suc (unat (bb_capacity b)) - unat (bb_size b)) 0 \<and>
       length d = unat (bb_size b) \<and> unat (bb_size b) \<le> unat (bb_capacity b) \<and> 0 < unat (bb_capacity b) \<and>
       bb_capacity b \<noteq> -1)"
proof
  assume "bb_inv b"
  then show "\<exists>d. bb_mem b = d @ replicate (Suc (unat (bb_capacity b)) - unat (bb_size b)) 0 \<and>
       length d = unat (bb_size b) \<and> unat (bb_size b) \<le> unat (bb_capacity b) \<and> 0 < unat (bb_capacity b) \<and>
       bb_capacity b \<noteq> -1"
    using bb_mem_split [of b] length_bb_data [of b] unfolding bb_inv_def by blast
qed (auto simp: bb_inv_def nth_append)

lemma bb_inv_parts:
  assumes "bb_inv b"
  shows "length (bb_mem b) = Suc (unat (bb_capacity b))" "unat (bb_size b) \<le> unat (bb_capacity b)" "bb_mem b \<noteq> []"
    "0 < unat (bb_capacity b)" "bb_capacity b \<noteq> -1"
  using assms by (auto simp: bb_inv_def)

lemma unat_suc_u64: "w \<noteq> -1 \<Longrightarrow> unat (w + 1 :: u64) = Suc (unat w)"
  by (metis add.commute unat_eq_zero unatSuc add_eq_0_iff)

text \<open>How to recognise a buffer with a given content.\<close>

lemma bb_contentI:
  assumes "bb_mem b = d @ replicate k 0" and "length d = unat (bb_size b)"
    and "unat (bb_size b) + k = Suc (unat (bb_capacity b))" and "0 < k" and "0 < unat (bb_capacity b)"
    and "bb_capacity b \<noteq> -1"
  shows "bb_inv b \<and> bb_data b = d"
proof -
  from assms(3) have "k = Suc (unat (bb_capacity b)) - unat (bb_size b)" by simp
  with assms show ?thesis by (auto simp: bb_inv_iff bb_data_def)
qed

lemma bb_content:
  assumes "bb_inv b"
  obtains k where "bb_mem b = bb_data b @ replicate (Suc k) 0" "length (bb_data b) = unat (bb_size b)"
    "unat (bb_size b) + k = unat (bb_capacity b)" "0 < unat (bb_capacity b)" "bb_capacity b \<noteq> -1"
proof
  from bb_inv_parts [OF assms] show "unat (bb_size b) + (unat (bb_capacity b) - unat (bb_size b)) = unat (bb_capacity b)"
    by simp
  from bb_inv_parts [OF assms] have "Suc (unat (bb_capacity b)) - unat (bb_size b) = Suc (unat (bb_capacity b) - unat (bb_size b))"
    by simp
  then show "bb_mem b = bb_data b @ replicate (Suc (unat (bb_capacity b) - unat (bb_size b))) 0"
    using bb_mem_split [OF assms] by simp
qed (use assms in \<open>simp_all add: length_bb_data bb_inv_parts\<close>)

section \<open>Every operation\<close>

lemma blit_append_left: "off + length src \<le> length d \<Longrightarrow> blit off src (d @ r) = blit off src d @ r"
  by (simp add: blit_def)

lemma Put_spec:
  assumes "bb_inv b" and "unat offset < unat (bb_size b)" and "n = min (unat count) (unat (bb_size b) - unat offset)"
    and "n \<le> length buf"
  shows "\<exists>b'. Put buf count offset b = Inr b' \<and> bb_inv b' \<and> bb_data b' = blit (unat offset) (take n buf) (bb_data b) \<and>
    bb_size b' = bb_size b"
proof -
  obtain k where k: "bb_mem b = bb_data b @ replicate (Suc k) 0" "length (bb_data b) = unat (bb_size b)"
    "unat (bb_size b) + k = unat (bb_capacity b)" "0 < unat (bb_capacity b)" "bb_capacity b \<noteq> -1"
    using bb_content [OF assms(1)] .
  let ?n = "if count < bb_size b - offset then count else bb_size b - offset"
  have off: "\<not> offset \<ge> bb_size b" using assms(2) by (simp add: word_le_nat_alt)
  then have "unat (bb_size b - offset) = unat (bb_size b) - unat offset" by (simp add: unat_sub word_le_nat_alt)
  then have n: "unat ?n = n" using assms(3) by (simp add: word_less_nat_alt)
  have fits: "unat offset + length (take n buf) \<le> length (bb_data b)" using assms(2-4) k(2) by simp
  let ?b' = "b\<lparr>bb_mem := blit (unat offset) (take n buf) (bb_mem b)\<rparr>"
  have "Put buf count offset b = Inr ?b'"
    unfolding Put_def Let_def if_not_P [OF off] buf_get_def n using assms(4) fits k(1) by (simp add: mem_put_def)
  moreover have "bb_inv ?b' \<and> bb_data ?b' = blit (unat offset) (take n buf) (bb_data b)"
    by (rule bb_contentI [where k = "Suc k"]) (use k fits in \<open>simp_all add: blit_append_left length_blit\<close>)
  ultimately show ?thesis by fastforce
qed

lemma Put_skip: "bb_size b \<le> offset \<Longrightarrow> Put buf count offset b = Inr b"
  by (simp add: Put_def)

lemma Compact_spec:
  assumes "bb_inv b" and "unat offset + unat remains \<le> unat (bb_size b)"
  shows "\<exists>b'. Compact offset remains b = Inr b' \<and> bb_inv b' \<and> bb_size b' = bb_size b \<and>
    bb_data b' = take (unat remains) (drop (unat offset) (bb_data b)) @ replicate (unat (bb_size b) - unat remains) 0"
proof -
  obtain k where k: "bb_mem b = bb_data b @ replicate (Suc k) 0" "length (bb_data b) = unat (bb_size b)"
    "unat (bb_size b) + k = unat (bb_capacity b)" "0 < unat (bb_capacity b)" "bb_capacity b \<noteq> -1"
    using bb_content [OF assms(1)] .
  let ?src = "take (unat remains) (drop (unat offset) (bb_data b))"
  have "unat (bb_size b) < 2 ^ 64" using unsigned_less [of "bb_size b"] by simp
  with assms(2) have "unat (offset + remains) = unat offset + unat remains"
    by (subst unat_add_lem [THEN iffD1]) simp_all
  with assms(2) have cond: "offset + remains \<le> bb_size b" by (simp add: word_le_nat_alt)
  have rs: "remains \<le> bb_size b" using assms(2) by (simp add: word_le_nat_alt)
  then have sz: "unat (bb_size b - remains) = unat (bb_size b) - unat remains" by (simp add: unat_sub)
  have src: "take (unat remains) (drop (unat offset) (bb_mem b)) = ?src"
    using assms(2) k(1,2) by (simp add: k(1))
  have len: "length ?src = unat remains" using assms(2) k(2) by simp
  let ?b1 = "b\<lparr>bb_mem := blit 0 ?src (bb_mem b)\<rparr>"
  have first: "(if remains > 0 then bind_err (mem_get offset remains b) (\<lambda>src. mem_put 0 src b) else Inr b) = Inr ?b1"
    using assms(2) k(1,2) len by (auto simp: mem_get_def mem_put_def src word_gt_0 unat_eq_0 unat_gt_0)
  have b1: "blit 0 ?src (bb_mem b) = ?src @ drop (unat remains) (bb_data b) @ replicate (Suc k) 0"
    using len k(1,2) assms(2) by (simp add: blit_def)
  let ?b2 = "?b1\<lparr>bb_mem := fill (unat remains) (unat (bb_size b) - unat remains) 0 (bb_mem ?b1)\<rparr>"
  have run: "Compact offset remains b = Inr ?b2"
    using k(2) len assms(2) by (simp add: Compact_def cond first mem_set_def sz b1)
  have mem: "bb_mem ?b2 = (?src @ replicate (unat (bb_size b) - unat remains) 0) @ replicate (Suc k) 0"
  proof -
    have "drop (unat (bb_size b)) (bb_mem b) = replicate (Suc k) 0" by (subst k(1)) (simp add: k(2))
    then show ?thesis using len k(2) assms(2) by (simp add: b1 fill_def blit_def)
  qed
  have "bb_inv ?b2 \<and> bb_data ?b2 = ?src @ replicate (unat (bb_size b) - unat remains) 0"
    by (rule bb_contentI [OF mem]) (use len k assms(2) in simp_all)
  with run show ?thesis by fastforce
qed

lemma XAlloc_grow_spec:
  assumes "bb_inv b" and "unat (bb_capacity b) < unat capacity" and "capacity \<noteq> -1"
  shows "XAlloc capacity True b =
    Inr (b\<lparr>bb_mem := bb_data b @ replicate (Suc (unat capacity) - unat (bb_size b)) 0, bb_capacity := capacity\<rparr>)"
proof -
  have "capacity > bb_capacity b" using assms(2) by (simp add: word_less_nat_alt)
  moreover have "mem_get 0 (bb_size b) b = Inr (bb_data b)"
    using bb_inv_parts [OF assms(1)] by (simp add: mem_get_def bb_data_def)
  moreover have "blit 0 (bb_data b) (replicate (Suc (unat capacity)) 0)
      = bb_data b @ replicate (Suc (unat capacity) - unat (bb_size b)) 0"
    using length_bb_data [OF assms(1)] by (simp add: blit_def del: replicate_Suc)
  ultimately show ?thesis
    using bb_inv_parts [OF assms(1)] assms(2,3) length_bb_data [OF assms(1)]
    by (simp add: XAlloc_def mem_put_def unat_suc_u64)
qed

lemma Expand_spec:
  assumes "bb_inv b" and "newsize \<noteq> -1"
  shows "\<exists>b'. Expand newsize b = Inr b' \<and> bb_inv b' \<and> bb_size b' = newsize \<and>
    bb_data b' = take (unat newsize) (bb_data b) @ replicate (unat newsize - unat (bb_size b)) 0"
proof -
  obtain k where k: "bb_mem b = bb_data b @ replicate (Suc k) 0" "length (bb_data b) = unat (bb_size b)"
    "unat (bb_size b) + k = unat (bb_capacity b)" "0 < unat (bb_capacity b)" "bb_capacity b \<noteq> -1"
    using bb_content [OF assms(1)] .
  let ?n = "unat newsize"
  consider (grow) "unat (bb_capacity b) < ?n" | (within) "unat (bb_size b) < ?n" "?n \<le> unat (bb_capacity b)"
    | (shrink) "?n < unat (bb_size b)" | (same) "?n = unat (bb_size b)" by linarith
  then show ?thesis
  proof cases
    case grow
    let ?b' = "b\<lparr>bb_mem := bb_data b @ replicate (Suc ?n - unat (bb_size b)) 0, bb_capacity := newsize, bb_size := newsize\<rparr>"
    have run: "Expand newsize b = Inr ?b'"
      using grow k(3) XAlloc_grow_spec [OF assms(1) grow assms(2)] by (simp add: Expand_def word_less_nat_alt)
    have "bb_mem ?b' = (bb_data b @ replicate (?n - unat (bb_size b)) 0) @ replicate 1 0"
      using grow k(3) by (simp add: Suc_diff_le replicate_app_Cons_same)
    then have "bb_inv ?b' \<and> bb_data ?b' = bb_data b @ replicate (?n - unat (bb_size b)) 0"
      by (rule bb_contentI) (use grow k assms(2) in simp_all)
    with run grow k show ?thesis by fastforce
  next
    case within
    let ?b' = "b\<lparr>bb_size := newsize\<rparr>"
    have run: "Expand newsize b = Inr ?b'"
      using within by (simp add: Expand_def XAlloc_def word_less_nat_alt)
    have "replicate (Suc k) (0 :: u8) = replicate (?n - unat (bb_size b)) 0 @ replicate (Suc k - (?n - unat (bb_size b))) 0"
      using within k(3) by (simp flip: replicate_add)
    then have "bb_mem ?b' = (bb_data b @ replicate (?n - unat (bb_size b)) 0) @ replicate (Suc k - (?n - unat (bb_size b))) 0"
      using k(1) by simp
    then have "bb_inv ?b' \<and> bb_data ?b' = bb_data b @ replicate (?n - unat (bb_size b)) 0"
      by (rule bb_contentI) (use within k in simp_all)
    with run within k show ?thesis by fastforce
  next
    case shrink
    have sz: "unat (bb_size b - newsize) = unat (bb_size b) - ?n"
      using shrink by (simp add: unat_sub word_le_nat_alt)
    let ?b' = "b\<lparr>bb_mem := fill ?n (unat (bb_size b) - ?n) 0 (bb_mem b), bb_size := newsize\<rparr>"
    have run: "Expand newsize b = Inr ?b'"
      using shrink bb_inv_parts [OF assms(1)] by (simp add: Expand_def word_less_nat_alt mem_set_def sz)
    have "drop (unat (bb_size b)) (bb_mem b) = replicate (Suc k) 0" by (subst k(1)) (simp add: k(2))
    then have "bb_mem ?b' = take ?n (bb_data b) @ replicate (unat (bb_size b) - ?n) 0 @ replicate (Suc k) 0"
      using shrink by (simp add: fill_def blit_def bb_data_def)
    then have "bb_mem ?b' = take ?n (bb_data b) @ replicate (unat (bb_size b) - ?n + Suc k) 0"
      by (simp only: replicate_add)
    then have "bb_inv ?b' \<and> bb_data ?b' = take ?n (bb_data b)"
      by (rule bb_contentI) (use shrink k in simp_all)
    with run shrink k show ?thesis by fastforce
  next
    case same
    then have "newsize = bb_size b" by (rule word_unat_eq_iff [THEN iffD2])
    with assms(1) k(2) show ?thesis by (simp add: Expand_def)
  qed
qed

lemma unat_sub_suc:
  assumes "unat o' \<le> unat c" and "(c :: u64) \<noteq> -1"
  shows "unat (c - o' + 1) = Suc (unat c - unat o')"
proof -
  have d: "unat (c - o') = unat c - unat o'" using assms(1) by (simp add: unat_sub word_le_nat_alt)
  have "c - o' \<noteq> -1"
  proof
    assume "c - o' = -1"
    with d have "unat (-1 :: u64) \<le> unat c" by simp
    then have "-1 \<le> c" by (simp only: word_le_nat_alt)
    with assms(2) show False by (simp add: word_order.extremum_unique)
  qed
  with d show ?thesis by (simp add: unat_suc_u64)
qed

lemma Zero_spec:
  assumes "bb_inv b"
  shows "\<exists>b'. Zero offset b = Inr b' \<and> bb_inv b' \<and> bb_size b' = bb_size b \<and> bb_capacity b' = bb_capacity b \<and>
    bb_data b' = take (unat offset) (bb_data b) @ replicate (unat (bb_size b) - unat offset) 0"
proof (cases "unat offset < unat (bb_capacity b)")
  case False
  then have "Zero offset b = Inr b" by (simp add: Zero_def word_less_nat_alt)
  moreover have "unat (bb_size b) \<le> unat offset" using False bb_inv_parts [OF assms] by simp
  ultimately show ?thesis using assms length_bb_data [OF assms] by simp
next
  case True
  obtain k where k: "bb_mem b = bb_data b @ replicate (Suc k) 0" "length (bb_data b) = unat (bb_size b)"
    "unat (bb_size b) + k = unat (bb_capacity b)" "0 < unat (bb_capacity b)" "bb_capacity b \<noteq> -1"
    using bb_content [OF assms] .
  let ?o = "unat offset" and ?c = "unat (bb_capacity b)" and ?s = "unat (bb_size b)"
  have n: "unat (bb_capacity b - offset + 1) = Suc (?c - ?o)" using True k(5) by (simp add: unat_sub_suc)
  let ?b' = "b\<lparr>bb_mem := take ?o (bb_mem b) @ replicate (Suc (?c - ?o)) 0\<rparr>"
  have "fill ?o (Suc (?c - ?o)) 0 (bb_mem b) = take ?o (bb_mem b) @ replicate (Suc (?c - ?o)) 0"
    using True bb_inv_parts(1) [OF assms] by (simp add: fill_def blit_def)
  then have run: "Zero offset b = Inr ?b'"
    using True bb_inv_parts [OF assms] by (simp add: Zero_def word_less_nat_alt mem_set_def n del: replicate_Suc)
  have t: "take ?o (bb_mem b) = take ?o (bb_data b) @ replicate (min (?o - ?s) (Suc k)) 0"
    by (subst k(1)) (simp add: k(2) del: replicate_Suc)
  have "min (?o - ?s) (Suc k) + Suc (?c - ?o) = (?s - ?o) + Suc k" using True k(3) by auto
  then have "replicate (min (?o - ?s) (Suc k)) (0 :: u8) @ replicate (Suc (?c - ?o)) 0
      = replicate (?s - ?o) 0 @ replicate (Suc k) 0"
    by (simp only: replicate_add [symmetric])
  then have "bb_mem ?b' = (take ?o (bb_data b) @ replicate (?s - ?o) 0) @ replicate (Suc k) 0"
    using t by simp
  then have "bb_inv ?b' \<and> bb_data ?b' = take ?o (bb_data b) @ replicate (?s - ?o) 0"
    by (rule bb_contentI) (use k in simp_all)
  with run show ?thesis by fastforce
qed

lemma XAlloc_fresh_spec:
  assumes "bb_inv b" and "capacity \<noteq> -1"
  shows "\<exists>b1. XAlloc capacity False b = Inr b1 \<and> bb_inv b1 \<and> unat capacity \<le> unat (bb_capacity b1)"
proof (cases "capacity > bb_capacity b")
  case True
  let ?b1 = "b\<lparr>bb_mem := replicate (Suc (unat capacity)) 0, bb_capacity := capacity\<rparr>"
  have "XAlloc capacity False b = Inr ?b1" using True assms(2) by (simp add: XAlloc_def unat_suc_u64)
  moreover have "bb_inv ?b1"
    using True assms bb_inv_parts [OF assms(1)]
    by (simp add: bb_inv_def word_less_nat_alt del: replicate_Suc)
  ultimately show ?thesis by fastforce
next
  case False
  with assms(1) show ?thesis by (auto simp: XAlloc_def word_less_nat_alt)
qed

lemma Reset_spec:
  assumes "bb_inv b" and "sz \<noteq> -1"
  shows "\<exists>b'. Reset sz None b = Inr b' \<and> bb_inv b' \<and> bb_size b' = sz \<and> bb_data b' = replicate (unat sz) 0"
    and "unat sz \<le> length d \<Longrightarrow>
      \<exists>b'. Reset sz (Some d) b = Inr b' \<and> bb_inv b' \<and> bb_size b' = sz \<and> bb_data b' = take (unat sz) d"
proof -
  obtain b1 where b1: "XAlloc sz False b = Inr b1" "bb_inv b1" "unat sz \<le> unat (bb_capacity b1)"
    using XAlloc_fresh_spec [OF assms] by blast
  obtain b2 where b2: "Zero 0 b1 = Inr b2" "bb_inv b2" "bb_size b2 = bb_size b1" "bb_capacity b2 = bb_capacity b1"
      "bb_data b2 = replicate (unat (bb_size b1)) 0"
    using Zero_spec [OF b1(2), of 0] by auto
  obtain k where k: "bb_mem b2 = bb_data b2 @ replicate (Suc k) 0" "length (bb_data b2) = unat (bb_size b2)"
    "unat (bb_size b2) + k = unat (bb_capacity b2)" "0 < unat (bb_capacity b2)" "bb_capacity b2 \<noteq> -1"
    using bb_content [OF b2(2)] .
  let ?b3 = "b2\<lparr>bb_size := sz\<rparr>" and ?r = "Suc (unat (bb_capacity b2) - unat sz)"
  have "unat (bb_size b2) + Suc k = unat sz + ?r" using k(3) b1(3) b2(4) by simp
  then have mem: "bb_mem ?b3 = replicate (unat sz) 0 @ replicate ?r 0"
    using k(1) b2(3,5) by (simp add: replicate_add [symmetric] del: replicate_Suc)
  have "bb_inv ?b3 \<and> bb_data ?b3 = replicate (unat sz) 0"
    by (rule bb_contentI [OF mem]) (use k b1(3) b2(4) in simp_all)
  then show "\<exists>b'. Reset sz None b = Inr b' \<and> bb_inv b' \<and> bb_size b' = sz \<and> bb_data b' = replicate (unat sz) 0"
    using b1(1) b2(1) by (simp add: Reset_def)
  assume d: "unat sz \<le> length d"
  let ?b4 = "?b3\<lparr>bb_mem := take (unat sz) d @ replicate ?r 0\<rparr>"
  have "blit 0 (take (unat sz) d) (bb_mem ?b3) = take (unat sz) d @ replicate ?r 0"
    unfolding mem using d by (simp add: blit_def del: replicate_Suc)
  moreover have "unat sz \<le> length (bb_mem ?b3)" unfolding mem by simp
  ultimately have run: "Reset sz (Some d) b = Inr ?b4"
    using b1(1) b2(1) d by (simp add: Reset_def buf_get_def mem_put_def del: replicate_Suc)
  have "bb_inv ?b4 \<and> bb_data ?b4 = take (unat sz) d"
    by (rule bb_contentI [where k = ?r]) (use k b1(3) b2(4) d in simp_all)
  with run show "\<exists>b'. Reset sz (Some d) b = Inr b' \<and> bb_inv b' \<and> bb_size b' = sz \<and> bb_data b' = take (unat sz) d"
    by fastforce
qed

lemma Clean_spec:
  assumes "bb_inv b"
  shows "\<exists>b'. Clean b = Inr b' \<and> bb_inv b' \<and> bb_size b' = bb_capacity b \<and>
    bb_data b' = replicate (unat (bb_capacity b)) 0"
proof -
  let ?b' = "b\<lparr>bb_size := bb_capacity b, bb_mem := replicate (Suc (unat (bb_capacity b))) 0\<rparr>"
  have "Clean b = Inr ?b'"
    using bb_inv_parts [OF assms] by (simp add: Clean_def mem_set_def unat_suc_u64 fill_def blit_def)
  moreover have "bb_inv ?b' \<and> bb_data ?b' = replicate (unat (bb_capacity b)) 0"
    by (rule bb_contentI [where k = 1]) (use bb_inv_parts [OF assms] in \<open>simp_all add: replicate_append_same\<close>)
  ultimately show ?thesis by fastforce
qed

lemma unat_minus_1_u64: "unat (-1 :: u64) = 18446744073709551615"
  by (simp add: unsigned_minus_1_eq_mask mask_eq_exp_minus_1)

lemma Sprintf_spec:
  assumes "bb_inv b" and "length text < 2 ^ 64 - 2"
  shows "\<exists>b'. Sprintf text b = Inr b' \<and> bb_inv b' \<and> unat (bb_size b') = Suc (length text) \<and> bb_data b' = text @ [0]"
proof -
  let ?n = "word_of_nat (length text) + 1 :: u64"
  have l: "unat (word_of_nat (length text) :: u64) = length text"
    using assms(2) by (simp add: unat_of_nat)
  have "word_of_nat (length text) \<noteq> (-1 :: u64)"
  proof
    assume "word_of_nat (length text) = (-1 :: u64)"
    then have "length text = unat (-1 :: u64)" using l by simp
    with assms(2) show False by (simp add: unat_minus_1_u64)
  qed
  then have n: "unat ?n = Suc (length text)" using l by (simp add: unat_suc_u64)
  have "?n \<noteq> -1"
  proof
    assume "?n = -1"
    with n have "Suc (length text) = unat (-1 :: u64)" by (simp only:)
    with assms(2) show False by (simp add: unat_minus_1_u64)
  qed
  from Expand_spec [OF assms(1) this] obtain b1 where
    b1: "Expand ?n b = Inr b1" "bb_inv b1" "bb_size b1 = ?n" by blast
  obtain k where k: "bb_mem b1 = bb_data b1 @ replicate (Suc k) 0" "length (bb_data b1) = unat (bb_size b1)"
    "unat (bb_size b1) + k = unat (bb_capacity b1)" "0 < unat (bb_capacity b1)" "bb_capacity b1 \<noteq> -1"
    using bb_content [OF b1(2)] .
  have s1: "unat (bb_size b1) = Suc (length text)" using b1(3) n by simp
  then have pos: "bb_size b1 \<noteq> 0" by auto
  let ?b' = "b1\<lparr>bb_mem := (text @ [0]) @ replicate (Suc k) 0\<rparr>"
  have "Sprintf text b = Inr ?b'"
    using b1(1) pos k(1,2) s1 by (simp add: Sprintf_def mem_put_def blit_def)
  moreover have "bb_inv ?b' \<and> bb_data ?b' = text @ [0]"
    by (rule bb_contentI [where k = "Suc k"]) (use k s1 in simp_all)
  ultimately show ?thesis using s1 by fastforce
qed

lemma bb_set_spec:
  assumes "bb_inv b" and "unat i < unat (bb_size b)"
  shows "\<exists>b'. bb_set i v b = Inr b' \<and> bb_inv b' \<and> bb_size b' = bb_size b \<and> bb_data b' = (bb_data b)[unat i := v]"
proof -
  obtain k where k: "bb_mem b = bb_data b @ replicate (Suc k) 0" "length (bb_data b) = unat (bb_size b)"
    "unat (bb_size b) + k = unat (bb_capacity b)" "0 < unat (bb_capacity b)" "bb_capacity b \<noteq> -1"
    using bb_content [OF assms(1)] .
  have "blit (unat i) [v] (bb_data b) = (bb_data b)[unat i := v]"
    using assms(2) k(2) by (simp add: blit_def upd_conv_take_nth_drop)
  then have m: "blit (unat i) [v] (bb_mem b) = (bb_data b)[unat i := v] @ replicate (Suc k) 0"
    using assms(2) k(1,2) by (subst k(1)) (simp add: blit_append_left)
  let ?b' = "b\<lparr>bb_mem := (bb_data b)[unat i := v] @ replicate (Suc k) 0\<rparr>"
  have "bb_set i v b = Inr ?b'"
    using assms(2) bb_inv_parts [OF assms(1)] by (simp add: bb_set_def mem_put_def m)
  moreover have "bb_inv ?b' \<and> bb_data ?b' = (bb_data b)[unat i := v]"
    by (rule bb_contentI [where k = "Suc k"]) (use k in simp_all)
  ultimately show ?thesis by fastforce
qed

lemma bb_new_spec:
  assumes "sz \<noteq> -1" and "data \<noteq> None \<longrightarrow> unat sz \<le> length (the data)"
  shows "\<exists>b. bb_new sz data = Inr b \<and> bb_inv b \<and> unat (bb_size b) = max 1 (unat sz) \<and>
    bb_data b = (case data of Some d \<Rightarrow> if sz = 0 then [0] else take (unat sz) d | None \<Rightarrow> replicate (max 1 (unat sz)) 0)"
proof -
  let ?m = "if 1 > sz then 1 else sz"
  have m: "unat ?m = max 1 (unat sz)" by (auto simp: word_less_nat_alt)
  have "?m \<noteq> -1" using assms(1) by auto
  then have s: "unat (?m + 1) = Suc (max 1 (unat sz))" using m by (simp add: unat_suc_u64)
  let ?b = "\<lparr>bb_capacity = ?m, bb_size = ?m, bb_mem = replicate (Suc (max 1 (unat sz))) 0\<rparr>"
  have alloc: "XAlloc ?m False \<lparr>bb_capacity = 0, bb_size = ?m, bb_mem = []\<rparr> = Inr ?b"
    using s m by (simp add: XAlloc_def word_less_nat_alt)
  have new: "bb_new sz data = (case data of
      Some d \<Rightarrow> if sz > 0 then bind_err (buf_get sz d) (\<lambda>src. mem_put 0 src ?b) else Inr ?b | None \<Rightarrow> Inr ?b)"
    by (simp only: bb_new_def Let_def alloc bind_err_simps)
  have mem: "bb_mem ?b = replicate (max 1 (unat sz)) 0 @ replicate 1 0"
    by (simp add: replicate_app_Cons_same)
  have inv: "bb_inv ?b \<and> bb_data ?b = replicate (max 1 (unat sz)) 0"
    by (rule bb_contentI [OF mem]) (use m \<open>?m \<noteq> -1\<close> in simp_all)
  show ?thesis
  proof (cases data)
    case None
    then have "bb_new sz data = Inr ?b" unfolding new by simp
    with inv m None show ?thesis by (intro exI [of _ ?b]) (simp only: option.case byte_buffer.simps simp_thms)
  next
    case (Some d)
    show ?thesis
    proof (cases "sz = 0")
      case True
      with Some have "bb_new sz data = Inr ?b" unfolding new by simp
      with inv True Some m show ?thesis by simp
    next
      case False
      then have p: "0 < unat sz" by (simp add: unat_gt_0)
      let ?b' = "?b\<lparr>bb_mem := take (unat sz) d @ replicate 1 0\<rparr>"
      have "blit 0 (take (unat sz) d) (bb_mem ?b) = take (unat sz) d @ replicate 1 0"
        unfolding mem using p Some assms(2) by (simp add: blit_def)
      then have run: "bb_new sz data = Inr ?b'"
        using p False assms(2) unfolding Some new [unfolded Some]
        by (simp add: buf_get_def mem_put_def word_gt_0 del: replicate_Suc)
      have "bb_inv ?b' \<and> bb_data ?b' = take (unat sz) d"
        by (rule bb_contentI [where k = 1]) (use m p Some assms(2) \<open>?m \<noteq> -1\<close> in simp_all)
      with run Some False m p show ?thesis by fastforce
    qed
  qed
qed

section \<open>Runs, against byte lists\<close>

datatype bb_op =
  BPut bytes u64 u64 | BCompact u64 u64 | BExpand u64 | BReset u64 "bytes option" | BZero u64 | BClean
| BSprintf bytes | BGet32 u64 | BSet u64 u8

fun bb_step :: "bb_op \<Rightarrow> byte_buffer \<Rightarrow> mem_error + byte_buffer" where
  "bb_step (BPut buf count offset) b = Put buf count offset b"
| "bb_step (BCompact offset remains) b = Compact offset remains b"
| "bb_step (BExpand n) b = Expand n b"
| "bb_step (BReset n d) b = Reset n d b"
| "bb_step (BZero offset) b = Zero offset b"
| "bb_step BClean b = Clean b"
| "bb_step (BSprintf text) b = Sprintf text b"
| "bb_step (BGet32 offset) b = bind_err (GetUINT32 offset b) (\<lambda>_. Inr b)"
| "bb_step (BSet i v) b = bb_set i v b"

text \<open>What a caller has to keep to: its buffers are as long as it says, sums do not wrap, and \<open>operator[]\<close>, which checks
  nothing, is given an index below the size.\<close>

fun bb_op_ok :: "byte_buffer \<Rightarrow> bb_op \<Rightarrow> bool" where
  "bb_op_ok b (BPut buf count offset) \<longleftrightarrow> unat count \<le> length buf"
| "bb_op_ok b (BCompact offset remains) \<longleftrightarrow> unat offset + unat remains < 2 ^ 64"
| "bb_op_ok b (BExpand n) \<longleftrightarrow> n \<noteq> -1"
| "bb_op_ok b (BReset n d) \<longleftrightarrow> n \<noteq> -1 \<and> (case d of None \<Rightarrow> True | Some bs \<Rightarrow> unat n \<le> length bs)"
| "bb_op_ok b (BSprintf text) \<longleftrightarrow> length text < 2 ^ 64 - 2"
| "bb_op_ok b (BGet32 offset) \<longleftrightarrow> unat offset + 4 < 2 ^ 64"
| "bb_op_ok b (BSet i v) \<longleftrightarrow> unat i < unat (bb_size b)"
| "bb_op_ok b _ \<longleftrightarrow> True"

fun bb_ops_ok :: "bb_op list \<Rightarrow> byte_buffer \<Rightarrow> bool" where
  "bb_ops_ok [] b = True"
| "bb_ops_ok (op # ops) b = (bb_op_ok b op \<and> (case bb_step op b of Inl e \<Rightarrow> True | Inr b' \<Rightarrow> bb_ops_ok ops b'))"

text \<open>The same operations on a plain byte list; \<open>BClean\<close> depends on the capacity, \<open>c\<close>.\<close>

fun bb_abs :: "nat \<Rightarrow> bb_op \<Rightarrow> bytes \<Rightarrow> bytes" where
  "bb_abs c (BPut buf count offset) d =
    (if length d \<le> unat offset then d
     else blit (unat offset) (take (min (unat count) (length d - unat offset)) buf) d)"
| "bb_abs c (BCompact offset remains) d =
    (if length d < unat offset + unat remains then d
     else take (unat remains) (drop (unat offset) d) @ replicate (length d - unat remains) 0)"
| "bb_abs c (BExpand n) d = take (unat n) d @ replicate (unat n - length d) 0"
| "bb_abs c (BReset n None) d = replicate (unat n) 0"
| "bb_abs c (BReset n (Some bs)) d = take (unat n) bs"
| "bb_abs c (BZero offset) d = take (unat offset) d @ replicate (length d - unat offset) 0"
| "bb_abs c BClean d = replicate c 0"
| "bb_abs c (BSprintf text) d = text @ [0]"
| "bb_abs c (BGet32 offset) d = d"
| "bb_abs c (BSet i v) d = d[unat i := v]"

lemma GetUINT32_total:
  assumes "bb_inv b" and "unat offset + 4 < 2 ^ 64"
  shows "\<exists>v. GetUINT32 offset b = Inr v"
proof -
  have "unat (offset + 4) = unat offset + 4" using assms(2) by (subst unat_add_lem [THEN iffD1]) simp_all
  then show ?thesis
    using bb_inv_parts [OF assms(1)] by (auto simp: GetUINT32_def mem_get_def word_le_nat_alt)
qed

lemma bb_step_spec:
  assumes "bb_inv b" and "bb_op_ok b op"
  shows "\<exists>b'. bb_step op b = Inr b' \<and> bb_inv b' \<and> bb_data b' = bb_abs (unat (bb_capacity b)) op (bb_data b)"
proof (cases op)
  case (BPut buf count offset)
  show ?thesis
  proof (cases "unat (bb_size b) \<le> unat offset")
    case True
    with BPut assms show ?thesis by (simp add: Put_skip word_le_nat_alt length_bb_data)
  next
    case False
    have "min (unat count) (unat (bb_size b) - unat offset) \<le> length buf" using BPut assms(2) by simp
    from Put_spec [OF assms(1) _ refl this] False BPut assms(1) show ?thesis
      by (auto simp: length_bb_data)
  qed
next
  case (BCompact offset remains)
  show ?thesis
  proof (cases "unat offset + unat remains \<le> unat (bb_size b)")
    case True
    with Compact_spec [OF assms(1) True] BCompact assms(1) show ?thesis by (auto simp: length_bb_data)
  next
    case False
    from BCompact assms(2) have "unat (offset + remains) = unat offset + unat remains"
      by (subst unat_add_lem [THEN iffD1]) simp_all
    with False have "\<not> offset + remains \<le> bb_size b" by (simp add: word_le_nat_alt)
    with False BCompact assms(1) show ?thesis by (simp add: Compact_def length_bb_data)
  qed
next
  case (BExpand n)
  with Expand_spec [OF assms(1), of n] assms show ?thesis by (auto simp: length_bb_data)
next
  case (BReset n d)
  with Reset_spec [OF assms(1), of n] assms(2) show ?thesis by (cases d) auto
next
  case (BZero offset)
  with Zero_spec [OF assms(1), of offset] assms(1) show ?thesis by (auto simp: length_bb_data)
next
  case BClean
  with Clean_spec [OF assms(1)] show ?thesis by auto
next
  case (BSprintf str)
  with Sprintf_spec [OF assms(1), of str] assms(2) show ?thesis by auto
next
  case (BGet32 offset)
  with GetUINT32_total [OF assms(1), of offset] assms show ?thesis by auto
next
  case (BSet i v)
  with bb_set_spec [OF assms(1), of i v] assms(2) show ?thesis by auto
qed

lemma bb_run: "bb_inv b \<Longrightarrow> bb_ops_ok ops b \<Longrightarrow> \<exists>b'. run_steps bb_step ops b = Inr b' \<and> bb_inv b'"
proof (induction ops arbitrary: b)
  case (Cons op ops)
  obtain b' where "bb_step op b = Inr b'" "bb_inv b'"
    using bb_step_spec [of b op] Cons.prems by auto
  then show ?case
    using Cons by auto
qed simp

text \<open>A buffer built by its constructor and used by a caller whose lengths are true, whose sums do not wrap and whose
  indices are below the size never reads or writes outside its block, whatever the sequence of operations; it keeps one
  zero byte behind the capacity and only zeros behind the logical size.\<close>

theorem byte_buffer_safe:
  assumes "sz \<noteq> -1" and "data \<noteq> None \<longrightarrow> unat sz \<le> length (the data)"
    and "case bb_new sz data of Inl e \<Rightarrow> True | Inr b0 \<Rightarrow> bb_ops_ok ops b0"
  shows "\<exists>b0 b. bb_new sz data = Inr b0 \<and> run_steps bb_step ops b0 = Inr b \<and> bb_inv b"
proof -
  obtain b0 where b0: "bb_new sz data = Inr b0" "bb_inv b0"
    using bb_new_spec [OF assms(1,2)] by blast
  then show ?thesis
    using bb_run [OF b0(2), of ops] assms(3) by simp
qed

theorem byte_buffer_safe_witness:
  "\<exists>b0 b. bb_new 4 (Some [1, 2, 3, 4]) = Inr b0 \<and>
     run_steps bb_step [BExpand 8, BPut [9] 1 7, BCompact 2 6, BZero 3, BGet32 6, BClean] b0 = Inr b \<and> bb_inv b"
proof -
  have "bb_ops_ok [BExpand 8, BPut [9] 1 7, BCompact 2 6, BZero 3, BGet32 6, BClean] b" for b
    by (simp split: sum.split)
  then show ?thesis
    using byte_buffer_safe [of 4 "Some [1, 2, 3, 4]" "[BExpand 8, BPut [9] 1 7, BCompact 2 6, BZero 3, BGet32 6, BClean]"]
    by (simp del: bb_ops_ok.simps bb_step.simps split: sum.split)
qed


definition demo_buffer :: byte_buffer where
  "demo_buffer = \<lparr>bb_capacity = 4, bb_size = 3, bb_mem = [7, 8, 9, 0, 0]\<rparr>"

lemma demo_buffer_inv: "bb_inv demo_buffer"
  by (auto simp: bb_inv_def demo_buffer_def nth_Cons split: nat.splits)


text \<open>The guards of \<open>Compact\<close> and \<open>GetUINT32\<close> add before they compare, so an offset near \<open>2 ^ 64\<close>
  passes them and the access behind them is outside the block.\<close>

theorem byte_buffer_guard_wraps:
  assumes "bb_inv b"
  shows "Compact (-1) 1 b = Inl OutOfBounds \<and> GetUINT32 (-4) b = Inl OutOfBounds"
proof -
  have l: "length (bb_mem b) \<le> 18446744073709551615"
  proof -
    have "unat (bb_capacity b) < 18446744073709551616" using unsigned_less [of "bb_capacity b"] by simp
    moreover have "unat (bb_capacity b) \<noteq> unat (-1 :: u64)"
      using bb_inv_parts(5) [OF assms] by (metis word_unat_eq_iff)
    ultimately show ?thesis using bb_inv_parts(1) [OF assms] by (simp add: unat_minus_1_u64)
  qed
  have "unat (-4 :: u64) = 18446744073709551612" by (simp add: unat_eq_nat_uint uint_word_ariths)
  with l show ?thesis
    by (simp add: Compact_def GetUINT32_def mem_get_def unat_minus_1_u64)
qed

theorem byte_buffer_guard_wraps_witness: "Compact (-1) 1 demo_buffer = Inl OutOfBounds"
  using byte_buffer_guard_wraps [OF demo_buffer_inv] by simp

end
