(* ===== verification/NetIPv6.thy ===== *)
theory NetIPv6
  imports ByteBuffer StrUtil
begin

unbundle bit_operations_syntax

text \<open>
  \<open>ZmNetIPv6\<close> of \<open>net/zm_net_ip\<close>.  An address is the list of its 16 bytes in network order, as the code
  has it; \<open>ip_word\<close> reads it as a number of 128 bits, and the lemmas of this theory show that the byte
  loops compute on that number.  An operation that writes through an output pointer returns what stands
  there afterwards; a \<open>NULL\<close> output stands for the input itself.
\<close>

section \<open>Comparison\<close>

text \<open>The loops of 16 rounds run over both lists.\<close>

fun Compare :: "bytes \<Rightarrow> bytes \<Rightarrow> int" where
  "Compare (a # as) (b # bs) = (if a = b then Compare as bs else if a > b then 1 else - 1)"
| "Compare _ _ = 0"

fun IsZero :: "bytes \<Rightarrow> bool" where
  "IsZero [] \<longleftrightarrow> True"
| "IsZero (b # bs) \<longleftrightarrow> (if 0 \<noteq> b then False else IsZero bs)"

definition Max6 :: "bytes \<Rightarrow> bytes \<Rightarrow> bytes" where
  "Max6 ip1 ip2 = (if Compare ip1 ip2 > 0 then ip1 else ip2)"

definition Min6 :: "bytes \<Rightarrow> bytes \<Rightarrow> bytes" where
  "Min6 ip1 ip2 = (if Compare ip1 ip2 < 0 then ip1 else ip2)"

definition Between :: "bytes \<Rightarrow> bytes \<Rightarrow> bytes \<Rightarrow> bool" where
  "Between ip left right \<longleftrightarrow> Compare ip left \<ge> 0 \<and> Compare ip right \<le> 0"

definition Swap6 :: "bytes \<Rightarrow> bytes \<Rightarrow> bytes \<times> bytes" where
  "Swap6 ip1 ip2 = (let temp = blit 0 (take 16 ip1) (replicate 16 0) in (blit 0 (take 16 ip2) ip1, blit 0 temp ip2))"

section \<open>Arithmetic\<close>

text \<open>The loops count \<open>i\<close> down from 15; the argument is \<open>i + 1\<close>.\<close>

fun next_loop :: "nat \<Rightarrow> bytes \<Rightarrow> bytes \<Rightarrow> bytes" where
  "next_loop 0 ip next = next"
| "next_loop (Suc i) ip next =
    (if ip ! i = 255 then next_loop i ip (next[i := 0]) else next[i := ip ! i + 1])"

definition Next :: "bytes \<Rightarrow> bytes option \<Rightarrow> bytes" where
  "Next ip output = next_loop 16 ip (case output of Some out \<Rightarrow> out | None \<Rightarrow> ip)"

fun prev_loop :: "nat \<Rightarrow> bytes \<Rightarrow> bytes \<Rightarrow> bytes" where
  "prev_loop 0 ip prev = prev"
| "prev_loop (Suc i) ip prev =
    (if ip ! i = 0 then prev_loop i ip (prev[i := 255]) else prev[i := ip ! i - 1])"

definition Prev :: "bytes \<Rightarrow> bytes option \<Rightarrow> bytes" where
  "Prev ip output = prev_loop 16 ip (case output of Some out \<Rightarrow> out | None \<Rightarrow> ip)"

definition shift_left_at :: "nat \<Rightarrow> bytes \<Rightarrow> bytes" where
  "shift_left_at i ip =
    ip[i := (let b = push_bit 1 (ip ! i) in if i < 15 \<and> ip ! (i + 1) AND 0x80 \<noteq> 0 then b OR 0x01 else b AND 0xFE)]"

definition BitShiftLeft :: "bytes \<Rightarrow> bytes" where
  "BitShiftLeft ip = fold shift_left_at [0..<16] ip"

definition shift_right_at :: "nat \<Rightarrow> bytes \<Rightarrow> bytes" where
  "shift_right_at i ip =
    ip[i := (let b = drop_bit 1 (ip ! i) in if i > 0 \<and> ip ! (i - 1) AND 0x01 \<noteq> 0 then b OR 0x80 else b AND 0x7F)]"

definition BitShiftRight :: "bytes \<Rightarrow> bytes" where
  "BitShiftRight ip = fold shift_right_at (rev [0..<16]) ip"

section \<open>Subnets\<close>

record ip_cidr6 =
  cidr_network :: bytes
  cidr_broadcast :: bytes
  cidr_mask :: bytes
  cidr_bits :: nat

definition CIDRSet :: "bytes option \<Rightarrow> bytes option \<Rightarrow> bytes option \<Rightarrow> nat \<Rightarrow> ip_cidr6" where
  "CIDRSet network broadcast msk bits =
    (let put = (\<lambda>x. case x of Some b \<Rightarrow> take 16 b | None \<Rightarrow> replicate 16 0)
     in \<lparr>cidr_network = put network, cidr_broadcast = put broadcast, cidr_mask = put msk, cidr_bits = bits\<rparr>)"

fun byte_ones :: "nat \<Rightarrow> u8 \<Rightarrow> nat" where
  "byte_ones 0 b = 0"
| "byte_ones (Suc j) b = (if b AND push_bit j 1 \<noteq> 0 then Suc (byte_ones j b) else 0)"

fun SubnetBits :: "bytes \<Rightarrow> nat" where
  "SubnetBits [] = 0"
| "SubnetBits (b # bs) = (if b = 0xFF then 8 + SubnetBits bs else byte_ones 8 b)"

definition MaskFromBits :: "nat \<Rightarrow> bytes" where
  "MaskFromBits bits =
    (if bits > 0 then
       let msk = replicate 16 0xFF
       in if bits < 128 then
            let byte_index = bits div 8;
                byte_bits = bits mod 8;
                mask1 = blit byte_index (replicate (16 - byte_index) 0) msk
            in mask1[byte_index := ((\<lambda>m. drop_bit 1 m OR 0x80) ^^ byte_bits) (mask1 ! byte_index)]
          else msk
     else replicate 16 0)"

definition SubnetBroadcast :: "bytes \<Rightarrow> nat \<Rightarrow> bytes" where
  "SubnetBroadcast subnet bits = map2 (\<lambda>s m. s OR NOT m) subnet (MaskFromBits bits)"

fun CIDRBlockContaints :: "bytes \<Rightarrow> bytes \<Rightarrow> bytes \<Rightarrow> bool" where
  "CIDRBlockContaints (n # network) (m # msk) (p # ip) \<longleftrightarrow>
    (if p AND m \<noteq> n then False else CIDRBlockContaints network msk ip)"
| "CIDRBlockContaints _ _ _ \<longleftrightarrow> True"

fun RangeContaints :: "ip_cidr6 list \<Rightarrow> bytes \<Rightarrow> bool" where
  "RangeContaints [] ipv6 \<longleftrightarrow> False"
| "RangeContaints (r # rs) ipv6 \<longleftrightarrow>
    (if Compare ipv6 (cidr_network r) \<ge> 0 \<and> Compare ipv6 (cidr_broadcast r) \<le> 0 then True else RangeContaints rs ipv6)"

text \<open>The inner loop of \<open>CIDRFromRange\<close> gives the block of the first number of bits that fits, the outer
  one goes round at most 512 times.\<close>

function cidr_fit :: "bytes \<Rightarrow> bytes \<Rightarrow> nat \<Rightarrow> ip_cidr6 option" where
  "cidr_fit network to bits =
    (if bits \<le> 128 then
       let broadcast = SubnetBroadcast network bits
       in if Compare broadcast to \<le> 0
          then Some \<lparr>cidr_network = network, cidr_broadcast = broadcast, cidr_mask = MaskFromBits bits, cidr_bits = bits\<rparr>
          else cidr_fit network to (bits + 1)
     else None)"
  by pat_completeness auto
termination
  by (relation "measure (\<lambda>(n, t, bits). 129 - bits)") auto

declare cidr_fit.simps [simp del]

fun cidr_loop :: "nat \<Rightarrow> bytes \<Rightarrow> bytes \<Rightarrow> ip_cidr6 list" where
  "cidr_loop 0 subnet to = []"
| "cidr_loop (Suc loops) subnet to =
    (if Compare subnet to \<le> 0 then
       case cidr_fit subnet to (SubnetBits subnet) of
         Some cidr \<Rightarrow> cidr # cidr_loop loops (Next (cidr_broadcast cidr) None) to
       | None \<Rightarrow> cidr_loop loops subnet to
     else [])"

definition CIDRFromRange :: "bytes \<Rightarrow> bytes \<Rightarrow> ip_cidr6 list" where
  "CIDRFromRange from to = cidr_loop 512 from to"

section \<open>The number of an address\<close>

fun le_val :: "bytes \<Rightarrow> nat" where
  "le_val [] = 0"
| "le_val (b # bs) = unat b + 256 * le_val bs"

definition ip_word :: "bytes \<Rightarrow> 128 word" where
  "ip_word bs = word_of_nat (le_val (rev bs))"

lemma le_val_append: "le_val (a @ b) = le_val a + 256 ^ length a * le_val b"
  by (induction a) (simp_all add: algebra_simps)

lemma le_val_bound: "le_val bs < 256 ^ length bs"
proof (induction bs)
  case (Cons b bs)
  have "unat b < 256" by simp
  moreover have "256 * le_val bs + 256 \<le> 256 * 256 ^ length bs" using Cons by simp
  ultimately have "unat b + 256 * le_val bs < 256 * 256 ^ length bs" by linarith
  then show ?case by simp
qed simp

lemma unat_ip_word: "length bs = 16 \<Longrightarrow> unat (ip_word bs) = le_val (rev bs)"
  using le_val_bound [of "rev bs"] by (simp add: ip_word_def unat_of_nat)

lemma bit_le_val: "bit (le_val bs) n \<longleftrightarrow> n div 8 < length bs \<and> bit (bs ! (n div 8)) (n mod 8)"
proof (induction bs arbitrary: n)
  case (Cons b bs)
  have eq: "le_val (b # bs) = unat b OR push_bit 8 (le_val bs)"
  proof -
    have "\<not> bit (unat b) n \<or> \<not> bit (push_bit 8 (le_val bs)) n" for n
      by (auto simp: bit_simps dest: bit_imp_le_length)
    then have "unat b + push_bit 8 (le_val bs) = unat b OR push_bit 8 (le_val bs)"
      by (intro disjunctive_add) blast
    then show ?thesis by (simp add: push_bit_eq_mult mult.commute)
  qed
  show ?case
  proof (cases "n < 8")
    case True
    then show ?thesis unfolding eq by (simp add: bit_simps)
  next
    case False
    then obtain m where n: "n = m + 8" by (metis add.commute le_Suc_ex not_le)
    then have "n div 8 = Suc (m div 8)" "n mod 8 = m mod 8" by simp_all
    moreover have "\<not> bit b n" using False by (auto dest: bit_imp_le_length)
    ultimately show ?thesis unfolding eq using False Cons.IH [of m] n by (simp add: bit_simps)
  qed
qed simp

lemma bit_ip_word:
  assumes "length bs = 16" and "n < 128"
  shows "bit (ip_word bs) n \<longleftrightarrow> bit (bs ! (15 - n div 8)) (n mod 8)"
proof -
  have "n div 8 < 16" using assms(2) by linarith
  then show ?thesis
    using assms by (simp add: ip_word_def bit_simps bit_le_val rev_nth)
qed

lemma ip_word_inject:
  assumes "length a = 16" and "length b = 16" and "ip_word a = ip_word b"
  shows "a = b"
proof -
  have "le_val xs = le_val ys \<Longrightarrow> length xs = length ys \<Longrightarrow> xs = ys" for xs ys
  proof (induction xs ys rule: list_induct2')
    case (4 x xs y ys)
    have "unat x = le_val (x # xs) mod 256" "unat y = le_val (y # ys) mod 256"
      "le_val xs = le_val (x # xs) div 256" "le_val ys = le_val (y # ys) div 256" by simp_all
    with 4 show ?case by (metis length_Cons nat.inject word_unat_eq_iff)
  qed simp_all
  from this [of "rev a" "rev b"] show ?thesis
    using assms unat_ip_word [of a] unat_ip_word [of b] by simp
qed

text \<open>Comparison.\<close>

lemma Compare_nat:
  "length a = length b \<Longrightarrow>
   Compare a b = (if le_val (rev a) = le_val (rev b) then 0 else if le_val (rev a) > le_val (rev b) then 1 else - 1)"
proof (induction a b rule: list_induct2)
  case (Cons x xs y ys)
  let ?n = "256 ^ length ys :: nat"
  have v: "le_val (rev (x # xs)) = le_val (rev xs) + ?n * unat x" "le_val (rev (y # ys)) = le_val (rev ys) + ?n * unat y"
    "le_val (rev xs) < ?n" "le_val (rev ys) < ?n"
    using Cons.hyps le_val_bound [of "rev xs"] le_val_bound [of "rev ys"] by (simp_all add: le_val_append)
  have far: "u < v \<Longrightarrow> p < ?n \<Longrightarrow> p + ?n * u < q + ?n * v" for u v p q :: nat
  proof -
    assume "u < v" "p < ?n"
    have "?n * Suc u \<le> ?n * v" using \<open>u < v\<close> by (intro mult_le_mono2) simp
    with \<open>p < ?n\<close> show ?thesis by simp
  qed
  show ?case
  proof (cases x y rule: linorder_cases)
    case less
    then have "unat x < unat y" by (simp add: word_less_nat_alt)
    with far [OF this v(3), of "le_val (rev ys)"] less show ?thesis unfolding v by auto
  next
    case equal
    with Cons.IH show ?thesis unfolding v by simp
  next
    case greater
    then have "unat y < unat x" by (simp add: word_less_nat_alt)
    with far [OF this v(4), of "le_val (rev xs)"] greater show ?thesis unfolding v by auto
  qed
qed simp

lemma Compare_word:
  assumes "length a = 16" and "length b = 16"
  shows "Compare a b = (if ip_word a = ip_word b then 0 else if ip_word a > ip_word b then 1 else - 1)"
  using assms by (simp add: Compare_nat word_unat_eq_iff word_less_nat_alt unat_ip_word)

lemma Compare_le: "length a = 16 \<Longrightarrow> length b = 16 \<Longrightarrow> Compare a b \<le> 0 \<longleftrightarrow> ip_word a \<le> ip_word b"
  and Compare_ge: "length a = 16 \<Longrightarrow> length b = 16 \<Longrightarrow> Compare a b \<ge> 0 \<longleftrightarrow> ip_word b \<le> ip_word a"
  by (auto simp: Compare_word)

text \<open>Successor and predecessor.\<close>

fun le_inc :: "bytes \<Rightarrow> bytes" where
  "le_inc [] = []"
| "le_inc (b # bs) = (if b = 255 then 0 # le_inc bs else (b + 1) # bs)"

fun le_dec :: "bytes \<Rightarrow> bytes" where
  "le_dec [] = []"
| "le_dec (b # bs) = (if b = 0 then 255 # le_dec bs else (b - 1) # bs)"

lemma length_le_inc [simp]: "length (le_inc bs) = length bs"
  by (induction bs) simp_all

lemma length_le_dec [simp]: "length (le_dec bs) = length bs"
  by (induction bs) simp_all

lemma le_inc_dec: "le_inc (le_dec bs) = bs"
proof (induction bs)
  case (Cons b bs)
  have "b \<noteq> 0 \<Longrightarrow> b - 1 \<noteq> 255" by (auto simp: diff_eq_eq)
  with Cons show ?case by simp
qed simp

lemma le_val_inc: "le_val (le_inc bs) = (le_val bs + 1) mod 256 ^ length bs"
proof (induction bs)
  case (Cons b bs)
  show ?case
  proof (cases "b = 255")
    case True
    then have "le_val (b # bs) + 1 = 256 * (le_val bs + 1)" by simp
    then show ?thesis using True Cons by (simp add: mult_mod_right)
  next
    case False
    have "unat b \<noteq> 255" using False by (simp add: word_unat_eq_iff)
    with unat_byte_less [of b] have "(unat b + 1) mod 256 = unat b + 1" by (intro mod_less) linarith
    then have u: "unat (b + 1) = unat b + 1" by (simp add: unat_word_ariths)
    have "le_val (b # bs) + 1 < 256 ^ length (b # bs)"
      using u le_val_bound [of "(b + 1) # bs"] by simp
    then show ?thesis using False u by simp
  qed
qed simp

lemma upd_prefix:
  assumes "Suc n \<le> length ip" and "take (Suc n) out = take (Suc n) ip" and "length out = length ip"
  shows "take n (out[n := x]) = take n ip" and "drop n (out[n := x]) = x # drop (Suc n) out"
    and "out[n := x] = take n ip @ x # drop (Suc n) out" and "take (Suc n) ip = take n ip @ [ip ! n]"
proof -
  have same: "take n out = take n ip" using assms(2) by (metis le_add2 min.absorb1 plus_1_eq_Suc take_take)
  then show "take n (out[n := x]) = take n ip" by simp
  show upd: "out[n := x] = take n ip @ x # drop (Suc n) out"
    using assms same by (simp add: upd_conv_take_nth_drop)
  show "drop n (out[n := x]) = x # drop (Suc n) out" unfolding upd using assms(1) by simp
  show "take (Suc n) ip = take n ip @ [ip ! n]" using assms(1) by (simp add: take_Suc_conv_app_nth)
qed

lemma next_loop_inc:
  "n \<le> length ip \<Longrightarrow> take n out = take n ip \<Longrightarrow> length out = length ip \<Longrightarrow>
   next_loop n ip out = rev (le_inc (rev (take n ip))) @ drop n out"
proof (induction n arbitrary: out)
  case (Suc n)
  note u = upd_prefix [OF Suc.prems]
  have "n \<le> length ip" "length (out[n := x]) = length ip" for x using Suc.prems by simp_all
  from Suc.IH [OF this(1) u(1) this(2)] \<open>n \<le> length ip\<close> show ?case by (simp add: u(2-4) min_absorb2)
qed simp

lemma prev_loop_dec:
  "n \<le> length ip \<Longrightarrow> take n out = take n ip \<Longrightarrow> length out = length ip \<Longrightarrow>
   prev_loop n ip out = rev (le_dec (rev (take n ip))) @ drop n out"
proof (induction n arbitrary: out)
  case (Suc n)
  note u = upd_prefix [OF Suc.prems]
  have "n \<le> length ip" "length (out[n := x]) = length ip" for x using Suc.prems by simp_all
  from Suc.IH [OF this(1) u(1) this(2)] \<open>n \<le> length ip\<close> show ?case by (simp add: u(2-4) min_absorb2)
qed simp

lemma Next_inc: "length ip = 16 \<Longrightarrow> Next ip None = rev (le_inc (rev ip))"
  by (simp add: Next_def next_loop_inc)

lemma Prev_dec: "length ip = 16 \<Longrightarrow> Prev ip None = rev (le_dec (rev ip))"
  by (simp add: Prev_def prev_loop_dec)

lemma length_Next [simp]: "length ip = 16 \<Longrightarrow> length (Next ip None) = 16"
  and length_Prev [simp]: "length ip = 16 \<Longrightarrow> length (Prev ip None) = 16"
  by (simp_all add: Next_inc Prev_dec)

lemma ip_word_Next: "length ip = 16 \<Longrightarrow> ip_word (Next ip None) = ip_word ip + 1"
proof -
  assume len: "length ip = 16"
  have "(word_of_nat (n mod 256 ^ 16) :: 128 word) = word_of_nat n" for n
    by (simp add: word_unat_eq_iff unat_of_nat)
  from this [of "le_val (rev ip) + 1"] show ?thesis
    using len by (simp add: Next_inc ip_word_def le_val_inc add.commute)
qed

lemma ip_word_Prev: "length ip = 16 \<Longrightarrow> ip_word (Prev ip None) = ip_word ip - 1"
proof -
  assume len: "length ip = 16"
  have "Next (Prev ip None) None = ip" using len by (simp add: Prev_dec Next_inc le_inc_dec)
  with ip_word_Next [of "Prev ip None"] len show ?thesis by (simp add: Prev_dec)
qed

text \<open>Shifts.\<close>

definition shl_byte :: "bytes \<Rightarrow> nat \<Rightarrow> u8" where
  "shl_byte ip i =
    (let b = push_bit 1 (ip ! i) in if i < 15 \<and> ip ! (i + 1) AND 0x80 \<noteq> 0 then b OR 0x01 else b AND 0xFE)"

definition shr_byte :: "bytes \<Rightarrow> nat \<Rightarrow> u8" where
  "shr_byte ip i =
    (let b = drop_bit 1 (ip ! i) in if i > 0 \<and> ip ! (i - 1) AND 0x01 \<noteq> 0 then b OR 0x80 else b AND 0x7F)"

lemma shift_left_fold:
  assumes "length ip = 16"
  shows "n \<le> 16 \<Longrightarrow> length (fold shift_left_at [0..<n] ip) = 16 \<and>
    (\<forall>j < 16. fold shift_left_at [0..<n] ip ! j = (if j < n then shl_byte ip j else ip ! j))"
proof (induction n)
  case (Suc n)
  let ?s = "fold shift_left_at [0..<n] ip"
  have step: "fold shift_left_at [0..<Suc n] ip = ?s[n := shl_byte ?s n]"
    by (simp add: shift_left_at_def shl_byte_def)
  have "shl_byte ?s n = shl_byte ip n" using Suc by (cases "n < 15") (simp_all add: shl_byte_def)
  with Suc show ?case unfolding step by (auto simp: nth_list_update less_Suc_eq)
qed (simp add: assms)

lemma shift_right_fold:
  "length ip = 16 \<Longrightarrow> n \<le> 16 \<Longrightarrow> length (fold shift_right_at (rev [0..<n]) ip) = 16 \<and>
    (\<forall>j < 16. fold shift_right_at (rev [0..<n]) ip ! j = (if j < n then shr_byte ip j else ip ! j))"
proof (induction n arbitrary: ip)
  case (Suc n)
  let ?s = "ip[n := shr_byte ip n]"
  have step: "fold shift_right_at (rev [0..<Suc n]) ip = fold shift_right_at (rev [0..<n]) ?s"
    by (simp add: shift_right_at_def shr_byte_def)
  have "j < n \<Longrightarrow> shr_byte ?s j = shr_byte ip j" for j by (simp add: shr_byte_def)
  then show ?case using Suc.IH [of ?s] Suc.prems unfolding step by (auto simp: nth_list_update less_Suc_eq)
qed simp

lemma bit_low_masks:
  fixes b :: u8
  shows "b AND 0x80 \<noteq> 0 \<longleftrightarrow> bit b 7" and "b AND 0x01 \<noteq> 0 \<longleftrightarrow> bit b 0"
    and "m < 8 \<Longrightarrow> bit (0xFE :: u8) m \<longleftrightarrow> 0 < m" and "m < 8 \<Longrightarrow> bit (0x7F :: u8) m \<longleftrightarrow> m < 7"
    and "m < 8 \<Longrightarrow> bit (0x80 :: u8) m \<longleftrightarrow> m = 7"
proof -
  show "b AND 0x80 \<noteq> 0 \<longleftrightarrow> bit b 7" using bit_iff_and_push_bit_not_eq_0 [of b 7] by simp
  show "b AND 0x01 \<noteq> 0 \<longleftrightarrow> bit b 0" by (simp add: and_one_eq odd_iff_mod_2_eq_one bit_0)
  have eight: "m < 8 \<Longrightarrow> m \<in> {0, 1, 2, 3, 4, 5, 6, 7}" by auto
  show "m < 8 \<Longrightarrow> bit (0xFE :: u8) m \<longleftrightarrow> 0 < m" using eight by auto
  show "m < 8 \<Longrightarrow> bit (0x7F :: u8) m \<longleftrightarrow> m < 7" using eight by auto
  show "m < 8 \<Longrightarrow> bit (0x80 :: u8) m \<longleftrightarrow> m = 7" using eight by auto
qed

lemma bit_shl_byte:
  assumes "m < 8"
  shows "bit (shl_byte ip i) m \<longleftrightarrow> (if m = 0 then i < 15 \<and> bit (ip ! (i + 1)) 7 else bit (ip ! i) (m - 1))"
proof -
  have "bit (push_bit 1 (ip ! i)) m \<longleftrightarrow> 1 \<le> m \<and> bit (ip ! i) (m - 1)"
    using assms by (simp only: bit_push_bit_iff) simp
  moreover have "bit (0x01 :: u8) m \<longleftrightarrow> m = 0" by (simp add: bit_1_iff)
  ultimately show ?thesis
    by (auto simp only: shl_byte_def Let_def bit_or_iff bit_and_iff bit_low_masks(1) bit_low_masks(3) [OF assms] split: if_splits)
qed

lemma bit_shr_byte:
  assumes "m < 8"
  shows "bit (shr_byte ip i) m \<longleftrightarrow> (if m = 7 then 0 < i \<and> bit (ip ! (i - 1)) 0 else bit (ip ! i) (m + 1))"
proof -
  have "bit (drop_bit 1 (ip ! i)) m \<longleftrightarrow> bit (ip ! i) (m + 1)"
    by (simp only: bit_drop_bit_eq o_def add.commute)
  moreover have "\<not> bit (ip ! i) (7 + 1)" by (auto dest: bit_imp_le_length)
  ultimately show ?thesis using assms
    by (auto simp only: shr_byte_def Let_def bit_or_iff bit_and_iff bit_low_masks(2) bit_low_masks(4,5) [OF assms] split: if_splits)
qed

lemma bit_double: "bit (push_bit 1 w) n \<longleftrightarrow> 1 \<le> n \<and> n < 128 \<and> bit w (n - 1)" for w :: "128 word"
  by (simp only: bit_push_bit_iff) auto

lemma ip_word_BitShiftLeft:
  assumes "length ip = 16"
  shows "ip_word (BitShiftLeft ip) = push_bit 1 (ip_word ip)"
proof (rule bit_word_eqI)
  fix n assume "n < LENGTH(128)"
  then have n: "n < 128" by simp
  let ?j = "15 - n div 8" and ?m = "n mod 8"
  have len: "length (BitShiftLeft ip) = 16" and nth: "BitShiftLeft ip ! ?j = shl_byte ip ?j"
    using shift_left_fold [OF assms, of 16] by (simp_all add: BitShiftLeft_def)
  have m: "?m < 8" by simp
  have lhs: "bit (ip_word (BitShiftLeft ip)) n \<longleftrightarrow>
      (if ?m = 0 then ?j < 15 \<and> bit (ip ! (?j + 1)) 7 else bit (ip ! ?j) (?m - 1))"
    unfolding bit_ip_word [OF len n] nth by (rule bit_shl_byte [OF m])
  show "bit (ip_word (BitShiftLeft ip)) n = bit (push_bit 1 (ip_word ip)) n"
  proof (cases "n = 0")
    case True
    then show ?thesis unfolding lhs bit_double by simp
  next
    case False
    then have "bit (push_bit 1 (ip_word ip)) n \<longleftrightarrow> bit (ip ! (15 - (n - 1) div 8)) ((n - 1) mod 8)"
      using n unfolding bit_double by (simp add: bit_ip_word [OF assms])
    also have "\<dots> \<longleftrightarrow> (if ?m = 0 then ?j < 15 \<and> bit (ip ! (?j + 1)) 7 else bit (ip ! ?j) (?m - 1))"
    proof (cases "?m = 0")
      case True
      then obtain k where k: "n = 8 * k" by auto
      with False obtain i where "k = Suc i" by (cases k) auto
      with k n have d: "(n - 1) div 8 = n div 8 - 1" "(n - 1) mod 8 = 7" "0 < n div 8" "n div 8 < 16" by simp_all
      then have "15 - (n - 1) div 8 = ?j + 1" "?j < 15" by linarith+
      with True d show ?thesis by simp
    next
      case no: False
      then have "n - 1 = n div 8 * 8 + (?m - 1)" "?m - 1 < 8" using div_mult_mod_eq [of n 8] by linarith+
      then have "(n - 1) div 8 = n div 8" "(n - 1) mod 8 = ?m - 1" by simp_all
      with no show ?thesis by simp
    qed
    finally show ?thesis unfolding lhs by simp
  qed
qed

lemma ip_word_BitShiftRight:
  assumes "length ip = 16"
  shows "ip_word (BitShiftRight ip) = drop_bit 1 (ip_word ip)"
proof (rule bit_word_eqI)
  fix n assume "n < LENGTH(128)"
  then have n: "n < 128" by simp
  let ?j = "15 - n div 8" and ?m = "n mod 8"
  have len: "length (BitShiftRight ip) = 16" and nth: "BitShiftRight ip ! ?j = shr_byte ip ?j"
    using shift_right_fold [OF assms, of 16] by (simp_all add: BitShiftRight_def)
  have m: "?m < 8" by simp
  have lhs: "bit (ip_word (BitShiftRight ip)) n \<longleftrightarrow>
      (if ?m = 7 then 0 < ?j \<and> bit (ip ! (?j - 1)) 0 else bit (ip ! ?j) (?m + 1))"
    unfolding bit_ip_word [OF len n] nth by (rule bit_shr_byte [OF m])
  have rhs: "bit (drop_bit 1 (ip_word ip)) n \<longleftrightarrow> n < 127 \<and> bit (ip ! (15 - (n + 1) div 8)) ((n + 1) mod 8)"
  proof (cases "n < 127")
    case True
    then show ?thesis by (simp add: bit_simps bit_ip_word [OF assms])
  next
    case False
    with n have "n = 127" by simp
    then show ?thesis by (auto simp: bit_simps dest: bit_imp_le_length)
  qed
  show "bit (ip_word (BitShiftRight ip)) n = bit (drop_bit 1 (ip_word ip)) n"
  proof (cases "?m = 7")
    case True
    have d: "(n + 1) div 8 = n div 8 + 1" "(n + 1) mod 8 = 0" "n < 127 \<longleftrightarrow> n div 8 < 15"
    proof -
      have e: "n + 1 = (n div 8 + 1) * 8" using True by presburger
      show "(n + 1) div 8 = n div 8 + 1" "(n + 1) mod 8 = 0" using True by presburger+
      have "n < 127 \<longleftrightarrow> n + 1 < 16 * 8" by auto
      also have "\<dots> \<longleftrightarrow> n div 8 + 1 < 16" unfolding e by (rule mult_less_cancel2 [THEN trans]) simp
      finally show "n < 127 \<longleftrightarrow> n div 8 < 15" by auto
    qed
    then have "15 - (n + 1) div 8 = ?j - 1" "n < 127 \<longleftrightarrow> 0 < ?j" by linarith+
    with True d show ?thesis unfolding lhs rhs by simp
  next
    case False
    then have e: "n + 1 = n div 8 * 8 + (?m + 1)" "?m + 1 < 8" using m div_mult_mod_eq [of n 8] by linarith+
    have "(n + 1) div 8 = n div 8" "(n + 1) mod 8 = ?m + 1" using e(2) by presburger+
    moreover have "n < 127" using e n False by (cases "n = 127") simp_all
    ultimately show ?thesis using False unfolding lhs rhs by simp
  qed
qed

section \<open>Masks and blocks\<close>

definition mask_byte :: "nat \<Rightarrow> u8" where
  "mask_byte k = ((\<lambda>m. drop_bit 1 m OR 0x80) ^^ k) 0"

lemma mask_byte_table:
  "list_all (\<lambda>k. list_all (\<lambda>m. bit (mask_byte k) m \<longleftrightarrow> 8 \<le> m + k) [0..<8] \<and> byte_ones 8 (mask_byte k) = k \<and>
     mask_byte k \<noteq> 0xFF) [0..<8]"
  by code_simp

lemma mask_byte:
  assumes "k < 8"
  shows "m < 8 \<Longrightarrow> bit (mask_byte k) m \<longleftrightarrow> 8 \<le> m + k" and "byte_ones 8 (mask_byte k) = k" and "mask_byte k \<noteq> 0xFF"
  using mask_byte_table assms by (auto simp: list_all_iff simp del: upt_Suc)

lemma MaskFromBits_bytes:
  assumes "b < 128"
  shows "MaskFromBits b = replicate (b div 8) 0xFF @ mask_byte (b mod 8) # replicate (15 - b div 8) 0"
proof (cases "b = 0")
  case True
  have "replicate 16 (0 :: u8) = 0 # replicate 15 0" by (simp add: numeral_eq_Suc)
  with True show ?thesis by (simp add: MaskFromBits_def mask_byte_def)
next
  case False
  have q: "b div 8 < 16" using assms by linarith
  then obtain r where r: "16 - b div 8 = Suc r" "15 - b div 8 = r" by (cases "16 - b div 8") auto
  have "blit (b div 8) (replicate (16 - b div 8) 0) (replicate 16 0xFF) = replicate (b div 8) (0xFF :: u8) @ 0 # replicate r 0"
    using q r by (simp add: blit_def min_absorb2)
  then show ?thesis using False assms q r
    by (simp add: MaskFromBits_def mask_byte_def list_update_append nth_append)
qed

lemma SubnetBits_replicate: "SubnetBits (replicate q 0xFF @ r) = 8 * q + SubnetBits r"
  by (induction q) simp_all

lemma MaskFromBits_128: "MaskFromBits 128 = replicate 16 0xFF"
  by (simp add: MaskFromBits_def)

lemma MaskFromBits_correct:
  assumes "b \<le> 128"
  shows "length (MaskFromBits b) = 16" and "ip_word (MaskFromBits b) = NOT (mask (128 - b))" and "SubnetBits (MaskFromBits b) = b"
proof -
  have q: "b < 128 \<Longrightarrow> b div 8 < 16" by linarith
  show len: "length (MaskFromBits b) = 16"
    using assms q by (cases "b < 128") (simp_all add: MaskFromBits_bytes MaskFromBits_128)
  show "SubnetBits (MaskFromBits b) = b"
  proof (cases "b < 128")
    case True
    have "8 * (b div 8) + b mod 8 = b" by simp
    then show ?thesis using True mask_byte(2,3) [of "b mod 8"]
      by (simp add: MaskFromBits_bytes SubnetBits_replicate)
  next
    case False
    with assms SubnetBits_replicate [of 16 "[]"] show ?thesis by (simp add: MaskFromBits_128)
  qed
  have ff: "m < 8 \<Longrightarrow> bit (0xFF :: u8) m" for m unfolding word_mask_8 by (simp add: bit_simps)
  show "ip_word (MaskFromBits b) = NOT (mask (128 - b))"
  proof (rule bit_word_eqI)
    fix n assume "n < LENGTH(128)"
    then have n: "n < 128" by simp
    let ?j = "15 - n div 8" and ?m = "n mod 8"
    have j: "?j < 16" "?m < 8" "n div 8 < 16" using n by simp_all
    have "bit (MaskFromBits b ! ?j) ?m \<longleftrightarrow> 128 - b \<le> n"
    proof (cases "b < 128")
      case True
      consider "?j < b div 8" | "?j = b div 8" | "b div 8 < ?j" by linarith
      then show ?thesis
      proof cases
        case 1
        then have "128 - b \<le> n" using j by linarith
        with 1 True j ff show ?thesis by (simp add: MaskFromBits_bytes nth_append)
      next
        case 2
        then have "8 \<le> ?m + b mod 8 \<longleftrightarrow> 128 - b \<le> n" 
            using j True div_mult_mod_eq [of n 8] div_mult_mod_eq [of b 8] by linarith
        with 2 True j mask_byte(1) [of "b mod 8" ?m] show ?thesis by (simp add: MaskFromBits_bytes nth_append)
      next
        case 3
        then have "\<not> 128 - b \<le> n" using j by linarith
        moreover obtain x where x: "?j = b div 8 + Suc x" using 3 less_imp_Suc_add by auto
        moreover have "x < 15 - b div 8" using x j by linarith
        moreover have "MaskFromBits b ! ?j = 0" unfolding MaskFromBits_bytes [OF True] x using \<open>x < 15 - b div 8\<close>
          by (simp add: nth_append)
        ultimately show ?thesis by simp
      qed
    next
      case False
      with assms j ff show ?thesis by (simp add: MaskFromBits_128)
    qed
    then show "bit (ip_word (MaskFromBits b)) n = bit (NOT (mask (128 - b)) :: 128 word) n"
      using n by (auto simp: bit_ip_word [OF len n] bit_simps)
  qed
qed

lemma MaskFromBits_large: "128 \<le> b \<Longrightarrow> MaskFromBits b = MaskFromBits 128"
  by (simp add: MaskFromBits_def)

lemma ip_word_map2:
  assumes "length a = 16" and "length b = 16" and "length c = 16"
    and "\<And>i m. i < 16 \<Longrightarrow> m < 8 \<Longrightarrow> bit (c ! i) m \<longleftrightarrow> f (bit (a ! i) m) (bit (b ! i) m)"
    and "n < 128"
  shows "bit (ip_word c) n \<longleftrightarrow> f (bit (ip_word a) n) (bit (ip_word b) n)"
  using assms(4) [of "15 - n div 8" "n mod 8"] by (simp add: bit_ip_word assms(1-3,5))

lemma length_SubnetBroadcast [simp]: "length s = 16 \<Longrightarrow> b \<le> 128 \<Longrightarrow> length (SubnetBroadcast s b) = 16"
  by (simp add: SubnetBroadcast_def MaskFromBits_correct)

lemma ip_word_SubnetBroadcast:
  assumes "length s = 16" and "b \<le> 128"
  shows "ip_word (SubnetBroadcast s b) = ip_word s OR mask (128 - b)"
proof (rule bit_word_eqI)
  fix n assume "n < LENGTH(128)"
  then have n: "n < 128" by simp
  have "bit (ip_word (SubnetBroadcast s b)) n \<longleftrightarrow> bit (ip_word s) n \<or> \<not> bit (ip_word (MaskFromBits b)) n"
    by (rule ip_word_map2 [where f = "\<lambda>x y. x \<or> \<not> y", OF assms(1) MaskFromBits_correct(1) [OF assms(2)] _ _ n])
      (use assms in \<open>simp_all add: SubnetBroadcast_def MaskFromBits_correct bit_simps\<close>)
  then show "bit (ip_word (SubnetBroadcast s b)) n = bit (ip_word s OR mask (128 - b)) n"
    using n by (auto simp: MaskFromBits_correct [OF assms(2)] bit_simps)
qed

lemma CIDRBlockContaints_bytes:
  "length network = length msk \<Longrightarrow> length msk = length ip \<Longrightarrow>
   CIDRBlockContaints network msk ip \<longleftrightarrow> map2 (\<lambda>p m. p AND m) ip msk = network"
  by (induction network msk ip rule: CIDRBlockContaints.induct) auto

lemma CIDRBlockContaints_word:
  assumes "length network = 16" and "length msk = 16" and "length ip = 16"
  shows "CIDRBlockContaints network msk ip \<longleftrightarrow> ip_word ip AND ip_word msk = ip_word network"
proof -
  let ?c = "map2 (\<lambda>p m. p AND m) ip msk"
  have "ip_word ?c = ip_word ip AND ip_word msk"
  proof (rule bit_word_eqI)
    fix n assume "n < LENGTH(128)"
    then have n: "n < 128" by simp
    show "bit (ip_word ?c) n = bit (ip_word ip AND ip_word msk) n"
      unfolding bit_and_iff
      by (rule ip_word_map2 [where f = "\<lambda>x y. x \<and> y", OF assms(3,2) _ _ n]) (use assms in \<open>simp_all add: bit_simps\<close>)
  qed
  moreover have "?c = network \<longleftrightarrow> ip_word ?c = ip_word network"
    using assms ip_word_inject [of ?c network] by auto
  ultimately show ?thesis using assms by (simp add: CIDRBlockContaints_bytes)
qed

section \<open>Splitting a range\<close>

text \<open>The last number of the block of size $2^h$ around a number.\<close>

definition block_top :: "nat \<Rightarrow> nat \<Rightarrow> nat" where
  "block_top h n = n div 2 ^ h * 2 ^ h + (2 ^ h - 1)"

lemma block_top_ge: "n \<le> block_top h n"
proof -
  have "n mod 2 ^ h \<le> 2 ^ h - 1" by (simp add: less_Suc_eq_le [symmetric])
  then show ?thesis unfolding block_top_def using div_mult_mod_eq [of n "2 ^ h"] by linarith
qed

lemma block_top_0 [simp]: "block_top 0 n = n"
  by (simp add: block_top_def)

lemma block_top_mono: "h \<le> k \<Longrightarrow> block_top h n \<le> block_top k n"
proof -
  assume "h \<le> k"
  have "block_top h n div 2 ^ k = n div 2 ^ k"
  proof -
    have "(2 ^ h - 1) div 2 ^ h = (0 :: nat)" by (rule div_less) simp
    then have "block_top h n div 2 ^ h = n div 2 ^ h" unfolding block_top_def by (subst div_mult_self3) simp_all
    moreover have "2 ^ k = 2 ^ h * (2 ^ (k - h) :: nat)" using \<open>h \<le> k\<close> by (simp flip: power_add)
    ultimately show ?thesis by (simp add: div_mult2_eq)
  qed
  with block_top_ge [of "block_top h n" k] show ?thesis by (simp add: block_top_def)
qed

lemma block_top_next:
  assumes "block_top h n + 1 \<le> t" and "t < block_top (Suc h) n"
  shows "t < block_top h (block_top h n + 1)"
proof -
  let ?q = "n div 2 ^ h" and ?p = "2 ^ h :: nat"
  have p: "0 < ?p" by simp
  have s': "block_top h n + 1 = (?q + 1) * ?p" by (simp add: block_top_def)
  have div2: "n div 2 ^ Suc h = ?q div 2" by (simp add: div_mult2_eq [symmetric] mult.commute)
  have top2: "block_top (Suc h) n + 1 = (?q div 2 * 2 + 2) * ?p" unfolding block_top_def div2 using p by (simp add: algebra_simps)
  have "(?q + 1) * ?p < (?q div 2 * 2 + 2) * ?p" using assms s' top2 by linarith
  then have "?q + 1 < ?q div 2 * 2 + 2" by (simp only: mult_less_cancel2)
  moreover have "q + 1 < q div 2 * 2 + 2 \<Longrightarrow> q div 2 * 2 = q" for q :: nat by presburger
  ultimately have even: "?q div 2 * 2 = ?q" by blast
  have "(block_top h n + 1) div ?p = ?q + 1" unfolding s' by simp
  then have "block_top h (block_top h n + 1) + 1 = (?q + 2) * ?p" using p by (simp add: block_top_def algebra_simps)
  then have "block_top h (block_top h n + 1) = block_top (Suc h) n" using top2 even by simp
  with assms(2) show ?thesis by simp
qed

lemma unat_or_mask: "unat (w OR mask h :: 128 word) = block_top h (unat w)" if "h \<le> 128"
proof -
  have "unat (w OR mask h) = unat w OR mask h"
    using that by (intro bit_eqI) (auto simp: bit_simps dest: bit_imp_le_length)
  also have "\<dots> = push_bit h (drop_bit h (unat w)) OR mask h"
    by (rule bit_eqI) (auto simp: bit_simps)
  also have "\<dots> = push_bit h (drop_bit h (unat w)) + mask h"
    by (rule disjunctive_add [symmetric]) (auto simp: bit_simps)
  finally show ?thesis by (simp add: block_top_def push_bit_eq_mult drop_bit_eq_div mask_eq_exp_minus_1)
qed

abbreviation ip_nat :: "bytes \<Rightarrow> nat" where
  "ip_nat bs \<equiv> unat (ip_word bs)"

lemma ip_nat_SubnetBroadcast:
  "length s = 16 \<Longrightarrow> b \<le> 128 \<Longrightarrow> ip_nat (SubnetBroadcast s b) = block_top (128 - b) (ip_nat s)"
  by (simp add: ip_word_SubnetBroadcast unat_or_mask)

text \<open>The leading ones of an address.\<close>

lemma byte_ones_bit: "m < k \<Longrightarrow> k \<le> m + byte_ones k b \<Longrightarrow> k \<le> 8 \<Longrightarrow> bit (b :: u8) m"
proof (induction k)
  case (Suc k)
  then have k: "bit b k" using bit_iff_and_push_bit_not_eq_0 [of b k] by (auto split: if_splits)
  with Suc show ?case
    by (cases "m = k") (auto simp: bit_iff_and_push_bit_not_eq_0 [symmetric] split: if_splits)
qed simp

lemma byte_ones_le: "byte_ones k b \<le> k"
  by (induction k) simp_all

lemma SubnetBits_le: "SubnetBits s \<le> 8 * length s"
proof (induction s)
  case (Cons b s)
  then show ?case using byte_ones_le [of 8 b] by auto
qed simp

lemma SubnetBits_bit:
  "i < length s \<Longrightarrow> m < 8 \<Longrightarrow> 8 * i + 7 < SubnetBits s + m \<Longrightarrow> bit (s ! i) m"
proof (induction s arbitrary: i)
  case (Cons b s)
  have ff: "bit (0xFF :: u8) m" unfolding word_mask_8 using Cons.prems by (simp add: bit_simps)
  show ?case
  proof (cases "b = 0xFF")
    case True
    with Cons ff show ?thesis by (cases i) auto
  next
    case False
    with Cons.prems have "i = 0" using byte_ones_le [of 8 b] by (cases i) auto
    with Cons.prems False show ?thesis using byte_ones_bit [of m 8 b] by auto
  qed
qed simp

lemma block_top_SubnetBits:
  assumes "length s = 16"
  shows "block_top (128 - SubnetBits s) (ip_nat s) = 2 ^ 128 - 1"
proof -
  have le: "SubnetBits s \<le> 128" using SubnetBits_le [of s] assms by simp
  have "ip_word s OR mask (128 - SubnetBits s) = - 1"
  proof (rule bit_word_eqI)
    fix n assume "n < LENGTH(128)"
    then have n: "n < 128" by simp
    have "bit (ip_word s) n" if "128 \<le> n + SubnetBits s"
    proof -
      have "n = n div 8 * 8 + n mod 8" "n div 8 < 16" using n by simp_all
      then have "8 * (15 - n div 8) + 7 < SubnetBits s + n mod 8" using that by linarith
      with SubnetBits_bit [of "15 - n div 8" s "n mod 8"] assms show ?thesis by (simp add: bit_ip_word [OF assms n])
    qed
    then show "bit (ip_word s OR mask (128 - SubnetBits s)) n = bit (- 1 :: 128 word) n"
      using n by (auto simp: bit_simps)
  qed
  then show ?thesis using unat_or_mask [of "128 - SubnetBits s" "ip_word s"] by (simp add: unsigned_minus_1_eq_mask mask_eq_exp_minus_1)
qed

text \<open>One block: it starts at the address, ends inside the range, and the block of twice the size would not,
  unless the search began with this one.\<close>

lemma cidr_fit_Some:
  assumes "length s = 16" and "length t = 16" and "ip_nat s \<le> ip_nat t"
  shows "start \<le> 128 \<Longrightarrow> \<exists>b. cidr_fit s t start =
      Some \<lparr>cidr_network = s, cidr_broadcast = SubnetBroadcast s b, cidr_mask = MaskFromBits b, cidr_bits = b\<rparr> \<and>
    start \<le> b \<and> b \<le> 128 \<and> block_top (128 - b) (ip_nat s) \<le> ip_nat t \<and>
    (b = start \<or> ip_nat t < block_top (Suc (128 - b)) (ip_nat s))"
proof (induction "128 - start" arbitrary: start)
  case 0
  then have "start = 128" by simp
  with assms show ?case
    by (subst cidr_fit.simps) (simp add: Compare_le word_le_nat_alt ip_nat_SubnetBroadcast)
next
  case (Suc k)
  show ?case
  proof (cases "block_top (128 - start) (ip_nat s) \<le> ip_nat t")
    case True
    with Suc.prems assms show ?thesis
      by (subst cidr_fit.simps) (auto simp: Compare_le word_le_nat_alt ip_nat_SubnetBroadcast)
  next
    case False
    then have next1: "cidr_fit s t start = cidr_fit s t (start + 1)"
      using Suc.prems assms by (subst cidr_fit.simps) (auto simp: Compare_le word_le_nat_alt ip_nat_SubnetBroadcast)
    have "k = 128 - (start + 1)" "start + 1 \<le> 128" using Suc.hyps(2) by linarith+
    from Suc.hyps(1) [OF this] obtain b where b: "cidr_fit s t (start + 1) =
        Some \<lparr>cidr_network = s, cidr_broadcast = SubnetBroadcast s b, cidr_mask = MaskFromBits b, cidr_bits = b\<rparr>"
      "start + 1 \<le> b" "b \<le> 128" "block_top (128 - b) (ip_nat s) \<le> ip_nat t"
      "b = start + 1 \<or> ip_nat t < block_top (Suc (128 - b)) (ip_nat s)" by blast
    have "b = start + 1 \<Longrightarrow> Suc (128 - b) = 128 - start" using \<open>start + 1 \<le> 128\<close> by simp
    with b False next1 show ?thesis by (intro exI [of _ b]) auto
  qed
qed

text \<open>A list of blocks that follow each other from one number to another.\<close>

fun tiles :: "nat \<Rightarrow> nat \<Rightarrow> ip_cidr6 list \<Rightarrow> bool" where
  "tiles s t [] \<longleftrightarrow> s = t + 1"
| "tiles s t (c # cs) \<longleftrightarrow>
    length (cidr_network c) = 16 \<and> length (cidr_broadcast c) = 16 \<and> ip_nat (cidr_network c) = s \<and>
    s \<le> ip_nat (cidr_broadcast c) \<and> ip_nat (cidr_broadcast c) \<le> t \<and> cidr_bits c \<le> 128 \<and>
    cidr_broadcast c = SubnetBroadcast (cidr_network c) (cidr_bits c) \<and> cidr_mask c = MaskFromBits (cidr_bits c) \<and>
    tiles (ip_nat (cidr_broadcast c) + 1) t cs"

lemma tiles_range:
  "tiles s t cs \<Longrightarrow> length ip = 16 \<Longrightarrow> RangeContaints cs ip \<longleftrightarrow> s \<le> ip_nat ip \<and> ip_nat ip \<le> t"
proof (induction cs arbitrary: s)
  case (Cons c cs)
  let ?b = "ip_nat (cidr_broadcast c)"
  have c: "tiles (?b + 1) t cs" "s = ip_nat (cidr_network c)" "s \<le> ?b" "?b \<le> t"
    "length (cidr_network c) = 16" "length (cidr_broadcast c) = 16"
    using Cons.prems(1) by (auto simp only: tiles.simps)
  have "RangeContaints (c # cs) ip \<longleftrightarrow> (s \<le> ip_nat ip \<and> ip_nat ip \<le> ?b) \<or> RangeContaints cs ip"
    using c Cons.prems(2) by (auto simp: Compare_le Compare_ge word_le_nat_alt)
  also have "\<dots> \<longleftrightarrow> s \<le> ip_nat ip \<and> ip_nat ip \<le> t"
    using Cons.IH [OF c(1) Cons.prems(2)] c(3,4) by auto
  finally show ?case .
qed simp

lemma ip_nat_less: "ip_nat b < 2 ^ 128"
  using unsigned_less [of "ip_word b"] by simp

lemma ip_nat_Next: "length b = 16 \<Longrightarrow> ip_nat b < 2 ^ 128 - 1 \<Longrightarrow> ip_nat (Next b None) = ip_nat b + 1"
  by (simp add: ip_word_Next unat_word_ariths)

lemma cidr_loop_tiles:
  "length s = 16 \<Longrightarrow> length t = 16 \<Longrightarrow> ip_nat t < 2 ^ 128 - 1 \<Longrightarrow> ip_nat s \<le> ip_nat t + 1 \<Longrightarrow>
   ip_nat t < block_top h (ip_nat s) \<Longrightarrow> h \<le> loops \<Longrightarrow> h \<le> 128 \<Longrightarrow>
   tiles (ip_nat s) (ip_nat t) (cidr_loop loops s t) \<and> length (cidr_loop loops s t) \<le> h"
proof (induction h arbitrary: loops s rule: less_induct)
  case (less h)
  show ?case
  proof (cases "ip_nat s \<le> ip_nat t")
    case False
    then have "\<not> Compare s t \<le> 0" using less.prems by (simp add: Compare_le word_le_nat_alt)
    then have "cidr_loop loops s t = []" by (cases loops) simp_all
    with False less.prems show ?thesis by simp
  next
    case True
    then have "0 < h" using less.prems(5) by (cases h) auto
    with less.prems(6) obtain n where loops: "loops = Suc n" by (cases loops) auto
    have "SubnetBits s \<le> 128" using SubnetBits_le [of s] less.prems(1) by simp
    from cidr_fit_Some [OF less.prems(1,2) True this] obtain b where b: "cidr_fit s t (SubnetBits s) =
        Some \<lparr>cidr_network = s, cidr_broadcast = SubnetBroadcast s b, cidr_mask = MaskFromBits b, cidr_bits = b\<rparr>"
      "b \<le> 128" "block_top (128 - b) (ip_nat s) \<le> ip_nat t" "b = SubnetBits s \<or> ip_nat t < block_top (Suc (128 - b)) (ip_nat s)"
      by blast
    have "b \<noteq> SubnetBits s" using b(3) block_top_SubnetBits [OF less.prems(1)] less.prems(3) by auto
    with b(4) have big: "ip_nat t < block_top (Suc (128 - b)) (ip_nat s)" by blast
    let ?k = "128 - b" and ?c = "SubnetBroadcast s b" and ?s = "Next (SubnetBroadcast s b) None"
    have c: "length ?c = 16" "ip_nat ?c = block_top ?k (ip_nat s)" using less.prems(1) b(2) by (simp_all add: ip_nat_SubnetBroadcast)
    have "ip_nat ?c < 2 ^ 128 - 1" using c(2) b(3) less.prems(3) by linarith
    then have s': "length ?s = 16" "ip_nat ?s = block_top ?k (ip_nat s) + 1" using c by (simp_all add: ip_nat_Next)
    have kh: "?k < h"
    proof (rule ccontr)
      assume "\<not> ?k < h"
      then have "block_top h (ip_nat s) \<le> block_top ?k (ip_nat s)" by (intro block_top_mono) simp
      with b(3) less.prems(5) show False by simp
    qed
    have rest: "tiles (ip_nat ?s) (ip_nat t) (cidr_loop n ?s t) \<and> length (cidr_loop n ?s t) \<le> ?k"
    proof (cases "ip_nat ?s \<le> ip_nat t")
      case in_range: True
      then have "ip_nat t < block_top ?k (ip_nat ?s)" using block_top_next [of ?k "ip_nat s" "ip_nat t"] big s' by simp
      then show ?thesis using less.IH [OF kh s'(1) less.prems(2,3)] s' b(3) less.prems(6,7) kh loops by auto
    next
      case False
      then have "\<not> Compare ?s t \<le> 0" using less.prems s' by (simp add: Compare_le word_le_nat_alt)
      then have "cidr_loop n ?s t = []" by (cases n) simp_all
      with False s' b(3) show ?thesis by simp
    qed
    have "Compare s t \<le> 0" using True less.prems by (simp add: Compare_le word_le_nat_alt)
    then have "cidr_loop loops s t =
        \<lparr>cidr_network = s, cidr_broadcast = ?c, cidr_mask = MaskFromBits b, cidr_bits = b\<rparr> # cidr_loop n ?s t"
      using loops b(1) by simp
    with rest c s' b(2,3) kh less.prems(1) block_top_ge [of "ip_nat s" ?k] show ?thesis by simp
  qed
qed

text \<open>C35: For a range that does not end at the last address, \<open>CIDRFromRange\<close> gives at most 128 blocks, far
  from the limit of 512 rounds; each block runs from its network to its broadcast address, they follow each
  other from the first address to the last, and \<open>RangeContaints\<close> of them is \<open>Between\<close>.\<close>

theorem CIDRFromRange_tiles:
  assumes "length a = 16" and "length b = 16" and "ip_nat a \<le> ip_nat b" and "ip_nat b < 2 ^ 128 - 1"
  shows "tiles (ip_nat a) (ip_nat b) (CIDRFromRange a b) \<and> length (CIDRFromRange a b) \<le> 128 \<and>
    (length ip = 16 \<longrightarrow> RangeContaints (CIDRFromRange a b) ip = Between ip a b)"
proof -
  have "ip_nat a div 2 ^ 128 = 0" using ip_nat_less [of a] by (rule div_less)
  then have "ip_nat b < block_top 128 (ip_nat a)" using assms(4) by (simp add: block_top_def)
  then have t: "tiles (ip_nat a) (ip_nat b) (CIDRFromRange a b)" "length (CIDRFromRange a b) \<le> 128"
    using cidr_loop_tiles [OF assms(1,2,4), of 128 512] assms(3) by (simp_all add: CIDRFromRange_def)
  with assms tiles_range [OF t(1), of ip] show ?thesis by (simp add: Between_def Compare_le Compare_ge word_le_nat_alt)
qed

text \<open>An address with a small number, for the examples.\<close>

definition small_ip :: "u8 \<Rightarrow> bytes" where
  "small_ip b = replicate 15 0 @ [b]"

lemma small_ip [simp]: "length (small_ip b) = 16" "ip_nat (small_ip b) = unat b"
proof -
  show len: "length (small_ip b) = 16" by (simp add: small_ip_def)
  have "le_val (replicate n 0) = 0" for n by (induction n) simp_all
  then show "ip_nat (small_ip b) = unat b" using unat_ip_word [OF len] by (simp add: small_ip_def)
qed

theorem CIDRFromRange_tiles_witness:
  "RangeContaints (CIDRFromRange (small_ip 1) (small_ip 6)) (small_ip 4) \<and>
   \<not> RangeContaints (CIDRFromRange (small_ip 1) (small_ip 6)) (small_ip 7) \<and>
   length (CIDRFromRange (small_ip 1) (small_ip 6)) \<le> 128"
  using CIDRFromRange_tiles [of "small_ip 1" "small_ip 6" "small_ip 4"]
    CIDRFromRange_tiles [of "small_ip 1" "small_ip 6" "small_ip 7"]
  by (simp add: Between_def Compare_le Compare_ge word_le_nat_alt)

text \<open>The byte loops of \<open>ZmNetIPv6\<close> compute on the 128 bit number of an address: \<open>Compare\<close> orders by it,
  \<open>Next\<close> and \<open>Prev\<close> add and subtract one and wrap around, and the shifts shift it.\<close>

theorem ipv6_arithmetic:
  assumes "length a = 16" and "length b = 16"
  shows "Compare a b = (if ip_word a = ip_word b then 0 else if ip_word a > ip_word b then 1 else - 1) \<and>
    (Compare a b = 0 \<longleftrightarrow> a = b) \<and>
    ip_word (Max6 a b) = max (ip_word a) (ip_word b) \<and> ip_word (Min6 a b) = min (ip_word a) (ip_word b) \<and>
    ip_word (Next a None) = ip_word a + 1 \<and> ip_word (Prev a None) = ip_word a - 1 \<and>
    ip_word (BitShiftLeft a) = push_bit 1 (ip_word a) \<and> ip_word (BitShiftRight a) = drop_bit 1 (ip_word a) \<and>
    Swap6 a b = (b, a)"
proof (intro conjI)
  show "Compare a b = 0 \<longleftrightarrow> a = b"
    using ip_word_inject [OF assms] assms by (auto simp: Compare_word)
  show "ip_word (Max6 a b) = max (ip_word a) (ip_word b)" "ip_word (Min6 a b) = min (ip_word a) (ip_word b)"
    by (auto simp: Max6_def Min6_def Compare_word assms max_def min_def)
  show "Swap6 a b = (b, a)" using assms by (simp add: Swap6_def blit_full Let_def)
qed (use assms in \<open>simp_all only: Compare_word ip_word_Next ip_word_Prev ip_word_BitShiftLeft ip_word_BitShiftRight\<close>)

theorem ipv6_arithmetic_witness:
  "ip_word (Next (small_ip 255) None) = 256 \<and> Compare (small_ip 1) (small_ip 2) = - 1"
proof -
  have v: "ip_word (small_ip 255) = 255" "ip_word (small_ip 1) = 1" "ip_word (small_ip 2) = 2"
    by (simp_all add: word_unat_eq_iff)
  show ?thesis
    using ipv6_arithmetic [of "small_ip 255" "small_ip 255"] ipv6_arithmetic [of "small_ip 1" "small_ip 2"] by (simp add: v)
qed

lemma and_mask_range:
  assumes "h \<le> 128" and "ip_word n AND mask h = 0"
  shows "ip_word p AND NOT (mask h) = ip_word n \<longleftrightarrow> ip_nat n \<le> ip_nat p \<and> ip_nat p \<le> block_top h (ip_nat n)"
proof -
  let ?m = "2 ^ h :: nat"
  have "unat (ip_word p AND NOT (mask h)) = ip_nat p div ?m * ?m"
  proof -
    have "unat (ip_word p AND NOT (mask h)) = push_bit h (drop_bit h (ip_nat p))"
      by (rule bit_eqI) (auto simp: bit_simps dest: bit_imp_le_length)
    then show ?thesis by (simp add: push_bit_eq_mult drop_bit_eq_div)
  qed
  moreover have "ip_nat n = ip_nat n div ?m * ?m"
  proof -
    have "\<not> bit (ip_word n AND mask h) i" for i using assms(2) by simp
    then have "bit (ip_word n) i \<Longrightarrow> h \<le> i" for i
      using bit_imp_le_length [of "ip_word n" i] by (fastforce simp: bit_simps)
    then have "ip_nat n = push_bit h (drop_bit h (ip_nat n))"
      by (intro bit_eqI) (auto simp: bit_simps)
    then show ?thesis by (simp add: push_bit_eq_mult drop_bit_eq_div)
  qed
  moreover have "ip_nat p div ?m * ?m = ip_nat n \<longleftrightarrow> ip_nat n \<le> ip_nat p \<and> ip_nat p \<le> block_top h (ip_nat n)"
    if "ip_nat n = k * ?m" for k
  proof -
    have t: "block_top h (ip_nat n) = k * ?m + (?m - 1)" using that by (simp add: block_top_def)
    have p: "0 < ?m" "ip_nat p mod ?m < ?m" by simp_all
    show ?thesis
    proof
      assume "ip_nat p div ?m * ?m = ip_nat n"
      then show "ip_nat n \<le> ip_nat p \<and> ip_nat p \<le> block_top h (ip_nat n)"
        using p that div_mult_mod_eq [of "ip_nat p" ?m] unfolding t by linarith
    next
      assume "ip_nat n \<le> ip_nat p \<and> ip_nat p \<le> block_top h (ip_nat n)"
      then have a: "k * ?m \<le> ip_nat p" "ip_nat p \<le> k * ?m + (?m - 1)" using that t by simp_all
      then have "ip_nat p < k * ?m + ?m" using p(1) by linarith
      with a(1) have "?m * k \<le> ip_nat p" "ip_nat p < ?m * Suc k" by (simp_all add: mult.commute)
      then have "ip_nat p div ?m = k" by (rule div_nat_eqI)
      with that show "ip_nat p div ?m * ?m = ip_nat n" by simp
    qed
  qed
  ultimately show ?thesis unfolding word_unat_eq_iff by metis
qed

text \<open>For up to 128 bits the mask has that many leading ones and \<open>SubnetBits\<close> counts them, the broadcast
  address has the other bits set, and an address is in the block of a network without host bits exactly when
  it lies between the network and the broadcast address.\<close>

theorem ipv6_subnets:
  assumes "length network = 16" and "length ip = 16" and "bits \<le> 128" and "ip_word network AND mask (128 - bits) = 0"
  shows "ip_word (MaskFromBits bits) = NOT (mask (128 - bits)) \<and> SubnetBits (MaskFromBits bits) = bits \<and>
    ip_word (SubnetBroadcast network bits) = ip_word network OR mask (128 - bits) \<and>
    CIDRBlockContaints network (MaskFromBits bits) ip = Between ip network (SubnetBroadcast network bits)"
  using assms and_mask_range [OF _ assms(4), of ip]
  by (simp add: MaskFromBits_correct ip_word_SubnetBroadcast CIDRBlockContaints_word Between_def Compare_le Compare_ge
      word_le_nat_alt unat_or_mask)

theorem ipv6_subnets_witness:
  "CIDRBlockContaints (small_ip 0x40) (MaskFromBits 122) (small_ip 0x7F) \<and>
   \<not> CIDRBlockContaints (small_ip 0x40) (MaskFromBits 122) (small_ip 0x80)"
proof -
  have "ip_word (small_ip 0x40) = 0x40" "ip_word (small_ip 0x7F) = 0x7F" "ip_word (small_ip 0x80) = 0x80"
    by (simp_all add: word_unat_eq_iff)
  moreover have "ip_word (small_ip 0x40) AND mask (128 - 122) = 0"
    using calculation by (simp add: mask_eq_exp_minus_1)
  ultimately show ?thesis
    using ipv6_subnets [of "small_ip 0x40" "small_ip 0x7F" 122] ipv6_subnets [of "small_ip 0x40" "small_ip 0x80" 122]
    by (simp add: Between_def Compare_le Compare_ge mask_eq_exp_minus_1)
qed

section \<open>Ranges that go wrong\<close>

text \<open>The last address, the first one, and the block of all addresses.\<close>

definition ip_max :: bytes where
  "ip_max = replicate 16 0xFF"

definition ip_zero :: bytes where
  "ip_zero = replicate 16 0"

definition all_block :: ip_cidr6 where
  "all_block = \<lparr>cidr_network = ip_zero, cidr_broadcast = ip_max, cidr_mask = ip_zero, cidr_bits = 0\<rparr>"

lemma length_ip_max [simp]: "length ip_max = 16" "length ip_zero = 16"
  by (simp_all add: ip_max_def ip_zero_def)

lemma ip_word_max: "ip_word ip_max = - 1"
  using MaskFromBits_correct(2) [of 128] unfolding MaskFromBits_128 ip_max_def [symmetric] by simp

lemma ip_word_zero: "ip_word ip_zero = 0"
  by (simp add: ip_word_def ip_zero_def numeral_eq_Suc)

lemma Compare_max: "length a = 16 \<Longrightarrow> Compare a ip_max \<le> 0"
  by (simp add: Compare_le ip_word_max)

lemma SubnetBroadcast_max: "length a = 16 \<Longrightarrow> SubnetBroadcast a (SubnetBits a) = ip_max"
proof -
  assume len: "length a = 16"
  have le: "SubnetBits a \<le> 128" using SubnetBits_le [of a] len by simp
  have "ip_nat (SubnetBroadcast a (SubnetBits a)) = 2 ^ 128 - 1"
    using ip_nat_SubnetBroadcast [OF len le] block_top_SubnetBits [OF len] by simp
  also have "\<dots> = unat (- 1 :: 128 word)" by (simp add: unsigned_minus_1_eq_mask mask_eq_exp_minus_1)
  finally have "ip_word (SubnetBroadcast a (SubnetBits a)) = ip_word ip_max"
    unfolding ip_word_max by (simp only: word_unat_eq_iff)
  then show ?thesis using len le by (intro ip_word_inject) simp_all
qed

lemma cidr_fit_max:
  assumes "length a = 16"
  shows "cidr_fit a ip_max (SubnetBits a) = Some \<lparr>cidr_network = a, cidr_broadcast = ip_max,
    cidr_mask = MaskFromBits (SubnetBits a), cidr_bits = SubnetBits a\<rparr>"
proof -
  have "SubnetBits a \<le> 128" using SubnetBits_le [of a] assms by simp
  moreover have "Compare ip_max ip_max \<le> 0" by (rule Compare_max) simp
  ultimately show ?thesis by (subst cidr_fit.simps) (simp add: SubnetBroadcast_max [OF assms] Let_def)
qed

lemma Next_max: "Next ip_max None = ip_zero"
  by (rule ip_word_inject) (simp_all add: ip_word_Next ip_word_max ip_word_zero)

lemma MaskFromBits_0: "MaskFromBits 0 = ip_zero"
  by (simp add: MaskFromBits_def ip_zero_def)

lemma cidr_loop_max: "cidr_loop n ip_zero ip_max = replicate n all_block"
proof (induction n)
  case (Suc n)
  have z: "SubnetBits ip_zero = 0" by code_simp
  have "Compare ip_zero ip_max \<le> 0" by (rule Compare_max) simp
  with Suc cidr_fit_max [of ip_zero] show ?case
    by (simp add: z Next_max all_block_def MaskFromBits_0)
qed simp

text \<open>A range up to the last address is first covered by one block, and then, because \<open>Next\<close> wraps around
  to zero, the whole address space is added 511 times.  A block whose first address is not a multiple of its
  size has a mask under which no address belongs to it; and \<open>Next\<close> into another buffer leaves the bytes in
  front of the carry as they were.\<close>

theorem CIDRFromRange_flaws:
  assumes "length a = 16" and "length ip = 16"
  shows "CIDRFromRange a ip_max =
      \<lparr>cidr_network = a, cidr_broadcast = ip_max, cidr_mask = MaskFromBits (SubnetBits a), cidr_bits = SubnetBits a\<rparr>
      # replicate 511 all_block \<and>
    (\<exists>c cs. CIDRFromRange (small_ip 1) (small_ip 6) = c # cs \<and> cidr_network c = small_ip 1 \<and> cidr_bits c = 126 \<and>
      \<not> CIDRBlockContaints (cidr_network c) (cidr_mask c) ip) \<and>
    Next (small_ip 1) (Some (replicate 16 0xAA)) = replicate 15 0xAA @ [2]"
proof (intro conjI)
  have five: "512 = Suc 511" by simp
  show "CIDRFromRange a ip_max =
      \<lparr>cidr_network = a, cidr_broadcast = ip_max, cidr_mask = MaskFromBits (SubnetBits a), cidr_bits = SubnetBits a\<rparr>
      # replicate 511 all_block"
    unfolding CIDRFromRange_def five cidr_loop.simps
    using Compare_max [OF assms(1)] cidr_fit_max [OF assms(1)] cidr_loop_max [of 511] by (simp add: Next_max)
  have fit: "cidr_fit (small_ip 1) (small_ip 6) (SubnetBits (small_ip 1)) = Some
      \<lparr>cidr_network = small_ip 1, cidr_broadcast = small_ip 3, cidr_mask = MaskFromBits 126, cidr_bits = 126\<rparr>" by code_simp
  have run: "CIDRFromRange (small_ip 1) (small_ip 6) =
      \<lparr>cidr_network = small_ip 1, cidr_broadcast = small_ip 3, cidr_mask = MaskFromBits 126, cidr_bits = 126\<rparr>
      # cidr_loop 511 (Next (small_ip 3) None) (small_ip 6)"
    unfolding CIDRFromRange_def five cidr_loop.simps fit by (simp add: Compare_le word_le_nat_alt)
  have "ip_word (small_ip 1) = 1" by (simp add: word_unat_eq_iff)
  moreover have "ip_word ip AND NOT (mask 2) \<noteq> 1"
  proof
    assume "ip_word ip AND NOT (mask 2) = 1"
    then have "bit (ip_word ip AND NOT (mask 2)) 0 = bit (1 :: 128 word) 0" by (rule arg_cong)
    then show False by (simp add: bit_and_iff bit_not_iff bit_mask_iff)
  qed
  moreover have "ip_word (MaskFromBits 126) = NOT (mask 2)" using MaskFromBits_correct(2) [of 126] by simp
  ultimately have "\<not> CIDRBlockContaints (small_ip 1) (MaskFromBits 126) ip"
    using CIDRBlockContaints_word [of "small_ip 1" "MaskFromBits 126" ip] MaskFromBits_correct(1) [of 126] assms(2) by simp
  with run show "\<exists>c cs. CIDRFromRange (small_ip 1) (small_ip 6) = c # cs \<and> cidr_network c = small_ip 1 \<and> cidr_bits c = 126 \<and>
      \<not> CIDRBlockContaints (cidr_network c) (cidr_mask c) ip" by simp
  show "Next (small_ip 1) (Some (replicate 16 0xAA)) = replicate 15 0xAA @ [2]" by code_simp
qed

theorem CIDRFromRange_flaws_witness:
  "CIDRFromRange (small_ip 9) ip_max ! 300 = all_block"
  using CIDRFromRange_flaws [of "small_ip 9" "small_ip 0"] by simp

end
