(* ===== verification/NetIP.thy ===== *)
theory NetIP
  imports NetIPv6
begin

unbundle bit_operations_syntax

text \<open>
  \<open>ZmNetIP\<close> of \<open>net/zm_net_ip\<close> and the range parser of \<open>ZmNetIPv6\<close>.  The union of \<open>ZM_IP_ADDR\<close> is its
  16 bytes, of which the IPv4 number takes the first four in little endian order.  A socket address is the
  memory of a \<open>sockaddr_in6\<close> by fields; the IPv4 variant uses the bytes of its flow field for the address.
  The libevent functions \<open>evutil_inet_pton\<close> and \<open>evutil_inet_ntop\<close> are parameters \<open>pton\<close> and \<open>ntop\<close>, the
  adapters of the machine are a list.
\<close>

section \<open>Addresses\<close>

definition AF_INET :: u16 where "AF_INET = 2"

text \<open>23 on Windows; the comments of the source say 10, the value on Linux.\<close>

definition AF_INET6 :: u16 where "AF_INET6 = 23"

record ip_addr =
  ip_family :: u16
  ip_u8 :: bytes

record peer_addr =
  peer_port :: u16
  peer_ip :: ip_addr

record sockaddr6 =
  sa_family :: u16
  sa_port :: u16
  sa_addr4 :: u32
  sa_addr6 :: bytes
  sa_scope :: u32

definition le_bytes32 :: "u32 \<Rightarrow> bytes" where
  "le_bytes32 v = [ucast v, ucast (drop_bit 8 v), ucast (drop_bit 16 v), ucast (drop_bit 24 v)]"

definition ipv4_of :: "ip_addr \<Rightarrow> u32" where
  "ipv4_of a = le_uint32 (ip_u8 a)"

definition set_ipv4 :: "u32 \<Rightarrow> ip_addr \<Rightarrow> ip_addr" where
  "set_ipv4 v a = a\<lparr>ip_u8 := blit 0 (le_bytes32 v) (ip_u8 a)\<rparr>"

definition ntohs :: "u16 \<Rightarrow> u16" where
  "ntohs w = push_bit 8 w OR drop_bit 8 w"

definition ntohl :: "u32 \<Rightarrow> u32" where
  "ntohl w = push_bit 24 w OR (push_bit 8 w AND 0xFF0000) OR (drop_bit 8 w AND 0xFF00) OR drop_bit 24 w"

definition zero_ip :: ip_addr where
  "zero_ip = \<lparr>ip_family = 0, ip_u8 = replicate 16 0\<rparr>"

definition zero_sa :: sockaddr6 where
  "zero_sa = \<lparr>sa_family = 0, sa_port = 0, sa_addr4 = 0, sa_addr6 = replicate 16 0, sa_scope = 0\<rparr>"

definition SockaddrToPeer :: "sockaddr6 \<Rightarrow> peer_addr" where
  "SockaddrToPeer sa =
    (let ip = zero_ip\<lparr>ip_family := sa_family sa\<rparr>
     in if sa_family sa = AF_INET6
        then \<lparr>peer_port = ntohs (sa_port sa), peer_ip = ip\<lparr>ip_u8 := blit 0 (take 16 (sa_addr6 sa)) (ip_u8 ip)\<rparr>\<rparr>
        else \<lparr>peer_port = ntohs (sa_port sa), peer_ip = set_ipv4 (ntohl (sa_addr4 sa)) ip\<rparr>)"

definition SockaddrFromPeer :: "peer_addr \<Rightarrow> sockaddr6" where
  "SockaddrFromPeer p =
    (if ip_family (peer_ip p) = AF_INET6
     then zero_sa\<lparr>sa_family := AF_INET6, sa_addr6 := blit 0 (take 16 (ip_u8 (peer_ip p))) (sa_addr6 zero_sa),
       sa_port := ntohs (peer_port p)\<rparr>
     else zero_sa\<lparr>sa_family := AF_INET, sa_addr4 := ntohl (ipv4_of (peer_ip p)), sa_port := ntohs (peer_port p)\<rparr>)"

section \<open>Text\<close>

text \<open>\<open>ntop\<close> gives the text that fits the capacity, or fails and leaves the output alone.\<close>

type_synonym ntop_fun = "u16 \<Rightarrow> bytes \<Rightarrow> nat \<Rightarrow> bytes option"
type_synonym pton_fun = "u16 \<Rightarrow> bytes \<Rightarrow> bytes option"

definition u32_at :: "nat \<Rightarrow> bytes \<Rightarrow> u32" where
  "u32_at i bs = le_uint32 (drop (4 * i) bs)"

definition SockaddrToStr :: "ntop_fun \<Rightarrow> sockaddr6 \<Rightarrow> bytes \<Rightarrow> nat \<Rightarrow> bool \<Rightarrow> bytes" where
  "SockaddrToStr ntop sa ipstr capacity v4map =
    (let put = (\<lambda>r. case r of Some s \<Rightarrow> s | None \<Rightarrow> ipstr)
     in if AF_INET6 = sa_family sa then
          let u = sa_addr6 sa
          in if v4map \<and> (0 = u32_at 0 u \<and> 0 = u32_at 1 u \<and> (u32_at 2 u = ntohl 0xFFFF \<or> 0 = u32_at 2 u))
             then put (ntop AF_INET (take 4 (drop 12 u)) capacity)
             else put (ntop AF_INET6 u capacity)
        else put (ntop AF_INET (le_bytes32 (sa_addr4 sa)) capacity))"

definition SockaddrFromStr :: "pton_fun \<Rightarrow> bytes \<Rightarrow> sockaddr6 option \<Rightarrow> u16 \<times> sockaddr6 option" where
  "SockaddrFromStr pton ipstr sa =
    (case pton AF_INET ipstr of
       Some in4 \<Rightarrow>
         (AF_INET, map_option (\<lambda>s. s\<lparr>sa_family := AF_INET, sa_port := 0, sa_addr4 := le_uint32 in4,
            sa_addr6 := blit 0 (replicate 8 0) (sa_addr6 s)\<rparr>) sa)
     | None \<Rightarrow>
         (case pton AF_INET6 ipstr of
            Some in6 \<Rightarrow> (AF_INET6, map_option (\<lambda>s. zero_sa\<lparr>sa_family := AF_INET6, sa_addr6 := in6\<rparr>) sa)
          | None \<Rightarrow> (0, sa)))"

definition Validate :: "pton_fun \<Rightarrow> bytes \<Rightarrow> ip_addr option \<Rightarrow> u16 \<times> ip_addr option" where
  "Validate pton ipstr ip =
    (case pton AF_INET ipstr of
       Some dst4 \<Rightarrow> (AF_INET, map_option (\<lambda>a. set_ipv4 (ntohl (le_uint32 dst4)) (a\<lparr>ip_family := AF_INET\<rparr>)) ip)
     | None \<Rightarrow>
         (case pton AF_INET6 ipstr of
            Some dst6 \<Rightarrow> (AF_INET6, map_option (\<lambda>a. a\<lparr>ip_family := AF_INET6, ip_u8 := take 16 dst6\<rparr>) ip)
          | None \<Rightarrow> (0, ip)))"

definition IPFromStr :: "pton_fun \<Rightarrow> bytes \<Rightarrow> ip_addr option \<Rightarrow> u16 \<times> ip_addr option" where
  "IPFromStr = Validate"

text \<open>\<open>%d\<close> of a number that is not negative.\<close>

fun dec :: "nat \<Rightarrow> bytes" where
  "dec n = (if n < 10 then [word_of_nat (48 + n)] else dec (n div 10) @ [word_of_nat (48 + n mod 10)])"

declare dec.simps [simp del]

definition octet :: "nat \<Rightarrow> u32 \<Rightarrow> nat" where
  "octet k v = unat (drop_bit (8 * k) v AND 0xFF)"

definition IPv4ToStr :: "u32 \<Rightarrow> bool \<Rightarrow> bytes" where
  "IPv4ToStr ipv4 bigendian =
    (let f = (\<lambda>a b c d. take 15 (dec a @ 0x2E # dec b @ 0x2E # dec c @ 0x2E # dec d))
     in if bigendian then f (octet 0 ipv4) (octet 1 ipv4) (octet 2 ipv4) (octet 3 ipv4)
        else f (octet 3 ipv4) (octet 2 ipv4) (octet 1 ipv4) (octet 0 ipv4))"

text \<open>The overloads for \<open>in_addr\<close> and \<open>in6_addr\<close> pass the address of their pointer parameter: what \<open>ntop\<close>
  reads are the bytes of the pointer and the stack behind it.\<close>

definition ptr_bytes :: "u64 \<Rightarrow> bytes" where
  "ptr_bytes p = map (\<lambda>k. ucast (drop_bit (8 * k) p)) [0..<8]"

definition IPv4ToStr_in4 :: "ntop_fun \<Rightarrow> u64 \<Rightarrow> bytes \<Rightarrow> nat \<Rightarrow> bytes option" where
  "IPv4ToStr_in4 ntop in4 stack capacity = ntop AF_INET (take 4 (ptr_bytes in4 @ stack)) capacity"

definition IPv6ToStr :: "ntop_fun \<Rightarrow> u64 \<Rightarrow> bytes \<Rightarrow> nat \<Rightarrow> bytes option" where
  "IPv6ToStr ntop in6 stack capacity = ntop AF_INET6 (take 16 (ptr_bytes in6 @ stack)) capacity"

text \<open>\<open>addr\<close> stands at the address \<open>p\<close>; its union begins at offset 4.\<close>

definition IPToStr :: "ntop_fun \<Rightarrow> u64 \<Rightarrow> ip_addr \<Rightarrow> bytes \<Rightarrow> nat \<Rightarrow> bytes option" where
  "IPToStr ntop p addr stack capacity =
    (if ip_family addr = AF_INET6 then IPv6ToStr ntop (p + 4) stack capacity
     else Some (IPv4ToStr (ipv4_of addr) False))"

section \<open>Comparison and classes\<close>

definition IPCompare :: "ip_addr \<Rightarrow> ip_addr \<Rightarrow> int" where
  "IPCompare ip1 ip2 =
    (if ip_family ip1 = ip_family ip2 then
       if ip_family ip1 = AF_INET6 then Compare (ip_u8 ip1) (ip_u8 ip2)
       else if ipv4_of ip1 = ipv4_of ip2 then 0 else if ipv4_of ip1 > ipv4_of ip2 then 1 else - 1
     else if ip_family ip1 > ip_family ip2 then 1 else - 1)"

definition IPCompareHostNet :: "ip_addr \<Rightarrow> sockaddr6 \<Rightarrow> int" where
  "IPCompareHostNet ip1 ip2 =
    (if ip_family ip1 = sa_family ip2 then
       if ip_family ip1 = AF_INET6 then Compare (ip_u8 ip1) (sa_addr6 ip2)
       else
         let ipv4 = ntohl (sa_addr4 ip2)
         in if ipv4_of ip1 = ipv4 then 0 else if ipv4_of ip1 > ipv4 then 1 else - 1
     else if ip_family ip1 > sa_family ip2 then 1 else - 1)"

definition IsLoopback :: "ip_addr \<Rightarrow> bool" where
  "IsLoopback ip \<longleftrightarrow>
    (if ip_family ip = AF_INET6 then list_all (\<lambda>b. b = 0) (take 15 (ip_u8 ip)) \<and> ip_u8 ip ! 15 = 1
     else drop_bit 24 (ipv4_of ip) = 127)"

definition IsPrivate :: "ip_addr \<Rightarrow> bool" where
  "IsPrivate ip \<longleftrightarrow>
    (if ip_family ip = AF_INET6 then ip_u8 ip ! 0 AND 0xFE = 0xFC
     else if drop_bit 24 (ipv4_of ip) = 10 then True
     else if drop_bit 20 (ipv4_of ip) = 0xAC1 then True
     else if drop_bit 16 (ipv4_of ip) = 0xC0A8 then True
     else False)"

definition IsLinkLocal :: "ip_addr \<Rightarrow> bool" where
  "IsLinkLocal ip \<longleftrightarrow>
    (if ip_family ip = AF_INET6 then ip_u8 ip ! 0 = 0xFE \<and> ip_u8 ip ! 1 AND 0xC0 = 0x80
     else drop_bit 16 (ipv4_of ip) = 0xA9FE)"

definition IsMulticast :: "ip_addr \<Rightarrow> bool" where
  "IsMulticast ip \<longleftrightarrow> (if ip_family ip = AF_INET6 then ip_u8 ip ! 0 = 0xFF else drop_bit 28 (ipv4_of ip) = 0xE)"

definition IsIPv4MappedIPv6 :: "bytes \<Rightarrow> bool" where
  "IsIPv4MappedIPv6 u \<longleftrightarrow> u32_at 0 u = 0 \<and> u32_at 1 u = 0 \<and> u32_at 2 u = ntohl 0xFFFF"

section \<open>IPv4 subnets\<close>

definition IPv4MaskFromBits :: "nat \<Rightarrow> u32" where
  "IPv4MaskFromBits bits = (if bits \<ge> 32 then 0xFFFFFFFF else if bits = 0 then 0 else NOT (push_bit (32 - bits) 1 - 1))"

fun subnet_bits_loop :: "nat \<Rightarrow> u32 \<Rightarrow> nat" where
  "subnet_bits_loop 0 msk = 0"
| "subnet_bits_loop (Suc i) msk = (if msk AND push_bit i 1 \<noteq> 0 then Suc (subnet_bits_loop i msk) else 0)"

definition IPv4SubnetBits :: "u32 \<Rightarrow> nat" where
  "IPv4SubnetBits msk = subnet_bits_loop 32 msk"

definition IPv4SubnetBroadcast :: "u32 \<Rightarrow> nat \<Rightarrow> u32" where
  "IPv4SubnetBroadcast subnet bits = subnet OR NOT (IPv4MaskFromBits bits)"

section \<open>Network adapters\<close>

record adapter =
  ad_unicast :: "sockaddr6 list"
  ad_physical :: bytes

definition IsEthernetAddress :: "bytes \<Rightarrow> bool" where
  "IsEthernetAddress a \<longleftrightarrow> \<not> (a ! 0 = 0 \<and> a ! 1 = 0 \<and> a ! 2 = 0 \<and> a ! 3 = 0 \<and> a ! 4 = 0)"

definition fmt_hwaddr :: "u8 \<Rightarrow> bytes \<Rightarrow> bytes" where
  "fmt_hwaddr sep a = tl (concat (map (\<lambda>i. sep # Hex True [a ! i]) [0..<6]))"

text \<open>\<open>snprintf\<close> of a text at an offset: it is cut so that it fits the space with its terminator.\<close>

definition put_text :: "bytes \<Rightarrow> nat \<Rightarrow> nat \<Rightarrow> bytes \<Rightarrow> bytes" where
  "put_text mem off space text = (if space = 0 then mem else blit off (take (space - 1) text @ [0]) mem)"

fun mac_loop :: "nat \<Rightarrow> ip_addr option \<Rightarrow> u8 \<Rightarrow> adapter list \<Rightarrow> bytes \<Rightarrow> nat \<Rightarrow> nat \<Rightarrow> bytes \<times> nat" where
  "mac_loop capacity specip sep [] hwaddr off count = (hwaddr, count)"
| "mac_loop capacity specip sep (aa # rest) hwaddr off count =
    (case specip of
       Some ip \<Rightarrow>
         if list_ex (\<lambda>ua. 0 = IPCompareHostNet ip ua) (ad_unicast aa)
         then (put_text hwaddr 0 capacity (fmt_hwaddr sep (ad_physical aa)), 1)
         else mac_loop capacity specip sep rest hwaddr off count
     | None \<Rightarrow>
         if off < capacity \<and> IsEthernetAddress (ad_physical aa)
         then let t = fmt_hwaddr sep (ad_physical aa)
              in mac_loop capacity specip sep rest (put_text hwaddr off (capacity - off) t) (off + length t + 1) (count + 1)
         else mac_loop capacity specip sep rest hwaddr off count)"

text \<open>\<open>adapters\<close> is what the system calls give, \<open>None\<close> when one of them fails.\<close>

definition GetMacAddresses :: "bytes \<Rightarrow> ip_addr option \<Rightarrow> int \<Rightarrow> adapter list option \<Rightarrow> bytes \<times> nat" where
  "GetMacAddresses hwaddr specip nMode adapters =
    (if hwaddr = [] then (hwaddr, 0)
     else
       let mem = fill 0 (length hwaddr) 0 hwaddr
       in case adapters of
            None \<Rightarrow> (mem, 0)
          | Some l \<Rightarrow> mac_loop (length hwaddr) specip (if nMode = 1 then 0x3A else 0x2D) l mem 0 0)"

section \<open>Ranges in text\<close>

text \<open>The text cut at the first occurrence of a character.\<close>

fun cut_at :: "u8 \<Rightarrow> bytes \<Rightarrow> (bytes \<times> bytes) option" where
  "cut_at c [] = None"
| "cut_at c (x # r) = (if x = c then Some ([], r) else map_option (\<lambda>(a, b). (x # a, b)) (cut_at c r))"

text \<open>\<open>atoi\<close> of a text of digits, with the largest \<open>int\<close> for larger numbers.\<close>

definition c_atoi :: "bytes \<Rightarrow> int" where
  "c_atoi s = min (2 ^ 31 - 1) (foldl (\<lambda>v c. v * 10 + (uint c - 48)) 0 (takeWhile (\<lambda>c. 0x30 \<le> c \<and> c \<le> 0x39) s))"

definition ParseRange :: "pton_fun \<Rightarrow> bytes \<Rightarrow> bool \<times> ip_cidr6" where
  "ParseRange pton ipstr =
    (let zero = CIDRSet None None None 0
     in case cut_at 0x2D ipstr of
          Some (a, b) \<Rightarrow>
            (case pton AF_INET6 a of
               Some ip1 \<Rightarrow>
                 (case pton AF_INET6 b of
                    Some ip2 \<Rightarrow> (True, CIDRSet (Some ip1) (Some ip2) None 0)
                  | None \<Rightarrow> (False, zero))
             | None \<Rightarrow> (False, zero))
        | None \<Rightarrow>
            (case cut_at 0x2F ipstr of
               Some (a, b) \<Rightarrow>
                 (case pton AF_INET6 a of
                    Some ip \<Rightarrow>
                      (let bits = c_atoi b
                       in if IsNumeric b \<and> bits \<ge> 0 \<and> bits \<le> 128
                          then (True, (CIDRSet (Some ip) None None 0)\<lparr>cidr_broadcast := SubnetBroadcast ip (nat bits)\<rparr>)
                          else (False, zero))
                  | None \<Rightarrow> (False, zero))
             | None \<Rightarrow>
                 (case pton AF_INET6 ipstr of
                    Some ip \<Rightarrow> (True, CIDRSet (Some ip) (Some ip) None 0)
                  | None \<Rightarrow> (False, zero))))"

definition CIDRFromRangeEx :: "pton_fun \<Rightarrow> bytes \<Rightarrow> bytes \<Rightarrow> ip_cidr6 list" where
  "CIDRFromRangeEx pton a b =
    (case IPFromStr pton a (Some zero_ip) of
       (fam1, Some ip_from) \<Rightarrow>
         (case IPFromStr pton b (Some zero_ip) of
            (fam2, Some ip_to) \<Rightarrow>
              if AF_INET6 = fam1 \<and> AF_INET6 = fam2 then CIDRFromRange (ip_u8 ip_from) (ip_u8 ip_to) else []
          | _ \<Rightarrow> [])
     | _ \<Rightarrow> [])"

section \<open>Byte order\<close>

lemma bits_ff00: "bit (0xFF00 :: u32) n \<longleftrightarrow> 8 \<le> n \<and> n < 16" "bit (0xFF0000 :: u32) n \<longleftrightarrow> 16 \<le> n \<and> n < 24"
proof -
  have a: "(0xFF00 :: u32) = push_bit 8 (mask 8)" and b: "(0xFF0000 :: u32) = push_bit 16 (mask 8)"
    by (simp_all add: mask_eq_exp_minus_1)
  show "bit (0xFF00 :: u32) n \<longleftrightarrow> 8 \<le> n \<and> n < 16" unfolding a by (auto simp: bit_push_bit_iff bit_mask_iff)
  show "bit (0xFF0000 :: u32) n \<longleftrightarrow> 16 \<le> n \<and> n < 24" unfolding b by (auto simp: bit_push_bit_iff bit_mask_iff)
qed

lemma byte_cases: "n < 32 \<Longrightarrow> n < 8 \<or> (8 \<le> n \<and> n < 16) \<or> (16 \<le> n \<and> n < 24) \<or> (24 \<le> n \<and> n < 32)" for n :: nat
  by linarith

lemma bit_ntohl:
  "n < 32 \<Longrightarrow> bit (ntohl w) n \<longleftrightarrow> bit w (if n < 8 then n + 24 else if n < 16 then n + 8 else if n < 24 then n - 8 else n - 24)"
  using bit_imp_le_length [of w "n + 24"] bit_imp_le_length [of w "n + 8"]
  unfolding ntohl_def bit_or_iff bit_and_iff bits_ff00
  by (auto simp: bit_simps add.commute dest: bit_imp_le_length)

lemma ntohl_ntohl [simp]: "ntohl (ntohl w) = w"
proof (rule bit_word_eqI)
  fix n assume "n < LENGTH(32)"
  then have n: "n < 32" by simp
  show "bit (ntohl (ntohl w)) n = bit w n"
    using byte_cases [OF n] by (elim disjE conjE) (auto simp: bit_ntohl)
qed

lemma ntohs_ntohs [simp]: "ntohs (ntohs w) = w"
proof (rule bit_word_eqI)
  fix n assume "n < LENGTH(16)"
  then have "n < 16" by simp
  then show "bit (ntohs (ntohs w)) n = bit w n"
    by (cases "n < 8") (auto simp: ntohs_def bit_simps dest: bit_imp_le_length)
qed

lemma le_uint32_bytes: "le_uint32 (le_bytes32 v @ r) = v"
proof (rule bit_word_eqI)
  fix n assume "n < LENGTH(32)"
  then have n: "n < 32" by simp
  show "bit (le_uint32 (le_bytes32 v @ r)) n = bit v n"
    using byte_cases [OF n] by (elim disjE conjE) (auto simp: le_uint32_def le_bytes32_def bit_simps)
qed

lemma le_bytes32_uint32:
  assumes "4 \<le> length bs"
  shows "le_bytes32 (le_uint32 bs) = take 4 bs"
proof -
  obtain a b c d r where bs: "bs = a # b # c # d # r"
    using assms by (auto simp: numeral_eq_Suc Suc_le_length_iff)
  have "ucast (le_uint32 bs) = a" "ucast (drop_bit 8 (le_uint32 bs)) = b"
    "ucast (drop_bit 16 (le_uint32 bs)) = c" "ucast (drop_bit 24 (le_uint32 bs)) = d"
    by (rule bit_word_eqI; auto simp: le_uint32_def bs bit_simps dest: bit_imp_le_length)+
  then show ?thesis by (simp add: le_bytes32_def bs)
qed

lemma le_bytes32_length [simp]: "length (le_bytes32 v) = 4"
  by (simp add: le_bytes32_def)

lemma ipv4_of_set: "ipv4_of (set_ipv4 v a) = v"
  by (simp add: ipv4_of_def set_ipv4_def blit_def le_uint32_bytes)

section \<open>Correctness: socket addresses\<close>

lemmas addr_defs = SockaddrToPeer_def SockaddrFromPeer_def zero_ip_def zero_sa_def Let_def

text \<open>A peer address survives the way into a socket address and back, for both families, when the bytes
  behind an IPv4 number are zero; and comparing an address with a socket address is comparing it with the
  converted one.\<close>

theorem sockaddr_peer_roundtrip:
  assumes "length (ip_u8 (peer_ip p)) = 16"
    and "ip_family (peer_ip p) = AF_INET6 \<or> (ip_family (peer_ip p) = AF_INET \<and> drop 4 (ip_u8 (peer_ip p)) = replicate 12 0)"
    and "length (sa_addr6 sa) = 16"
  shows "SockaddrToPeer (SockaddrFromPeer p) = p \<and> IPCompareHostNet ip sa = IPCompare ip (peer_ip (SockaddrToPeer sa))"
proof
  show "SockaddrToPeer (SockaddrFromPeer p) = p"
  proof (cases "ip_family (peer_ip p) = AF_INET6")
    case True
    with assms(1) show ?thesis by (simp add: addr_defs blit_full)
  next
    case False
    with assms(2) have fam: "ip_family (peer_ip p) = AF_INET" and pad: "drop 4 (ip_u8 (peer_ip p)) = replicate 12 0" by auto
    have "blit 0 (le_bytes32 (ipv4_of (peer_ip p))) (replicate 16 0) = take 4 (ip_u8 (peer_ip p)) @ replicate 12 0"
      using assms(1) by (simp add: blit_def ipv4_of_def le_bytes32_uint32)
    also have "\<dots> = ip_u8 (peer_ip p)" using append_take_drop_id [of 4 "ip_u8 (peer_ip p)"] pad by simp
    finally have "blit 0 (le_bytes32 (ipv4_of (peer_ip p))) (replicate 16 0) = ip_u8 (peer_ip p)" .
    moreover have "AF_INET \<noteq> AF_INET6" by (simp add: AF_INET_def AF_INET6_def)
    ultimately show ?thesis using fam unfolding addr_defs by (simp add: set_ipv4_def)
  qed
  show "IPCompareHostNet ip sa = IPCompare ip (peer_ip (SockaddrToPeer sa))"
  proof (cases "sa_family sa = AF_INET6")
    case True
    with assms(3) show ?thesis by (auto simp: IPCompareHostNet_def IPCompare_def addr_defs blit_full)
  next
    case False
    then show ?thesis by (simp add: IPCompareHostNet_def IPCompare_def SockaddrToPeer_def Let_def ipv4_of_set)
        (auto simp: set_ipv4_def)
  qed
qed

theorem sockaddr_peer_roundtrip_witness:
  "SockaddrToPeer (SockaddrFromPeer \<lparr>peer_port = 80, peer_ip = set_ipv4 0xC0A80101 (zero_ip\<lparr>ip_family := AF_INET\<rparr>)\<rparr>)
    = \<lparr>peer_port = 80, peer_ip = set_ipv4 0xC0A80101 (zero_ip\<lparr>ip_family := AF_INET\<rparr>)\<rparr> \<and>
   IPCompareHostNet zero_ip zero_sa = 0"
  using sockaddr_peer_roundtrip [of "\<lparr>peer_port = 80, peer_ip = set_ipv4 0xC0A80101 (zero_ip\<lparr>ip_family := AF_INET\<rparr>)\<rparr>" zero_sa zero_ip]
  by (simp add: set_ipv4_def zero_ip_def zero_sa_def blit_def le_bytes32_def IPCompareHostNet_def ipv4_of_def le_uint32_def
      ntohl_def AF_INET6_def)

section \<open>Correctness: classes and IPv4 subnets\<close>

lemma drop_bit_range: "unat (drop_bit k (v :: u32)) = c \<longleftrightarrow> c * 2 ^ k \<le> unat v \<and> unat v < (c + 1) * 2 ^ k"
proof -
  have "unat v div 2 ^ k = c \<longleftrightarrow> c * 2 ^ k \<le> unat v \<and> unat v < (c + 1) * 2 ^ k"
  proof
    assume "unat v div 2 ^ k = c"
    then have "unat v = c * 2 ^ k + unat v mod 2 ^ k" by (metis div_mult_mod_eq)
    moreover have "unat v mod 2 ^ k < 2 ^ k" by simp
    ultimately obtain r where "unat v = c * 2 ^ k + r" "r < 2 ^ k" by blast
    then show "c * 2 ^ k \<le> unat v \<and> unat v < (c + 1) * 2 ^ k" by simp
  qed (intro div_nat_eqI; simp add: mult.commute)
  then show ?thesis by (simp add: unat_drop_bit_div)
qed

text \<open>The IPv4 classes are the ranges of the registry.\<close>

lemma ipv4_classes:
  assumes "ip_family ip \<noteq> AF_INET6"
  shows "IsLoopback ip \<longleftrightarrow> 0x7F000000 \<le> ipv4_of ip \<and> ipv4_of ip \<le> 0x7FFFFFFF"
    and "IsPrivate ip \<longleftrightarrow> (0x0A000000 \<le> ipv4_of ip \<and> ipv4_of ip \<le> 0x0AFFFFFF) \<or>
      (0xAC100000 \<le> ipv4_of ip \<and> ipv4_of ip \<le> 0xAC1FFFFF) \<or> (0xC0A80000 \<le> ipv4_of ip \<and> ipv4_of ip \<le> 0xC0A8FFFF)"
    and "IsLinkLocal ip \<longleftrightarrow> 0xA9FE0000 \<le> ipv4_of ip \<and> ipv4_of ip \<le> 0xA9FEFFFF"
    and "IsMulticast ip \<longleftrightarrow> 0xE0000000 \<le> ipv4_of ip \<and> ipv4_of ip \<le> 0xEFFFFFFF"
  using assms drop_bit_range [of 24 "ipv4_of ip"] drop_bit_range [of 20 "ipv4_of ip"] drop_bit_range [of 16 "ipv4_of ip"]
    drop_bit_range [of 28 "ipv4_of ip"]
  by (auto simp: IsLoopback_def IsPrivate_def IsLinkLocal_def IsMulticast_def word_unat_eq_iff word_le_nat_alt)

lemma IPv4MaskFromBits_table:
  "list_all (\<lambda>b. IPv4SubnetBits (IPv4MaskFromBits b) = b \<and> IPv4MaskFromBits b = NOT (mask (32 - b))) [0..<33]"
  by code_simp

lemma IPv4MaskFromBits_correct:
  "IPv4SubnetBits (IPv4MaskFromBits bits) = min bits 32 \<and> IPv4MaskFromBits bits = NOT (mask (32 - bits)) \<and>
   IPv4SubnetBroadcast subnet bits = subnet OR mask (32 - bits)"
proof (cases "bits \<le> 32")
  case True
  then have "bits \<in> set [0..<33]" by simp
  from bspec [OF IPv4MaskFromBits_table [unfolded list_all_iff] this]
  have "IPv4SubnetBits (IPv4MaskFromBits bits) = bits" "IPv4MaskFromBits bits = NOT (mask (32 - bits))" by blast+
  with True show ?thesis by (simp add: IPv4SubnetBroadcast_def min_absorb1)
next
  case False
  then have "IPv4MaskFromBits bits = IPv4MaskFromBits 32" by (simp add: IPv4MaskFromBits_def)
  moreover have "IPv4SubnetBits (IPv4MaskFromBits 32) = 32" "IPv4MaskFromBits 32 = NOT (mask 0)"
    using bspec [OF IPv4MaskFromBits_table [unfolded list_all_iff], of 32] by auto
  ultimately show ?thesis using False by (simp add: IPv4SubnetBroadcast_def)
qed

text \<open>The text of an IPv6 address does not depend on the address.\<close>

lemma IPToStr_ignores_address:
  "ip_family a = AF_INET6 \<Longrightarrow> ip_family b = AF_INET6 \<Longrightarrow> IPToStr ntop p a stack capacity = IPToStr ntop p b stack capacity"
  by (simp add: IPToStr_def)

lemma SockaddrToStr_loopback:
  "SockaddrToStr ntop (zero_sa\<lparr>sa_family := AF_INET6, sa_addr6 := small_ip 1\<rparr>) s n True =
     (case ntop AF_INET [0, 0, 0, 1] n of Some t \<Rightarrow> t | None \<Rightarrow> s)"
  by (simp add: SockaddrToStr_def zero_sa_def u32_at_def small_ip_def le_uint32_def numeral_eq_Suc)

section \<open>Correctness: adapters\<close>

lemma length_fmt_hwaddr [simp]: "length (fmt_hwaddr sep a) = 17"
  by (simp add: fmt_hwaddr_def upt_conv_Cons Let_def)

lemma length_put_text: "off + space \<le> length mem \<Longrightarrow> length (put_text mem off space t) = length mem"
  by (auto simp: put_text_def intro!: length_blit)

lemma mac_loop_length: "length hwaddr = capacity \<Longrightarrow> length (fst (mac_loop capacity specip sep l hwaddr off count)) = capacity"
proof (induction l arbitrary: hwaddr off count)
  case (Cons aa l)
  have "off < capacity \<Longrightarrow> length (put_text hwaddr off (capacity - off) t) = capacity" for t
    using length_put_text [of off "capacity - off" hwaddr t] Cons.prems by simp
  moreover have "length (put_text hwaddr 0 capacity t) = capacity" for t
    using length_put_text [of 0 capacity hwaddr t] Cons.prems by simp
  ultimately show ?case using Cons by (auto simp: Let_def split: option.splits)
qed simp

lemma mac_loop_count:
  "off + 18 * length (filter (IsEthernetAddress \<circ> ad_physical) l) \<le> capacity \<Longrightarrow>
   snd (mac_loop capacity None sep l hwaddr off count) = count + length (filter (IsEthernetAddress \<circ> ad_physical) l)"
  by (induction l arbitrary: hwaddr off count) (auto simp: Let_def)

section \<open>Correctness: ranges in text\<close>

lemma cut_at_first: "c \<notin> set x \<Longrightarrow> cut_at c (x @ c # y) = Some (x, y)"
  by (induction x) auto

lemma cut_at_none: "c \<notin> set x \<Longrightarrow> cut_at c x = None"
  by (induction x) auto

lemma IsNumeric_digits: "IsNumeric t \<Longrightarrow> c \<in> set t \<Longrightarrow> 0x30 \<le> c \<and> c \<le> 0x39"
proof -
  have "IsNumeric_loop t \<Longrightarrow> c \<in> set t \<Longrightarrow> 0x30 \<le> c \<and> c \<le> 0x39" for t
    by (induction t) (auto simp: not_less split: if_splits)
  from this [of t] show "IsNumeric t \<Longrightarrow> c \<in> set t \<Longrightarrow> 0x30 \<le> c \<and> c \<le> 0x39" by (simp add: IsNumeric_def)
qed

lemma c_atoi_nonneg: "0 \<le> c_atoi s"
proof -
  have "0 \<le> v \<Longrightarrow> list_all (\<lambda>c. 0x30 \<le> c \<and> c \<le> 0x39) t \<Longrightarrow> 0 \<le> foldl (\<lambda>v c. v * 10 + (uint c - 48)) v t" for v :: int and t :: bytes
    by (induction t arbitrary: v) (auto simp: word_le_def)
  moreover have "list_all (\<lambda>c. 0x30 \<le> c \<and> c \<le> 0x39) (takeWhile (\<lambda>c. 0x30 \<le> c \<and> c \<le> 0x39) s)"
    by (auto simp: list_all_iff dest: set_takeWhileD)
  ultimately show ?thesis by (simp add: c_atoi_def)
qed

text \<open>\<open>ParseRange\<close> reads the three forms of a range: of two addresses it takes the closed interval between
  them, of an address with a number of bits the interval from the address to the broadcast address of its
  block, of one address only that address.  \<open>pton\<close> gives 16 bytes for an IPv6 address and the text of an
  address has neither dash nor slash.\<close>

theorem ParseRange_correct:
  assumes "pton AF_INET6 x = Some a" and "pton AF_INET6 y = Some b" and "length a = 16" and "length b = 16"
    and "0x2D \<notin> set x" and "0x2F \<notin> set x" and "IsNumeric t" and "c_atoi t \<le> 128" and "length ip = 16"
  shows "(\<exists>r. ParseRange pton (x @ 0x2D # y) = (True, r) \<and> RangeContaints [r] ip = Between ip a b) \<and>
    (\<exists>r. ParseRange pton (x @ 0x2F # t) = (True, r) \<and>
      RangeContaints [r] ip = (ip_word a \<le> ip_word ip \<and> ip_word ip \<le> ip_word a OR mask (128 - nat (c_atoi t)))) \<and>
    (\<exists>r. ParseRange pton x = (True, r) \<and> RangeContaints [r] ip = (ip = a))"
proof (intro conjI)
  show "\<exists>r. ParseRange pton (x @ 0x2D # y) = (True, r) \<and> RangeContaints [r] ip = Between ip a b"
    using assms by (simp add: ParseRange_def cut_at_first CIDRSet_def Let_def Between_def)
  have "0x2D \<notin> set t" using IsNumeric_digits [OF assms(7), of "0x2D"] by auto
  then have none: "cut_at 0x2D (x @ 0x2F # t) = None" using assms(5) by (intro cut_at_none) auto
  have bits: "nat (c_atoi t) \<le> 128" using assms(8) by simp
  have "ParseRange pton (x @ 0x2F # t) =
      (True, (CIDRSet (Some a) None None 0)\<lparr>cidr_broadcast := SubnetBroadcast a (nat (c_atoi t))\<rparr>)"
    using assms none c_atoi_nonneg [of t] by (simp add: ParseRange_def cut_at_first Let_def)
  moreover have "RangeContaints [(CIDRSet (Some a) None None 0)\<lparr>cidr_broadcast := SubnetBroadcast a (nat (c_atoi t))\<rparr>] ip =
      (ip_word a \<le> ip_word ip \<and> ip_word ip \<le> ip_word a OR mask (128 - nat (c_atoi t)))"
    using assms(3,9) bits by (simp add: CIDRSet_def Let_def Compare_le Compare_ge ip_word_SubnetBroadcast)
  ultimately show "\<exists>r. ParseRange pton (x @ 0x2F # t) = (True, r) \<and>
      RangeContaints [r] ip = (ip_word a \<le> ip_word ip \<and> ip_word ip \<le> ip_word a OR mask (128 - nat (c_atoi t)))" by blast
  have "ParseRange pton x = (True, CIDRSet (Some a) (Some a) None 0)"
    using assms by (simp add: ParseRange_def cut_at_none Let_def)
  moreover have "RangeContaints [CIDRSet (Some a) (Some a) None 0] ip \<longleftrightarrow> ip = a"
    using assms(3,9) ip_word_inject [OF assms(9,3)] by (auto simp: CIDRSet_def Let_def Compare_le Compare_ge)
  ultimately show "\<exists>r. ParseRange pton x = (True, r) \<and> RangeContaints [r] ip = (ip = a)" by blast
qed

theorem ParseRange_correct_witness:
  "\<exists>r. ParseRange (\<lambda>f s. if s = ascii ''::1'' then Some (small_ip 1) else if s = ascii ''::6'' then Some (small_ip 6) else None)
     (ascii ''::1-::6'') = (True, r) \<and> RangeContaints [r] (small_ip 3)"
proof -
  have c: "char_byte CHR '':'' = 0x3A" "char_byte CHR ''1'' = 0x31" "char_byte CHR ''6'' = 0x36" "char_byte CHR ''-'' = 0x2D"
    by (simp_all add: char_byte_def)
  show ?thesis
    using ParseRange_correct [of "\<lambda>f s. if s = ascii ''::1'' then Some (small_ip 1) else if s = ascii ''::6'' then Some (small_ip 6) else None"
        "ascii ''::1''" "small_ip 1" "ascii ''::6''" "small_ip 6" "[0x36]" "small_ip 3"]
    by (simp add: c IsNumeric_def c_atoi_def Between_def Compare_le Compare_ge word_le_nat_alt)
qed

end
