(* ===== verification/ThreadPool.thy ===== *)
theory ThreadPool
  imports ZmPrelude "HOL-Library.Multiset"
begin

text \<open>
  \<open>ZmThreadPool\<close> of \<open>util/zm_util_thread\<close> as a transition system.  A step is what a thread does between two
  points where another thread can come in: taking or leaving the mutex \<open>m_taskMutex\<close>, blocking on or being
  woken through the condition variable \<open>m_taskCv\<close>, the start and the end of a task.  The step relation is
  labelled with what happens, so that progress can be stated of the labels.  A thread blocked on a condition
  variable may be woken for no reason; those steps have a label of their own.

  The regions of \<open>m_delayMutex\<close> are single steps.  Tasks are values of a type variable; what a task does to
  the pool appears as further steps of the environment.  Thread names, which only a debugger shows, are left
  out.
\<close>

section \<open>State\<close>

datatype 't phase =
    Looping            \<comment> \<open>at the loop head of \<open>workerProc\<close>, without the mutex\<close>
  | Checking           \<comment> \<open>with the mutex, counted as idle, before the predicate of the wait\<close>
  | Sleeping           \<comment> \<open>predicate found false, still with the mutex\<close>
  | Blocked            \<comment> \<open>in the wait, mutex given back\<close>
  | Woken              \<comment> \<open>notified, wants the mutex\<close>
  | Running 't
  | Exited

record 't delayed_task =
  dt_id :: u32
  dt_task :: 't
  dt_deadline :: u64

datatype dtor_phase = Alive | StopRequested | Notified

record 't pool =
  tp_workers :: "'t phase list"
  tp_lock :: "nat option"
  tp_tasks :: "'t list"
  tp_idle :: nat
  tp_pending :: nat          \<comment> \<open>calls of \<open>notify_one\<close> still to be made by submitters\<close>
  tp_delayed :: "'t delayed_task list"
  tp_expired :: "'t list"    \<comment> \<open>collected by the timer thread, not yet handed to the workers\<close>
  tp_nextId :: u32
  tp_stopped :: nat          \<comment> \<open>the workers below this index have been asked to stop\<close>
  tp_dtor :: dtor_phase
  tp_submitted :: "'t list"  \<comment> \<open>history: tasks in the order they entered \<open>m_tasks\<close>\<close>
  tp_started :: "'t list"    \<comment> \<open>history: tasks in the order workers took them\<close>
  tp_finished :: "'t multiset"
  tp_accepted :: "'t multiset" \<comment> \<open>history: every task given to \<open>Submit\<close>\<close>
  tp_cancelled :: "'t multiset"

definition ZM_POOL_MAX_THREADS :: nat where
  "ZM_POOL_MAX_THREADS = 128"

section \<open>Operations\<close>

text \<open>The constructor: 0 stands for the number of cores, or 4 when that is unknown.\<close>

definition pool_size :: "u16 \<Rightarrow> u32 \<Rightarrow> u16" where
  "pool_size threadCount cpus = (if threadCount = 0 then (if cpus = 0 then 4 else ucast cpus) else threadCount)"

definition new_pool :: "u16 \<Rightarrow> u32 \<Rightarrow> 't pool" where
  "new_pool threadCount cpus =
    \<lparr>tp_workers = replicate (unat (pool_size threadCount cpus)) Looping, tp_lock = None, tp_tasks = [], tp_idle = 0,
     tp_pending = 0, tp_delayed = [], tp_expired = [], tp_nextId = 1, tp_stopped = 0, tp_dtor = Alive,
     tp_submitted = [], tp_started = [], tp_finished = {#}, tp_accepted = {#}, tp_cancelled = {#}\<rparr>"

text \<open>\<open>submitImmediate\<close> under the mutex; the notification follows after it is released.\<close>

definition submitImmediate :: "'t \<Rightarrow> 't pool \<Rightarrow> 't pool" where
  "submitImmediate task p =
    p\<lparr>tp_tasks := tp_tasks p @ [task],
      tp_workers := (if tp_idle p = 0 \<and> length (tp_workers p) < ZM_POOL_MAX_THREADS
                     then tp_workers p @ [Looping] else tp_workers p),
      tp_pending := tp_pending p + 1,
      tp_submitted := tp_submitted p @ [task]\<rparr>"

text \<open>\<open>Submit\<close> with a delay: the id handed out and the pool.\<close>

definition submit_delayed :: "'t \<Rightarrow> u32 \<Rightarrow> u64 \<Rightarrow> 't pool \<Rightarrow> u32 \<times> 't pool" where
  "submit_delayed task delayMs now p =
    (tp_nextId p,
     p\<lparr>tp_nextId := tp_nextId p + 1,
       tp_delayed := tp_delayed p @ [\<lparr>dt_id = tp_nextId p, dt_task = task, dt_deadline = now + ucast delayMs\<rparr>],
       tp_accepted := add_mset task (tp_accepted p)\<rparr>)"

definition Submit :: "'t \<Rightarrow> u32 \<Rightarrow> u64 \<Rightarrow> 't pool \<Rightarrow> u32 \<times> 't pool" where
  "Submit task delayMs now p =
    (if delayMs = 0 then (0, submitImmediate task (p\<lparr>tp_accepted := add_mset task (tp_accepted p)\<rparr>))
     else submit_delayed task delayMs now p)"

fun remove_id :: "u32 \<Rightarrow> 't delayed_task list \<Rightarrow> ('t \<times> 't delayed_task list) option" where
  "remove_id taskId [] = None"
| "remove_id taskId (d # ds) =
    (if dt_id d = taskId then Some (dt_task d, ds)
     else map_option (\<lambda>(t, r). (t, d # r)) (remove_id taskId ds))"

definition Cancel :: "u32 \<Rightarrow> 't pool \<Rightarrow> bool \<times> 't pool" where
  "Cancel taskId p =
    (case remove_id taskId (tp_delayed p) of
       Some (t, ds) \<Rightarrow> (True, p\<lparr>tp_delayed := ds, tp_cancelled := add_mset t (tp_cancelled p)\<rparr>)
     | None \<Rightarrow> (False, p))"

definition ThreadCount :: "'t pool \<Rightarrow> u16" where
  "ThreadCount p = word_of_nat (length (tp_workers p))"

text \<open>The predicate of \<open>WaitIdle\<close> and its answer: \<open>None\<close> while it goes on waiting.  A worker of the pool that
  calls it gets \<open>False\<close> at once.\<close>

definition drained :: "'t pool \<Rightarrow> bool" where
  "drained p \<longleftrightarrow> tp_tasks p = [] \<and> tp_idle p = length (tp_workers p)"

definition WaitIdle :: "nat option \<Rightarrow> bool \<Rightarrow> 't pool \<Rightarrow> bool option" where
  "WaitIdle self timed_out p =
    (case self of
       Some i \<Rightarrow> if i < length (tp_workers p) then Some False else None
     | None \<Rightarrow> if drained p then Some True else if timed_out then Some False else None)"

text \<open>The timer's third phase: the tasks whose deadline has passed, and those that stay.\<close>

definition timer_collect :: "u64 \<Rightarrow> 't pool \<Rightarrow> 't pool" where
  "timer_collect now p =
    p\<lparr>tp_expired := map dt_task (filter (\<lambda>d. dt_deadline d \<le> now) (tp_delayed p)),
      tp_delayed := filter (\<lambda>d. \<not> dt_deadline d \<le> now) (tp_delayed p)\<rparr>"

text \<open>The destructor: the stop requests, then \<open>notify_all\<close>; after that it joins.\<close>

definition dtor_request :: "'t pool \<Rightarrow> 't pool" where
  "dtor_request p = p\<lparr>tp_stopped := length (tp_workers p), tp_dtor := StopRequested\<rparr>"

definition dtor_wake :: "'t pool \<Rightarrow> 't pool" where
  "dtor_wake p = p\<lparr>tp_dtor := Notified, tp_workers := map (\<lambda>w. if w = Blocked then Woken else w) (tp_workers p)\<rparr>"

section \<open>Steps\<close>

datatype label = Env | Work | Finish | Notify | Spurious | Timer | Dtor

definition set_worker :: "nat \<Rightarrow> 't phase \<Rightarrow> 't pool \<Rightarrow> 't pool" where
  "set_worker i ph p = p\<lparr>tp_workers := (tp_workers p)[i := ph]\<rparr>"

abbreviation worker_at :: "'t pool \<Rightarrow> nat \<Rightarrow> 't phase \<Rightarrow> bool" where
  "worker_at p i ph \<equiv> i < length (tp_workers p) \<and> tp_workers p ! i = ph"

text \<open>Who may call the pool: anybody before its destructor runs, and a task of its own at any time.\<close>

definition is_running :: "'t phase \<Rightarrow> bool" where
  "is_running w \<longleftrightarrow> (case w of Running t \<Rightarrow> True | _ \<Rightarrow> False)"

definition callable :: "'t pool \<Rightarrow> bool" where
  "callable p \<longleftrightarrow> tp_dtor p = Alive \<or> list_ex is_running (tp_workers p)"

inductive tp_step :: "label \<Rightarrow> 't pool \<Rightarrow> 't pool \<Rightarrow> bool" where
  submit_now: "tp_lock p = None \<Longrightarrow> callable p \<Longrightarrow> tp_step Env p (snd (Submit t 0 now p))"
| submit_later: "delayMs \<noteq> 0 \<Longrightarrow> callable p \<Longrightarrow> tp_step Env p (snd (Submit t delayMs now p))"
| cancel: "callable p \<Longrightarrow> tp_step Env p (snd (Cancel taskId p))"
| timer_take: "tp_expired p = [] \<Longrightarrow> d \<in> set (tp_delayed p) \<Longrightarrow> dt_deadline d \<le> now \<Longrightarrow> tp_dtor p = Alive \<Longrightarrow>
    tp_step Timer p (timer_collect now p)"
| timer_hand: "tp_expired p = t # r \<Longrightarrow> tp_lock p = None \<Longrightarrow>
    tp_step Timer p (submitImmediate t (p\<lparr>tp_expired := r\<rparr>))"
| enter: "worker_at p i Looping \<Longrightarrow> tp_stopped p \<le> i \<Longrightarrow> tp_lock p = None \<Longrightarrow>
    tp_step Work p (set_worker i Checking (p\<lparr>tp_lock := Some i, tp_idle := tp_idle p + 1\<rparr>))"
| leave: "worker_at p i Looping \<Longrightarrow> i < tp_stopped p \<Longrightarrow> tp_step Work p (set_worker i Exited p)"
| check_stop: "worker_at p i Checking \<Longrightarrow> i < tp_stopped p \<Longrightarrow>
    tp_step Work p (set_worker i Exited (p\<lparr>tp_lock := None, tp_idle := tp_idle p - 1\<rparr>))"
| take_task: "worker_at p i Checking \<Longrightarrow> tp_stopped p \<le> i \<Longrightarrow> tp_tasks p = t # r \<Longrightarrow>
    tp_step Work p (set_worker i (Running t)
      (p\<lparr>tp_lock := None, tp_idle := tp_idle p - 1, tp_tasks := r, tp_started := tp_started p @ [t]\<rparr>))"
| check_false: "worker_at p i Checking \<Longrightarrow> tp_stopped p \<le> i \<Longrightarrow> tp_tasks p = [] \<Longrightarrow> tp_step Work p (set_worker i Sleeping p)"
| block: "worker_at p i Sleeping \<Longrightarrow> tp_step Work p (set_worker i Blocked (p\<lparr>tp_lock := None\<rparr>))"
| relock: "worker_at p i Woken \<Longrightarrow> tp_lock p = None \<Longrightarrow> tp_step Work p (set_worker i Checking (p\<lparr>tp_lock := Some i\<rparr>))"
| finish: "worker_at p i (Running t) \<Longrightarrow>
    tp_step Finish p (set_worker i Looping (p\<lparr>tp_finished := add_mset t (tp_finished p)\<rparr>))"
| notify_some: "0 < tp_pending p \<Longrightarrow> worker_at p i Blocked \<Longrightarrow>
    tp_step Notify p (set_worker i Woken (p\<lparr>tp_pending := tp_pending p - 1\<rparr>))"
| notify_none: "0 < tp_pending p \<Longrightarrow> Blocked \<notin> set (tp_workers p) \<Longrightarrow> tp_step Notify p (p\<lparr>tp_pending := tp_pending p - 1\<rparr>)"
| spurious: "worker_at p i Blocked \<Longrightarrow> tp_step Spurious p (set_worker i Woken p)"
| dtor_stop: "tp_dtor p = Alive \<Longrightarrow> tp_step Dtor p (dtor_request p)"
| dtor_notify: "tp_dtor p = StopRequested \<Longrightarrow> tp_step Dtor p (dtor_wake p)"

inductive_cases tp_stepE: "tp_step l p p'"

inductive tp_reach :: "'t pool \<Rightarrow> 't pool \<Rightarrow> bool" where
  refl: "tp_reach p p"
| step: "tp_reach p q \<Longrightarrow> tp_step l q r \<Longrightarrow> tp_reach p r"

section \<open>Invariants\<close>

definition holds_lock :: "'t phase \<Rightarrow> bool" where
  "holds_lock w \<longleftrightarrow> w = Checking \<or> w = Sleeping"

definition counted_idle :: "'t phase \<Rightarrow> bool" where
  "counted_idle w \<longleftrightarrow> w = Checking \<or> w = Sleeping \<or> w = Blocked \<or> w = Woken"

definition on_the_way :: "'t phase \<Rightarrow> bool" where
  "on_the_way w \<longleftrightarrow> w = Looping \<or> w = Checking \<or> w = Woken"

definition task_of :: "'t phase \<Rightarrow> 't multiset" where
  "task_of w = (case w of Running t \<Rightarrow> {#t#} | _ \<Rightarrow> {#})"

definition running_tasks :: "'t phase list \<Rightarrow> 't multiset" where
  "running_tasks ws = sum_list (map task_of ws)"

lemma phase_tests [simp]:
  "holds_lock Looping = False" "holds_lock Checking = True" "holds_lock Sleeping = True" "holds_lock Blocked = False"
  "holds_lock Woken = False" "holds_lock (Running t) = False" "holds_lock Exited = False"
  "counted_idle Looping = False" "counted_idle Checking = True" "counted_idle Sleeping = True"
  "counted_idle Blocked = True" "counted_idle Woken = True" "counted_idle (Running t) = False" "counted_idle Exited = False"
  "on_the_way Looping = True" "on_the_way Checking = True" "on_the_way Sleeping = False"
  "on_the_way Blocked = False" "on_the_way Woken = True" "on_the_way (Running t) = False" "on_the_way Exited = False"
  "task_of Looping = {#}" "task_of Checking = {#}" "task_of Sleeping = {#}" "task_of Blocked = {#}"
  "task_of Woken = {#}" "task_of (Running t) = {#t#}" "task_of Exited = {#}"
  "is_running Looping = False" "is_running Checking = False" "is_running Sleeping = False" "is_running Blocked = False"
  "is_running Woken = False" "is_running (Running t) = True" "is_running Exited = False"
  by (simp_all add: holds_lock_def counted_idle_def on_the_way_def task_of_def is_running_def)

lemma running_update:
  "i < length ws \<Longrightarrow> running_tasks (ws[i := x]) + task_of (ws ! i) = running_tasks ws + task_of x"
  by (simp add: running_tasks_def sum_list_update_add)

lemma running_simps [simp]:
  "running_tasks [] = {#}"
  "running_tasks (w # ws) = task_of w + running_tasks ws"
  "running_tasks (ws @ vs) = running_tasks ws + running_tasks vs"
  by (simp_all add: running_tasks_def)

lemma set_worker_fields [simp]:
  "tp_workers (set_worker i ph p) = (tp_workers p)[i := ph]"
  "tp_lock (set_worker i ph p) = tp_lock p" "tp_tasks (set_worker i ph p) = tp_tasks p"
  "tp_idle (set_worker i ph p) = tp_idle p" "tp_pending (set_worker i ph p) = tp_pending p"
  "tp_delayed (set_worker i ph p) = tp_delayed p" "tp_expired (set_worker i ph p) = tp_expired p"
  "tp_stopped (set_worker i ph p) = tp_stopped p" "tp_dtor (set_worker i ph p) = tp_dtor p"
  "tp_submitted (set_worker i ph p) = tp_submitted p" "tp_started (set_worker i ph p) = tp_started p"
  "tp_finished (set_worker i ph p) = tp_finished p" "tp_accepted (set_worker i ph p) = tp_accepted p"
  "tp_cancelled (set_worker i ph p) = tp_cancelled p"
  by (simp_all add: set_worker_def)

lemmas pool_ops = dtor_request_def dtor_wake_def Submit_def submitImmediate_def submit_delayed_def Cancel_def timer_collect_def

text \<open>The mutex: the worker that \<open>tp_lock\<close> names is the one that is between taking and releasing it.\<close>

abbreviation lock_ok :: "nat option \<Rightarrow> 't phase list \<Rightarrow> bool" where
  "lock_ok \<equiv> marks holds_lock"

definition lock_inv :: "'t pool \<Rightarrow> bool" where
  "lock_inv p \<longleftrightarrow> lock_ok (tp_lock p) (tp_workers p)"

lemma lock_ok_wake: "lock_ok L ws \<Longrightarrow> lock_ok L (map (\<lambda>w. if w = Blocked then Woken else w) ws)"
  by (rule marks_map) auto

lemma lock_inv_step: "tp_step l p p' \<Longrightarrow> lock_inv p \<Longrightarrow> lock_inv p'"
  by (induction rule: tp_step.induct) (auto simp: lock_inv_def pool_ops intro: marks_intros lock_ok_wake split: option.splits)

definition idle_inv :: "'t pool \<Rightarrow> bool" where
  "idle_inv p \<longleftrightarrow> tp_idle p = tally counted_idle (tp_workers p)"

lemma tally_wake: "tally counted_idle (map (\<lambda>w. if w = Blocked then Woken else w) ws) = tally counted_idle ws"
  by (induction ws) auto

lemma idle_inv_update:
  assumes "idle_inv p" "i < length (tp_workers p)"
  shows "tally counted_idle ((tp_workers p)[i := x]) + of_bool (counted_idle (tp_workers p ! i))
    = tp_idle p + of_bool (counted_idle x)"
  using assms tally_update [of i "tp_workers p" counted_idle x] by (simp add: idle_inv_def)

lemma idle_inv_step: "tp_step l p p' \<Longrightarrow> idle_inv p \<Longrightarrow> idle_inv p'"
proof (induction rule: tp_step.induct)
  case (enter p i) then show ?case using idle_inv_update [of p i Checking] by (simp add: idle_inv_def)
next
  case (leave p i) then show ?case using idle_inv_update [of p i Exited] by (simp add: idle_inv_def)
next
  case (check_stop p i) then show ?case using idle_inv_update [of p i Exited] by (simp add: idle_inv_def)
next
  case (take_task p i t r) then show ?case using idle_inv_update [of p i "Running t"] by (simp add: idle_inv_def)
next
  case (check_false p i) then show ?case using idle_inv_update [of p i Sleeping] by (simp add: idle_inv_def)
next
  case (block p i) then show ?case using idle_inv_update [of p i Blocked] by (simp add: idle_inv_def)
next
  case (relock p i) then show ?case using idle_inv_update [of p i Checking] by (simp add: idle_inv_def)
next
  case (finish p i t) then show ?case using idle_inv_update [of p i Looping] by (simp add: idle_inv_def)
next
  case (notify_some p i) then show ?case using idle_inv_update [of p i Woken] by (simp add: idle_inv_def)
next
  case (spurious p i) then show ?case using idle_inv_update [of p i Woken] by (simp add: idle_inv_def)
qed (auto simp: idle_inv_def pool_ops tally_wake split: option.splits)

text \<open>A worker that has found the queue empty and still holds the mutex is right.\<close>

definition sleep_inv :: "'t pool \<Rightarrow> bool" where
  "sleep_inv p \<longleftrightarrow> (Sleeping \<in> set (tp_workers p) \<longrightarrow> tp_tasks p = [])"

lemma lock_free_no_sleeper: "lock_inv p \<Longrightarrow> tp_lock p = None \<Longrightarrow> Sleeping \<notin> set (tp_workers p)"
  unfolding lock_inv_def marks_def by (metis in_set_conv_nth option.distinct(1) phase_tests(3))

lemma mem_update: "w \<in> set (ws[i := x]) \<Longrightarrow> w = x \<or> w \<in> set ws"
  using set_update_subset_insert by fastforce

lemma sleep_inv_update:
  "sleep_inv p \<Longrightarrow> x \<noteq> Sleeping \<Longrightarrow> Sleeping \<in> set ((tp_workers p)[i := x]) \<Longrightarrow> tp_tasks p = []"
  unfolding sleep_inv_def by (auto dest: mem_update)

lemma sleep_inv_wake: "Sleeping \<in> (\<lambda>w. if w = Blocked then Woken else w) ` set ws \<Longrightarrow> Sleeping \<in> set ws"
  by (auto split: if_splits)

lemma sleep_inv_step: "tp_step l p p' \<Longrightarrow> lock_inv p \<Longrightarrow> sleep_inv p \<Longrightarrow> sleep_inv p'"
proof (induction rule: tp_step.induct)
  case (take_task p i t r)
  then show ?case
    using sleep_inv_update [of p "Running t" i] by (auto simp: sleep_inv_def)
qed (auto simp: sleep_inv_def pool_ops dest: lock_free_no_sleeper mem_update sleep_inv_wake split: option.splits)

text \<open>First in, first out; nothing is lost or run twice.\<close>

definition queue_inv :: "'t pool \<Rightarrow> bool" where
  "queue_inv p \<longleftrightarrow> tp_started p @ tp_tasks p = tp_submitted p"

lemma queue_inv_step: "tp_step l p p' \<Longrightarrow> queue_inv p \<Longrightarrow> queue_inv p'"
  by (induction rule: tp_step.induct) (auto simp: queue_inv_def pool_ops split: option.splits)

definition owed :: "'t pool \<Rightarrow> 't multiset" where
  "owed p = mset (map dt_task (tp_delayed p)) + mset (tp_expired p)"

definition account_inv :: "'t pool \<Rightarrow> bool" where
  "account_inv p \<longleftrightarrow>
    tp_accepted p = mset (tp_tasks p) + running_tasks (tp_workers p) + tp_finished p + owed p + tp_cancelled p"

lemma remove_id_task: "remove_id k ds = Some (t, r) \<Longrightarrow> mset (map dt_task ds) = add_mset t (mset (map dt_task r))"
  by (induction ds arbitrary: t r) (auto split: if_splits)

lemma running_update_idle:
  "i < length ws \<Longrightarrow> task_of (ws ! i) = {#} \<Longrightarrow> task_of x = {#} \<Longrightarrow> running_tasks (ws[i := x]) = running_tasks ws"
  using running_update [of i ws x] by simp

lemma running_update_start:
  "i < length ws \<Longrightarrow> task_of (ws ! i) = {#} \<Longrightarrow> running_tasks (ws[i := Running t]) = add_mset t (running_tasks ws)"
  using running_update [of i ws "Running t"] by simp

lemma running_update_end:
  "i < length ws \<Longrightarrow> ws ! i = Running t \<Longrightarrow> running_tasks ws = add_mset t (running_tasks (ws[i := Looping]))"
  using running_update [of i ws "Looping :: 'a phase"] by simp

lemma running_wake: "running_tasks (map (\<lambda>w. if w = Blocked then Woken else w) ws) = running_tasks ws"
  by (induction ws) auto

lemma mset_filter_split: "mset (map f (filter P xs)) + mset (map f (filter (\<lambda>x. \<not> P x) xs)) = mset (map f xs)"
  by (induction xs) auto

lemma account_inv_step: "tp_step l p p' \<Longrightarrow> account_inv p \<Longrightarrow> account_inv p'"
proof (induction rule: tp_step.induct)
  case (cancel p k)
  then show ?case
    by (auto simp: account_inv_def owed_def Cancel_def dest: remove_id_task split: option.splits)
next
  case (timer_take p d now)
  then show ?case
    using mset_filter_split [of dt_task "\<lambda>d. dt_deadline d \<le> now" "tp_delayed p"]
    by (simp add: account_inv_def owed_def timer_collect_def ac_simps)
next
  case (finish p i t)
  then show ?case
    using running_update_end [of i "tp_workers p" t] by (simp add: account_inv_def owed_def)
qed (auto simp: account_inv_def owed_def pool_ops running_update_idle running_update_start running_wake)

definition size_inv :: "nat \<Rightarrow> 't pool \<Rightarrow> bool" where
  "size_inv n p \<longleftrightarrow> n \<le> length (tp_workers p) \<and> length (tp_workers p) \<le> max ZM_POOL_MAX_THREADS n \<and>
    (tp_workers p = [] \<longrightarrow> tp_tasks p = [])"

lemma idle_inv_empty: "idle_inv p \<Longrightarrow> tp_workers p = [] \<Longrightarrow> tp_idle p = 0"
  by (simp add: idle_inv_def)

lemma size_inv_step: "tp_step l p p' \<Longrightarrow> idle_inv p \<Longrightarrow> size_inv n p \<Longrightarrow> size_inv n p'"
  by (induction rule: tp_step.induct)
    (auto simp: size_inv_def pool_ops ZM_POOL_MAX_THREADS_def dest: idle_inv_empty split: option.splits)

text \<open>No wake-up is lost: while somebody sleeps, every queued task has a notification coming or a worker on its
  way to the queue.\<close>

definition wake_inv :: "'t pool \<Rightarrow> bool" where
  "wake_inv p \<longleftrightarrow> (Blocked \<in> set (tp_workers p) \<longrightarrow>
     length (tp_tasks p) \<le> tp_pending p + tally on_the_way (tp_workers p))"

definition alive_inv :: "'t pool \<Rightarrow> bool" where
  "alive_inv p \<longleftrightarrow> (tp_dtor p = Alive \<longrightarrow> tp_stopped p = 0 \<and> Exited \<notin> set (tp_workers p))"

lemma alive_inv_step: "tp_step l p p' \<Longrightarrow> alive_inv p \<Longrightarrow> alive_inv p'"
  by (induction rule: tp_step.induct) (auto simp: alive_inv_def pool_ops dest: mem_update split: option.splits)

lemma way_update: "i < length ws \<Longrightarrow> tally on_the_way (ws[i := x]) + of_bool (on_the_way (ws ! i))
    = tally on_the_way ws + of_bool (on_the_way x)"
  by (rule tally_update)

lemma wake_inv_step: "tp_step l p p' \<Longrightarrow> alive_inv p \<Longrightarrow> sleep_inv p \<Longrightarrow> tp_dtor p' = Alive \<Longrightarrow> wake_inv p \<Longrightarrow> wake_inv p'"
proof (induction rule: tp_step.induct)
  case (enter p i) then show ?case using way_update [of i "tp_workers p" Checking] by (auto simp: wake_inv_def dest: mem_update)
next
  case (leave p i) then show ?case by (simp add: alive_inv_def)
next
  case (check_stop p i) then show ?case by (simp add: alive_inv_def)
next
  case (take_task p i t r)
  then show ?case using way_update [of i "tp_workers p" "Running t"] by (auto simp: wake_inv_def dest: mem_update)
next
  case (check_false p i) then show ?case by (simp add: wake_inv_def)
next
  case (block p i)
  then have "tp_tasks p = []" by (metis nth_mem sleep_inv_def)
  then show ?case by (simp add: wake_inv_def)
next
  case (relock p i) then show ?case using way_update [of i "tp_workers p" Checking] by (auto simp: wake_inv_def dest: mem_update)
next
  case (finish p i t) then show ?case using way_update [of i "tp_workers p" Looping] by (auto simp: wake_inv_def dest: mem_update)
next
  case (notify_some p i)
  then show ?case using way_update [of i "tp_workers p" Woken] nth_mem [of i "tp_workers p"] by (auto simp: wake_inv_def)
next
  case (spurious p i)
  then show ?case using way_update [of i "tp_workers p" Woken] nth_mem [of i "tp_workers p"] by (auto simp: wake_inv_def)
qed (auto simp: wake_inv_def pool_ops split: option.splits)

definition tp_inv :: "nat \<Rightarrow> 't pool \<Rightarrow> bool" where
  "tp_inv n p \<longleftrightarrow> lock_inv p \<and> idle_inv p \<and> sleep_inv p \<and> queue_inv p \<and> account_inv p \<and> size_inv n p \<and>
     alive_inv p \<and> (tp_dtor p = Alive \<longrightarrow> wake_inv p)"

lemma dtor_alive_back: "tp_step l p p' \<Longrightarrow> tp_dtor p' = Alive \<Longrightarrow> tp_dtor p = Alive"
  by (induction rule: tp_step.induct) (auto simp: pool_ops split: option.splits)

lemmas tp_inv_steps = lock_inv_step idle_inv_step sleep_inv_step queue_inv_step account_inv_step size_inv_step
  alive_inv_step wake_inv_step

lemma tp_inv_step: "tp_step l p p' \<Longrightarrow> tp_inv n p \<Longrightarrow> tp_inv n p'"
  unfolding tp_inv_def by (blast intro: tp_inv_steps dest: dtor_alive_back)

lemma running_replicate: "running_tasks (replicate k Looping) = {#}"
  by (induction k) simp_all

lemma tp_inv_new: "tp_inv (unat (pool_size n c)) (new_pool n c)"
  by (simp add: tp_inv_def new_pool_def lock_inv_def marks_def idle_inv_def sleep_inv_def queue_inv_def account_inv_def
      owed_def size_inv_def alive_inv_def wake_inv_def running_replicate)

lemma tp_inv_reach: "tp_reach (new_pool n c) p \<Longrightarrow> tp_inv (unat (pool_size n c)) p"
  by (induction "new_pool n c :: 'a pool" p rule: tp_reach.induct) (auto intro: tp_inv_new tp_inv_step)

section \<open>Progress\<close>

text \<open>The steps of the pool itself: its workers, the notifications due, the ends of tasks.\<close>

definition progress :: "label \<Rightarrow> bool" where
  "progress l \<longleftrightarrow> l = Work \<or> l = Finish \<or> l = Notify"

inductive tp_runs :: "nat \<Rightarrow> 't pool \<Rightarrow> 't pool \<Rightarrow> bool" where
  none: "tp_runs 0 p p"
| more: "tp_runs k p q \<Longrightarrow> tp_step l q r \<Longrightarrow> progress l \<Longrightarrow> tp_runs (Suc k) p r"

definition at_rest :: "'t pool \<Rightarrow> bool" where
  "at_rest p \<longleftrightarrow> (\<forall>l q. progress l \<longrightarrow> \<not> tp_step l p q)"

fun rank :: "'t phase \<Rightarrow> nat" where
  "rank Looping = 4" | "rank Checking = 3" | "rank Sleeping = 2" | "rank Blocked = 1" | "rank Woken = 4"
| "rank (Running t) = 5" | "rank Exited = 0"

definition potential :: "'t pool \<Rightarrow> nat" where
  "potential p = sum_list (map rank (tp_workers p)) + 4 * tp_pending p + 3 * length (tp_tasks p)"

lemma rank_update: "i < length ws \<Longrightarrow> sum_list (map rank (ws[i := x])) + rank (ws ! i) = sum_list (map rank ws) + rank x"
  by (rule sum_list_update_add)

lemma potential_step: "tp_step l p q \<Longrightarrow> progress l \<Longrightarrow> potential q < potential p"
proof (induction rule: tp_step.induct)
  case (enter p i) then show ?case using rank_update [of i "tp_workers p" Checking] by (simp add: potential_def)
next
  case (leave p i) then show ?case using rank_update [of i "tp_workers p" Exited] by (simp add: potential_def)
next
  case (check_stop p i) then show ?case using rank_update [of i "tp_workers p" Exited] by (simp add: potential_def)
next
  case (take_task p i t r) then show ?case using rank_update [of i "tp_workers p" "Running t"] by (simp add: potential_def)
next
  case (check_false p i) then show ?case using rank_update [of i "tp_workers p" Sleeping] by (simp add: potential_def)
next
  case (block p i) then show ?case using rank_update [of i "tp_workers p" Blocked] by (simp add: potential_def)
next
  case (relock p i) then show ?case using rank_update [of i "tp_workers p" Checking] by (simp add: potential_def)
next
  case (finish p i t) then show ?case using rank_update [of i "tp_workers p" Looping] by (simp add: potential_def)
next
  case (notify_some p i) then show ?case using rank_update [of i "tp_workers p" Woken] by (simp add: potential_def)
next
  case (notify_none p) then show ?case by (simp add: potential_def)
qed (auto simp: progress_def)

lemma runs_potential: "tp_runs k p q \<Longrightarrow> k + potential q \<le> potential p"
proof (induction rule: tp_runs.induct)
  case (more k p q l r)
  then show ?case using potential_step [of l q r] by linarith
qed simp

lemma runs_reach: "tp_runs k p q \<Longrightarrow> tp_reach p0 p \<Longrightarrow> tp_reach p0 q"
  by (induction rule: tp_runs.induct) (auto intro: tp_reach.step)

lemma progress_dtor: "tp_step l p q \<Longrightarrow> progress l \<Longrightarrow> tp_dtor q = tp_dtor p \<and> owed q = owed p \<and>
    tp_cancelled q = tp_cancelled p \<and> tp_accepted q = tp_accepted p"
  by (induction rule: tp_step.induct) (auto simp: progress_def owed_def)

lemma runs_dtor: "tp_runs k p q \<Longrightarrow> tp_dtor q = tp_dtor p \<and> owed q = owed p \<and>
    tp_cancelled q = tp_cancelled p \<and> tp_accepted q = tp_accepted p"
  by (induction rule: tp_runs.induct) (auto dest: progress_dtor)

lemma runs_to_rest: "\<exists>k q. tp_runs k p q \<and> at_rest q"
proof -
  have "\<exists>k q. tp_runs k p q \<and> at_rest q" if "tp_runs k0 p p1" for k0 p1
    using that
  proof (induction "potential p1" arbitrary: k0 p1 rule: less_induct)
    case less
    show ?case
    proof (cases "at_rest p1")
      case True then show ?thesis using less.prems by blast
    next
      case False
      then obtain l r where "tp_step l p1 r" "progress l" by (auto simp: at_rest_def)
      then show ?thesis using less potential_step tp_runs.more by blast
    qed
  qed
  then show ?thesis by (blast intro: tp_runs.none)
qed

text \<open>A worker that can move is never held up for good.\<close>

lemma rest_steps:
  assumes "at_rest p" "i < length (tp_workers p)"
  shows "\<not> is_running (tp_workers p ! i)" "\<not> holds_lock (tp_workers p ! i)"
proof -
  have no: "\<not> tp_step Work p q" "\<not> tp_step Finish p q" for q
    using assms by (auto simp: at_rest_def progress_def)
  show "\<not> is_running (tp_workers p ! i)"
    using no(2) finish [of i p] assms(2) by (cases "tp_workers p ! i") auto
  have "tp_workers p ! i \<noteq> Checking"
    using no(1) check_stop [of i p] take_task [of i p] check_false [of i p] assms(2)
    by (metis list.exhaust not_le)
  moreover have "tp_workers p ! i \<noteq> Sleeping"
    using no(1) block [of i p] assms(2) by auto
  ultimately show "\<not> holds_lock (tp_workers p ! i)"
    by (simp add: holds_lock_def)
qed

lemma rest_all_blocked:
  assumes "at_rest p" "lock_inv p" "alive_inv p" "tp_dtor p = Alive"
  shows "list_all ((=) Blocked) (tp_workers p)"
  unfolding list_all_length
proof (intro allI impI)
  fix i assume i: "i < length (tp_workers p)"
  have lock: "tp_lock p = None"
    using assms(1,2) rest_steps(2) [of p] by (cases "tp_lock p") (auto simp: lock_inv_def marks_def)
  have no: "\<not> tp_step Work p q" for q
    using assms by (auto simp: at_rest_def progress_def)
  have "tp_workers p ! i \<noteq> Looping" "tp_workers p ! i \<noteq> Woken"
    using no enter [of i p] relock [of i p] i lock assms(3,4) by (auto simp: alive_inv_def)
  moreover have "tp_workers p ! i \<noteq> Exited"
    using assms(3,4) nth_mem [OF i] by (metis alive_inv_def)
  ultimately show "Blocked = tp_workers p ! i"
    using rest_steps [OF assms(1) i] by (cases "tp_workers p ! i") auto
qed

lemma rest_no_pending: "at_rest p \<Longrightarrow> tp_pending p = 0"
  using notify_some [of p] notify_none [of p]
  by (metis at_rest_def in_set_conv_nth not_gr_zero progress_def)

section \<open>Properties\<close>

lemma rest_drained:
  assumes "at_rest q" "tp_inv n q" "tp_dtor q = Alive"
  shows "drained q"
proof -
  have inv: "lock_inv q" "idle_inv q" "alive_inv q" "wake_inv q" "size_inv n q"
    using assms(2,3) by (auto simp: tp_inv_def)
  have b: "list_all ((=) Blocked) (tp_workers q)"
    by (rule rest_all_blocked [OF assms(1) inv(1,3) assms(3)])
  have "list_all counted_idle (tp_workers q)"
    using b by (auto simp: list_all_iff)
  then have "tp_idle q = length (tp_workers q)"
    using inv(2) by (simp add: idle_inv_def flip: tally_all)
  moreover have "tally on_the_way (tp_workers q) = 0"
    using b by (induction "tp_workers q") (auto simp: tally_def list_all_iff)
  ultimately show ?thesis
    using inv(4,5) rest_no_pending [OF assms(1)] b
    by (cases "tp_workers q") (auto simp: drained_def wake_inv_def size_inv_def)
qed

lemma idle_no_running: "list_all counted_idle ws \<Longrightarrow> running_tasks ws = {#}"
proof (induction ws)
  case (Cons w ws)
  then show ?case by (cases w) simp_all
qed simp

lemma drained_no_running: "idle_inv p \<Longrightarrow> drained p \<Longrightarrow> running_tasks (tp_workers p) = {#}"
proof -
  assume "idle_inv p" "drained p"
  then have "list_all counted_idle (tp_workers p)"
    by (simp add: idle_inv_def drained_def flip: tally_all)
  then show ?thesis
    by (rule idle_no_running)
qed

lemma drained_all_done:
  assumes "tp_reach (new_pool n c) p" "drained p"
  shows "tp_tasks p = [] \<and> running_tasks (tp_workers p) = {#}
    \<and> tp_started p = tp_submitted p \<and> tp_accepted p = tp_finished p + owed p + tp_cancelled p"
proof -
  have inv: "queue_inv p" "account_inv p" "idle_inv p"
    using tp_inv_reach [OF assms(1)] by (auto simp: tp_inv_def)
  then show ?thesis
    using assms(2) drained_no_running [of p] by (simp add: queue_inv_def account_inv_def drained_def)
qed

lemma demo_submitted: "tp_reach (new_pool 1 8 :: nat pool) (snd (Submit 7 0 0 (new_pool 1 8)))"
  using tp_reach.step [OF tp_reach.refl submit_now [of "new_pool 1 8 :: nat pool" 7 0]]
  by (simp add: new_pool_def callable_def)

lemmas demo_simps = pool_ops new_pool_def pool_size_def WaitIdle_def drained_def ZM_POOL_MAX_THREADS_def

lemma demo_asleep: "tp_reach (new_pool 1 8 :: nat pool) (new_pool 1 8\<lparr>tp_workers := [Blocked], tp_idle := 1\<rparr>)"
proof -
  let ?p0 = "new_pool 1 8 :: nat pool"
  let ?p1 = "?p0\<lparr>tp_workers := [Checking], tp_lock := Some 0, tp_idle := 1\<rparr>"
  let ?p2 = "?p1\<lparr>tp_workers := [Sleeping]\<rparr>"
  have "tp_reach ?p0 ?p1"
    using tp_reach.step [OF tp_reach.refl enter [of 0 ?p0]] by (simp add: demo_simps set_worker_def)
  then have "tp_reach ?p0 ?p2"
    using tp_reach.step [of ?p0 ?p1, OF _ check_false [of 0 ?p1]] by (simp add: demo_simps set_worker_def)
  then show ?thesis
    using tp_reach.step [of ?p0 ?p2, OF _ block [of 0 ?p2]] by (simp add: demo_simps set_worker_def)
qed



lemma idle_le: "idle_inv p \<Longrightarrow> tp_idle p \<le> length (tp_workers p)"
  by (simp add: idle_inv_def tally_le_length)

lemma idle_pos: "idle_inv p \<Longrightarrow> worker_at p i w \<Longrightarrow> counted_idle w \<Longrightarrow> 0 < tp_idle p"
  unfolding idle_inv_def by (metis tally_pos)

lemma drained_by_enter:
  "tp_step l p q \<Longrightarrow> idle_inv p \<Longrightarrow> \<not> drained p \<Longrightarrow> drained q \<Longrightarrow> l = Work \<and> tp_idle q = tp_idle p + 1"
proof (induction rule: tp_step.induct)
  case (check_stop p i)
  then show ?case using idle_le [of p] idle_pos [of p i Checking] by (auto simp: drained_def)
next
  case (take_task p i t r)
  then show ?case using idle_le [of p] idle_pos [of p i Checking] by (auto simp: drained_def)
qed (auto simp: drained_def pool_ops split: option.splits)

text \<open>\<open>WaitIdle\<close> answers \<open>True\<close> only when every task that entered the queue has finished: nothing is queued,
  nothing is running, and all accepted tasks but those that wait for their deadline or were cancelled are done.
  A worker of the pool is refused at once, and no caller gets \<open>False\<close> without its time being over.  The pool
  becomes drained only by a worker that counts itself idle, which is where \<open>workerProc\<close> notifies.\<close>
theorem wait_idle_correct:
  assumes "tp_reach (new_pool n c) p"
  shows "(WaitIdle self timed_out p = Some True \<longrightarrow> tp_tasks p = [] \<and> running_tasks (tp_workers p) = {#}
      \<and> tp_started p = tp_submitted p \<and> tp_accepted p = tp_finished p + owed p + tp_cancelled p)
    \<and> (WaitIdle self timed_out p = Some False \<longrightarrow> timed_out \<or> (\<exists>i. self = Some i \<and> i < length (tp_workers p)))
    \<and> (tp_step l p q \<and> \<not> drained p \<and> drained q \<longrightarrow> l = Work \<and> tp_idle q = tp_idle p + 1)"
proof -
  have "WaitIdle self timed_out p = Some True \<Longrightarrow> drained p"
    by (auto simp: WaitIdle_def split: option.splits if_splits)
  moreover have "idle_inv p"
    using tp_inv_reach [OF assms] by (simp add: tp_inv_def)
  ultimately show ?thesis
    using drained_all_done [OF assms] drained_by_enter [of l p q]
    by (auto simp: WaitIdle_def split: option.splits if_splits)
qed

theorem wait_idle_correct_witness:
  "WaitIdle None False (new_pool 1 8\<lparr>tp_workers := [Blocked], tp_idle := 1\<rparr> :: nat pool) = Some True
    \<and> running_tasks (tp_workers (new_pool 1 8\<lparr>tp_workers := [Blocked], tp_idle := 1\<rparr> :: nat pool)) = {#}
    \<and> WaitIdle (Some 0) False (new_pool 1 8\<lparr>tp_workers := [Blocked], tp_idle := 1\<rparr> :: nat pool) = Some False"
  using wait_idle_correct [OF demo_asleep, of None False Work] by (simp add: WaitIdle_def drained_def new_pool_def)

text \<open>C7: left to itself a pool that is not being destroyed completes its work.  However its workers are scheduled
  and however the notifications fall, the steps of the workers come to an end, after at most \<open>potential\<close> many, no wake-up is
  lost on the way, and when they have ended the queue is empty, every submitted task has run and \<open>WaitIdle\<close>
  answers \<open>True\<close>.  Every scheduling can be continued to that end.\<close>
theorem pool_completes:
  assumes "tp_reach (new_pool n c) p" "tp_dtor p = Alive" "tp_runs k p q"
  shows "k \<le> potential p
    \<and> (at_rest q \<longrightarrow> WaitIdle None timed_out q = Some True \<and> tp_started q = tp_submitted q
        \<and> tp_accepted p = tp_finished q + owed p + tp_cancelled p)
    \<and> (\<exists>j r. tp_runs j q r \<and> at_rest r)"
proof -
  have reach: "tp_reach (new_pool n c) q" and alive: "tp_dtor q = Alive"
    using runs_reach [OF assms(3,1)] runs_dtor [OF assms(3)] assms(2) by auto
  have "drained q" if "at_rest q"
    by (rule rest_drained [OF that tp_inv_reach [OF reach] alive])
  then show ?thesis
    using runs_potential [OF assms(3)] runs_to_rest [of q] runs_dtor [OF assms(3)] drained_all_done [OF reach]
    by (auto simp: WaitIdle_def)
qed

theorem pool_completes_witness:
  "WaitIdle None False (new_pool 1 8 :: nat pool) = None
    \<and> (\<exists>j r. tp_runs j (snd (Submit (7 :: nat) 0 0 (new_pool 1 8))) r \<and> at_rest r)"
  using pool_completes [OF demo_submitted _ tp_runs.none, of False]
  by (simp add: demo_simps)

section \<open>The destructor\<close>

text \<open>What can still happen when the destructor has notified everybody and all workers sleep or are gone.\<close>

lemma asleep_steps:
  assumes "tp_dtor p = Notified" "tp_pending p = 0" "tp_expired p = []"
    and "list_all (\<lambda>w. w = Blocked \<or> w = Exited) (tp_workers p)"
  shows "{l. \<exists>q. tp_step l p q} \<subseteq> {Spurious}"
proof -
  have w: "tp_workers p ! i = Blocked \<or> tp_workers p ! i = Exited" if "i < length (tp_workers p)" for i
    using assms(4) that by (simp add: list_all_length)
  have "\<not> list_ex is_running (tp_workers p)"
    using w by (metis list_ex_length phase_tests(32,35))
  then have no: "\<not> callable p"
    using assms(1) by (simp add: callable_def)
  have "l = Spurious" if "tp_step l p q" for l q
    using that
  proof (cases rule: tp_step.cases)
    case (enter i) then show ?thesis using w [of i] by simp
  next
    case (leave i) then show ?thesis using w [of i] by simp
  next
    case (check_stop i) then show ?thesis using w [of i] by simp
  next
    case (take_task i t r) then show ?thesis using w [of i] by simp
  next
    case (check_false i) then show ?thesis using w [of i] by simp
  next
    case (block i) then show ?thesis using w [of i] by simp
  next
    case (relock i) then show ?thesis using w [of i] by simp
  next
    case (finish i t) then show ?thesis using w [of i] by simp
  qed (use assms(1-3) no in simp_all)
  then show ?thesis
    by blast
qed

lemmas trace_simps = ZM_POOL_MAX_THREADS_def new_pool_def pool_size_def set_worker_def pool_ops callable_def

lemma dtor_hang_check:
  "\<exists>p. tp_reach (new_pool 1 c) p \<and> tp_dtor p = Notified \<and> tp_workers p = [Blocked]
    \<and> {l. \<exists>q. tp_step l p q} \<subseteq> {Spurious}"
proof -
  let ?p0 = "new_pool 1 c :: 'a pool"
  let ?p1 = "?p0\<lparr>tp_workers := [Checking], tp_lock := Some 0, tp_idle := 1\<rparr>"
  let ?p2 = "?p1\<lparr>tp_workers := [Sleeping]\<rparr>"
  let ?p3 = "?p2\<lparr>tp_stopped := 1, tp_dtor := StopRequested\<rparr>"
  let ?p4 = "?p3\<lparr>tp_dtor := Notified\<rparr>"
  let ?p5 = "?p4\<lparr>tp_workers := [Blocked], tp_lock := None\<rparr>"
  have "tp_reach ?p0 ?p1"
    using tp_reach.step [OF tp_reach.refl enter [of 0 ?p0]] by (simp add: trace_simps)
  then have "tp_reach ?p0 ?p2"
    using tp_reach.step [of ?p0 ?p1, OF _ check_false [of 0 ?p1]] by (simp add: trace_simps)
  then have "tp_reach ?p0 ?p3"
    using tp_reach.step [of ?p0 ?p2, OF _ dtor_stop [of ?p2]] by (simp add: trace_simps)
  then have "tp_reach ?p0 ?p4"
    using tp_reach.step [of ?p0 ?p3, OF _ dtor_notify [of ?p3]] by (simp add: trace_simps)
  then have "tp_reach ?p0 ?p5"
    using tp_reach.step [of ?p0 ?p4, OF _ block [of 0 ?p4]] by (simp add: trace_simps)
  moreover have "{l. \<exists>q. tp_step l ?p5 q} \<subseteq> {Spurious}"
    by (rule asleep_steps) (simp_all add: trace_simps)
  ultimately show ?thesis
    by (intro exI [of _ ?p5]) simp
qed

lemma dtor_hang_grown:
  "\<exists>p. tp_reach (new_pool 1 c) p \<and> tp_dtor p = Notified \<and> tp_workers p = [Exited, Blocked] \<and> tp_finished p = {#t, u#}
    \<and> {l. \<exists>q. tp_step l p q} \<subseteq> {Spurious}"
proof -
  let ?q0 = "new_pool 1 c :: 'a pool"
  let ?q1 = "?q0\<lparr>tp_delayed := [\<lparr>dt_id = 1, dt_task = t, dt_deadline = 1\<rparr>], tp_nextId := 2, tp_accepted := {#t#}\<rparr>"
  let ?q2 = "?q1\<lparr>tp_workers := [Checking], tp_lock := Some 0, tp_idle := 1\<rparr>"
  let ?q3 = "?q2\<lparr>tp_workers := [Sleeping]\<rparr>"
  let ?q4 = "?q3\<lparr>tp_workers := [Blocked], tp_lock := None\<rparr>"
  let ?q5 = "?q4\<lparr>tp_tasks := [u], tp_submitted := [u], tp_pending := 1, tp_accepted := {#u, t#}\<rparr>"
  let ?q6 = "?q5\<lparr>tp_workers := [Woken], tp_pending := 0\<rparr>"
  let ?q7 = "?q6\<lparr>tp_workers := [Checking], tp_lock := Some 0\<rparr>"
  let ?q8 = "?q7\<lparr>tp_workers := [Running u], tp_lock := None, tp_idle := 0, tp_tasks := [], tp_started := [u]\<rparr>"
  let ?q9 = "?q8\<lparr>tp_expired := [t], tp_delayed := []\<rparr>"
  let ?q10 = "?q9\<lparr>tp_stopped := 1, tp_dtor := StopRequested\<rparr>"
  let ?q11 = "?q10\<lparr>tp_expired := [], tp_tasks := [t], tp_submitted := [u, t], tp_workers := [Running u, Looping], tp_pending := 1\<rparr>"
  let ?q12 = "?q11\<lparr>tp_dtor := Notified\<rparr>"
  let ?q13 = "?q12\<lparr>tp_pending := 0\<rparr>"
  let ?q14 = "?q13\<lparr>tp_workers := [Looping, Looping], tp_finished := {#u#}\<rparr>"
  let ?q15 = "?q14\<lparr>tp_workers := [Exited, Looping]\<rparr>"
  let ?q16 = "?q15\<lparr>tp_workers := [Exited, Checking], tp_lock := Some 1, tp_idle := 1\<rparr>"
  let ?q17 = "?q16\<lparr>tp_workers := [Exited, Running t], tp_lock := None, tp_idle := 0, tp_tasks := [], tp_started := [u, t]\<rparr>"
  let ?q18 = "?q17\<lparr>tp_workers := [Exited, Looping], tp_finished := {#t, u#}\<rparr>"
  let ?q19 = "?q18\<lparr>tp_workers := [Exited, Checking], tp_lock := Some 1, tp_idle := 1\<rparr>"
  let ?q20 = "?q19\<lparr>tp_workers := [Exited, Sleeping]\<rparr>"
  let ?q21 = "?q20\<lparr>tp_workers := [Exited, Blocked], tp_lock := None\<rparr>"
  have "tp_reach ?q0 ?q1"
    using tp_reach.step [OF tp_reach.refl submit_later [of 1 ?q0 t 0]] by (simp add: trace_simps)
  then have "tp_reach ?q0 ?q2"
    using tp_reach.step [of ?q0 ?q1, OF _ enter [of 0 ?q1]] by (simp add: trace_simps)
  then have "tp_reach ?q0 ?q3"
    using tp_reach.step [of ?q0 ?q2, OF _ check_false [of 0 ?q2]] by (simp add: trace_simps)
  then have "tp_reach ?q0 ?q4"
    using tp_reach.step [of ?q0 ?q3, OF _ block [of 0 ?q3]] by (simp add: trace_simps)
  then have "tp_reach ?q0 ?q5"
    using tp_reach.step [of ?q0 ?q4, OF _ submit_now [of ?q4 u 0]] by (simp add: trace_simps)
  then have "tp_reach ?q0 ?q6"
    using tp_reach.step [of ?q0 ?q5, OF _ notify_some [of ?q5 0]] by (simp add: trace_simps)
  then have "tp_reach ?q0 ?q7"
    using tp_reach.step [of ?q0 ?q6, OF _ relock [of 0 ?q6]] by (simp add: trace_simps)
  then have "tp_reach ?q0 ?q8"
    using tp_reach.step [of ?q0 ?q7, OF _ take_task [of 0 ?q7 u "[]"]] by (simp add: trace_simps)
  then have "tp_reach ?q0 ?q9"
    using tp_reach.step [of ?q0 ?q8, OF _ timer_take [of ?q8 "\<lparr>dt_id = 1, dt_task = t, dt_deadline = 1\<rparr>" 1]] by (simp add: trace_simps)
  then have "tp_reach ?q0 ?q10"
    using tp_reach.step [of ?q0 ?q9, OF _ dtor_stop [of ?q9]] by (simp add: trace_simps)
  then have "tp_reach ?q0 ?q11"
    using tp_reach.step [of ?q0 ?q10, OF _ timer_hand [of ?q10 t "[]"]] by (simp add: trace_simps)
  then have "tp_reach ?q0 ?q12"
    using tp_reach.step [of ?q0 ?q11, OF _ dtor_notify [of ?q11]] by (simp add: trace_simps)
  then have "tp_reach ?q0 ?q13"
    using tp_reach.step [of ?q0 ?q12, OF _ notify_none [of ?q12]] by (simp add: trace_simps)
  then have "tp_reach ?q0 ?q14"
    using tp_reach.step [of ?q0 ?q13, OF _ finish [of 0 ?q13 u]] by (simp add: trace_simps)
  then have "tp_reach ?q0 ?q15"
    using tp_reach.step [of ?q0 ?q14, OF _ leave [of 0 ?q14]] by (simp add: trace_simps)
  then have "tp_reach ?q0 ?q16"
    using tp_reach.step [of ?q0 ?q15, OF _ enter [of 1 ?q15]] by (simp add: trace_simps)
  then have "tp_reach ?q0 ?q17"
    using tp_reach.step [of ?q0 ?q16, OF _ take_task [of 1 ?q16 t "[]"]] by (simp add: trace_simps)
  then have "tp_reach ?q0 ?q18"
    using tp_reach.step [of ?q0 ?q17, OF _ finish [of 1 ?q17 t]] by (simp add: trace_simps)
  then have "tp_reach ?q0 ?q19"
    using tp_reach.step [of ?q0 ?q18, OF _ enter [of 1 ?q18]] by (simp add: trace_simps)
  then have "tp_reach ?q0 ?q20"
    using tp_reach.step [of ?q0 ?q19, OF _ check_false [of 1 ?q19]] by (simp add: trace_simps)
  then have "tp_reach ?q0 ?q21"
    using tp_reach.step [of ?q0 ?q20, OF _ block [of 1 ?q20]] by (simp add: trace_simps)
  moreover have "{l. \<exists>q. tp_step l ?q21 q} \<subseteq> {Spurious}"
    by (rule asleep_steps) (simp_all add: trace_simps)
  ultimately show ?thesis
    by (intro exI [of _ ?q21]) simp
qed

text \<open>C36: the destructor need not return.  It sets the stop tokens and notifies without taking \<open>m_taskMutex\<close>; a
  worker that has just found its predicate false, but does not wait yet, misses the notification and then
  sleeps for ever.  And a worker that the timer thread adds after the stop requests was never asked to stop:
  it runs its task and sleeps for ever.  In both states reached here \<open>notify_all\<close> is over, \<open>join\<close> waits for
  a sleeping worker, and nothing but a spurious wake-up can still happen.\<close>
theorem pool_destructor_hangs:
  "(\<exists>p :: 't pool. tp_reach (new_pool 1 c) p \<and> tp_dtor p = Notified \<and> tp_workers p = [Blocked]
      \<and> {l. \<exists>q. tp_step l p q} \<subseteq> {Spurious})
    \<and> (\<exists>p. tp_reach (new_pool 1 c) p \<and> tp_dtor p = Notified \<and> tp_workers p = [Exited, Blocked]
      \<and> tp_finished p = {#t, u#} \<and> {l. \<exists>q. tp_step l p q} \<subseteq> {Spurious})"
  by (intro conjI dtor_hang_check dtor_hang_grown)

section \<open>Delayed tasks\<close>

lemma remove_id_found: "(\<exists>t r. remove_id k ds = Some (t, r)) \<longleftrightarrow> k \<in> dt_id ` set ds"
  by (induction ds) auto

lemma remove_id_rest: "distinct (map dt_id ds) \<Longrightarrow> remove_id k ds = Some (t, r) \<Longrightarrow> r = filter (\<lambda>d. dt_id d \<noteq> k) ds"
proof (induction ds arbitrary: t r)
  case (Cons d ds)
  show ?case
  proof (cases "dt_id d = k")
    case True
    then have "\<forall>e\<in>set ds. dt_id e \<noteq> k"
      using Cons.prems(1) by (force simp: image_iff)
    then show ?thesis
      using Cons.prems True by simp
  qed (use Cons in auto)
qed simp

lemma Cancel_correct:
  assumes "distinct (map dt_id (tp_delayed p))"
  shows "fst (Cancel k p) \<longleftrightarrow> k \<in> dt_id ` set (tp_delayed p)"
    "tp_delayed (snd (Cancel k p)) = filter (\<lambda>d. dt_id d \<noteq> k) (tp_delayed p)"
proof -
  show "fst (Cancel k p) \<longleftrightarrow> k \<in> dt_id ` set (tp_delayed p)"
    using remove_id_found [of k "tp_delayed p"] by (auto simp: Cancel_def split: option.splits)
  show "tp_delayed (snd (Cancel k p)) = filter (\<lambda>d. dt_id d \<noteq> k) (tp_delayed p)"
  proof (cases "remove_id k (tp_delayed p)")
    case None
    then have "k \<notin> dt_id ` set (tp_delayed p)"
      using remove_id_found [of k "tp_delayed p"] by simp
    then show ?thesis
      using None by (auto simp: Cancel_def intro: filter_True [symmetric])
  next
    case (Some tr)
    then show ?thesis
      using remove_id_rest [OF assms] by (cases tr) (simp add: Cancel_def)
  qed
qed

text \<open>No task leaves the list before its deadline, none that is due stays.\<close>

lemma timer_collect_due:
  "tp_expired (timer_collect now p) = map dt_task (filter (\<lambda>d. dt_deadline d \<le> now) (tp_delayed p))"
  "d \<in> set (tp_delayed (timer_collect now p)) \<longleftrightarrow> d \<in> set (tp_delayed p) \<and> now < dt_deadline d"
  by (auto simp: timer_collect_def not_le)

text \<open>The counter of the ids wraps to 0, which \<open>Submit\<close> also returns for a task that cannot be cancelled.\<close>

lemma submit_id_wraps:
  assumes "tp_nextId p = - 1"
  shows "tp_nextId (snd (submit_delayed t d now p)) = 0"
    "fst (submit_delayed t' d' now' (snd (submit_delayed t d now p))) = 0"
  using assms by (simp_all add: submit_delayed_def)

end
