(* ===== verification/ThreadCtl.thy ===== *)
theory ThreadCtl
  imports ZmPrelude
begin

text \<open>
  \<open>ZmThread\<close> of \<open>util/zm_util_thread\<close>: one thread object, any number of callers of \<open>Start\<close> and \<open>Stop\<close>, and the
  threads that \<open>Start\<close> creates, as a transition system.  A step is what happens between two points where
  another thread can come in; a caller that keeps the mutex over several steps is named in \<open>zt_lock\<close>.  What \<open>Run\<close>
  does is left to the environment: it ends whenever it likes, by an exception as well.

  Names and the thread name a debugger shows are left out, and so is a call from inside \<open>Run\<close>.
\<close>

section \<open>States\<close>

datatype ZM_THD_STATE = STOPPED | STARTING | RUNNING | STOPPING

fun thd_bits :: "ZM_THD_STATE \<Rightarrow> u32" where
  "thd_bits STOPPED = 1"
| "thd_bits STARTING = 2"
| "thd_bits RUNNING = 4"
| "thd_bits STOPPING = 8"

definition ZmThdHasState :: "u32 \<Rightarrow> u32 \<Rightarrow> bool" where
  "ZmThdHasState state flag \<longleftrightarrow> and state flag = flag"

definition IsStopped :: "ZM_THD_STATE \<Rightarrow> bool" where
  "IsStopped s \<longleftrightarrow> ZmThdHasState (thd_bits s) (thd_bits STOPPED)"

definition IsRunning :: "ZM_THD_STATE \<Rightarrow> bool" where
  "IsRunning s \<longleftrightarrow> ZmThdHasState (thd_bits s) (thd_bits RUNNING)"

definition IsStopping :: "ZM_THD_STATE \<Rightarrow> bool" where
  "IsStopping s \<longleftrightarrow> ZmThdHasState (thd_bits s) (thd_bits STOPPING)"

lemma state_queries: "IsStopped s = (s = STOPPED)" "IsRunning s = (s = RUNNING)" "IsStopping s = (s = STOPPING)"
  by (cases s; simp add: IsStopped_def IsRunning_def IsStopping_def ZmThdHasState_def)+

datatype caller =
    Outside (answer: "bool option")  \<comment> \<open>not in a call; what the last \<open>Start\<close> answered\<close>
  | Creating          \<comment> \<open>in \<open>Start\<close> with the mutex, assigning the new thread to \<open>m_thread\<close>\<close>
  | AwaitReady nat    \<comment> \<open>in \<open>Start\<close>, waiting for the promise of that thread\<close>
  | Requesting        \<comment> \<open>in \<open>Stop\<close>, before \<open>request_stop\<close>\<close>
  | WantsLock         \<comment> \<open>in \<open>Stop\<close>, before the second region, or notified\<close>
  | Waits             \<comment> \<open>in \<open>m_cv.wait\<close>\<close>
  | Joining           \<comment> \<open>in \<open>Stop\<close> with the mutex, in \<open>join\<close>\<close>

datatype runner =
    Begun             \<comment> \<open>created, has not taken the mutex yet\<close>
  | Entered           \<comment> \<open>state set, promise not yet\<close>
  | InRun
  | Returned          \<comment> \<open>\<open>Run\<close> is over\<close>
  | Reported          \<comment> \<open>state set to stopped, \<open>notify_all\<close> not done\<close>
  | Leaving           \<comment> \<open>before the check of \<open>m_autoDelete\<close>\<close>
  | Gone

record zm_thread =
  zt_state :: ZM_THD_STATE
  zt_lock :: "nat option"
  zt_callers :: "caller list"
  zt_runners :: "runner list"
  zt_stops :: "bool list"       \<comment> \<open>the stop token of each thread\<close>
  zt_thread :: "nat option"     \<comment> \<open>the joinable thread in \<open>m_thread\<close>\<close>
  zt_tid :: "nat option"        \<comment> \<open>\<open>m_threadId\<close>\<close>
  zt_autoDelete :: bool
  zt_deletes :: nat             \<comment> \<open>tasks \<open>delete this\<close> given to the global pool\<close>
  zt_onStopping :: nat          \<comment> \<open>calls of \<open>OnStopping\<close>\<close>

definition new_thread :: "nat \<Rightarrow> bool \<Rightarrow> zm_thread" where
  "new_thread callers autoDel =
    \<lparr>zt_state = STOPPED, zt_lock = None, zt_callers = replicate callers (Outside None), zt_runners = [], zt_stops = [],
     zt_thread = None, zt_tid = None, zt_autoDelete = autoDel, zt_deletes = 0, zt_onStopping = 0\<rparr>"

section \<open>Steps\<close>

definition caller_to :: "nat \<Rightarrow> caller \<Rightarrow> zm_thread \<Rightarrow> zm_thread" where
  "caller_to i c s = s\<lparr>zt_callers := (zt_callers s)[i := c]\<rparr>"

definition runner_to :: "nat \<Rightarrow> runner \<Rightarrow> zm_thread \<Rightarrow> zm_thread" where
  "runner_to k r s = s\<lparr>zt_runners := (zt_runners s)[k := r]\<rparr>"

abbreviation caller_at :: "zm_thread \<Rightarrow> nat \<Rightarrow> caller \<Rightarrow> bool" where
  "caller_at s i c \<equiv> i < length (zt_callers s) \<and> zt_callers s ! i = c"

abbreviation runner_at :: "zm_thread \<Rightarrow> nat \<Rightarrow> runner \<Rightarrow> bool" where
  "runner_at s k r \<equiv> k < length (zt_runners s) \<and> zt_runners s ! k = r"

text \<open>Regions of the code under the mutex, and what happens between them.\<close>

definition Start_region :: "nat \<Rightarrow> bool \<Rightarrow> zm_thread \<Rightarrow> zm_thread" where
  "Start_region i created s =
    (if zt_state s \<noteq> STOPPED then caller_to i (Outside (Some False)) s
     else if created then caller_to i Creating
       (s\<lparr>zt_lock := Some i, zt_state := STARTING, zt_runners := zt_runners s @ [Begun], zt_stops := zt_stops s @ [False]\<rparr>)
     else caller_to i (Outside (Some False)) s)"

definition request_stop :: "nat option \<Rightarrow> bool list \<Rightarrow> bool list" where
  "request_stop th stops = (case th of Some k \<Rightarrow> stops[k := True] | None \<Rightarrow> stops)"

text \<open>The assignment to a \<open>jthread\<close> that is joinable requests its stop and joins it.\<close>

definition Start_assign :: "nat \<Rightarrow> zm_thread \<Rightarrow> zm_thread" where
  "Start_assign i s = caller_to i (AwaitReady (length (zt_runners s) - 1))
    (s\<lparr>zt_lock := None, zt_stops := request_stop (zt_thread s) (zt_stops s), zt_thread := Some (length (zt_runners s) - 1)\<rparr>)"

definition Stop_region :: "nat \<Rightarrow> zm_thread \<Rightarrow> zm_thread" where
  "Stop_region i s =
    (if zt_state s = STOPPED then caller_to i (Outside None) s
     else if zt_state s = RUNNING \<or> zt_state s = STARTING
     then caller_to i Requesting (s\<lparr>zt_state := STOPPING, zt_onStopping := zt_onStopping s + 1\<rparr>)
     else caller_to i Requesting s)"

definition Stop_wait :: "nat \<Rightarrow> zm_thread \<Rightarrow> zm_thread" where
  "Stop_wait i s =
    (if zt_state s \<noteq> STOPPED then caller_to i Waits s
     else if \<not> zt_autoDelete s \<and> zt_thread s \<noteq> None then caller_to i Joining (s\<lparr>zt_lock := Some i\<rparr>)
     else caller_to i (Outside None) s)"

definition wake_waiters :: "caller list \<Rightarrow> caller list" where
  "wake_waiters cs = map (\<lambda>c. if c = Waits then WantsLock else c) cs"

definition joinable_done :: "zm_thread \<Rightarrow> bool" where
  "joinable_done s \<longleftrightarrow> (case zt_thread s of None \<Rightarrow> True | Some k \<Rightarrow> runner_at s k Gone)"

definition promise_kept :: "zm_thread \<Rightarrow> nat \<Rightarrow> bool" where
  "promise_kept s k \<longleftrightarrow> k < length (zt_runners s) \<and> zt_runners s ! k \<noteq> Begun \<and> zt_runners s ! k \<noteq> Entered"

datatype thd_label = Call | RunEnds | Moves | SpuriousWake

inductive thd_step :: "thd_label \<Rightarrow> zm_thread \<Rightarrow> zm_thread \<Rightarrow> bool" where
  start: "caller_at s i (Outside a) \<Longrightarrow> zt_lock s = None \<Longrightarrow> thd_step Call s (Start_region i created s)"
| start_assign: "caller_at s i Creating \<Longrightarrow> joinable_done s \<Longrightarrow> thd_step Moves s (Start_assign i s)"
| start_return: "caller_at s i (AwaitReady k) \<Longrightarrow> promise_kept s k \<Longrightarrow>
    thd_step Moves s (caller_to i (Outside (Some (zt_state s = RUNNING))) s)"
| stop: "caller_at s i (Outside a) \<Longrightarrow> zt_lock s = None \<Longrightarrow> thd_step Call s (Stop_region i s)"
| stop_request: "caller_at s i Requesting \<Longrightarrow>
    thd_step Moves s (caller_to i WantsLock (s\<lparr>zt_stops := request_stop (zt_thread s) (zt_stops s)\<rparr>))"
| stop_wait: "caller_at s i WantsLock \<Longrightarrow> zt_lock s = None \<Longrightarrow> thd_step Moves s (Stop_wait i s)"
| stop_join: "caller_at s i Joining \<Longrightarrow> joinable_done s \<Longrightarrow>
    thd_step Moves s (caller_to i (Outside None) (s\<lparr>zt_lock := None, zt_thread := None\<rparr>))"
| wake: "caller_at s i Waits \<Longrightarrow> thd_step SpuriousWake s (caller_to i WantsLock s)"
| run_enter: "runner_at s k Begun \<Longrightarrow> zt_lock s = None \<Longrightarrow>
    thd_step Moves s (runner_to k Entered (s\<lparr>zt_state := RUNNING, zt_tid := Some k\<rparr>))"
| run_ready: "runner_at s k Entered \<Longrightarrow> thd_step Moves s (runner_to k InRun s)"
| run_ends: "runner_at s k InRun \<Longrightarrow> thd_step RunEnds s (runner_to k Returned s)"
| run_report: "runner_at s k Returned \<Longrightarrow> zt_lock s = None \<Longrightarrow>
    thd_step Moves s (runner_to k Reported (s\<lparr>zt_state := STOPPED, zt_tid := None\<rparr>))"
| run_notify: "runner_at s k Reported \<Longrightarrow>
    thd_step Moves s (runner_to k Leaving (s\<lparr>zt_callers := wake_waiters (zt_callers s)\<rparr>))"
| run_leave: "runner_at s k Leaving \<Longrightarrow>
    thd_step Moves s (runner_to k Gone
      (s\<lparr>zt_autoDelete := False, zt_deletes := zt_deletes s + (if zt_autoDelete s then 1 else 0)\<rparr>))"

inductive thd_reach :: "zm_thread \<Rightarrow> zm_thread \<Rightarrow> bool" where
  refl: "thd_reach s s"
| step: "thd_reach s t \<Longrightarrow> thd_step l t u \<Longrightarrow> thd_reach s u"

inductive_cases thd_stepE: "thd_step l s s'"

lemmas thd_ops = Start_region_def Start_assign_def Stop_region_def Stop_wait_def

section \<open>Invariants\<close>

lemma to_fields [simp]:
  "zt_callers (caller_to i c s) = (zt_callers s)[i := c]" "zt_state (caller_to i c s) = zt_state s"
  "zt_lock (caller_to i c s) = zt_lock s" "zt_runners (caller_to i c s) = zt_runners s"
  "zt_stops (caller_to i c s) = zt_stops s" "zt_thread (caller_to i c s) = zt_thread s" "zt_tid (caller_to i c s) = zt_tid s"
  "zt_runners (runner_to k r s) = (zt_runners s)[k := r]" "zt_callers (runner_to k r s) = zt_callers s"
  "zt_state (runner_to k r s) = zt_state s" "zt_lock (runner_to k r s) = zt_lock s"
  "zt_stops (runner_to k r s) = zt_stops s" "zt_thread (runner_to k r s) = zt_thread s" "zt_tid (runner_to k r s) = zt_tid s"
  by (simp_all add: caller_to_def runner_to_def)

text \<open>A thread has ended when it has reported its end.\<close>

definition has_ended :: "runner \<Rightarrow> bool" where
  "has_ended r \<longleftrightarrow> r = Reported \<or> r = Leaving \<or> r = Gone"

definition inside :: "runner \<Rightarrow> bool" where
  "inside r \<longleftrightarrow> r = Entered \<or> r = InRun \<or> r = Returned"

definition keeps_lock :: "caller \<Rightarrow> bool" where
  "keeps_lock c \<longleftrightarrow> c = Creating \<or> c = Joining"

lemma phase_facts [simp]:
  "\<not> has_ended Begun" "\<not> has_ended Entered" "\<not> has_ended InRun" "\<not> has_ended Returned"
  "has_ended Reported" "has_ended Leaving" "has_ended Gone"
  "\<not> inside Begun" "inside Entered" "inside InRun" "inside Returned" "\<not> inside Reported" "\<not> inside Leaving" "\<not> inside Gone"
  "\<not> keeps_lock (Outside a)" "keeps_lock Creating" "\<not> keeps_lock (AwaitReady k)" "\<not> keeps_lock Requesting"
  "\<not> keeps_lock WantsLock" "\<not> keeps_lock Waits" "keeps_lock Joining"
  by (simp_all add: has_ended_def inside_def keeps_lock_def)

definition runners_ok :: "ZM_THD_STATE \<Rightarrow> runner list \<Rightarrow> bool" where
  "runners_ok st rs \<longleftrightarrow> list_all has_ended (butlast rs) \<and> (st = STOPPED \<longleftrightarrow> rs = [] \<or> has_ended (last rs))
     \<and> (st = STARTING \<longrightarrow> last rs = Begun)"

lemma active_last: "runners_ok st rs \<Longrightarrow> k < length rs \<Longrightarrow> \<not> has_ended (rs ! k) \<Longrightarrow> Suc k = length rs"
  unfolding runners_ok_def list_all_length
  by (metis Suc_lessI diff_Suc_1 length_butlast less_diff_conv nth_butlast add.commute plus_1_eq_Suc)

lemma last_update: "Suc k = length rs \<Longrightarrow> last (rs[k := x]) = x" "Suc k = length rs \<Longrightarrow> butlast (rs[k := x]) = butlast rs"
  by (cases rs rule: rev_cases; simp)+

lemma last_nth: "Suc k = length rs \<Longrightarrow> last rs = rs ! k"
  by (cases rs rule: rev_cases) auto

lemma runners_ok_active:
  assumes "runners_ok st rs" "k < length rs" "\<not> has_ended (rs ! k)" "has_ended x \<longleftrightarrow> st' = STOPPED" "st' \<noteq> STARTING"
  shows "runners_ok st' (rs[k := x])"
  using assms active_last [OF assms(1-3)] by (auto simp: runners_ok_def last_update)

lemma list_all_update: "list_all P xs \<Longrightarrow> P x \<Longrightarrow> list_all P (xs[k := x])"
  by (induction xs arbitrary: k) (auto split: nat.splits)

lemma runners_ok_ended:
  assumes "runners_ok st rs" "k < length rs" "has_ended (rs ! k)" "has_ended x"
  shows "runners_ok st (rs[k := x])"
proof (cases "Suc k = length rs")
  case True
  then show ?thesis
    using assms last_nth [OF True] by (auto simp: runners_ok_def last_update)
next
  case False
  then have "butlast (rs[k := x]) = (butlast rs)[k := x]" "last (rs[k := x]) = last rs"
    using assms(2) by (cases rs rule: rev_cases; simp add: list_update_append)+
  then show ?thesis
    using assms by (simp add: runners_ok_def list_all_update)
qed

lemma runners_ok_new: "runners_ok STOPPED rs \<Longrightarrow> runners_ok STARTING (rs @ [Begun])"
  by (cases rs rule: rev_cases) (auto simp: runners_ok_def butlast_append)

lemma runners_ok_stopping: "runners_ok st rs \<Longrightarrow> st \<noteq> STOPPED \<Longrightarrow> st' \<noteq> STOPPED \<Longrightarrow> st' \<noteq> STARTING \<Longrightarrow> runners_ok st' rs"
  by (auto simp: runners_ok_def)

lemma runners_ok_move:
  "runners_ok st rs \<Longrightarrow> k < length rs \<Longrightarrow> inside (rs ! k) \<Longrightarrow> inside x \<Longrightarrow> runners_ok st (rs[k := x])"
proof -
  assume a: "runners_ok st rs" "k < length rs" "inside (rs ! k)" "inside x"
  then have na: "\<not> has_ended (rs ! k)" "\<not> has_ended x" and nb: "rs ! k \<noteq> Begun"
    by (auto simp: has_ended_def inside_def)
  then have "st \<noteq> STOPPED" "st \<noteq> STARTING"
    using a active_last [OF a(1,2)] last_nth [of k rs] by (auto simp: runners_ok_def)
  then show ?thesis
    using a na by (intro runners_ok_active) auto
qed

definition life_inv :: "zm_thread \<Rightarrow> bool" where
  "life_inv s \<longleftrightarrow> runners_ok (zt_state s) (zt_runners s)"

lemma life_inv_step: "thd_step l s s' \<Longrightarrow> life_inv s \<Longrightarrow> life_inv s'"
  by (induction rule: thd_step.induct)
    (auto simp: life_inv_def thd_ops intro: runners_ok_active runners_ok_ended runners_ok_new runners_ok_stopping runners_ok_move)

definition tid_inv :: "zm_thread \<Rightarrow> bool" where
  "tid_inv s \<longleftrightarrow> marks inside (zt_tid s) (zt_runners s)"

lemma marks_end: "marks P L ws \<Longrightarrow> i < length ws \<Longrightarrow> (\<And>j. j < length ws \<Longrightarrow> P (ws ! j) \<Longrightarrow> j = i) \<Longrightarrow> P x \<Longrightarrow>
    marks P (Some i) (ws[i := x])"
  unfolding marks_def by (metis length_list_update nth_list_update option.inject)

lemma inside_last: "life_inv s \<Longrightarrow> j < length (zt_runners s) \<Longrightarrow> inside (zt_runners s ! j) \<Longrightarrow> Suc j = length (zt_runners s)"
  unfolding life_inv_def by (rule active_last) (auto simp: inside_def)

lemma tid_inv_step: "thd_step l s s' \<Longrightarrow> life_inv s \<Longrightarrow> tid_inv s \<Longrightarrow> tid_inv s'"
proof (induction rule: thd_step.induct)
  case (run_enter s k)
  have "Suc k = length (zt_runners s)"
    using run_enter by (intro active_last [of "zt_state s"]) (auto simp: life_inv_def)
  then have "j = k" if "j < length (zt_runners s)" "inside (zt_runners s ! j)" for j
    using inside_last [OF run_enter.prems(1) that] by simp
  then show ?case
    using run_enter by (auto simp: tid_inv_def intro: marks_end)
qed (auto simp: tid_inv_def thd_ops intro: marks_intros)

definition mutex_inv :: "zm_thread \<Rightarrow> bool" where
  "mutex_inv s \<longleftrightarrow> marks keeps_lock (zt_lock s) (zt_callers s)"

lemma wake_keeps: "keeps_lock (if c = Waits then WantsLock else c) = keeps_lock c"
  by (cases c) auto

lemma marks_wake: "marks keeps_lock L cs \<Longrightarrow> marks keeps_lock L (wake_waiters cs)"
  unfolding wake_waiters_def by (rule marks_map) (auto simp: wake_keeps)

lemma mutex_inv_step: "thd_step l s s' \<Longrightarrow> mutex_inv s \<Longrightarrow> mutex_inv s'"
  by (induction rule: thd_step.induct) (auto simp: mutex_inv_def thd_ops intro: marks_intros marks_wake)

lemma mutex_free: "mutex_inv s \<Longrightarrow> zt_lock s = None \<Longrightarrow> c \<in> set (zt_callers s) \<Longrightarrow> \<not> keeps_lock c"
  unfolding mutex_inv_def marks_def by (metis in_set_conv_nth option.distinct(1))

lemma mutex_owner: "mutex_inv s \<Longrightarrow> caller_at s i c \<Longrightarrow> keeps_lock c \<Longrightarrow> d \<in> set (zt_callers s) \<Longrightarrow> keeps_lock d \<Longrightarrow> d = c"
  unfolding mutex_inv_def marks_def by (metis in_set_conv_nth option.inject)

lemma one_owner:
  assumes "mutex_inv s" "caller_at s i c" "keeps_lock c" "\<not> keeps_lock d"
  shows "c \<notin> set ((zt_callers s)[i := d])"
proof
  assume "c \<in> set ((zt_callers s)[i := d])"
  then obtain j where j: "j < length (zt_callers s)" "(zt_callers s)[i := d] ! j = c"
    by (metis in_set_conv_nth length_list_update)
  then have "j \<noteq> i"
    using assms by auto
  then show False
    using assms(1-3) j unfolding mutex_inv_def marks_def by (metis nth_list_update_neq option.inject)
qed

lemma mem_wake: "c \<in> set (wake_waiters cs) \<Longrightarrow> c \<noteq> WantsLock \<Longrightarrow> c \<in> set cs \<and> c \<noteq> Waits"
  by (auto simp: wake_waiters_def split: if_splits)

lemma mem_caller_to: "c \<in> set ((zt_callers s)[i := d]) \<Longrightarrow> c = d \<or> c \<in> set (zt_callers s)"
  using set_update_subset_insert by fastforce

text \<open>What a caller that keeps the mutex may rely on.\<close>

definition region_inv :: "zm_thread \<Rightarrow> bool" where
  "region_inv s \<longleftrightarrow>
    (Creating \<in> set (zt_callers s) \<longrightarrow> zt_state s = STARTING \<and> (\<forall>k. zt_thread s = Some k \<longrightarrow> Suc k < length (zt_runners s)))
    \<and> (Joining \<in> set (zt_callers s) \<longrightarrow> zt_state s = STOPPED)"

definition index_inv :: "zm_thread \<Rightarrow> bool" where
  "index_inv s \<longleftrightarrow> (\<forall>k. zt_thread s = Some k \<longrightarrow> k < length (zt_runners s)) \<and> length (zt_stops s) = length (zt_runners s)
     \<and> (\<forall>k. AwaitReady k \<in> set (zt_callers s) \<longrightarrow> k < length (zt_runners s))"

definition wait_inv :: "zm_thread \<Rightarrow> bool" where
  "wait_inv s \<longleftrightarrow> (Waits \<in> set (zt_callers s) \<longrightarrow> zt_state s \<noteq> STOPPED \<or> Reported \<in> set (zt_runners s))"

lemma mutex_free_regions:
  "mutex_inv s \<Longrightarrow> zt_lock s = None \<Longrightarrow> Creating \<notin> set (zt_callers s) \<and> Joining \<notin> set (zt_callers s)"
  using mutex_free [of s Creating] mutex_free [of s Joining] by auto

lemma caller_set: "caller_at s i c \<Longrightarrow> c \<in> set (zt_callers s)"
  by auto

lemma region_inv_step: "thd_step l s s' \<Longrightarrow> mutex_inv s \<Longrightarrow> index_inv s \<Longrightarrow> region_inv s \<Longrightarrow> region_inv s'"
proof (induction rule: thd_step.induct)
  case (start_assign s i)
  then have "Joining \<notin> set (zt_callers s)"
    using mutex_owner [of s i Creating Joining] by auto
  moreover have "Creating \<notin> set ((zt_callers s)[i := AwaitReady n])" for n
    by (rule one_owner) (use start_assign in auto)
  ultimately show ?case
    by (auto simp: region_inv_def thd_ops dest: mem_caller_to)
qed (auto simp: region_inv_def index_inv_def thd_ops dest: mem_caller_to mutex_free_regions mem_wake)
lemma length_request_stop [simp]: "length (request_stop th bs) = length bs"
  by (simp add: request_stop_def split: option.splits)

lemma index_inv_step: "thd_step l s s' \<Longrightarrow> region_inv s \<Longrightarrow> life_inv s \<Longrightarrow> index_inv s \<Longrightarrow> index_inv s'"
proof (induction rule: thd_step.induct)
  case (start_assign s i)
  then have "zt_state s = STARTING"
    using caller_set unfolding region_inv_def by blast
  then have "zt_runners s \<noteq> []"
    using start_assign.prems by (auto simp: life_inv_def runners_ok_def)
  then show ?case
    using start_assign by (auto simp: index_inv_def thd_ops dest: mem_caller_to)
qed (auto simp: index_inv_def thd_ops dest: mem_caller_to mem_wake less_SucI)

lemma runner_elsewhere:
  "r \<in> set rs \<Longrightarrow> k < length rs \<Longrightarrow> rs ! k \<noteq> r \<Longrightarrow> r \<in> set (rs[k := x])"
  by (metis in_set_conv_nth length_list_update nth_list_update_neq)

lemma wait_inv_step: "thd_step l s s' \<Longrightarrow> wait_inv s \<Longrightarrow> wait_inv s'"
proof (induction rule: thd_step.induct)
  case (run_report s k)
  then show ?case
    by (auto simp: wait_inv_def set_update_memI)
next
  case (run_notify s k)
  have "Waits \<notin> set (wake_waiters (zt_callers s))"
    using mem_wake by blast
  then show ?case
    by (simp add: wait_inv_def)
qed (auto simp: wait_inv_def thd_ops dest: mem_caller_to intro: runner_elsewhere)

definition thd_inv :: "zm_thread \<Rightarrow> bool" where
  "thd_inv s \<longleftrightarrow> life_inv s \<and> tid_inv s \<and> mutex_inv s \<and> region_inv s \<and> index_inv s \<and> wait_inv s"

lemmas thd_inv_steps = life_inv_step tid_inv_step mutex_inv_step region_inv_step index_inv_step wait_inv_step

lemma thd_inv_step: "thd_step l s s' \<Longrightarrow> thd_inv s \<Longrightarrow> thd_inv s'"
  unfolding thd_inv_def by (blast intro: thd_inv_steps)

lemma thd_inv_new: "thd_inv (new_thread n a)"
  by (auto simp: thd_inv_def new_thread_def life_inv_def runners_ok_def tid_inv_def mutex_inv_def marks_def
      region_inv_def index_inv_def wait_inv_def)

lemma thd_inv_reach: "thd_reach (new_thread n a) s \<Longrightarrow> thd_inv s"
  by (induction "new_thread n a" s rule: thd_reach.induct) (auto intro: thd_inv_new thd_inv_step)

section \<open>Progress\<close>

definition thd_rest :: "thd_label set \<Rightarrow> zm_thread \<Rightarrow> bool" where
  "thd_rest ls s \<longleftrightarrow> (\<forall>l\<in>ls. \<forall>t. \<not> thd_step l s t)"

lemma rest_runner:
  assumes "thd_rest ls s" "Moves \<in> ls" "k < length (zt_runners s)"
  shows "zt_runners s ! k \<in> {Gone, InRun} \<or> zt_lock s \<noteq> None \<and> zt_runners s ! k \<in> {Begun, Returned}"
proof -
  have no: "\<not> thd_step Moves s t" for t
    using assms(1,2) by (auto simp: thd_rest_def)
  show ?thesis
    using no run_enter [of k s] run_ready [of k s] run_report [of k s] run_notify [of k s] run_leave [of k s] assms(3)
    by (cases "zt_runners s ! k") auto
qed

lemma ended_gone: "has_ended r \<Longrightarrow> r \<in> {Gone, InRun} \<or> r \<in> {Begun, Returned} \<Longrightarrow> r = Gone"
  by (auto simp: has_ended_def)

lemma ended_before: "life_inv s \<Longrightarrow> Suc k < length (zt_runners s) \<Longrightarrow> has_ended (zt_runners s ! k)"
  unfolding life_inv_def using active_last by (metis Suc_lessD less_irrefl)

lemma stopped_ended: "life_inv s \<Longrightarrow> zt_state s = STOPPED \<Longrightarrow> k < length (zt_runners s) \<Longrightarrow> has_ended (zt_runners s ! k)"
  unfolding life_inv_def using active_last last_nth
  by (metis (no_types, lifting) list.size(3) not_less_zero runners_ok_def)

text \<open>Whoever has the mutex will give it back: the thread it joins is past its last use of it.\<close>

lemma rest_lock_free:
  assumes "thd_rest ls s" "Moves \<in> ls" "thd_inv s"
  shows "zt_lock s = None"
proof (rule ccontr)
  assume "zt_lock s \<noteq> None"
  then obtain i where i: "i < length (zt_callers s)" "keeps_lock (zt_callers s ! i)"
    using assms(3) by (auto simp: thd_inv_def mutex_inv_def marks_def)
  have inv: "life_inv s" "region_inv s" "index_inv s"
    using assms(3) by (auto simp: thd_inv_def)
  have no: "\<not> thd_step Moves s t" for t
    using assms(1,2) by (auto simp: thd_rest_def)
  have "has_ended (zt_runners s ! k)" if "zt_thread s = Some k" for k
  proof -
    have "Creating \<in> set (zt_callers s) \<or> Joining \<in> set (zt_callers s)"
      using i by (metis keeps_lock_def nth_mem)
    then show ?thesis
      using inv that by (auto simp: region_inv_def index_inv_def ended_before stopped_ended)
  qed
  then have "joinable_done s"
    using rest_runner [OF assms(1,2)] ended_gone inv(3)
    by (auto simp: joinable_done_def index_inv_def split: option.splits)
  then show False
    using i no start_assign [of i s] stop_join [of i s] by (auto simp: keeps_lock_def)
qed

lemma rest_callers:
  assumes "thd_rest ls s" "Moves \<in> ls" "thd_inv s" "i < length (zt_callers s)"
  shows "(\<exists>a. zt_callers s ! i = Outside a) \<or> zt_callers s ! i = Waits \<and> InRun \<in> set (zt_runners s)"
proof -
  have lock: "zt_lock s = None"
    by (rule rest_lock_free [OF assms(1-3)])
  have run: "zt_runners s ! k \<in> {Gone, InRun}" if "k < length (zt_runners s)" for k
    using rest_runner [OF assms(1,2) that] lock by simp
  have no: "\<not> thd_step Moves s t" for t
    using assms(1,2) by (auto simp: thd_rest_def)
  have inv: "life_inv s" "index_inv s" "wait_inv s" "mutex_inv s"
    using assms(3) by (auto simp: thd_inv_def)
  have "InRun \<in> set (zt_runners s)" if "zt_state s \<noteq> STOPPED"
  proof -
    have "zt_runners s \<noteq> []" "\<not> has_ended (last (zt_runners s))"
      using that inv(1) by (auto simp: life_inv_def runners_ok_def)
    moreover from this have "last (zt_runners s) \<in> {Gone, InRun}"
      using run [of "length (zt_runners s) - 1"] by (simp add: last_conv_nth)
    ultimately show ?thesis
      by (metis has_ended_def insertE last_in_set singletonD)
  qed
  moreover have "Reported \<notin> set (zt_runners s)"
    using run by (fastforce simp: in_set_conv_nth)
  moreover have "promise_kept s k" if "zt_callers s ! i = AwaitReady k" for k
  proof -
    have "k < length (zt_runners s)"
      using inv(2) nth_mem [OF assms(4)] that by (auto simp: index_inv_def)
    then show ?thesis
      using run [of k] by (auto simp: promise_kept_def)
  qed
  ultimately show ?thesis
    using inv(3) nth_mem [OF assms(4)] no start_return [of i s] stop_request [of i s] stop_wait [of i s] lock
      mutex_free_regions [OF inv(4) lock] assms(4)
    by (cases "zt_callers s ! i") (auto simp: wait_inv_def)
qed

text \<open>Every step but a call takes something off this measure.\<close>

fun caller_rank :: "caller \<Rightarrow> nat" where
  "caller_rank (Outside a) = 0" | "caller_rank Creating = 2" | "caller_rank (AwaitReady k) = 1"
| "caller_rank Requesting = 3" | "caller_rank WantsLock = 2" | "caller_rank Waits = 1" | "caller_rank Joining = 1"

fun runner_rank :: "nat \<Rightarrow> runner \<Rightarrow> nat" where
  "runner_rank n Begun = n + 6" | "runner_rank n Entered = n + 5" | "runner_rank n InRun = n + 4"
| "runner_rank n Returned = n + 3" | "runner_rank n Reported = n + 2" | "runner_rank n Leaving = 1" | "runner_rank n Gone = 0"

definition thd_potential :: "zm_thread \<Rightarrow> nat" where
  "thd_potential s = sum_list (map caller_rank (zt_callers s))
     + sum_list (map (runner_rank (length (zt_callers s))) (zt_runners s))"

lemma caller_drop: "caller_at s i c \<Longrightarrow> caller_rank d < caller_rank c \<Longrightarrow>
    sum_list (map caller_rank ((zt_callers s)[i := d])) < sum_list (map caller_rank (zt_callers s))"
  using sum_list_update_add [of i "zt_callers s" caller_rank d] by simp

lemma runner_drop: "runner_at s k r \<Longrightarrow> runner_rank n d < runner_rank n r \<Longrightarrow>
    sum_list (map (runner_rank n) ((zt_runners s)[k := d])) < sum_list (map (runner_rank n) (zt_runners s))"
  using sum_list_update_add [of k "zt_runners s" "runner_rank n" d] by simp

lemma wake_rank: "sum_list (map caller_rank (wake_waiters cs)) \<le> sum_list (map caller_rank cs) + length cs"
  by (induction cs) (auto simp: wake_waiters_def)

lemma potential_ops [simp]:
  "length (wake_waiters cs) = length cs"
  "zt_callers (Stop_wait i s) = (zt_callers s)[i := (if zt_state s \<noteq> STOPPED then Waits
     else if \<not> zt_autoDelete s \<and> zt_thread s \<noteq> None then Joining else Outside None)]"
  "zt_runners (Stop_wait i s) = zt_runners s"
  by (simp_all add: wake_waiters_def Stop_wait_def)

lemma thd_potential_step: "thd_step l s t \<Longrightarrow> l \<in> {Moves, RunEnds} \<Longrightarrow> thd_potential t < thd_potential s"
proof (induction rule: thd_step.induct)
  case (run_notify s k)
  then show ?case
    using wake_rank [of "zt_callers s"]
      sum_list_update_add [of k "zt_runners s" "runner_rank (length (zt_callers s))" Leaving]
    by (simp add: thd_potential_def)
qed (auto simp: thd_potential_def Start_assign_def intro!: caller_drop runner_drop)

inductive thd_runs :: "nat \<Rightarrow> zm_thread \<Rightarrow> zm_thread \<Rightarrow> bool" where
  none: "thd_runs 0 s s"
| more: "thd_runs k s t \<Longrightarrow> thd_step l t u \<Longrightarrow> l \<in> {Moves, RunEnds} \<Longrightarrow> thd_runs (Suc k) s u"

lemma thd_runs_potential: "thd_runs k s t \<Longrightarrow> k + thd_potential t \<le> thd_potential s"
proof (induction rule: thd_runs.induct)
  case (more k s t l u)
  then show ?case using thd_potential_step [of l t u] by linarith
qed simp

lemma thd_runs_inv: "thd_runs k s t \<Longrightarrow> thd_inv s \<Longrightarrow> thd_inv t"
  by (induction rule: thd_runs.induct) (auto intro: thd_inv_step)

lemma thd_runs_to_rest: "\<exists>k t. thd_runs k s t \<and> thd_rest {Moves, RunEnds} t"
proof -
  have "\<exists>k t. thd_runs k s t \<and> thd_rest {Moves, RunEnds} t" if "thd_runs k0 s s1" for k0 s1
    using that
  proof (induction "thd_potential s1" arbitrary: k0 s1 rule: less_induct)
    case less
    show ?case
    proof (cases "thd_rest {Moves, RunEnds} s1")
      case False
      then obtain l u where "thd_step l s1 u" "l \<in> {Moves, RunEnds}" by (auto simp: thd_rest_def)
      then show ?thesis using less thd_potential_step thd_runs.more by blast
    qed (use less.prems in blast)
  qed
  then show ?thesis by (blast intro: thd_runs.none)
qed

lemma rest_not_running:
  assumes "thd_rest {Moves, RunEnds} s"
  shows "InRun \<notin> set (zt_runners s)"
proof
  assume "InRun \<in> set (zt_runners s)"
  then obtain k where "runner_at s k InRun"
    by (auto simp: in_set_conv_nth)
  then show False
    using run_ends [of k s] assms by (auto simp: thd_rest_def)
qed

section \<open>Properties\<close>

lemmas thd_trace = numeral_2_eq_2 new_thread_def thd_ops caller_to_def runner_to_def joinable_done_def promise_kept_def request_stop_def
  wake_waiters_def

lemma start_answers_false:
  "\<exists>s. thd_reach (new_thread 1 False) s \<and> zt_callers s = [Outside (Some False)] \<and> zt_runners s = [Reported]"
proof -
  let ?q0 = "new_thread 1 False"
  let ?q1 = "?q0\<lparr>zt_callers := [Creating], zt_lock := Some 0, zt_state := STARTING, zt_runners := [Begun], zt_stops := [False]\<rparr>"
  let ?q2 = "?q1\<lparr>zt_callers := [AwaitReady 0], zt_lock := None, zt_thread := Some 0\<rparr>"
  let ?q3 = "?q2\<lparr>zt_runners := [Entered], zt_state := RUNNING, zt_tid := Some 0\<rparr>"
  let ?q4 = "?q3\<lparr>zt_runners := [InRun]\<rparr>"
  let ?q5 = "?q4\<lparr>zt_runners := [Returned]\<rparr>"
  let ?q6 = "?q5\<lparr>zt_runners := [Reported], zt_state := STOPPED, zt_tid := None\<rparr>"
  let ?q7 = "?q6\<lparr>zt_callers := [Outside (Some False)]\<rparr>"
  have "thd_reach ?q0 ?q1"
    using thd_reach.step [OF thd_reach.refl start [of 0 ?q0 None True]] by (simp add: thd_trace)
  then have "thd_reach ?q0 ?q2"
    using thd_reach.step [of ?q0 ?q1, OF _ start_assign [of 0 ?q1]] by (simp add: thd_trace)
  then have "thd_reach ?q0 ?q3"
    using thd_reach.step [of ?q0 ?q2, OF _ run_enter [of 0 ?q2]] by (simp add: thd_trace)
  then have "thd_reach ?q0 ?q4"
    using thd_reach.step [of ?q0 ?q3, OF _ run_ready [of 0 ?q3]] by (simp add: thd_trace)
  then have "thd_reach ?q0 ?q5"
    using thd_reach.step [of ?q0 ?q4, OF _ run_ends [of 0 ?q4]] by (simp add: thd_trace)
  then have "thd_reach ?q0 ?q6"
    using thd_reach.step [of ?q0 ?q5, OF _ run_report [of 0 ?q5]] by (simp add: thd_trace)
  then have "thd_reach ?q0 ?q7"
    using thd_reach.step [of ?q0 ?q6, OF _ start_return [of 0 ?q6 0]] by (simp add: thd_trace)
  then show ?thesis
    by (intro exI [of _ ?q7]) simp
qed

lemma stopping_overwritten:
  "\<exists>s. thd_reach (new_thread 2 False) s \<and> zt_callers s = [Outside (Some True), Waits] \<and> zt_runners s = [InRun]
    \<and> zt_onStopping s = 1 \<and> IsRunning (zt_state s) \<and> \<not> IsStopping (zt_state s)"
proof -
  let ?q0 = "new_thread 2 False"
  let ?q1 = "?q0\<lparr>zt_callers := [Creating, Outside None], zt_lock := Some 0, zt_state := STARTING, zt_runners := [Begun], zt_stops := [False]\<rparr>"
  let ?q2 = "?q1\<lparr>zt_callers := [AwaitReady 0, Outside None], zt_lock := None, zt_thread := Some 0\<rparr>"
  let ?q3 = "?q2\<lparr>zt_callers := [AwaitReady 0, Requesting], zt_state := STOPPING, zt_onStopping := 1\<rparr>"
  let ?q4 = "?q3\<lparr>zt_runners := [Entered], zt_state := RUNNING, zt_tid := Some 0\<rparr>"
  let ?q5 = "?q4\<lparr>zt_runners := [InRun]\<rparr>"
  let ?q6 = "?q5\<lparr>zt_callers := [Outside (Some True), Requesting]\<rparr>"
  let ?q7 = "?q6\<lparr>zt_callers := [Outside (Some True), WantsLock], zt_stops := [True]\<rparr>"
  let ?q8 = "?q7\<lparr>zt_callers := [Outside (Some True), Waits]\<rparr>"
  have "thd_reach ?q0 ?q1"
    using thd_reach.step [OF thd_reach.refl start [of 0 ?q0 None True]] by (simp add: thd_trace)
  then have "thd_reach ?q0 ?q2"
    using thd_reach.step [of ?q0 ?q1, OF _ start_assign [of 0 ?q1]] by (simp add: thd_trace)
  then have "thd_reach ?q0 ?q3"
    using thd_reach.step [of ?q0 ?q2, OF _ stop [of 1 ?q2 None]] by (simp add: thd_trace)
  then have "thd_reach ?q0 ?q4"
    using thd_reach.step [of ?q0 ?q3, OF _ run_enter [of 0 ?q3]] by (simp add: thd_trace)
  then have "thd_reach ?q0 ?q5"
    using thd_reach.step [of ?q0 ?q4, OF _ run_ready [of 0 ?q4]] by (simp add: thd_trace)
  then have "thd_reach ?q0 ?q6"
    using thd_reach.step [of ?q0 ?q5, OF _ start_return [of 0 ?q5 0]] by (simp add: thd_trace)
  then have "thd_reach ?q0 ?q7"
    using thd_reach.step [of ?q0 ?q6, OF _ stop_request [of 1 ?q6]] by (simp add: thd_trace)
  then have "thd_reach ?q0 ?q8"
    using thd_reach.step [of ?q0 ?q7, OF _ stop_wait [of 1 ?q7]] by (simp add: thd_trace)
  then show ?thesis
    by (intro exI [of _ ?q8]) (simp add: state_queries)
qed

lemma stop_outlives_thread:
  "\<exists>s. thd_reach (new_thread 2 False) s \<and> zt_callers s = [Outside (Some True), Waits] \<and> zt_runners s = [Gone, InRun]
    \<and> zt_stops s = [True, False] \<and> zt_state s = RUNNING"
proof -
  let ?q0 = "new_thread 2 False"
  let ?q1 = "?q0\<lparr>zt_callers := [Creating, Outside None], zt_lock := Some 0, zt_state := STARTING, zt_runners := [Begun], zt_stops := [False]\<rparr>"
  let ?q2 = "?q1\<lparr>zt_callers := [AwaitReady 0, Outside None], zt_lock := None, zt_thread := Some 0\<rparr>"
  let ?q3 = "?q2\<lparr>zt_runners := [Entered], zt_state := RUNNING, zt_tid := Some 0\<rparr>"
  let ?q4 = "?q3\<lparr>zt_runners := [InRun]\<rparr>"
  let ?q5 = "?q4\<lparr>zt_callers := [Outside (Some True), Outside None]\<rparr>"
  let ?q6 = "?q5\<lparr>zt_callers := [Outside (Some True), Requesting], zt_state := STOPPING, zt_onStopping := 1\<rparr>"
  let ?q7 = "?q6\<lparr>zt_callers := [Outside (Some True), WantsLock], zt_stops := [True]\<rparr>"
  let ?q8 = "?q7\<lparr>zt_callers := [Outside (Some True), Waits]\<rparr>"
  let ?q9 = "?q8\<lparr>zt_runners := [Returned]\<rparr>"
  let ?q10 = "?q9\<lparr>zt_runners := [Reported], zt_state := STOPPED, zt_tid := None\<rparr>"
  let ?q11 = "?q10\<lparr>zt_runners := [Leaving], zt_callers := [Outside (Some True), WantsLock]\<rparr>"
  let ?q12 = "?q11\<lparr>zt_runners := [Gone]\<rparr>"
  let ?q13 = "?q12\<lparr>zt_callers := [Creating, WantsLock], zt_lock := Some 0, zt_state := STARTING, zt_runners := [Gone, Begun], zt_stops := [True, False]\<rparr>"
  let ?q14 = "?q13\<lparr>zt_callers := [AwaitReady 1, WantsLock], zt_lock := None, zt_thread := Some 1\<rparr>"
  let ?q15 = "?q14\<lparr>zt_runners := [Gone, Entered], zt_state := RUNNING, zt_tid := Some 1\<rparr>"
  let ?q16 = "?q15\<lparr>zt_runners := [Gone, InRun]\<rparr>"
  let ?q17 = "?q16\<lparr>zt_callers := [Outside (Some True), WantsLock]\<rparr>"
  let ?q18 = "?q17\<lparr>zt_callers := [Outside (Some True), Waits]\<rparr>"
  have "thd_reach ?q0 ?q1"
    using thd_reach.step [OF thd_reach.refl start [of 0 ?q0 None True]] by (simp add: thd_trace)
  then have "thd_reach ?q0 ?q2"
    using thd_reach.step [of ?q0 ?q1, OF _ start_assign [of 0 ?q1]] by (simp add: thd_trace)
  then have "thd_reach ?q0 ?q3"
    using thd_reach.step [of ?q0 ?q2, OF _ run_enter [of 0 ?q2]] by (simp add: thd_trace)
  then have "thd_reach ?q0 ?q4"
    using thd_reach.step [of ?q0 ?q3, OF _ run_ready [of 0 ?q3]] by (simp add: thd_trace)
  then have "thd_reach ?q0 ?q5"
    using thd_reach.step [of ?q0 ?q4, OF _ start_return [of 0 ?q4 0]] by (simp add: thd_trace)
  then have "thd_reach ?q0 ?q6"
    using thd_reach.step [of ?q0 ?q5, OF _ stop [of 1 ?q5 None]] by (simp add: thd_trace)
  then have "thd_reach ?q0 ?q7"
    using thd_reach.step [of ?q0 ?q6, OF _ stop_request [of 1 ?q6]] by (simp add: thd_trace)
  then have "thd_reach ?q0 ?q8"
    using thd_reach.step [of ?q0 ?q7, OF _ stop_wait [of 1 ?q7]] by (simp add: thd_trace)
  then have "thd_reach ?q0 ?q9"
    using thd_reach.step [of ?q0 ?q8, OF _ run_ends [of 0 ?q8]] by (simp add: thd_trace)
  then have "thd_reach ?q0 ?q10"
    using thd_reach.step [of ?q0 ?q9, OF _ run_report [of 0 ?q9]] by (simp add: thd_trace)
  then have "thd_reach ?q0 ?q11"
    using thd_reach.step [of ?q0 ?q10, OF _ run_notify [of 0 ?q10]] by (simp add: thd_trace)
  then have "thd_reach ?q0 ?q12"
    using thd_reach.step [of ?q0 ?q11, OF _ run_leave [of 0 ?q11]] by (simp add: thd_trace)
  then have "thd_reach ?q0 ?q13"
    using thd_reach.step [of ?q0 ?q12, OF _ start [of 0 ?q12 "Some True" True]] by (simp add: thd_trace)
  then have "thd_reach ?q0 ?q14"
    using thd_reach.step [of ?q0 ?q13, OF _ start_assign [of 0 ?q13]] by (simp add: thd_trace)
  then have "thd_reach ?q0 ?q15"
    using thd_reach.step [of ?q0 ?q14, OF _ run_enter [of 1 ?q14]] by (simp add: thd_trace)
  then have "thd_reach ?q0 ?q16"
    using thd_reach.step [of ?q0 ?q15, OF _ run_ready [of 1 ?q15]] by (simp add: thd_trace)
  then have "thd_reach ?q0 ?q17"
    using thd_reach.step [of ?q0 ?q16, OF _ start_return [of 0 ?q16 1]] by (simp add: thd_trace)
  then have "thd_reach ?q0 ?q18"
    using thd_reach.step [of ?q0 ?q17, OF _ stop_wait [of 1 ?q17]] by (simp add: thd_trace)
  then show ?thesis
    by (intro exI [of _ ?q18]) simp
qed

text \<open>Whatever the interleaving of calls and threads, at most one thread is between entering and leaving \<open>Run\<close>;
  the state is \<open>STOPPED\<close> exactly when no thread that \<open>Start\<close> created is still to run or running; \<open>ThreadID\<close> names the running
  thread while there is one and nothing otherwise; at most one caller is inside a region of the mutex.\<close>
theorem thread_exclusive:
  assumes "thd_reach (new_thread n autoDel) s"
  shows "tally inside (zt_runners s) \<le> 1
    \<and> (IsStopped (zt_state s) \<longleftrightarrow> list_all has_ended (zt_runners s))
    \<and> (zt_tid s = Some k \<longleftrightarrow> k < length (zt_runners s) \<and> inside (zt_runners s ! k))
    \<and> tally keeps_lock (zt_callers s) \<le> 1"
proof -
  have inv: "life_inv s" "tid_inv s" "mutex_inv s"
    using thd_inv_reach [OF assms] by (auto simp: thd_inv_def)
  have "zt_state s = STOPPED \<longleftrightarrow> list_all has_ended (zt_runners s)"
    using inv(1) by (cases "zt_runners s" rule: rev_cases) (auto simp: life_inv_def runners_ok_def)
  then show ?thesis
    using inv(2,3) marks_tally unfolding tid_inv_def mutex_inv_def state_queries by (metis marks_def)
qed

definition demo_thread :: zm_thread where
  "demo_thread = new_thread 1 False\<lparr>zt_state := RUNNING, zt_callers := [AwaitReady 0], zt_runners := [Entered],
     zt_stops := [False], zt_thread := Some 0, zt_tid := Some 0\<rparr>"

lemma demo_reached: "thd_reach (new_thread 1 False) demo_thread"
proof -
  let ?q0 = "new_thread 1 False"
  let ?q1 = "?q0\<lparr>zt_callers := [Creating], zt_lock := Some 0, zt_state := STARTING, zt_runners := [Begun], zt_stops := [False]\<rparr>"
  let ?q2 = "?q1\<lparr>zt_callers := [AwaitReady 0], zt_lock := None, zt_thread := Some 0\<rparr>"
  have "thd_reach ?q0 ?q1"
    using thd_reach.step [OF thd_reach.refl start [of 0 ?q0 None True]] by (simp add: thd_trace)
  then have "thd_reach ?q0 ?q2"
    using thd_reach.step [of ?q0 ?q1, OF _ start_assign [of 0 ?q1]] by (simp add: thd_trace)
  then show ?thesis
    using thd_reach.step [of ?q0 ?q2, OF _ run_enter [of 0 ?q2]] by (simp add: thd_trace demo_thread_def)
qed

theorem thread_exclusive_witness:
  "tally inside (zt_runners demo_thread) = 1 \<and> zt_tid demo_thread = Some 0 \<and> \<not> IsStopped (zt_state demo_thread)
    \<and> tally keeps_lock (zt_callers demo_thread) \<le> 1"
  using thread_exclusive [OF demo_reached, of 0] by (simp add: demo_thread_def)

lemma rest_stopped:
  assumes "thd_rest {Moves, RunEnds} s" "thd_inv s"
  shows "zt_state s = STOPPED"
proof (rule ccontr)
  assume "zt_state s \<noteq> STOPPED"
  then have "zt_runners s \<noteq> []" "\<not> has_ended (last (zt_runners s))"
    using assms(2) by (auto simp: thd_inv_def life_inv_def runners_ok_def)
  moreover from this have "last (zt_runners s) \<in> {Gone, InRun}"
    using rest_runner [OF assms(1), of "length (zt_runners s) - 1"] rest_lock_free [OF assms(1) _ assms(2)]
    by (simp add: last_conv_nth)
  ultimately show False
    using rest_not_running [OF assms(1)] by (metis has_ended_def insertE last_in_set singletonD)
qed

text \<open>C37: no call of \<open>Start\<close> or \<open>Stop\<close> hangs on the object itself.  However callers and threads are scheduled, the
  steps after the last call are finite in number; when they end, all calls have returned and the thread is \<open>STOPPED\<close>
  if every \<open>Run\<close> returns, and otherwise the only calls left are those of \<open>Stop\<close> that wait for a thread still inside \<open>Run\<close>.\<close>
theorem thread_calls_return:
  assumes "thd_reach (new_thread n autoDel) s" "thd_runs k s t"
  shows "k \<le> thd_potential s
    \<and> (thd_rest {Moves, RunEnds} t \<longrightarrow> list_all (\<lambda>c. \<exists>a. c = Outside a) (zt_callers t) \<and> IsStopped (zt_state t))
    \<and> (thd_rest {Moves} t \<longrightarrow>
        list_all (\<lambda>c. (\<exists>a. c = Outside a) \<or> c = Waits \<and> InRun \<in> set (zt_runners t)) (zt_callers t))
    \<and> (\<exists>j u. thd_runs j t u \<and> thd_rest {Moves, RunEnds} u)"
proof -
  have inv: "thd_inv t"
    by (rule thd_runs_inv [OF assms(2) thd_inv_reach [OF assms(1)]])
  have "list_all (\<lambda>c. \<exists>a. c = Outside a) (zt_callers t) \<and> IsStopped (zt_state t)" if rest: "thd_rest {Moves, RunEnds} t"
    using rest_callers [OF rest _ inv] rest_not_running [OF rest] rest_stopped [OF rest inv]
    by (auto simp: list_all_length state_queries)
  moreover have "list_all (\<lambda>c. (\<exists>a. c = Outside a) \<or> c = Waits \<and> InRun \<in> set (zt_runners t)) (zt_callers t)"
    if "thd_rest {Moves} t"
    using rest_callers [OF that _ inv] by (auto simp: list_all_length)
  ultimately show ?thesis
    using thd_runs_potential [OF assms(2)] thd_runs_to_rest [of t] by auto
qed

theorem thread_calls_return_witness:
  "thd_potential demo_thread = 7 \<and> (\<exists>j u. thd_runs j demo_thread u \<and> thd_rest {Moves, RunEnds} u)"
  using thread_calls_return [OF demo_reached thd_runs.none]
  by (simp add: demo_thread_def thd_potential_def new_thread_def)

text \<open>Three races the interface does not promise.  \<open>Start\<close> answers \<open>False\<close> although the thread was created and
  ran, when \<open>Run\<close> is quick; the thread overwrites \<open>STOPPING\<close> by \<open>RUNNING\<close> when \<open>Stop\<close> comes before it enters, so
  that \<open>OnStopping\<close> was called before there was a \<open>Run\<close> to interrupt and \<open>IsStopping\<close> answers \<open>False\<close>; and a \<open>Stop\<close> whose thread
  has ended goes on waiting for the next thread, which nobody asked to stop, if \<open>Start\<close> comes first.\<close>
theorem thread_races:
  "(\<exists>s. thd_reach (new_thread 1 False) s \<and> zt_callers s = [Outside (Some False)] \<and> zt_runners s = [Reported])
    \<and> (\<exists>s. thd_reach (new_thread 2 False) s \<and> zt_callers s = [Outside (Some True), Waits] \<and> zt_runners s = [InRun]
        \<and> zt_onStopping s = 1 \<and> IsRunning (zt_state s) \<and> \<not> IsStopping (zt_state s))
    \<and> (\<exists>s. thd_reach (new_thread 2 False) s \<and> zt_callers s = [Outside (Some True), Waits] \<and> zt_runners s = [Gone, InRun]
        \<and> zt_stops s = [True, False] \<and> zt_state s = RUNNING)"
  by (intro conjI start_answers_false stopping_overwritten stop_outlives_thread)

end
