(* ===== verification/HttpFile.thy ===== *)
theory HttpFile
  imports ZmPrelude "HOL-Library.Signed_Division"
begin

text \<open>
  File delivery of \<open>net/zm_net_http_server.cpp\<close>: the \<open>Range\<close> header, entity tags and conditional requests, the
  \<open>Content-Disposition\<close> value and the two ways of answering (\<open>SendFileCoroImpl\<close>, \<open>SendFileStreamCoroImpl\<close>) with
  the choice between them (\<open>SendFileHybridCoro\<close>).

  A request is the function \<open>getHeader\<close>, which gives the empty string for a header that is not there.  A response
  is the record of what the code sets.  drogon's \<open>getHttpDate\<close> is a parameter: microseconds since the epoch, and
  \<open>2 ^ 63 - 1\<close> for a text it cannot read, as its header documents.  The result of \<open>stat\<close> is a parameter as well.
\<close>

section \<open>Characters and numbers\<close>

definition is_digit :: "char \<Rightarrow> bool" where
  "is_digit c \<longleftrightarrow> 48 \<le> char_code c \<and> char_code c \<le> 57"

definition is_alnum_char :: "char \<Rightarrow> bool" where
  "is_alnum_char c \<longleftrightarrow> is_digit c \<or> 65 \<le> char_code c \<and> char_code c \<le> 90 \<or> 97 \<le> char_code c \<and> char_code c \<le> 122"

definition dec_digit :: "nat \<Rightarrow> char" where
  "dec_digit n = char_of (48 + n)"

fun to_string :: "nat \<Rightarrow> string" where
  "to_string n = (if n < 10 then [dec_digit n] else to_string (n div 10) @ [dec_digit (n mod 10)])"

declare to_string.simps [simp del]

definition dec_value :: "string \<Rightarrow> nat" where
  "dec_value s = foldl (\<lambda>a c. 10 * a + (char_code c - 48)) 0 s"

text \<open>\<open>std::stoull\<close> on a text of digits; \<open>None\<close> is the exception \<open>out_of_range\<close>.\<close>

definition stoull :: "string \<Rightarrow> u64 option" where
  "stoull s = (if dec_value s < 2 ^ 64 then Some (of_nat (dec_value s)) else None)"

section \<open>Range\<close>

record range_info =
  ri_present :: bool
  ri_unsatisfiable :: bool
  ri_partial :: bool
  ri_offset :: u64
  ri_length :: u64

definition no_range :: range_info where
  "no_range = \<lparr>ri_present = False, ri_unsatisfiable = False, ri_partial = False, ri_offset = 0, ri_length = 0\<rparr>"

definition range_suffix :: "string \<Rightarrow> u64 \<Rightarrow> range_info \<Rightarrow> range_info" where
  "range_suffix endS fileSize r =
    (case stoull endS of
       None \<Rightarrow> r
     | Some n \<Rightarrow>
         if n = 0 \<or> fileSize = 0 then r\<lparr>ri_unsatisfiable := True\<rparr>
         else let n = min n fileSize in r\<lparr>ri_offset := fileSize - n, ri_length := n, ri_partial := True\<rparr>)"

definition range_upto :: "u64 \<Rightarrow> u64 option \<Rightarrow> u64 \<Rightarrow> range_info \<Rightarrow> range_info" where
  "range_upto start last_pos fileSize r =
    (case last_pos of
       None \<Rightarrow> r
     | Some e \<Rightarrow>
         if e < start then r
         else let e = min e (fileSize - 1) in r\<lparr>ri_offset := start, ri_length := e - start + 1, ri_partial := True\<rparr>)"

definition range_from :: "string \<Rightarrow> string \<Rightarrow> u64 \<Rightarrow> range_info \<Rightarrow> range_info" where
  "range_from startS endS fileSize r =
    (case stoull startS of
       None \<Rightarrow> r
     | Some start \<Rightarrow>
         if fileSize = 0 \<or> fileSize \<le> start then r\<lparr>ri_unsatisfiable := True\<rparr>
         else range_upto start (if endS = [] then Some (fileSize - 1) else stoull endS) fileSize r)"

definition http_ParseRange :: "string \<Rightarrow> u64 \<Rightarrow> range_info" where
  "http_ParseRange rng fileSize =
    (if rng = [] then no_range
     else let r = no_range\<lparr>ri_present := True\<rparr> in
       if take 6 rng \<noteq> ''bytes='' then r
       else let body = drop 6 rng in
         if CHR '','' \<in> set body \<or> CHR ''-'' \<notin> set body then r
         else let startS = takeWhile (\<lambda>c. c \<noteq> CHR ''-'') body; endS = drop (length startS + 1) body in
           if startS = [] \<and> endS = [] \<or> \<not> list_all is_digit startS \<or> \<not> list_all is_digit endS then r
           else if startS = [] then range_suffix endS fileSize r
           else range_from startS endS fileSize r)"

section \<open>Lemmas on numbers\<close>

lemma char_code_digit: "n < 10 \<Longrightarrow> char_code (dec_digit n) = 48 + n"
  by (simp add: char_code_def dec_digit_def)

lemma is_digit_dec: "n < 10 \<Longrightarrow> is_digit (dec_digit n)"
  by (simp add: is_digit_def char_code_digit)

lemma to_string_digits: "list_all is_digit (to_string n)"
  by (induction n rule: to_string.induct) (subst to_string.simps, auto simp: is_digit_dec)

lemma to_string_nonempty [simp]: "to_string n \<noteq> []"
  by (subst to_string.simps) simp

lemma dec_value_append: "dec_value (s @ [c]) = 10 * dec_value s + (char_code c - 48)"
  by (simp add: dec_value_def)

lemma dec_value_to_string [simp]: "dec_value (to_string n) = n"
proof (induction n rule: to_string.induct)
  case (1 n)
  show ?case
  proof (cases "n < 10")
    case True
    then show ?thesis
      by (subst to_string.simps) (simp add: dec_value_def char_code_digit)
  next
    case False
    then show ?thesis
      using 1 by (subst to_string.simps) (simp add: dec_value_append char_code_digit)
  qed
qed

lemma to_string_inject [simp]: "to_string m = to_string n \<longleftrightarrow> m = n"
  by (metis dec_value_to_string)

lemma stoull_to_string: "stoull (to_string n) = (if n < 2 ^ 64 then Some (of_nat n) else None)"
  by (simp add: stoull_def)

lemma digit_neq: "is_digit c \<Longrightarrow> \<not> is_digit d \<Longrightarrow> c \<noteq> d"
  by auto

lemma char_digit_tests [simp]:
  "\<not> is_digit (CHR ''-'')" "\<not> is_digit (CHR '','')" "\<not> is_digit (CHR ''/'')" "\<not> is_digit (CHR 0x22)"
  by (simp_all add: is_digit_def char_code_def)

lemma digits_not_mem: "list_all is_digit s \<Longrightarrow> \<not> is_digit d \<Longrightarrow> d \<notin> set s"
  by (auto simp: list_all_iff)

section \<open>Range: correctness\<close>

lemma takeWhile_digits: "list_all is_digit a \<Longrightarrow> takeWhile (\<lambda>c. c \<noteq> CHR ''-'') (a @ CHR ''-'' # b) = a"
  by (induction a) auto

lemma ParseRange_text:
  assumes "list_all is_digit a" "list_all is_digit b" "a \<noteq> [] \<or> b \<noteq> []"
  shows "http_ParseRange (''bytes='' @ a @ ''-'' @ b) fsz =
    (if a = [] then range_suffix b fsz (no_range\<lparr>ri_present := True\<rparr>)
     else range_from a b fsz (no_range\<lparr>ri_present := True\<rparr>))"
  using assms by (auto simp: http_ParseRange_def Let_def takeWhile_digits digits_not_mem)

text \<open>Whatever the header says, a range that is served lies inside the file and is not empty.\<close>

lemma word_suffix: "(n :: u64) \<noteq> 0 \<Longrightarrow> fsz \<noteq> 0 \<Longrightarrow>
    0 < unat (min n fsz) \<and> unat (fsz - min n fsz) + unat (min n fsz) = unat fsz"
  by (simp add: unat_sub min_def word_le_nat_alt unat_gt_0)

lemma word_range: "(start :: u64) < fsz \<Longrightarrow> start \<le> e \<Longrightarrow>
    unat (min e (fsz - 1) - start + 1) = min (unat e) (unat fsz - 1) - unat start + 1"
proof -
  assume a: "start < fsz" "start \<le> e"
  have s1: "unat (fsz - 1) = unat fsz - 1"
    using a(1) by (intro unat_minus_one) auto
  define m where "m = min e (fsz - 1)"
  have m: "unat m = min (unat e) (unat fsz - 1)"
    by (simp add: m_def min_def s1 word_le_nat_alt)
  have le: "start \<le> m"
    using a s1 by (simp add: m m_def word_le_nat_alt word_less_nat_alt)
  have "unat (m - start) = unat m - unat start"
    using le by (rule unat_sub)
  moreover have "unat fsz < 2 ^ LENGTH(64)"
    by (rule unsigned_less)
  then have "unat m - unat start + 1 < 2 ^ 64"
    using a(1) by (simp add: m word_less_nat_alt)
  ultimately show ?thesis
    by (simp add: m_def [symmetric] m unat_word_ariths)
qed

lemma range_suffix_safe:
  "ri_partial (range_suffix b fsz (no_range\<lparr>ri_present := True\<rparr>)) \<Longrightarrow>
    r = range_suffix b fsz (no_range\<lparr>ri_present := True\<rparr>) \<Longrightarrow>
    0 < unat (ri_length r) \<and> unat (ri_offset r) + unat (ri_length r) \<le> unat fsz"
  by (auto simp: range_suffix_def no_range_def Let_def word_suffix split: option.splits if_splits)

lemma range_from_safe:
  assumes "ri_partial r" "r = range_from a b fsz (no_range\<lparr>ri_present := True\<rparr>)"
  shows "0 < unat (ri_length r) \<and> unat (ri_offset r) + unat (ri_length r) \<le> unat fsz"
proof -
  obtain start where s: "start < fsz" "r = range_upto start (if b = [] then Some (fsz - 1) else stoull b) fsz
      (no_range\<lparr>ri_present := True\<rparr>)"
    using assms by (simp add: range_from_def no_range_def not_le split: option.splits if_split_asm)
  then obtain e where e: "start \<le> e" "ri_offset r = start" "ri_length r = min e (fsz - 1) - start + 1"
    using assms(1) by (simp add: range_upto_def no_range_def Let_def not_less split: option.split_asm if_split_asm)
  then show ?thesis
    using word_range [OF s(1) e(1)] s(1) e(1) by (simp add: word_less_nat_alt word_le_nat_alt)
qed

lemma ParseRange_cases:
  obtains "http_ParseRange rng fsz = no_range" | "http_ParseRange rng fsz = no_range\<lparr>ri_present := True\<rparr>"
  | b where "http_ParseRange rng fsz = range_suffix b fsz (no_range\<lparr>ri_present := True\<rparr>)"
  | a b where "http_ParseRange rng fsz = range_from a b fsz (no_range\<lparr>ri_present := True\<rparr>)"
proof -
  let ?r = "no_range\<lparr>ri_present := True\<rparr>"
  have "http_ParseRange rng fsz \<in> {no_range, ?r} \<or> (\<exists>b. http_ParseRange rng fsz = range_suffix b fsz ?r)
      \<or> (\<exists>a b. http_ParseRange rng fsz = range_from a b fsz ?r)"
    unfolding http_ParseRange_def Let_def by auto
  then show ?thesis
    using that by blast
qed

lemma ParseRange_safe:
  assumes "ri_partial (http_ParseRange rng fsz)"
  shows "0 < unat (ri_length (http_ParseRange rng fsz))
    \<and> unat (ri_offset (http_ParseRange rng fsz)) + unat (ri_length (http_ParseRange rng fsz)) \<le> unat fsz"
  using assms range_suffix_safe range_from_safe
  by (cases rule: ParseRange_cases [of rng fsz]) (auto simp: no_range_def)

lemma range_upto_whole:
  "\<not> ri_partial (range_upto x e fsz (no_range\<lparr>ri_present := True\<rparr>)) \<Longrightarrow>
    ri_offset (range_upto x e fsz (no_range\<lparr>ri_present := True\<rparr>)) = 0"
  by (cases e) (simp_all add: range_upto_def no_range_def Let_def split: if_split_asm)

lemma range_from_whole:
  "\<not> ri_partial (range_from a b fsz (no_range\<lparr>ri_present := True\<rparr>)) \<Longrightarrow>
    ri_offset (range_from a b fsz (no_range\<lparr>ri_present := True\<rparr>)) = 0"
  using range_upto_whole [of _ _ fsz]
  by (cases "stoull a") (auto simp: range_from_def no_range_def split: if_split_asm)

lemma range_suffix_whole:
  "\<not> ri_partial (range_suffix b fsz (no_range\<lparr>ri_present := True\<rparr>)) \<Longrightarrow>
    ri_offset (range_suffix b fsz (no_range\<lparr>ri_present := True\<rparr>)) = 0"
  unfolding range_suffix_def no_range_def Let_def by (auto split: option.split)

lemma ParseRange_whole: "\<not> ri_partial (http_ParseRange rng fsz) \<Longrightarrow> ri_offset (http_ParseRange rng fsz) = 0"
  using range_suffix_whole range_from_whole
  by (cases rule: ParseRange_cases [of rng fsz]) (auto simp: no_range_def)

text \<open>What each form of the header means, over the numbers written in it.\<close>

definition range_meaning :: "nat option \<Rightarrow> nat option \<Rightarrow> nat \<Rightarrow> (nat \<times> nat) option + unit" where
  "range_meaning a b n =
    (case (a, b) of
       (Some s, None) \<Rightarrow> if s < n then Inl (Some (s, n - s)) else Inr ()
     | (Some s, Some e) \<Rightarrow> if n \<le> s then Inr () else if e < s then Inl None else Inl (Some (s, min e (n - 1) - s + 1))
     | (None, Some k) \<Rightarrow> if k = 0 \<or> n = 0 then Inr () else Inl (Some (n - min k n, min k n))
     | (None, None) \<Rightarrow> Inl None)"

definition number_text :: "nat option \<Rightarrow> string" where
  "number_text a = (case a of None \<Rightarrow> [] | Some n \<Rightarrow> to_string n)"

definition range_result :: "range_info \<Rightarrow> (nat \<times> nat) option + unit" where
  "range_result r =
    (if ri_unsatisfiable r then Inr ()
     else if ri_partial r then Inl (Some (unat (ri_offset r), unat (ri_length r))) else Inl None)"

lemma number_text_digits: "list_all is_digit (number_text a)"
  by (simp add: number_text_def to_string_digits split: option.split)

lemma unat_of_nat64: "n < 2 ^ 64 \<Longrightarrow> unat (of_nat n :: u64) = n"
  by (simp add: unat_of_nat)

lemma less_of_nat:
  assumes "n < 2 ^ 64"
  shows "(w :: u64) < of_nat n \<longleftrightarrow> unat w < n" "(of_nat n :: u64) < w \<longleftrightarrow> n < unat w"
    "(w :: u64) \<le> of_nat n \<longleftrightarrow> unat w \<le> n" "(of_nat n :: u64) = 0 \<longleftrightarrow> n = 0"
  using unat_of_nat64 [OF assms] by (auto simp: word_less_nat_alt word_le_nat_alt simp flip: unat_eq_0)

lemma range_suffix_meaning:
  assumes "k < 2 ^ 64"
  shows "range_result (range_suffix (to_string k) fsz (no_range\<lparr>ri_present := True\<rparr>)) = range_meaning None (Some k) (unat fsz)"
proof (cases "k = 0 \<or> fsz = 0")
  case True
  then show ?thesis
    using assms by (auto simp: range_suffix_def stoull_to_string range_result_def range_meaning_def less_of_nat no_range_def)
next
  case False
  then have "unat (min (of_nat k) fsz) = min k (unat fsz)" "unat (fsz - min (of_nat k) fsz) = unat fsz - min k (unat fsz)"
    using assms by (auto simp: min_def less_of_nat unat_of_nat64 unat_sub word_le_nat_alt)
  then show ?thesis
    using assms False by (simp add: range_suffix_def stoull_to_string range_result_def range_meaning_def less_of_nat
        no_range_def Let_def unat_eq_0)
qed

lemma range_upto_result:
  assumes "start < fsz" "start \<le> e"
  shows "range_result (range_upto start (Some e) fsz (no_range\<lparr>ri_present := True\<rparr>))
    = Inl (Some (unat start, min (unat e) (unat fsz - 1) - unat start + 1))"
  using assms word_range [OF assms]
  by (simp add: range_result_def range_upto_def no_range_def Let_def not_less [symmetric])

lemma range_from_meaning:
  assumes "a < 2 ^ 64" "case b of None \<Rightarrow> True | Some e \<Rightarrow> e < 2 ^ 64"
  shows "range_result (range_from (to_string a) (number_text b) fsz (no_range\<lparr>ri_present := True\<rparr>))
    = range_meaning (Some a) b (unat fsz)"
proof (cases "a < unat fsz")
  case False
  then show ?thesis
    using assms by (auto simp: range_from_def stoull_to_string range_result_def range_meaning_def less_of_nat no_range_def
        split: option.split)
next
  case True
  then have st: "(of_nat a :: u64) < fsz" "fsz \<noteq> 0"
    using assms(1) by (auto simp: less_of_nat)
  have nle: "(fsz \<le> of_nat a) = False"
    using st(1) by auto
  show ?thesis
  proof (cases b)
    case None
    have le: "of_nat a \<le> fsz - 1"
      using True assms(1) st(2) by (simp add: word_le_nat_alt unat_of_nat64 unat_minus_one)
    show ?thesis
      using range_upto_result [OF st(1) le] True assms(1) None st(2)
      by (simp add: nle range_from_def stoull_to_string number_text_def range_meaning_def unat_of_nat64 unat_minus_one
          Suc_diff_Suc)
  next
    case (Some e)
    then have e: "e < 2 ^ 64"
      using assms(2) by simp
    show ?thesis
    proof (cases "e < a")
      case True
      then show ?thesis
        using \<open>a < unat fsz\<close> assms(1) Some st e
        by (simp add: nle range_from_def stoull_to_string number_text_def range_meaning_def range_upto_def range_result_def
            no_range_def less_of_nat unat_of_nat64 not_le)
    next
      case False
      then have "(of_nat a :: u64) \<le> of_nat e"
        using assms(1) e by (simp add: word_le_nat_alt unat_of_nat64)
      then show ?thesis
        using range_upto_result [OF st(1)] \<open>a < unat fsz\<close> False assms(1) Some st e
        by (simp add: nle range_from_def stoull_to_string number_text_def range_meaning_def unat_of_nat64 not_le)
    qed
  qed
qed

lemma ParseRange_meaning:
  assumes "a \<noteq> None \<or> b \<noteq> None" "\<And>n. a = Some n \<or> b = Some n \<Longrightarrow> n < 2 ^ 64"
  shows "range_result (http_ParseRange (''bytes='' @ number_text a @ ''-'' @ number_text b) fsz) = range_meaning a b (unat fsz)"
proof -
  have ne: "number_text a \<noteq> [] \<or> number_text b \<noteq> []"
    using assms(1) by (auto simp: number_text_def)
  show ?thesis
  proof (cases a)
    case None
    then obtain k where "b = Some k" "k < 2 ^ 64"
      using assms by auto
    then show ?thesis
      using ParseRange_text [OF number_text_digits number_text_digits ne] None range_suffix_meaning [of k fsz]
      by (simp add: number_text_def)
  next
    case (Some n)
    then have "n < 2 ^ 64" "case b of None \<Rightarrow> True | Some e \<Rightarrow> e < 2 ^ 64"
      using assms(2) by (auto split: option.split)
    then show ?thesis
      using ParseRange_text [OF number_text_digits number_text_digits ne] Some range_from_meaning [of n b fsz]
      by (simp add: number_text_def)
  qed
qed

section \<open>Entity tags and conditional requests\<close>

record file_meta =
  fm_found :: bool
  fm_sizeFailed :: bool
  fm_size :: u64
  fm_mtimeSec :: int
  fm_mtimeNt100 :: int
  fm_key :: string

definition int_to_string :: "int \<Rightarrow> string" where
  "int_to_string i = (if i < 0 then ''-'' @ to_string (nat (- i)) else to_string (nat i))"

text \<open>Days since 1970 to year, month and day, as \<open>gmtime_s\<close> does; it refuses times before 1970 and after the year
  3000.\<close>

definition leap :: "nat \<Rightarrow> bool" where
  "leap y \<longleftrightarrow> y mod 4 = 0 \<and> (y mod 100 \<noteq> 0 \<or> y mod 400 = 0)"

definition month_days :: "nat \<Rightarrow> nat list" where
  "month_days y = [31, if leap y then 29 else 28, 31, 30, 31, 30, 31, 31, 30, 31, 30, 31]"

fun take_months :: "nat list \<Rightarrow> nat \<Rightarrow> nat \<times> nat" where
  "take_months [] d = (0, d)"
| "take_months (m # ms) d = (if d < m then (0, d) else case take_months ms (d - m) of (k, r) \<Rightarrow> (k + 1, r))"

function take_years :: "nat \<Rightarrow> nat \<Rightarrow> nat \<times> nat" where
  "take_years y d = (let n = if leap y then 366 else 365 in if d < n then (y, d) else take_years (y + 1) (d - n))"
  by auto
termination
  by (relation "measure snd") auto

declare take_years.simps [simp del]

definition two_digits :: "nat \<Rightarrow> string" where
  "two_digits n = [dec_digit (n div 10), dec_digit (n mod 10)]"

definition day_names :: "string list" where
  "day_names = [''Thu'', ''Fri'', ''Sat'', ''Sun'', ''Mon'', ''Tue'', ''Wed'']"

definition month_names :: "string list" where
  "month_names = [''Jan'', ''Feb'', ''Mar'', ''Apr'', ''May'', ''Jun'', ''Jul'', ''Aug'', ''Sep'', ''Oct'', ''Nov'', ''Dec'']"

definition HttpDateStr :: "int \<Rightarrow> string" where
  "HttpDateStr t =
    (if t < 0 then []
     else let s = nat t; d = s div 86400; (y, yd) = take_years 1970 d; (mon, md) = take_months (month_days y) yd in
       if 3000 < y then []
       else day_names ! (d mod 7) @ '', '' @ two_digits (md + 1) @ '' '' @ month_names ! mon @ '' '' @ to_string y @ '' ''
         @ two_digits (s div 3600 mod 24) @ '':'' @ two_digits (s div 60 mod 60) @ '':'' @ two_digits (s mod 60) @ '' GMT'')"

text \<open>\<open>Last-Modified\<close> and the strong tag.\<close>

definition CacheHeaders :: "file_meta \<Rightarrow> string \<times> string" where
  "CacheHeaders m =
    (HttpDateStr (fm_mtimeSec m),
     [CHR 0x22] @ (if fm_key m \<noteq> [] then fm_key m @ ''-'' else []) @ to_string (unat (fm_size m)) @ ''-''
       @ int_to_string (if 0 < fm_mtimeNt100 m then fm_mtimeNt100 m else fm_mtimeSec m) @ [CHR 0x22])"

definition is_weak :: "string \<Rightarrow> bool" where
  "is_weak tag \<longleftrightarrow> 2 \<le> length tag \<and> (hd tag = CHR ''W'' \<or> hd tag = CHR ''w'') \<and> tag ! 1 = CHR ''/''"

definition StripEtagTag :: "string \<Rightarrow> string" where
  "StripEtagTag tag =
    (let tag = if is_weak tag then drop 2 tag else tag in
     if 2 \<le> length tag \<and> hd tag = CHR 0x22 \<and> last tag = CHR 0x22 then butlast (tl tag) else tag)"

definition trim_ws :: "string \<Rightarrow> string" where
  "trim_ws s = (let w = \<lambda>c. c = CHR '' '' \<or> c = CHR 0x09 in rev (dropWhile w (rev (dropWhile w s))))"

lemma tl_dropWhile_shorter: "length (tl (dropWhile P (c # s))) < length (c # s)"
  using length_dropWhile_le [of P "c # s"] by (cases "dropWhile P (c # s)") simp_all

text \<open>The loop over the comma separated list of a header, with the test of one item.\<close>

function etag_loop :: "(string \<Rightarrow> bool) \<Rightarrow> string \<Rightarrow> bool" where
  "etag_loop hit s =
    (let tag = trim_ws (takeWhile (\<lambda>c. c \<noteq> CHR '','') s) in
     if tag \<noteq> [] \<and> hit tag then True
     else if CHR '','' \<notin> set s then False
     else etag_loop hit (tl (dropWhile (\<lambda>c. c \<noteq> CHR '','') s)))"
  by auto
termination
proof (relation "measure (length \<circ> snd)", goal_cases)
  case (2 hit s tag)
  then have "s \<noteq> []"
    by (cases s) simp_all
  then have "length (tl (dropWhile (\<lambda>c. c \<noteq> CHR '','') s)) < length s"
    using tl_dropWhile_shorter [of "\<lambda>c. c \<noteq> CHR '','' " "hd s" "tl s"] by simp
  then show ?case
    by simp
qed simp

declare etag_loop.simps [simp del]

datatype body = NoBody | JsonError nat string | Slice u64 u64 \<comment> \<open>offset and length in the file\<close>

record response =
  rs_status :: nat
  rs_headers :: "(string \<times> string) list"
  rs_body :: body

definition not_modified :: "string \<times> string \<Rightarrow> response" where
  "not_modified ch = \<lparr>rs_status = 304, rs_headers = [(''Last-Modified'', fst ch), (''ETag'', snd ch)], rs_body = NoBody\<rparr>"

definition inm_hit :: "string \<Rightarrow> string \<Rightarrow> bool" where
  "inm_hit inm etag \<longleftrightarrow> inm = ''*'' \<or> StripEtagTag etag \<noteq> [] \<and> etag_loop (\<lambda>tag. StripEtagTag tag = StripEtagTag etag) inm"

definition Maybe304 :: "(string \<Rightarrow> int) \<Rightarrow> (string \<Rightarrow> string) \<Rightarrow> file_meta \<Rightarrow> string \<times> string \<Rightarrow> response option" where
  "Maybe304 getHttpDate hdr m ch =
    (if hdr ''If-None-Match'' \<noteq> []
     then (if inm_hit (hdr ''If-None-Match'') (snd ch) then Some (not_modified ch) else None)
     else if hdr ''If-Modified-Since'' \<noteq> [] \<and> fm_mtimeSec m \<le> getHttpDate (hdr ''If-Modified-Since'') sdiv 1000000
     then Some (not_modified ch)
     else None)"

definition im_hit :: "string \<Rightarrow> string \<Rightarrow> bool" where
  "im_hit im etag \<longleftrightarrow> im = ''*'' \<or> StripEtagTag etag \<noteq> []
     \<and> etag_loop (\<lambda>tag. \<not> is_weak tag \<and> StripEtagTag tag = StripEtagTag etag) im"

definition Maybe412 :: "(string \<Rightarrow> int) \<Rightarrow> (string \<Rightarrow> string) \<Rightarrow> file_meta \<Rightarrow> string \<times> string \<Rightarrow> response option" where
  "Maybe412 getHttpDate hdr m ch =
    (if hdr ''If-Match'' \<noteq> []
     then (if im_hit (hdr ''If-Match'') (snd ch) then None else Some \<lparr>rs_status = 412, rs_headers = [], rs_body = NoBody\<rparr>)
     else if hdr ''If-Unmodified-Since'' \<noteq> [] \<and> getHttpDate (hdr ''If-Unmodified-Since'') sdiv 1000000 < fm_mtimeSec m
     then Some \<lparr>rs_status = 412, rs_headers = [], rs_body = NoBody\<rparr>
     else None)"

definition IfRangeAllowsPartial :: "(string \<Rightarrow> string) \<Rightarrow> string \<times> string \<Rightarrow> bool" where
  "IfRangeAllowsPartial hdr ch =
    (let v = hdr ''If-Range'' in
     if v = [] then True
     else if 2 \<le> length v \<and> hd v = CHR 0x22 \<and> last v = CHR 0x22 then v = snd ch
     else v = fst ch)"

section \<open>Answering with a file\<close>

definition mime_table :: "(string \<times> string) list" where
  "mime_table =
    [(''.html'', ''text/html; charset=utf-8''), (''.htm'', ''text/html; charset=utf-8''),
     (''.css'', ''text/css; charset=utf-8''), (''.js'', ''application/javascript; charset=utf-8''),
     (''.json'', ''application/json; charset=utf-8''), (''.xml'', ''application/xml; charset=utf-8''),
     (''.png'', ''image/png''), (''.jpg'', ''image/jpeg''), (''.jpeg'', ''image/jpeg''),
     (''.gif'', ''image/gif''), (''.ico'', ''image/x-icon''), (''.svg'', ''image/svg+xml''),
     (''.woff'', ''font/woff''), (''.woff2'', ''font/woff2''), (''.ttf'', ''font/ttf''),
     (''.mp3'', ''audio/mpeg''), (''.mp4'', ''video/mp4''), (''.opus'', ''audio/ogg''),
     (''.ogg'', ''audio/ogg''), (''.wav'', ''audio/wav''), (''.aac'', ''audio/aac''),
     (''.zip'', ''application/zip''), (''.doc'', ''application/msword''), (''.pdf'', ''application/pdf''),
     (''.txt'', ''text/plain; charset=utf-8''), (''.csv'', ''text/csv; charset=utf-8''),
     (''.md'', ''text/markdown; charset=utf-8''), (''.webp'', ''image/webp''), (''.bmp'', ''image/bmp''),
     (''.avif'', ''image/avif''), (''.tif'', ''image/tiff''), (''.tiff'', ''image/tiff''),
     (''.webm'', ''video/webm''), (''.mkv'', ''video/x-matroska''), (''.mov'', ''video/quicktime''),
     (''.flac'', ''audio/flac''), (''.m4a'', ''audio/mp4''),
     (''.docx'', ''application/vnd.openxmlformats-officedocument.wordprocessingml.document''),
     (''.ppt'', ''application/vnd.ms-powerpoint''),
     (''.pptx'', ''application/vnd.openxmlformats-officedocument.presentationml.presentation''),
     (''.xls'', ''application/vnd.ms-excel''),
     (''.xlsx'', ''application/vnd.openxmlformats-officedocument.spreadsheetml.sheet''),
     (''.rar'', ''application/vnd.rar''), (''.7z'', ''application/x-7z-compressed''),
     (''.tar'', ''application/x-tar''), (''.gz'', ''application/gzip''),
     (''.eot'', ''application/vnd.ms-fontobject''), (''.otf'', ''font/otf'')]"

text \<open>\<open>MimeForExt\<close>: the text from the last dot on, looked up as it is.\<close>

definition MimeForExt :: "string \<Rightarrow> string" where
  "MimeForExt path =
    (if CHR ''.'' \<notin> set path then ''application/octet-stream''
     else let ext = ''.'' @ rev (takeWhile (\<lambda>c. c \<noteq> CHR ''.'') (rev path)) in
       case map_of mime_table ext of Some t \<Rightarrow> t | None \<Rightarrow> ''application/octet-stream'')"

definition header_safe :: "char \<Rightarrow> bool" where
  "header_safe c \<longleftrightarrow> 0x20 \<le> char_code c \<and> char_code c \<le> 0x7E \<and> c \<noteq> CHR 0x22 \<and> c \<noteq> CHR 0x5C"

definition upper_hex :: "nat \<Rightarrow> char" where
  "upper_hex n = ''0123456789ABCDEF'' ! n"

definition unreserved :: "char \<Rightarrow> bool" where
  "unreserved c \<longleftrightarrow> is_alnum_char c \<or> c = CHR ''-'' \<or> c = CHR ''.'' \<or> c = CHR ''_'' \<or> c = CHR ''~''"

definition percent_encode :: "string \<Rightarrow> string" where
  "percent_encode name =
    concat (map (\<lambda>c. if unreserved c then [c] else [CHR ''%'', upper_hex (char_code c div 16), upper_hex (char_code c mod 16)]) name)"

definition MakeContentDisposition :: "string \<Rightarrow> string" where
  "MakeContentDisposition name =
    (let ascii = list_all header_safe name;
         fallback = (let f = filter header_safe name in if f = [] then ''download'' else f);
         out = ''attachment; filename='' @ [CHR 0x22] @ fallback @ [CHR 0x22] in
     if ascii then out else out @ ''; filename*=UTF-8'' @ [CHR 0x27, CHR 0x27] @ percent_encode name)"

definition ErrorResponse :: "nat \<Rightarrow> string \<Rightarrow> response" where
  "ErrorResponse status msg = \<lparr>rs_status = status, rs_headers = [], rs_body = JsonError status msg\<rparr>"

definition Range416Response :: "bool \<Rightarrow> u64 \<Rightarrow> response" where
  "Range416Response hasRange fileSize =
    \<lparr>rs_status = 416,
     rs_headers = (if hasRange then [(''Content-Range'', ''bytes */'' @ to_string (unat fileSize))] else []),
     rs_body = JsonError 416 ''Range not satisfiable''\<rparr>"

definition content_range :: "range_info \<Rightarrow> u64 \<Rightarrow> string \<times> string" where
  "content_range r fileSize =
    (''Content-Range'', ''bytes '' @ to_string (unat (ri_offset r)) @ ''-'' @ to_string (unat (ri_offset r + ri_length r - 1))
       @ ''/'' @ to_string (unat fileSize))"

definition disposition :: "string \<Rightarrow> (string \<times> string) list" where
  "disposition name = (if name \<noteq> [] then [(''Content-Disposition'', MakeContentDisposition name)] else [])"

definition effective_range :: "(string \<Rightarrow> string) \<Rightarrow> string \<times> string \<Rightarrow> u64 \<Rightarrow> range_info" where
  "effective_range hdr ch fileSize =
    (let r = http_ParseRange (hdr ''Range'') fileSize in if \<not> IfRangeAllowsPartial hdr ch then no_range else r)"

definition SendFileCoroImpl ::
  "(string \<Rightarrow> int) \<Rightarrow> (string \<Rightarrow> string) \<Rightarrow> string \<Rightarrow> u64 \<Rightarrow> int \<Rightarrow> string \<Rightarrow> int \<Rightarrow> response" where
  "SendFileCoroImpl getHttpDate hdr attachmentName fileSize mtimeSec etagKey mtimeNt100 =
    (let m = \<lparr>fm_found = False, fm_sizeFailed = False, fm_size = fileSize, fm_mtimeSec = mtimeSec,
              fm_mtimeNt100 = mtimeNt100, fm_key = etagKey\<rparr>;
         ch = CacheHeaders m in
     case Maybe412 getHttpDate hdr m ch of
       Some precond \<Rightarrow> precond
     | None \<Rightarrow>
         (case Maybe304 getHttpDate hdr m ch of
            Some notMod \<Rightarrow> notMod
          | None \<Rightarrow>
              let r = effective_range hdr ch fileSize in
              if ri_unsatisfiable r then Range416Response True fileSize
              else \<lparr>rs_status = (if ri_partial r then 206 else 200),
                    rs_headers = [(''Last-Modified'', fst ch), (''ETag'', snd ch), (''Accept-Ranges'', ''bytes'')]
                      @ (if ri_partial r then [content_range r fileSize] else []) @ disposition attachmentName,
                    rs_body = Slice (ri_offset r) (if ri_partial r then ri_length r else fileSize)\<rparr>))"

record send_options =
  so_chunkSize :: nat
  so_raw :: bool
  so_etagKey :: string

text \<open>The stream is set up in the same way; what it sends is the machine of the theory on streaming.\<close>

definition SendFileStreamCoroImpl ::
  "(string \<Rightarrow> int) \<Rightarrow> (string \<Rightarrow> string) \<Rightarrow> string \<Rightarrow> string \<Rightarrow> send_options \<Rightarrow> u64 \<Rightarrow> int \<Rightarrow> int \<Rightarrow> response" where
  "SendFileStreamCoroImpl getHttpDate hdr path attachmentName opts fileSize mtimeSec mtimeNt100 =
    (let m = \<lparr>fm_found = False, fm_sizeFailed = False, fm_size = fileSize, fm_mtimeSec = mtimeSec,
              fm_mtimeNt100 = mtimeNt100, fm_key = so_etagKey opts\<rparr>;
         ch = CacheHeaders m in
     case Maybe412 getHttpDate hdr m ch of
       Some precond \<Rightarrow> precond
     | None \<Rightarrow>
         (case Maybe304 getHttpDate hdr m ch of
            Some notMod \<Rightarrow> notMod
          | None \<Rightarrow>
              let r = effective_range hdr ch fileSize; total = (if ri_partial r then ri_length r else fileSize) in
              if ri_unsatisfiable r then Range416Response True fileSize
              else \<lparr>rs_status = (if ri_partial r then 206 else 200),
                    rs_headers = [(''Accept-Ranges'', ''bytes''), (''Content-Type'', MimeForExt path)]
                      @ (if so_raw opts then [(''content-length'', to_string (unat total))] else [])
                      @ [(''Last-Modified'', fst ch), (''ETag'', snd ch)]
                      @ (if ri_partial r then [content_range r fileSize] else []) @ disposition attachmentName,
                    rs_body = Slice (ri_offset r) total\<rparr>))"

definition SendFileHybridCoro ::
  "(string \<Rightarrow> int) \<Rightarrow> (string \<Rightarrow> string) \<Rightarrow> file_meta \<Rightarrow> string \<Rightarrow> string \<Rightarrow> u64 \<Rightarrow> send_options \<Rightarrow> response" where
  "SendFileHybridCoro getHttpDate hdr m path attachmentName threshold opts =
    (if \<not> fm_found m then ErrorResponse 404 ''file not found''
     else if fm_sizeFailed m then ErrorResponse 500 ''file stat failed''
     else if fm_size m < threshold
     then SendFileCoroImpl getHttpDate hdr attachmentName (fm_size m) (fm_mtimeSec m) (so_etagKey opts) (fm_mtimeNt100 m)
     else SendFileStreamCoroImpl getHttpDate hdr path attachmentName opts (fm_size m) (fm_mtimeSec m) (fm_mtimeNt100 m))"

section \<open>Delivery: correctness\<close>

lemmas sendfile_defs = SendFileHybridCoro_def SendFileCoroImpl_def SendFileStreamCoroImpl_def

lemma effective_range_safe:
  "ri_partial (effective_range hdr ch fsz) \<Longrightarrow>
    0 < unat (ri_length (effective_range hdr ch fsz))
    \<and> unat (ri_offset (effective_range hdr ch fsz)) + unat (ri_length (effective_range hdr ch fsz)) \<le> unat fsz"
  by (simp add: effective_range_def no_range_def ParseRange_safe Let_def split: if_split_asm)

lemma effective_range_whole: "\<not> ri_partial (effective_range hdr ch fsz) \<Longrightarrow> ri_offset (effective_range hdr ch fsz) = 0"
  by (simp add: effective_range_def ParseRange_whole Let_def no_range_def split: if_split_asm)

lemma last_position:
  assumes "0 < unat (l :: u64)" "unat o1 + unat l \<le> unat (fsz :: u64)"
  shows "unat (o1 + l - 1) = unat o1 + unat l - 1"
proof -
  have "unat fsz < 2 ^ LENGTH(64)"
    by (rule unsigned_less)
  then have "unat (o1 + l) = unat o1 + unat l"
    using assms(2) by (simp add: unat_word_ariths)
  moreover from this have "o1 + l \<noteq> 0"
    using assms(1) by (metis add_is_0 less_irrefl unat_0)
  ultimately show ?thesis
    by (simp add: unat_minus_one)
qed

text \<open>What any answer may look like: an error without content, or a piece of the file that fits what is declared.\<close>

definition honest :: "u64 \<Rightarrow> response \<Rightarrow> bool" where
  "honest fsz r \<longleftrightarrow>
    (case rs_body r of
       Slice off len \<Rightarrow>
         unat off + unat len \<le> unat fsz \<and>
         (rs_status r = 200 \<and> off = 0 \<and> len = fsz \<and> map_of (rs_headers r) ''Content-Range'' = None
          \<or> rs_status r = 206 \<and> 0 < unat len \<and> map_of (rs_headers r) ''Content-Range'' =
              Some (''bytes '' @ to_string (unat off) @ ''-'' @ to_string (unat off + unat len - 1) @ ''/'' @ to_string (unat fsz)))
     | NoBody \<Rightarrow> rs_status r \<in> {304, 412}
     | JsonError code msg \<Rightarrow> rs_status r = code \<and> code \<in> {404, 416, 500})"

lemma precondition_shape: "Maybe412 d hdr m ch = Some r \<Longrightarrow> rs_status r = 412 \<and> rs_body r = NoBody"
  by (auto simp: Maybe412_def split: if_split_asm)

lemma not_modified_shape: "Maybe304 d hdr m ch = Some r \<Longrightarrow> r = not_modified ch"
  by (auto simp: Maybe304_def split: if_split_asm)

lemma content_range_text:
  "ri_partial (effective_range hdr ch fsz) \<Longrightarrow> content_range (effective_range hdr ch fsz) fsz =
    (''Content-Range'', ''bytes '' @ to_string (unat (ri_offset (effective_range hdr ch fsz))) @ ''-'' @
      to_string (unat (ri_offset (effective_range hdr ch fsz)) + unat (ri_length (effective_range hdr ch fsz)) - 1)
      @ ''/'' @ to_string (unat fsz))"
  using effective_range_safe [of hdr ch fsz] last_position [of "ri_length (effective_range hdr ch fsz)"]
  by (auto simp: content_range_def)

lemma disposition_range [simp]: "map_of (disposition name) ''Content-Range'' = None"
  by (simp add: disposition_def)

lemma map_of_keep: "map_of (xs @ ys) k = (case map_of xs k of None \<Rightarrow> map_of ys k | Some v \<Rightarrow> Some v)"
  by (simp add: map_add_def)

lemma honest_stream: "honest fsz (SendFileStreamCoroImpl d hdr path name opts fsz t nt)"
proof -
  define ch where "ch = CacheHeaders \<lparr>fm_found = False, fm_sizeFailed = False, fm_size = fsz, fm_mtimeSec = t,
      fm_mtimeNt100 = nt, fm_key = so_etagKey opts\<rparr>"
  show ?thesis
    using effective_range_safe [of hdr ch fsz] effective_range_whole [of hdr ch fsz] content_range_text [of hdr ch fsz]
    by (auto simp: SendFileStreamCoroImpl_def ch_def [symmetric] Let_def honest_def Range416Response_def not_modified_def
        split: option.split dest!: precondition_shape not_modified_shape)
qed

lemma honest_plain: "honest fsz (SendFileCoroImpl d hdr name fsz t key nt)"
proof -
  define ch where "ch = CacheHeaders \<lparr>fm_found = False, fm_sizeFailed = False, fm_size = fsz, fm_mtimeSec = t,
      fm_mtimeNt100 = nt, fm_key = key\<rparr>"
  show ?thesis
    using effective_range_safe [of hdr ch fsz] effective_range_whole [of hdr ch fsz] content_range_text [of hdr ch fsz]
    by (auto simp: SendFileCoroImpl_def ch_def [symmetric] Let_def honest_def Range416Response_def not_modified_def
        split: option.split dest!: precondition_shape not_modified_shape)
qed

text \<open>A range that no byte of the file satisfies, read off the text: a start at or behind the end, an empty suffix, or an empty file.\<close>

definition beyond_file :: "string \<Rightarrow> nat \<Rightarrow> bool" where
  "beyond_file rng n \<longleftrightarrow> (\<exists>a b. rng = ''bytes='' @ a @ ''-'' @ b \<and> list_all is_digit a \<and> list_all is_digit b
     \<and> (if a = [] then b \<noteq> [] \<and> (dec_value b = 0 \<or> n = 0) else n \<le> dec_value a))"

lemma unsatisfiable_suffix:
  "ri_unsatisfiable (range_suffix b fsz (no_range\<lparr>ri_present := True\<rparr>)) \<Longrightarrow> dec_value b = 0 \<or> unat fsz = 0"
  by (auto simp: range_suffix_def no_range_def stoull_def Let_def less_of_nat unat_eq_0 split: if_splits)

lemma unsatisfiable_from:
  "ri_unsatisfiable (range_from a b fsz (no_range\<lparr>ri_present := True\<rparr>)) \<Longrightarrow> unat fsz \<le> dec_value a"
  by (auto simp: range_from_def range_upto_def no_range_def stoull_def Let_def less_of_nat split: if_splits option.splits)

lemma unsatisfiable_beyond: "ri_unsatisfiable (http_ParseRange rng fsz) \<Longrightarrow> beyond_file rng (unat fsz)"
proof -
  let ?body = "drop 6 rng"
  let ?a = "takeWhile (\<lambda>c. c \<noteq> CHR ''-'') ?body"
  let ?b = "drop (length ?a + 1) ?body"
  assume u: "ri_unsatisfiable (http_ParseRange rng fsz)"
  then have c: "take 6 rng = ''bytes=''" "CHR ''-'' \<in> set ?body" "list_all is_digit ?a" "list_all is_digit ?b" "?a \<noteq> [] \<or> ?b \<noteq> []"
    "ri_unsatisfiable (if ?a = [] then range_suffix ?b fsz (no_range\<lparr>ri_present := True\<rparr>) else range_from ?a ?b fsz (no_range\<lparr>ri_present := True\<rparr>))"
    by (auto simp: http_ParseRange_def Let_def no_range_def split: if_splits)
  have drop: "dropWhile (\<lambda>c. c \<noteq> CHR ''-'') ?body = CHR ''-'' # ?b"
  proof -
    obtain x xs where d: "dropWhile (\<lambda>c. c \<noteq> CHR ''-'') ?body = x # xs"
      using c(2) by (cases "dropWhile (\<lambda>c. c \<noteq> CHR ''-'') ?body") (auto simp: dropWhile_eq_Nil_conv)
    moreover from d have "x = CHR ''-''"
      using hd_dropWhile [of "\<lambda>c. c \<noteq> CHR ''-''" ?body] by simp
    moreover have "drop (length (takeWhile P xs) + 1) xs = tl (dropWhile P xs)" for P :: "char \<Rightarrow> bool" and xs
      by (simp add: dropWhile_eq_drop drop_Suc tl_drop)
    ultimately show ?thesis
      unfolding d by (metis d list.sel(3))
  qed
  have "rng = take 6 rng @ ?a @ dropWhile (\<lambda>c. c \<noteq> CHR ''-'') ?body"
    by simp
  then have "rng = ''bytes='' @ ?a @ ''-'' @ ?b"
    unfolding c(1) drop by simp
  then show ?thesis
    using c(3-6) unsatisfiable_suffix unsatisfiable_from unfolding beyond_file_def
    by (intro exI [of _ ?a] exI [of _ ?b]) (auto split: if_splits)
qed

lemma range_416:
  "rs_status (SendFileHybridCoro d hdr m path name threshold opts) = 416 \<Longrightarrow> beyond_file (hdr ''Range'') (unat (fm_size m))"
proof -
  have eff: "ri_unsatisfiable (effective_range hdr ch fsz) \<Longrightarrow> ri_unsatisfiable (http_ParseRange (hdr ''Range'') fsz)" for ch fsz
    by (auto simp: effective_range_def Let_def no_range_def split: if_splits)
  assume "rs_status (SendFileHybridCoro d hdr m path name threshold opts) = 416"
  then have "ri_unsatisfiable (http_ParseRange (hdr ''Range'') (fm_size m))"
    by (auto simp: sendfile_defs ErrorResponse_def Let_def not_modified_def eff
        split: if_splits option.splits dest!: precondition_shape not_modified_shape)
  then show ?thesis
    by (rule unsatisfiable_beyond)
qed

text \<open>C11: whatever the request, a file answer is honest: it sends no byte outside the file; 200 sends all of it, 206 a part
  that is not empty and is the one its \<open>Content-Range\<close> names; 304 and 412 send no body; anything else is an error with
  its own status as code, and 416 is given only for a range that starts at or behind the end of the file, for the suffix of no
  bytes, or for a suffix of an empty file.\<close>
theorem SendFile_honest:
  "honest (fm_size m) (SendFileHybridCoro d hdr m path name threshold opts)
    \<and> (if rs_status (SendFileHybridCoro d hdr m path name threshold opts) = 416
       then beyond_file (hdr ''Range'') (unat (fm_size m)) else True)"
  using honest_stream honest_plain range_416 by (simp add: SendFileHybridCoro_def honest_def ErrorResponse_def)

text \<open>The same status, bytes, validators and range headers.\<close>

definition same_answer :: "response \<Rightarrow> response \<Rightarrow> bool" where
  "same_answer r1 r2 \<longleftrightarrow> rs_status r1 = rs_status r2 \<and> rs_body r1 = rs_body r2 \<and>
     map (map_of (rs_headers r1)) [''ETag'', ''Last-Modified'', ''Accept-Ranges'', ''Content-Range'', ''Content-Disposition'']
     = map (map_of (rs_headers r2)) [''ETag'', ''Last-Modified'', ''Accept-Ranges'', ''Content-Range'', ''Content-Disposition'']"

lemma same_answer_refl: "same_answer r r"
  by (simp add: same_answer_def)

lemma same_answer_sym: "same_answer r q \<Longrightarrow> same_answer q r"
  by (simp add: same_answer_def)

lemma plain_stream_agree:
  "same_answer (SendFileCoroImpl d hdr name fsz t (so_etagKey opts) nt) (SendFileStreamCoroImpl d hdr path name opts fsz t nt)"
proof -
  let ?m = "\<lparr>fm_found = False, fm_sizeFailed = False, fm_size = fsz, fm_mtimeSec = t, fm_mtimeNt100 = nt, fm_key = so_etagKey opts\<rparr>"
  define ch where "ch = CacheHeaders ?m"
  define r where "r = effective_range hdr ch fsz"
  show ?thesis
    unfolding SendFileCoroImpl_def SendFileStreamCoroImpl_def Let_def ch_def [symmetric] r_def [symmetric]
    by (cases "Maybe412 d hdr ?m ch"; cases "Maybe304 d hdr ?m ch"; cases "ri_unsatisfiable r"; cases "ri_partial r";
        cases "name = []"; simp add: same_answer_refl; simp add: same_answer_def content_range_def disposition_def)
qed

text \<open>The threshold between the two ways of sending is invisible: both answer every request with the same status,
  the same bytes and the same validators and range headers.\<close>
theorem SendFile_threshold_invisible:
  "same_answer (SendFileHybridCoro d hdr m path name t1 opts) (SendFileHybridCoro d hdr m path name t2 opts)"
  using plain_stream_agree same_answer_sym by (auto simp: SendFileHybridCoro_def same_answer_refl)

end
