(* ===== verification/HttpCond.thy ===== *)
theory HttpCond
  imports HttpFile
begin

text \<open>
  Correctness of the conditional requests and of the header values of \<open>HttpFile\<close>: what the lists of entity tags in
  \<open>If-None-Match\<close> and \<open>If-Match\<close> select, that a tag identifies key, size and time of a file, and that the
  \<open>Content-Disposition\<close> value cannot be broken by the file name.
\<close>

section \<open>Lists of entity tags\<close>

datatype client_tag = Strong string | Weak string | Bare string

fun tag_text :: "client_tag \<Rightarrow> string" where
  "tag_text (Strong t) = t" | "tag_text (Weak t) = t" | "tag_text (Bare t) = t"

fun render_tag :: "client_tag \<Rightarrow> string" where
  "render_tag (Strong t) = [CHR 0x22] @ t @ [CHR 0x22]"
| "render_tag (Weak t) = ''W/'' @ [CHR 0x22] @ t @ [CHR 0x22]"
| "render_tag (Bare t) = t"

fun render_tags :: "client_tag list \<Rightarrow> string" where
  "render_tags [] = []"
| "render_tags [t] = render_tag t"
| "render_tags (t # ts) = render_tag t @ '', '' @ render_tags ts"

definition tag_char :: "char \<Rightarrow> bool" where
  "tag_char c \<longleftrightarrow> c \<notin> {CHR 0x22, CHR '','', CHR '' '', CHR 0x09, CHR ''/'', CHR ''*''}"

definition tag_ok :: "client_tag \<Rightarrow> bool" where
  "tag_ok t \<longleftrightarrow> tag_text t \<noteq> [] \<and> list_all tag_char (tag_text t)"

abbreviation "ws \<equiv> \<lambda>c. c = CHR '' '' \<or> c = CHR 0x09"

lemma trim_ws_blank: "trim_ws (CHR '' '' # s) = trim_ws s"
  by (simp add: trim_ws_def)

lemma trim_ws_id: "s \<noteq> [] \<Longrightarrow> \<not> ws (hd s) \<Longrightarrow> \<not> ws (last s) \<Longrightarrow> trim_ws s = s"
proof -
  assume a: "s \<noteq> []" "\<not> ws (hd s)" "\<not> ws (last s)"
  have "dropWhile ws s = s"
    using a(1,2) by (cases s) auto
  moreover have "dropWhile ws (rev s) = rev s"
    using a(1,3) by (cases "rev s") (auto simp: hd_rev [symmetric])
  ultimately show ?thesis
    by (simp add: trim_ws_def)
qed

lemma tag_char_last: "t \<noteq> [] \<Longrightarrow> list_all tag_char t \<Longrightarrow> tag_char (last t)"
  by (metis last_in_set list.pred_set)

lemma render_shape:
  assumes "tag_ok t"
  shows "render_tag t \<noteq> []" "CHR '','' \<notin> set (render_tag t)" "trim_ws (render_tag t) = render_tag t"
proof -
  show ne: "render_tag t \<noteq> []"
    using assms by (cases t) (auto simp: tag_ok_def)
  show "CHR '','' \<notin> set (render_tag t)"
    using assms by (cases t) (auto simp: tag_ok_def list_all_iff tag_char_def)
  have "\<not> ws (hd (render_tag t))" "\<not> ws (last (render_tag t))"
    using assms tag_char_last [of "tag_text t"] by (cases t; cases "tag_text t"; force simp: tag_ok_def tag_char_def)+
  then show "trim_ws (render_tag t) = render_tag t"
    by (rule trim_ws_id [OF ne])
qed

lemma strip_render:
  assumes "tag_ok t"
  shows "StripEtagTag (render_tag t) = tag_text t" "is_weak (render_tag t) \<longleftrightarrow> (\<exists>u. t = Weak u)"
proof -
  obtain c r where t: "tag_text t = c # r" "tag_char c" "list_all tag_char r"
    using assms by (cases "tag_text t") (auto simp: tag_ok_def)
  have weak: "is_weak (render_tag t) \<longleftrightarrow> (\<exists>u. t = Weak u)"
  proof (cases t)
    case (Bare u)
    then have "r \<noteq> [] \<Longrightarrow> r ! 0 \<noteq> CHR ''/''"
      using t(3) by (cases r) (auto simp: tag_char_def)
    then show ?thesis
      using Bare t(1) by (cases r) (auto simp: is_weak_def)
  qed (simp_all add: is_weak_def)
  then show "is_weak (render_tag t) \<longleftrightarrow> (\<exists>u. t = Weak u)" .
  show "StripEtagTag (render_tag t) = tag_text t"
    using weak t by (cases t) (auto simp: StripEtagTag_def tag_char_def butlast_append)
qed

lemma etag_loop_last:
  assumes "CHR '','' \<notin> set s"
  shows "etag_loop hit s \<longleftrightarrow> trim_ws s \<noteq> [] \<and> hit (trim_ws s)"
proof -
  have tw: "takeWhile (\<lambda>c. c \<noteq> CHR '','') s = s"
    using assms by (auto simp: takeWhile_eq_all_conv)
  show ?thesis
    by (subst etag_loop.simps) (simp add: Let_def tw assms)
qed

lemma etag_loop_more:
  assumes "CHR '','' \<notin> set s"
  shows "etag_loop hit (s @ '','' @ r) \<longleftrightarrow> trim_ws s \<noteq> [] \<and> hit (trim_ws s) \<or> etag_loop hit r"
proof -
  have "takeWhile (\<lambda>c. c \<noteq> CHR '','') (s @ '','' @ r) = s" "dropWhile (\<lambda>c. c \<noteq> CHR '','') (s @ '','' @ r) = '','' @ r"
    using assms by (induction s) auto
  then show ?thesis
    by (subst etag_loop.simps) (simp add: Let_def)
qed

lemma etag_loop_blank: "etag_loop hit (CHR '' '' # s) = etag_loop hit s"
  by (subst etag_loop.simps, subst (2) etag_loop.simps) (simp add: Let_def trim_ws_blank)

lemma etag_loop_render:
  assumes "list_all tag_ok ts" "ts \<noteq> []"
  shows "etag_loop hit (render_tags ts) \<longleftrightarrow> (\<exists>t\<in>set ts. hit (render_tag t))"
  using assms
proof (induction ts rule: render_tags.induct)
  case (2 t)
  then show ?case
    using render_shape [of t] by (simp add: etag_loop_last)
next
  case (3 t u ts)
  then have "etag_loop hit (render_tag t @ '','' @ CHR '' '' # render_tags (u # ts))
    \<longleftrightarrow> hit (render_tag t) \<or> (\<exists>v\<in>set (u # ts). hit (render_tag v))"
    using render_shape [of t] by (subst etag_loop_more) (simp_all add: etag_loop_blank)
  then show ?case
    by simp
qed simp

lemma render_tags_nonempty: "list_all tag_ok ts \<Longrightarrow> ts \<noteq> [] \<Longrightarrow> render_tags ts \<noteq> []"
  by (cases ts rule: render_tags.cases) (auto dest: render_shape(1))

lemma render_tags_star:
  assumes "list_all tag_ok ts" "ts \<noteq> []"
  shows "render_tags ts \<noteq> ''*''"
proof (cases ts rule: render_tags.cases)
  case (2 t)
  then show ?thesis
    using assms by (cases t) (auto simp: tag_ok_def tag_char_def)
next
  case (3 t u us)
  have "length (render_tags ts) \<ge> 2"
    by (simp add: 3)
  then show ?thesis
    by auto
qed (use assms in simp)

section \<open>The validators of a file\<close>

lemma int_to_string_chars: "0 \<le> i \<Longrightarrow> int_to_string i = to_string (nat i)"
  by (simp add: int_to_string_def)

definition file_time :: "file_meta \<Rightarrow> int" where
  "file_time m = (if 0 < fm_mtimeNt100 m then fm_mtimeNt100 m else fm_mtimeSec m)"

definition etag_text :: "file_meta \<Rightarrow> string" where
  "etag_text m = (if fm_key m \<noteq> [] then fm_key m @ ''-'' else []) @ to_string (unat (fm_size m)) @ ''-'' @ int_to_string (file_time m)"

lemma CacheHeaders_etag: "snd (CacheHeaders m) = [CHR 0x22] @ etag_text m @ [CHR 0x22]"
  by (simp add: CacheHeaders_def etag_text_def file_time_def)

lemma strip_own: "StripEtagTag (snd (CacheHeaders m)) = etag_text m"
  by (simp add: CacheHeaders_etag StripEtagTag_def is_weak_def butlast_append)

lemma etag_text_nonempty: "etag_text m \<noteq> []"
  by (simp add: etag_text_def)

lemma takeWhile_digits_rev: "takeWhile is_digit (rev (to_string n) @ r) = rev (to_string n) @ takeWhile is_digit r"
  using to_string_digits [of n] by (intro takeWhile_append2) (simp add: list_all_iff)

lemma last_digits_unique:
  "p @ ''-'' @ to_string a = q @ ''-'' @ to_string b \<Longrightarrow> p = q \<and> a = b"
proof -
  assume eq: "p @ ''-'' @ to_string a = q @ ''-'' @ to_string b"
  have cut: "takeWhile is_digit (rev (r @ ''-'' @ to_string n)) = rev (to_string n)" for r n
    by (simp add: takeWhile_digits_rev)
  have "rev (to_string a) = rev (to_string b)"
    using cut [of p a] cut [of q b] eq by metis
  then show ?thesis
    using eq by auto
qed

text \<open>A strong tag identifies the file version: two files have the same entity tag only if key, size and time agree
  (the time with 100 ns resolution where it is known).\<close>
theorem etag_identifies_version:
  assumes "snd (CacheHeaders m1) = snd (CacheHeaders m2)" "0 \<le> file_time m1" "0 \<le> file_time m2"
  shows "fm_size m1 = fm_size m2 \<and> file_time m1 = file_time m2 \<and> fm_key m1 = fm_key m2"
proof -
  define pre :: "file_meta \<Rightarrow> string" where "pre m = (if fm_key m \<noteq> [] then fm_key m @ ''-'' else [])" for m
  have "(pre m1 @ to_string (unat (fm_size m1))) @ ''-'' @ to_string (nat (file_time m1))
      = (pre m2 @ to_string (unat (fm_size m2))) @ ''-'' @ to_string (nat (file_time m2))"
    using assms by (simp add: CacheHeaders_etag etag_text_def pre_def int_to_string_chars)
  from last_digits_unique [OF this]
  have front: "pre m1 @ to_string (unat (fm_size m1)) = pre m2 @ to_string (unat (fm_size m2))"
    and time: "nat (file_time m1) = nat (file_time m2)"
    by auto
  have cut: "takeWhile is_digit (rev (pre m @ to_string n)) = rev (to_string n)" for m n
    by (simp add: pre_def takeWhile_digits_rev)
  have "rev (to_string (unat (fm_size m1))) = rev (to_string (unat (fm_size m2)))"
    using cut [of m1 "unat (fm_size m1)"] cut [of m2 "unat (fm_size m2)"] front by metis
  then have "fm_size m1 = fm_size m2"
    by (simp add: word_unat_eq_iff)
  moreover from this have "fm_key m1 = fm_key m2"
    using front by (auto simp: pre_def split: if_split_asm)
  ultimately show ?thesis
    using time assms(2,3) by simp
qed

definition demo_meta :: file_meta where
  "demo_meta = \<lparr>fm_found = True, fm_sizeFailed = False, fm_size = 10, fm_mtimeSec = 7, fm_mtimeNt100 = 0, fm_key = []\<rparr>"

theorem etag_identifies_version_witness:
  "fm_key demo_meta = fm_key (demo_meta\<lparr>fm_mtimeNt100 := 7\<rparr>) \<and> file_time (demo_meta\<lparr>fm_mtimeNt100 := 7\<rparr>) = 7"
  using etag_identifies_version [of demo_meta "demo_meta\<lparr>fm_mtimeNt100 := 7\<rparr>"]
  by (simp add: CacheHeaders_def file_time_def demo_meta_def)


text \<open>The list is cut at every comma, also within quotes: a tag \<open>"a,10-7,b"\<close>, which RFC 7232 allows, counts as the tag
  \<open>10-7\<close> of the file, and the answer is a 304 although no tag of the list is that of the file.\<close>

lemma dec_digit_eq: "n < 10 \<Longrightarrow> dec_digit n = c \<longleftrightarrow> 48 + n = char_code c"
  using char_code_digit [of n] by (auto simp: char_code_def of_char_eq_iff)

lemma demo_etag: "etag_text demo_meta = ''10-7''"
  by (simp add: etag_text_def file_time_def demo_meta_def int_to_string_def to_string.simps dec_digit_eq)
    (simp add: char_code_def)

lemma comma_tag_matches: "etag_loop (\<lambda>t. StripEtagTag t = ''10-7'') ([CHR 0x22] @ ''a,10-7,b'' @ [CHR 0x22])"
  by code_simp

lemma comma_tag_false_304:
  "Maybe304 d (\<lambda>h. if h = ''If-None-Match'' then [CHR 0x22] @ ''a,10-7,b'' @ [CHR 0x22] else []) demo_meta (CacheHeaders demo_meta)
    = Some (not_modified (CacheHeaders demo_meta))"
  using comma_tag_matches by (simp add: Maybe304_def inm_hit_def strip_own demo_etag)

text \<open>A date the library cannot read is the latest date there is, so the file counts as not modified.\<close>

theorem unreadable_date_gives_304:
  assumes "getHttpDate (hdr ''If-Modified-Since'') = 2 ^ 63 - 1"
    and "hdr ''If-Modified-Since'' \<noteq> []" "hdr ''If-None-Match'' = []" "fm_mtimeSec m \<le> 9223372036854"
  shows "Maybe304 getHttpDate hdr m ch = Some (not_modified ch)"
  using assms by (simp add: Maybe304_def)


theorem unreadable_date_gives_304_witness:
  "Maybe304 (\<lambda>s. 2 ^ 63 - 1) (\<lambda>h. if h = ''If-Modified-Since'' then ''yesterday'' else []) demo_meta (CacheHeaders demo_meta)
    = Some (not_modified (CacheHeaders demo_meta))"
  by (rule unreadable_date_gives_304) (simp_all add: demo_meta_def)

section \<open>Content-Disposition\<close>

definition hex_value :: "char \<Rightarrow> nat" where
  "hex_value c = (if is_digit c then char_code c - 48 else char_code c - 55)"

fun percent_decode :: "string \<Rightarrow> string" where
  "percent_decode (c # h # l # r) =
    (if c = CHR ''%'' then char_of (16 * hex_value h + hex_value l) # percent_decode r else c # percent_decode (h # l # r))"
| "percent_decode (c # r) = c # percent_decode r"
| "percent_decode [] = []"

lemma hex_digit_facts: "n < 16 \<Longrightarrow> hex_value (upper_hex n) = n \<and> is_alnum_char (upper_hex n)"
proof -
  assume "n < 16"
  moreover have "list_all (\<lambda>n. hex_value (upper_hex n) = n \<and> is_alnum_char (upper_hex n)) [0..<16]"
    by (simp add: upt_rec upper_hex_def hex_value_def is_digit_def is_alnum_char_def char_code_def)
  ultimately show ?thesis
    by (simp add: list_all_iff)
qed

lemma char_of_halves: "char_of (16 * (char_code c div 16) + char_code c mod 16) = c"
  by (simp add: char_code_def)

lemma percent_not_unreserved: "\<not> unreserved (CHR ''%'')"
  by (simp add: unreserved_def is_alnum_char_def is_digit_def char_code_def)

lemma percent_decode_plain: "c \<noteq> CHR ''%'' \<Longrightarrow> percent_decode (c # s) = c # percent_decode s"
  by (cases s rule: percent_decode.cases) auto

lemma percent_roundtrip: "percent_decode (percent_encode name) = name"
proof (induction name)
  case (Cons c name)
  then show ?case
  proof (cases "unreserved c")
    case True
    then have "c \<noteq> CHR ''%''"
      using percent_not_unreserved by auto
    then show ?thesis
      using True Cons by (simp add: percent_encode_def percent_decode_plain)
  next
    case False
    then show ?thesis
      using Cons hex_digit_facts [of "char_code c div 16"] hex_digit_facts [of "char_code c mod 16"] char_of_halves [of c]
        char_code_less [of c] by (simp add: percent_encode_def less_mult_imp_div_less)
  qed
qed (simp add: percent_encode_def)

lemma alnum_safe: "is_alnum_char c \<Longrightarrow> header_safe c"
  by (auto simp: is_alnum_char_def is_digit_def header_safe_def char_code_def)

lemma percent_encode_safe: "list_all header_safe (percent_encode name)"
proof (induction name)
  case (Cons c name)
  then show ?case
    using hex_digit_facts [of "char_code c div 16"] hex_digit_facts [of "char_code c mod 16"] char_code_less [of c]
    by (auto simp: percent_encode_def unreserved_def alnum_safe less_mult_imp_div_less)
      (simp_all add: header_safe_def char_code_def)
qed (simp add: percent_encode_def)

text \<open>A file name cannot break the \<open>Content-Disposition\<close> header: the value is printable ASCII whatever the name, the
  quoted part holds no quote or backslash, and the name itself is the quoted part, or else what the percent encoded part
  decodes to.\<close>
theorem disposition_safe:
  "\<exists>quoted ext. MakeContentDisposition name = ''attachment; filename='' @ [CHR 0x22] @ quoted @ [CHR 0x22] @ ext
    \<and> list_all header_safe quoted \<and> quoted \<noteq> []
    \<and> (ext = [] \<and> list_all header_safe name \<and> (quoted = name \<or> name = [] \<and> quoted = ''download'')
       \<or> (\<exists>enc. ext = ''; filename*=UTF-8'' @ [CHR 0x27, CHR 0x27] @ enc \<and> list_all header_safe enc \<and> percent_decode enc = name))"
proof -
  define quoted where "quoted = (if filter header_safe name = [] then ''download'' else filter header_safe name)"
  have q: "list_all header_safe quoted" "quoted \<noteq> []"
    by (auto simp: quoted_def list_all_iff header_safe_def char_code_def)
  show ?thesis
  proof (cases "list_all header_safe name")
    case True
    then have "filter header_safe name = name"
      by (simp add: list_all_iff filter_id_conv)
    then show ?thesis
      using True q by (intro exI [of _ quoted] exI [of _ "[]"]) (auto simp: MakeContentDisposition_def Let_def quoted_def)
  next
    case False
    then show ?thesis
      using q percent_encode_safe [of name] percent_roundtrip [of name]
      by (intro exI [of _ quoted] exI [of _ "''; filename*=UTF-8'' @ [CHR 0x27, CHR 0x27] @ percent_encode name"])
        (auto simp: MakeContentDisposition_def Let_def quoted_def)
  qed
qed

end
