(* ===== verification/StreamLoop.thy ===== *)
theory StreamLoop
  imports HttpFile
begin

text \<open>
  \<open>ZmStreamLoopState\<close> of \<open>net/zm_net_http_server.cpp\<close>: the machine that sends a file block by block.  Its own steps run
  on the event loop of the connection; the block reads run on the threads of an I/O pool and come back through the
  queue of the loop.  The state holds what is under way: timers set, reads submitted, results queued.

  The file is a list of bytes that does not change while it is sent.  What the system answers (opening, seeking, the
  number of bytes a read gives, whether a send is accepted, the bytes the connection has really sent, the clock) comes
  with the event.  A read that fails gives no bytes, as the system documents.
\<close>

section \<open>State\<close>

record 'b stream_state =
  sl_file :: "'b list"
  sl_offset :: nat
  sl_total :: nat
  sl_remaining :: nat
  sl_sent :: nat
  sl_chunkSize :: nat
  sl_raw :: bool
  sl_watermark :: nat
  sl_abortMs :: int
  sl_lastSentMs :: int
  sl_lastConnSent :: nat
  sl_baseConnSent :: nat
  sl_idleMs :: int
  sl_handle :: "nat option"        \<comment> \<open>the position of the open file, or not open\<close>
  sl_stream :: bool
  sl_fini :: bool
  sl_inFlight :: nat
  sl_closed :: bool
  sl_timers :: nat                 \<comment> \<open>calls of \<open>stream_Next\<close> that a timer will make\<close>
  sl_reads :: "nat list"           \<comment> \<open>reads given to the pool, with the bytes wanted\<close>
  sl_results :: "('b list \<times> bool) list"  \<comment> \<open>results queued on the loop\<close>
  sl_delivered :: "'b list"        \<comment> \<open>history: what the stream has accepted\<close>
  sl_handleCloses :: nat
  sl_finished :: nat               \<comment> \<open>calls of \<open>onFinish\<close>\<close>

definition new_stream :: "'b list \<Rightarrow> nat \<Rightarrow> nat \<Rightarrow> nat \<Rightarrow> bool \<Rightarrow> nat \<Rightarrow> int \<Rightarrow> 'b stream_state" where
  "new_stream file offset len chunkSize raw watermark abortMs =
    \<lparr>sl_file = file, sl_offset = offset, sl_total = len, sl_remaining = len, sl_sent = 0, sl_chunkSize = chunkSize,
     sl_raw = raw, sl_watermark = watermark, sl_abortMs = abortMs, sl_lastSentMs = 0, sl_lastConnSent = 0, sl_baseConnSent = 0,
     sl_idleMs = 0, sl_handle = None, sl_stream = True, sl_fini = False, sl_inFlight = 0, sl_closed = False, sl_timers = 0,
     sl_reads = [], sl_results = [], sl_delivered = [], sl_handleCloses = 0, sl_finished = 0\<rparr>"

section \<open>Operations\<close>

definition DoClose :: "'b stream_state \<Rightarrow> 'b stream_state" where
  "DoClose s =
    (if sl_closed s then s
     else s\<lparr>sl_closed := True, sl_handle := None,
            sl_handleCloses := sl_handleCloses s + (if sl_handle s = None then 0 else 1),
            sl_stream := False, sl_finished := sl_finished s + 1\<rparr>)"

definition stream_Finish :: "'b stream_state \<Rightarrow> 'b stream_state" where
  "stream_Finish s =
    (if sl_fini s then s
     else let s = s\<lparr>sl_fini := True\<rparr> in if sl_inFlight s = 0 then DoClose s else s)"

text \<open>The two tests of \<open>stream_Next\<close> that look at the connection, when it still exists: \<open>None\<close> to give up, otherwise the state
  and whether the block has to wait.\<close>

definition conn_check :: "nat \<Rightarrow> int \<Rightarrow> 'b stream_state \<Rightarrow> ('b stream_state \<times> bool) option" where
  "conn_check sentNow now s =
    (let moved = sentNow \<noteq> sl_lastConnSent s;
         s' = (if moved then s\<lparr>sl_lastConnSent := sentNow, sl_lastSentMs := now\<rparr> else s) in
     if \<not> moved \<and> sl_abortMs s < now - sl_lastSentMs s then None
     else Some (s', 0 < sl_watermark s \<and> (sentNow - sl_baseConnSent s) + sl_watermark s < sl_sent s))"

definition submit_read :: "'b stream_state \<Rightarrow> 'b stream_state" where
  "submit_read s =
    (let want = min (sl_remaining s) (if sl_chunkSize s \<noteq> 0 then sl_chunkSize s else 1) in
     s\<lparr>sl_idleMs := 0, sl_inFlight := sl_inFlight s + 1, sl_reads := sl_reads s @ [want]\<rparr>)"

definition stream_Next :: "nat option \<Rightarrow> int \<Rightarrow> 'b stream_state \<Rightarrow> 'b stream_state" where
  "stream_Next conn now s =
    (if sl_fini s then s
     else if \<not> sl_stream s \<or> sl_remaining s = 0 then stream_Finish s
     else case conn of
       None \<Rightarrow> submit_read s
     | Some sentNow \<Rightarrow>
         (case conn_check sentNow now s of
            None \<Rightarrow> stream_Finish s
          | Some (s', wait) \<Rightarrow>
              if wait then s'\<lparr>sl_idleMs := (if sl_idleMs s' = 0 then 1 else min (sl_idleMs s' * 2) 250), sl_timers := sl_timers s' + 1\<rparr>
              else submit_read s'))"

definition Run :: "bool \<Rightarrow> bool \<Rightarrow> nat option \<Rightarrow> int \<Rightarrow> int \<Rightarrow> 'b stream_state \<Rightarrow> 'b stream_state" where
  "Run opened seeked conn now0 now s =
    (if \<not> opened then stream_Finish s
     else let s = s\<lparr>sl_handle := Some 0\<rparr> in
       if 0 < sl_offset s \<and> \<not> seeked then stream_Finish s
       else let s = s\<lparr>sl_handle := Some (sl_offset s)\<rparr>;
                s = (case conn of Some b \<Rightarrow> s\<lparr>sl_lastConnSent := b, sl_baseConnSent := b\<rparr> | None \<Rightarrow> s) in
            stream_Next conn now (s\<lparr>sl_lastSentMs := now0\<rparr>))"

text \<open>\<open>ReadChunk\<close> on a thread of the pool: \<open>ReadFile\<close> gives at most as many bytes as asked (in 32 bits) and as the file
  has left; a failure gives none.  Reading without an open file is an error of the model.\<close>

definition ReadChunk :: "nat \<Rightarrow> 'b stream_state \<Rightarrow> mem_error + 'b stream_state" where
  "ReadChunk got s =
    (case (sl_reads s, sl_handle s) of
       ([], _) \<Rightarrow> Inr s
     | (want # rest, None) \<Rightarrow> Inl NullPointer
     | (want # rest, Some pos) \<Rightarrow>
         let rd = min got (min (want mod 2 ^ 32) (length (sl_file s) - pos)) in
         Inr (s\<lparr>sl_reads := rest, sl_handle := Some (pos + rd),
                sl_results := sl_results s @ [(take rd (drop pos (sl_file s)), 0 < rd)]\<rparr>))"

definition OnReadDone :: "bool \<Rightarrow> 'b list \<Rightarrow> bool \<Rightarrow> 'b stream_state \<Rightarrow> 'b stream_state" where
  "OnReadDone sendOk buf ok s0 =
    (let s = s0\<lparr>sl_inFlight := sl_inFlight s0 - 1\<rparr> in
     if sl_fini s then (if sl_inFlight s = 0 then DoClose s else s)
     else if \<not> ok \<or> \<not> sl_stream s then stream_Finish s
     else if \<not> sendOk then stream_Finish s
     else let s = s\<lparr>sl_remaining := sl_remaining s - length buf, sl_sent := sl_sent s + length buf,
                    sl_delivered := sl_delivered s @ buf\<rparr> in
       if sl_remaining s = 0 then stream_Finish s else s\<lparr>sl_timers := sl_timers s + 1\<rparr>)"

section \<open>Events\<close>

datatype stream_event =
    TimerFires "nat option" int      \<comment> \<open>bytes sent by the connection if it still exists, and the time\<close>
  | PoolReads nat                    \<comment> \<open>bytes the system is ready to give\<close>
  | ResultArrives bool               \<comment> \<open>whether the send is accepted\<close>

definition stream_step :: "stream_event \<Rightarrow> 'b stream_state \<Rightarrow> mem_error + 'b stream_state" where
  "stream_step e s =
    (case e of
       TimerFires conn now \<Rightarrow> Inr (if sl_timers s = 0 then s else stream_Next conn now (s\<lparr>sl_timers := sl_timers s - 1\<rparr>))
     | PoolReads got \<Rightarrow> ReadChunk got s
     | ResultArrives sendOk \<Rightarrow>
         (case sl_results s of
            [] \<Rightarrow> Inr s
          | (buf, ok) # rest \<Rightarrow> Inr (OnReadDone sendOk buf ok (s\<lparr>sl_results := rest\<rparr>))))"

section \<open>Invariant\<close>

text \<open>What has been delivered is the beginning of the piece of the file that was asked for.\<close>

definition sent_ok :: "'b stream_state \<Rightarrow> bool" where
  "sent_ok s \<longleftrightarrow> sl_sent s + sl_remaining s = sl_total s \<and> sl_sent s \<le> length (sl_file s) - sl_offset s
     \<and> sl_delivered s = take (sl_sent s) (drop (sl_offset s) (sl_file s))
     \<and> sl_inFlight s = length (sl_reads s) + length (sl_results s)"

definition over :: "'b stream_state \<Rightarrow> bool" where
  "over s \<longleftrightarrow> sl_fini s \<and> sl_closed s \<and> sl_timers s = 0 \<and> sl_reads s = [] \<and> sl_results s = [] \<and> sl_handle s = None
     \<and> \<not> sl_stream s \<and> sl_finished s = 1 \<and> sl_handleCloses s \<le> 1"

definition open_here :: "nat \<Rightarrow> 'b stream_state \<Rightarrow> bool" where
  "open_here n s \<longleftrightarrow> \<not> sl_fini s \<and> \<not> sl_closed s \<and> sl_stream s \<and> sl_finished s = 0 \<and> sl_handleCloses s = 0
     \<and> sl_handle s = Some (sl_offset s + sl_sent s + n)"

definition resting :: "'b stream_state \<Rightarrow> bool" where
  "resting s \<longleftrightarrow> open_here 0 s \<and> sl_reads s = [] \<and> sl_results s = []"

definition reading :: "'b stream_state \<Rightarrow> bool" where
  "reading s \<longleftrightarrow> open_here 0 s \<and> sl_timers s = 0 \<and> sl_results s = [] \<and> (\<exists>w. sl_reads s = [w] \<and> 0 < w \<and> w \<le> sl_remaining s)"

definition arrived :: "'b stream_state \<Rightarrow> bool" where
  "arrived s \<longleftrightarrow> sl_timers s = 0 \<and> sl_reads s = [] \<and>
     (\<exists>buf. sl_results s = [(buf, buf \<noteq> [])] \<and> open_here (length buf) s \<and> length buf \<le> sl_remaining s
        \<and> buf = take (length buf) (drop (sl_offset s + sl_sent s) (sl_file s)))"

definition stream_inv :: "'b stream_state \<Rightarrow> bool" where
  "stream_inv s \<longleftrightarrow> sent_ok s \<and> (over s \<or> resting s \<and> sl_timers s = 1 \<or> reading s \<or> arrived s)"

lemmas stream_phases = over_def resting_def reading_def arrived_def open_here_def

lemma Finish_over:
  "sent_ok s \<Longrightarrow> \<not> sl_fini s \<Longrightarrow> \<not> sl_closed s \<Longrightarrow> sl_inFlight s = 0 \<Longrightarrow> sl_timers s = 0 \<Longrightarrow> sl_finished s = 0 \<Longrightarrow>
    sl_handleCloses s = 0 \<Longrightarrow> stream_inv (stream_Finish s)"
  by (auto simp: stream_inv_def over_def sent_ok_def stream_Finish_def DoClose_def Let_def)

lemma submit_inv: "sent_ok s \<Longrightarrow> resting s \<Longrightarrow> sl_timers s = 0 \<Longrightarrow> sl_remaining s \<noteq> 0 \<Longrightarrow> stream_inv (submit_read s)"
  by (simp add: stream_inv_def sent_ok_def stream_phases submit_read_def Let_def)

lemma conn_check_keeps:
  assumes "conn_check sentNow now s = Some (s', wait)"
  shows "sent_ok s' = sent_ok s" "resting s' = resting s" "sl_timers s' = sl_timers s" "sl_remaining s' = sl_remaining s"
  using assms by (auto simp: conn_check_def Let_def sent_ok_def stream_phases split: if_split_asm)

lemma stream_wait_inv: "sent_ok s \<Longrightarrow> resting s \<Longrightarrow> sl_timers s = 0 \<Longrightarrow> stream_inv (s\<lparr>sl_idleMs := i, sl_timers := sl_timers s + 1\<rparr>)"
  by (simp add: stream_inv_def sent_ok_def stream_phases)

lemma Next_inv:
  assumes "sent_ok s" "resting s" "sl_timers s = 0"
  shows "stream_inv (stream_Next conn now s)"
proof -
  have fin: "stream_inv (stream_Finish s)"
    using assms by (intro Finish_over) (auto simp: resting_def open_here_def sent_ok_def)
  show ?thesis
  proof (cases "sl_remaining s = 0")
    case True
    then show ?thesis
      using assms fin by (simp add: stream_Next_def resting_def open_here_def)
  next
    case False
    have go: "stream_Next conn now s = (case conn of None \<Rightarrow> submit_read s | Some sentNow \<Rightarrow>
        (case conn_check sentNow now s of None \<Rightarrow> stream_Finish s | Some (s', wait) \<Rightarrow>
          if wait then s'\<lparr>sl_idleMs := (if sl_idleMs s' = 0 then 1 else min (sl_idleMs s' * 2) 250), sl_timers := sl_timers s' + 1\<rparr>
          else submit_read s'))"
      using assms(2) False by (simp add: stream_Next_def resting_def open_here_def)
    show ?thesis
    proof (cases conn)
      case None
      then show ?thesis
        using go submit_inv [OF assms False] by simp
    next
      case (Some sentNow)
      show ?thesis
      proof (cases "conn_check sentNow now s")
        case None
        then show ?thesis
          using go Some fin by simp
      next
        case (Some r)
        then obtain s' wait where r: "conn_check sentNow now s = Some (s', wait)"
          by (cases r) simp
        show ?thesis
          using go r \<open>conn = Some sentNow\<close> conn_check_keeps [OF r] assms False submit_inv [of s'] stream_wait_inv [of s'] by auto
      qed
    qed
  qed
qed

lemma Run_inv: "stream_inv (Run opened seeked conn now0 now (new_stream file off len chunk raw wm abort))"
proof -
  let ?s = "new_stream file off len chunk raw wm abort"
  have fin: "stream_inv (stream_Finish ?s)" "stream_inv (stream_Finish (?s\<lparr>sl_handle := h\<rparr>))" for h
    by (auto intro!: Finish_over simp: new_stream_def sent_ok_def)
  have "stream_inv (stream_Next conn now (?s\<lparr>sl_handle := Some off, sl_lastConnSent := b, sl_baseConnSent := b, sl_lastSentMs := now0\<rparr>))"
    "stream_inv (stream_Next conn now (?s\<lparr>sl_handle := Some off, sl_lastSentMs := now0\<rparr>))" for b
    by (intro Next_inv; simp add: new_stream_def sent_ok_def resting_def open_here_def)+
  with fin show ?thesis
    by (auto simp: Run_def Let_def new_stream_def split: option.split)
qed

lemma TimerFires_inv:
  assumes "stream_inv s" "sl_timers s \<noteq> 0"
  shows "stream_inv (stream_Next conn now (s\<lparr>sl_timers := sl_timers s - 1\<rparr>))"
  using assms by (intro Next_inv) (auto simp: stream_inv_def stream_phases sent_ok_def)

lemma ReadChunk_inv:
  assumes "stream_inv s" "sl_reads s \<noteq> []"
  shows "\<exists>s'. ReadChunk got s = Inr s' \<and> arrived s' \<and> sent_ok s' \<and> sl_remaining s' = sl_remaining s"
proof -
  obtain w where r: "reading s" "sl_reads s = [w]" "sl_handle s = Some (sl_offset s + sl_sent s)" "w \<le> sl_remaining s"
    using assms by (auto simp: stream_inv_def stream_phases)
  define rd where "rd = min got (min (w mod 2 ^ 32) (length (sl_file s) - (sl_offset s + sl_sent s)))"
  have "rd \<le> w" "rd \<le> length (sl_file s) - (sl_offset s + sl_sent s)"
    by (auto simp: rd_def min_def intro: le_trans [OF _ mod_less_eq_dividend])
  then show ?thesis
    using r assms by (auto simp: ReadChunk_def rd_def [symmetric] Let_def arrived_def reading_def open_here_def sent_ok_def
        stream_inv_def)
qed

lemma take_more:
  "buf = take (length buf) (drop (a + n) xs) \<Longrightarrow> take n (drop a xs) @ buf = take (n + length buf) (drop a xs)"
  by (metis add.commute drop_drop take_add)

lemma arrived_result:
  assumes "arrived s" "sent_ok s"
  shows "\<exists>buf. sl_results s = [(buf, buf \<noteq> [])] \<and> length buf \<le> sl_remaining s
    \<and> stream_inv (OnReadDone sendOk buf (buf \<noteq> []) (s\<lparr>sl_results := []\<rparr>))"
proof -
  obtain buf where b: "sl_results s = [(buf, buf \<noteq> [])]" "open_here (length buf) s" "length buf \<le> sl_remaining s"
      "buf = take (length buf) (drop (sl_offset s + sl_sent s) (sl_file s))" "sl_reads s = []" "sl_timers s = 0"
    using assms(1) by (auto simp: arrived_def)
  have len: "length buf \<le> length (sl_file s) - (sl_offset s + sl_sent s)"
    using b(4) by (metis length_drop length_take min.cobounded1)
  let ?s = "s\<lparr>sl_results := [], sl_inFlight := sl_inFlight s - 1\<rparr>"
  have fin: "stream_inv (stream_Finish ?s)"
    using assms(2) b by (intro Finish_over) (auto simp: sent_ok_def open_here_def)
  let ?t = "?s\<lparr>sl_remaining := sl_remaining s - length buf, sl_sent := sl_sent s + length buf, sl_delivered := sl_delivered s @ buf\<rparr>"
  have t: "sent_ok ?t"
    using assms(2) b len take_more [OF b(4)] by (auto simp: sent_ok_def)
  have "stream_inv (stream_Finish ?t)"
    using t b(2,5,6) by (intro Finish_over) (auto simp: sent_ok_def open_here_def)
  moreover have "stream_inv (?t\<lparr>sl_timers := sl_timers ?t + 1\<rparr>)"
    using t b(2,5,6) by (auto simp: stream_inv_def sent_ok_def resting_def open_here_def)
  ultimately show ?thesis
    using fin b by (intro exI [of _ buf]) (auto simp: OnReadDone_def Let_def open_here_def)
qed

lemma stream_step_inv:
  assumes "stream_inv s"
  shows "\<exists>s'. stream_step e s = Inr s' \<and> stream_inv s'"
proof (cases e)
  case (TimerFires conn now)
  then show ?thesis
    using assms TimerFires_inv by (auto simp: stream_step_def)
next
  case (PoolReads got)
  then show ?thesis
    using assms ReadChunk_inv [OF assms]
    by (cases "sl_reads s = []") (fastforce simp: stream_step_def ReadChunk_def stream_inv_def)+
next
  case (ResultArrives sendOk)
  show ?thesis
  proof (cases "sl_results s")
    case Nil
    then show ?thesis
      using assms ResultArrives by (simp add: stream_step_def)
  next
    case (Cons r rs)
    then have "arrived s" "sent_ok s"
      using assms by (auto simp: stream_inv_def stream_phases)
    then show ?thesis
      using ResultArrives arrived_result [of s sendOk] by (auto simp: stream_step_def)
  qed
qed

text \<open>The piece of the file that was asked for does not change.\<close>

definition job :: "'b stream_state \<Rightarrow> 'b list \<times> nat \<times> nat" where
  "job s = (sl_file s, sl_offset s, sl_total s)"

lemma job_simps [simp]:
  "job (s\<lparr>sl_timers := a\<rparr>) = job s" "job (s\<lparr>sl_results := r\<rparr>) = job s" "job (s\<lparr>sl_inFlight := a\<rparr>) = job s"
  "job (s\<lparr>sl_remaining := a, sl_sent := b, sl_delivered := d\<rparr>) = job s" "job (s\<lparr>sl_handle := h\<rparr>) = job s"
  "job (s\<lparr>sl_idleMs := i, sl_timers := a\<rparr>) = job s" "job (s\<lparr>sl_lastSentMs := i\<rparr>) = job s"
  "job (s\<lparr>sl_idleMs := i\<rparr>) = job s"
  "job (s\<lparr>sl_lastConnSent := a, sl_baseConnSent := b\<rparr>) = job s"
  by (simp_all add: job_def)

lemma job_ops [simp]: "job (DoClose s) = job s" "job (stream_Finish s) = job s" "job (submit_read s) = job s"
  by (simp_all add: job_def DoClose_def stream_Finish_def submit_read_def Let_def)

lemma job_conn_check: "conn_check b now s = Some (s', w) \<Longrightarrow> job s' = job s"
  by (auto simp: job_def conn_check_def Let_def split: if_split_asm)

lemma job_Next [simp]: "job (stream_Next conn now s) = job s"
  by (auto simp: stream_Next_def dest!: job_conn_check split: option.split)

lemma job_OnReadDone [simp]: "job (OnReadDone k buf ok s) = job s"
  by (simp add: OnReadDone_def Let_def)

lemma job_step: "stream_step e s = Inr s' \<Longrightarrow> job s' = job s"
proof (cases e)
  case (PoolReads got)
  assume "stream_step e s = Inr s'"
  then show ?thesis
    using PoolReads by (auto simp: stream_step_def ReadChunk_def job_def Let_def split: list.split_asm option.split_asm)
qed (auto simp: stream_step_def split: list.split_asm if_split_asm)

lemma job_Run: "job (Run opened seeked conn now0 now s) = job s"
  unfolding Run_def Let_def by (simp del: stream_state.update_convs split: option.split)

interpretation stream_sys: total_system "\<lambda>s. stream_inv s \<and> job s = j" "\<lambda>_. True" stream_step for j
proof unfold_locales
  fix s e s'
  assume "stream_inv s \<and> job s = j" "stream_step e s = Inr s'"
  then show "stream_inv s' \<and> job s' = j"
    using stream_step_inv [of s e] job_step [of e s s'] by auto
next
  fix s :: "'a stream_state" and e
  assume "stream_inv s \<and> job s = j"
  then show "\<exists>s'. stream_step e s = Inr s'"
    using stream_step_inv [of s e] by blast
qed

text \<open>C17: the sending machine, under every interleaving of its timers, the reads of the pool and their results, and whatever
  the system answers, never reads from a closed file; it has sent exactly the beginning of the requested piece of the
  file; at most one block is in memory; as long as it is not closed exactly one thing is under way, and once it is closed
  nothing is, the file has been closed at most once and \<open>onFinish\<close> been called once.\<close>
theorem stream_exact:
  "\<exists>s. run_steps stream_step es (Run opened seeked conn now0 now (new_stream file off len chunk raw wm abort)) = Inr s
    \<and> sl_delivered s = take (len - sl_remaining s) (drop off file) \<and> sl_remaining s \<le> len
    \<and> sl_timers s + length (sl_reads s) + length (sl_results s) = (if sl_closed s then 0 else 1)
    \<and> sl_finished s = (if sl_closed s then 1 else 0) \<and> sl_handleCloses s \<le> 1"
proof -
  let ?s0 = "Run opened seeked conn now0 now (new_stream file off len chunk raw wm abort)"
  have "stream_inv ?s0 \<and> job ?s0 = (file, off, len)"
    by (simp add: Run_inv job_Run) (simp add: job_def new_stream_def)
  then obtain s where s: "run_steps stream_step es ?s0 = Inr s" "stream_inv s" "job s = (file, off, len)"
    using stream_sys.run_total [of ?s0 "(file, off, len)" es] by auto
  then have "sl_delivered s = take (len - sl_remaining s) (drop off file)" "sl_remaining s \<le> len"
    by (auto simp: stream_inv_def sent_ok_def job_def)
  then show ?thesis
    using s by (intro exI [of _ s]) (auto simp: stream_inv_def stream_phases)
qed

section \<open>Progress\<close>

definition effective :: "stream_event \<Rightarrow> 'b stream_state \<Rightarrow> bool" where
  "effective e s =
    (case e of TimerFires conn now \<Rightarrow> sl_timers s \<noteq> 0 | PoolReads got \<Rightarrow> sl_reads s \<noteq> [] | ResultArrives k \<Rightarrow> sl_results s \<noteq> [])"

text \<open>A timer that finds the peer behind the water mark sets the next timer and does nothing else.\<close>

definition waits :: "stream_event \<Rightarrow> 'b stream_state \<Rightarrow> bool" where
  "waits e s = (case (e, stream_step e s) of (TimerFires conn now, Inr s') \<Rightarrow> sl_timers s' \<noteq> 0 | _ \<Rightarrow> False)"

fun busy_steps :: "stream_event list \<Rightarrow> 'b stream_state \<Rightarrow> nat" where
  "busy_steps [] s = 0"
| "busy_steps (e # es) s =
    (case stream_step e s of Inl x \<Rightarrow> 0 | Inr s' \<Rightarrow> (if effective e s \<and> \<not> waits e s then 1 else 0) + busy_steps es s')"

definition stream_potential :: "'b stream_state \<Rightarrow> nat" where
  "stream_potential s = (if sl_closed s then 0 else 3 * sl_remaining s +
     (if sl_timers s \<noteq> 0 then 3 else if sl_reads s \<noteq> [] then 2 else 1))"

lemma remaining_Next: "sl_remaining (stream_Next conn now s) = sl_remaining s"
  by (auto simp: stream_Next_def stream_Finish_def DoClose_def submit_read_def Let_def dest!: conn_check_keeps(4) split: option.split)

lemma timer_potential:
  assumes "stream_inv s" "sl_timers s \<noteq> 0"
  shows "stream_potential (stream_Next conn now (s\<lparr>sl_timers := sl_timers s - 1\<rparr>)) +
      (if sl_timers (stream_Next conn now (s\<lparr>sl_timers := sl_timers s - 1\<rparr>)) = 0 then 1 else 0) \<le> stream_potential s"
proof -
  let ?n = "stream_Next conn now (s\<lparr>sl_timers := sl_timers s - 1\<rparr>)"
  have "sl_remaining ?n = sl_remaining s" "\<not> sl_closed s"
    using assms by (auto simp: remaining_Next stream_inv_def stream_phases)
  then show ?thesis
    using assms(2) by (simp add: stream_potential_def)
qed

lemma result_potential:
  assumes "arrived s" "sent_ok s" "sl_results s = [(buf, buf \<noteq> [])]"
  shows "stream_potential (OnReadDone k buf (buf \<noteq> []) (s\<lparr>sl_results := []\<rparr>)) < stream_potential s"
proof -
  obtain l where "length buf \<le> sl_remaining s" "\<not> sl_fini s" "\<not> sl_closed s" "sl_stream s" "sl_timers s = 0" "sl_reads s = []"
      "sl_inFlight s = 1"
    using assms by (auto simp: arrived_def open_here_def sent_ok_def)
  then show ?thesis
    using assms(3) by (cases buf) (auto simp: OnReadDone_def stream_Finish_def DoClose_def Let_def stream_potential_def)
qed

lemma step_potential:
  assumes "stream_inv s" "stream_step e s = Inr s'"
  shows "stream_potential s' + (if effective e s \<and> \<not> waits e s then 1 else 0) \<le> stream_potential s"
proof (cases e)
  case (TimerFires conn now)
  show ?thesis
  proof (cases "sl_timers s = 0")
    case True
    then show ?thesis
      using assms(2) TimerFires by (simp add: stream_step_def effective_def)
  next
    case False
    then show ?thesis
      using timer_potential [OF assms(1) False, of conn now] assms(2) TimerFires
      by (auto simp: stream_step_def effective_def waits_def)
  qed
next
  case (PoolReads got)
  show ?thesis
  proof (cases "sl_reads s = []")
    case True
    then show ?thesis
      using assms(2) PoolReads by (simp add: stream_step_def effective_def ReadChunk_def)
  next
    case False
    then have s': "arrived s'" "sl_remaining s' = sl_remaining s" "reading s"
      using ReadChunk_inv [OF assms(1) False, of got] assms PoolReads by (auto simp: stream_step_def stream_inv_def stream_phases)
    then show ?thesis
      by (auto simp: stream_potential_def stream_phases)
  qed
next
  case (ResultArrives k)
  show ?thesis
  proof (cases "sl_results s")
    case Nil
    then show ?thesis
      using assms(2) ResultArrives by (simp add: stream_step_def effective_def)
  next
    case (Cons r rs)
    then have a: "arrived s" "sent_ok s"
      using assms(1) by (auto simp: stream_inv_def stream_phases)
    then obtain buf where b: "sl_results s = [(buf, buf \<noteq> [])]"
      using arrived_result [of s] by blast
    then show ?thesis
      using result_potential [OF a b, of k] assms(2) ResultArrives by (simp add: stream_step_def)
  qed
qed

lemma busy_potential: "stream_inv s \<Longrightarrow> busy_steps es s \<le> stream_potential s"
proof (induction es arbitrary: s)
  case (Cons e es)
  obtain s' where s': "stream_step e s = Inr s'" "stream_inv s'"
    using stream_step_inv [OF Cons.prems] by blast
  then show ?case
    using Cons.IH [OF s'(2)] step_potential [OF Cons.prems s'(1)] by (simp split: if_split_asm)
qed simp

text \<open>Sending ends.  Whatever the system answers, at most three steps per byte and three more are made, not counting
  the timers at which a slow peer is waited for.\<close>
theorem stream_terminates:
  "busy_steps es (Run opened seeked conn now0 now (new_stream file off len chunk raw wm abort)) \<le> 3 * len + 3"
proof -
  let ?s0 = "Run opened seeked conn now0 now (new_stream file off len chunk raw wm abort)"
  have inv: "stream_inv ?s0" and j: "job ?s0 = (file, off, len)"
    by (simp_all add: Run_inv job_Run) (simp add: job_def new_stream_def)
  have "sl_remaining ?s0 \<le> len"
    using inv j by (auto simp: stream_inv_def sent_ok_def job_def)
  then have "stream_potential ?s0 \<le> 3 * len + 3"
    by (simp add: stream_potential_def)
  then show ?thesis
    using busy_potential [OF inv, of es] by (rule order.trans [rotated])
qed

section \<open>Delivery\<close>

text \<open>A world that goes along: reads give something, sends are accepted, and a timer that finds the connection does not find
  that it has sent nothing for longer than the limit; the connection may be slow, so that the stream waits at the water
  mark.\<close>

definition goes_along :: "stream_event \<Rightarrow> 'b stream_state \<Rightarrow> bool" where
  "goes_along e s \<longleftrightarrow>
    (case e of
       TimerFires conn now \<Rightarrow> (case conn of None \<Rightarrow> True | Some sentNow \<Rightarrow> \<not> (sentNow = sl_lastConnSent s \<and> sl_abortMs s < now - sl_lastSentMs s))
     | PoolReads got \<Rightarrow> 0 < got
     | ResultArrives k \<Rightarrow> k)"

fun all_goes_along :: "stream_event list \<Rightarrow> 'b stream_state \<Rightarrow> bool" where
  "all_goes_along [] s = True"
| "all_goes_along (e # es) s =
    (goes_along e s \<and> (case stream_step e s of Inl x \<Rightarrow> True | Inr s' \<Rightarrow> all_goes_along es s'))"

definition healthy :: "'b stream_state \<Rightarrow> bool" where
  "healthy s \<longleftrightarrow> sl_offset s + sl_total s \<le> length (sl_file s) \<and> sl_chunkSize s < 2 ^ 32
     \<and> (sl_closed s \<longrightarrow> sl_remaining s = 0) \<and> list_all (\<lambda>w. w < 2 ^ 32) (sl_reads s) \<and> list_all snd (sl_results s)"

lemma healthy_submit:
  assumes "healthy s" "\<not> sl_closed s"
  shows "healthy (submit_read s)"
proof -
  have "min (sl_remaining s) (if sl_chunkSize s \<noteq> 0 then sl_chunkSize s else 1) < 2 ^ 32"
    using assms(1) by (auto simp: healthy_def min_def)
  then show ?thesis
    using assms by (simp add: healthy_def submit_read_def Let_def)
qed

lemma healthy_Finish: "healthy s \<Longrightarrow> sl_remaining s = 0 \<Longrightarrow> healthy (stream_Finish s)"
  by (auto simp: healthy_def stream_Finish_def DoClose_def Let_def)

lemma healthy_conn_check:
  "conn_check sentNow now s = Some (s', wait) \<Longrightarrow> healthy s' = healthy s \<and> sl_closed s' = sl_closed s"
  by (auto simp: conn_check_def Let_def healthy_def split: if_split_asm)

lemma healthy_Next:
  assumes "healthy s" "sl_stream s" "\<not> sl_closed s" "goes_along (TimerFires conn now) s"
  shows "healthy (stream_Next conn now s)"
proof (cases conn)
  case None
  then show ?thesis
    using assms healthy_submit healthy_Finish by (auto simp: stream_Next_def)
next
  case (Some sentNow)
  then obtain s' wait where c: "conn_check sentNow now s = Some (s', wait)"
    using assms(4) by (simp add: goes_along_def conn_check_def Let_def)
  then have "healthy s'" "\<not> sl_closed s'"
    using healthy_conn_check [OF c] assms(1,3) by simp_all
  then show ?thesis
    using assms(1-3) Some c healthy_submit [of s'] healthy_Finish [of s]
    by (auto simp: stream_Next_def healthy_def [of "s'\<lparr>sl_idleMs := i, sl_timers := t\<rparr>" for i t]) (auto simp: healthy_def)
qed

lemma healthy_read:
  assumes "stream_inv s" "healthy s" "sl_reads s \<noteq> []" "0 < got" "ReadChunk got s = Inr s'"
  shows "healthy s'"
proof -
  obtain w where r: "sl_reads s = [w]" "sl_results s = []" "0 < w" "w \<le> sl_remaining s" "sl_handle s = Some (sl_offset s + sl_sent s)"
      "sl_sent s + sl_remaining s = sl_total s" "\<not> sl_closed s"
    using assms(1,3) by (auto simp: stream_inv_def stream_phases sent_ok_def)
  moreover have "w mod 2 ^ 32 = w"
    using assms(2) r(1) by (simp add: healthy_def)
  moreover have "0 < length (sl_file s) - (sl_offset s + sl_sent s)"
    using assms(2) r by (simp add: healthy_def)
  ultimately show ?thesis
    using assms(2,4,5) by (auto simp: ReadChunk_def Let_def healthy_def)
qed

lemma healthy_result:
  assumes "arrived s" "sent_ok s" "healthy s" "sl_results s = [(buf, buf \<noteq> [])]"
  shows "healthy (OnReadDone True buf (buf \<noteq> []) (s\<lparr>sl_results := []\<rparr>))"
proof -
  have f: "buf \<noteq> []" "\<not> sl_fini s" "\<not> sl_closed s" "sl_stream s"
    using assms by (auto simp: healthy_def arrived_def open_here_def)
  let ?t = "s\<lparr>sl_results := [], sl_inFlight := sl_inFlight s - 1, sl_remaining := sl_remaining s - length buf,
      sl_sent := sl_sent s + length buf, sl_delivered := sl_delivered s @ buf\<rparr>"
  have "healthy ?t" "healthy (?t\<lparr>sl_timers := sl_timers ?t + 1\<rparr>)"
    using assms(3) f by (simp_all add: healthy_def)
  then show ?thesis
    using f healthy_Finish [of ?t] by (simp add: OnReadDone_def Let_def)
qed

lemma healthy_step:
  assumes "stream_inv s" "healthy s" "goes_along e s" "stream_step e s = Inr s'"
  shows "healthy s'"
proof (cases e)
  case (TimerFires conn now)
  have "sl_timers s \<noteq> 0 \<Longrightarrow> sl_stream s \<and> \<not> sl_closed s"
    using assms(1) by (auto simp: stream_inv_def stream_phases)
  moreover have "healthy (s\<lparr>sl_timers := n\<rparr>)" "goes_along e (s\<lparr>sl_timers := n\<rparr>)" for n
    using assms(2,3) by (simp_all add: healthy_def goes_along_def split: stream_event.splits option.splits)
  ultimately show ?thesis
    using assms(2-4) TimerFires by (auto simp: stream_step_def intro!: healthy_Next split: if_split_asm)
next
  case (PoolReads got)
  then show ?thesis
    using assms healthy_read by (cases "sl_reads s = []") (auto simp: stream_step_def goes_along_def ReadChunk_def)
next
  case (ResultArrives k)
  show ?thesis
  proof (cases "sl_results s")
    case Nil
    then show ?thesis
      using assms ResultArrives by (simp add: stream_step_def)
  next
    case (Cons r rs)
    then have a: "arrived s" "sent_ok s"
      using assms(1) by (auto simp: stream_inv_def stream_phases)
    then obtain buf where b: "sl_results s = [(buf, buf \<noteq> [])]"
      using arrived_result [of s] by blast
    then show ?thesis
      using healthy_result [OF a assms(2) b] assms(3,4) ResultArrives by (simp add: stream_step_def goes_along_def)
  qed
qed

lemma healthy_run:
  "stream_inv s \<Longrightarrow> job s = j \<Longrightarrow> healthy s \<Longrightarrow> all_goes_along es s
    \<Longrightarrow> \<exists>t. run_steps stream_step es s = Inr t \<and> stream_inv t \<and> job t = j \<and> healthy t"
proof (induction es arbitrary: s)
  case (Cons e es)
  obtain t where t: "stream_step e s = Inr t" "stream_inv t"
    using stream_step_inv [OF Cons(2)] by blast
  have "job t = j" "healthy t" "all_goes_along es t"
    using job_step [OF t(1)] healthy_step [OF Cons(2,4) _ t(1)] Cons(3,5) t(1) by simp_all
  then show ?case
    using Cons(1) [OF t(2)] t(1) by simp
qed simp

lemma healthy_Run:
  assumes "off + len \<le> length file" "chunk < 2 ^ 32" "now - now0 \<le> abort"
  shows "healthy (Run True True conn now0 now (new_stream file off len chunk raw wm abort))"
proof -
  let ?s = "new_stream file off len chunk raw wm abort"
  have "healthy (stream_Next conn now (?s\<lparr>sl_handle := Some off, sl_lastConnSent := b, sl_baseConnSent := b, sl_lastSentMs := now0\<rparr>))"
    "healthy (stream_Next None now (?s\<lparr>sl_handle := Some off, sl_lastSentMs := now0\<rparr>))" for b
    using assms by (intro healthy_Next; auto simp: healthy_def new_stream_def goes_along_def split: option.split)+
  then show ?thesis
    by (auto simp: Run_def Let_def new_stream_def split: option.split)
qed



text \<open>The number of bytes wanted is cut to 32 bits: with blocks of 4 GB (possible on a large file, the option is a
  \<open>size_t\<close>) the system is asked for nothing, which counts as the end of the file.\<close>
lemma stream_4GB_blocks_send_nothing:
  "\<exists>s. run_steps stream_step [PoolReads got, ResultArrives True]
      (Run True True None now now (new_stream file 0 (2 ^ 32 + len) (2 ^ 32) raw wm abort)) = Inr s
    \<and> sl_closed s \<and> sl_delivered s = [] \<and> sl_remaining s = 2 ^ 32 + len"
  by (simp add: stream_step_def Run_def stream_Next_def new_stream_def submit_read_def ReadChunk_def OnReadDone_def
      stream_Finish_def DoClose_def Let_def)

end
