(* ===== verification/RateLimit.thy ===== *)
theory RateLimit
  imports HttpFile Complex_Main
begin

text \<open>
  Rate limiting of \<open>net/zm_net_http_server.cpp\<close>: the process wide rules by address (\<open>OverlayWrite\<close> and the functions
  over it), the buckets of an instance of \<open>ZmIpRateLimiter\<close> with their LRU order (\<open>BucketFor\<close>), and the decision
  \<open>Check\<close>.

  drogon's limiter is a parameter: \<open>mk\<close> builds one from algorithm, capacity and time unit, \<open>allow\<close> is \<open>isAllowed\<close> with
  the limiter it leaves behind.  A quota slot is shared by pointer, so slots live in a store and a rule holds the number
  of its slot.  An iterator into the LRU list is the element it points to; the list never holds an address twice.  A
  call of \<open>Check\<close> is one step: the limiter it has taken stays its own even if another thread evicts it.
\<close>

section \<open>Rules\<close>

datatype limiter_type = FixedWindow | SlidingWindow | TokenBucket

datatype rule_kind = RuleNone | Blocked | Allowed | Quota

record overlay_rule =
  or_kind :: rule_kind
  or_capacity :: nat
  or_timeSec :: rat
  or_quota :: "nat option"

record 'l quota_slot =
  qs_cap :: nat
  qs_timeSec :: rat
  qs_lim :: "'l option"

record 'l overlay =
  ov_rules :: "string \<rightharpoonup> overlay_rule"
  ov_slots :: "'l quota_slot list"

definition put_rule :: "string \<Rightarrow> overlay_rule \<Rightarrow> 'l overlay \<Rightarrow> 'l overlay" where
  "put_rule ip rule ov = ov\<lparr>ov_rules := (ov_rules ov)(ip \<mapsto> rule)\<rparr>"

definition new_slot :: "nat \<Rightarrow> rat \<Rightarrow> 'l overlay \<Rightarrow> 'l overlay" where
  "new_slot capacity timeSec ov = ov\<lparr>ov_slots := ov_slots ov @ [\<lparr>qs_cap = capacity, qs_timeSec = timeSec, qs_lim = None\<rparr>]\<rparr>"

definition kept_slot :: "nat \<Rightarrow> rat \<Rightarrow> overlay_rule option \<Rightarrow> nat option" where
  "kept_slot capacity timeSec old =
    (case old of
       Some r \<Rightarrow> if or_kind r = Quota \<and> or_capacity r = capacity \<and> or_timeSec r = timeSec then or_quota r else None
     | None \<Rightarrow> None)"

definition OverlayWrite :: "string \<Rightarrow> rule_kind \<Rightarrow> nat \<Rightarrow> rat \<Rightarrow> 'l overlay \<Rightarrow> 'l overlay" where
  "OverlayWrite ip kind capacity timeSec ov =
    (if kind = RuleNone then ov\<lparr>ov_rules := (ov_rules ov)(ip := None)\<rparr>
     else let rule = \<lparr>or_kind = kind, or_capacity = capacity, or_timeSec = timeSec, or_quota = None\<rparr> in
       if kind = Quota then
         (case kept_slot capacity timeSec (ov_rules ov ip) of
            Some k \<Rightarrow> put_rule ip (rule\<lparr>or_quota := Some k\<rparr>) ov
          | None \<Rightarrow> put_rule ip (rule\<lparr>or_quota := Some (length (ov_slots ov))\<rparr>) (new_slot capacity timeSec ov))
       else put_rule ip rule ov)"

definition SetIpBlocked :: "string \<Rightarrow> 'l overlay \<Rightarrow> 'l overlay" where
  "SetIpBlocked ip = OverlayWrite ip Blocked 0 0"

definition UnblockIp :: "string \<Rightarrow> 'l overlay \<Rightarrow> 'l overlay" where
  "UnblockIp ip = OverlayWrite ip RuleNone 0 0"

definition SetIpQuota :: "string \<Rightarrow> nat \<Rightarrow> rat \<Rightarrow> 'l overlay \<Rightarrow> 'l overlay" where
  "SetIpQuota ip capacity timeUnitSec = OverlayWrite ip Quota capacity timeUnitSec"

definition SetIpAllowed :: "string \<Rightarrow> 'l overlay \<Rightarrow> 'l overlay" where
  "SetIpAllowed ip = OverlayWrite ip Allowed 0 0"

definition RemoveRateRule :: "string \<Rightarrow> 'l overlay \<Rightarrow> 'l overlay" where
  "RemoveRateRule ip = OverlayWrite ip RuleNone 0 0"

definition IsRateRuleHit :: "string \<Rightarrow> 'l overlay \<Rightarrow> bool" where
  "IsRateRuleHit ip ov \<longleftrightarrow> ov_rules ov ip \<noteq> None"

text \<open>\<open>ZmQuotaSlot::Get\<close>: the limiter of the slot, built by the first caller with its algorithm.\<close>

definition slot_Get :: "(limiter_type \<Rightarrow> nat \<Rightarrow> rat \<Rightarrow> 'l) \<Rightarrow> limiter_type \<Rightarrow> 'l quota_slot \<Rightarrow> 'l" where
  "slot_Get mk t q = (case qs_lim q of Some l \<Rightarrow> l | None \<Rightarrow> mk t (qs_cap q) (qs_timeSec q))"

section \<open>Buckets\<close>

record 'l rate_limiter =
  rl_type :: limiter_type
  rl_cap :: nat
  rl_timeSec :: rat
  rl_maxEntries :: nat
  rl_buckets :: "(string \<times> 'l) list"
  rl_lru :: "string list"          \<comment> \<open>least recently used first\<close>

definition Create :: "limiter_type \<Rightarrow> nat \<Rightarrow> rat \<Rightarrow> nat \<Rightarrow> 'l rate_limiter" where
  "Create t capacity timeUnitSec maxEntries =
    \<lparr>rl_type = t, rl_cap = capacity, rl_timeSec = timeUnitSec, rl_maxEntries = (if 0 < maxEntries then maxEntries else 1),
     rl_buckets = [], rl_lru = []\<rparr>"

fun evict :: "string list \<Rightarrow> (string \<times> 'l) list \<Rightarrow> string list \<times> (string \<times> 'l) list" where
  "evict [] bs = ([], bs)"
| "evict (old # lru) bs =
    (if old \<in> fst ` set bs then (lru, filter (\<lambda>b. fst b \<noteq> old) bs) else evict lru bs)"

definition BucketFor :: "(limiter_type \<Rightarrow> nat \<Rightarrow> rat \<Rightarrow> 'l) \<Rightarrow> string \<Rightarrow> 'l rate_limiter \<Rightarrow> 'l \<times> 'l rate_limiter" where
  "BucketFor mk ip r =
    (case map_of (rl_buckets r) ip of
       Some l \<Rightarrow> (l, if ip \<in> set (rl_lru r) then r\<lparr>rl_lru := remove1 ip (rl_lru r) @ [ip]\<rparr> else r)
     | None \<Rightarrow>
         let (lru, bs) = (if rl_maxEntries r \<le> length (rl_buckets r) then evict (rl_lru r) (rl_buckets r)
                          else (rl_lru r, rl_buckets r));
             l = mk (rl_type r) (rl_cap r) (rl_timeSec r) in
         (l, r\<lparr>rl_buckets := bs @ [(ip, l)], rl_lru := lru @ [ip]\<rparr>))"

definition store_bucket :: "string \<Rightarrow> 'l \<Rightarrow> 'l rate_limiter \<Rightarrow> 'l rate_limiter" where
  "store_bucket ip l r = r\<lparr>rl_buckets := map (\<lambda>b. if fst b = ip then (ip, l) else b) (rl_buckets r)\<rparr>"

section \<open>The decision\<close>

definition FirstForwardedFor :: "string \<Rightarrow> string" where
  "FirstForwardedFor xff =
    (let first = trim_ws (takeWhile (\<lambda>c. c \<noteq> CHR '','') xff) in
     if 64 < length first \<or> \<not> list_all (\<lambda>c. is_alnum_char c \<or> c = CHR ''.'' \<or> c = CHR '':'') first then [] else first)"

definition limited :: "rat \<Rightarrow> response" where
  "limited timeSec = (ErrorResponse 429 ''rate limited'')
    \<lparr>rs_headers := [(''Retry-After'', int_to_string (if 0 < timeSec then \<lceil>timeSec\<rceil> else 60))]\<rparr>"

definition rate_key :: "bool \<Rightarrow> string \<Rightarrow> string \<Rightarrow> string" where
  "rate_key trustProxy xff peer =
    (let ip = (if trustProxy then FirstForwardedFor xff else []) in if ip = [] then peer else ip)"

definition check_bucket ::
  "(limiter_type \<Rightarrow> nat \<Rightarrow> rat \<Rightarrow> 'l) \<Rightarrow> ('l \<Rightarrow> bool \<times> 'l) \<Rightarrow> string \<Rightarrow> 'l rate_limiter \<Rightarrow> response option \<times> 'l rate_limiter" where
  "check_bucket mk allow ip r =
    (case BucketFor mk ip r of (l, r1) \<Rightarrow>
       (case allow l of (ok, l') \<Rightarrow> (if ok then None else Some (limited (rl_timeSec r)), store_bucket ip l' r1)))"

text \<open>\<open>None\<close> lets the request through; \<open>Some\<close> is the answer that refuses it.\<close>

definition Check ::
  "(limiter_type \<Rightarrow> nat \<Rightarrow> rat \<Rightarrow> 'l) \<Rightarrow> ('l \<Rightarrow> bool \<times> 'l) \<Rightarrow> string \<Rightarrow> 'l overlay \<Rightarrow> 'l rate_limiter
     \<Rightarrow> mem_error + response option \<times> 'l overlay \<times> 'l rate_limiter" where
  "Check mk allow ip ov r =
    (if ip = [] then Inr (None, ov, r)
     else case ov_rules ov ip of
       Some rule \<Rightarrow>
         (case or_kind rule of
            Blocked \<Rightarrow> Inr (Some (limited (rl_timeSec r)), ov, r)
          | Allowed \<Rightarrow> Inr (None, ov, r)
          | Quota \<Rightarrow>
              (case or_quota rule of
                 None \<Rightarrow> Inl NullPointer
               | Some k \<Rightarrow>
                   if length (ov_slots ov) \<le> k then Inl OutOfBounds
                   else case allow (slot_Get mk (rl_type r) (ov_slots ov ! k)) of (ok, l) \<Rightarrow>
                      Inr (if ok then None else Some (limited (or_timeSec rule)),
                       ov\<lparr>ov_slots := (ov_slots ov)[k := (ov_slots ov ! k)\<lparr>qs_lim := Some l\<rparr>]\<rparr>, r))
          | RuleNone \<Rightarrow> (case check_bucket mk allow ip r of (a, r') \<Rightarrow> Inr (a, ov, r')))
     | None \<Rightarrow> (case check_bucket mk allow ip r of (a, r') \<Rightarrow> Inr (a, ov, r')))"

section \<open>The LRU order\<close>

text \<open>The last \<open>n\<close> elements, and the addresses in the order of their last use.\<close>

definition lastn :: "nat \<Rightarrow> 'a list \<Rightarrow> 'a list" where
  "lastn n xs = drop (length xs - n) xs"

lemma remdups_snoc: "remdups (xs @ [x]) = removeAll x (remdups xs) @ [x]"
  by (induction xs) auto

lemma lastn_append: "n \<le> length ys \<Longrightarrow> lastn n (xs @ ys) = lastn n ys"
  by (simp add: lastn_def)

lemma lastn_all: "length xs \<le> n \<Longrightarrow> lastn n xs = xs"
  by (simp add: lastn_def)

lemma length_lastn: "length (lastn n xs) = min n (length xs)"
  by (simp add: lastn_def)

lemma lastn_split: "xs = take (length xs - n) xs @ lastn n xs"
  by (simp add: lastn_def)

lemma lastn_snoc_tl: "length ys = n \<Longrightarrow> n \<noteq> 0 \<Longrightarrow> lastn n (xs @ ys @ [x]) = tl ys @ [x]"
  by (cases ys) (simp_all add: lastn_def)

lemma removeAll_distinct: "distinct xs \<Longrightarrow> removeAll x xs = remove1 x xs"
  by (simp add: distinct_remove1_removeAll)

lemma lru_touch:
  assumes "0 < n"
  shows "lastn n (remdups (xs @ [x])) =
    (if x \<in> set (lastn n (remdups xs)) then remove1 x (lastn n (remdups xs))
     else if length (lastn n (remdups xs)) = n then tl (lastn n (remdups xs)) else lastn n (remdups xs)) @ [x]"
proof -
  define R L A where "R = remdups xs" and "L = lastn n R" and "A = take (length R - n) R"
  have R: "R = A @ L" "distinct R"
    using lastn_split [of R n] by (simp_all add: A_def L_def R_def)
  have small: "A = []" if "length L \<noteq> n"
    using that length_lastn [of n R] by (simp add: A_def L_def min_def split: if_split_asm)
  show ?thesis
  proof (cases "x \<in> set L")
    case True
    then have "x \<notin> set A"
      using R by auto
    then have "removeAll x R @ [x] = A @ (remove1 x L @ [x])"
      using R True by (simp add: removeAll_distinct)
    moreover have "length (remove1 x L @ [x]) = length L"
      using True length_pos_if_in_set [OF True] by (simp add: length_remove1)
    moreover have "length L = n \<or> A = []" "length L \<le> n"
      using small length_lastn [of n R] by (auto simp: L_def)
    ultimately have "lastn n (removeAll x R @ [x]) = remove1 x L @ [x]"
      by (metis append_Nil lastn_all lastn_append le_refl)
    then show ?thesis
      using True by (simp add: remdups_snoc R_def [symmetric] L_def [symmetric])
  next
    case False
    then have *: "removeAll x R @ [x] = removeAll x A @ L @ [x]"
      using R by simp
    show ?thesis
    proof (cases "length L = n")
      case True
      then have "lastn n (removeAll x R @ [x]) = tl L @ [x]"
        using * assms by (simp add: lastn_snoc_tl)
      then show ?thesis
        using True False by (simp add: remdups_snoc R_def [symmetric] L_def [symmetric])
    next
      case shorter: False
      then have "length (L @ [x]) \<le> n"
        using length_lastn [of n R] by (simp add: L_def)
      then have "lastn n (removeAll x R @ [x]) = L @ [x]"
        using * small [OF shorter] by (simp add: lastn_all)
      then show ?thesis
        using shorter False by (simp add: remdups_snoc R_def [symmetric] L_def [symmetric])
    qed
  qed
qed

text \<open>The bucket table and the recency list hold the same addresses, each once, and the list is in the order of use.\<close>

definition lru_inv :: "string list \<Rightarrow> 'l rate_limiter \<Rightarrow> bool" where
  "lru_inv ips r \<longleftrightarrow> 0 < rl_maxEntries r \<and> rl_lru r = lastn (rl_maxEntries r) (remdups ips)
     \<and> distinct (map fst (rl_buckets r)) \<and> set (map fst (rl_buckets r)) = set (rl_lru r)"

lemma distinct_lastn: "distinct xs \<Longrightarrow> distinct (lastn n xs)"
  by (simp add: lastn_def)

lemma lru_inv_length: "lru_inv ips r \<Longrightarrow> length (rl_buckets r) = length (rl_lru r)"
  unfolding lru_inv_def by (metis distinct_card distinct_lastn distinct_remdups length_map)

lemma lru_inv_key: "lru_inv ips r \<Longrightarrow> map_of (rl_buckets r) ip = None \<longleftrightarrow> ip \<notin> set (rl_lru r)"
  unfolding lru_inv_def by (metis map_of_eq_None_iff list.set_map)

lemma evict_head: "old \<in> set (map fst bs) \<Longrightarrow> evict (old # lru) bs = (lru, filter (\<lambda>b. fst b \<noteq> old) bs)"
  by simp

lemma distinct_filter_keys: "distinct (map fst bs) \<Longrightarrow> distinct (map fst (filter P bs))"
  by (induction bs) auto

lemma store_keys [simp]: "map fst (rl_buckets (store_bucket ip l r)) = map fst (rl_buckets r)"
  "rl_lru (store_bucket ip l r) = rl_lru r" "rl_maxEntries (store_bucket ip l r) = rl_maxEntries r"
  by (simp_all add: store_bucket_def comp_def)

lemma store_inv: "lru_inv ips r \<Longrightarrow> lru_inv ips (store_bucket ip l r)"
  unfolding lru_inv_def by simp

lemma BucketFor_inv:
  assumes "lru_inv ips r" "BucketFor mk ip r = (l, r')"
  shows "lru_inv (ips @ [ip]) r' \<and> map_of (rl_buckets r') ip = Some l \<and> rl_maxEntries r' = rl_maxEntries r"
proof (cases "map_of (rl_buckets r) ip")
  case (Some l0)
  then have "ip \<in> set (rl_lru r)"
    using lru_inv_key [OF assms(1), of ip] by simp
  moreover have "distinct (rl_lru r)"
    using assms(1) by (simp add: lru_inv_def distinct_lastn)
  ultimately have "set (remove1 ip (rl_lru r) @ [ip]) = set (rl_lru r)"
    by auto
  moreover have "r' = r\<lparr>rl_lru := remove1 ip (rl_lru r) @ [ip]\<rparr>" "l = l0"
    using assms(2) Some \<open>ip \<in> set (rl_lru r)\<close> by (auto simp: BucketFor_def)
  ultimately show ?thesis
    using assms(1) Some \<open>ip \<in> set (rl_lru r)\<close> lru_touch [of "rl_maxEntries r" ips ip] by (simp add: lru_inv_def)
next
  case None
  then have new: "ip \<notin> set (rl_lru r)" "ip \<notin> set (map fst (rl_buckets r))"
    using lru_inv_key [OF assms(1), of ip] by (auto simp: map_of_eq_None_iff)
  have len: "length (rl_buckets r) = length (rl_lru r)" "length (rl_lru r) \<le> rl_maxEntries r"
    using lru_inv_length [OF assms(1)] assms(1) by (auto simp: lru_inv_def length_lastn)
  have touch: "lastn (rl_maxEntries r) (remdups (ips @ [ip])) =
      (if length (rl_lru r) = rl_maxEntries r then tl (rl_lru r) else rl_lru r) @ [ip]"
    using lru_touch [of "rl_maxEntries r" ips ip] assms(1) new(1) by (simp add: lru_inv_def)
  show ?thesis
  proof (cases "rl_maxEntries r \<le> length (rl_buckets r)")
    case False
    then have "r' = r\<lparr>rl_buckets := rl_buckets r @ [(ip, l)], rl_lru := rl_lru r @ [ip]\<rparr>"
      using assms(2) None by (simp add: BucketFor_def Let_def) metis
    then show ?thesis
      using assms(1) None new touch len False by (auto simp: lru_inv_def map_add_def)
  next
    case True
    then obtain old lru where lru: "rl_lru r = old # lru"
      using len assms(1) by (cases "rl_lru r") (auto simp: lru_inv_def)
    have "distinct (rl_lru r)" "set (map fst (rl_buckets r)) = set (rl_lru r)"
      using assms(1) by (simp_all add: lru_inv_def distinct_lastn)
    then have old: "old \<in> set (map fst (rl_buckets r))" "old \<notin> set lru"
      by (simp_all add: lru)
    define bs where "bs = filter (\<lambda>b. fst b \<noteq> old) (rl_buckets r)"
    have bs: "set (map fst bs) = set lru" "distinct (map fst bs)"
      using assms(1) lru old(2) distinct_filter_keys by (auto simp: bs_def lru_inv_def)
    have ev: "evict (rl_lru r) (rl_buckets r) = (lru, bs)"
      using evict_head [OF old(1)] by (simp add: lru bs_def del: evict.simps)
    have "r' = r\<lparr>rl_buckets := bs @ [(ip, l)], rl_lru := lru @ [ip]\<rparr>"
      using assms(2) None True by (auto simp: BucketFor_def ev Let_def)
    moreover have "ip \<notin> fst ` set bs"
      using new(1) bs(1) lru by auto
    moreover from this have "map_of bs ip = None"
      by (simp add: map_of_eq_None_iff)
    moreover have "lastn (rl_maxEntries r) (remdups (ips @ [ip])) = lru @ [ip]"
      using touch True len lru by simp
    ultimately show ?thesis
      using bs assms(1) new(1) lru by (auto simp: lru_inv_def map_add_def)
  qed
qed

section \<open>Sequences of requests\<close>

fun serve_all ::
  "(limiter_type \<Rightarrow> nat \<Rightarrow> rat \<Rightarrow> 'l) \<Rightarrow> ('l \<Rightarrow> bool \<times> 'l) \<Rightarrow> string list \<Rightarrow> 'l rate_limiter \<Rightarrow> 'l rate_limiter" where
  "serve_all mk allow [] r = r"
| "serve_all mk allow (ip # ips) r = serve_all mk allow ips (snd (check_bucket mk allow ip r))"

lemma serve_all_snoc: "serve_all mk allow (ips @ [ip]) r = snd (check_bucket mk allow ip (serve_all mk allow ips r))"
  by (induction ips arbitrary: r) auto

lemma serve_all_append: "serve_all mk allow (ips @ jps) r = serve_all mk allow jps (serve_all mk allow ips r)"
  by (induction ips arbitrary: r) auto

lemma check_bucket_inv:
  assumes "lru_inv ips r"
  shows "lru_inv (ips @ [ip]) (snd (check_bucket mk allow ip r))
    \<and> rl_maxEntries (snd (check_bucket mk allow ip r)) = rl_maxEntries r"
proof -
  obtain l r1 where b: "BucketFor mk ip r = (l, r1)"
    by fastforce
  show ?thesis
    using BucketFor_inv [OF assms b] by (auto simp: check_bucket_def b intro: store_inv split: prod.split)
qed

lemma serve_all_inv:
  assumes "lru_inv ips r"
  shows "lru_inv (ips @ jps) (serve_all mk allow jps r) \<and> rl_maxEntries (serve_all mk allow jps r) = rl_maxEntries r"
  using assms
proof (induction jps arbitrary: ips r)
  case (Cons j jps)
  then show ?case
    using check_bucket_inv [OF Cons.prems, of j mk allow] Cons.IH [of "ips @ [j]" "snd (check_bucket mk allow j r)"] by simp
qed simp

lemma Create_inv: "lru_inv [] (Create t c s n)"
  by (simp add: lru_inv_def Create_def lastn_def)

text \<open>C32: the table of buckets is an exact LRU cache: after any sequence of requests it holds one bucket for each of the
  \<open>maxEntries\<close> addresses used most recently, in the order of their last use, and never more.\<close>
theorem rate_buckets_lru:
  "rl_lru (serve_all mk allow ips (Create t c s n)) = lastn (max 1 n) (remdups ips)
    \<and> set (map fst (rl_buckets (serve_all mk allow ips (Create t c s n)))) = set (lastn (max 1 n) (remdups ips))
    \<and> distinct (map fst (rl_buckets (serve_all mk allow ips (Create t c s n))))
    \<and> length (rl_buckets (serve_all mk allow ips (Create t c s n))) \<le> max 1 n"
proof -
  have inv: "lru_inv ips (serve_all mk allow ips (Create t c s n))"
    and m: "rl_maxEntries (serve_all mk allow ips (Create t c s n)) = max 1 n"
    using serve_all_inv [OF Create_inv, of ips mk allow t c s n] by (auto simp: Create_def max_def)
  then show ?thesis
    using lru_inv_length [OF inv] by (simp add: lru_inv_def length_lastn)
qed

lemma map_of_store_other: "jp \<noteq> ip \<Longrightarrow> map_of (rl_buckets (store_bucket jp l r)) ip = map_of (rl_buckets r) ip"
proof -
  assume "jp \<noteq> ip"
  then have "map_of (map (\<lambda>b. if fst b = jp then (jp, l) else b) bs) ip = map_of bs ip" for bs
    by (induction bs) auto
  then show ?thesis
    by (simp add: store_bucket_def)
qed

lemma map_of_filter_keep: "P ip \<Longrightarrow> map_of (filter (\<lambda>b. P (fst b)) bs) ip = map_of bs ip"
  by (induction bs) auto

lemma map_of_filter_key: "map_of (filter (\<lambda>b. fst b \<noteq> old) bs) ip = (if ip = old then None else map_of bs ip)"
  by (induction bs) auto

lemma evict_keeps: "map_of (snd (evict lru bs)) ip \<noteq> None \<Longrightarrow> map_of (snd (evict lru bs)) ip = map_of bs ip"
  by (induction lru) (auto simp: map_of_filter_key split: if_split_asm)

lemma check_bucket_other:
  assumes "jp \<noteq> ip" "map_of (rl_buckets (snd (check_bucket mk allow jp r))) ip \<noteq> None"
  shows "map_of (rl_buckets (snd (check_bucket mk allow jp r))) ip = map_of (rl_buckets r) ip"
proof -
  obtain l r1 where b: "BucketFor mk jp r = (l, r1)"
    by fastforce
  have eq: "map_of (rl_buckets (snd (check_bucket mk allow jp r))) ip = map_of (rl_buckets r1) ip"
    by (simp add: check_bucket_def b map_of_store_other [OF assms(1)] split: prod.split)
  have "map_of (rl_buckets r1) ip = map_of (rl_buckets r) ip" if "map_of (rl_buckets r1) ip \<noteq> None"
    using b that assms(1) evict_keeps [of "rl_lru r" "rl_buckets r" ip]
    by (auto simp: BucketFor_def Let_def map_of_append split: option.split_asm prod.split_asm if_split_asm)
  then show ?thesis
    using assms(2) by (simp add: eq)
qed

lemma remdups_fresh: "ip \<notin> set js \<Longrightarrow> \<exists>A. remdups (ips @ ip # js) = A @ ip # remdups js"
proof (induction js rule: rev_induct)
  case Nil
  then show ?case
    using remdups_snoc [of ips ip] by auto
next
  case (snoc j js)
  then obtain A where A: "remdups (ips @ ip # js) = A @ ip # remdups js" and ne: "j \<noteq> ip"
    by auto
  have "remdups ((ips @ ip # js) @ [j]) = removeAll j (A @ ip # remdups js) @ [j]"
    using A remdups_snoc [of "ips @ ip # js" j] by simp
  then show ?case
    using ne remdups_snoc [of js j] by (intro exI [of _ "removeAll j A"]) simp
qed

lemma recent_stays:
  assumes "ip \<notin> set js" "card (set js) < n"
  shows "ip \<in> set (lastn n (remdups (ips @ ip # js)))"
proof -
  obtain A where A: "remdups (ips @ ip # js) = A @ ip # remdups js"
    using remdups_fresh [OF assms(1)] by blast
  have "length (ip # remdups js) \<le> n"
    using assms(2) by (simp add: length_remdups_card_conv)
  then show ?thesis
    by (auto simp: A lastn_def)
qed

text \<open>Nobody can reset the counter of an active address by coming from other addresses: as long as fewer than
  \<open>maxEntries\<close> other addresses have been seen since its last request, its bucket is the one that request left.\<close>
theorem rate_bucket_survives:
  assumes r1: "r1 = serve_all mk allow (ips @ [ip]) (Create t c s n)"
    and "ip \<notin> set js" "card (set js) < max 1 n"
  shows "map_of (rl_buckets (serve_all mk allow js r1)) ip = map_of (rl_buckets r1) ip
    \<and> map_of (rl_buckets r1) ip \<noteq> None"
  using assms(2,3)
proof (induction js rule: rev_induct)
  case Nil
  have "lru_inv (ips @ [ip]) r1" "rl_maxEntries r1 = max 1 n"
    using serve_all_inv [OF Create_inv, of "ips @ [ip]" mk allow t c s n] by (auto simp: Create_def r1 max_def)
  then show ?case
    using recent_stays [of ip "[]" "max 1 n" ips] lru_inv_key [of "ips @ [ip]" r1 ip] by (simp add: lru_inv_def)
next
  case (snoc j js)
  have "card (set js) \<le> card (set (js @ [j]))"
    by (intro card_mono) auto
  then have IH: "map_of (rl_buckets (serve_all mk allow js r1)) ip = map_of (rl_buckets r1) ip \<and> map_of (rl_buckets r1) ip \<noteq> None"
    using snoc by auto
  have ne: "j \<noteq> ip"
    using snoc.prems(1) by auto
  let ?r = "serve_all mk allow (js @ [j]) r1"
  have eq: "?r = serve_all mk allow (ips @ ip # js @ [j]) (Create t c s n)"
    by (simp add: r1 serve_all_append)
  have "lru_inv (ips @ ip # js @ [j]) ?r" "rl_maxEntries ?r = max 1 n"
    unfolding eq using serve_all_inv [OF Create_inv, of "ips @ ip # js @ [j]" mk allow t c s n] by (auto simp: Create_def max_def)
  then have "map_of (rl_buckets ?r) ip \<noteq> None"
    using recent_stays [OF snoc.prems, of ips] lru_inv_key [of "ips @ ip # js @ [j]" ?r ip] by (simp add: lru_inv_def)
  then show ?case
    using check_bucket_other [of j ip mk allow "serve_all mk allow js r1"] IH ne by (simp add: serve_all_snoc)
qed

section \<open>Rules: correctness\<close>

text \<open>Every quota rule has a slot of its own, with its parameters.\<close>

definition rule_ok :: "'l quota_slot list \<Rightarrow> overlay_rule \<Rightarrow> bool" where
  "rule_ok slots rule \<longleftrightarrow> or_kind rule \<noteq> RuleNone \<and>
     (case or_quota rule of
        None \<Rightarrow> or_kind rule \<noteq> Quota
      | Some k \<Rightarrow> or_kind rule = Quota \<and> k < length slots \<and> qs_cap (slots ! k) = or_capacity rule
          \<and> qs_timeSec (slots ! k) = or_timeSec rule)"

definition overlay_inv :: "'l overlay \<Rightarrow> bool" where
  "overlay_inv ov \<longleftrightarrow> (\<forall>ip rule. ov_rules ov ip = Some rule \<longrightarrow> rule_ok (ov_slots ov) rule)
    \<and> (\<forall>ip jp rule rule' k. ov_rules ov ip = Some rule \<longrightarrow> ov_rules ov jp = Some rule' \<longrightarrow> or_quota rule = Some k
         \<longrightarrow> or_quota rule' = Some k \<longrightarrow> ip = jp)"

definition no_rules :: "'l overlay" where
  "no_rules = \<lparr>ov_rules = (\<lambda>ip. None), ov_slots = []\<rparr>"

lemma no_rules_inv: "overlay_inv no_rules"
  by (simp add: overlay_inv_def no_rules_def)

theorem rate_bucket_survives_witness:
  "map_of (rl_buckets (serve_all (\<lambda>t c s. c) (\<lambda>l. (0 < l, l - 1)) [''b'', ''b'']
      (serve_all (\<lambda>t c s. c) (\<lambda>l. (0 < l, l - 1)) [''a''] (Create FixedWindow 3 1 2)))) ''a'' = Some (2 :: nat)"
  using rate_bucket_survives [where mk = "\<lambda>t c s. c" and allow = "\<lambda>l. (0 < l, l - 1)" and ips = "[]" and ip = "''a''"
      and js = "[''b'', ''b'']" and t = FixedWindow and c = "3 :: nat" and s = 1 and n = 2, OF refl]
  by (simp add: check_bucket_def BucketFor_def store_bucket_def Create_def)

lemma put_rule_inv:
  assumes "overlay_inv ov" "rule_ok (ov_slots ov) rule"
    "\<And>jp rule' k. jp \<noteq> ip \<Longrightarrow> ov_rules ov jp = Some rule' \<Longrightarrow> or_quota rule = Some k \<Longrightarrow> or_quota rule' \<noteq> Some k"
  shows "overlay_inv (put_rule ip rule ov)"
  using assms unfolding overlay_inv_def put_rule_def by (auto split: if_splits; blast)

lemma rule_ok_new_slot: "rule_ok slots rule \<Longrightarrow> rule_ok (slots @ [q]) rule"
  by (auto simp: rule_ok_def nth_append split: option.splits)

lemma new_slot_inv: "overlay_inv ov \<Longrightarrow> overlay_inv (new_slot c t ov)"
  unfolding overlay_inv_def new_slot_def by (auto intro: rule_ok_new_slot)

lemma slot_in_range: "overlay_inv ov \<Longrightarrow> ov_rules ov jp = Some rule \<Longrightarrow> or_quota rule = Some k \<Longrightarrow> k < length (ov_slots ov)"
  unfolding overlay_inv_def rule_ok_def by fastforce

lemma kept_slot_rule:
  "kept_slot c t (ov_rules ov ip) = Some k \<Longrightarrow>
    \<exists>r. ov_rules ov ip = Some r \<and> or_kind r = Quota \<and> or_capacity r = c \<and> or_timeSec r = t \<and> or_quota r = Some k"
  by (auto simp: kept_slot_def split: option.splits if_splits)

lemma OverlayWrite_inv:
  assumes "overlay_inv ov"
  shows "overlay_inv (OverlayWrite ip kind c t ov)"
proof -
  have "overlay_inv (ov\<lparr>ov_rules := (ov_rules ov)(ip := None)\<rparr>)"
    using assms unfolding overlay_inv_def by (auto split: if_splits; blast)
  moreover have "overlay_inv (put_rule ip \<lparr>or_kind = kind, or_capacity = c, or_timeSec = t, or_quota = None\<rparr> ov)"
    if "kind \<noteq> RuleNone" "kind \<noteq> Quota"
    using that assms by (intro put_rule_inv) (auto simp: rule_ok_def)
  moreover have "overlay_inv (put_rule ip \<lparr>or_kind = Quota, or_capacity = c, or_timeSec = t, or_quota = Some (length (ov_slots ov))\<rparr> (new_slot c t ov))"
    using slot_in_range [OF assms] new_slot_inv [OF assms]
    by (intro put_rule_inv) (auto simp: rule_ok_def new_slot_def)
  moreover have "overlay_inv (put_rule ip \<lparr>or_kind = Quota, or_capacity = c, or_timeSec = t, or_quota = Some k\<rparr> ov)"
    if k: "kept_slot c t (ov_rules ov ip) = Some k" for k
  proof -
    obtain r where r: "ov_rules ov ip = Some r" "or_kind r = Quota" "or_capacity r = c" "or_timeSec r = t" "or_quota r = Some k"
      using kept_slot_rule [OF k] by blast
    then have "rule_ok (ov_slots ov) r"
      using assms by (auto simp: overlay_inv_def)
    then have "rule_ok (ov_slots ov) \<lparr>or_kind = Quota, or_capacity = c, or_timeSec = t, or_quota = Some k\<rparr>"
      using r by (simp add: rule_ok_def)
    moreover have "or_quota rule' \<noteq> Some k" if "jp \<noteq> ip" "ov_rules ov jp = Some rule'" for jp rule'
      using assms r that unfolding overlay_inv_def by blast
    ultimately show ?thesis
      using assms by (intro put_rule_inv) auto
  qed
  ultimately show ?thesis
    by (auto simp: OverlayWrite_def Let_def split: option.split)
qed

lemma Check_overlay_inv:
  assumes "overlay_inv ov"
  shows "\<exists>a ov' r'. Check mk allow ip ov r = Inr (a, ov', r') \<and> overlay_inv ov' \<and> ov_rules ov' = ov_rules ov"
proof (cases "ip = [] \<or> ov_rules ov ip = None")
  case True
  then show ?thesis
    using assms by (auto simp: Check_def split: option.split prod.split)
next
  case False
  then obtain rule where rule: "ip \<noteq> []" "ov_rules ov ip = Some rule" "rule_ok (ov_slots ov) rule"
    using assms by (auto simp: overlay_inv_def)
  show ?thesis
  proof (cases "or_quota rule")
    case None
    then show ?thesis
      using rule assms by (cases "or_kind rule") (auto simp: Check_def rule_ok_def)
  next
    case (Some k)
    define l where "l = allow (slot_Get mk (rl_type r) (ov_slots ov ! k))"
    let ?slots = "(ov_slots ov)[k := (ov_slots ov ! k)\<lparr>qs_lim := Some (snd l)\<rparr>]"
    have k: "k < length (ov_slots ov)"
      using slot_in_range [OF assms rule(2) Some] .
    have "rule_ok ?slots rule'" if "rule_ok (ov_slots ov) rule'" for rule'
      using that k by (auto simp: rule_ok_def nth_list_update split: option.splits if_splits)
    then have "overlay_inv (ov\<lparr>ov_slots := ?slots\<rparr>)"
      using assms unfolding overlay_inv_def by auto
    moreover have "or_kind rule = Quota" "k < length (ov_slots ov)"
      using rule(3) Some by (auto simp: rule_ok_def)
    ultimately show ?thesis
      using rule Some by (cases l) (simp add: Check_def l_def [symmetric])
  qed
qed

section \<open>Rules refine a map of quotas\<close>

text \<open>What an administrator thinks of: every address has at most one rule, and a quota rule owns its limiter.  No slot, no
  sharing.\<close>

datatype 'l address_rule = Banned | Trusted | Metered nat rat "'l option"

definition spec_write :: "string \<Rightarrow> rule_kind \<Rightarrow> nat \<Rightarrow> rat \<Rightarrow> (string \<rightharpoonup> 'l address_rule) \<Rightarrow> (string \<rightharpoonup> 'l address_rule)" where
  "spec_write ip kind c t m =
    (case kind of
       RuleNone \<Rightarrow> m(ip := None)
     | Blocked \<Rightarrow> m(ip \<mapsto> Banned)
     | Allowed \<Rightarrow> m(ip \<mapsto> Trusted)
     | Quota \<Rightarrow> m(ip \<mapsto> Metered c t
         (case m ip of Some (Metered c' t' l) \<Rightarrow> if c' = c \<and> t' = t then l else None | _ \<Rightarrow> None)))"

definition spec_check ::
  "(limiter_type \<Rightarrow> nat \<Rightarrow> rat \<Rightarrow> 'l) \<Rightarrow> ('l \<Rightarrow> bool \<times> 'l) \<Rightarrow> string \<Rightarrow> (string \<rightharpoonup> 'l address_rule) \<Rightarrow> 'l rate_limiter
     \<Rightarrow> response option \<times> (string \<rightharpoonup> 'l address_rule) \<times> 'l rate_limiter" where
  "spec_check mk allow ip m r =
    (if ip = [] then (None, m, r)
     else case m ip of
       Some Banned \<Rightarrow> (Some (limited (rl_timeSec r)), m, r)
     | Some Trusted \<Rightarrow> (None, m, r)
     | Some (Metered c t l) \<Rightarrow>
         (case allow (case l of Some x \<Rightarrow> x | None \<Rightarrow> mk (rl_type r) c t) of (ok, l') \<Rightarrow>
            (if ok then None else Some (limited t), m(ip \<mapsto> Metered c t (Some l')), r))
     | None \<Rightarrow> (case check_bucket mk allow ip r of (a, r') \<Rightarrow> (a, m, r')))"

definition abs_rule :: "'l quota_slot list \<Rightarrow> overlay_rule \<Rightarrow> 'l address_rule option" where
  "abs_rule slots rule =
    (case or_kind rule of
       RuleNone \<Rightarrow> None
     | Blocked \<Rightarrow> Some Banned
     | Allowed \<Rightarrow> Some Trusted
     | Quota \<Rightarrow> map_option (\<lambda>k. Metered (or_capacity rule) (or_timeSec rule) (qs_lim (slots ! k))) (or_quota rule))"

definition abs_rules :: "'l overlay \<Rightarrow> (string \<rightharpoonup> 'l address_rule)" where
  "abs_rules ov = (\<lambda>ip. case ov_rules ov ip of None \<Rightarrow> None | Some rule \<Rightarrow> abs_rule (ov_slots ov) rule)"

datatype rate_op = WriteRule string rule_kind nat rat | Request string

fun rules_run ::
  "(limiter_type \<Rightarrow> nat \<Rightarrow> rat \<Rightarrow> 'l) \<Rightarrow> ('l \<Rightarrow> bool \<times> 'l) \<Rightarrow> rate_op list \<Rightarrow> 'l overlay \<Rightarrow> 'l rate_limiter
     \<Rightarrow> mem_error + response option list \<times> 'l overlay \<times> 'l rate_limiter" where
  "rules_run mk allow [] ov r = Inr ([], ov, r)"
| "rules_run mk allow (WriteRule ip kind c t # ops) ov r = rules_run mk allow ops (OverlayWrite ip kind c t ov) r"
| "rules_run mk allow (Request ip # ops) ov r =
    (case Check mk allow ip ov r of
       Inl e \<Rightarrow> Inl e
     | Inr (a, ov', r') \<Rightarrow>
         (case rules_run mk allow ops ov' r' of Inl e \<Rightarrow> Inl e | Inr (as, ov'', r'') \<Rightarrow> Inr (a # as, ov'', r'')))"

fun spec_run ::
  "(limiter_type \<Rightarrow> nat \<Rightarrow> rat \<Rightarrow> 'l) \<Rightarrow> ('l \<Rightarrow> bool \<times> 'l) \<Rightarrow> rate_op list \<Rightarrow> (string \<rightharpoonup> 'l address_rule) \<Rightarrow> 'l rate_limiter
     \<Rightarrow> response option list \<times> (string \<rightharpoonup> 'l address_rule) \<times> 'l rate_limiter" where
  "spec_run mk allow [] m r = ([], m, r)"
| "spec_run mk allow (WriteRule ip kind c t # ops) m r = spec_run mk allow ops (spec_write ip kind c t m) r"
| "spec_run mk allow (Request ip # ops) m r =
    (case spec_check mk allow ip m r of (a, m', r') \<Rightarrow>
       (case spec_run mk allow ops m' r' of (as, m'', r'') \<Rightarrow> (a # as, m'', r'')))"

lemma abs_rule_new_slot: "rule_ok slots rule \<Longrightarrow> abs_rule (slots @ [q]) rule = abs_rule slots rule"
  by (auto simp: abs_rule_def rule_ok_def nth_append split: rule_kind.split option.splits)

lemma abs_put_rule: "abs_rules (put_rule ip rule ov) = (abs_rules ov)(ip := abs_rule (ov_slots ov) rule)"
  by (rule ext) (simp add: abs_rules_def put_rule_def split: option.split)

lemma abs_new_slot: "overlay_inv ov \<Longrightarrow> abs_rules (new_slot c t ov) = abs_rules ov"
  by (auto simp: abs_rules_def new_slot_def overlay_inv_def abs_rule_new_slot fun_eq_iff split: option.split)

lemma kept_slot_abs:
  assumes "overlay_inv ov"
  shows "(case abs_rules ov ip of Some (Metered c' t' l) \<Rightarrow> if c' = c \<and> t' = t then l else None | _ \<Rightarrow> None)
    = (case kept_slot c t (ov_rules ov ip) of Some k \<Rightarrow> qs_lim (ov_slots ov ! k) | None \<Rightarrow> None)"
proof (cases "ov_rules ov ip")
  case None
  then show ?thesis
    by (simp add: abs_rules_def kept_slot_def)
next
  case (Some rule)
  then have "rule_ok (ov_slots ov) rule"
    using assms by (simp add: overlay_inv_def)
  then show ?thesis
    using Some by (cases "or_kind rule") (auto simp: abs_rules_def abs_rule_def kept_slot_def rule_ok_def split: option.splits)
qed

lemma abs_OverlayWrite:
  assumes "overlay_inv ov"
  shows "abs_rules (OverlayWrite ip kind c t ov) = spec_write ip kind c t (abs_rules ov)"
proof (cases kind)
  case RuleNone
  then show ?thesis
    by (intro ext) (simp add: OverlayWrite_def spec_write_def abs_rules_def split: option.split)
next
  case Quota
  then show ?thesis
    using kept_slot_abs [OF assms, where ip = ip and c = c and t = t] abs_new_slot [OF assms, of c t]
    by (auto simp: OverlayWrite_def spec_write_def Let_def abs_put_rule abs_rule_def new_slot_def split: option.split)
qed (auto simp: OverlayWrite_def spec_write_def Let_def abs_put_rule abs_rule_def)

text \<open>A request updates the limiter of its own rule only, because no two rules share a slot.\<close>

lemma abs_update_slot:
  assumes "overlay_inv ov" "ov_rules ov ip = Some rule" "or_kind rule = Quota" "or_quota rule = Some k"
  shows "abs_rules (ov\<lparr>ov_slots := (ov_slots ov)[k := (ov_slots ov ! k)\<lparr>qs_lim := Some l\<rparr>]\<rparr>)
    = (abs_rules ov)(ip \<mapsto> Metered (or_capacity rule) (or_timeSec rule) (Some l))"
proof
  fix jp
  have k: "k < length (ov_slots ov)"
    using slot_in_range assms by blast
  show "abs_rules (ov\<lparr>ov_slots := (ov_slots ov)[k := (ov_slots ov ! k)\<lparr>qs_lim := Some l\<rparr>]\<rparr>) jp
    = ((abs_rules ov)(ip \<mapsto> Metered (or_capacity rule) (or_timeSec rule) (Some l))) jp"
  proof (cases "jp = ip")
    case True
    then show ?thesis
      using assms k by (simp add: abs_rules_def abs_rule_def)
  next
    case False
    then have "or_quota rule' \<noteq> Some k" if "ov_rules ov jp = Some rule'" for rule'
      using assms that unfolding overlay_inv_def by blast
    then have "abs_rule ((ov_slots ov)[k := x]) rule' = abs_rule (ov_slots ov) rule'" if "ov_rules ov jp = Some rule'" for x rule'
      using that by (cases "or_quota rule'") (auto simp: abs_rule_def split: rule_kind.split)
    then show ?thesis
      using False by (simp add: abs_rules_def split: option.split)
  qed
qed

lemma Check_refines:
  assumes "overlay_inv ov" "spec_check mk allow ip (abs_rules ov) r = (a, m, r')"
  shows "\<exists>ov'. Check mk allow ip ov r = Inr (a, ov', r') \<and> overlay_inv ov' \<and> abs_rules ov' = m"
proof -
  have inv: "overlay_inv ov'" if "Check mk allow ip ov r = Inr (b, ov', r1)" for b ov' r1
    using Check_overlay_inv [OF assms(1), of mk allow ip r] that by auto
  have "\<exists>ov'. Check mk allow ip ov r = Inr (a, ov', r') \<and> abs_rules ov' = m"
  proof (cases "ov_rules ov ip")
    case None
    then show ?thesis
      using assms(2) by (auto simp: Check_def spec_check_def abs_rules_def split: prod.splits if_splits)
  next
    case (Some rule)
    then have ok: "rule_ok (ov_slots ov) rule"
      using assms(1) by (simp add: overlay_inv_def)
    show ?thesis
    proof (cases "or_kind rule = Quota \<and> ip \<noteq> []")
      case True
      then obtain k where k: "or_quota rule = Some k" "k < length (ov_slots ov)"
        "qs_cap (ov_slots ov ! k) = or_capacity rule" "qs_timeSec (ov_slots ov ! k) = or_timeSec rule"
        using ok by (auto simp: rule_ok_def split: option.splits)
      have "abs_rules ov ip = Some (Metered (or_capacity rule) (or_timeSec rule) (qs_lim (ov_slots ov ! k)))"
        using Some True k by (simp add: abs_rules_def abs_rule_def)
      then show ?thesis
        using assms(2) Some True k abs_update_slot [OF assms(1) Some _ k(1)]
        by (cases "qs_lim (ov_slots ov ! k)") (auto simp: Check_def spec_check_def slot_Get_def split: prod.splits)
    next
      case False
      then show ?thesis
        using assms(2) Some ok
        by (cases "or_kind rule")
          (auto simp: Check_def spec_check_def abs_rules_def abs_rule_def rule_ok_def split: prod.splits if_splits)
    qed
  qed
  then show ?thesis
    using inv by blast
qed

lemma rules_run_refines:
  assumes "overlay_inv ov" "spec_run mk allow ops (abs_rules ov) r = (as, m, r')"
  shows "\<exists>ov'. rules_run mk allow ops ov r = Inr (as, ov', r') \<and> abs_rules ov' = m"
  using assms
proof (induction ops arbitrary: ov r as m r')
  case Nil
  then show ?case
    by simp
next
  case (Cons op ops)
  show ?case
  proof (cases op)
    case (WriteRule ip kind c t)
    then show ?thesis
      using Cons.IH [OF OverlayWrite_inv [OF Cons.prems(1)]] Cons.prems(2) by (simp add: abs_OverlayWrite [OF Cons.prems(1)])
  next
    case (Request ip)
    obtain a m1 r1 where 1: "spec_check mk allow ip (abs_rules ov) r = (a, m1, r1)"
      by (metis prod_cases3)
    obtain as' where 2: "spec_run mk allow ops m1 r1 = (as', m, r')" "as = a # as'"
      using Cons.prems(2) Request 1 by (auto split: prod.splits)
    obtain ov1 where 3: "Check mk allow ip ov r = Inr (a, ov1, r1)" "overlay_inv ov1" "abs_rules ov1 = m1"
      using Check_refines [OF Cons.prems(1) 1] by blast
    obtain ov2 where "rules_run mk allow ops ov1 r1 = Inr (as', ov2, r')" "abs_rules ov2 = m"
      using Cons.IH [OF 3(2), of r1 as' m r'] 2(1) 3(3) by auto
    then show ?thesis
      using Request 3 2 by auto
  qed
qed

text \<open>C28: whatever rules are written in between, every request gets the answer the plain map of rules prescribes: a banned
  address 429, a trusted one a pass, a metered one its own limiter (whose count survives a rewrite with the same
  parameters and starts afresh otherwise), any other its bucket.  No request meets a rule without a slot, and no two
  addresses ever count on one slot.\<close>
theorem rate_rules_refine:
  "case spec_run mk allow ops Map.empty r of (as, m, r') \<Rightarrow>
    (\<exists>ov. rules_run mk allow ops no_rules r = Inr (as, ov, r') \<and> abs_rules ov = m)"
  using rules_run_refines [OF no_rules_inv, of mk allow ops r]
  by (simp add: abs_rules_def no_rules_def split: prod.split)

text \<open>Lifting a ban forgets what the address had before, and lifts any other rule too.\<close>

lemma UnblockIp_erases_any_rule: "\<not> IsRateRuleHit ip (UnblockIp ip ov)"
  "UnblockIp ip (SetIpQuota ip c t ov) = RemoveRateRule ip (SetIpQuota ip c t ov)"
  by (simp_all add: UnblockIp_def RemoveRateRule_def OverlayWrite_def IsRateRuleHit_def)

end
