(* ===== verification/HttpOwner.thy ===== *)
theory HttpOwner
  imports ZmPrelude "HOL-Library.Sublist" "HOL-Library.AList"
begin

text \<open>
  Who owns a route (\<open>net/zm_net_http_server.cpp\<close>): the roots and ports the server faces claim, the tables derived from
  the claims, the registration of routes, and the checks of \<open>Open\<close> with the snapshot it leaves for the running server.

  A face (an object of \<open>ZmHttpServer\<close>) is its number.  The ordered maps of the code are lists of pairs without
  duplicate keys in the order of insertion; what is read from them does not depend on the order.  The phases of the
  process are atomic steps here: the races of \<open>Open\<close> and \<open>Close\<close> have a theory of their own.  What the system
  answers (can the ports be bound, does the run thread start) is an argument of \<open>Open\<close>.
\<close>

type_synonym face = nat

datatype run_state = Uninit | Initialized | Opened | Closed

record owner_snapshot =
  sn_roots :: "(string \<times> face) list"
  sn_shared :: "string set"
  sn_portFace :: "(u16 \<times> face) list"

record server =
  sv_state :: run_state
  sv_runError :: bool
  sv_hasListener :: bool
  sv_rootClaims :: "(face \<times> string) list"
  sv_portClaims :: "(face \<times> u16) list"
  sv_rootOwners :: "(string \<times> face) list"
  sv_portFace :: "(u16 \<times> face) list"
  sv_shared :: "string set"
  sv_routeLog :: "(face \<times> string) list"
  sv_snap :: "owner_snapshot option"
  sv_filters :: "string set"
  sv_root :: "face \<Rightarrow> string"            \<comment> \<open>\<open>m_rootPath\<close>\<close>
  sv_port :: "face \<rightharpoonup> u16"              \<comment> \<open>\<open>m_listener.port\<close> when \<open>m_listenerSet\<close>\<close>
  sv_routes :: "(face \<times> string) list"   \<comment> \<open>routes given to the framework, with the face that registered them\<close>

definition new_server :: server where
  "new_server = \<lparr>sv_state = Uninit, sv_runError = False, sv_hasListener = False, sv_rootClaims = [], sv_portClaims = [],
     sv_rootOwners = [], sv_portFace = [], sv_shared = {}, sv_routeLog = [], sv_snap = None, sv_filters = {},
     sv_root = (\<lambda>f. []), sv_port = (\<lambda>f. None), sv_routes = []\<rparr>"

definition running_phase :: "server \<Rightarrow> bool" where
  "running_phase s \<longleftrightarrow> sv_state s = Opened \<or> sv_state s = Closed"

definition IsInitialized :: "server \<Rightarrow> bool" where
  "IsInitialized s \<longleftrightarrow> sv_state s = Initialized \<or> sv_state s = Opened"

definition IsOpened :: "server \<Rightarrow> bool" where
  "IsOpened s \<longleftrightarrow> sv_state s = Opened \<and> \<not> sv_runError s"

section \<open>Claims and the tables derived from them\<close>

fun ZmClaimSlot :: "face \<Rightarrow> 'v \<Rightarrow> (face \<times> 'v) list \<Rightarrow> (face \<times> 'v) list" where
  "ZmClaimSlot face v [] = [(face, v)]"
| "ZmClaimSlot face v (c # claims) = (if fst c = face then (face, v) # claims else c # ZmClaimSlot face v claims)"

definition emplace :: "'k \<Rightarrow> 'v \<Rightarrow> ('k \<times> 'v) list \<Rightarrow> ('k \<times> 'v) list" where
  "emplace k v m = (if k \<in> fst ` set m then m else m @ [(k, v)])"

definition rebuild_roots :: "(face \<times> string) list \<Rightarrow> (string \<times> face) list" where
  "rebuild_roots claims = foldl (\<lambda>m (face, path). if path \<noteq> [] then emplace path face m else m) [] claims"

definition ZmRebuildRootOwners :: "server \<Rightarrow> server" where
  "ZmRebuildRootOwners s = s\<lparr>sv_rootOwners := rebuild_roots (sv_rootClaims s)\<rparr>"

definition rebuild_ports :: "(face \<times> u16) list \<Rightarrow> (u16 \<times> face) list" where
  "rebuild_ports claims = foldl (\<lambda>m (face, port). emplace port face m) [] claims"

definition ZmRebuildPortFace :: "server \<Rightarrow> server" where
  "ZmRebuildPortFace s = s\<lparr>sv_portFace := rebuild_ports (sv_portClaims s)\<rparr>"

definition SetRootPath :: "face \<Rightarrow> string \<Rightarrow> server \<Rightarrow> server" where
  "SetRootPath face path s =
    (if running_phase s then s
     else ZmRebuildRootOwners (s\<lparr>sv_rootClaims := ZmClaimSlot face path (sv_rootClaims s), sv_root := (sv_root s)(face := path)\<rparr>))"

definition AddListener :: "face \<Rightarrow> u16 \<Rightarrow> server \<Rightarrow> server" where
  "AddListener face port s =
    (if sv_port s face \<noteq> None then s
     else if port = 0 then s
     else if \<not> IsInitialized s then s
     else if IsOpened s then s
     else ZmRebuildPortFace (s\<lparr>sv_port := (sv_port s)(face \<mapsto> port), sv_hasListener := True,
       sv_portClaims := ZmClaimSlot face port (sv_portClaims s)\<rparr>))"

definition MarkShared :: "string \<Rightarrow> server \<Rightarrow> server" where
  "MarkShared path s = (if path = [] then s else s\<lparr>sv_shared := insert path (sv_shared s)\<rparr>)"

definition AddFilter :: "string \<Rightarrow> server \<Rightarrow> server" where
  "AddFilter name s = s\<lparr>sv_filters := insert name (sv_filters s)\<rparr>"

section \<open>Lookup\<close>

definition ZmPathUnderRoot :: "string \<Rightarrow> string \<Rightarrow> bool" where
  "ZmPathUnderRoot path root \<longleftrightarrow>
    (if root = [] then False
     else if root = ''/'' then True
     else if length path < length root then False
     else if take (length root) path \<noteq> root then False
     else length path = length root \<or> path ! length root = CHR ''/'')"

fun lookup_loop :: "(string \<times> face) list \<Rightarrow> string \<Rightarrow> face option \<Rightarrow> nat \<Rightarrow> face option" where
  "lookup_loop [] path best bestLen = best"
| "lookup_loop ((root, face) # kvs) path best bestLen =
    (if root = ''/'' then lookup_loop kvs path (if best = None then Some face else best) bestLen
     else if ZmPathUnderRoot path root \<and> bestLen < length root then lookup_loop kvs path (Some face) (length root)
     else lookup_loop kvs path best bestLen)"

definition ZmLookupInTable :: "(string \<times> face) list \<Rightarrow> string \<Rightarrow> face option" where
  "ZmLookupInTable roots path = lookup_loop roots path None 0"

definition owner_table :: "server \<Rightarrow> (string \<times> face) list" where
  "owner_table s = (case sv_snap s of Some sn \<Rightarrow> sn_roots sn | None \<Rightarrow> sv_rootOwners s)"

definition LookupOwner :: "string \<Rightarrow> server \<Rightarrow> face option" where
  "LookupOwner path s = ZmLookupInTable (owner_table s) path"

definition IsSharedPath :: "string \<Rightarrow> server \<Rightarrow> bool" where
  "IsSharedPath path s \<longleftrightarrow> path \<in> (case sv_snap s of Some sn \<Rightarrow> sn_shared sn | None \<Rightarrow> sv_shared s)"

section \<open>Registration\<close>

definition CheckRouteOwnership :: "face \<Rightarrow> string \<Rightarrow> server \<Rightarrow> bool \<times> server" where
  "CheckRouteOwnership face path s =
    (if running_phase s then (False, s)
     else if path = [] then (False, s)
     else if LookupOwner path s = Some face then (True, s\<lparr>sv_routeLog := sv_routeLog s @ [(face, path)]\<rparr>)
     else (False, s))"

definition CheckFilterRegistered :: "string \<Rightarrow> server \<Rightarrow> bool" where
  "CheckFilterRegistered name s \<longleftrightarrow> name \<in> sv_filters s"

definition RegisterCoro :: "face \<Rightarrow> string \<Rightarrow> string list \<Rightarrow> server \<Rightarrow> server" where
  "RegisterCoro face path filters s =
    (case CheckRouteOwnership face path s of (ok, s) \<Rightarrow>
       if \<not> ok then s
       else if \<not> list_all (\<lambda>fn. CheckFilterRegistered fn s) filters then s
       else s\<lparr>sv_routes := sv_routes s @ [(face, path)]\<rparr>)"

section \<open>Phases\<close>

definition Init :: "server \<Rightarrow> bool \<times> server" where
  "Init s =
    (if sv_state s \<noteq> Uninit then (False, s)
     else (True, (MarkShared ''/metrics'' (MarkShared ''/ready'' (MarkShared ''/ping'' s)))\<lparr>sv_state := Initialized\<rparr>))"

definition conflicts :: "'a list \<Rightarrow> 'a list" where
  "conflicts xs = filter (\<lambda>x. 2 \<le> count_list xs x) (remdups xs)"

definition bad_entries :: "server \<Rightarrow> nat" where
  "bad_entries s =
    length (conflicts (filter (\<lambda>path. path \<noteq> []) (map snd (sv_rootClaims s))))
    + length (conflicts (map snd (sv_portClaims s)))
    + length (filter (\<lambda>r. ZmLookupInTable (sv_rootOwners s) (snd r) \<noteq> Some (fst r)) (sv_routeLog s))"

definition ValidateRouteOwnership :: "server \<Rightarrow> bool \<times> server" where
  "ValidateRouteOwnership s =
    (if 0 < bad_entries s then (False, s)
     else (True, s\<lparr>sv_snap := Some \<lparr>sn_roots = sv_rootOwners s, sn_shared = sv_shared s, sn_portFace = sv_portFace s\<rparr>\<rparr>))"

datatype start_outcome = Started | NotStarted | RunThrew

definition Open :: "bool \<Rightarrow> start_outcome \<Rightarrow> server \<Rightarrow> bool \<times> server" where
  "Open probe outcome s =
    (if sv_state s \<noteq> Initialized then (False, s)
     else if \<not> sv_hasListener s then (False, s)
     else case ValidateRouteOwnership s of (ok, s) \<Rightarrow>
       if \<not> ok then (False, s)
       else if \<not> probe then (False, s)
       else (case outcome of
           Started \<Rightarrow> (True, s\<lparr>sv_runError := False, sv_state := Opened\<rparr>)
         | NotStarted \<Rightarrow> (False, s\<lparr>sv_runError := False, sv_state := Initialized\<rparr>)
         | RunThrew \<Rightarrow> (False, s\<lparr>sv_runError := True, sv_state := Initialized\<rparr>)))"

definition Close :: "server \<Rightarrow> server" where
  "Close s = (if sv_state s = Uninit \<or> sv_state s = Closed then s else s\<lparr>sv_state := Closed\<rparr>)"

datatype server_op =
    DoInit
  | DoSetRoot face string
  | DoListen face u16
  | DoShare string
  | DoFilter string
  | DoRegister face string "string list"
  | DoOpen bool start_outcome
  | DoShut
  | RunFails   \<comment> \<open>the run thread ends with an exception\<close>

fun server_step :: "server_op \<Rightarrow> server \<Rightarrow> server" where
  "server_step DoInit s = snd (Init s)"
| "server_step (DoSetRoot face path) s = SetRootPath face path s"
| "server_step (DoListen face port) s = AddListener face port s"
| "server_step (DoShare path) s = MarkShared path s"
| "server_step (DoFilter name) s = AddFilter name s"
| "server_step (DoRegister face path filters) s = RegisterCoro face path filters s"
| "server_step (DoOpen probe outcome) s = snd (Open probe outcome s)"
| "server_step DoShut s = Close s"
| "server_step RunFails s = (if sv_state s = Opened then s\<lparr>sv_runError := True\<rparr> else s)"

definition server_run :: "server_op list \<Rightarrow> server \<Rightarrow> server" where
  "server_run ops s = fold server_step ops s"

section \<open>Tables\<close>

lemma keys_ZmClaimSlot: "set (map fst (ZmClaimSlot f v cs)) = insert f (set (map fst cs))"
  by (induction cs) auto

lemma distinct_ZmClaimSlot: "distinct (map fst cs) \<Longrightarrow> distinct (map fst (ZmClaimSlot f v cs))"
proof (induction cs)
  case (Cons c cs)
  have "fst c \<notin> set (map fst (ZmClaimSlot f v cs))" if "fst c \<noteq> f"
    using Cons.prems that keys_ZmClaimSlot [of f v cs] by auto
  then show ?case
    using Cons by (auto simp del: set_map list.set_map)
qed simp

lemma map_of_ZmClaimSlot: "map_of (ZmClaimSlot f v cs) = (map_of cs)(f \<mapsto> v)"
  by (induction cs) (auto simp: fun_eq_iff)

lemma emplace_keys: "distinct (map fst m) \<Longrightarrow> distinct (map fst (emplace k v m))"
  by (auto simp: emplace_def)

definition table_of :: "('v \<times> 'k) list \<Rightarrow> ('k \<times> 'v) list" where
  "table_of claims = foldl (\<lambda>m (face, k). emplace k face m) [] claims"

lemma rebuild_ports_table: "rebuild_ports claims = table_of claims"
  by (simp add: rebuild_ports_def table_of_def)

lemma rebuild_roots_table: "rebuild_roots claims = table_of (filter (\<lambda>c. snd c \<noteq> []) claims)"
proof -
  have "foldl (\<lambda>m (face, path). if path \<noteq> [] then emplace path face m else m) m cs
      = foldl (\<lambda>m (face, path). emplace path face m) m (filter (\<lambda>c. snd c \<noteq> []) cs)" for m and cs :: "(face \<times> string) list"
    by (induction cs arbitrary: m) auto
  then show ?thesis
    by (simp add: rebuild_roots_def table_of_def)
qed

lemma table_of_snoc: "table_of (cs @ [c]) = emplace (snd c) (fst c) (table_of cs)"
  by (simp add: table_of_def split: prod.split)

lemma table_of_props:
  "distinct (map fst (table_of cs)) \<and> set (map fst (table_of cs)) = set (map snd cs)
    \<and> (\<forall>kf \<in> set (table_of cs). (snd kf, fst kf) \<in> set cs)"
proof (induction cs rule: rev_induct)
  case Nil
  then show ?case
    by (simp add: table_of_def)
next
  case (snoc c cs)
  then show ?case
    by (auto simp: table_of_snoc emplace_def image_iff)
qed

text \<open>Without a conflict the table is the claims, turned around.\<close>

lemma table_of_all:
  assumes "distinct (map snd cs)"
  shows "set (table_of cs) = (\<lambda>c. (snd c, fst c)) ` set cs"
proof
  show "set (table_of cs) \<subseteq> (\<lambda>c. (snd c, fst c)) ` set cs"
    using table_of_props [of cs] by force
  show "(\<lambda>c. (snd c, fst c)) ` set cs \<subseteq> set (table_of cs)"
  proof
    fix kf assume "kf \<in> (\<lambda>c. (snd c, fst c)) ` set cs"
    then obtain c where c: "c \<in> set cs" "kf = (snd c, fst c)"
      by blast
    then obtain kf' where kf': "kf' \<in> set (table_of cs)" "fst kf' = snd c"
      using table_of_props [of cs] by (metis imageE imageI list.set_map)
    then have "(snd kf', snd c) \<in> set cs"
      using table_of_props [of cs] by force
    then have "snd kf' = fst c"
      using assms c(1) by (metis eq_key_imp_eq_value distinct_map inj_onD prod.sel)
    then show "kf \<in> set (table_of cs)"
      using kf' c by (metis prod.collapse)
  qed
qed

lemma conflicts_none: "conflicts xs = [] \<longleftrightarrow> distinct xs"
proof -
  have "conflicts xs = [] \<longleftrightarrow> (\<forall>x \<in> set xs. count_list xs x < 2)"
    by (auto simp: conflicts_def filter_empty_conv not_le)
  also have "\<dots> \<longleftrightarrow> distinct xs"
  proof (induction xs)
    case (Cons x xs)
    have "count_list xs x = 0 \<longleftrightarrow> x \<notin> set xs"
      by (rule count_list_0_iff)
    then show ?case
      using Cons by (auto simp: less_2_cases_iff)
  qed simp
  finally show ?thesis .
qed

section \<open>The owner of a path\<close>

text \<open>A root is the more specific the longer it is; the fallback root is the least specific one.\<close>

definition root_rank :: "string \<Rightarrow> nat" where
  "root_rank root = (if root = ''/'' then 0 else length root)"

lemma under_prefix: "ZmPathUnderRoot path root \<Longrightarrow> root \<noteq> ''/'' \<Longrightarrow> take (length root) path = root \<and> root \<noteq> [] \<and> 0 < root_rank root"
  by (auto simp: ZmPathUnderRoot_def root_rank_def split: if_splits)

lemma under_iff:
  "ZmPathUnderRoot path root \<longleftrightarrow> root \<noteq> [] \<and> (root = ''/'' \<or> path = root \<or> prefix (root @ ''/'') path)"
proof (cases "root = [] \<or> root = ''/''")
  case True
  then show ?thesis
    by (auto simp: ZmPathUnderRoot_def)
next
  case False
  have "take (length root) path = root \<and> length root < length path \<and> path ! length root = CHR ''/'' \<longleftrightarrow> prefix (root @ ''/'') path"
  proof
    assume a: "take (length root) path = root \<and> length root < length path \<and> path ! length root = CHR ''/''"
    then have "take (Suc (length root)) path = root @ ''/''"
      by (simp add: take_Suc_conv_app_nth)
    then show "prefix (root @ ''/'') path"
      by (metis take_is_prefix)
  qed (auto simp: prefix_def)
  moreover have "take (length root) path = root \<and> length path = length root \<longleftrightarrow> path = root"
    by auto
  ultimately show ?thesis
    using False by (auto simp: ZmPathUnderRoot_def le_less)
qed

lemma under_same_rank:
  assumes "ZmPathUnderRoot path r" "ZmPathUnderRoot path r'" "root_rank r = root_rank r'"
  shows "r = r'"
  using assms under_prefix [of path r] under_prefix [of path r'] by (metis less_irrefl root_rank_def)

text \<open>The loop keeps the most specific root seen.\<close>

lemma lookup_loop_keeps:
  assumes "distinct (map fst kvs)"
    and "best = None \<longleftrightarrow> r0 = None"
    and "\<And>f. best = Some f \<Longrightarrow> \<exists>r. r0 = Some r \<and> ZmPathUnderRoot path r \<and> bestLen = root_rank r \<and> r \<notin> fst ` set kvs"
    and "best = None \<Longrightarrow> bestLen = 0"
  shows "case lookup_loop kvs path best bestLen of
      None \<Rightarrow> best = None \<and> (\<forall>kf \<in> set kvs. \<not> ZmPathUnderRoot path (fst kf))
    | Some f \<Rightarrow> (\<exists>r. ((r, f) \<in> set kvs \<or> r0 = Some r \<and> best = Some f) \<and> ZmPathUnderRoot path r
        \<and> (\<forall>kf \<in> set kvs. ZmPathUnderRoot path (fst kf) \<longrightarrow> root_rank (fst kf) \<le> root_rank r) \<and> bestLen \<le> root_rank r)"
  using assms
proof (induction kvs arbitrary: best bestLen r0)
  case Nil
  then show ?case
    by (auto split: option.split)
next
  case (Cons kf kvs)
  obtain root face where kf: "kf = (root, face)"
    by force
  have fresh: "root \<notin> fst ` set kvs" "distinct (map fst kvs)"
    using Cons.prems(1) kf by auto
  have old: "\<exists>r. r0 = Some r \<and> ZmPathUnderRoot path r \<and> bestLen = root_rank r \<and> r \<notin> fst ` set kvs \<and> r \<noteq> root" if "best = Some f" for f
    using Cons.prems(3) [OF that] kf by auto
  have found: "case lookup_loop kvs path (Some face) n of None \<Rightarrow> False
    | Some f \<Rightarrow> (\<exists>r. ((r, f) \<in> set (kf # kvs) \<or> r0 = Some r \<and> best = Some f) \<and> ZmPathUnderRoot path r
        \<and> (\<forall>kf \<in> set (kf # kvs). ZmPathUnderRoot path (fst kf) \<longrightarrow> root_rank (fst kf) \<le> root_rank r) \<and> bestLen \<le> root_rank r)"
    if "n = root_rank root" "ZmPathUnderRoot path root" "bestLen \<le> n" for n
  proof -
    have "case lookup_loop kvs path (Some face) n of None \<Rightarrow> False
      | Some f \<Rightarrow> (\<exists>r. ((r, f) \<in> set kvs \<or> r = root \<and> f = face) \<and> ZmPathUnderRoot path r
        \<and> (\<forall>kf \<in> set kvs. ZmPathUnderRoot path (fst kf) \<longrightarrow> root_rank (fst kf) \<le> root_rank r) \<and> n \<le> root_rank r)"
      using Cons.IH [of "Some face" "Some root" n, OF fresh(2)] that fresh(1) by (simp split: option.splits) blast
    then obtain f r where r: "lookup_loop kvs path (Some face) n = Some f"
      "(r, f) \<in> set kvs \<or> r = root \<and> f = face" "ZmPathUnderRoot path r" "n \<le> root_rank r"
      "\<forall>kf \<in> set kvs. ZmPathUnderRoot path (fst kf) \<longrightarrow> root_rank (fst kf) \<le> root_rank r"
      by (auto split: option.splits)
    have "(r, f) \<in> set (kf # kvs)" "bestLen \<le> root_rank r"
      "\<forall>kf' \<in> set (kf # kvs). ZmPathUnderRoot path (fst kf') \<longrightarrow> root_rank (fst kf') \<le> root_rank r"
      using r kf that by auto
    then show ?thesis
      using r(1,3) by auto
  qed
  consider (slash) "root = ''/''" "best = None" | (take_it) "root \<noteq> ''/''" "ZmPathUnderRoot path root" "bestLen < length root"
    | (skip) "ZmPathUnderRoot path root \<Longrightarrow> root_rank root \<le> bestLen \<and> best \<noteq> None"
      "lookup_loop (kf # kvs) path best bestLen = lookup_loop kvs path best bestLen"
  proof (cases "root = ''/''")
    case True
    show thesis
    proof (cases best)
      case None
      then show thesis
        using slash True by blast
    next
      case (Some f)
      then show thesis
        using True kf by (intro skip) (auto simp: root_rank_def)
    qed
  next
    case False
    show thesis
    proof (cases "ZmPathUnderRoot path root \<and> bestLen < length root")
      case True
      then show thesis
        using take_it False by blast
    next
      case not_longer: False
      have "best \<noteq> None" if "ZmPathUnderRoot path root"
        using that not_longer Cons.prems(4) under_prefix [of path root] False by (auto simp: root_rank_def)
      then show thesis
        using not_longer False kf by (intro skip) (auto simp: root_rank_def)
    qed
  qed
  then show ?case
  proof cases
    case slash
    have "root_rank root = 0" "ZmPathUnderRoot path root"
      by (simp_all add: slash root_rank_def ZmPathUnderRoot_def)
    then show ?thesis
      using found [of 0] slash kf Cons.prems(4) by (cases "lookup_loop kvs path (Some face) 0") simp_all
  next
    case take_it
    then have "length root = root_rank root"
      by (simp add: root_rank_def)
    then show ?thesis
      using found [of "length root"] take_it kf by (cases "lookup_loop kvs path (Some face) (length root)") simp_all
  next
    case skip
    have IH: "case lookup_loop kvs path best bestLen of
      None \<Rightarrow> best = None \<and> (\<forall>kf \<in> set kvs. \<not> ZmPathUnderRoot path (fst kf))
    | Some f \<Rightarrow> (\<exists>r. ((r, f) \<in> set kvs \<or> r0 = Some r \<and> best = Some f) \<and> ZmPathUnderRoot path r
        \<and> (\<forall>kf \<in> set kvs. ZmPathUnderRoot path (fst kf) \<longrightarrow> root_rank (fst kf) \<le> root_rank r) \<and> bestLen \<le> root_rank r)"
      using Cons.IH [of best r0 bestLen, OF fresh(2) Cons.prems(2) _ Cons.prems(4)] old by blast
    show ?thesis
    proof (cases "lookup_loop kvs path best bestLen")
      case None
      then show ?thesis
        using IH skip kf by auto
    next
      case (Some f)
      then obtain r where r: "(r, f) \<in> set kvs \<or> r0 = Some r \<and> best = Some f" "ZmPathUnderRoot path r" "bestLen \<le> root_rank r"
        "\<forall>kf \<in> set kvs. ZmPathUnderRoot path (fst kf) \<longrightarrow> root_rank (fst kf) \<le> root_rank r"
        using IH by auto
      then have "\<forall>kf' \<in> set (kf # kvs). ZmPathUnderRoot path (fst kf') \<longrightarrow> root_rank (fst kf') \<le> root_rank r"
        using skip(1) kf by force
      then show ?thesis
        using r(1-3) Some skip(2) by auto
    qed
  qed
qed

lemma ZmLookupInTable_spec:
  assumes "distinct (map fst roots)"
  shows "ZmLookupInTable roots path = Some f \<longleftrightarrow>
    (\<exists>r. (r, f) \<in> set roots \<and> ZmPathUnderRoot path r
       \<and> (\<forall>kf \<in> set roots. ZmPathUnderRoot path (fst kf) \<longrightarrow> root_rank (fst kf) \<le> root_rank r))"
    and "ZmLookupInTable roots path = None \<longleftrightarrow> (\<forall>kf \<in> set roots. \<not> ZmPathUnderRoot path (fst kf))"
proof -
  note spec = lookup_loop_keeps [OF assms, of None None path 0, folded ZmLookupInTable_def, simplified]
  have some: "\<exists>r. (r, g) \<in> set roots \<and> ZmPathUnderRoot path r
       \<and> (\<forall>kf \<in> set roots. ZmPathUnderRoot path (fst kf) \<longrightarrow> root_rank (fst kf) \<le> root_rank r)" if "ZmLookupInTable roots path = Some g" for g
    using spec that by auto
  show none: "ZmLookupInTable roots path = None \<longleftrightarrow> (\<forall>kf \<in> set roots. \<not> ZmPathUnderRoot path (fst kf))"
    using spec by (cases "ZmLookupInTable roots path") force+
  show "ZmLookupInTable roots path = Some f \<longleftrightarrow>
    (\<exists>r. (r, f) \<in> set roots \<and> ZmPathUnderRoot path r
       \<and> (\<forall>kf \<in> set roots. ZmPathUnderRoot path (fst kf) \<longrightarrow> root_rank (fst kf) \<le> root_rank r))"
  proof
    assume "\<exists>r. (r, f) \<in> set roots \<and> ZmPathUnderRoot path r
       \<and> (\<forall>kf \<in> set roots. ZmPathUnderRoot path (fst kf) \<longrightarrow> root_rank (fst kf) \<le> root_rank r)"
    then obtain r where r: "(r, f) \<in> set roots" "ZmPathUnderRoot path r"
      "\<forall>kf \<in> set roots. ZmPathUnderRoot path (fst kf) \<longrightarrow> root_rank (fst kf) \<le> root_rank r"
      by blast
    then obtain g where g: "ZmLookupInTable roots path = Some g"
      using none by (cases "ZmLookupInTable roots path") force+
    then obtain r' where r': "(r', g) \<in> set roots" "ZmPathUnderRoot path r'"
      "\<forall>kf \<in> set roots. ZmPathUnderRoot path (fst kf) \<longrightarrow> root_rank (fst kf) \<le> root_rank r'"
      using some by blast
    then have "root_rank r = root_rank r'"
      using r(1,2) r(3) by (metis fst_conv le_antisym)
    then have "r = r'"
      using under_same_rank [OF r(2) r'(2)] by simp
    then show "ZmLookupInTable roots path = Some f"
      using g r(1) r'(1) assms by (metis eq_key_imp_eq_value)
  qed (rule some)
qed

section \<open>Invariant\<close>

definition tables_ok :: "server \<Rightarrow> bool" where
  "tables_ok s \<longleftrightarrow> distinct (map fst (sv_rootClaims s)) \<and> distinct (map fst (sv_portClaims s))
     \<and> sv_rootOwners s = rebuild_roots (sv_rootClaims s) \<and> sv_portFace s = rebuild_ports (sv_portClaims s)
     \<and> sv_root s = (\<lambda>f. case map_of (sv_rootClaims s) f of Some r \<Rightarrow> r | None \<Rightarrow> [])
     \<and> sv_port s = map_of (sv_portClaims s)"

definition snap_ok :: "server \<Rightarrow> bool" where
  "snap_ok s \<longleftrightarrow> (case sv_snap s of None \<Rightarrow> sv_state s \<noteq> Opened | Some sn \<Rightarrow> distinct (map fst (sn_roots sn)))"

definition claimed_roots :: "server \<Rightarrow> string list" where
  "claimed_roots s = filter (\<lambda>path. path \<noteq> []) (map snd (sv_rootClaims s))"

definition opened_ok :: "server \<Rightarrow> bool" where
  "opened_ok s \<longleftrightarrow> (sv_state s = Opened \<longrightarrow> map_option sn_roots (sv_snap s) = Some (sv_rootOwners s) \<and> distinct (claimed_roots s)
     \<and> (\<forall>r \<in> set (sv_routeLog s). ZmLookupInTable (sv_rootOwners s) (snd r) = Some (fst r)))"

definition owner_inv :: "server \<Rightarrow> bool" where
  "owner_inv s \<longleftrightarrow> tables_ok s \<and> snap_ok s \<and> opened_ok s \<and> set (sv_routes s) \<subseteq> set (sv_routeLog s)"

lemmas inv_defs = owner_inv_def tables_ok_def snap_ok_def opened_ok_def claimed_roots_def

lemma rebuild_roots_keys: "distinct (map fst (rebuild_roots cs))"
  using table_of_props [of "filter (\<lambda>c. snd c \<noteq> []) cs"] by (simp add: rebuild_roots_table)

lemma new_server_inv: "owner_inv new_server"
  by (simp add: inv_defs new_server_def rebuild_roots_def rebuild_ports_def map_of_def)

lemma SetRootPath_inv: "owner_inv s \<Longrightarrow> owner_inv (SetRootPath face path s)"
  by (auto simp: inv_defs SetRootPath_def ZmRebuildRootOwners_def distinct_ZmClaimSlot map_of_ZmClaimSlot running_phase_def
      fun_eq_iff split: option.splits)

lemma AddListener_inv: "owner_inv s \<Longrightarrow> owner_inv (AddListener face port s)"
  by (auto simp: inv_defs AddListener_def ZmRebuildPortFace_def distinct_ZmClaimSlot map_of_ZmClaimSlot split: option.splits)

lemma MarkShared_inv: "owner_inv s \<Longrightarrow> owner_inv (MarkShared path s)"
  by (auto simp: inv_defs MarkShared_def split: option.splits)

lemma AddFilter_inv: "owner_inv s \<Longrightarrow> owner_inv (AddFilter name s)"
  by (auto simp: inv_defs AddFilter_def split: option.splits)

lemma RegisterCoro_inv: "owner_inv s \<Longrightarrow> owner_inv (RegisterCoro face path filters s)"
  by (auto simp: inv_defs RegisterCoro_def CheckRouteOwnership_def running_phase_def split: option.splits)

lemma Init_inv: "owner_inv s \<Longrightarrow> owner_inv (snd (Init s))"
  using MarkShared_inv [OF MarkShared_inv [OF MarkShared_inv, of s]]
  by (auto simp: Init_def inv_defs MarkShared_def split: option.splits)

lemma Close_inv: "owner_inv s \<Longrightarrow> owner_inv (Close s)"
  by (auto simp: Close_def inv_defs split: option.splits)

lemma no_bad_entries:
  "bad_entries s = 0 \<longleftrightarrow> distinct (claimed_roots s) \<and> distinct (map snd (sv_portClaims s))
     \<and> (\<forall>r \<in> set (sv_routeLog s). ZmLookupInTable (sv_rootOwners s) (snd r) = Some (fst r))"
  by (auto simp: bad_entries_def conflicts_none filter_empty_conv claimed_roots_def)

lemma Validate_inv:
  assumes "owner_inv s" "ValidateRouteOwnership s = (True, s')"
  shows "owner_inv s' \<and> opened_ok (s'\<lparr>sv_state := Opened\<rparr>) \<and> snap_ok (s'\<lparr>sv_state := Opened\<rparr>)"
proof -
  have ok: "bad_entries s = 0" and s': "s' = s\<lparr>sv_snap := Some \<lparr>sn_roots = sv_rootOwners s, sn_shared = sv_shared s, sn_portFace = sv_portFace s\<rparr>\<rparr>"
    using assms(2) by (auto simp: ValidateRouteOwnership_def split: if_splits)
  show ?thesis
    using assms(1) ok unfolding no_bad_entries s' by (auto simp: inv_defs rebuild_roots_keys)
qed

lemma Open_inv:
  assumes "owner_inv s"
  shows "owner_inv (snd (Open probe outcome s))"
proof (cases "sv_state s = Initialized \<and> sv_hasListener s \<and> fst (ValidateRouteOwnership s)")
  case True
  then obtain s' where s': "ValidateRouteOwnership s = (True, s')"
    by (metis (full_types) prod.collapse)
  have st: "sv_state s' = Initialized"
    using s' True by (auto simp: ValidateRouteOwnership_def split: if_splits)
  note v = Validate_inv [OF assms s']
  then have v': "owner_inv s'" "opened_ok (s'\<lparr>sv_state := Opened\<rparr>)" "snap_ok (s'\<lparr>sv_state := Opened\<rparr>)"
    by auto
  show ?thesis
    using True s' st v' by (auto simp: Open_def inv_defs split: start_outcome.splits option.splits)
next
  case False
  then show ?thesis
    using assms by (auto simp: Open_def ValidateRouteOwnership_def split: if_splits)
qed

lemma server_step_inv [step_inv]: "owner_inv s \<Longrightarrow> owner_inv (server_step op s)"
  by (cases op) (simp_all add: SetRootPath_inv AddListener_inv MarkShared_inv AddFilter_inv RegisterCoro_inv Init_inv Close_inv
      Open_inv, auto simp: inv_defs split: option.splits)

lemma server_run_inv: "owner_inv s \<Longrightarrow> owner_inv (server_run ops s)"
  unfolding server_run_def by (induction ops arbitrary: s) (simp_all add: step_inv)

lemma owner_table_distinct: "owner_inv s \<Longrightarrow> distinct (map fst (owner_table s))"
  by (auto simp: inv_defs owner_table_def rebuild_roots_keys split: option.splits)

section \<open>Correctness\<close>

text \<open>The claims that lookups go by, told by the operations alone: \<open>now\<close> holds, in the order of the first claims, the last root
  each face has set before the server ran; an \<open>Open\<close> that gets past the check of the claims fixes them, whether it then
  succeeds or not.\<close>

definition passes_check :: "server \<Rightarrow> bool" where
  "passes_check s \<longleftrightarrow> sv_state s = Initialized \<and> sv_hasListener s \<and> fst (ValidateRouteOwnership s)"

fun claims_seen ::
    "server_op list \<Rightarrow> server \<Rightarrow> (face \<times> string) list \<Rightarrow> (face \<times> string) list option \<Rightarrow> (face \<times> string) list" where
  "claims_seen [] s now fixed = (case fixed of None \<Rightarrow> now | Some c \<Rightarrow> c)"
| "claims_seen (op # ops) s now fixed =
    claims_seen ops (server_step op s)
      (case op of DoSetRoot face path \<Rightarrow> if running_phase s then now else AList.update face path now | _ \<Rightarrow> now)
      (case op of DoOpen probe outcome \<Rightarrow> if passes_check s then Some now else fixed | _ \<Rightarrow> fixed)"

definition first_claimer :: "(face \<times> string) list \<Rightarrow> string \<Rightarrow> face option" where
  "first_claimer claims root = map_option fst (List.find (\<lambda>c. snd c = root) claims)"

lemma ZmClaimSlot_update: "ZmClaimSlot f v cs = AList.update f v cs"
  by (induction cs) auto

lemma find_snoc: "List.find P (xs @ [x]) = (case List.find P xs of None \<Rightarrow> if P x then Some x else None | Some y \<Rightarrow> Some y)"
  by (induction xs) auto

lemma table_of_find: "(r, f) \<in> set (table_of cs) \<longleftrightarrow> first_claimer cs r = Some f"
proof (induction cs rule: rev_induct)
  case Nil
  then show ?case
    by (simp add: table_of_def first_claimer_def)
next
  case (snoc c cs)
  have "r \<in> fst ` set (table_of cs) \<longleftrightarrow> List.find (\<lambda>c. snd c = r) cs \<noteq> None"
    using table_of_props [of cs] by (force simp: find_None_iff)
  then show ?case
    using snoc by (cases c) (auto simp: table_of_snoc emplace_def first_claimer_def find_snoc image_iff split: option.splits)
qed

lemma rebuild_roots_find: "(r, f) \<in> set (rebuild_roots cs) \<longleftrightarrow> r \<noteq> [] \<and> first_claimer cs r = Some f"
proof -
  have "List.find (\<lambda>c. snd c = r) (filter (\<lambda>c. snd c \<noteq> []) cs) = (if r = [] then None else List.find (\<lambda>c. snd c = r) cs)"
    by (induction cs) auto
  then show ?thesis
    by (simp add: rebuild_roots_table table_of_find first_claimer_def)
qed

lemma claims_seen_table:
  assumes "owner_inv s" "sv_rootClaims s = now" "map_option sn_roots (sv_snap s) = map_option rebuild_roots fixed"
  shows "owner_table (server_run ops s) = rebuild_roots (claims_seen ops s now fixed)"
  using assms
proof (induction ops arbitrary: s now fixed)
  case Nil
  then show ?case
    by (auto simp: owner_table_def server_run_def inv_defs split: option.splits)
next
  case (Cons op ops)
  let ?now = "case op of DoSetRoot face path \<Rightarrow> if running_phase s then now else AList.update face path now | _ \<Rightarrow> now"
  let ?fixed = "case op of DoOpen probe outcome \<Rightarrow> if passes_check s then Some now else fixed | _ \<Rightarrow> fixed"
  have "sv_rootClaims (server_step op s) = ?now"
    using Cons(3) by (cases op) (simp_all add: Init_def MarkShared_def SetRootPath_def ZmRebuildRootOwners_def ZmClaimSlot_update
        AddListener_def ZmRebuildPortFace_def AddFilter_def RegisterCoro_def CheckRouteOwnership_def Open_def ValidateRouteOwnership_def
        Close_def split: start_outcome.split)
  moreover have "map_option sn_roots (sv_snap (server_step op s)) = map_option rebuild_roots ?fixed"
    using Cons(2-4) by (cases op) (auto simp: Init_def MarkShared_def SetRootPath_def ZmRebuildRootOwners_def
        AddListener_def ZmRebuildPortFace_def AddFilter_def RegisterCoro_def CheckRouteOwnership_def Open_def ValidateRouteOwnership_def
        Close_def passes_check_def inv_defs split: start_outcome.split)
  ultimately show ?case
    using Cons(1) [OF server_step_inv [OF Cons(2), of op], of ?now ?fixed] by (simp add: server_run_def)
qed


text \<open>In an open server the table is exactly what the faces claim.\<close>

lemma opened_table: "owner_inv s \<Longrightarrow> sv_state s = Opened \<Longrightarrow> owner_table s = sv_rootOwners s"
  by (auto simp: inv_defs owner_table_def split: option.splits)

lemma opened_roots:
  assumes "owner_inv s" "sv_state s = Opened"
  shows "(r, f) \<in> set (owner_table s) \<longleftrightarrow> r \<noteq> [] \<and> sv_root s f = r"
proof -
  let ?cs = "filter (\<lambda>c. snd c \<noteq> []) (sv_rootClaims s)"
  have "map snd ?cs = claimed_roots s"
    by (simp add: claimed_roots_def filter_map comp_def)
  moreover have "distinct (claimed_roots s)"
    using assms by (simp add: owner_inv_def opened_ok_def)
  ultimately have "set (table_of ?cs) = (\<lambda>c. (snd c, fst c)) ` set ?cs"
    by (intro table_of_all) simp
  moreover have "(f, r) \<in> set (sv_rootClaims s) \<longleftrightarrow> map_of (sv_rootClaims s) f = Some r"
    using assms(1) by (simp add: inv_defs)
  moreover have "sv_root s f = (case map_of (sv_rootClaims s) f of Some r \<Rightarrow> r | None \<Rightarrow> [])" "owner_table s = table_of ?cs"
    using assms(1) opened_table [OF assms] by (simp_all add: inv_defs rebuild_roots_table)
  ultimately show ?thesis
    by (auto simp: image_iff split: option.splits)
qed

lemma opened_roots_distinct:
  assumes "owner_inv s" "sv_state s = Opened" "sv_root s f = sv_root s g" "sv_root s f \<noteq> []"
  shows "f = g"
  using assms opened_roots [OF assms(1,2), of "sv_root s f"] owner_table_distinct [OF assms(1)] by (metis eq_key_imp_eq_value)

lemma opened_all_roots:
  assumes "owner_inv s" "sv_state s = Opened"
  shows "(\<forall>kf \<in> set (owner_table s). ZmPathUnderRoot path (fst kf) \<longrightarrow> Q (fst kf))
    \<longleftrightarrow> (\<forall>g. ZmPathUnderRoot path (sv_root s g) \<longrightarrow> Q (sv_root s g))"
proof -
  have "\<not> ZmPathUnderRoot path []"
    by (simp add: ZmPathUnderRoot_def)
  then have "(sv_root s g, g) \<in> set (owner_table s)" if "ZmPathUnderRoot path (sv_root s g)" for g
    using that opened_roots [OF assms] by (cases "sv_root s g = []") auto
  moreover have "fst kf = sv_root s (snd kf)" if "kf \<in> set (owner_table s)" for kf
    using that opened_roots [OF assms, of "fst kf" "snd kf"] by simp
  ultimately show ?thesis
    by (metis fst_conv)
qed

lemma opened_owner:
  assumes "owner_inv s" "sv_state s = Opened"
  shows "LookupOwner path s = Some f \<longleftrightarrow> ZmPathUnderRoot path (sv_root s f)
    \<and> (\<forall>g. ZmPathUnderRoot path (sv_root s g) \<longrightarrow> root_rank (sv_root s g) \<le> root_rank (sv_root s f))"
proof -
  have "\<not> ZmPathUnderRoot path []"
    by (simp add: ZmPathUnderRoot_def)
  then show ?thesis
    unfolding LookupOwner_def ZmLookupInTable_spec(1) [OF owner_table_distinct [OF assms(1)]]
      opened_roots [OF assms] opened_all_roots [OF assms, of path "\<lambda>r'. root_rank r' \<le> n" for n]
    by metis
qed

lemma opened_no_owner:
  assumes "owner_inv s" "sv_state s = Opened"
  shows "LookupOwner path s = None \<longleftrightarrow> (\<forall>f. \<not> ZmPathUnderRoot path (sv_root s f))"
  unfolding LookupOwner_def ZmLookupInTable_spec(2) [OF owner_table_distinct [OF assms(1)]]
  using opened_all_roots [OF assms, of path "\<lambda>r. False"] by simp

text \<open>C5: once the server is open, every route that was registered belongs to the face that registered it and lies under
  its root, no two faces have the same root, and a path belongs to the face with the most specific root above it.  This
  holds whatever was configured, refused, retried or failed before.\<close>
theorem open_server_routes_owned:
  "if sv_state (server_run ops new_server) = Opened
   then list_all (\<lambda>(f, path). LookupOwner path (server_run ops new_server) = Some f
          \<and> ZmPathUnderRoot path (sv_root (server_run ops new_server) f)) (sv_routes (server_run ops new_server))
     \<and> inj_on (sv_root (server_run ops new_server)) {f. sv_root (server_run ops new_server) f \<noteq> []}
   else True"
proof -
  let ?s = "server_run ops new_server"
  have inv: "owner_inv ?s"
    by (intro server_run_inv new_server_inv)
  have "LookupOwner path ?s = Some f \<and> ZmPathUnderRoot path (sv_root ?s f)" if "sv_state ?s = Opened" "(f, path) \<in> set (sv_routes ?s)" for f path
  proof -
    have "(f, path) \<in> set (sv_routeLog ?s)" "opened_ok ?s"
      using inv that(2) by (auto simp: owner_inv_def)
    then have "ZmLookupInTable (sv_rootOwners ?s) path = Some f"
      using that(1) by (fastforce simp: opened_ok_def)
    then have "LookupOwner path ?s = Some f"
      by (simp add: LookupOwner_def opened_table [OF inv that(1)])
    then show ?thesis
      using opened_owner [OF inv that(1)] by blast
  qed
  then show ?thesis
    using opened_roots_distinct [OF inv] by (auto simp: list_all_iff inj_on_def)
qed

text \<open>What the running server looks up is fixed: no later operation changes the owner of a path, the shared paths or
  the routes.\<close>
theorem open_server_frozen:
  assumes "sv_state (server_run ops new_server) = Opened"
  shows "LookupOwner path (server_run (ops @ later) new_server) = LookupOwner path (server_run ops new_server)
    \<and> IsSharedPath path (server_run (ops @ later) new_server) = IsSharedPath path (server_run ops new_server)
    \<and> sv_routes (server_run (ops @ later) new_server) = sv_routes (server_run ops new_server)"
proof -
  let ?s = "server_run ops new_server"
  have "sv_snap ?s \<noteq> None"
    using server_run_inv [OF new_server_inv, of ops] assms by (auto simp: inv_defs split: option.splits)
  moreover have "running_phase s \<and> sv_snap s \<noteq> None \<Longrightarrow>
      running_phase (server_run later s) \<and> sv_snap (server_run later s) = sv_snap s \<and> sv_routes (server_run later s) = sv_routes s" for s
  proof (induction later arbitrary: s)
    case (Cons op later)
    have "running_phase (server_step op s) \<and> sv_snap (server_step op s) = sv_snap s \<and> sv_routes (server_step op s) = sv_routes s"
      using Cons.prems
      by (cases op) (auto simp: running_phase_def Init_def Open_def Close_def SetRootPath_def AddListener_def MarkShared_def AddFilter_def
          RegisterCoro_def CheckRouteOwnership_def ZmRebuildPortFace_def)
    then show ?case
      using Cons by (simp add: server_run_def)
  qed (simp add: server_run_def)
  ultimately have "sv_snap (server_run later ?s) = sv_snap ?s \<and> sv_routes (server_run later ?s) = sv_routes ?s \<and> sv_snap ?s \<noteq> None"
    using assms by (simp add: running_phase_def)
  then show ?thesis
    by (auto simp: server_run_def LookupOwner_def IsSharedPath_def owner_table_def split: option.splits)
qed

theorem open_server_frozen_witness:
  "LookupOwner ''/api/x'' (server_run [DoInit, DoSetRoot 0 ''/api'', DoListen 0 80, DoOpen True Started, DoSetRoot 1 ''/api/x''] new_server)
    = Some 0"
  using open_server_frozen [of "[DoInit, DoSetRoot 0 ''/api'', DoListen 0 80, DoOpen True Started]" "''/api/x''" "[DoSetRoot 1 ''/api/x'']"]
  by (simp add: server_run_def new_server_def Init_def SetRootPath_def AddListener_def MarkShared_def Open_def ValidateRouteOwnership_def
      bad_entries_def conflicts_def ZmRebuildRootOwners_def ZmRebuildPortFace_def rebuild_roots_def rebuild_ports_def emplace_def
      running_phase_def IsInitialized_def IsOpened_def LookupOwner_def owner_table_def ZmLookupInTable_def ZmPathUnderRoot_def)

section \<open>Where the checks fall short\<close>

lemmas server_eval = server_run_def new_server_def Init_def SetRootPath_def AddListener_def MarkShared_def Open_def
  ValidateRouteOwnership_def bad_entries_def conflicts_def ZmRebuildRootOwners_def ZmRebuildPortFace_def rebuild_roots_def
  rebuild_ports_def emplace_def running_phase_def IsInitialized_def IsOpened_def LookupOwner_def owner_table_def
  ZmLookupInTable_def ZmPathUnderRoot_def RegisterCoro_def CheckRouteOwnership_def CheckFilterRegistered_def

text \<open>A failed \<open>Open\<close> (a port is taken) leaves its snapshot behind.  A root claimed after that is not seen by lookups, so the
  routes of the new face are refused although its claim stands and a second \<open>Open\<close> succeeds.\<close>

theorem failed_open_freezes_roots:
  fixes ops :: "server_op list"
  assumes "ops = [DoInit, DoSetRoot 0 ''/a'', DoListen 0 80, DoOpen False Started, DoSetRoot 1 ''/b'', DoRegister 1 ''/b/x'' [],
    DoOpen True Started]"
  shows "sv_state (server_run ops new_server) = Opened \<and> LookupOwner ''/b/x'' (server_run ops new_server) = Some 1
    \<and> sv_routes (server_run ops new_server) = []"
  by (simp add: assms server_eval)

text \<open>A route refused for an unknown filter stays in the log of routes; when the face then moves to another root, \<open>Open\<close>
  refuses to start because of a route that does not exist.\<close>

theorem refused_route_blocks_open:
  fixes ops :: "server_op list"
  assumes "ops = [DoInit, DoSetRoot 0 ''/a'', DoListen 0 80, DoRegister 0 ''/a/x'' [''auth''], DoSetRoot 0 ''/b'', DoOpen True Started]"
  shows "sv_state (server_run ops new_server) = Initialized \<and> sv_routes (server_run ops new_server) = []"
  by (simp add: assms server_eval)

text \<open>A root with a slash at its end owns nothing below it.\<close>

lemma root_with_slash_owns_nothing:
  assumes "root = r @ ''/''" "r \<noteq> []" "seg \<noteq> []" "CHR ''/'' \<notin> set seg"
  shows "\<not> ZmPathUnderRoot (root @ seg) root"
  using assms by (cases seg) (auto simp: ZmPathUnderRoot_def nth_append)

end
