(* ===== verification/HttpGate.thy ===== *)
theory HttpGate
  imports HttpOwner HttpCond
begin

text \<open>
  The gates of the three kinds of server faces and what the front end adds
  (\<open>net/zm_net_http_restful_server.cpp\<close>, \<open>net/zm_net_http_jsonrpc_server.cpp\<close>,
  \<open>net/zm_net_http_frontend_server.cpp\<close>).  All faces of a process share one routing table; a gate keeps a request that
  arrives at the port of a face away from the routes of the others.  The texts of the 400 and 404 pages are left out.

  A gate either passes a request on or answers it.  \<open>tolower\<close> is that of the C locale.
\<close>

section \<open>Gates\<close>

datatype advice = PassOn | Answer response

definition not_found :: response where
  "not_found = \<lparr>rs_status = 404, rs_headers = [], rs_body = NoBody\<rparr>"

definition IsLocalPortIn :: "face \<Rightarrow> u16 \<Rightarrow> server \<Rightarrow> bool" where
  "IsLocalPortIn f port s \<longleftrightarrow> sv_port s f = Some port"

definition restful_GateAdvice :: "face \<Rightarrow> u16 \<Rightarrow> string \<Rightarrow> server \<Rightarrow> advice" where
  "restful_GateAdvice f port path s =
    (if \<not> IsLocalPortIn f port s then PassOn
     else if sv_root s f = [] \<or> IsSharedPath path s \<or> path = sv_root s f \<or> prefix (sv_root s f @ ''/'') path then PassOn
     else Answer not_found)"

definition jsonrpc_GateAdvice :: "face \<Rightarrow> u16 \<Rightarrow> string \<Rightarrow> server \<Rightarrow> advice" where
  "jsonrpc_GateAdvice f port path s =
    (if \<not> IsLocalPortIn f port s then PassOn
     else if sv_root s f = [] \<or> IsSharedPath path s \<or> path = sv_root s f then PassOn
     else Answer not_found)"

definition PathUnderPrefixNoCase :: "string \<Rightarrow> string \<Rightarrow> bool" where
  "PathUnderPrefixNoCase path prefx \<longleftrightarrow>
    (if prefx = [] \<or> length path < length prefx then False
     else if map lower_char (take (length prefx) path) \<noteq> map lower_char prefx then False
     else length path = length prefx \<or> path ! length prefx = CHR ''/'')"

definition frontend_GateAdvice :: "string list \<Rightarrow> string list \<Rightarrow> face \<Rightarrow> u16 \<Rightarrow> string \<Rightarrow> server \<Rightarrow> advice" where
  "frontend_GateAdvice others denied f port path s =
    (let isSelf = IsLocalPortIn f port s; owner = LookupOwner path s in
     if isSelf \<and> (case owner of Some g \<Rightarrow> g \<noteq> f | None \<Rightarrow> False) then Answer not_found
     else if isSelf \<and> list_ex (PathUnderPrefixNoCase path) others then Answer not_found
     else if isSelf \<and> list_ex (PathUnderPrefixNoCase path) denied then Answer not_found
     else PassOn)"

definition SetupListeners :: "face \<Rightarrow> u16 \<Rightarrow> string \<Rightarrow> server \<Rightarrow> server" where
  "SetupListeners f port rootPath s = AddListener f port (if rootPath \<noteq> [] then SetRootPath f rootPath s else s)"

definition frontend_SetupListeners :: "bool \<Rightarrow> bool \<Rightarrow> face \<Rightarrow> string \<Rightarrow> server \<Rightarrow> server" where
  "frontend_SetupListeners redirectOnly useSSL f rootPath s =
    (let s = if rootPath \<noteq> [] then SetRootPath f rootPath s else s in
     if redirectOnly then AddListener f 80 s
     else if useSSL then AddListener f 443 s
     else AddListener f 80 s)"

definition AddDeniedPath :: "string \<Rightarrow> string list \<Rightarrow> string list" where
  "AddDeniedPath prefx denied = denied @ [prefx]"

definition AddOtherRootPath :: "string \<Rightarrow> string list \<Rightarrow> string list" where
  "AddOtherRootPath path others = (if path \<noteq> [] then others @ [path] else others)"

section \<open>Redirection\<close>

definition loc_unsafe :: "char \<Rightarrow> bool" where
  "loc_unsafe c \<longleftrightarrow> char_code c \<le> 0x20 \<or> 0x7F \<le> char_code c
     \<or> c \<in> {CHR 0x22, CHR ''#'', CHR ''%'', CHR ''<'', CHR ''>'', CHR ''['', CHR '']'', CHR 0x5C, CHR ''^'', CHR 0x60,
            CHR ''{'', CHR ''|'', CHR ''}''}"

definition ReencodePathForLocation :: "string \<Rightarrow> string" where
  "ReencodePathForLocation path =
    concat (map (\<lambda>c. if \<not> loc_unsafe c then [c] else [CHR ''%'', upper_hex (char_code c div 16), upper_hex (char_code c mod 16)]) path)"

text \<open>\<open>rfind\<close> of a character: the text before its last occurrence and after it.\<close>

definition has_port :: "string \<Rightarrow> bool" where
  "has_port host \<longleftrightarrow> CHR '':'' \<in> set host
     \<and> (CHR '']'' \<in> set host \<longrightarrow> length (takeWhile (\<lambda>c. c \<noteq> CHR '']'') host) < length host - 1 - length (takeWhile (\<lambda>c. c \<noteq> CHR '':'') (rev host)))"

definition strip_port :: "string \<Rightarrow> string" where
  "strip_port host = (if has_port host then rev (tl (dropWhile (\<lambda>c. c \<noteq> CHR '':'') (rev host))) else host)"

definition redirect_location :: "string \<Rightarrow> string \<Rightarrow> string \<Rightarrow> string" where
  "redirect_location host path query =
    ''https://'' @ strip_port host @ '':443'' @ ReencodePathForLocation path @ (if query \<noteq> [] then ''?'' @ query else [])"

definition SetRedirectStatus :: "int \<Rightarrow> int \<Rightarrow> int" where
  "SetRedirectStatus status cur = (if status \<in> {301, 302, 303, 307, 308} then status else cur)"

definition RedirectAdvice :: "int \<Rightarrow> face \<Rightarrow> u16 \<Rightarrow> string \<Rightarrow> string \<Rightarrow> string \<Rightarrow> server \<Rightarrow> advice" where
  "RedirectAdvice status f port host path query s =
    (if \<not> IsLocalPortIn f port s then PassOn
     else if host = [] then Answer \<lparr>rs_status = 400, rs_headers = [(''Connection'', ''close'')], rs_body = NoBody\<rparr>
     else Answer \<lparr>rs_status = nat status, rs_headers = [(''Location'', redirect_location host path query)], rs_body = NoBody\<rparr>)"

section \<open>Cache policy of static files\<close>

definition ExtOfPath :: "string \<Rightarrow> string" where
  "ExtOfPath path =
    (if CHR ''.'' \<notin> set path then []
     else let ext = rev (takeWhile (\<lambda>c. c \<noteq> CHR ''.'') (rev path)) in
       if ext = [] \<or> CHR ''/'' \<in> set ext then [] else CHR ''.'' # ext)"

definition header_of :: "response \<Rightarrow> string \<Rightarrow> string" where
  "header_of resp name = (case map_of (rs_headers resp) name of Some v \<Rightarrow> v | None \<Rightarrow> [])"

definition static_policy :: "string \<Rightarrow> (string \<times> string) list \<Rightarrow> string \<Rightarrow> string" where
  "static_policy defaultPolicy extPolicy path =
    (let ext = ExtOfPath path in
     if ext \<noteq> [] then (case map_of extPolicy ext of Some v \<Rightarrow> v | None \<Rightarrow> defaultPolicy) else defaultPolicy)"

definition CacheHeaderAdvice ::
  "string \<Rightarrow> (string \<times> string) list \<Rightarrow> face \<Rightarrow> u16 \<Rightarrow> string \<Rightarrow> server \<Rightarrow> response \<Rightarrow> response" where
  "CacheHeaderAdvice defaultPolicy extPolicy f port path s resp =
    (if \<not> IsLocalPortIn f port s then resp
     else if rs_status resp \<notin> {200, 206, 304} then resp
     else if header_of resp ''Last-Modified'' = [] \<or> header_of resp ''Cache-Control'' \<noteq> [] then resp
     else let policy = static_policy defaultPolicy extPolicy path in
       if policy \<noteq> [] then resp\<lparr>rs_headers := rs_headers resp @ [(''Cache-Control'', policy)]\<rparr> else resp)"

section \<open>The faces together\<close>

datatype face_kind =
    Restful
  | JsonRpc
  | Frontend "string list" "string list"   \<comment> \<open>other roots, denied prefixes\<close>
  | RedirectOnly int

record request =
  rq_port :: u16
  rq_path :: string
  rq_host :: string
  rq_query :: string

text \<open>\<open>RegisterRoutes\<close> of the three classes: a JSON-RPC face without a root registers nothing.\<close>

definition face_gate :: "face_kind \<Rightarrow> face \<Rightarrow> request \<Rightarrow> server \<Rightarrow> advice" where
  "face_gate kind f rq s =
    (case kind of
       Restful \<Rightarrow> restful_GateAdvice f (rq_port rq) (rq_path rq) s
     | JsonRpc \<Rightarrow> if sv_root s f = [] then PassOn else jsonrpc_GateAdvice f (rq_port rq) (rq_path rq) s
     | Frontend others denied \<Rightarrow> frontend_GateAdvice others denied f (rq_port rq) (rq_path rq) s
     | RedirectOnly status \<Rightarrow> RedirectAdvice status f (rq_port rq) (rq_host rq) (rq_path rq) (rq_query rq) s)"

fun advice_chain :: "(face_kind \<times> face) list \<Rightarrow> request \<Rightarrow> server \<Rightarrow> advice" where
  "advice_chain [] rq s = PassOn"
| "advice_chain ((kind, f) # faces) rq s = (case face_gate kind f rq s of PassOn \<Rightarrow> advice_chain faces rq s | Answer r \<Rightarrow> Answer r)"

lemma chain_passes: "advice_chain faces rq s = PassOn \<longleftrightarrow> (\<forall>(kind, f) \<in> set faces. face_gate kind f rq s = PassOn)"
  by (induction faces) (auto split: advice.splits)

lemma gate_of_other_port: "sv_port s f \<noteq> Some (rq_port rq) \<Longrightarrow> face_gate kind f rq s = PassOn"
  by (auto simp: face_gate_def restful_GateAdvice_def jsonrpc_GateAdvice_def frontend_GateAdvice_def RedirectAdvice_def
      IsLocalPortIn_def Let_def split: face_kind.split)

text \<open>What the gate of the face that has the port lets through.\<close>

definition admitted :: "face_kind \<Rightarrow> face \<Rightarrow> string \<Rightarrow> server \<Rightarrow> bool" where
  "admitted kind f path s \<longleftrightarrow>
    (case kind of
       Restful \<Rightarrow> LookupOwner path s = Some f
         \<or> (\<exists>g. LookupOwner path s = Some g \<and> prefix (sv_root s f @ ''/'') (sv_root s g))
     | JsonRpc \<Rightarrow> LookupOwner path s = Some f
     | Frontend others denied \<Rightarrow> LookupOwner path s \<in> {None, Some f}
     | RedirectOnly status \<Rightarrow> False)"

lemma own_root_owner:
  assumes "owner_inv s" "sv_state s = Opened" "sv_root s f \<noteq> []"
  shows "LookupOwner (sv_root s f) s = Some f"
proof -
  have "ZmPathUnderRoot (sv_root s f) (sv_root s f)"
    using assms(3) by (simp add: under_iff)
  moreover have "root_rank (sv_root s g) \<le> root_rank (sv_root s f)" if "ZmPathUnderRoot (sv_root s f) (sv_root s g)" for g
    using that by (auto simp: under_iff root_rank_def dest: prefix_length_le)
  ultimately show ?thesis
    by (simp add: opened_owner [OF assms(1,2)])
qed

text \<open>A path under the root of a face belongs to it or to a face whose root lies below that root.\<close>

lemma under_root_owner:
  assumes "owner_inv s" "sv_state s = Opened" "path = sv_root s f \<or> prefix (sv_root s f @ ''/'') path"
    "sv_root s f \<noteq> []" "sv_root s f \<noteq> ''/''"
  shows "LookupOwner path s = Some f \<or> (\<exists>g. LookupOwner path s = Some g \<and> prefix (sv_root s f @ ''/'') (sv_root s g))"
proof -
  have under: "ZmPathUnderRoot path (sv_root s f)"
    using assms(3,4) by (auto simp: under_iff)
  then obtain g where g: "LookupOwner path s = Some g"
    using opened_no_owner [OF assms(1,2), of path] by (cases "LookupOwner path s") auto
  then have best: "ZmPathUnderRoot path (sv_root s g)" "root_rank (sv_root s f) \<le> root_rank (sv_root s g)"
    using under opened_owner [OF assms(1,2), of path g] by auto
  have "0 < root_rank (sv_root s f)"
    using assms(4,5) by (simp add: root_rank_def)
  then have ng: "sv_root s g \<noteq> ''/''"
    using best(2) by (auto simp: root_rank_def)
  have len: "length (sv_root s f) \<le> length (sv_root s g)"
    using best(2) assms(5) ng by (simp add: root_rank_def)
  have pg: "prefix (sv_root s g) path" "path = sv_root s g \<or> prefix (sv_root s g @ ''/'') path"
    using best(1) ng by (auto simp: under_iff dest: append_prefixD)
  have pf: "prefix (sv_root s f) path"
    using assms(3) by (auto dest: append_prefixD)
  show ?thesis
  proof (cases "length (sv_root s f) = length (sv_root s g)")
    case True
    then have "sv_root s f = sv_root s g"
      using pf pg(1) by (auto simp: prefix_def)
    then show ?thesis
      using opened_roots_distinct [OF assms(1,2)] assms(4) g by metis
  next
    case False
    then have "length (sv_root s f @ ''/'') \<le> length (sv_root s g)"
      using len by simp
    moreover have "prefix (sv_root s f @ ''/'') path"
      using assms(3) pg(1) False len by (auto dest: prefix_length_le)
    ultimately have "prefix (sv_root s f @ ''/'') (sv_root s g)"
      using pg(1) by (metis prefix_length_prefix)
    then show ?thesis
      using g by blast
  qed
qed

section \<open>Correctness\<close>

lemma gate_passes:
  assumes "owner_inv s" "sv_state s = Opened" "face_gate kind f rq s = PassOn" "sv_port s f = Some (rq_port rq)"
    "sv_root s f \<noteq> []" "kind = Restful \<Longrightarrow> sv_root s f \<noteq> ''/''"
  shows "IsSharedPath (rq_path rq) s \<or> admitted kind f (rq_path rq) s"
proof (cases kind)
  case Restful
  then show ?thesis
    using assms under_root_owner [OF assms(1,2), of "rq_path rq" f]
    by (auto simp: face_gate_def restful_GateAdvice_def IsLocalPortIn_def admitted_def split: if_splits)
next
  case JsonRpc
  then show ?thesis
    using assms own_root_owner [OF assms(1,2,5)]
    by (auto simp: face_gate_def jsonrpc_GateAdvice_def IsLocalPortIn_def admitted_def split: if_splits)
next
  case (Frontend others denied)
  then show ?thesis
    using assms by (auto simp: face_gate_def frontend_GateAdvice_def IsLocalPortIn_def admitted_def Let_def split: if_splits option.splits)
next
  case (RedirectOnly status)
  then show ?thesis
    using assms by (auto simp: face_gate_def RedirectAdvice_def IsLocalPortIn_def split: if_splits)
qed


definition two_faces :: "server_op list" where
  "two_faces = [DoInit, DoSetRoot 2 ''/api'', DoListen 2 80, DoSetRoot 3 ''/api/v2'', DoListen 3 81,
     DoRegister 3 ''/api/v2/x'' [], DoOpen True Started]"

lemma two_faces_open: "sv_state (server_run two_faces new_server) = Opened"
  "sv_port (server_run two_faces new_server) 2 = Some 80" "sv_port (server_run two_faces new_server) 3 = Some 81"
  "sv_root (server_run two_faces new_server) 2 = ''/api''" "sv_root (server_run two_faces new_server) 3 = ''/api/v2''"
  "sv_routes (server_run two_faces new_server) = [(3, ''/api/v2/x'')]"
  "LookupOwner ''/api/v2/x'' (server_run two_faces new_server) = Some 3"
  "IsSharedPath ''/api/v2/x'' (server_run two_faces new_server) = False"
  by (simp_all add: two_faces_def server_eval IsSharedPath_def)


text \<open>A RESTful face with a root of its own can be reached: a request for a route it has registered, at its port,
  passes all gates, if no other face listens there.\<close>
theorem own_routes_reachable:
  assumes "sv_state (server_run ops new_server) = Opened" "(f, rq_path rq) \<in> set (sv_routes (server_run ops new_server))"
    and "sv_root (server_run ops new_server) f \<noteq> ''/''" "sv_port (server_run ops new_server) f = Some (rq_port rq)"
    and "\<And>kind g. (kind, g) \<in> set faces \<Longrightarrow> sv_port (server_run ops new_server) g = Some (rq_port rq) \<Longrightarrow> kind = Restful \<and> g = f"
  shows "advice_chain faces rq (server_run ops new_server) = PassOn"
proof -
  let ?s = "server_run ops new_server"
  have inv: "owner_inv ?s"
    by (intro server_run_inv new_server_inv)
  have "ZmLookupInTable (sv_rootOwners ?s) (rq_path rq) = Some f"
    using inv assms(1,2) by (fastforce simp: owner_inv_def opened_ok_def)
  then have "LookupOwner (rq_path rq) ?s = Some f"
    by (simp add: LookupOwner_def opened_table [OF inv assms(1)])
  then have "ZmPathUnderRoot (rq_path rq) (sv_root ?s f)"
    using opened_owner [OF inv assms(1)] by blast
  then have "face_gate Restful f rq ?s = PassOn"
    using assms(3) by (auto simp: face_gate_def restful_GateAdvice_def under_iff)
  then have "face_gate kind g rq ?s = PassOn" if "(kind, g) \<in> set faces" for kind g
    using assms(5) [OF that] gate_of_other_port [of ?s g rq kind] by blast
  then show ?thesis
    by (auto simp: chain_passes)
qed

theorem own_routes_reachable_witness:
  "advice_chain [(Restful, 2), (Restful, 3)] \<lparr>rq_port = 81, rq_path = ''/api/v2/x'', rq_host = [], rq_query = []\<rparr>
    (server_run two_faces new_server) = PassOn"
  by (rule own_routes_reachable [where f = 3]) (auto simp: two_faces_open)

text \<open>A RESTful face does not ask who owns a path: with the roots of two faces one below the other, the routes of the lower
  face are served at the port of the upper one.\<close>

theorem restful_gate_leaks:
  "advice_chain [(Restful, 2), (Restful, 3)] \<lparr>rq_port = 80, rq_path = ''/api/v2/x'', rq_host = [], rq_query = []\<rparr>
      (server_run two_faces new_server) = PassOn
    \<and> sv_port (server_run two_faces new_server) 2 = Some 80
    \<and> LookupOwner ''/api/v2/x'' (server_run two_faces new_server) = Some 3"
  by (simp add: two_faces_open face_gate_def restful_GateAdvice_def IsLocalPortIn_def)

text \<open>A RESTful face that claims the fallback root may register any route, and answers its own routes with 404.\<close>

definition fallback_face :: "server_op list" where
  "fallback_face = [DoInit, DoSetRoot 0 ''/'', DoListen 0 80, DoRegister 0 ''/x'' [], DoOpen True Started]"

theorem restful_fallback_unreachable:
  "sv_state (server_run fallback_face new_server) = Opened \<and> sv_routes (server_run fallback_face new_server) = [(0, ''/x'')]
    \<and> advice_chain [(Restful, 0)] \<lparr>rq_port = 80, rq_path = ''/x'', rq_host = [], rq_query = []\<rparr> (server_run fallback_face new_server)
      = Answer not_found"
  by (simp add: fallback_face_def server_eval IsSharedPath_def face_gate_def restful_GateAdvice_def IsLocalPortIn_def)

section \<open>Denied prefixes and redirection\<close>

lemma lower_map_take: "map lower_char (take n s) = take n (map lower_char s)"
  by (simp add: take_map)

text \<open>A denied prefix cannot be reached by writing it in other letters: whatever the case of its characters, the prefix
  itself and everything below it are refused at the port of the front end.\<close>
theorem denied_prefix_refused:
  assumes "map lower_char seg = map lower_char prefx" "prefx \<noteq> []" "prefx \<in> set denied"
    "rest = [] \<or> hd rest = CHR ''/''" "sv_port s f = Some port"
  shows "frontend_GateAdvice others denied f port (seg @ rest) s = Answer not_found"
proof -
  have "length seg = length prefx"
    using assms(1) by (metis length_map)
  then have "PathUnderPrefixNoCase (seg @ rest) prefx"
    using assms(1,2,4) by (cases rest) (auto simp: PathUnderPrefixNoCase_def nth_append)
  then have "list_ex (PathUnderPrefixNoCase (seg @ rest)) denied"
    using assms(3) by (auto simp: list_ex_iff)
  then show ?thesis
    using assms(5) by (simp add: frontend_GateAdvice_def IsLocalPortIn_def Let_def)
qed

theorem denied_prefix_refused_witness:
  "frontend_GateAdvice [] [''/secret''] 0 443 ''/SECRET/key'' (new_server\<lparr>sv_port := [0 \<mapsto> 443]\<rparr>) = Answer not_found"
proof -
  have "map lower_char ''/SECRET'' = map lower_char ''/secret''"
    by code_simp
  from denied_prefix_refused [OF this, of "[''/secret'']" "''/key''" "new_server\<lparr>sv_port := [0 \<mapsto> 443]\<rparr>" 0 443 "[]"]
  show ?thesis
    by simp
qed

text \<open>A redirection keeps the path: what stands in \<open>Location\<close> is printable ASCII, so a decoded line break cannot end the
  header, and it decodes to the path of the request.\<close>
theorem redirect_keeps_path:
  "list_all (\<lambda>c. 0x20 < char_code c \<and> char_code c < 0x7F) (ReencodePathForLocation path)
    \<and> percent_decode (ReencodePathForLocation path) = path"
proof
  have *: "0x20 < char_code (upper_hex n) \<and> char_code (upper_hex n) < 0x7F" if "n < 16" for n
    using hex_digit_facts [OF that] by (auto simp: is_alnum_char_def is_digit_def)
  have "char_code c div 16 < 16" "char_code c mod 16 < 16" for c
    using char_code_less [of c] by (simp_all add: less_mult_imp_div_less)
  then have "list_all (\<lambda>c. 0x20 < char_code c \<and> char_code c < 0x7F)
      (if \<not> loc_unsafe c then [c] else [CHR ''%'', upper_hex (char_code c div 16), upper_hex (char_code c mod 16)])" for c
    using * by (simp add: loc_unsafe_def not_le) (simp add: char_code_def)
  then show "list_all (\<lambda>c. 0x20 < char_code c \<and> char_code c < 0x7F) (ReencodePathForLocation path)"
    unfolding ReencodePathForLocation_def by (induction path) auto
  show "percent_decode (ReencodePathForLocation path) = path"
  proof (induction path)
    case (Cons c path)
    have "hex_value (upper_hex n) = n" if "n < 16" for n
      using hex_digit_facts [OF that] by simp
    moreover have "c \<noteq> CHR ''%''" if "\<not> loc_unsafe c"
      using that by (auto simp: loc_unsafe_def)
    moreover have "char_code c div 16 < 16" "char_code c mod 16 < 16"
      using char_code_less [of c] by (simp_all add: less_mult_imp_div_less)
    ultimately show ?case
      using Cons char_of_halves [of c] by (simp add: ReencodePathForLocation_def percent_decode_plain)
  qed (simp add: ReencodePathForLocation_def)
qed

lemma until_char: "c \<notin> set xs \<Longrightarrow> dropWhile (\<lambda>x. x \<noteq> c) (xs @ c # ys) = c # ys"
  "c \<notin> set xs \<Longrightarrow> takeWhile (\<lambda>x. x \<noteq> c) (xs @ c # ys) = xs"
  by (induction xs) auto

lemma strip_port_plain:
  assumes "CHR '':'' \<notin> set digits" "CHR '']'' \<notin> set digits" "CHR '']'' \<notin> set host"
  shows "strip_port (host @ '':'' @ digits) = host"
  using assms until_char [of "CHR '':''" "rev digits" "rev host"] by (simp add: strip_port_def has_port_def)

text \<open>The port of a bracketed IPv6 address is cut off and the colons inside the brackets are not.\<close>

lemma strip_port_bracketed:
  assumes "CHR '']'' \<notin> set a" "CHR '':'' \<notin> set digits" "CHR '']'' \<notin> set digits"
  shows "strip_port ((CHR ''['' # a @ '']'') @ '':'' @ digits) = CHR ''['' # a @ '']''"
    and "strip_port (CHR ''['' # a @ '']'') = CHR ''['' # a @ '']''"
proof -
  have "takeWhile (\<lambda>c. c \<noteq> CHR '']'') (CHR ''['' # a @ CHR '']'' # r) = CHR ''['' # a" for r
    using assms(1) until_char(2) [of "CHR '']''" "CHR ''['' # a" r] by simp
  moreover have "dropWhile (\<lambda>c. c \<noteq> CHR '':'') (rev digits @ CHR '':'' # r) = CHR '':'' # r"
    "takeWhile (\<lambda>c. c \<noteq> CHR '':'') (rev digits @ CHR '':'' # r) = rev digits" for r
    using assms(2) until_char [of "CHR '':''" "rev digits" r] by simp_all
  moreover have "length (takeWhile (\<lambda>c. c \<noteq> CHR '':'') (CHR '']'' # rev a @ [CHR ''[''])) \<noteq> 0"
    by simp
  ultimately show "strip_port ((CHR ''['' # a @ '']'') @ '':'' @ digits) = CHR ''['' # a @ '']''"
      "strip_port (CHR ''['' # a @ '']'') = CHR ''['' # a @ '']''"
    by (auto simp: strip_port_def has_port_def)
qed

end
