(* ===== verification/HttpPipe.thy ===== *)
theory HttpPipe
  imports HttpOwner HttpFile ZmJson
begin

text \<open>
  The way of a request through \<open>net/zm_net_http_server.cpp\<close>: the advice before routing (request identifier and start
  time, draining, size of the body), the single exit of all answers with its counters, and \<open>DrainAndClose\<close>, which waits
  on one of the counters.  The deadline of \<open>RegisterCoroWithDeadline\<close> is at the end.

  The counters are natural numbers: they are 64 bits wide and count requests.  The start time of a request is positive.
\<close>

section \<open>Request identifiers\<close>

definition id_char :: "char \<Rightarrow> bool" where
  "id_char c \<longleftrightarrow> is_alnum_char c \<or> c = CHR ''-'' \<or> c = CHR ''_'' \<or> c = CHR ''.''"

definition IsValidRequestId :: "string \<Rightarrow> bool" where
  "IsValidRequestId i \<longleftrightarrow> \<not> (i = [] \<or> 128 < length i) \<and> list_all id_char i"

definition MakeRequestId :: "nat \<Rightarrow> nat \<Rightarrow> string" where
  "MakeRequestId seconds n = ''zm-'' @ to_string seconds @ ''-'' @ to_string n"

section \<open>State\<close>

record metrics =
  m_total :: nat
  m_s2xx :: nat
  m_s3xx :: nat
  m_s4xx :: nat
  m_s5xx :: nat
  m_inflight :: nat
  m_le100 :: nat
  m_le500 :: nat
  m_le2s :: nat
  m_gt2s :: nat

text \<open>The attributes of a request; \<open>0\<close> and the empty text are what is read where nothing was written.\<close>

record exchange =
  ex_start :: int
  ex_rid :: string

record pipe =
  pp_metrics :: metrics
  pp_seq :: nat
  pp_draining :: bool
  pp_limit :: nat                   \<comment> \<open>\<open>s_nonStreamBodyLimit\<close>\<close>
  pp_active :: "exchange list"
  pp_lost :: nat                    \<comment> \<open>history: requests whose connection was gone before the answer\<close>
  pp_sent :: "(nat \<times> string) list"  \<comment> \<open>history: status and \<open>X-Request-Id\<close> of every answer\<close>

definition no_metrics :: metrics where
  "no_metrics = \<lparr>m_total = 0, m_s2xx = 0, m_s3xx = 0, m_s4xx = 0, m_s5xx = 0, m_inflight = 0, m_le100 = 0, m_le500 = 0,
     m_le2s = 0, m_gt2s = 0\<rparr>"

definition new_pipe :: "nat \<Rightarrow> pipe" where
  "new_pipe limit = \<lparr>pp_metrics = no_metrics, pp_seq = 1, pp_draining = False, pp_limit = limit, pp_active = [],
     pp_lost = 0, pp_sent = []\<rparr>"

section \<open>Before routing\<close>

definition RecordAccessStart :: "string \<Rightarrow> int \<Rightarrow> nat \<Rightarrow> pipe \<Rightarrow> exchange \<times> pipe" where
  "RecordAccessStart xrid now seconds p =
    (let p = p\<lparr>pp_metrics := (pp_metrics p)\<lparr>m_inflight := m_inflight (pp_metrics p) + 1\<rparr>\<rparr> in
     if xrid = [] \<or> \<not> IsValidRequestId xrid
     then (\<lparr>ex_start = now, ex_rid = MakeRequestId seconds (pp_seq p)\<rparr>, p\<lparr>pp_seq := pp_seq p + 1\<rparr>)
     else (\<lparr>ex_start = now, ex_rid = xrid\<rparr>, p))"

definition DrainGate :: "bool \<Rightarrow> string \<Rightarrow> response option" where
  "DrainGate draining path =
    (if \<not> draining then None
     else if path = ''/ready'' \<or> path = ''/metrics'' then None
     else Some ((ErrorResponse 503 ''server draining'')\<lparr>rs_headers := [(''Retry-After'', ''5'')]\<rparr>))"

text \<open>\<open>std::stoull\<close> on any text: white space, a sign, digits, and whatever follows; \<open>None\<close> is one of its two exceptions.\<close>

definition stoull_text :: "string \<Rightarrow> nat option" where
  "stoull_text s =
    (let s = dropWhile is_space s;
         neg = (s \<noteq> [] \<and> hd s = CHR ''-'');
         s = (if s \<noteq> [] \<and> (hd s = CHR ''-'' \<or> hd s = CHR ''+'') then tl s else s);
         ds = takeWhile is_digit s; v = dec_value ds in
     if ds = [] \<or> 2 ^ 64 \<le> v then None else Some (if neg then (2 ^ 64 - v) mod 2 ^ 64 else v))"

definition GateNonStreamBody :: "nat \<Rightarrow> string \<Rightarrow> string \<Rightarrow> response option" where
  "GateNonStreamBody limit cl xFileSize =
    (if 0 < limit \<and> cl \<noteq> [] then
       (case stoull_text cl of
          Some n \<Rightarrow> if limit < n \<and> xFileSize = [] then Some (ErrorResponse 413 ''body too large'') else None
        | None \<Rightarrow> None)
     else None)"

section \<open>The exit of all answers\<close>

definition count_status :: "nat \<Rightarrow> metrics \<Rightarrow> metrics" where
  "count_status code m =
    (if 500 \<le> code then m\<lparr>m_s5xx := m_s5xx m + 1\<rparr>
     else if 400 \<le> code then m\<lparr>m_s4xx := m_s4xx m + 1\<rparr>
     else if 300 \<le> code then m\<lparr>m_s3xx := m_s3xx m + 1\<rparr>
     else m\<lparr>m_s2xx := m_s2xx m + 1\<rparr>)"

definition count_cost :: "int \<Rightarrow> metrics \<Rightarrow> metrics" where
  "count_cost cost m =
    (if cost \<le> 100 then m\<lparr>m_le100 := m_le100 m + 1\<rparr>
     else if cost \<le> 500 then m\<lparr>m_le500 := m_le500 m + 1\<rparr>
     else if cost \<le> 2000 then m\<lparr>m_le2s := m_le2s m + 1\<rparr>
     else m\<lparr>m_gt2s := m_gt2s m + 1\<rparr>)"

definition settle :: "int \<Rightarrow> int \<Rightarrow> nat \<Rightarrow> metrics \<Rightarrow> metrics" where
  "settle start now code m =
    (if 0 < start
     then count_cost (now - start) (count_status code (m\<lparr>m_inflight := m_inflight m - 1, m_total := m_total m + 1\<rparr>))
     else m)"

definition FinalizeResponse :: "exchange \<Rightarrow> int \<Rightarrow> nat \<Rightarrow> pipe \<Rightarrow> pipe" where
  "FinalizeResponse ex now code p =
    p\<lparr>pp_metrics := settle (ex_start ex) now code (pp_metrics p),
      pp_sent := pp_sent p @ [(code, if ex_rid ex = [] then ''zm-unknown'' else ex_rid ex)]\<rparr>"

section \<open>Events\<close>

datatype pipe_event =
    Arrives string string string string int nat  \<comment> \<open>path, \<open>X-Request-Id\<close>, \<open>Content-Length\<close>, \<open>X-File-Size\<close>, time in ms, seconds\<close>
  | Answered nat int nat                         \<comment> \<open>which active request, time, status\<close>
  | Lost nat                                     \<comment> \<open>the connection of an active request is gone: its answer never leaves\<close>
  | Rejected int nat                             \<comment> \<open>an answer to a request that was never routed\<close>
  | StartsDraining

definition short_circuit :: "pipe \<Rightarrow> string \<Rightarrow> string \<Rightarrow> string \<Rightarrow> response option" where
  "short_circuit p path cl xFileSize =
    (case DrainGate (pp_draining p) path of Some r \<Rightarrow> Some r | None \<Rightarrow> GateNonStreamBody (pp_limit p) cl xFileSize)"

fun pipe_step :: "pipe_event \<Rightarrow> pipe \<Rightarrow> pipe" where
  "pipe_step (Arrives path xrid cl xFileSize now seconds) p =
    (case RecordAccessStart xrid now seconds p of (ex, p1) \<Rightarrow>
       (case short_circuit p1 path cl xFileSize of
          Some r \<Rightarrow> FinalizeResponse ex now (rs_status r) p1
        | None \<Rightarrow> p1\<lparr>pp_active := pp_active p1 @ [ex]\<rparr>))"
| "pipe_step (Answered i now code) p =
    (if i < length (pp_active p)
     then FinalizeResponse (pp_active p ! i) now code (p\<lparr>pp_active := take i (pp_active p) @ drop (Suc i) (pp_active p)\<rparr>)
     else p)"
| "pipe_step (Lost i) p =
    (if i < length (pp_active p)
     then p\<lparr>pp_active := take i (pp_active p) @ drop (Suc i) (pp_active p), pp_lost := pp_lost p + 1\<rparr>
     else p)"
| "pipe_step (Rejected now code) p = FinalizeResponse \<lparr>ex_start = 0, ex_rid = []\<rparr> now code p"
| "pipe_step StartsDraining p = p\<lparr>pp_draining := True\<rparr>"

definition pipe_run :: "pipe_event list \<Rightarrow> pipe \<Rightarrow> pipe" where
  "pipe_run es p = fold pipe_step es p"

text \<open>The clock reads more than 0 at every arrival.\<close>

fun clock_ok :: "pipe_event \<Rightarrow> bool" where
  "clock_ok (Arrives path xrid cl xFileSize now seconds) \<longleftrightarrow> 0 < now"
| "clock_ok e \<longleftrightarrow> True"

section \<open>Draining\<close>

text \<open>\<open>DrainAndClose\<close>: what the loop sees in each round is a pair of the counter and the clock (read after the counter); the
  result is that of the call, or \<open>None\<close> when the observations end before it does.\<close>

fun drain_loop :: "nat \<Rightarrow> int \<Rightarrow> (nat \<times> int) list \<Rightarrow> bool option" where
  "drain_loop timeoutMs deadline [] = None"
| "drain_loop timeoutMs deadline ((inflight, now) # obs) =
    (if inflight = 0 then Some True
     else if timeoutMs = 0 \<or> deadline \<le> now then Some False
     else drain_loop timeoutMs deadline obs)"

definition DrainAndClose :: "nat \<Rightarrow> int \<Rightarrow> (nat \<times> int) list \<Rightarrow> bool option" where
  "DrainAndClose timeoutMs now0 obs = drain_loop timeoutMs (now0 + int timeoutMs) obs"

section \<open>Deadlines\<close>

text \<open>\<open>ZmDeadlineState\<close>: the gate, whether the response callback is still there, and how often it was called with what.  The
  two parties are the timer (\<open>ZmDeadlineFire\<close>) and the coroutine (\<open>ZmDeadlineFinish\<close>); each takes the gate in one
  atomic exchange and acts after that, so their steps interleave.  A call of an empty callback is an error.\<close>

datatype party = NotYet | HasGate | Done

record deadline =
  dl_answered :: bool
  dl_cb :: bool
  dl_fire :: party
  dl_finish :: party
  dl_timer :: bool
  dl_replies :: "nat list"

definition new_deadline :: deadline where
  "new_deadline = \<lparr>dl_answered = False, dl_cb = True, dl_fire = NotYet, dl_finish = NotYet, dl_timer = True, dl_replies = []\<rparr>"

datatype deadline_event =
    FireGate           \<comment> \<open>the exchange of the timer\<close>
  | FireAct bool       \<comment> \<open>the rest of it; is the connection still there\<close>
  | FinishGate
  | FinishAct bool nat \<comment> \<open>connection, status of the answer\<close>

definition send_reply :: "nat \<Rightarrow> deadline \<Rightarrow> mem_error + deadline" where
  "send_reply code d = (if dl_cb d then Inr (d\<lparr>dl_replies := dl_replies d @ [code]\<rparr>) else Inl NullPointer)"

fun deadline_step :: "deadline_event \<Rightarrow> deadline \<Rightarrow> mem_error + deadline" where
  "deadline_step FireGate d =
    Inr (if dl_fire d \<noteq> NotYet \<or> \<not> dl_timer d then d
         else if dl_answered d then d\<lparr>dl_fire := Done\<rparr>
         else d\<lparr>dl_answered := True, dl_fire := HasGate\<rparr>)"
| "deadline_step (FireAct connected) d =
    (if dl_fire d \<noteq> HasGate then Inr d
     else let d = d\<lparr>dl_fire := Done\<rparr> in
       if \<not> connected then Inr d
       else case send_reply 504 d of Inl e \<Rightarrow> Inl e | Inr d \<Rightarrow> Inr (d\<lparr>dl_cb := False\<rparr>))"
| "deadline_step FinishGate d =
    Inr (if dl_finish d \<noteq> NotYet then d
         else if dl_answered d then d\<lparr>dl_finish := Done\<rparr>
         else d\<lparr>dl_answered := True, dl_finish := HasGate\<rparr>)"
| "deadline_step (FinishAct connected code) d =
    (if dl_finish d \<noteq> HasGate then Inr d
     else let d = d\<lparr>dl_finish := Done, dl_timer := False\<rparr> in
       if \<not> connected then Inr (d\<lparr>dl_cb := False\<rparr>)
       else case send_reply code d of Inl e \<Rightarrow> Inl e | Inr d \<Rightarrow> Inr (d\<lparr>dl_cb := False\<rparr>))"

section \<open>Counters\<close>

definition sent_id_ok :: "nat \<times> string \<Rightarrow> bool" where
  "sent_id_ok r \<longleftrightarrow> snd r \<noteq> [] \<and> list_all id_char (snd r)"

definition pipe_inv :: "pipe \<Rightarrow> bool" where
  "pipe_inv p \<longleftrightarrow> m_total (pp_metrics p) = m_s2xx (pp_metrics p) + m_s3xx (pp_metrics p) + m_s4xx (pp_metrics p) + m_s5xx (pp_metrics p)
     \<and> m_total (pp_metrics p) = m_le100 (pp_metrics p) + m_le500 (pp_metrics p) + m_le2s (pp_metrics p) + m_gt2s (pp_metrics p)
     \<and> m_inflight (pp_metrics p) = length (pp_active p) + pp_lost p
     \<and> (\<forall>ex \<in> set (pp_active p). 0 < ex_start ex \<and> ex_rid ex \<noteq> [] \<and> list_all id_char (ex_rid ex))
     \<and> list_all sent_id_ok (pp_sent p)"

lemma digits_id: "list_all id_char (to_string n)"
proof (induction n rule: to_string.induct)
  case (1 n)
  have "id_char (dec_digit d)" if "d < 10" for d
    using that by (simp add: id_char_def is_alnum_char_def is_digit_def dec_digit_def char_code_def)
  then show ?case
    using 1 by (subst to_string.simps) simp
qed

lemma MakeRequestId_ok: "MakeRequestId seconds n \<noteq> [] \<and> list_all id_char (MakeRequestId seconds n)"
  by (simp add: MakeRequestId_def digits_id id_char_def is_alnum_char_def is_digit_def char_code_def)

lemma IsValidRequestId_ok: "IsValidRequestId i \<Longrightarrow> i \<noteq> [] \<and> list_all id_char i"
  by (simp add: IsValidRequestId_def)

lemma settle_counts:
  "0 < start \<Longrightarrow> m_inflight (settle start now code m) = m_inflight m - 1"
  "0 < start \<Longrightarrow> m_total (settle start now code m) = m_total m + 1"
  "0 < start \<Longrightarrow> m_s2xx (settle start now code m) + m_s3xx (settle start now code m) + m_s4xx (settle start now code m)
     + m_s5xx (settle start now code m) = m_s2xx m + m_s3xx m + m_s4xx m + m_s5xx m + 1"
  "0 < start \<Longrightarrow> m_le100 (settle start now code m) + m_le500 (settle start now code m) + m_le2s (settle start now code m)
     + m_gt2s (settle start now code m) = m_le100 m + m_le500 m + m_le2s m + m_gt2s m + 1"
  "\<not> 0 < start \<Longrightarrow> settle start now code m = m"
  by (simp_all add: settle_def count_cost_def count_status_def)

lemma finalize_inv:
  assumes "pipe_inv p" "0 < ex_start ex" "ex_rid ex \<noteq> []" "list_all id_char (ex_rid ex)"
    and "pipe_inv q \<Longrightarrow> True" "q = p\<lparr>pp_metrics := (pp_metrics p)\<lparr>m_inflight := m_inflight (pp_metrics p) + 1\<rparr>, pp_seq := n\<rparr>"
  shows "pipe_inv (FinalizeResponse ex now code q)"
  using assms settle_counts(1-4) [OF assms(2), of now code "pp_metrics q"]
  by (simp add: pipe_inv_def FinalizeResponse_def sent_id_ok_def)

lemma record_start:
  assumes "RecordAccessStart xrid now seconds p = (ex, p1)"
  shows "ex_start ex = now \<and> ex_rid ex \<noteq> [] \<and> list_all id_char (ex_rid ex)
    \<and> (\<exists>n. p1 = p\<lparr>pp_metrics := (pp_metrics p)\<lparr>m_inflight := m_inflight (pp_metrics p) + 1\<rparr>, pp_seq := n\<rparr>)"
  using assms MakeRequestId_ok IsValidRequestId_ok
  by (auto simp: RecordAccessStart_def Let_def split: if_splits) (metis pipe.surjective pipe.update_convs(2))+

lemma pipe_step_inv:
  assumes "pipe_inv p" "clock_ok e"
  shows "pipe_inv (pipe_step e p)"
proof (cases e)
  case (Arrives path xrid cl xFileSize now seconds)
  obtain ex p1 where r: "RecordAccessStart xrid now seconds p = (ex, p1)"
    by force
  note s = record_start [OF r]
  then obtain n where n: "p1 = p\<lparr>pp_metrics := (pp_metrics p)\<lparr>m_inflight := m_inflight (pp_metrics p) + 1\<rparr>, pp_seq := n\<rparr>"
    by blast
  show ?thesis
  proof (cases "short_circuit p1 path cl xFileSize")
    case None
    then show ?thesis
      using Arrives assms r s n by (auto simp: pipe_inv_def)
  next
    case (Some resp)
    then show ?thesis
      using Arrives assms r s finalize_inv [OF assms(1), of ex p1 n now "rs_status resp"] n by simp
  qed
next
  case (Answered i now code)
  show ?thesis
  proof (cases "i < length (pp_active p)")
    case True
    let ?ex = "pp_active p ! i" and ?rest = "take i (pp_active p) @ drop (Suc i) (pp_active p)"
    have "0 < ex_start ?ex" "ex_rid ?ex \<noteq> []" "list_all id_char (ex_rid ?ex)"
      using assms(1) True nth_mem [OF True] by (auto simp: pipe_inv_def)
    moreover have "set ?rest \<subseteq> set (pp_active p)" "length ?rest + 1 = length (pp_active p)"
      using True by (auto dest: in_set_takeD in_set_dropD)
    ultimately show ?thesis
      using Answered True assms(1) settle_counts(1-4) [of "ex_start ?ex" now code "pp_metrics p"]
      by (auto simp: pipe_inv_def FinalizeResponse_def sent_id_ok_def)
  next
    case False
    then show ?thesis
      using Answered assms(1) by simp
  qed
next
  case (Lost i)
  have "set (take i (pp_active p) @ drop (Suc i) (pp_active p)) \<subseteq> set (pp_active p)"
    by (auto dest: in_set_takeD in_set_dropD)
  then show ?thesis
    using Lost assms(1) by (auto simp: pipe_inv_def)
next
  case (Rejected now code)
  then show ?thesis
    using assms(1) by (simp add: pipe_inv_def FinalizeResponse_def settle_def sent_id_ok_def id_char_def is_alnum_char_def
        is_digit_def char_code_def)
next
  case StartsDraining
  then show ?thesis
    using assms(1) by (simp add: pipe_inv_def)
qed

lemma new_pipe_inv: "pipe_inv (new_pipe limit)"
  by (simp add: pipe_inv_def new_pipe_def no_metrics_def)

lemma pipe_run_inv: "pipe_inv p \<Longrightarrow> list_all clock_ok es \<Longrightarrow> pipe_inv (pipe_run es p)"
  unfolding pipe_run_def by (induction es arbitrary: p) (simp_all add: pipe_step_inv)

text \<open>C25: the counters agree with what has happened, in every order of events: the classes of status and the classes of delay
  both add up to the number of answers settled, the requests in flight are those being handled and those whose connection
  was lost, and every answer carries a request identifier of harmless characters, whatever the client sent.\<close>
theorem metrics_agree:
  assumes "list_all clock_ok es"
  shows "let p = pipe_run es (new_pipe limit); m = pp_metrics p in
    m_total m = m_s2xx m + m_s3xx m + m_s4xx m + m_s5xx m \<and> m_total m = m_le100 m + m_le500 m + m_le2s m + m_gt2s m
    \<and> m_inflight m = length (pp_active p) + pp_lost p \<and> list_all sent_id_ok (pp_sent p)"
  using pipe_run_inv [OF new_pipe_inv assms, of limit] unfolding pipe_inv_def Let_def by blast

theorem metrics_agree_witness:
  "m_inflight (pp_metrics (pipe_run [Arrives ''/a'' ''x'' [] [] 5 1, Lost 0] (new_pipe 0))) = 1"
proof -
  have "IsValidRequestId ''x''"
    by (simp add: IsValidRequestId_def id_char_def is_alnum_char_def is_digit_def char_code_def)
  then have "pp_active (pipe_run [Arrives ''/a'' ''x'' [] [] 5 1, Lost 0] (new_pipe 0)) = []"
    "pp_lost (pipe_run [Arrives ''/a'' ''x'' [] [] 5 1, Lost 0] (new_pipe 0)) = 1"
    by (simp_all add: pipe_run_def RecordAccessStart_def short_circuit_def DrainGate_def GateNonStreamBody_def new_pipe_def)
  then show ?thesis
    using metrics_agree [of "[Arrives ''/a'' ''x'' [] [] 5 1, Lost 0]" 0] unfolding Let_def by simp
qed

section \<open>Draining: correctness\<close>

lemma draining_admits_nothing:
  assumes "pp_draining p" "path \<noteq> ''/ready''" "path \<noteq> ''/metrics''"
  shows "pp_active (pipe_step (Arrives path xrid cl xFileSize now seconds) p) = pp_active p
    \<and> fst (last (pp_sent (pipe_step (Arrives path xrid cl xFileSize now seconds) p))) = 503"
  using assms by (auto simp: RecordAccessStart_def Let_def short_circuit_def DrainGate_def FinalizeResponse_def ErrorResponse_def)

definition expired :: "nat \<Rightarrow> int \<Rightarrow> int \<Rightarrow> bool" where
  "expired timeoutMs now0 now \<longleftrightarrow> timeoutMs = 0 \<or> now0 + int timeoutMs \<le> now"

lemma drain_loop_first:
  "drain_loop timeoutMs (now0 + int timeoutMs) obs =
    map_option (\<lambda>ob. fst ob = 0) (List.find (\<lambda>ob. fst ob = 0 \<or> expired timeoutMs now0 (snd ob)) obs)"
  by (induction timeoutMs "now0 + int timeoutMs" obs rule: drain_loop.induct) (auto simp: expired_def)

text \<open>Draining ends and says how: as soon as a round sees no request in flight or the time over, the call returns, and it
  returns True exactly if the first such round saw no request in flight.\<close>
theorem drain_returns:
  assumes "list_ex (\<lambda>(inflight, now). inflight = 0 \<or> timeoutMs = 0 \<or> now0 + int timeoutMs \<le> now) obs"
  shows "\<exists>ob \<in> set obs. DrainAndClose timeoutMs now0 obs = Some (fst ob = 0)
    \<and> List.find (\<lambda>(inflight, now). inflight = 0 \<or> timeoutMs = 0 \<or> now0 + int timeoutMs \<le> now) obs = Some ob"
proof -
  let ?P = "\<lambda>(inflight, now). inflight = 0 \<or> timeoutMs = 0 \<or> now0 + int timeoutMs \<le> now"
  have P: "(\<lambda>ob :: nat \<times> int. fst ob = 0 \<or> expired timeoutMs now0 (snd ob)) = ?P"
    by (auto simp: expired_def fun_eq_iff)
  obtain ob where ob: "List.find ?P obs = Some ob"
    using assms by (cases "List.find ?P obs") (auto simp: find_None_iff list_ex_iff)
  then have "ob \<in> set obs"
    using nth_mem by (fastforce simp: find_Some_iff)
  then show ?thesis
    using ob by (auto simp: DrainAndClose_def drain_loop_first P)
qed

theorem drain_returns_witness: "DrainAndClose 20 100 [(2, 100), (1, 110), (0, 115)] = Some True"
  using drain_returns [of 20 100 "[(2, 100), (1, 110), (0, 115)]"] by simp

text \<open>A request whose connection is lost is never settled, so from then on the counter stays above zero and draining can only
  end by its time-out.\<close>

lemma pipe_lost_mono: "pp_lost p \<le> pp_lost (pipe_step e p)"
  by (cases e) (auto simp: RecordAccessStart_def Let_def FinalizeResponse_def split: option.split)

lemma pipe_run_lost_mono: "pp_lost p \<le> pp_lost (pipe_run fs p)"
  unfolding pipe_run_def by (induction fs arbitrary: p) (auto intro: le_trans [OF pipe_lost_mono])

theorem lost_request_spoils_drain:
  assumes "list_all clock_ok (es @ fs)" "pp_lost (pipe_run es (new_pipe limit)) \<noteq> 0"
  shows "m_inflight (pp_metrics (pipe_run (es @ fs) (new_pipe limit))) \<noteq> 0"
proof -
  have "pipe_inv (pipe_run (es @ fs) (new_pipe limit))"
    by (rule pipe_run_inv [OF new_pipe_inv assms(1)])
  moreover have "pp_lost (pipe_run es (new_pipe limit)) \<le> pp_lost (pipe_run (es @ fs) (new_pipe limit))"
    using pipe_run_lost_mono [of "pipe_run es (new_pipe limit)" fs] by (simp add: pipe_run_def)
  ultimately show ?thesis
    using assms(2) by (simp add: pipe_inv_def)
qed

section \<open>Deadlines: correctness\<close>

text \<open>Who has the gate is the only one to touch the callback.\<close>

definition deadline_inv :: "deadline \<Rightarrow> bool" where
  "deadline_inv d \<longleftrightarrow> length (dl_replies d) \<le> 1
     \<and> (\<not> dl_answered d \<longrightarrow> dl_fire d = NotYet \<and> dl_finish d = NotYet)
     \<and> (dl_fire d = HasGate \<longrightarrow> dl_finish d \<noteq> HasGate)
     \<and> (\<not> dl_answered d \<or> dl_fire d = HasGate \<or> dl_finish d = HasGate \<longrightarrow> dl_cb d \<and> dl_replies d = [])"

lemma deadline_step_inv: "deadline_inv d \<Longrightarrow> \<exists>d'. deadline_step e d = Inr d' \<and> deadline_inv d'"
  by (cases e) (auto simp: deadline_inv_def send_reply_def Let_def)

lemma new_deadline_inv: "deadline_inv new_deadline"
  by (simp add: deadline_inv_def new_deadline_def)

interpretation deadline_sys: total_system deadline_inv "\<lambda>e. True" deadline_step
proof
  fix d e d'
  assume "deadline_inv d" "deadline_step e d = Inr d'"
  then show "deadline_inv d'"
    using deadline_step_inv [of d e] by auto
next
  fix d e
  assume "deadline_inv d"
  then show "\<exists>d'. deadline_step e d = Inr d'"
    using deadline_step_inv [of d e] by auto
qed

text \<open>C20: a request with a deadline is answered at most once, in every interleaving of the timer and the coroutine, and an
  empty callback is never called.  Once both are through, it has been answered if the connection was there all the time.\<close>
theorem deadline_answers_once:
  "\<exists>d. run_steps deadline_step es new_deadline = Inr d \<and> length (dl_replies d) \<le> 1
    \<and> (if dl_answered d \<and> dl_fire d \<noteq> HasGate \<and> dl_finish d \<noteq> HasGate \<and> \<not> list_ex (\<lambda>e. e = FireAct False \<or> (\<exists>c. e = FinishAct False c)) es
       then length (dl_replies d) = 1 else True)"
proof -
  have 1: "\<exists>d. run_steps deadline_step es new_deadline = Inr d \<and> deadline_inv d"
    using deadline_sys.run_total [OF new_deadline_inv, of es] by simp
  have "dl_answered d \<longrightarrow> dl_fire d = HasGate \<or> dl_finish d = HasGate \<or> length (dl_replies d) = 1"
    if "run_steps deadline_step es d0 = Inr d" "\<not> list_ex (\<lambda>e. e = FireAct False \<or> (\<exists>c. e = FinishAct False c)) es" "deadline_inv d0"
      "dl_answered d0 \<longrightarrow> dl_fire d0 = HasGate \<or> dl_finish d0 = HasGate \<or> length (dl_replies d0) = 1" for d0 d
    using that
  proof (induction es arbitrary: d0)
    case (Cons e es)
    obtain d1 where d1: "deadline_step e d0 = Inr d1" "deadline_inv d1"
      using deadline_step_inv [OF Cons.prems(3)] by blast
    have "dl_answered d1 \<longrightarrow> dl_fire d1 = HasGate \<or> dl_finish d1 = HasGate \<or> length (dl_replies d1) = 1"
      using d1(1) Cons.prems(2-4)
      by (cases e) (auto simp: deadline_inv_def send_reply_def Let_def split: if_splits)
    then show ?case
      using Cons.IH [of d1] Cons.prems(1,2) d1 by simp
  qed simp
  then show ?thesis
    using 1 new_deadline_inv by (fastforce simp: deadline_inv_def new_deadline_def)
qed

end
