(* ===== verification/HttpLife.thy ===== *)
theory HttpLife
  imports HttpOwner
begin

text \<open>
  \<open>Open\<close> and \<open>Close\<close> of \<open>net/zm_net_http_server.cpp\<close> with any number of callers and the threads that run the event loop,
  as a transition system.  A step is what happens under \<open>s_stateMtx\<close> between two waits; a caller that keeps the mutex while
  it joins a thread is named in \<open>lf_lock\<close>.  A caller in \<open>wait\<close> goes on when its condition holds (every change of the
  condition is notified under the mutex).

  The checks of \<open>Open\<close> before the start are those of the theory on ownership; here they have passed or not.  A run thread
  starts its loop or ends with an exception whenever it likes; \<open>quit\<close> reaches only a loop that is running.
\<close>

section \<open>States\<close>

datatype life_thread = Starting | Looping | Quitting | Ended

datatype life_caller =
    Free "bool option"      \<comment> \<open>not in a call; the answer of the last \<open>Open\<close>\<close>
  | OpenDestroy nat         \<comment> \<open>in \<open>Open\<close> with the mutex, destroying the thread object left from a time-out\<close>
  | OpenWait                \<comment> \<open>waiting for the start\<close>
  | OpenJoin nat            \<comment> \<open>in \<open>Open\<close> with the mutex, joining the thread that has failed\<close>
  | CloseGate               \<comment> \<open>waiting for the end of another \<open>Close\<close>\<close>
  | CloseWait               \<comment> \<open>waiting until the loop has started or failed\<close>
  | CloseJoin "nat option"  \<comment> \<open>joining without the mutex\<close>
  | CloseEnd                \<comment> \<open>before the last region\<close>

record life =
  lf_state :: run_state
  lf_startReady :: bool
  lf_runError :: bool
  lf_closing :: bool
  lf_slot :: "nat option"    \<comment> \<open>\<open>s_runThread\<close>\<close>
  lf_lock :: "nat option"
  lf_callers :: "life_caller list"
  lf_threads :: "life_thread list"

definition new_life :: "nat \<Rightarrow> life" where
  "new_life n = \<lparr>lf_state = Initialized, lf_startReady = False, lf_runError = False, lf_closing = False, lf_slot = None,
     lf_lock = None, lf_callers = replicate n (Free None), lf_threads = []\<rparr>"

section \<open>Regions\<close>

definition go :: "nat \<Rightarrow> life_caller \<Rightarrow> life \<Rightarrow> life" where
  "go i c s = s\<lparr>lf_callers := (lf_callers s)[i := c]\<rparr>"

definition set_thread :: "nat \<Rightarrow> life_thread \<Rightarrow> life \<Rightarrow> life" where
  "set_thread k r s = s\<lparr>lf_threads := (lf_threads s)[k := r]\<rparr>"

definition start_thread :: "nat \<Rightarrow> bool \<Rightarrow> life \<Rightarrow> life" where
  "start_thread i started s =
    (if started then go i OpenWait (s\<lparr>lf_slot := Some (length (lf_threads s)), lf_threads := lf_threads s @ [Starting]\<rparr>)
     else go i (Free (Some False)) (s\<lparr>lf_slot := None, lf_state := Initialized\<rparr>))"

text \<open>\<open>Open\<close> up to its wait; the assignment to \<open>s_runThread\<close> destroys, and so joins, a thread that is still there.\<close>

definition Open_region :: "nat \<Rightarrow> bool \<Rightarrow> bool \<Rightarrow> life \<Rightarrow> life" where
  "Open_region i checked started s =
    (if lf_state s \<noteq> Initialized \<or> \<not> checked then go i (Free (Some False)) s
     else let s = s\<lparr>lf_runError := False, lf_state := Opened, lf_startReady := False\<rparr> in
       case lf_slot s of
         Some k \<Rightarrow> go i (OpenDestroy k) (s\<lparr>lf_lock := Some i\<rparr>)
       | None \<Rightarrow> start_thread i started s)"

definition startReady_pred :: "life \<Rightarrow> bool" where
  "startReady_pred s \<longleftrightarrow> lf_runError s \<or> lf_startReady s \<or> lf_state s = Closed"

definition app_quit :: "life_thread list \<Rightarrow> life_thread list" where
  "app_quit = map (\<lambda>r. if r = Looping then Quitting else r)"

definition Open_result :: "nat \<Rightarrow> life \<Rightarrow> life" where
  "Open_result i s =
    (if lf_state s = Closed then go i (Free (Some False)) s
     else if lf_runError s then
       (case lf_slot s of
          Some k \<Rightarrow> go i (OpenJoin k) (s\<lparr>lf_threads := app_quit (lf_threads s), lf_lock := Some i\<rparr>)
        | None \<Rightarrow> go i (Free (Some False)) (s\<lparr>lf_state := Initialized\<rparr>))
     else go i (Free (Some True)) s)"

definition Close_take :: "nat \<Rightarrow> life \<Rightarrow> life" where
  "Close_take i s = go i (CloseJoin (lf_slot s))
    (s\<lparr>lf_slot := None, lf_state := Closed, lf_closing := True, lf_threads := app_quit (lf_threads s)\<rparr>)"

definition Close_region :: "nat \<Rightarrow> life \<Rightarrow> life" where
  "Close_region i s =
    (if lf_state s = Uninit \<or> lf_state s = Closed then go i (Free None) s
     else if lf_state s = Initialized then go i (Free None) (s\<lparr>lf_state := Closed\<rparr>)
     else if lf_slot s = None then Close_take i s
     else go i CloseWait s)"

definition Close_finish :: "nat \<Rightarrow> life \<Rightarrow> life" where
  "Close_finish i s = go i (Free None) (s\<lparr>lf_closing := False\<rparr>)"

section \<open>Steps\<close>

abbreviation at_caller :: "life \<Rightarrow> nat \<Rightarrow> life_caller \<Rightarrow> bool" where
  "at_caller s i c \<equiv> i < length (lf_callers s) \<and> lf_callers s ! i = c"

abbreviation at_thread :: "life \<Rightarrow> nat \<Rightarrow> life_thread \<Rightarrow> bool" where
  "at_thread s k r \<equiv> k < length (lf_threads s) \<and> lf_threads s ! k = r"

datatype life_label = CallOpen | StartFails | CallClose nat | TimesOut | Crashes | Moves

inductive life_step :: "life_label \<Rightarrow> life \<Rightarrow> life \<Rightarrow> bool" where
  open_call: "at_caller s i (Free a) \<Longrightarrow> lf_lock s = None \<Longrightarrow> life_step CallOpen s (Open_region i checked True s)"
| open_fails: "at_caller s i (Free a) \<Longrightarrow> lf_lock s = None \<Longrightarrow> life_step StartFails s (Open_region i checked False s)"
| open_destroyed: "at_caller s i (OpenDestroy k) \<Longrightarrow> at_thread s k Ended \<Longrightarrow>
    life_step Moves s (start_thread i True (s\<lparr>lf_lock := None\<rparr>))"
| open_result: "at_caller s i OpenWait \<Longrightarrow> lf_lock s = None \<Longrightarrow> startReady_pred s \<Longrightarrow> life_step Moves s (Open_result i s)"
| open_timeout: "at_caller s i OpenWait \<Longrightarrow> lf_lock s = None \<Longrightarrow> \<not> startReady_pred s \<Longrightarrow>
    life_step TimesOut s (go i (Free (Some False)) (s\<lparr>lf_state := Initialized\<rparr>))"
| open_joined: "at_caller s i (OpenJoin k) \<Longrightarrow> at_thread s k Ended \<Longrightarrow>
    life_step Moves s (go i (Free (Some False)) (s\<lparr>lf_lock := None, lf_slot := None, lf_state := Initialized\<rparr>))"
| close_call: "at_caller s i (Free a) \<Longrightarrow> life_step (CallClose i) s (go i CloseGate s)"
| close_gate: "at_caller s i CloseGate \<Longrightarrow> lf_lock s = None \<Longrightarrow> \<not> lf_closing s \<Longrightarrow> life_step Moves s (Close_region i s)"
| close_wait: "at_caller s i CloseWait \<Longrightarrow> lf_lock s = None \<Longrightarrow> lf_startReady s \<or> lf_runError s \<Longrightarrow>
    life_step Moves s (Close_take i s)"
| close_join: "at_caller s i (CloseJoin (Some k)) \<Longrightarrow> at_thread s k Ended \<Longrightarrow> life_step Moves s (go i CloseEnd s)"
| close_nothing: "at_caller s i (CloseJoin None) \<Longrightarrow> life_step Moves s (go i CloseEnd s)"
| close_end: "at_caller s i CloseEnd \<Longrightarrow> lf_lock s = None \<Longrightarrow> life_step Moves s (Close_finish i s)"
| thread_begins: "at_thread s k Starting \<Longrightarrow> lf_lock s = None \<Longrightarrow> life_step Moves s (set_thread k Looping (s\<lparr>lf_startReady := True\<rparr>))"
| thread_throws: "at_thread s k Starting \<Longrightarrow> lf_lock s = None \<Longrightarrow>
    life_step Moves s (set_thread k Ended (s\<lparr>lf_runError := True\<rparr>))"
| loop_throws: "at_thread s k Looping \<Longrightarrow> lf_lock s = None \<Longrightarrow>
    life_step Crashes s (set_thread k Ended (s\<lparr>lf_runError := True\<rparr>))"
| thread_quits: "at_thread s k Quitting \<Longrightarrow> life_step Moves s (set_thread k Ended s)"

text \<open>What can be reached by steps with certain labels.\<close>

inductive life_reach :: "life_label set \<Rightarrow> life \<Rightarrow> life \<Rightarrow> bool" for L where
  refl: "life_reach L s s"
| step: "life_reach L s t \<Longrightarrow> life_step l t u \<Longrightarrow> l \<in> L \<Longrightarrow> life_reach L s u"

inductive_cases life_stepE: "life_step l s s'"

lemmas life_regions = Open_region_def start_thread_def Open_result_def Close_region_def Close_take_def Close_finish_def
  go_def set_thread_def startReady_pred_def

section \<open>Invariant\<close>

text \<open>As long as no start times out.\<close>

definition no_timeouts :: "life_label set" where
  "no_timeouts = {CallOpen, StartFails, Crashes, Moves} \<union> range CallClose"

lemma in_set_update: "i < length cs \<Longrightarrow> c \<in> set (cs[i := d]) \<Longrightarrow> c = d \<or> c \<in> set cs"
  by (metis insert_iff set_update_subset_insert subsetD)

lemma in_set_other: "c \<in> set cs \<Longrightarrow> c \<noteq> cs ! i \<Longrightarrow> c \<in> set (cs[i := d])"
  by (metis in_set_conv_nth length_list_update nth_list_update_neq)

fun keeps_mutex :: "life_caller \<Rightarrow> bool" where
  "keeps_mutex (OpenJoin k) = True"
| "keeps_mutex (OpenDestroy k) = True"
| "keeps_mutex _ = False"

definition life_lock_inv :: "life \<Rightarrow> bool" where
  "life_lock_inv s \<longleftrightarrow> marks keeps_mutex (lf_lock s) (lf_callers s)"

fun in_open :: "life_caller \<Rightarrow> bool" where
  "in_open OpenWait = True"
| "in_open (OpenJoin k) = True"
| "in_open _ = False"

text \<open>At most one call of \<open>Open\<close> is under way while the server is not closed.\<close>

definition opening_inv :: "life \<Rightarrow> bool" where
  "opening_inv s \<longleftrightarrow> lf_state s \<noteq> Closed \<longrightarrow> tally in_open (lf_callers s) \<le> (if lf_state s = Opened then 1 else 0)"

definition slot_inv :: "life \<Rightarrow> bool" where
  "slot_inv s \<longleftrightarrow> (lf_slot s = None \<longleftrightarrow> lf_state s \<noteq> Opened)
     \<and> (case lf_slot s of
          Some k \<Rightarrow> k < length (lf_threads s) \<and> lf_threads s ! k \<noteq> Quitting
            \<and> (lf_threads s ! k = Starting \<longleftrightarrow> \<not> lf_startReady s \<and> \<not> lf_runError s)
            \<and> (lf_threads s ! k = Ended \<longleftrightarrow> lf_runError s)
        | None \<Rightarrow> True)"

text \<open>A thread that has not ended is in the slot, or is being joined after \<open>quit\<close>.\<close>

definition joined_inv :: "life \<Rightarrow> bool" where
  "joined_inv s \<longleftrightarrow> (\<forall>k < length (lf_threads s). lf_slot s = Some k \<or> lf_threads s ! k = Ended
     \<or> lf_threads s ! k = Quitting \<and> CloseJoin (Some k) \<in> set (lf_callers s))"

fun caller_ok :: "life \<Rightarrow> life_caller \<Rightarrow> bool" where
  "caller_ok s (OpenDestroy k) = False"
| "caller_ok s (OpenJoin k) = (lf_slot s = Some k \<and> k < length (lf_threads s) \<and> lf_threads s ! k = Ended)"
| "caller_ok s (CloseJoin (Some k)) = (lf_state s = Closed \<and> k < length (lf_threads s) \<and> lf_threads s ! k \<in> {Quitting, Ended})"
| "caller_ok s (CloseJoin None) = (lf_state s = Closed)"
| "caller_ok s CloseEnd = (lf_state s = Closed)"
| "caller_ok s _ = True"

definition callers_inv :: "life \<Rightarrow> bool" where
  "callers_inv s \<longleftrightarrow> (\<forall>c \<in> set (lf_callers s). caller_ok s c)"

fun finishing :: "life_caller \<Rightarrow> bool" where
  "finishing (CloseJoin k) = True"
| "finishing CloseEnd = True"
| "finishing _ = False"

definition closing_inv :: "life \<Rightarrow> bool" where
  "closing_inv s \<longleftrightarrow> (lf_closing s \<longrightarrow> (\<exists>c \<in> set (lf_callers s). finishing c))"

definition state_inv :: "life \<Rightarrow> bool" where
  "state_inv s \<longleftrightarrow> lf_state s \<noteq> Uninit"

definition http_life_inv :: "life \<Rightarrow> bool" where
  "http_life_inv s \<longleftrightarrow> life_lock_inv s \<and> opening_inv s \<and> slot_inv s \<and> joined_inv s \<and> callers_inv s \<and> closing_inv s \<and> state_inv s"

lemma new_life_inv: "http_life_inv (new_life n)"
  by (simp add: http_life_inv_def new_life_def life_lock_inv_def opening_inv_def slot_inv_def joined_inv_def callers_inv_def closing_inv_def
      state_inv_def marks_def)

lemma at_set: "at_caller s i c \<Longrightarrow> c \<in> set (lf_callers s)"
  by (metis nth_mem)

lemma nth_quit [simp]: "k < length ts \<Longrightarrow> app_quit ts ! k = (if ts ! k = Looping then Quitting else ts ! k)" "length (app_quit ts) = length ts"
  by (simp_all add: app_quit_def)

lemma lock_none: "life_lock_inv s \<Longrightarrow> lf_lock s = None \<Longrightarrow> i < length (lf_callers s) \<Longrightarrow> \<not> keeps_mutex (lf_callers s ! i)"
  by (simp add: life_lock_inv_def marks_def)

lemma callers_inv_at: "callers_inv s \<Longrightarrow> at_caller s i c \<Longrightarrow> caller_ok s c"
  by (metis callers_inv_def nth_mem)

lemma Open_region_cases:
  assumes "http_life_inv s"
  shows "Open_region i checked started s = go i (Free (Some False)) s
    \<or> lf_state s = Initialized \<and> lf_slot s = None
      \<and> Open_region i checked started s = start_thread i started (s\<lparr>lf_runError := False, lf_state := Opened, lf_startReady := False\<rparr>)"
  using assms by (auto simp: Open_region_def Let_def http_life_inv_def slot_inv_def)

lemma Close_region_open:
  "http_life_inv s \<Longrightarrow> Close_region i s =
    (if lf_state s = Uninit \<or> lf_state s = Closed then go i (Free None) s
     else if lf_state s = Initialized then go i (Free None) (s\<lparr>lf_state := Closed\<rparr>)
     else go i CloseWait s)"
  by (cases "lf_state s") (auto simp: Close_region_def http_life_inv_def slot_inv_def)

lemma Open_result_cases:
  assumes "http_life_inv s" "at_caller s i OpenWait"
  shows "lf_state s = Closed \<and> Open_result i s = go i (Free (Some False)) s
    \<or> (\<exists>k. lf_state s = Opened \<and> lf_runError s \<and> lf_slot s = Some k \<and> k < length (lf_threads s) \<and> lf_threads s ! k = Ended
        \<and> Open_result i s = go i (OpenJoin k) (s\<lparr>lf_threads := app_quit (lf_threads s), lf_lock := Some i\<rparr>))
    \<or> lf_state s = Opened \<and> Open_result i s = go i (Free (Some True)) s"
proof -
  have "0 < tally in_open (lf_callers s)"
    using assms(2) by (auto intro: tally_pos)
  then have "lf_state s \<noteq> Closed \<Longrightarrow> lf_state s = Opened"
    using assms(1) by (auto simp: http_life_inv_def opening_inv_def split: if_splits)
  then show ?thesis
    using assms(1) by (auto simp: Open_result_def http_life_inv_def slot_inv_def split: option.split)
qed

lemma open_again: "\<not> (at_caller s i (OpenDestroy k) \<and> http_life_inv s)"
  using callers_inv_at [of s i "OpenDestroy k"] by (auto simp: http_life_inv_def)

lemma marks_free: "marks keeps_mutex L cs \<Longrightarrow> i < length cs \<Longrightarrow> cs ! i = c \<Longrightarrow> \<not> keeps_mutex c \<Longrightarrow> \<not> keeps_mutex d \<Longrightarrow>
    marks keeps_mutex L (cs[i := d])"
  by (simp add: marks_outside)

lemma marks_release: "marks keeps_mutex L cs \<Longrightarrow> i < length cs \<Longrightarrow> cs ! i = c \<Longrightarrow> keeps_mutex c \<Longrightarrow> \<not> keeps_mutex d \<Longrightarrow>
    marks keeps_mutex None (cs[i := d])"
  by (blast intro: marks_give)

lemma life_lock_step: "life_step l s s' \<Longrightarrow> http_life_inv s \<Longrightarrow> l \<in> no_timeouts \<Longrightarrow> life_lock_inv s'"
proof (induction rule: life_step.cases)
  case (open_call s i a checked)
  then have inv: "http_life_inv s" and "marks keeps_mutex None (lf_callers s)"
    by (simp_all add: http_life_inv_def life_lock_inv_def)
  then have "marks keeps_mutex None ((lf_callers s)[i := d])" if "\<not> keeps_mutex d" for d
    using open_call that by (intro marks_free [of _ _ _ "Free a"]) auto
  then show ?case
    using open_call Open_region_cases [OF inv, of i checked True] by (auto simp: life_lock_inv_def go_def start_thread_def)
next
  case (open_fails s i a checked)
  then have inv: "http_life_inv s" and "marks keeps_mutex None (lf_callers s)"
    by (simp_all add: http_life_inv_def life_lock_inv_def)
  then have "marks keeps_mutex None ((lf_callers s)[i := d])" if "\<not> keeps_mutex d" for d
    using open_fails that by (intro marks_free [of _ _ _ "Free a"]) auto
  then show ?case
    using open_fails Open_region_cases [OF inv, of i checked False] by (auto simp: life_lock_inv_def go_def start_thread_def)
next
  case (open_result s i)
  then have inv: "http_life_inv s" and m: "marks keeps_mutex None (lf_callers s)"
    by (simp_all add: http_life_inv_def life_lock_inv_def)
  then have "marks keeps_mutex None ((lf_callers s)[i := d])" if "\<not> keeps_mutex d" for d
    using open_result that by (intro marks_free [of _ _ _ OpenWait]) auto
  moreover have "marks keeps_mutex (Some i) ((lf_callers s)[i := OpenJoin k])" for k
    using open_result m by (intro marks_take) auto
  ultimately show ?case
    using open_result Open_result_cases [OF inv, of i] by (auto simp: life_lock_inv_def go_def)
next
  case (open_destroyed s i k)
  then show ?case
    using open_again by blast
next
  case (open_joined s i k)
  then show ?case
    by (auto simp: http_life_inv_def life_lock_inv_def life_regions intro!: marks_release)
qed (auto simp: http_life_inv_def life_lock_inv_def life_regions no_timeouts_def intro!: marks_free)

lemma tally_open: "at_caller s i c \<Longrightarrow> tally in_open ((lf_callers s)[i := d]) + of_bool (in_open c) = tally in_open (lf_callers s) + of_bool (in_open d)"
  using tally_update [of i "lf_callers s" in_open d] by auto

lemma tally_le: "at_caller s i c \<Longrightarrow> in_open d \<longrightarrow> in_open c \<Longrightarrow> tally in_open (lf_callers s) \<le> n \<Longrightarrow> tally in_open ((lf_callers s)[i := d]) \<le> n"
  using tally_open [of i s c d] by (cases "in_open d") auto

lemma opening_inv_step: "life_step l s s' \<Longrightarrow> http_life_inv s \<Longrightarrow> l \<in> no_timeouts \<Longrightarrow> opening_inv s'"
proof (induction rule: life_step.cases)
  case (open_call s i a checked)
  then show ?case
    using Open_region_cases [of s i checked True] tally_open [of i s "Free a"]
    by (auto simp: http_life_inv_def opening_inv_def go_def start_thread_def)
next
  case (open_fails s i a checked)
  then show ?case
    using Open_region_cases [of s i checked False] tally_open [of i s "Free a"]
    by (auto simp: http_life_inv_def opening_inv_def go_def start_thread_def)
next
  case (open_result s i)
  then show ?case
    using Open_result_cases [of s i]
    by (auto simp: http_life_inv_def opening_inv_def go_def intro!: tally_le [of i s OpenWait])
next
  case (open_destroyed s i k)
  then show ?case
    using open_again by blast
next
  case (open_joined s i k)
  then have "lf_state s = Opened"
    using callers_inv_at [of s i "OpenJoin k"] by (auto simp: http_life_inv_def slot_inv_def)
  then show ?case
    using open_joined tally_open [of i s "OpenJoin k" "Free (Some False)"]
    by (auto simp: http_life_inv_def opening_inv_def go_def)
next
  case (close_gate s i)
  then have "http_life_inv s"
    by simp
  note region = Close_region_open [OF this, of i]
  from close_gate show ?case
    using tally_open [of i s CloseGate] by (auto simp: http_life_inv_def opening_inv_def go_def region)
next
  case (close_call s i a)
  then show ?case
    using tally_open [of i s "Free a"] by (auto simp: http_life_inv_def opening_inv_def go_def)
next
  case (close_join s i k)
  then show ?case
    using tally_open [of i s "CloseJoin (Some k)"] by (auto simp: http_life_inv_def opening_inv_def go_def)
next
  case (close_nothing s i)
  then show ?case
    using tally_open [of i s "CloseJoin None"] by (auto simp: http_life_inv_def opening_inv_def go_def)
next
  case (close_end s i)
  then show ?case
    using tally_open [of i s CloseEnd] by (auto simp: http_life_inv_def opening_inv_def go_def Close_finish_def)
qed (auto simp: http_life_inv_def opening_inv_def life_regions no_timeouts_def)

lemma slot_inv_step: "life_step l s s' \<Longrightarrow> http_life_inv s \<Longrightarrow> l \<in> no_timeouts \<Longrightarrow> slot_inv s'"
proof (induction rule: life_step.cases)
  case (open_call s i a checked)
  then show ?case
    using Open_region_cases [of s i checked True]
    by (auto simp: http_life_inv_def slot_inv_def go_def start_thread_def nth_append split: option.splits)
next
  case (open_fails s i a checked)
  then show ?case
    using Open_region_cases [of s i checked False]
    by (auto simp: http_life_inv_def slot_inv_def go_def start_thread_def)
next
  case (open_result s i)
  then show ?case
    using Open_result_cases [of s i] by (auto simp: http_life_inv_def slot_inv_def go_def split: option.splits)
next
  case (open_destroyed s i k)
  then show ?case
    using open_again by blast
next
  case (thread_begins s k)
  then show ?case
    by (auto simp: http_life_inv_def slot_inv_def joined_inv_def set_thread_def nth_list_update split: option.splits)
next
  case (thread_throws s k)
  then show ?case
    by (auto simp: http_life_inv_def slot_inv_def joined_inv_def set_thread_def nth_list_update split: option.splits)
next
  case (loop_throws s k)
  then show ?case
    by (auto simp: http_life_inv_def slot_inv_def joined_inv_def set_thread_def nth_list_update split: option.splits)
next
  case (thread_quits s k)
  then show ?case
    by (auto simp: http_life_inv_def slot_inv_def joined_inv_def set_thread_def nth_list_update split: option.splits)
qed (auto simp: http_life_inv_def slot_inv_def life_regions no_timeouts_def split: option.splits)

lemma joined_inv_step: "life_step l s s' \<Longrightarrow> http_life_inv s \<Longrightarrow> l \<in> no_timeouts \<Longrightarrow> joined_inv s'"
proof (induction rule: life_step.cases)
  case (open_call s i a checked)
  then show ?case
    using Open_region_cases [of s i checked True] in_set_other [of _ "lf_callers s" i]
    by (auto simp: http_life_inv_def joined_inv_def go_def start_thread_def nth_append less_Suc_eq)
next
  case (open_fails s i a checked)
  then show ?case
    using Open_region_cases [of s i checked False] in_set_other [of _ "lf_callers s" i]
    by (auto simp: http_life_inv_def joined_inv_def go_def start_thread_def)
next
  case (open_result s i)
  then show ?case
    using Open_result_cases [of s i] in_set_other [of _ "lf_callers s" i]
    by (auto simp: http_life_inv_def joined_inv_def go_def)
next
  case (open_destroyed s i k)
  then show ?case
    using open_again by blast
next
  case (open_joined s i k)
  then show ?case
    using callers_inv_at [of s i "OpenJoin k"] in_set_other [of _ "lf_callers s" i]
    by (auto simp: http_life_inv_def joined_inv_def go_def)
next
  case (close_wait s i)
  then have "CloseJoin (lf_slot s) \<in> set ((lf_callers s)[i := CloseJoin (lf_slot s)])"
    by (simp add: set_update_memI)
  moreover have "lf_slot s = Some k \<longrightarrow> lf_threads s ! k = Looping \<or> lf_threads s ! k = Ended" for k
    using close_wait by (cases "lf_threads s ! k") (auto simp: http_life_inv_def slot_inv_def)
  ultimately show ?case
    using close_wait in_set_other [of _ "lf_callers s" i]
    by (auto simp: http_life_inv_def joined_inv_def go_def Close_take_def)
next
  case (close_join s i k)
  have "lf_threads s ! j = Ended \<or> CloseJoin (Some j) \<in> set ((lf_callers s)[i := CloseEnd])"
    if "j < length (lf_threads s)" "CloseJoin (Some j) \<in> set (lf_callers s)" for j
    using that close_join in_set_other [of "CloseJoin (Some j)" "lf_callers s" i CloseEnd] by auto
  then show ?case
    using close_join by (fastforce simp: http_life_inv_def joined_inv_def go_def)
next
  case (thread_begins s k)
  then show ?case
    by (fastforce simp: http_life_inv_def joined_inv_def set_thread_def nth_list_update)
next
  case (thread_throws s k)
  then show ?case
    by (fastforce simp: http_life_inv_def joined_inv_def set_thread_def nth_list_update)
next
  case (loop_throws s k)
  then show ?case
    by (fastforce simp: http_life_inv_def joined_inv_def set_thread_def nth_list_update)
next
  case (thread_quits s k)
  then show ?case
    by (fastforce simp: http_life_inv_def joined_inv_def set_thread_def nth_list_update)
next
  case (close_gate s i)
  then have "http_life_inv s"
    by simp
  note region = Close_region_open [OF this, of i]
  from close_gate show ?case
    using in_set_other [of _ "lf_callers s" i] by (auto simp: http_life_inv_def joined_inv_def go_def region)
next
  case (close_call s i a)
  then show ?case
    using in_set_other [of _ "lf_callers s" i] by (auto simp: http_life_inv_def joined_inv_def go_def)
next
  case (close_nothing s i)
  then show ?case
    using in_set_other [of _ "lf_callers s" i] by (auto simp: http_life_inv_def joined_inv_def go_def)
next
  case (close_end s i)
  then show ?case
    using in_set_other [of _ "lf_callers s" i] by (auto simp: http_life_inv_def joined_inv_def go_def Close_finish_def)
qed (auto simp: no_timeouts_def)

text \<open>A caller's facts do not depend on the other callers, only on threads, slot and state.\<close>

lemma caller_ok_mono:
  "caller_ok s c \<Longrightarrow> lf_state t = lf_state s \<Longrightarrow> lf_slot t = lf_slot s \<Longrightarrow> length (lf_threads s) \<le> length (lf_threads t) \<Longrightarrow>
    (\<And>k. k < length (lf_threads s) \<Longrightarrow> lf_threads s ! k \<in> {Quitting, Ended} \<Longrightarrow> lf_threads t ! k = lf_threads s ! k \<or> lf_threads t ! k = Ended) \<Longrightarrow>
    caller_ok t c"
  by (cases "(s, c)" rule: caller_ok.cases) (auto, fastforce+)

lemma callers_inv_go:
  assumes "callers_inv s" "lf_callers t = (lf_callers s)[i := d]" "caller_ok t d" "\<And>c. c \<in> set (lf_callers s) \<Longrightarrow> caller_ok s c \<Longrightarrow> caller_ok t c"
  shows "callers_inv t"
  using assms unfolding callers_inv_def by (metis in_set_update list_update_beyond not_le)

lemma callers_inv_same:
  assumes "callers_inv s" "lf_callers t = lf_callers s" "\<And>c. c \<in> set (lf_callers s) \<Longrightarrow> caller_ok s c \<Longrightarrow> caller_ok t c"
  shows "callers_inv t"
  using assms unfolding callers_inv_def by simp

lemma ok_anywhere: "caller_ok s c \<Longrightarrow> lf_state s = Initialized \<Longrightarrow> lf_slot s = None \<Longrightarrow> caller_ok t c"
  by (cases "(s, c)" rule: caller_ok.cases) auto

lemma no_mutex_holder: "http_life_inv s \<Longrightarrow> lf_lock s = None \<Longrightarrow> OpenJoin k \<notin> set (lf_callers s)"
  using lock_none [of s] unfolding http_life_inv_def in_set_conv_nth by (metis keeps_mutex.simps(1))

lemma callers_inv_step: "life_step l s s' \<Longrightarrow> http_life_inv s \<Longrightarrow> l \<in> no_timeouts \<Longrightarrow> callers_inv s'"
proof (induction rule: life_step.cases)
  case (open_call s i a checked)
  then have inv: "http_life_inv s" "callers_inv s"
    by (simp_all add: http_life_inv_def)
  from Open_region_cases [OF inv(1), of i checked True] show ?case
  proof (elim disjE conjE)
    assume "Open_region i checked True s = go i (Free (Some False)) s"
    then show ?thesis
      using open_call by (intro callers_inv_go [OF inv(2), of _ i "Free (Some False)"]) (auto simp: go_def intro: caller_ok_mono)
  next
    assume "lf_state s = Initialized" "lf_slot s = None"
      "Open_region i checked True s = start_thread i True (s\<lparr>lf_runError := False, lf_state := Opened, lf_startReady := False\<rparr>)"
    then show ?thesis
      using open_call ok_anywhere [of s]
      by (intro callers_inv_go [OF inv(2), of _ i OpenWait]) (simp_all add: go_def start_thread_def)
  qed
next
  case (open_fails s i a checked)
  then have inv: "http_life_inv s" "callers_inv s"
    by (simp_all add: http_life_inv_def)
  from Open_region_cases [OF inv(1), of i checked False] show ?case
  proof (elim disjE conjE)
    assume "Open_region i checked False s = go i (Free (Some False)) s"
    then show ?thesis
      using open_fails by (intro callers_inv_go [OF inv(2), of _ i "Free (Some False)"]) (auto simp: go_def intro: caller_ok_mono)
  next
    assume "lf_state s = Initialized" "lf_slot s = None"
      "Open_region i checked False s = start_thread i False (s\<lparr>lf_runError := False, lf_state := Opened, lf_startReady := False\<rparr>)"
    then show ?thesis
      using open_fails ok_anywhere [of s]
      by (intro callers_inv_go [OF inv(2), of _ i "Free (Some False)"]) (simp_all add: go_def start_thread_def)
  qed
next
  case (open_result s i)
  then have inv: "http_life_inv s" "callers_inv s" "at_caller s i OpenWait"
    by (simp_all add: http_life_inv_def)
  from Open_result_cases [OF inv(1,3)] show ?case
  proof (elim disjE conjE exE)
    fix k assume k: "lf_slot s = Some k" "k < length (lf_threads s)" "lf_threads s ! k = Ended"
      "Open_result i s = go i (OpenJoin k) (s\<lparr>lf_threads := app_quit (lf_threads s), lf_lock := Some i\<rparr>)"
    then show ?thesis
      using open_result by (intro callers_inv_go [OF inv(2), of _ i "OpenJoin k"]) (auto simp: go_def intro: caller_ok_mono)
  qed (use open_result in \<open>auto simp: go_def intro!: callers_inv_go [OF inv(2), of _ i] intro: caller_ok_mono\<close>)
next
  case (open_destroyed s i k)
  then show ?case
    using open_again by blast
next
  case (open_joined s i k)
  then have inv: "callers_inv s" "lf_slot s = Some k" "lf_state s = Opened"
    using callers_inv_at [of s i "OpenJoin k"] by (auto simp: http_life_inv_def slot_inv_def)
  have "marks keeps_mutex (lf_lock s) (lf_callers s)"
    using open_joined by (simp add: http_life_inv_def life_lock_inv_def)
  then have only: "j = i" if "j < length (lf_callers s)" "keeps_mutex (lf_callers s ! j)" for j
    using open_joined that unfolding marks_def by (metis keeps_mutex.simps(1) option.inject)
  let ?t = "go i (Free (Some False)) (s\<lparr>lf_lock := None, lf_slot := None, lf_state := Initialized\<rparr>)"
  have "caller_ok ?t c" if c: "c \<in> set ((lf_callers s)[i := Free (Some False)])" for c
  proof -
    obtain j where j: "j < length (lf_callers s)" "c = ((lf_callers s)[i := Free (Some False)]) ! j"
      using c by (auto simp: in_set_conv_nth)
    show ?thesis
    proof (cases "j = i")
      case False
      then have "c = lf_callers s ! j" "\<not> keeps_mutex c" "caller_ok s c"
        using j only inv(1) by (auto simp: callers_inv_def)
      then show ?thesis
        using inv(3) by (cases "(s, c)" rule: caller_ok.cases) auto
    qed (use j in simp)
  qed
  then show ?case
    using open_joined by (simp add: callers_inv_def go_def)
next
  case (close_wait s i)
  then have inv: "http_life_inv s" "callers_inv s"
    by (simp_all add: http_life_inv_def)
  have "lf_slot s = Some k \<longrightarrow> k < length (lf_threads s) \<and> (lf_threads s ! k = Looping \<or> lf_threads s ! k = Ended)" for k
    using close_wait by (cases "lf_threads s ! k") (auto simp: http_life_inv_def slot_inv_def)
  then have "caller_ok s' (CloseJoin (lf_slot s))"
    using close_wait by (cases "lf_slot s") (auto simp: Close_take_def go_def)
  moreover have "caller_ok s' c" if "c \<in> set (lf_callers s)" "caller_ok s c" for c
    using close_wait that no_mutex_holder [OF inv(1)]
    by (cases "(s, c)" rule: caller_ok.cases) (auto simp: Close_take_def go_def)
  ultimately show ?case
    using close_wait by (intro callers_inv_go [OF inv(2), of _ i "CloseJoin (lf_slot s)"]) (auto simp: Close_take_def go_def)
next
  case (close_gate s i)
  then have inv: "http_life_inv s" "callers_inv s"
    by (simp_all add: http_life_inv_def)
  have "\<exists>d t. Close_region i s = go i d t \<and> d \<in> {Free None, CloseWait} \<and> (t = s \<or> t = s\<lparr>lf_state := Closed\<rparr>)"
    by (auto simp: Close_region_open [OF inv(1)])
  then obtain d t where t: "Close_region i s = go i d t" "d \<in> {Free None, CloseWait}" "t = s \<or> t = s\<lparr>lf_state := Closed\<rparr>"
    by blast
  have "caller_ok (go i d t) c" if "c \<in> set (lf_callers s)" "caller_ok s c" for c
    using that no_mutex_holder [OF inv(1), of _] close_gate t(3)
    by (cases "(s, c)" rule: caller_ok.cases) (auto simp: go_def)
  then show ?case
    using close_gate t by (intro callers_inv_go [OF inv(2), of _ i d]) (auto simp: go_def)
next
  case (close_call s i a)
  then have inv: "callers_inv s"
    by (simp add: http_life_inv_def)
  show ?case
    using close_call by (auto simp: go_def intro!: callers_inv_go [OF inv, of _ i CloseGate] intro: caller_ok_mono)
next
  case (close_join s i k)
  then have inv: "callers_inv s" "lf_state s = Closed"
    using callers_inv_at [of s i "CloseJoin (Some k)"] by (auto simp: http_life_inv_def)
  show ?case
    using close_join inv(2) by (auto simp: go_def intro!: callers_inv_go [OF inv(1), of _ i CloseEnd] intro: caller_ok_mono)
next
  case (close_nothing s i)
  then have inv: "callers_inv s" "lf_state s = Closed"
    using callers_inv_at [of s i "CloseJoin None"] by (auto simp: http_life_inv_def)
  show ?case
    using close_nothing inv(2) by (auto simp: go_def intro!: callers_inv_go [OF inv(1), of _ i CloseEnd] intro: caller_ok_mono)
next
  case (close_end s i)
  then have inv: "callers_inv s"
    by (simp add: http_life_inv_def)
  show ?case
    using close_end by (auto simp: go_def Close_finish_def intro!: callers_inv_go [OF inv, of _ i "Free None"] intro: caller_ok_mono)
next
  case (open_timeout s i)
  then show ?case
    by (auto simp: no_timeouts_def)
next
  case (thread_begins s k)
  then have inv: "callers_inv s"
    by (simp add: http_life_inv_def)
  have "caller_ok s' c" if "caller_ok s c" for c
    using thread_begins that by (cases "(s, c)" rule: caller_ok.cases) (auto simp: set_thread_def nth_list_update)
  then show ?case
    using thread_begins by (intro callers_inv_same [OF inv]) (auto simp: set_thread_def)
next
  case (thread_throws s k)
  then have inv: "callers_inv s"
    by (simp add: http_life_inv_def)
  have "caller_ok s' c" if "caller_ok s c" for c
    using thread_throws that by (cases "(s, c)" rule: caller_ok.cases) (auto simp: set_thread_def nth_list_update)
  then show ?case
    using thread_throws by (intro callers_inv_same [OF inv]) (auto simp: set_thread_def)
next
  case (loop_throws s k)
  then have inv: "callers_inv s"
    by (simp add: http_life_inv_def)
  have "caller_ok s' c" if "caller_ok s c" for c
    using loop_throws that by (cases "(s, c)" rule: caller_ok.cases) (auto simp: set_thread_def nth_list_update)
  then show ?case
    using loop_throws by (intro callers_inv_same [OF inv]) (auto simp: set_thread_def)
next
  case (thread_quits s k)
  then have inv: "callers_inv s"
    by (simp add: http_life_inv_def)
  have "caller_ok s' c" if "caller_ok s c" for c
    using thread_quits that by (cases "(s, c)" rule: caller_ok.cases) (auto simp: set_thread_def nth_list_update)
  then show ?case
    using thread_quits by (intro callers_inv_same [OF inv]) (auto simp: set_thread_def)
qed

lemma finishing_set: "at_caller s i c \<Longrightarrow> finishing c \<Longrightarrow> \<exists>c \<in> set (lf_callers s). finishing c"
  using nth_mem by metis

lemma closing_keep:
  assumes "closing_inv s" "at_caller s i c" "\<not> finishing c \<or> finishing d"
  shows "lf_closing s \<Longrightarrow> \<exists>c \<in> set ((lf_callers s)[i := d]). finishing c"
proof -
  assume "lf_closing s"
  then obtain e where "e \<in> set (lf_callers s)" "finishing e"
    using assms(1) by (auto simp: closing_inv_def)
  then show ?thesis
    using assms(2,3) in_set_other [of e "lf_callers s" i d] set_update_memI [of i "lf_callers s" d] by metis
qed

lemma closing_inv_step: "life_step l s s' \<Longrightarrow> http_life_inv s \<Longrightarrow> l \<in> no_timeouts \<Longrightarrow> closing_inv s'"
proof (induction rule: life_step.cases)
  case (open_call s i a checked)
  then have "closing_inv s"
    by (simp add: http_life_inv_def)
  from closing_keep [OF this, of i "Free a"] show ?case
    using open_call Open_region_cases [of s i checked True] by (auto simp: closing_inv_def go_def start_thread_def)
next
  case (open_fails s i a checked)
  then have "closing_inv s"
    by (simp add: http_life_inv_def)
  from closing_keep [OF this, of i "Free a"] show ?case
    using open_fails Open_region_cases [of s i checked False] by (auto simp: closing_inv_def go_def start_thread_def)
next
  case (open_result s i)
  then have "closing_inv s"
    by (simp add: http_life_inv_def)
  from closing_keep [OF this, of i OpenWait] show ?case
    using open_result Open_result_cases [of s i] by (auto simp: closing_inv_def go_def)
next
  case (open_destroyed s i k)
  then show ?case
    using open_again by blast
next
  case (open_timeout s i)
  then show ?case
    by (auto simp: no_timeouts_def)
next
  case (close_wait s i)
  then have "CloseJoin (lf_slot s) \<in> set ((lf_callers s)[i := CloseJoin (lf_slot s)])"
    by (simp add: set_update_memI)
  then have "\<exists>c \<in> set ((lf_callers s)[i := CloseJoin (lf_slot s)]). finishing c"
    by (rule bexI [rotated]) simp
  then show ?case
    using close_wait by (simp add: closing_inv_def go_def Close_take_def)
next
  case (open_joined s i k)
  then have "closing_inv s"
    by (simp add: http_life_inv_def)
  from closing_keep [OF this, of i "OpenJoin k"] show ?case
    using open_joined by (auto simp: closing_inv_def go_def)
next
  case (close_call s i a)
  then have "closing_inv s"
    by (simp add: http_life_inv_def)
  from closing_keep [OF this, of i "Free a"] show ?case
    using close_call by (auto simp: closing_inv_def go_def)
next
  case (close_gate s i)
  then have "http_life_inv s"
    by simp
  note region = Close_region_open [OF this, of i]
  with close_gate show ?case
    by (auto simp: closing_inv_def go_def)
next
  case (close_join s i k)
  then have "closing_inv s"
    by (simp add: http_life_inv_def)
  from closing_keep [OF this, of i "CloseJoin (Some k)"] show ?case
    using close_join by (auto simp: closing_inv_def go_def)
next
  case (close_nothing s i)
  then have "closing_inv s"
    by (simp add: http_life_inv_def)
  from closing_keep [OF this, of i "CloseJoin None"] show ?case
    using close_nothing by (auto simp: closing_inv_def go_def)
qed (auto simp: http_life_inv_def closing_inv_def go_def Close_finish_def set_thread_def)

lemma state_inv_step: "life_step l s s' \<Longrightarrow> http_life_inv s \<Longrightarrow> state_inv s'"
  by (erule life_step.cases; simp add: http_life_inv_def state_inv_def life_regions Let_def split: option.split)

lemmas life_steps = life_lock_step opening_inv_step slot_inv_step joined_inv_step callers_inv_step closing_inv_step state_inv_step

lemma http_life_inv_step: "life_step l s s' \<Longrightarrow> http_life_inv s \<Longrightarrow> l \<in> no_timeouts \<Longrightarrow> http_life_inv s'"
  using life_steps [of l s s'] by (simp add: http_life_inv_def)

lemma life_reach_inv: "life_reach L s t \<Longrightarrow> L \<subseteq> no_timeouts \<Longrightarrow> http_life_inv s \<Longrightarrow> http_life_inv t"
  by (induction rule: life_reach.induct) (auto intro: http_life_inv_step)

section \<open>A closed server has stopped\<close>


text \<open>A run of two callers: the first has opened the server, the second is in \<open>Close\<close>.\<close>

definition opened_life :: life where
  "opened_life = \<lparr>lf_state = Opened, lf_startReady = True, lf_runError = False, lf_closing = False, lf_slot = Some 0,
     lf_lock = None, lf_callers = [Free (Some True), Free None], lf_threads = [Looping]\<rparr>"

definition leaving_life :: life where
  "leaving_life = opened_life\<lparr>lf_callers := [Free (Some True), CloseWait]\<rparr>"

lemma life_moves:
  "life_reach L s t \<Longrightarrow> life_step l t u \<Longrightarrow> l \<in> L \<Longrightarrow> u = v \<Longrightarrow> life_reach L s v"
  by (blast intro: life_reach.step)

lemmas life_eval = life_regions Let_def new_life_def opened_life_def leaving_life_def app_quit_def

lemma reach_opened: "{CallOpen, Moves} \<subseteq> L \<Longrightarrow> life_reach L (new_life 2) opened_life"
proof -
  assume L: "{CallOpen, Moves} \<subseteq> L"
  let ?t = "\<lparr>lf_state = Opened, lf_startReady = False, lf_runError = False, lf_closing = False, lf_slot = Some 0,
     lf_lock = None, lf_callers = [OpenWait, Free None], lf_threads = [Starting]\<rparr>"
  have "life_reach L (new_life 2) ?t"
    using L by (rule_tac life_moves [OF life_reach.refl life_step.open_call [where i = 0 and checked = True]]) (auto simp: life_eval numeral_2_eq_2)
  then have "life_reach L (new_life 2) (?t\<lparr>lf_startReady := True, lf_threads := [Looping]\<rparr>)"
    using L by (rule_tac life_moves [OF _ life_step.thread_begins [where k = 0]]) (auto simp: life_eval)
  then show ?thesis
    using L by (rule_tac life_moves [OF _ life_step.open_result [where i = 0]]) (auto simp: life_eval)
qed

lemma reach_leaving: "{CallOpen, CallClose 1, Moves} \<subseteq> L \<Longrightarrow> life_reach L (new_life 2) leaving_life"
proof -
  assume L: "{CallOpen, CallClose 1, Moves} \<subseteq> L"
  then have "life_reach L (new_life 2) opened_life"
    by (intro reach_opened) auto
  then have "life_reach L (new_life 2) (opened_life\<lparr>lf_callers := [Free (Some True), CloseGate]\<rparr>)"
    using L by (rule_tac life_moves [OF _ life_step.close_call [where i = 1]]) (auto simp: life_eval)
  then show ?thesis
    using L by (rule_tac life_moves [OF _ life_step.close_gate [where i = 1]]) (auto simp: life_eval)
qed


section \<open>Every call returns\<close>

fun life_caller_rank :: "life_caller \<Rightarrow> nat" where
  "life_caller_rank (Free a) = 0"
| "life_caller_rank (OpenDestroy k) = 6"
| "life_caller_rank OpenWait = 2"
| "life_caller_rank (OpenJoin k) = 1"
| "life_caller_rank CloseGate = 5"
| "life_caller_rank CloseWait = 4"
| "life_caller_rank (CloseJoin k) = 3"
| "life_caller_rank CloseEnd = 2"

fun life_thread_rank :: "life_thread \<Rightarrow> nat" where
  "life_thread_rank Starting = 3"
| "life_thread_rank Looping = 2"
| "life_thread_rank Quitting = 1"
| "life_thread_rank Ended = 0"

definition life_rank :: "life \<Rightarrow> nat" where
  "life_rank s = sum_list (map life_caller_rank (lf_callers s)) + sum_list (map life_thread_rank (lf_threads s))"

lemma sum_update:
  "i < length xs \<Longrightarrow> sum_list (map f (xs[i := d])) + f (xs ! i) = sum_list (map f xs) + (f d :: nat)"
  by (induction xs arbitrary: i) (auto split: nat.split)

lemma rank_quit: "sum_list (map life_thread_rank (app_quit ts)) \<le> sum_list (map life_thread_rank ts)"
  by (induction ts) (auto simp: app_quit_def)

lemma rank_less: "i < length xs \<Longrightarrow> f d < f (xs ! i) \<Longrightarrow> sum_list (map f (xs[i := d])) < (sum_list (map f xs) :: nat)"
  using sum_update [of i xs f d] by simp

lemma life_rank_decreases: "life_step l s s' \<Longrightarrow> l = Moves \<Longrightarrow> life_rank s' < life_rank s"
proof (induction rule: life_step.cases)
  case (open_destroyed s i k)
  then show ?case
    using sum_update [of i "lf_callers s" life_caller_rank OpenWait] by (simp add: life_rank_def start_thread_def go_def)
next
  case (open_result s i)
  then show ?case
    using rank_quit [of "lf_threads s"]
    by (auto simp: life_rank_def Open_result_def go_def split: option.split intro!: add_less_le_mono rank_less)
next
  case (thread_begins s k)
  then show ?case
    using rank_less [of k "lf_threads s" life_thread_rank Looping] by (simp add: life_rank_def set_thread_def)
next
  case (thread_throws s k)
  then show ?case
    using rank_less [of k "lf_threads s" life_thread_rank Ended] by (simp add: life_rank_def set_thread_def)
next
  case (thread_quits s k)
  then show ?case
    using rank_less [of k "lf_threads s" life_thread_rank Ended] by (simp add: life_rank_def set_thread_def)
qed (auto simp: life_rank_def go_def Close_region_def Close_take_def Close_finish_def intro!: add_less_le_mono rank_less rank_quit)

text \<open>A call of \<open>Close\<close> waits for a start only while there is one: here no thread fails to be created.\<close>

definition life_wait_inv :: "life \<Rightarrow> bool" where
  "life_wait_inv s \<longleftrightarrow> CloseWait \<in> set (lf_callers s) \<longrightarrow> lf_slot s \<noteq> None \<or> lf_startReady s \<or> lf_runError s"

definition all_start :: "life_label set" where
  "all_start = {CallOpen, Crashes, Moves} \<union> range CallClose"

lemma all_start_no_timeouts: "all_start \<subseteq> no_timeouts"
  by (auto simp: all_start_def no_timeouts_def)

lemma life_wait_step: "life_step l s s' \<Longrightarrow> http_life_inv s \<Longrightarrow> l \<in> all_start \<Longrightarrow> life_wait_inv s \<Longrightarrow> life_wait_inv s'"
proof (induction rule: life_step.cases)
  case (open_call s i a checked)
  then show ?case
    using Open_region_cases [of s i checked True] by (auto simp: life_wait_inv_def go_def start_thread_def dest: in_set_update)
next
  case (open_result s i)
  then show ?case
    using Open_result_cases [of s i] by (auto simp: life_wait_inv_def go_def dest: in_set_update)
next
  case (open_destroyed s i k)
  then show ?case
    using open_again by blast
next
  case (open_joined s i k)
  then have "lf_runError s"
    using callers_inv_at [of s i "OpenJoin k"] by (auto simp: http_life_inv_def slot_inv_def)
  then show ?case
    by (simp add: life_wait_inv_def go_def open_joined)
next
  case (close_gate s i)
  then have inv: "http_life_inv s"
    by simp
  show ?case
    using close_gate in_set_update [of i "lf_callers s" CloseWait] inv
    by (auto simp: life_wait_inv_def go_def Close_region_def Close_take_def)
next
  case (close_wait s i)
  then show ?case
    by (auto simp: life_wait_inv_def go_def Close_take_def)
qed (auto simp: life_wait_inv_def go_def Close_finish_def set_thread_def all_start_def dest: in_set_update)

lemma all_start_reach_inv: "life_reach L s t \<Longrightarrow> L \<subseteq> all_start \<Longrightarrow> http_life_inv s \<and> life_wait_inv s \<Longrightarrow> http_life_inv t \<and> life_wait_inv t"
proof (induction rule: life_reach.induct)
  case (step s t l u)
  then have "l \<in> all_start" "l \<in> no_timeouts" "http_life_inv t" "life_wait_inv t"
    using all_start_no_timeouts by auto
  then show ?case
    using step.hyps(2) http_life_inv_step life_wait_step by blast
qed auto

abbreviation can_move :: "life \<Rightarrow> bool" where
  "can_move s \<equiv> \<exists>s'. life_step Moves s s'"

lemma finishing_moves:
  assumes "http_life_inv s" "lf_lock s = None" "at_caller s i c" "finishing c"
  shows "can_move s"
proof (cases c)
  case (CloseJoin h)
  show ?thesis
  proof (cases h)
    case None
    then show ?thesis
      using assms(3) CloseJoin life_step.close_nothing by blast
  next
    case (Some k)
    then have "k < length (lf_threads s)" "lf_threads s ! k = Quitting \<or> lf_threads s ! k = Ended"
      using assms(1,3) CloseJoin callers_inv_at [of s i "CloseJoin (Some k)"] by (auto simp: http_life_inv_def)
    then show ?thesis
      using assms(3) CloseJoin Some life_step.close_join life_step.thread_quits by blast
  qed
next
  case CloseEnd
  then show ?thesis
    using assms life_step.close_end by blast
qed (use assms in auto)

lemma starting_moves:
  assumes "http_life_inv s" "lf_lock s = None" "lf_slot s \<noteq> None" "\<not> lf_startReady s" "\<not> lf_runError s"
  shows "can_move s"
proof -
  obtain k where "k < length (lf_threads s)" "lf_threads s ! k = Starting"
    using assms by (auto simp: http_life_inv_def slot_inv_def)
  then show ?thesis
    using assms(2) life_step.thread_begins by blast
qed

lemma caller_moves:
  assumes inv: "http_life_inv s" "life_wait_inv s" and "lf_lock s = None" "at_caller s i c" "\<not> (\<exists>a. c = Free a)"
  shows "can_move s"
proof (cases c)
  case OpenWait
  then have "0 < tally in_open (lf_callers s)"
    using assms(4) by (auto intro: tally_pos)
  then have "startReady_pred s \<or> lf_slot s \<noteq> None \<and> \<not> lf_startReady s \<and> \<not> lf_runError s"
    using inv(1) by (auto simp: http_life_inv_def opening_inv_def slot_inv_def startReady_pred_def split: if_splits)
  then show ?thesis
    using assms(3,4) OpenWait starting_moves [OF inv(1)] life_step.open_result by blast
next
  case CloseGate
  show ?thesis
  proof (cases "lf_closing s")
    case True
    then show ?thesis
      using inv(1) finishing_moves [OF inv(1) assms(3)] unfolding http_life_inv_def closing_inv_def by (metis in_set_conv_nth)
  next
    case False
    then show ?thesis
      using assms(3,4) CloseGate life_step.close_gate by blast
  qed
next
  case CloseWait
  then have "lf_slot s \<noteq> None \<or> lf_startReady s \<or> lf_runError s"
    using assms(4) inv(2) at_set unfolding life_wait_inv_def by blast
  then show ?thesis
    using assms(3,4) CloseWait starting_moves [OF inv(1)] life_step.close_wait by blast
next
  case (OpenJoin k)
  then show ?thesis
    using lock_none [of s i] inv(1) assms(3,4) by (auto simp: http_life_inv_def)
next
  case (OpenDestroy k)
  then show ?thesis
    using lock_none [of s i] inv(1) assms(3,4) by (auto simp: http_life_inv_def)
qed (use assms finishing_moves [OF inv(1) assms(3)] in \<open>force+\<close>)

lemma holder_moves:
  assumes "http_life_inv s" "lf_lock s = Some i"
  shows "can_move s"
proof -
  have "i < length (lf_callers s)" "keeps_mutex (lf_callers s ! i)"
    using assms by (auto simp: http_life_inv_def life_lock_inv_def marks_def)
  moreover have "lf_callers s ! i \<noteq> OpenDestroy k" if "i < length (lf_callers s)" for k
    using open_again [of i s k] assms(1) that by blast
  ultimately obtain k where k: "at_caller s i (OpenJoin k)"
    by (cases "lf_callers s ! i") auto
  then have "at_thread s k Ended"
    using callers_inv_at [of s i "OpenJoin k"] assms(1) by (auto simp: http_life_inv_def)
  then show ?thesis
    using k life_step.open_joined by blast
qed

text \<open>C13: every call returns: from any state reached without a time-out and without a thread that cannot be created, only finitely
  many steps can follow when no new call is made and no loop crashes, and while a call has not returned there is such a step; so
  neither the mutex nor the two waits of \<open>Close\<close> can block for ever.\<close>
theorem open_close_return:
  assumes "life_reach all_start (new_life n) s"
  shows "Collect (life_step Moves s) \<subseteq> {t. life_rank t < life_rank s}
    \<and> (list_all (\<lambda>c. life_caller_rank c = 0) (lf_callers s) \<or> can_move s)"
proof -
  have inv: "http_life_inv s" "life_wait_inv s"
    using all_start_reach_inv [OF assms order_refl] new_life_inv by (simp_all add: life_wait_inv_def new_life_def)
  have "list_all (\<lambda>c. life_caller_rank c = 0) (lf_callers s)" if "\<not> can_move s"
  proof (cases "lf_lock s")
    case None
    have "life_caller_rank (lf_callers s ! i) = 0" if "i < length (lf_callers s)" for i
      using caller_moves [OF inv None, of i "lf_callers s ! i"] that \<open>\<not> can_move s\<close> by fastforce
    then show ?thesis
      by (simp add: list_all_length)
  next
    case (Some i)
    then show ?thesis
      using holder_moves [OF inv(1)] that by blast
  qed
  then show ?thesis
    using life_rank_decreases by auto
qed

theorem open_close_return_witness: "can_move leaving_life"
  using open_close_return [OF reach_leaving] by (auto simp: all_start_def leaving_life_def opened_life_def)

section \<open>What goes wrong after a time-out, and with two calls of \<open>Close\<close>\<close>

text \<open>Two callers of \<open>Close\<close> that both wait for the start: the second finds the slot empty, returns, and opens the gate of
  \<open>s_closing\<close> while the first still joins the running thread.\<close>

definition second_close_life :: life where
  "second_close_life = \<lparr>lf_state = Closed, lf_startReady = True, lf_runError = False, lf_closing = False, lf_slot = None,
     lf_lock = None, lf_callers = [OpenWait, CloseJoin (Some 0), Free None], lf_threads = [Quitting]\<rparr>"

theorem second_close_returns_early: "life_reach no_timeouts (new_life 3) second_close_life"
proof -
  let ?s = "\<lambda>ready cs r. \<lparr>lf_state = Opened, lf_startReady = ready, lf_runError = False, lf_closing = False, lf_slot = Some 0,
     lf_lock = None, lf_callers = cs, lf_threads = [r]\<rparr>"
  let ?c = "\<lambda>b cs. \<lparr>lf_state = Closed, lf_startReady = True, lf_runError = False, lf_closing = b, lf_slot = None,
     lf_lock = None, lf_callers = cs, lf_threads = [Quitting]\<rparr>"
  let ?R = "life_reach no_timeouts (new_life 3)"
  have "?R (?s False [OpenWait, Free None, Free None] Starting)"
    by (rule life_moves [OF life_reach.refl life_step.open_call [where i = 0 and checked = True]])
      (auto simp: life_eval numeral_3_eq_3 no_timeouts_def)
  then have "?R (?s False [OpenWait, CloseGate, Free None] Starting)"
    by (rule life_moves [OF _ life_step.close_call [where i = 1]]) (auto simp: life_eval no_timeouts_def)
  then have "?R (?s False [OpenWait, CloseWait, Free None] Starting)"
    by (rule life_moves [OF _ life_step.close_gate [where i = 1]]) (auto simp: life_eval no_timeouts_def)
  then have "?R (?s False [OpenWait, CloseWait, CloseGate] Starting)"
    by (rule life_moves [OF _ life_step.close_call [where i = 2]]) (auto simp: life_eval no_timeouts_def)
  then have "?R (?s False [OpenWait, CloseWait, CloseWait] Starting)"
    by (rule life_moves [OF _ life_step.close_gate [where i = 2]]) (auto simp: life_eval no_timeouts_def)
  then have "?R (?s True [OpenWait, CloseWait, CloseWait] Looping)"
    by (rule life_moves [OF _ life_step.thread_begins [where k = 0]]) (auto simp: life_eval no_timeouts_def)
  then have "?R (?c True [OpenWait, CloseJoin (Some 0), CloseWait])"
    by (rule life_moves [OF _ life_step.close_wait [where i = 1]]) (auto simp: life_eval no_timeouts_def)
  then have "?R (?c True [OpenWait, CloseJoin (Some 0), CloseJoin None])"
    by (rule life_moves [OF _ life_step.close_wait [where i = 2]]) (auto simp: life_eval no_timeouts_def)
  then have "?R (?c True [OpenWait, CloseJoin (Some 0), CloseEnd])"
    by (rule life_moves [OF _ life_step.close_nothing [where i = 2]]) (auto simp: life_eval no_timeouts_def)
  then show ?thesis
    by (rule life_moves [OF _ life_step.close_end [where i = 2]])
      (auto simp: life_eval no_timeouts_def second_close_life_def)
qed

text \<open>A start that timed out leaves its thread in the slot.  The next \<open>Open\<close>, with the mutex, joins a thread that needs the mutex
  to begin; and a \<open>Close\<close> instead of it declares the server closed with the loop running.\<close>

definition timed_out_life :: "run_state \<Rightarrow> nat option \<Rightarrow> life_caller \<Rightarrow> life" where
  "timed_out_life st lock c = \<lparr>lf_state = st, lf_startReady = False, lf_runError = False, lf_closing = False, lf_slot = Some 0,
     lf_lock = lock, lf_callers = [c], lf_threads = [Starting]\<rparr>"

lemma reach_timed_out: "life_reach UNIV (new_life 1) (timed_out_life Initialized None (Free (Some False)))"
proof -
  have "life_reach UNIV (new_life 1) (timed_out_life Opened None OpenWait)"
    by (rule life_moves [OF life_reach.refl life_step.open_call [where i = 0 and checked = True]])
      (auto simp: life_eval timed_out_life_def)
  then show ?thesis
    by (rule life_moves [OF _ life_step.open_timeout [where i = 0]]) (auto simp: life_eval timed_out_life_def)
qed

theorem open_after_timeout_deadlocks:
  "life_reach UNIV (new_life 1) (timed_out_life Opened (Some 0) (OpenDestroy 0)) \<and> \<not> can_move (timed_out_life Opened (Some 0) (OpenDestroy 0))"
proof (rule conjI)
  show "life_reach UNIV (new_life 1) (timed_out_life Opened (Some 0) (OpenDestroy 0))"
    by (rule life_moves [OF reach_timed_out life_step.open_call [where i = 0 and checked = True]])
      (auto simp: life_eval timed_out_life_def)
  show "\<not> can_move (timed_out_life Opened (Some 0) (OpenDestroy 0))"
    by (auto simp: timed_out_life_def elim: life_step.cases)
qed

theorem close_after_timeout_leaves_thread:
  "life_reach UNIV (new_life 1) \<lparr>lf_state = Closed, lf_startReady = True, lf_runError = False, lf_closing = False, lf_slot = Some 0,
     lf_lock = None, lf_callers = [Free None], lf_threads = [Looping]\<rparr>"
proof -
  have "life_reach UNIV (new_life 1) (timed_out_life Initialized None CloseGate)"
    by (rule life_moves [OF reach_timed_out life_step.close_call [where i = 0]]) (auto simp: life_eval timed_out_life_def)
  then have "life_reach UNIV (new_life 1) (timed_out_life Closed None (Free None))"
    by (rule life_moves [OF _ life_step.close_gate [where i = 0]]) (auto simp: life_eval timed_out_life_def)
  then show ?thesis
    by (rule life_moves [OF _ life_step.thread_begins [where k = 0]]) (auto simp: life_eval timed_out_life_def)
qed

end
