(* ===== verification/JsonRpc.thy ===== *)
theory JsonRpc
  imports ZmJson HttpOwner
begin

text \<open>
  The JSON-RPC face (\<open>net/zm_net_http_jsonrpc_server.cpp\<close>): the table of methods, the checks of a request and the
  envelope of the answer.  The parser of the JSON library is the parameter \<open>J\<close>.

  A handler is a function from the parameters to what it does; \<open>pool\<close> says whether the work pool takes the call of a
  method that is to run there.  Nothing else distinguishes the two ways of calling.  With its answer the dispatcher returns
  the calls of handlers it has made.
\<close>

section \<open>Methods\<close>

datatype outcome = Returns bool json json | Throws   \<comment> \<open>ok, result, error\<close>

type_synonym handler = "json \<Rightarrow> outcome"

record methods =
  mt_methods :: "string \<rightharpoonup> handler"
  mt_offCore :: "string set"

definition no_methods :: methods where
  "no_methods = \<lparr>mt_methods = Map.empty, mt_offCore = {}\<rparr>"

definition RegisterMethod :: "string \<Rightarrow> handler \<Rightarrow> bool \<Rightarrow> methods \<Rightarrow> methods" where
  "RegisterMethod name h isOpened m =
    (if isOpened then m
     else m\<lparr>mt_offCore := mt_offCore m - {name}, mt_methods := (mt_methods m)(name \<mapsto> h)\<rparr>)"

definition RegisterMethodOffCore :: "string \<Rightarrow> handler \<Rightarrow> bool \<Rightarrow> methods \<Rightarrow> methods" where
  "RegisterMethodOffCore name h isOpened m =
    (if isOpened then m
     else m\<lparr>mt_methods := (mt_methods m)(name \<mapsto> h), mt_offCore := insert name (mt_offCore m)\<rparr>)"

section \<open>Dispatch\<close>

definition ParseRequest :: "json_api \<Rightarrow> string \<Rightarrow> json" where
  "ParseRequest J text_body = (case jparse J text_body of Some j \<Rightarrow> j | None \<Rightarrow> JNull)"

definition MakeJsonrpcError :: "int \<Rightarrow> string \<Rightarrow> json" where
  "MakeJsonrpcError code message = JObj [(''code'', JInt code), (''message'', JStr message)]"

fun valid_id :: "json option \<Rightarrow> bool" where
  "valid_id (Some (JInt _)) = True"
| "valid_id (Some (JStr _)) = True"
| "valid_id (Some JNull) = True"
| "valid_id _ = False"

fun params_ok :: "json option \<Rightarrow> bool" where
  "params_ok None = True"
| "params_ok (Some (JObj _)) = True"
| "params_ok (Some (JArr _)) = True"
| "params_ok _ = False"

definition empty_envelope :: "(string \<times> json) list" where
  "empty_envelope = members_set (members_set [] ''id'' JNull) ''jsonrpc'' (JStr ''2.0'')"

type_synonym handler_calls = "(string \<times> json) list"

definition call_handler :: "bool \<Rightarrow> methods \<Rightarrow> string \<Rightarrow> handler \<Rightarrow> json \<Rightarrow> outcome \<times> handler_calls" where
  "call_handler pool m name h params =
    (if name \<in> mt_offCore m \<and> \<not> pool then (Throws, []) else (h params, [(name, params)]))"

definition answer_call :: "(string \<times> json) list \<Rightarrow> outcome \<Rightarrow> (string \<times> json) list" where
  "answer_call rsp res =
    (case res of
       Returns ok result err \<Rightarrow>
         if \<not> ok then members_set rsp ''error'' (if is_object err then err else MakeJsonrpcError (- 32603) ''Internal error'')
         else members_set rsp ''result'' result
     | Throws \<Rightarrow> members_set rsp ''error'' (MakeJsonrpcError (- 32603) ''Internal error''))"

definition dispatch_call :: "bool \<Rightarrow> methods \<Rightarrow> json \<Rightarrow> (string \<times> json) list \<Rightarrow> (string \<times> json) list \<times> handler_calls" where
  "dispatch_call pool m req rsp =
    (case json_find req ''method'' of
       Some (JStr name) \<Rightarrow>
         if \<not> params_ok (json_find req ''params'')
         then (members_set rsp ''error'' (MakeJsonrpcError (- 32602) ''Invalid params, params must be object or array''), [])
         else (case mt_methods m name of
             None \<Rightarrow> (members_set rsp ''error'' (MakeJsonrpcError (- 32601) (''Method not found: '' @ name)), [])
           | Some h \<Rightarrow>
               let (res, calls) = call_handler pool m name h (case json_find req ''params'' of Some p \<Rightarrow> p | None \<Rightarrow> JObj []) in
               (answer_call rsp res, calls))
     | _ \<Rightarrow> (members_set rsp ''error'' (MakeJsonrpcError (- 32600) ''Invalid Request, Missing method Parameter''), []))"

definition Dispatch :: "bool \<Rightarrow> methods \<Rightarrow> json \<Rightarrow> json \<times> handler_calls" where
  "Dispatch pool m req =
    (let rsp = empty_envelope;
         (members, calls) =
           (if req = JNull then (members_set rsp ''error'' (MakeJsonrpcError (- 32700) ''Parse error''), [])
            else if \<not> is_object req
            then (members_set rsp ''error'' (MakeJsonrpcError (- 32600) ''Invalid Request (batch requests are not supported)''), [])
            else if \<not> valid_id (json_find req ''id'')
            then (members_set rsp ''error''
              (MakeJsonrpcError (- 32600) ''Invalid Request, Missing id Parameter (notifications are not supported)''), [])
            else let rsp = members_set rsp ''id'' (the (json_find req ''id'')) in
              if json_find req ''jsonrpc'' \<noteq> Some (JStr ''2.0'')
              then (members_set rsp ''error'' (MakeJsonrpcError (- 32600) ''Invalid Request, Missing jrpc Parameter''), [])
              else dispatch_call pool m req rsp)
     in (JObj members, calls))"

text \<open>The handler of the only route: the status is always 200.  \<open>JsonResponse\<close> writes the envelope with \<open>dump\<close>, which
  throws for a string that is not UTF-8 (a handler may return one); none stands for the exception, which leaves the handler of
  the route and goes to the framework.\<close>

definition serve_jsonrpc ::
    "json_api \<Rightarrow> bool \<Rightarrow> methods \<Rightarrow> string \<Rightarrow> (nat \<times> string) option \<times> handler_calls" where
  "serve_jsonrpc J pool m text_body =
    (let (rsp, calls) = Dispatch pool m (ParseRequest J text_body)
     in (map_option (\<lambda>t. (200, t)) (json_dump J rsp), calls))"

section \<open>Specification\<close>

text \<open>The envelope of JSON-RPC 2.0: an identifier and either a result or an error, in a fixed order.\<close>

datatype reply = Result json | Error json

fun envelope :: "json \<Rightarrow> reply \<Rightarrow> json" where
  "envelope i (Result r) = JObj [(''id'', i), (''jsonrpc'', JStr ''2.0''), (''result'', r)]"
| "envelope i (Error e) = JObj [(''id'', i), (''jsonrpc'', JStr ''2.0''), (''error'', e)]"

text \<open>A well formed call, as the specification of the protocol has it.\<close>

record rpc_call =
  rc_id :: json
  rc_method :: string
  rc_params :: json

definition read_call :: "json \<Rightarrow> rpc_call option" where
  "read_call req =
    (case (json_find req ''id'', json_find req ''jsonrpc'', json_find req ''method'') of
       (Some i, Some (JStr v), Some (JStr name)) \<Rightarrow>
         if valid_id (Some i) \<and> v = ''2.0'' \<and> params_ok (json_find req ''params'')
         then Some \<lparr>rc_id = i, rc_method = name,
                    rc_params = (case json_find req ''params'' of Some p \<Rightarrow> p | None \<Rightarrow> JObj [])\<rparr>
         else None
     | _ \<Rightarrow> None)"

definition error_code :: "json \<Rightarrow> int option" where
  "error_code e = (case json_find e ''code'' of Some (JInt c) \<Rightarrow> Some c | _ \<Rightarrow> None)"

lemma find_object: "json_find req k = Some v \<Longrightarrow> is_object req"
  by (cases req) auto

lemma error_code_make [simp]: "error_code (MakeJsonrpcError c msg) = Some c"
  by (simp add: error_code_def MakeJsonrpcError_def)

lemma envelope_members:
  "members_set empty_envelope ''error'' e = [(''id'', JNull), (''jsonrpc'', JStr ''2.0''), (''error'', e)]"
  "members_set (members_set empty_envelope ''id'' i) ''error'' e = [(''id'', i), (''jsonrpc'', JStr ''2.0''), (''error'', e)]"
  "members_set (members_set empty_envelope ''id'' i) ''result'' e = [(''id'', i), (''jsonrpc'', JStr ''2.0''), (''result'', e)]"
  by (simp_all add: empty_envelope_def)

lemma dispatch_calls:
  assumes "read_call req = Some c"
  shows "Dispatch pool m req =
    (case mt_methods m (rc_method c) of
       None \<Rightarrow> (envelope (rc_id c) (Error (MakeJsonrpcError (- 32601) (''Method not found: '' @ rc_method c))), [])
     | Some h \<Rightarrow>
         if rc_method c \<in> mt_offCore m \<and> \<not> pool
         then (envelope (rc_id c) (Error (MakeJsonrpcError (- 32603) ''Internal error'')), [])
         else (envelope (rc_id c)
           (case h (rc_params c) of
              Returns ok result err \<Rightarrow>
                if ok then Result result
                else Error (if is_object err then err else MakeJsonrpcError (- 32603) ''Internal error'')
            | Throws \<Rightarrow> Error (MakeJsonrpcError (- 32603) ''Internal error'')), [(rc_method c, rc_params c)]))"
proof -
  obtain i name where c: "json_find req ''id'' = Some i" "json_find req ''jsonrpc'' = Some (JStr ''2.0'')"
    "json_find req ''method'' = Some (JStr name)" "valid_id (Some i)" "params_ok (json_find req ''params'')"
    "c = \<lparr>rc_id = i, rc_method = name, rc_params = (case json_find req ''params'' of Some p \<Rightarrow> p | None \<Rightarrow> JObj [])\<rparr>"
    using assms by (auto simp: read_call_def split: option.splits json.splits if_splits)
  have "is_object req" "req \<noteq> JNull"
    using find_object [OF c(1)] by auto
  then have d: "Dispatch pool m req = (let (members, calls) = dispatch_call pool m req (members_set empty_envelope ''id'' i)
      in (JObj members, calls))"
    using c by (simp add: Dispatch_def Let_def)
  show ?thesis
  proof (cases "mt_methods m name")
    case None
    then show ?thesis
      using c by (simp add: d dispatch_call_def envelope_members)
  next
    case (Some h)
    then show ?thesis
      using c by (simp add: d dispatch_call_def answer_call_def call_handler_def envelope_members split: outcome.split)
  qed
qed

text \<open>C19: a well formed call of a method that is registered gets its own identifier back with what the handler gave: its
  result, its error object, or \<open>-32603\<close> when the handler throws, gives no error object or cannot be run.  A well formed
  call of another method gets \<open>-32601\<close>.  The handler is called once with the parameters of the call, and not at all when
  there is none or the work pool does not take it.\<close>
theorem jsonrpc_calls:
  assumes "read_call req = Some c"
  shows "Dispatch pool m req =
    (case mt_methods m (rc_method c) of
       None \<Rightarrow> (envelope (rc_id c) (Error (MakeJsonrpcError (- 32601) (''Method not found: '' @ rc_method c))), [])
     | Some h \<Rightarrow>
         if rc_method c \<in> mt_offCore m \<and> \<not> pool
         then (envelope (rc_id c) (Error (MakeJsonrpcError (- 32603) ''Internal error'')), [])
         else (envelope (rc_id c)
           (case h (rc_params c) of
              Returns ok result err \<Rightarrow>
                if ok then Result result
                else Error (if is_object err then err else MakeJsonrpcError (- 32603) ''Internal error'')
            | Throws \<Rightarrow> Error (MakeJsonrpcError (- 32603) ''Internal error'')), [(rc_method c, rc_params c)]))"
  by (rule dispatch_calls [OF assms])

theorem jsonrpc_calls_witness:
  "Dispatch True (RegisterMethod ''add'' (\<lambda>p. Returns True (JInt 5) JNull) False no_methods)
     (JObj [(''jsonrpc'', JStr ''2.0''), (''id'', JInt 7), (''method'', JStr ''add''), (''params'', JArr [])])
   = (envelope (JInt 7) (Result (JInt 5)), [(''add'', JArr [])])"
  using jsonrpc_calls [of "JObj [(''jsonrpc'', JStr ''2.0''), (''id'', JInt 7), (''method'', JStr ''add''), (''params'', JArr [])]"
      "\<lparr>rc_id = JInt 7, rc_method = ''add'', rc_params = JArr []\<rparr>" True
      "RegisterMethod ''add'' (\<lambda>p. Returns True (JInt 5) JNull) False no_methods"]
  by (simp add: read_call_def RegisterMethod_def no_methods_def)

text \<open>The code a body is refused with.\<close>

definition refusal_code :: "json \<Rightarrow> int" where
  "refusal_code req =
    (if req = JNull then - 32700
     else if valid_id (json_find req ''id'') \<and> json_find req ''jsonrpc'' = Some (JStr ''2.0'')
       \<and> (case json_find req ''method'' of Some (JStr _) \<Rightarrow> True | _ \<Rightarrow> False)
     then - 32602
     else - 32600)"

lemma dispatch_refuses:
  assumes None: "read_call r = None"
  shows "\<exists>msg. Dispatch pool m r
    = (envelope (if valid_id (json_find r ''id'') then the (json_find r ''id'') else JNull) (Error (MakeJsonrpcError (refusal_code r) msg)), [])"
proof (cases "is_object r \<and> valid_id (json_find r ''id'')")
  case True
  then obtain i where i: "json_find r ''id'' = Some i" "valid_id (Some i)"
    by (cases "json_find r ''id''") auto
  have r: "r \<noteq> JNull"
    using True by auto
  consider "json_find r ''jsonrpc'' \<noteq> Some (JStr ''2.0'')"
    | "json_find r ''jsonrpc'' = Some (JStr ''2.0'')" "\<And>n. json_find r ''method'' \<noteq> Some (JStr n)"
    | n where "json_find r ''jsonrpc'' = Some (JStr ''2.0'')" "json_find r ''method'' = Some (JStr n)"
      "\<not> params_ok (json_find r ''params'')"
    using None True i by (auto simp: read_call_def split: option.splits json.splits if_splits)
  then show ?thesis
  proof cases
    case 1
    then show ?thesis
      using True i r by (auto simp: Dispatch_def Let_def envelope_members refusal_code_def)
  next
    case 2
    then show ?thesis
      using True i r
      by (intro exI [of _ "''Invalid Request, Missing method Parameter''"])
        (simp add: Dispatch_def dispatch_call_def Let_def envelope_members refusal_code_def split: option.split json.split)
  next
    case 3
    then show ?thesis
      using True i r by (auto simp: Dispatch_def dispatch_call_def Let_def envelope_members refusal_code_def)
  qed
next
  case False
  then have "\<not> valid_id (json_find r ''id'')"
    by (cases r) auto
  then show ?thesis
    using False by (cases "r = JNull") (auto simp: Dispatch_def Let_def envelope_members refusal_code_def)
qed

lemma refused_id: "valid_id (Some (if valid_id (json_find r ''id'') then the (json_find r ''id'') else JNull))"
  by (cases "json_find r ''id''") auto

lemma read_call_id: "read_call req = Some c \<Longrightarrow> valid_id (Some (rc_id c))"
  by (auto simp: read_call_def split: option.splits json.splits if_splits)

lemma dispatch_replies:
  assumes "read_call req = Some c"
  shows "\<exists>e. fst (Dispatch pool m req) = envelope (rc_id c) e \<and> (case e of Error v \<Rightarrow> is_object v | Result v \<Rightarrow> True)"
proof (cases "mt_methods m (rc_method c)")
  case None
  then show ?thesis
    by (intro exI [of _ "Error (MakeJsonrpcError (- 32601) (''Method not found: '' @ rc_method c))"])
      (simp add: dispatch_calls [OF assms] MakeJsonrpcError_def)
next
  case (Some h)
  show ?thesis
  proof (cases "rc_method c \<in> mt_offCore m \<and> \<not> pool")
    case True
    then show ?thesis
      using Some by (intro exI [of _ "Error (MakeJsonrpcError (- 32603) ''Internal error'')"])
        (simp add: dispatch_calls [OF assms] MakeJsonrpcError_def)
  next
    case False
    let ?e = "case h (rc_params c) of
        Returns ok result err \<Rightarrow>
          if ok then Result result
          else Error (if is_object err then err else MakeJsonrpcError (- 32603) ''Internal error'')
      | Throws \<Rightarrow> Error (MakeJsonrpcError (- 32603) ''Internal error'')"
    have "fst (Dispatch pool m req) = envelope (rc_id c) ?e"
      using Some False unfolding dispatch_calls [OF assms] by (simp only: option.case if_False fst_conv)
    moreover have "case ?e of Error v \<Rightarrow> is_object v | Result v \<Rightarrow> True"
      by (simp add: MakeJsonrpcError_def split: outcome.split)
    ultimately show ?thesis
      by blast
  qed
qed

text \<open>C40: every answer has the shape of the protocol: an object with the identifier, the version and exactly one of result and
  error, in this order; the identifier is an integer, a string or null, and an error is an object, whatever the handler gave.\<close>
theorem jsonrpc_envelope_typed:
  "\<exists>i e. fst (Dispatch pool m req) = envelope i e \<and> valid_id (Some i) \<and> (case e of Error v \<Rightarrow> is_object v | Result v \<Rightarrow> True)"
proof (cases "read_call req")
  case None
  obtain msg where "Dispatch pool m req = (envelope (if valid_id (json_find req ''id'') then the (json_find req ''id'') else JNull)
      (Error (MakeJsonrpcError (refusal_code req) msg)), [])"
    using dispatch_refuses [OF None, of pool m] by blast
  moreover have "is_object (MakeJsonrpcError (refusal_code req) msg)"
    by (simp add: MakeJsonrpcError_def)
  ultimately show ?thesis
    using refused_id [of req]
    by (intro exI [of _ "if valid_id (json_find req ''id'') then the (json_find req ''id'') else JNull"]
        exI [of _ "Error (MakeJsonrpcError (refusal_code req) msg)"]) simp
next
  case (Some c)
  obtain e where "fst (Dispatch pool m req) = envelope (rc_id c) e" "case e of Error v \<Rightarrow> is_object v | Result v \<Rightarrow> True"
    using dispatch_replies [OF Some] by blast
  then show ?thesis
    using read_call_id [OF Some] by blast
qed

text \<open>C33: everything else is refused without calling a handler: any body that is not a well formed call gets an envelope with
  an error of the protocol, \<open>-32700\<close> for a body that cannot be parsed (and for null), \<open>-32602\<close> when only the parameters are
  wrong, and \<open>-32600\<close> otherwise; the answer has status 200 and the text of the envelope (where it can be written), the identifier is that of the request where it has a valid one and
  null else, and the list of calls is empty.\<close>
theorem jsonrpc_refusals:
  "\<exists>i e calls. serve_jsonrpc J pool m text_body = (map_option (Pair 200) (json_dump J (envelope i e)), calls)
    \<and> (if read_call (ParseRequest J text_body) = None
       then calls = [] \<and> (\<exists>msg. e = Error (MakeJsonrpcError (refusal_code (ParseRequest J text_body)) msg))
         \<and> i = (if valid_id (json_find (ParseRequest J text_body) ''id'')
               then the (json_find (ParseRequest J text_body) ''id'') else JNull)
       else True)"
proof (cases "read_call (ParseRequest J text_body)")
  case None
  let ?r = "ParseRequest J text_body"
  obtain msg where "Dispatch pool m ?r = (envelope (if valid_id (json_find ?r ''id'') then the (json_find ?r ''id'') else JNull)
      (Error (MakeJsonrpcError (refusal_code ?r) msg)), [])"
    using dispatch_refuses [OF None, of pool m] by blast
  then show ?thesis
    using None
    by (intro exI [of _ "if valid_id (json_find ?r ''id'') then the (json_find ?r ''id'') else JNull"]
        exI [of _ "Error (MakeJsonrpcError (refusal_code ?r) msg)"] exI [of _ "[]"]) (auto simp: serve_jsonrpc_def)
next
  case (Some c)
  obtain e where "fst (Dispatch pool m (ParseRequest J text_body)) = envelope (rc_id c) e"
    using dispatch_replies [OF Some] by blast
  then have "serve_jsonrpc J pool m text_body
      = (map_option (Pair 200) (json_dump J (envelope (rc_id c) e)), snd (Dispatch pool m (ParseRequest J text_body)))"
    by (cases "Dispatch pool m (ParseRequest J text_body)") (simp add: serve_jsonrpc_def)
  then show ?thesis
    using Some by auto
qed

text \<open>The text \<open>null\<close> is JSON, and yet it is answered as if it could not be parsed.\<close>

theorem null_is_parse_error:
  assumes "jparse J ''null'' = Some JNull"
  shows "serve_jsonrpc J pool m ''null''
    = (map_option (Pair 200) (json_dump J (envelope JNull (Error (MakeJsonrpcError (- 32700) ''Parse error'')))), [])"
  using assms by (simp add: serve_jsonrpc_def ParseRequest_def Dispatch_def Let_def envelope_members)

theorem null_is_parse_error_witness:
  "serve_jsonrpc \<lparr>jparse = \<lambda>s. Some JNull, jdump = \<lambda>j. ''x'' \<rparr> True no_methods ''null'' = (Some (200, ''x''), [])"
  using null_is_parse_error [of "\<lparr>jparse = \<lambda>s. Some JNull, jdump = \<lambda>j. ''x'' \<rparr>" True no_methods] by (simp add: json_dump_def utf8_ok_def char_code_def MakeJsonrpcError_def)

section \<open>The table of methods\<close>

datatype registration = OnLoop string handler | OffCore string handler

fun reg_name :: "registration \<Rightarrow> string" where
  "reg_name (OnLoop name h) = name"
| "reg_name (OffCore name h) = name"

fun reg_handler :: "registration \<Rightarrow> handler" where
  "reg_handler (OnLoop name h) = h"
| "reg_handler (OffCore name h) = h"

fun register :: "registration \<Rightarrow> methods \<Rightarrow> methods" where
  "register (OnLoop name h) m = RegisterMethod name h False m"
| "register (OffCore name h) m = RegisterMethodOffCore name h False m"

definition last_registration :: "registration list \<Rightarrow> string \<Rightarrow> registration option" where
  "last_registration regs name = List.find (\<lambda>r. reg_name r = name) (rev regs)"

text \<open>The last registration of a name decides both the handler and where it runs.\<close>
theorem last_registration_wins:
  "mt_methods (fold register regs no_methods) name = map_option reg_handler (last_registration regs name)
    \<and> (name \<in> mt_offCore (fold register regs no_methods) \<longleftrightarrow> (\<exists>h. last_registration regs name = Some (OffCore name h)))"
proof (induction regs rule: rev_induct)
  case Nil
  then show ?case
    by (simp add: last_registration_def no_methods_def)
next
  case (snoc r regs)
  then show ?case
    by (cases r) (auto simp: last_registration_def RegisterMethod_def RegisterMethodOffCore_def)
qed

end
