(* ===== verification/Jsonp.thy ===== *)
theory Jsonp
  imports HttpFile "HOL-Library.Multiset"
begin

text \<open>
  Automatic JSONP of \<open>net/zm_net_http_server.cpp\<close>: which prefixes may be read by foreign scripts, the snapshot made when
  the server opens, and the wrapping of a JSON answer on its way out.

  The sort of the snapshot may order prefixes of equal length in any way, so the sorted list is a parameter wherever the
  order could matter.
\<close>

record jsonp_options =
  jo_paramNames :: "string list"
  jo_wrapErrors :: bool
  jo_maxBodyBytes :: nat
  jo_enabled :: bool

definition builtin_options :: jsonp_options where
  "builtin_options = \<lparr>jo_paramNames = [''callback''], jo_wrapErrors = True, jo_maxBodyBytes = 256 * 1024, jo_enabled = True\<rparr>"

record jsonp_override =
  jv_enabled :: "bool option"
  jv_paramNames :: "string list option"
  jv_wrapErrors :: "bool option"
  jv_maxBodyBytes :: "nat option"

record jsonp_state =
  js_opened :: bool
  js_defaults :: jsonp_options
  js_routes :: "(string \<times> jsonp_options) list"
  js_warned :: "string set"

definition new_jsonp :: jsonp_state where
  "new_jsonp = \<lparr>js_opened = False, js_defaults = builtin_options, js_routes = [], js_warned = {}\<rparr>"

section \<open>Declarations\<close>

definition SetJsonpDefaults :: "jsonp_options \<Rightarrow> jsonp_state \<Rightarrow> jsonp_state" where
  "SetJsonpDefaults opts s = (if js_opened s then s else s\<lparr>js_defaults := opts\<rparr>)"

definition merge_options :: "jsonp_override \<Rightarrow> jsonp_options \<Rightarrow> jsonp_options" where
  "merge_options ov base =
    \<lparr>jo_paramNames = (case jv_paramNames ov of Some v \<Rightarrow> v | None \<Rightarrow> jo_paramNames base),
     jo_wrapErrors = (case jv_wrapErrors ov of Some v \<Rightarrow> v | None \<Rightarrow> jo_wrapErrors base),
     jo_maxBodyBytes = (case jv_maxBodyBytes ov of Some v \<Rightarrow> v | None \<Rightarrow> jo_maxBodyBytes base),
     jo_enabled = (case jv_enabled ov of Some v \<Rightarrow> v | None \<Rightarrow> True)\<rparr>"

fun put_route :: "string \<Rightarrow> jsonp_options \<Rightarrow> (string \<times> jsonp_options) list \<Rightarrow> (string \<times> jsonp_options) list" where
  "put_route p opts [] = [(p, opts)]"
| "put_route p opts (e # es) = (if fst e = p then (p, opts) # es else e # put_route p opts es)"

definition SetJsonpEnabled :: "string \<Rightarrow> jsonp_override \<Rightarrow> jsonp_state \<Rightarrow> jsonp_state" where
  "SetJsonpEnabled pathPrefix ov s =
    (if pathPrefix = [] then s
     else if js_opened s then s
     else s\<lparr>js_routes := put_route pathPrefix (merge_options ov (js_defaults s)) (js_routes s)\<rparr>)"

section \<open>The snapshot and the choice of a declaration\<close>

definition is_snapshot :: "(string \<times> jsonp_options) list \<Rightarrow> (string \<times> jsonp_options) list \<Rightarrow> bool" where
  "is_snapshot routes snap \<longleftrightarrow> mset snap = mset routes \<and> sorted_wrt (\<lambda>a b. length (fst b) \<le> length (fst a)) snap"

definition ZmBuildJsonpSnapshot :: "(string \<times> jsonp_options) list \<Rightarrow> (string \<times> jsonp_options) list" where
  "ZmBuildJsonpSnapshot routes = rev (sort_key (length \<circ> fst) routes)"

definition ZmJsonpPrefixMatch :: "string \<Rightarrow> string \<Rightarrow> bool" where
  "ZmJsonpPrefixMatch path prefx \<longleftrightarrow>
    (if prefx = [] \<or> length path < length prefx then False
     else if take (length prefx) path \<noteq> prefx then False
     else length path = length prefx \<or> last prefx = CHR ''/'' \<or> path ! length prefx = CHR ''/'')"

definition find_route :: "(string \<times> jsonp_options) list \<Rightarrow> string \<Rightarrow> (string \<times> jsonp_options) option" where
  "find_route snap path = List.find (\<lambda>e. ZmJsonpPrefixMatch path (fst e)) snap"

definition IsValidJsonpCallback :: "string \<Rightarrow> bool" where
  "IsValidJsonpCallback cb \<longleftrightarrow> \<not> (cb = [] \<or> 128 < length cb)
     \<and> list_all (\<lambda>c. is_alnum_char c \<or> c = CHR ''_'' \<or> c = CHR ''.'') cb"

text \<open>The callback name is the first parameter that is not empty.\<close>

fun first_param :: "(string \<Rightarrow> string) \<Rightarrow> string list \<Rightarrow> string" where
  "first_param getParameter [] = []"
| "first_param getParameter (name # names) =
    (if getParameter name \<noteq> [] then getParameter name else first_param getParameter names)"

datatype content_type = Json | JavaScript | OtherType

record http_reply =
  rp_status :: nat
  rp_type :: content_type
  rp_body :: string

definition wrapped :: "string \<Rightarrow> http_reply \<Rightarrow> http_reply" where
  "wrapped cb resp = resp\<lparr>rp_body := cb @ ''('' @ rp_body resp @ '');'', rp_type := JavaScript\<rparr>"

definition kJsonpWarnedMax :: nat where
  "kJsonpWarnedMax = 4096"

definition jsonp_choice :: "(string \<times> jsonp_options) list \<Rightarrow> jsonp_options \<Rightarrow> string \<Rightarrow> (jsonp_options \<times> bool) option" where
  "jsonp_choice snap defaults path =
    (case find_route snap path of
       Some (p, opts) \<Rightarrow> Some (opts, False)
     | None \<Rightarrow> if jo_enabled defaults then Some (defaults, True) else None)"

definition ApplyAutoJsonp ::
  "(string \<times> jsonp_options) list \<Rightarrow> jsonp_options \<Rightarrow> bool \<Rightarrow> string \<Rightarrow> (string \<Rightarrow> string) \<Rightarrow> http_reply \<Rightarrow> string set
     \<Rightarrow> http_reply \<times> string set" where
  "ApplyAutoJsonp snap defaults isGet path getParameter resp warned =
    (if \<not> isGet then (resp, warned)
     else if rp_type resp \<noteq> Json then (resp, warned)
     else case jsonp_choice snap defaults path of
       None \<Rightarrow> (resp, warned)
     | Some (opts, undeclared) \<Rightarrow>
         if \<not> jo_enabled opts then (resp, warned)
         else if \<not> jo_wrapErrors opts \<and> 400 \<le> rp_status resp then (resp, warned)
         else if jo_maxBodyBytes opts < length (rp_body resp) then (resp, warned)
         else let cb = first_param getParameter (jo_paramNames opts) in
           if cb = [] \<or> \<not> IsValidJsonpCallback cb then (resp, warned)
           else (wrapped cb resp,
             if undeclared \<and> card warned < kJsonpWarnedMax then insert path warned else warned))"

definition JsonpResponse :: "(string \<Rightarrow> string) \<Rightarrow> string \<Rightarrow> http_reply \<Rightarrow> http_reply" where
  "JsonpResponse getParameter dumped invalid =
    (let cb = getParameter ''callback'' in
     if cb = [] then \<lparr>rp_status = 200, rp_type = Json, rp_body = dumped\<rparr>
     else if \<not> IsValidJsonpCallback cb then invalid
     else \<lparr>rp_status = 200, rp_type = JavaScript, rp_body = cb @ ''('' @ dumped @ '');''\<rparr>)"

section \<open>Declarations in order\<close>

datatype jsonp_op = Defaults jsonp_options | Declare string jsonp_override

fun jsonp_step :: "jsonp_op \<Rightarrow> jsonp_state \<Rightarrow> jsonp_state" where
  "jsonp_step (Defaults opts) s = SetJsonpDefaults opts s"
| "jsonp_step (Declare p ov) s = SetJsonpEnabled p ov s"

definition jsonp_run :: "jsonp_op list \<Rightarrow> jsonp_state" where
  "jsonp_run ops = fold jsonp_step ops new_jsonp"

lemma keys_put_route: "set (map fst (put_route p opts es)) = insert p (set (map fst es))"
  by (induction es) auto

lemma distinct_put_route: "distinct (map fst es) \<Longrightarrow> distinct (map fst (put_route p opts es))"
proof (induction es)
  case (Cons e es)
  have "fst e \<notin> set (map fst (put_route p opts es))" if "fst e \<noteq> p"
    using Cons.prems that keys_put_route [of p opts es] by auto
  then show ?case
    using Cons by (auto simp del: set_map list.set_map)
qed simp

lemma map_of_put_route: "map_of (put_route p opts es) = (map_of es)(p \<mapsto> opts)"
  by (induction es) (auto simp: fun_eq_iff)

definition jsonp_inv :: "jsonp_state \<Rightarrow> bool" where
  "jsonp_inv s \<longleftrightarrow> distinct (map fst (js_routes s)) \<and> [] \<notin> set (map fst (js_routes s)) \<and> \<not> js_opened s"

lemma jsonp_run_inv: "jsonp_inv (jsonp_run ops)"
proof (induction ops rule: rev_induct)
  case Nil
  then show ?case
    by (simp add: jsonp_run_def jsonp_inv_def new_jsonp_def)
next
  case (snoc op ops)
  then show ?case
    by (cases op) (auto simp: jsonp_run_def jsonp_inv_def SetJsonpDefaults_def SetJsonpEnabled_def distinct_put_route
        keys_put_route simp del: set_map list.set_map)
qed

lemma ZmBuildJsonpSnapshot_snapshot: "is_snapshot routes (ZmBuildJsonpSnapshot routes)"
proof -
  have "sorted (map (length \<circ> fst) (sort_key (length \<circ> fst) routes))"
    by simp
  then have "sorted_wrt (\<lambda>a b. length (fst b) \<le> length (fst a)) (rev (sort_key (length \<circ> fst) routes))"
    unfolding sorted_map sorted_wrt_rev by (rule sorted_wrt_mono_rel [rotated]) simp
  then show ?thesis
    by (simp add: is_snapshot_def ZmBuildJsonpSnapshot_def)
qed

text \<open>In a list that is sorted by length the first prefix that matches is the longest.\<close>

lemma find_longest:
  assumes "sorted_wrt (\<lambda>a b. length (fst b) \<le> length (fst a)) snap" "List.find P snap = Some e"
  shows "e \<in> set snap \<and> P e \<and> (\<forall>e' \<in> set snap. P e' \<longrightarrow> length (fst e') \<le> length (fst e))"
  using assms by (induction snap) (auto split: if_splits)

lemma match_take: "ZmJsonpPrefixMatch path p \<Longrightarrow> take (length p) path = p"
  by (auto simp: ZmJsonpPrefixMatch_def split: if_splits)

lemma find_route_choice:
  assumes "distinct (map fst routes)" "is_snapshot routes snap"
  shows "find_route snap path = Some (p, opts) \<longleftrightarrow> map_of routes p = Some opts \<and> ZmJsonpPrefixMatch path p
    \<and> (\<forall>q \<in> fst ` set routes. ZmJsonpPrefixMatch path q \<longrightarrow> length q \<le> length p)"
proof -
  have sets: "set snap = set routes"
    using assms(2) unfolding is_snapshot_def by (metis set_mset_mset)
  have of: "map_of routes p = Some opts \<longleftrightarrow> (p, opts) \<in> set snap" for p opts
    using assms(1) sets by simp
  note long = find_longest [of snap "\<lambda>e. ZmJsonpPrefixMatch path (fst e)"]
  have sorted: "sorted_wrt (\<lambda>a b. length (fst b) \<le> length (fst a)) snap"
    using assms(2) by (simp add: is_snapshot_def)
  show ?thesis
  proof
    assume "find_route snap path = Some (p, opts)"
    then show "map_of routes p = Some opts \<and> ZmJsonpPrefixMatch path p
      \<and> (\<forall>q \<in> fst ` set routes. ZmJsonpPrefixMatch path q \<longrightarrow> length q \<le> length p)"
      using long [OF sorted] unfolding of find_route_def sets by fastforce
  next
    assume r: "map_of routes p = Some opts \<and> ZmJsonpPrefixMatch path p
      \<and> (\<forall>q \<in> fst ` set routes. ZmJsonpPrefixMatch path q \<longrightarrow> length q \<le> length p)"
    then obtain e where e: "find_route snap path = Some e"
      using of by (cases "find_route snap path") (auto simp: find_route_def find_None_iff)
    then have e': "e \<in> set routes" "ZmJsonpPrefixMatch path (fst e)" "length p \<le> length (fst e)"
      using long [OF sorted, of e] r of sets unfolding find_route_def by fastforce+
    then have "length (fst e) = length p"
      using r by (auto intro!: le_antisym)
    then have "fst e = p"
      using match_take [OF e'(2)] match_take r by metis
    then have "e = (p, opts)"
      using e'(1) r assms(1) by (metis map_of_is_SomeI option.inject prod.collapse)
    then show "find_route snap path = Some (p, opts)"
      using e by simp
  qed
qed

section \<open>Correctness\<close>

text \<open>A declared prefix covers a path by whole segments; a prefix that ends in a slash covers what begins with it.\<close>

definition covers :: "string \<Rightarrow> string \<Rightarrow> bool" where
  "covers p path \<longleftrightarrow> p \<noteq> [] \<and> (\<exists>rest. path = p @ rest \<and> (rest = [] \<or> last p = CHR ''/'' \<or> hd rest = CHR ''/''))"

lemma match_covers: "ZmJsonpPrefixMatch path p \<longleftrightarrow> covers p path"
proof
  assume m: "ZmJsonpPrefixMatch path p"
  then have p: "path = p @ drop (length p) path"
    using match_take by (metis append_take_drop_id)
  moreover have "drop (length p) path = [] \<or> last p = CHR ''/'' \<or> hd (drop (length p) path) = CHR ''/''"
    using m by (auto simp: ZmJsonpPrefixMatch_def hd_drop_conv_nth split: if_splits)
  ultimately show "covers p path"
    using m unfolding covers_def by (auto simp: ZmJsonpPrefixMatch_def split: if_splits)
next
  assume "covers p path"
  then obtain rest where "p \<noteq> []" "path = p @ rest" "rest = [] \<or> last p = CHR ''/'' \<or> hd rest = CHR ''/''"
    by (auto simp: covers_def)
  then show "ZmJsonpPrefixMatch path p"
    by (cases rest) (auto simp: ZmJsonpPrefixMatch_def)
qed

lemma find_route_none: "is_snapshot routes snap \<Longrightarrow> find_route snap path = None \<longleftrightarrow> \<not> list_ex (\<lambda>(q, opts). covers q path) routes"
proof -
  assume "is_snapshot routes snap"
  then have "set snap = set routes"
    unfolding is_snapshot_def by (metis set_mset_mset)
  then show ?thesis
    by (auto simp: find_route_def find_None_iff list_ex_iff match_covers)
qed

text \<open>C23: an answer is wrapped only if the request is a GET, the answer is JSON and the options that govern the path allow it:
  those of the longest declared prefix that covers the path, enabled or not, and the defaults only if no declared prefix covers
  it; whatever the order the snapshot has prefixes of equal length in.  What is sent then is the unchanged body in a call of
  the function named by the first parameter of those options, a name of at most 128 letters, digits, dots and underscores.\<close>
theorem jsonp_wraps_only_allowed:
  assumes "is_snapshot (js_routes (jsonp_run ops)) snap"
    and "ApplyAutoJsonp snap (js_defaults (jsonp_run ops)) isGet path getParameter resp warned = (resp', warned')" "resp' \<noteq> resp"
  shows "isGet \<and> rp_type resp = Json \<and> (\<exists>opts cb. (if list_ex (\<lambda>(q, opts). covers q path) (js_routes (jsonp_run ops))
        then \<exists>p. map_of (js_routes (jsonp_run ops)) p = Some opts \<and> covers p path
          \<and> length ` {q \<in> fst ` set (js_routes (jsonp_run ops)). covers q path} \<subseteq> {..length p}
        else opts = js_defaults (jsonp_run ops))
      \<and> jo_enabled opts \<and> length (rp_body resp) \<le> jo_maxBodyBytes opts \<and> (jo_wrapErrors opts \<or> rp_status resp < 400)
      \<and> cb = first_param getParameter (jo_paramNames opts) \<and> cb \<noteq> [] \<and> length cb \<le> 128
      \<and> list_all (\<lambda>c. is_alnum_char c \<or> c = CHR ''_'' \<or> c = CHR ''.'') cb
      \<and> resp' = \<lparr>rp_status = rp_status resp, rp_type = JavaScript, rp_body = cb @ ''('' @ rp_body resp @ '');''\<rparr>)"
proof -
  let ?r = "js_routes (jsonp_run ops)"
  have "distinct (map fst ?r)"
    using jsonp_run_inv [of ops] by (simp add: jsonp_inv_def)
  note choice = find_route_choice [OF this assms(1), of path, unfolded match_covers]
  obtain opts u where o: "jsonp_choice snap (js_defaults (jsonp_run ops)) path = Some (opts, u)" "jo_enabled opts"
    and w: "isGet" "rp_type resp = Json" "length (rp_body resp) \<le> jo_maxBodyBytes opts" "jo_wrapErrors opts \<or> rp_status resp < 400"
      "IsValidJsonpCallback (first_param getParameter (jo_paramNames opts))" "resp' = wrapped (first_param getParameter (jo_paramNames opts)) resp"
    using assms(2,3) by (auto simp: ApplyAutoJsonp_def Let_def split: if_splits option.splits)
  have "if list_ex (\<lambda>(q, opts). covers q path) ?r
    then \<exists>p. map_of ?r p = Some opts \<and> covers p path \<and> length ` {q \<in> fst ` set ?r. covers q path} \<subseteq> {..length p}
    else opts = js_defaults (jsonp_run ops)"
  proof (cases "find_route snap path")
    case None
    then show ?thesis
      using o find_route_none [OF assms(1), of path] by (auto simp: jsonp_choice_def split: if_splits)
  next
    case (Some e)
    then have "snd e = opts"
      using o(1) by (auto simp: jsonp_choice_def split: prod.splits)
    then show ?thesis
      using Some choice [of "fst e" opts] find_route_none [OF assms(1), of path]
      by (auto simp: image_subset_iff intro!: exI [of _ "fst e"])
  qed
  with o(2) w show ?thesis
    by (intro conjI exI [of _ opts] exI [of _ "first_param getParameter (jo_paramNames opts)"])
      (simp_all add: IsValidJsonpCallback_def wrapped_def)
qed

definition demo_jsonp :: "jsonp_op list" where
  "demo_jsonp = [Declare ''/api'' \<lparr>jv_enabled = Some False, jv_paramNames = None, jv_wrapErrors = None, jv_maxBodyBytes = None\<rparr>,
     Declare ''/api/open'' \<lparr>jv_enabled = None, jv_paramNames = None, jv_wrapErrors = None, jv_maxBodyBytes = None\<rparr>]"

theorem jsonp_wraps_only_allowed_witness:
  "\<exists>p. covers p ''/api/open/x'' \<and> length ` {q \<in> {''/api'', ''/api/open''}. covers q ''/api/open/x''} \<subseteq> {..length p}
    \<and> p \<in> {''/api'', ''/api/open''}"
proof -
  have routes: "js_routes (jsonp_run demo_jsonp) = [(''/api'', builtin_options\<lparr>jo_enabled := False\<rparr>), (''/api/open'', builtin_options)]"
    by (simp add: demo_jsonp_def jsonp_run_def new_jsonp_def SetJsonpEnabled_def merge_options_def builtin_options_def)
  have "is_snapshot (js_routes (jsonp_run demo_jsonp)) (rev (js_routes (jsonp_run demo_jsonp)))"
    by (simp add: routes is_snapshot_def)
  note w = jsonp_wraps_only_allowed [OF this, of True "''/api/open/x''" "\<lambda>n. ''f''" "\<lparr>rp_status = 200, rp_type = Json, rp_body = ''1''\<rparr>" "{}"
      "wrapped ''f'' \<lparr>rp_status = 200, rp_type = Json, rp_body = ''1''\<rparr>" "{}"]
  have "covers ''/api'' ''/api/open/x''"
    unfolding match_covers [symmetric] by (simp add: ZmJsonpPrefixMatch_def)
  moreover have "ApplyAutoJsonp (rev (js_routes (jsonp_run demo_jsonp))) (js_defaults (jsonp_run demo_jsonp)) True ''/api/open/x'' (\<lambda>n. ''f'')
      \<lparr>rp_status = 200, rp_type = Json, rp_body = ''1''\<rparr> {} = (wrapped ''f'' \<lparr>rp_status = 200, rp_type = Json, rp_body = ''1''\<rparr>, {})"
    by (simp add: routes ApplyAutoJsonp_def jsonp_choice_def find_route_def ZmJsonpPrefixMatch_def builtin_options_def
        IsValidJsonpCallback_def is_alnum_char_def is_digit_def char_code_def Let_def)
  moreover have "wrapped ''f'' \<lparr>rp_status = 200, rp_type = Json, rp_body = ''1''\<rparr> \<noteq> \<lparr>rp_status = 200, rp_type = Json, rp_body = ''1''\<rparr>"
    by (simp add: wrapped_def)
  ultimately obtain p opts where "map_of (js_routes (jsonp_run demo_jsonp)) p = Some opts" "covers p ''/api/open/x''"
    "length ` {q \<in> fst ` set (js_routes (jsonp_run demo_jsonp)). covers q ''/api/open/x''} \<subseteq> {..length p}"
    using w by (auto simp: routes)
  then show ?thesis
    by (intro exI [of _ p]) (auto simp: routes split: if_splits)
qed

text \<open>The set of paths warned about is bounded, although clients choose the paths.\<close>

lemma warned_bounded:
  assumes "finite warned" "card warned \<le> kJsonpWarnedMax"
  shows "card (snd (ApplyAutoJsonp snap defaults isGet path getParameter resp warned)) \<le> kJsonpWarnedMax"
  using assms card_insert_le_m1 [of kJsonpWarnedMax warned path]
  by (auto simp: ApplyAutoJsonp_def Let_def kJsonpWarnedMax_def card_insert_if split: option.split)

text \<open>A prefix takes over the defaults of the moment it is declared: defaults set later do not reach it.  And a declared
  prefix is enabled even if the defaults say otherwise.\<close>

theorem jsonp_defaults_not_inherited:
  "js_routes (jsonp_run [Declare ''/a'' \<lparr>jv_enabled = None, jv_paramNames = None, jv_wrapErrors = None, jv_maxBodyBytes = None\<rparr>,
       Defaults \<lparr>jo_paramNames = [''cb''], jo_wrapErrors = False, jo_maxBodyBytes = 10, jo_enabled = False\<rparr>])
     = [(''/a'', builtin_options)]
   \<and> js_routes (jsonp_run [Defaults \<lparr>jo_paramNames = [''cb''], jo_wrapErrors = False, jo_maxBodyBytes = 10, jo_enabled = False\<rparr>,
       Declare ''/a'' \<lparr>jv_enabled = None, jv_paramNames = None, jv_wrapErrors = None, jv_maxBodyBytes = None\<rparr>])
     = [(''/a'', \<lparr>jo_paramNames = [''cb''], jo_wrapErrors = False, jo_maxBodyBytes = 10, jo_enabled = True\<rparr>)]"
  by (simp add: jsonp_run_def new_jsonp_def SetJsonpEnabled_def SetJsonpDefaults_def merge_options_def builtin_options_def)

end
