(* ===== verification/DlUrl.thy ===== *)
theory DlUrl
  imports HttpFile
begin

text \<open>
  Addresses and requests of the download channel (\<open>net/zm_net_http_client_download.cpp\<close>): the parser of URLs, the
  resolution of \<open>Location\<close>, the checks of names and values of headers, and the text of a request.

  A failed parse (\<open>ok = false\<close>) is \<open>None\<close>; a URL that cannot be resolved is the empty text, as in the code.
\<close>

section \<open>Text\<close>

abbreviation CRLF :: string where
  "CRLF \<equiv> [CHR 0x0D, CHR 0x0A]"

text \<open>\<open>find\<close> of a text: what stands before its first occurrence and after it.\<close>

fun cut_text :: "string \<Rightarrow> string \<Rightarrow> (string \<times> string) option" where
  "cut_text pat [] = (if pat = [] then Some ([], []) else None)"
| "cut_text pat (c # s) =
    (if take (length pat) (c # s) = pat then Some ([], drop (length pat) (c # s))
     else map_option (\<lambda>(a, b). (c # a, b)) (cut_text pat s))"

definition before_last :: "char \<Rightarrow> string \<Rightarrow> string" where
  "before_last c s = rev (tl (dropWhile (\<lambda>x. x \<noteq> c) (rev s)))"

definition after_last :: "char \<Rightarrow> string \<Rightarrow> string" where
  "after_last c s = rev (takeWhile (\<lambda>x. x \<noteq> c) (rev s))"

definition starts_with :: "string \<Rightarrow> string \<Rightarrow> bool" where
  "starts_with pat s \<longleftrightarrow> take (length pat) s = pat"

fun split_char :: "char \<Rightarrow> string \<Rightarrow> string list" where
  "split_char c [] = [[]]"
| "split_char c (x # xs) =
    (if x = c then [] # split_char c xs
     else (case split_char c xs of s # ss \<Rightarrow> (x # s) # ss | [] \<Rightarrow> [[x]]))"

fun join_with :: "string \<Rightarrow> string list \<Rightarrow> string" where
  "join_with sep [] = []"
| "join_with sep [s] = s"
| "join_with sep (s # t # ss) = s @ sep @ join_with sep (t # ss)"

definition ToLowerCopy :: "string \<Rightarrow> string" where
  "ToLowerCopy s = map lower_char s"

definition blank_char :: "char \<Rightarrow> bool" where
  "blank_char c \<longleftrightarrow> c \<in> {CHR '' '', CHR 0x09, CHR 0x0D, CHR 0x0A}"

definition dl_Trim :: "string \<Rightarrow> string" where
  "dl_Trim s = rev (dropWhile blank_char (rev (dropWhile blank_char s)))"

definition BracketHost :: "string \<Rightarrow> string" where
  "BracketHost host = (if CHR '':'' \<in> set host then ''['' @ host @ '']'' else host)"

section \<open>URLs\<close>

record target =
  tg_ssl :: bool
  tg_host :: string
  tg_port :: nat
  tg_pathQuery :: string

fun port_loop :: "nat \<Rightarrow> string \<Rightarrow> nat option" where
  "port_loop acc [] = Some acc"
| "port_loop acc (c # cs) =
    (if \<not> is_digit c then None
     else let acc = acc * 10 + (char_code c - 48) in
       if 65535 < acc then None else port_loop acc cs)"

definition split_authority :: "string \<Rightarrow> (string \<times> string) option" where
  "split_authority authority =
    (if authority \<noteq> [] \<and> hd authority = CHR ''['' then
       (if CHR '']'' \<notin> set authority then None
        else let host = takeWhile (\<lambda>c. c \<noteq> CHR '']'') (tl authority);
                 rest = tl (dropWhile (\<lambda>c. c \<noteq> CHR '']'') authority) in
          if rest = [] then Some (host, [])
          else if hd rest \<noteq> CHR '':'' then None
          else Some (host, tl rest))
     else if CHR '':'' \<in> set authority then Some (before_last CHR '':'' authority, after_last CHR '':'' authority)
     else Some (authority, []))"

definition authority_target :: "bool \<Rightarrow> string \<Rightarrow> string \<Rightarrow> target option" where
  "authority_target ssl authority pathQuery =
    (case split_authority (if CHR ''@'' \<in> set authority then after_last CHR ''@'' authority else authority) of
       None \<Rightarrow> None
     | Some (host, portStr) \<Rightarrow>
         if host = [] then None
         else (case (if portStr \<noteq> [] then port_loop 0 portStr else Some (if ssl then 443 else 80)) of
             None \<Rightarrow> None
           | Some p \<Rightarrow>
               if p = 0 then None
               else Some \<lparr>tg_ssl = ssl, tg_host = ToLowerCopy host, tg_port = p, tg_pathQuery = pathQuery\<rparr>))"

definition ParseDownloadUrl :: "string \<Rightarrow> target option" where
  "ParseDownloadUrl raw =
    (case cut_text ''://'' raw of
       None \<Rightarrow> None
     | Some (sch, rest) \<Rightarrow>
         if ToLowerCopy sch \<noteq> ''http'' \<and> ToLowerCopy sch \<noteq> ''https'' then None
         else let rest = takeWhile (\<lambda>c. c \<noteq> CHR ''#'') rest in
           authority_target (ToLowerCopy sch = ''https'') (takeWhile (\<lambda>c. c \<noteq> CHR ''/'') rest)
             (if CHR ''/'' \<notin> set rest then ''/'' else dropWhile (\<lambda>c. c \<noteq> CHR ''/'') rest))"

section \<open>Redirections\<close>

definition seg_step :: "string list \<Rightarrow> string \<Rightarrow> string list" where
  "seg_step segs seg =
    (if seg = ''..'' then butlast segs
     else if seg \<noteq> [] \<and> seg \<noteq> ''.'' then segs @ [seg]
     else segs)"

definition normalize_path :: "string \<Rightarrow> string" where
  "normalize_path path = ''/'' @ join_with ''/'' (foldl seg_step [] (split_char CHR ''/'' path))"

definition base_dir :: "string \<Rightarrow> string" where
  "base_dir pathQuery =
    (let path = takeWhile (\<lambda>c. c \<noteq> CHR ''?'') pathQuery in
     if CHR ''/'' \<notin> set path \<or> before_last CHR ''/'' path = [] then ''/'' else before_last CHR ''/'' path @ ''/'')"

definition ResolveRedirectUrl :: "string \<Rightarrow> string \<Rightarrow> string" where
  "ResolveRedirectUrl baseUrl loc =
    (let l = dl_Trim loc in
     if l = [] then []
     else if starts_with ''http://'' l \<or> starts_with ''https://'' l then l
     else (case (ParseDownloadUrl baseUrl, cut_text ''://'' baseUrl) of
         (Some base, Some (sch, rest)) \<Rightarrow>
           let origin = sch @ ''://'';
               authority = takeWhile (\<lambda>c. c \<noteq> CHR ''/'') rest in
           if starts_with ''//'' l then origin @ drop 2 l
           else origin @ authority
             @ normalize_path (if hd l = CHR ''/'' then l else base_dir (tg_pathQuery base) @ l)
       | _ \<Rightarrow> []))"

section \<open>Checks\<close>

definition IsSensitiveHeaderName :: "string \<Rightarrow> bool" where
  "IsSensitiveHeaderName name \<longleftrightarrow>
    (let l = ToLowerCopy (dl_Trim name) in l = ''authorization'' \<or> l = ''cookie'' \<or> l = ''proxy-authorization'')"

definition IsSafeRequestBytes :: "string \<Rightarrow> bool" where
  "IsSafeRequestBytes s \<longleftrightarrow> list_all (\<lambda>c. \<not> (char_code c \<le> 0x20 \<or> char_code c = 0x7F)) s"

definition IsSafeHeaderValue :: "string \<Rightarrow> bool" where
  "IsSafeHeaderValue s \<longleftrightarrow> list_all (\<lambda>c. \<not> (char_code c < 0x20 \<and> char_code c \<noteq> 0x09 \<or> char_code c = 0x7F)) s"

fun b64_digit :: "char \<Rightarrow> nat option" where
  "b64_digit c =
    (let n = char_code c in
     if 65 \<le> n \<and> n \<le> 90 then Some (n - 65)
     else if 97 \<le> n \<and> n \<le> 122 then Some (n - 97 + 26)
     else if 48 \<le> n \<and> n \<le> 57 then Some (n - 48 + 52)
     else if c = CHR ''+'' then Some 62
     else if c = CHR ''/'' then Some 63
     else None)"

fun b64_loop :: "nat \<Rightarrow> nat \<Rightarrow> string \<Rightarrow> string \<Rightarrow> string" where
  "b64_loop acc bits out [] = out"
| "b64_loop acc bits out (c # cs) =
    (if c \<in> {CHR ''='', CHR 0x0D, CHR 0x0A, CHR '' '', CHR 0x09} then b64_loop acc bits out cs
     else (case b64_digit c of
         None \<Rightarrow> []
       | Some v \<Rightarrow>
           let acc = (acc * 64 + v) mod 2 ^ 24; bits = bits + 6 in
           if 8 \<le> bits then b64_loop acc (bits - 8) (out @ [char_of (acc div 2 ^ (bits - 8) mod 256)]) cs
           else b64_loop acc bits out cs))"

definition dl_Base64Decode :: "string \<Rightarrow> string" where
  "dl_Base64Decode s = b64_loop 0 0 [] s"

section \<open>Requests\<close>

record client_options =
  co_userAgent :: string
  co_commonHeaders :: "(string \<times> string) list"

text \<open>The checks of \<open>Create\<close>; \<open>None\<close> is success.\<close>

fun header_error :: "string \<Rightarrow> (string \<times> string) list \<Rightarrow> string option" where
  "header_error what [] = None"
| "header_error what ((k, v) # kvs) =
    (if \<not> IsSafeRequestBytes k then Some (what @ ''name'')
     else if \<not> IsSafeHeaderValue v then Some (what @ ''value'')
     else header_error what kvs)"

definition create_error :: "client_options \<Rightarrow> (string \<times> string) list option \<Rightarrow> target option \<Rightarrow> string option" where
  "create_error def opts tgt =
    (case tgt of
       None \<Rightarrow> Some ''url''
     | Some t \<Rightarrow>
         if \<not> IsSafeRequestBytes (tg_pathQuery t) then Some ''path''
         else (case header_error ''common header '' (co_commonHeaders def) of
             Some e \<Rightarrow> Some e
           | None \<Rightarrow> (case opts of None \<Rightarrow> None | Some hs \<Rightarrow> header_error ''request header '' hs)))"

definition kept_headers :: "bool \<Rightarrow> (string \<times> string) list \<Rightarrow> (string \<times> string) list" where
  "kept_headers strip hs = filter (\<lambda>(k, v). \<not> (strip \<and> IsSensitiveHeaderName k)) hs"

definition range_headers :: "nat \<Rightarrow> string \<Rightarrow> string \<Rightarrow> (string \<times> string) list" where
  "range_headers resumedFrom etag lm =
    (if 0 < resumedFrom then
       [(''Range'', ''bytes='' @ to_string resumedFrom @ ''-'')]
       @ (if etag \<noteq> [] then [(''If-Range'', etag)] else if lm \<noteq> [] then [(''If-Range'', lm)] else [])
     else [])"

definition request_headers ::
  "client_options \<Rightarrow> (string \<times> string) list option \<Rightarrow> target \<Rightarrow> nat \<Rightarrow> string \<Rightarrow> string \<Rightarrow> bool \<Rightarrow> (string \<times> string) list" where
  "request_headers def opts t resumedFrom etag lm strip =
    [(''Host'', BracketHost (tg_host t) @ (if tg_port t = (if tg_ssl t then 443 else 80) then [] else '':'' @ to_string (tg_port t))),
     (''User-Agent'', co_userAgent def)]
    @ range_headers resumedFrom etag lm
    @ [(''Connection'', ''close''), (''Accept-Encoding'', ''identity'')]
    @ kept_headers strip (co_commonHeaders def)
    @ (case opts of None \<Rightarrow> [] | Some hs \<Rightarrow> kept_headers strip hs)"

definition header_line :: "string \<times> string \<Rightarrow> string" where
  "header_line kv = fst kv @ '': '' @ snd kv @ CRLF"

definition request_text :: "string \<Rightarrow> (string \<times> string) list \<Rightarrow> string" where
  "request_text pathQuery hs = ''GET '' @ pathQuery @ '' HTTP/1.1'' @ CRLF @ concat (map header_line hs) @ CRLF"

section \<open>Where a relative redirection goes\<close>

lemma cut_text_Some: "cut_text pat s = Some (a, b) \<Longrightarrow> s = a @ pat @ b"
proof (induction pat s arbitrary: a b rule: cut_text.induct)
  case (2 pat c s)
  then show ?case
    by (auto split: if_splits) (metis append_take_drop_id)
qed (auto split: if_splits)

lemma cut_text_front: "cut_text pat (pat @ b) = Some ([], b)"
proof (cases "pat @ b")
  case (Cons x xs)
  then have "take (length pat) (x # xs) = pat" "drop (length pat) (x # xs) = b"
    by (metis append_eq_conv_conj)+
  then show ?thesis
    by (simp add: Cons)
qed simp

lemma cut_text_again: "cut_text pat s = Some (a, b) \<Longrightarrow> cut_text pat (a @ pat @ b') = Some (a, b')"
proof (induction pat s arbitrary: a b rule: cut_text.induct)
  case (1 pat)
  then show ?case
    using cut_text_front [of "[]" b'] by (auto split: if_splits)
next
  case (2 pat c s)
  show ?case
  proof (cases "take (length pat) (c # s) = pat")
    case True
    then show ?thesis
      using 2 cut_text_front [of pat b'] by simp
  next
    case False
    then obtain a' where a': "a = c # a'" "cut_text pat s = Some (a', b)"
      using 2 by auto
    then have "s = a' @ pat @ b"
      by (auto dest: cut_text_Some)
    then have "take (length pat) (c # a' @ pat @ b') = take (length pat) (c # s)"
      by (simp add: take_Cons')
    then show ?thesis
      using 2 False a' by simp
  qed
qed

lemma takeWhile_inside: "(\<And>x. R x \<Longrightarrow> P x) \<Longrightarrow> \<not> R y \<Longrightarrow> takeWhile R (takeWhile P xs @ y # ys) = takeWhile R xs"
  by (induction xs) auto

lemma takeWhile_takeWhile: "takeWhile P (takeWhile Q xs) = takeWhile (\<lambda>x. P x \<and> Q x) xs"
  by (induction xs) auto

definition clean_segment :: "string \<Rightarrow> bool" where
  "clean_segment s \<longleftrightarrow> s \<noteq> [] \<and> s \<noteq> ''.'' \<and> s \<noteq> ''..'' \<and> CHR ''/'' \<notin> set s"

lemma split_char_parts: "list_all (\<lambda>s. c \<notin> set s) (split_char c xs)"
proof (induction xs)
  case (Cons x xs)
  then show ?case
    by (cases "split_char c xs") auto
qed simp

lemma seg_fold_clean:
  "list_all clean_segment segs \<Longrightarrow> list_all (\<lambda>s. CHR ''/'' \<notin> set s) parts \<Longrightarrow> list_all clean_segment (foldl seg_step segs parts)"
proof (induction parts arbitrary: segs)
  case (Cons p parts)
  have "list_all clean_segment (butlast segs)"
    using Cons.prems(1) by (auto simp: list_all_iff dest: in_set_butlastD)
  moreover have "clean_segment p" if "p \<noteq> ''..''" "p \<noteq> []" "p \<noteq> ''.''"
    using Cons.prems(2) that by (simp add: clean_segment_def)
  ultimately have "list_all clean_segment (seg_step segs p)"
    using Cons.prems(1) by (simp add: seg_step_def)
  then show ?case
    using Cons by simp
qed simp

lemma authority_target_path: "authority_target ssl a pq = Some t \<Longrightarrow> authority_target ssl a pq' = Some (t\<lparr>tg_pathQuery := pq'\<rparr>)"
  by (auto simp: authority_target_def split: option.splits if_splits)

lemma parse_same_authority:
  assumes "ParseDownloadUrl url = Some t" "cut_text ''://'' url = Some (sch, rest)"
  shows "\<exists>t'. ParseDownloadUrl (sch @ ''://'' @ takeWhile (\<lambda>c. c \<noteq> CHR ''/'') rest @ ''/'' @ path) = Some t'
    \<and> tg_ssl t' = tg_ssl t \<and> tg_host t' = tg_host t \<and> tg_port t' = tg_port t"
proof -
  let ?rest = "takeWhile (\<lambda>c. c \<noteq> CHR ''/'') rest @ CHR ''/'' # path"
  let ?auth = "\<lambda>r. takeWhile (\<lambda>c. c \<noteq> CHR ''/'') (takeWhile (\<lambda>c. c \<noteq> CHR ''#'') r)"
  have cut: "cut_text ''://'' (sch @ ''://'' @ ?rest) = Some (sch, ?rest)"
    by (rule cut_text_again [OF assms(2)])
  have auth: "?auth ?rest = ?auth rest"
    unfolding takeWhile_takeWhile by (rule takeWhile_inside) auto
  have scheme: "\<not> (ToLowerCopy sch \<noteq> ''http'' \<and> ToLowerCopy sch \<noteq> ''https'')"
    using assms by (auto simp: ParseDownloadUrl_def split: if_splits)
  from assms scheme obtain pq where "authority_target (ToLowerCopy sch = ''https'') (?auth rest) pq = Some t"
    by (simp add: ParseDownloadUrl_def Let_def)
  from authority_target_path [OF this] have "authority_target (ToLowerCopy sch = ''https'') (?auth rest) pq' = Some (t\<lparr>tg_pathQuery := pq'\<rparr>)" for pq' .
  then have "ParseDownloadUrl (sch @ ''://'' @ ?rest) = Some (t\<lparr>tg_pathQuery := (let rest = takeWhile (\<lambda>c. c \<noteq> CHR ''#'') ?rest in
      if CHR ''/'' \<notin> set rest then ''/'' else dropWhile (\<lambda>c. c \<noteq> CHR ''/'') rest)\<rparr>)"
    unfolding ParseDownloadUrl_def cut using scheme by (simp only: option.case prod.case Let_def auth if_False)
  then show ?thesis
    by auto
qed

lemma until_sep: "c \<notin> set a \<Longrightarrow> takeWhile (\<lambda>x. x \<noteq> c) (a @ c # b) = a \<and> dropWhile (\<lambda>x. x \<noteq> c) (a @ c # b) = c # b"
  by (induction a) auto

lemma last_cut: "c \<notin> set b \<Longrightarrow> before_last c (a @ c # b) = a \<and> after_last c (a @ c # b) = b"
  using until_sep [of c "rev b" "rev a"] by (simp add: before_last_def after_last_def)

text \<open>Dots resolved from the right: a double dot waits for the next name on its left.\<close>

fun climb :: "nat \<Rightarrow> string list \<Rightarrow> string list" where
  "climb k [] = []"
| "climb k (s # ss) =
    (if s = ''..'' then climb (k + 1) ss
     else if s = [] \<or> s = ''.'' then climb k ss
     else if 0 < k then climb (k - 1) ss
     else s # climb 0 ss)"

definition resolved :: "string list \<Rightarrow> string list" where
  "resolved parts = rev (climb 0 (rev parts))"

lemma climb_fold: "climb k (rev parts) = drop k (rev (foldl seg_step [] parts))"
proof (induction parts arbitrary: k rule: rev_induct)
  case (snoc s parts)
  have "drop (Suc k) (rev xs) = drop k (rev (butlast xs))" for xs :: "string list"
    by (cases xs rule: rev_cases) simp_all
  then show ?case
    using snoc by (cases k) (auto simp: seg_step_def)
qed simp

lemma fold_resolved: "foldl seg_step [] parts = resolved parts"
  using climb_fold [of 0 parts] by (simp add: resolved_def)

lemma base_dir_split:
  assumes "CHR ''/'' \<in> set (takeWhile (\<lambda>c. c \<noteq> CHR ''?'') pq)"
  shows "\<exists>name. takeWhile (\<lambda>c. c \<noteq> CHR ''?'') pq = base_dir pq @ name \<and> CHR ''/'' \<notin> set name"
proof -
  obtain a b where "takeWhile (\<lambda>c. c \<noteq> CHR ''?'') pq = a @ CHR ''/'' # b" "CHR ''/'' \<notin> set b"
    using split_list_last [OF assms] by blast
  then show ?thesis
    using last_cut [of "CHR ''/''" b a] by (auto simp: base_dir_def Let_def)
qed

lemma parsed_path: "ParseDownloadUrl url = Some t \<Longrightarrow> \<exists>p. tg_pathQuery t = CHR ''/'' # p"
proof -
  have "\<exists>p. dropWhile (\<lambda>c. c \<noteq> CHR ''/'') r = CHR ''/'' # p" if "CHR ''/'' \<in> set r" for r
    using that by (induction r) auto
  then show "ParseDownloadUrl url = Some t \<Longrightarrow> \<exists>p. tg_pathQuery t = CHR ''/'' # p"
    by (auto simp: ParseDownloadUrl_def authority_target_def Let_def split: option.splits if_splits)
qed

text \<open>C24: a relative redirection stays where it is: whatever \<open>Location\<close> says, if it is neither absolute nor relative to the
  scheme only, the result is the scheme and the authority text of the base, followed by the path meant with its dots resolved:
  that of \<open>Location\<close> if it starts with a slash, otherwise that of the directory of the base path, without the query, and
  \<open>Location\<close>.  No empty segment, no dot and no double dot is left in it, and it is read as a URL of the same scheme, host and
  port.\<close>
theorem relative_redirect_stays:
  assumes "ParseDownloadUrl baseUrl = Some t" "dl_Trim loc \<noteq> []"
    and "\<not> starts_with ''http://'' (dl_Trim loc)" "\<not> starts_with ''https://'' (dl_Trim loc)" "\<not> starts_with ''//'' (dl_Trim loc)"
  shows "\<exists>sch rest dir fname path t'. cut_text ''://'' baseUrl = Some (sch, rest)
    \<and> ResolveRedirectUrl baseUrl loc
        = sch @ ''://'' @ takeWhile (\<lambda>c. c \<noteq> CHR ''/'') rest @ ''/'' @ join_with ''/'' (resolved (split_char CHR ''/'' path))
    \<and> takeWhile (\<lambda>c. c \<noteq> CHR ''?'') (tg_pathQuery t) = dir @ ''/'' @ fname \<and> CHR ''/'' \<notin> set fname
    \<and> path = (if hd (dl_Trim loc) = CHR ''/'' then dl_Trim loc else dir @ ''/'' @ dl_Trim loc)
    \<and> list_all clean_segment (resolved (split_char CHR ''/'' path))
    \<and> ParseDownloadUrl (ResolveRedirectUrl baseUrl loc) = Some t'
    \<and> tg_ssl t' = tg_ssl t \<and> tg_host t' = tg_host t \<and> tg_port t' = tg_port t"
proof -
  obtain sch rest where cut: "cut_text ''://'' baseUrl = Some (sch, rest)"
    using assms(1) by (auto simp: ParseDownloadUrl_def split: option.splits)
  obtain p where "tg_pathQuery t = CHR ''/'' # p"
    using parsed_path [OF assms(1)] by blast
  then obtain fname where fname: "takeWhile (\<lambda>c. c \<noteq> CHR ''?'') (tg_pathQuery t) = base_dir (tg_pathQuery t) @ fname" "CHR ''/'' \<notin> set fname"
    using base_dir_split [of "tg_pathQuery t"] by auto
  have "\<exists>dir. base_dir (tg_pathQuery t) = dir @ ''/''"
    by (auto simp: base_dir_def Let_def)
  then obtain dir where dir: "base_dir (tg_pathQuery t) = dir @ ''/''" ..
  define path where "path = (if hd (dl_Trim loc) = CHR ''/'' then dl_Trim loc else dir @ ''/'' @ dl_Trim loc)"
  have url: "ResolveRedirectUrl baseUrl loc
      = sch @ ''://'' @ takeWhile (\<lambda>c. c \<noteq> CHR ''/'') rest @ ''/'' @ join_with ''/'' (resolved (split_char CHR ''/'' path))"
    using assms cut by (simp add: ResolveRedirectUrl_def normalize_path_def Let_def fold_resolved path_def dir)
  have "list_all clean_segment (resolved (split_char CHR ''/'' path))"
    unfolding fold_resolved [symmetric] by (intro seg_fold_clean split_char_parts) simp
  moreover obtain t' where "ParseDownloadUrl (ResolveRedirectUrl baseUrl loc) = Some t'" "tg_ssl t' = tg_ssl t" "tg_host t' = tg_host t"
    "tg_port t' = tg_port t"
    using parse_same_authority [OF assms(1) cut, of "join_with ''/'' (resolved (split_char CHR ''/'' path))"] unfolding url by blast
  moreover have "takeWhile (\<lambda>c. c \<noteq> CHR ''?'') (tg_pathQuery t) = dir @ ''/'' @ fname"
    using fname(1) dir by simp
  ultimately show ?thesis
    using cut url fname(2) path_def by blast
qed

theorem relative_redirect_stays_witness:
  "\<exists>t'. ParseDownloadUrl (ResolveRedirectUrl ''http://h:81/a/b'' ''../x/./y'') = Some t' \<and> tg_ssl t' = False \<and> tg_host t' = ''h'' \<and> tg_port t' = 81"
proof -
  have "ParseDownloadUrl ''http://h:81/a/b'' = Some \<lparr>tg_ssl = False, tg_host = ''h'', tg_port = 81, tg_pathQuery = ''/a/b''\<rparr>"
    by code_simp
  moreover have "dl_Trim ''../x/./y'' \<noteq> []" "\<not> starts_with ''http://'' (dl_Trim ''../x/./y'')" "\<not> starts_with ''https://'' (dl_Trim ''../x/./y'')"
    "\<not> starts_with ''//'' (dl_Trim ''../x/./y'')"
    by code_simp+
  ultimately show ?thesis
    using relative_redirect_stays [of "''http://h:81/a/b''" _ "''../x/./y''"] by fastforce
qed

lemma resolved_runs:
  "resolved [[], ''a'', ''..'', ''b'', ''.'', []] = [''b'']"
  "ResolveRedirectUrl ''http://h:81/a/b'' ''../x/./y'' = ''http://h:81/x/y''"
  by code_simp+

text \<open>Three redirections that end elsewhere: the slash at the end of a directory is lost, slashes inside a query are joined, and
  a scheme in capitals is taken for a path.\<close>

lemmas url_eval = ResolveRedirectUrl_def ParseDownloadUrl_def authority_target_def ToLowerCopy_def lower_char_def char_code_def split_authority_def
  before_last_def after_last_def is_digit_def Let_def dl_Trim_def blank_char_def starts_with_def normalize_path_def base_dir_def
  seg_step_def

theorem redirect_flaws:
  "ResolveRedirectUrl ''http://h/a'' ''/dir/'' = ''http://h/dir''
   \<and> ResolveRedirectUrl ''http://h/a'' ''/login?to=http://h/b'' = ''http://h/login?to=http:/h/b''
   \<and> ResolveRedirectUrl ''http://h/a'' ''HTTP://g/b'' = ''http://h/HTTP:/g/b''"
  by (simp add: url_eval)

text \<open>The first of them never ends at a server that answers a directory without its slash by a redirection to it.\<close>

theorem redirect_directory_loop:
  "ParseDownloadUrl (ResolveRedirectUrl ''http://h/dir'' ''/dir/'') = ParseDownloadUrl ''http://h/dir''"
  by (simp add: url_eval)

text \<open>Without a slash after the host the query is taken for a part of its name.\<close>

theorem query_without_path:
  "map_option tg_host (ParseDownloadUrl ''http://h?x=1'') = Some ''h?x=1''"
  by (simp add: url_eval)

section \<open>What is sent\<close>

lemma split_char_plain: "c \<notin> set a \<Longrightarrow> split_char c (a @ c # b) = a # split_char c b"
  by (induction a) auto

lemma split_char_none: "c \<notin> set a \<Longrightarrow> split_char c a = [a]"
  by (induction a) auto

text \<open>Names and values are clean if they hold no line feed and no carriage return.\<close>

definition no_break :: "string \<Rightarrow> bool" where
  "no_break s \<longleftrightarrow> CHR 0x0A \<notin> set s \<and> CHR 0x0D \<notin> set s"

lemma safe_no_break: "IsSafeRequestBytes s \<Longrightarrow> no_break s" "IsSafeHeaderValue s \<Longrightarrow> no_break s"
  by (auto simp: IsSafeRequestBytes_def IsSafeHeaderValue_def no_break_def list_all_iff char_code_def)

definition text_lines :: "string \<Rightarrow> string list" where
  "text_lines s = split_char CHR 0x0A s"

lemma text_lines_line: "no_break a \<Longrightarrow> text_lines (a @ CRLF @ b) = (a @ [CHR 0x0D]) # text_lines b"
  using split_char_plain [of "CHR 0x0A" "a @ [CHR 0x0D]" b] by (simp add: text_lines_def no_break_def)

lemma header_lines_text:
  "list_all (\<lambda>(k, v). no_break k \<and> no_break v) hs \<Longrightarrow>
    text_lines (concat (map header_line hs) @ b) = map (\<lambda>(k, v). k @ '': '' @ v @ [CHR 0x0D]) hs @ text_lines b"
proof (induction hs)
  case (Cons h hs)
  obtain k v where h: "h = (k, v)"
    by (cases h)
  have "no_break (k @ '': '' @ v)"
    using Cons.prems by (simp add: h no_break_def)
  from text_lines_line [OF this] show ?case
    using Cons by (simp add: h header_line_def)
qed simp

lemma header_error_None:
  "header_error what hs = None \<Longrightarrow> list_all (\<lambda>(k, v). IsSafeRequestBytes k \<and> IsSafeHeaderValue v) hs"
  by (induction what hs rule: header_error.induct) (auto split: if_splits)

lemma kept_subset: "set (kept_headers strip hs) \<subseteq> set hs"
  by (auto simp: kept_headers_def)

lemma to_string_no_break: "no_break (to_string n)"
  using to_string_digits [of n] by (auto simp: no_break_def list_all_iff is_digit_def char_code_def)

lemma request_headers_clean:
  assumes "create_error def opts (Some t) = None"
    and "no_break (tg_host t)" "no_break (co_userAgent def)" "no_break etag" "no_break lm"
  shows "list_all (\<lambda>(k, v). no_break k \<and> no_break v) (request_headers def opts t n etag lm strip)"
proof -
  have ok: "list_all (\<lambda>(k, v). no_break k \<and> no_break v) (kept_headers strip hs)" if "header_error what hs = None" for what hs
    using header_error_None [OF that] kept_subset [of strip hs] safe_no_break by (fastforce simp: list_all_iff)
  have common: "list_all (\<lambda>(k, v). no_break k \<and> no_break v) (kept_headers strip (co_commonHeaders def))"
    using assms(1) by (intro ok [of "''common header ''"]) (auto simp: create_error_def split: if_splits option.splits)
  have own: "list_all (\<lambda>(k, v). no_break k \<and> no_break v) (kept_headers strip hs)" if "opts = Some hs" for hs
    using assms(1) that by (intro ok [of "''request header ''"]) (auto simp: create_error_def split: if_splits option.splits)
  show ?thesis
    using common own assms(2-) to_string_no_break
    by (auto simp: request_headers_def range_headers_def BracketHost_def no_break_def split: option.split)
qed



text \<open>The host of a URL is not checked either: \<open>Create\<close> accepts one with a line feed, and a header line of the caller's choice is
  sent; a stored validator or a user agent with a line break does the same.\<close>

theorem host_injects:
  "\<exists>t. ParseDownloadUrl (''http://h'' @ [CHR 0x0A] @ ''X-Y:81/f'') = Some t
    \<and> create_error \<lparr>co_userAgent = ''z'', co_commonHeaders = []\<rparr> None (Some t) = None
    \<and> ''x-y'' \<in> set (map (takeWhile (\<lambda>c. c \<noteq> CHR '':'')) (text_lines (request_text (tg_pathQuery t)
        (request_headers \<lparr>co_userAgent = ''z'', co_commonHeaders = []\<rparr> None t 0 [] [] False))))"
  by (intro exI [of _ "\<lparr>tg_ssl = False, tg_host = ''h'' @ [CHR 0x0A] @ ''x-y'', tg_port = 81, tg_pathQuery = ''/f''\<rparr>"]) code_simp

text \<open>The target of a redirection is not checked: a line feed inside \<open>Location\<close>, which a response may hold since its lines end
  with both characters, reaches the request line.\<close>

theorem redirect_injects:
  "\<exists>t. ParseDownloadUrl (ResolveRedirectUrl ''http://h/a'' (''/b HTTP/1.1'' @ [CHR 0x0A] @ ''X: y'')) = Some t
    \<and> length (text_lines (request_text (tg_pathQuery t) [])) = 4"
  by (simp add: url_eval request_text_def text_lines_def)

section \<open>URLs written out\<close>

definition render_url :: "bool \<Rightarrow> string \<Rightarrow> nat \<Rightarrow> string \<Rightarrow> string" where
  "render_url ssl host port path = (if ssl then ''https'' else ''http'') @ ''://'' @ BracketHost host @ '':'' @ to_string port @ path"

definition host_char :: "char \<Rightarrow> bool" where
  "host_char c \<longleftrightarrow> c \<notin> {CHR ''/'', CHR ''#'', CHR ''@'', CHR ''['', CHR '']''} \<and> lower_char c = c"

lemma port_loop_value:
  "list_all is_digit ds \<Longrightarrow> foldl (\<lambda>a c. 10 * a + (char_code c - 48)) acc ds \<le> 65535 \<Longrightarrow>
    port_loop acc ds = Some (foldl (\<lambda>a c. 10 * a + (char_code c - 48)) acc ds)"
proof (induction ds arbitrary: acc)
  case (Cons d ds)
  have mono: "n \<le> foldl (\<lambda>a c. 10 * a + (char_code c - 48)) n cs" for n :: nat and cs
  proof (induction cs arbitrary: n)
    case (Cons c cs)
    have "n \<le> 10 * n + (char_code c - 48)"
      by simp
    also have "\<dots> \<le> foldl (\<lambda>a c. 10 * a + (char_code c - 48)) (10 * n + (char_code c - 48)) cs"
      by (rule Cons)
    finally show ?case
      by simp
  qed simp
  have "10 * acc + (char_code d - 48) \<le> 65535"
    using mono [of "10 * acc + (char_code d - 48)" ds] Cons.prems(2) by simp
  then show ?case
    using Cons by (simp add: mult.commute)
qed simp

lemma port_loop_to_string: "n \<le> 65535 \<Longrightarrow> port_loop 0 (to_string n) = Some n"
  using port_loop_value [of "to_string n" 0] dec_value_to_string [of n] to_string_digits [of n] by (simp add: dec_value_def)

lemma host_char_plain: "list_all host_char host \<Longrightarrow> ToLowerCopy host = host"
  by (simp add: ToLowerCopy_def list_all_iff host_char_def map_idI)

lemma digit_not_mem: "\<not> is_digit c \<Longrightarrow> c \<notin> set (to_string n)"
  using to_string_digits [of n] by (auto simp: list_all_iff)

lemma authority_of_host:
  assumes "list_all host_char host" "host \<noteq> []" "0 < port" "port \<le> 65535"
  shows "authority_target ssl (BracketHost host @ '':'' @ to_string port) pq
    = Some \<lparr>tg_ssl = ssl, tg_host = host, tg_port = port, tg_pathQuery = pq\<rparr>"
proof -
  let ?a = "BracketHost host @ '':'' @ to_string port"
  have sep: "CHR ''@'' \<notin> set host" "CHR '']'' \<notin> set host" "CHR ''['' \<notin> set host"
    using assms(1) by (auto simp: list_all_iff host_char_def)
  have dig: "CHR ''@'' \<notin> set (to_string port)" "CHR '':'' \<notin> set (to_string port)" "CHR '']'' \<notin> set (to_string port)"
    by (rule digit_not_mem, simp add: is_digit_def char_code_def)+
  have split: "split_authority ?a = Some (host, to_string port)"
  proof (cases "CHR '':'' \<in> set host")
    case True
    have "takeWhile (\<lambda>c. c \<noteq> CHR '']'') (host @ CHR '']'' # CHR '':'' # to_string port) = host"
      "dropWhile (\<lambda>c. c \<noteq> CHR '']'') (host @ CHR '']'' # CHR '':'' # to_string port) = CHR '']'' # CHR '':'' # to_string port"
      using until_sep [OF sep(2)] by simp_all
    then show ?thesis
      using True by (simp add: split_authority_def BracketHost_def)
  next
    case False
    have "hd host \<noteq> CHR ''[''"
      using sep(3) assms(2) hd_in_set by metis
    then show ?thesis
      using False assms(2) last_cut [OF dig(2), of host] by (simp add: split_authority_def BracketHost_def)
  qed
  have "CHR ''@'' \<notin> set ?a"
    using sep(1) dig(1) by (simp add: BracketHost_def)
  then show ?thesis
    using split assms port_loop_to_string [OF assms(4)] to_string_nonempty [of port]
    by (simp add: authority_target_def host_char_plain)
qed

lemma parse_parts:
  assumes "cut_text ''://'' raw = Some (sch, a @ CHR ''/'' # p)" "ToLowerCopy sch = ''http'' \<or> ToLowerCopy sch = ''https''"
    and "CHR ''#'' \<notin> set a" "CHR ''/'' \<notin> set a" "CHR ''#'' \<notin> set p"
  shows "ParseDownloadUrl raw = authority_target (ToLowerCopy sch = ''https'') a (CHR ''/'' # p)"
proof -
  have all: "takeWhile (\<lambda>c. c \<noteq> CHR ''#'') (a @ CHR ''/'' # p) = a @ CHR ''/'' # p"
    using assms(3,5) by (auto intro!: takeWhile_eq_all_conv [THEN iffD2])
  have "(ToLowerCopy sch \<noteq> ''http'' \<and> ToLowerCopy sch \<noteq> ''https'') = False" "(CHR ''/'' \<notin> set (a @ CHR ''/'' # p)) = False"
    using assms(2) by auto
  then show ?thesis
    unfolding ParseDownloadUrl_def assms(1)
    by (simp only: option.case prod.case Let_def all if_False until_sep [OF assms(4), of p, THEN conjunct1]
        until_sep [OF assms(4), of p, THEN conjunct2])
qed

text \<open>Parsing undoes writing: a URL made of a scheme, a host (a name or an IPv6 address, which gets brackets), a port and
  a path is read back as exactly these parts.\<close>
theorem ParseDownloadUrl_render:
  assumes "list_all host_char host" "host \<noteq> []" "0 < port" "port \<le> 65535" "hd path = CHR ''/''" "path \<noteq> []" "CHR ''#'' \<notin> set path"
  shows "ParseDownloadUrl (render_url ssl host port path) = Some \<lparr>tg_ssl = ssl, tg_host = host, tg_port = port, tg_pathQuery = path\<rparr>"
proof -
  let ?a = "BracketHost host @ '':'' @ to_string port"
  obtain p where path: "path = CHR ''/'' # p"
    using assms(5,6) by (cases path) auto
  have no: "CHR ''#'' \<notin> set ?a" "CHR ''/'' \<notin> set ?a"
    using assms(1) digit_not_mem [of "CHR ''#''" port] digit_not_mem [of "CHR ''/''" port]
    by (auto simp: BracketHost_def list_all_iff host_char_def is_digit_def char_code_def)
  let ?sch = "if ssl then ''https'' else ''http''"
  have sch: "ToLowerCopy ''http'' = ''http''" "ToLowerCopy ''https'' = ''https''"
    by (simp_all add: ToLowerCopy_def lower_char_def char_code_def)
  have "cut_text ''://'' (render_url ssl host port path) = Some (?sch, ?a @ CHR ''/'' # p)"
    by (simp add: render_url_def path)
  then have "ParseDownloadUrl (render_url ssl host port path) = authority_target (ToLowerCopy ?sch = ''https'') ?a (CHR ''/'' # p)"
    using no sch assms(7) by (intro parse_parts) (simp_all add: path)
  then show ?thesis
    using authority_of_host [OF assms(1-4), of ssl path] sch by (cases ssl) (simp_all add: path)
qed

theorem ParseDownloadUrl_render_witness:
  "ParseDownloadUrl (render_url True ''::1'' 8443 ''/a?b'') = Some \<lparr>tg_ssl = True, tg_host = ''::1'', tg_port = 8443, tg_pathQuery = ''/a?b''\<rparr>"
  using ParseDownloadUrl_render [of "''::1''" 8443 "''/a?b''" True] by (simp add: host_char_def lower_char_def char_code_def)

end
