(* ===== verification/DlSession.thy ===== *)
theory DlSession
  imports DlUrl ZmJson
begin

text \<open>
  One download (\<open>ZmDownloadSession\<close> in \<open>net/zm_net_http_client_download.cpp\<close>): the event loop parses the response and
  puts actions into a queue; one writer thread takes them out and is the only one to touch the file.

  Every callback of the loop and every turn of the writer is one step.  The order of steps is free.  A callback carries the
  epoch in which it was registered.  The result of an operation on the file is an input of the step; the hash and the JSON
  library are parameters.  Sizes are natural numbers, with the saturation of \<open>strtoull\<close> and the wrap-around of the quota
  written out.  The reasons of a failure are constructors instead of texts.
\<close>

section \<open>Parameters\<close>

record dl_config =
  dc_client :: client_options
  dc_headers :: "(string \<times> string) list option"  \<comment> \<open>\<open>opts->headers\<close>, \<open>None\<close> without options\<close>
  dc_followRedirect :: bool
  dc_maxRedirects :: nat
  dc_downloadChunkBytes :: nat
  dc_downloadQueueMaxBytes :: nat
  dc_downloadStallAbortMs :: nat
  dc_maxBytes :: nat
  dc_deadlineMs :: int
  dc_json :: json_api
  dc_md5 :: "string \<Rightarrow> string"

definition chunk_bytes :: "dl_config \<Rightarrow> nat" where
  "chunk_bytes C = (if 0 < dc_downloadChunkBytes C then dc_downloadChunkBytes C else 1024 * 1024)"

definition q_cap :: "dl_config \<Rightarrow> nat" where
  "q_cap C = (if 0 < dc_downloadQueueMaxBytes C then dc_downloadQueueMaxBytes C else 64 * 1024 * 1024)"

definition stall_ms :: "dl_config \<Rightarrow> int" where
  "stall_ms C = (if 0 < dc_downloadStallAbortMs C then int (dc_downloadStallAbortMs C) else 120000)"

definition max_redirects :: "dl_config \<Rightarrow> nat" where
  "max_redirects C = (if 0 < dc_maxRedirects C then dc_maxRedirects C else 5)"

text \<open>\<open>UINT64_MAX\<close>.\<close>

definition unset_size :: nat where
  "unset_size = 2 ^ 64 - 1"

lemma unset_size_code [code]: "unset_size = 18446744073709551615"
  by (simp add: unset_size_def)

section \<open>State\<close>

datatype dl_why =
    NoHeader | ChunkCut | BodyShort | ConnectFailed | TlsFailed | Cancelled | TotalTimeout | Stalled | HeaderTooLong
  | BadStatusLine | BadContentLength | Encoded | DupContentLength | LengthAndChunked | OverQuota | Range206 | RestartTwice
  | Redirect304 | NotFollowed | BadLocation | TooManyRedirects | Not2xx | ChunkLine | ChunkEmpty | ChunkNoHex | ChunkTooBig
  | ChunkNoCRLF | BodyTooLong | Backlog

datatype dl_error =
    WriteFailed | TruncateFailed | ChannelClosed | RenameFailed | Aborted "dl_why option"
  | Md5Unavailable | Md5Invalid | Md5Mismatch

datatype dl_action = WriteData string | TruncateFile | WriteMeta string | FinishFile nat | AbortFile

record dl_result =
  dr_ok :: bool
  dr_status :: nat
  dr_written :: nat
  dr_resumedFrom :: nat
  dr_error :: "dl_error option"

record dl =
  dl_url :: string
  dl_tgt :: target
  dl_epoch :: nat
  dl_input :: string                  \<comment> \<open>the receive buffer of the connection\<close>
  dl_now :: int
  dl_lastActivity :: int
  dl_quotaBase :: nat
  dl_resumedFrom :: nat
  dl_cursor :: nat
  dl_metaEtag :: string
  dl_metaLm :: string
  dl_respEtag :: string
  dl_respLm :: string
  dl_restartUsed :: bool
  dl_redirectsUsed :: nat
  dl_strip :: bool
  dl_headerDone :: bool
  dl_status :: nat
  dl_chunked :: bool
  dl_hasContentLength :: bool
  dl_contentLength :: nat
  dl_hasContentRange :: bool
  dl_contentRangeFirst :: nat
  dl_location :: string
  dl_respMd5 :: string
  dl_recvBody :: nat
  dl_chunkPending :: nat
  dl_chunkTerminated :: bool
  dl_pendingBuf :: string
  dl_finished :: bool
  dl_failStatus :: nat
  dl_failWhy :: "dl_why option"
  dl_queue :: "dl_action list"
  dl_qBytes :: nat
  dl_writerStop :: bool
  dl_thrown :: bool                   \<comment> \<open>an exception has left the loop\<close>
  dl_guardStarted :: bool
  dl_lastWrite :: int
  dl_part :: string                   \<comment> \<open>the file \<open>.part\<close>\<close>
  dl_meta :: "string option"          \<comment> \<open>the file \<open>.part.meta\<close>\<close>
  dl_dest :: "string option"          \<comment> \<open>the target, once renamed\<close>
  dl_hash :: "string option"
  dl_md5Broken :: bool
  dl_done :: "dl_result option"
  dl_raw :: string                    \<comment> \<open>history: the bytes after the header of the current response\<close>
  dl_sent :: "(target \<times> (string \<times> string) list) list"  \<comment> \<open>history: the requests\<close>

section \<open>The queue\<close>

fun action_size :: "dl_action \<Rightarrow> nat" where
  "action_size (WriteData d) = length d"
| "action_size (WriteMeta d) = length d"
| "action_size _ = 0"

fun is_terminal :: "dl_action \<Rightarrow> bool" where
  "is_terminal (FinishFile n) = True"
| "is_terminal AbortFile = True"
| "is_terminal _ = False"

definition EnqueueAction :: "dl_config \<Rightarrow> dl_action \<Rightarrow> bool \<Rightarrow> dl \<Rightarrow> bool \<times> dl" where
  "EnqueueAction C a force s =
    (if dl_writerStop s then (False, s)
     else if dl_finished s \<and> \<not> is_terminal a then (False, s)
     else if \<not> force \<and> \<not> is_terminal a \<and> q_cap C < dl_qBytes s + action_size a then (False, s)
     else (True, s\<lparr>dl_qBytes := dl_qBytes s + action_size a, dl_queue := dl_queue s @ [a], dl_lastActivity := dl_now s\<rparr>))"

definition dl_Fail :: "dl_config \<Rightarrow> nat \<Rightarrow> dl_why \<Rightarrow> dl \<Rightarrow> dl" where
  "dl_Fail C status why s =
    (if dl_finished s then s
     else snd (EnqueueAction C AbortFile True (s\<lparr>dl_finished := True, dl_failStatus := status, dl_failWhy := Some why\<rparr>)))"

definition EnqueueWrite :: "dl_config \<Rightarrow> string \<Rightarrow> dl \<Rightarrow> bool \<times> dl" where
  "EnqueueWrite C d s =
    (case EnqueueAction C (WriteData d) False s of
       (True, s) \<Rightarrow> (True, s\<lparr>dl_cursor := dl_cursor s + length d\<rparr>)
     | (False, s) \<Rightarrow> (False, if dl_finished s then s else dl_Fail C 0 Backlog s))"

definition EnqueueTruncate :: "dl_config \<Rightarrow> dl \<Rightarrow> dl" where
  "EnqueueTruncate C s = snd (EnqueueAction C TruncateFile True s)"

text \<open>\<open>dump\<close> throws for a value of the two headers that is not UTF-8, and nothing on the way to the loop catches it.\<close>

definition EnqueueWriteMeta :: "dl_config \<Rightarrow> dl \<Rightarrow> dl" where
  "EnqueueWriteMeta C s =
    (case json_dump (dc_json C) (JObj [(''etag'', JStr (dl_respEtag s)), (''lastModified'', JStr (dl_respLm s))]) of
       None \<Rightarrow> s\<lparr>dl_thrown := True\<rparr>
     | Some t \<Rightarrow> snd (EnqueueAction C (WriteMeta t) True s))"

definition dl_Complete :: "dl_config \<Rightarrow> dl \<Rightarrow> dl" where
  "dl_Complete C s =
    (if dl_finished s then s
     else let s = (if dl_pendingBuf s \<noteq> [] then
           snd (EnqueueAction C (WriteData (dl_pendingBuf s)) True
             (s\<lparr>dl_cursor := dl_cursor s + length (dl_pendingBuf s), dl_pendingBuf := []\<rparr>)) else s) in
       snd (EnqueueAction C (FinishFile (dl_cursor s)) True (s\<lparr>dl_finished := True\<rparr>)))"

section \<open>The response header\<close>

definition ParseStatusLine :: "string \<Rightarrow> nat option" where
  "ParseStatusLine l =
    (let sp = length (takeWhile (\<lambda>c. c \<noteq> CHR '' '') l) in
     if \<not> starts_with ''HTTP/'' l then None
     else if CHR '' '' \<notin> set l \<or> sp < 8 \<or> l ! 6 \<noteq> CHR ''.'' then None
     else if \<not> is_digit (l ! 5) \<or> \<not> is_digit (l ! 7) then None
     else if length l < sp + 4 then None
     else if \<not> list_all is_digit (take 3 (drop (sp + 1) l)) then None
     else Some (dec_value (take 3 (drop (sp + 1) l))))"

definition AllDigits :: "string \<Rightarrow> bool" where
  "AllDigits s \<longleftrightarrow> s \<noteq> [] \<and> list_all is_digit s"

text \<open>\<open>strtoull\<close> on a text of digits.\<close>

definition strtoull10 :: "string \<Rightarrow> nat" where
  "strtoull10 s = min (dec_value s) unset_size"

definition ParseContentRangeFirst :: "string \<Rightarrow> nat option" where
  "ParseContentRangeFirst val =
    (if \<not> starts_with ''bytes '' val then None
     else if CHR ''-'' \<notin> set (drop 6 val) then None
     else let num = dl_Trim (takeWhile (\<lambda>c. c \<noteq> CHR ''-'') (drop 6 val)) in
       if AllDigits num then Some (strtoull10 num) else None)"

function head_lines :: "string \<Rightarrow> string list" where
  "head_lines s =
    (if s = [] \<or> starts_with CRLF s then []
     else (case cut_text CRLF s of None \<Rightarrow> [] | Some (line, rest) \<Rightarrow> line # head_lines rest))"
  by pat_completeness auto
termination
  by (relation "measure length") (auto dest!: cut_text_Some)

declare head_lines.simps [simp del]

text \<open>One header; \<open>Inl\<close> is a session that has failed.  The number counts \<open>Content-Length\<close>.\<close>

definition apply_header :: "dl_config \<Rightarrow> string \<Rightarrow> string \<Rightarrow> nat \<times> dl \<Rightarrow> dl + (nat \<times> dl)" where
  "apply_header C key val ns =
    (case ns of (n, s) \<Rightarrow>
     if key = ''content-length'' then
       (if \<not> AllDigits val then Inl (dl_Fail C 0 BadContentLength s)
        else Inr (n + 1, s\<lparr>dl_contentLength := strtoull10 val, dl_hasContentLength := True\<rparr>))
     else if key = ''transfer-encoding'' then
       Inr (n, s\<lparr>dl_chunked := (cut_text ''chunked'' (ToLowerCopy val) \<noteq> None)\<rparr>)
     else if key = ''content-md5'' then Inr (n, s\<lparr>dl_respMd5 := val\<rparr>)
     else if key = ''content-encoding'' then
       (if ToLowerCopy val \<noteq> [] \<and> ToLowerCopy val \<noteq> ''identity'' then Inl (dl_Fail C (dl_status s) Encoded s) else Inr (n, s))
     else if key = ''content-range'' then
       Inr (n, s\<lparr>dl_hasContentRange := (ParseContentRangeFirst val \<noteq> None),
                 dl_contentRangeFirst := (case ParseContentRangeFirst val of Some f \<Rightarrow> f | None \<Rightarrow> 0)\<rparr>)
     else if key = ''etag'' then Inr (n, s\<lparr>dl_respEtag := val\<rparr>)
     else if key = ''last-modified'' then Inr (n, s\<lparr>dl_respLm := val\<rparr>)
     else if key = ''location'' then Inr (n, s\<lparr>dl_location := val\<rparr>)
     else Inr (n, s))"

fun apply_lines :: "dl_config \<Rightarrow> string list \<Rightarrow> nat \<times> dl \<Rightarrow> dl + (nat \<times> dl)" where
  "apply_lines C [] ns = Inr ns"
| "apply_lines C (l # ls) ns =
    (if CHR '':'' \<in> set l then
       (case apply_header C (ToLowerCopy (dl_Trim (takeWhile (\<lambda>c. c \<noteq> CHR '':'') l)))
            (dl_Trim (tl (dropWhile (\<lambda>c. c \<noteq> CHR '':'') l))) ns of
          Inl s \<Rightarrow> Inl s
        | Inr ns \<Rightarrow> apply_lines C ls ns)
     else apply_lines C ls ns)"

section \<open>Connections\<close>

definition BeginConnect :: "dl \<Rightarrow> dl" where
  "BeginConnect s = (if dl_finished s then s else s\<lparr>dl_epoch := dl_epoch s + 1, dl_input := []\<rparr>)"

definition ResetResponseState :: "dl \<Rightarrow> dl" where
  "ResetResponseState s = s\<lparr>dl_headerDone := False, dl_chunked := False, dl_hasContentLength := False, dl_contentLength := 0,
     dl_hasContentRange := False, dl_recvBody := 0, dl_chunkPending := unset_size, dl_chunkTerminated := False,
     dl_pendingBuf := [], dl_respEtag := [], dl_respLm := [], dl_location := [], dl_respMd5 := [], dl_raw := []\<rparr>"

definition RestartOnce :: "dl_config \<Rightarrow> dl \<Rightarrow> dl" where
  "RestartOnce C s =
    (if dl_restartUsed s then dl_Fail C (dl_status s) RestartTwice s
     else let s = ResetResponseState (s\<lparr>dl_restartUsed := True\<rparr>);
              s = EnqueueTruncate C (s\<lparr>dl_metaEtag := [], dl_metaLm := []\<rparr>) in
       BeginConnect (s\<lparr>dl_resumedFrom := 0, dl_cursor := 0\<rparr>))"

definition other_target :: "target \<Rightarrow> target \<Rightarrow> bool" where
  "other_target a b \<longleftrightarrow> tg_ssl a \<noteq> tg_ssl b \<or> tg_host a \<noteq> tg_host b \<or> tg_port a \<noteq> tg_port b"

definition FollowRedirect :: "dl_config \<Rightarrow> dl \<Rightarrow> dl" where
  "FollowRedirect C s =
    (if dl_status s = 304 then dl_Fail C (dl_status s) Redirect304 s
     else if dc_headers C \<noteq> None \<and> \<not> dc_followRedirect C then dl_Fail C (dl_status s) NotFollowed s
     else let nextUrl = ResolveRedirectUrl (dl_url s) (dl_location s) in
       (case (if nextUrl = [] then None else ParseDownloadUrl nextUrl) of
          None \<Rightarrow> dl_Fail C (dl_status s) BadLocation s
        | Some next_tgt \<Rightarrow>
            if max_redirects C \<le> dl_redirectsUsed s then dl_Fail C (dl_status s) TooManyRedirects s
            else BeginConnect (ResetResponseState (s\<lparr>dl_redirectsUsed := dl_redirectsUsed s + 1,
                   dl_strip := dl_strip s \<or> other_target next_tgt (dl_tgt s), dl_tgt := next_tgt, dl_url := nextUrl\<rparr>))))"

text \<open>What \<open>ProcessHeaderData\<close> does with a complete header: the checks, the quota and the table of status codes.\<close>

definition over_quota :: "dl_config \<Rightarrow> nat \<Rightarrow> nat \<Rightarrow> bool" where
  "over_quota C base n \<longleftrightarrow> 0 < dc_maxBytes C \<and> dc_maxBytes C < (base + n) mod 2 ^ 64"

lemma over_quota_code [code]:
  "over_quota C base n = (if dc_maxBytes C = 0 then False else dc_maxBytes C < (base + n) mod 18446744073709551616)"
  by (simp add: over_quota_def)

definition branch_status :: "dl_config \<Rightarrow> dl \<Rightarrow> dl" where
  "branch_status C s =
    (if dl_status s = 200 then
       EnqueueWriteMeta C (if 0 < dl_resumedFrom s then (EnqueueTruncate C s)\<lparr>dl_cursor := 0\<rparr> else s)
     else if dl_status s = 206 then
       (if \<not> dl_hasContentRange s \<or> \<not> dl_hasContentLength s then dl_Fail C (dl_status s) Range206 s
        else if dl_contentRangeFirst s = dl_resumedFrom s
        then (let s = EnqueueWriteMeta C s in if dl_thrown s then s else s\<lparr>dl_cursor := dl_resumedFrom s\<rparr>)
        else RestartOnce C s)
     else if dl_status s = 412 \<or> dl_status s = 416 then RestartOnce C s
     else if 300 \<le> dl_status s \<and> dl_status s < 400 then FollowRedirect C s
     else if dl_status s < 200 \<or> 300 \<le> dl_status s then dl_Fail C (dl_status s) Not2xx s
     else s)"

definition after_lines :: "dl_config \<Rightarrow> nat \<Rightarrow> dl \<Rightarrow> dl" where
  "after_lines C n s =
    (if 1 < n then dl_Fail C 0 DupContentLength s
     else if dl_hasContentLength s \<and> dl_chunked s then dl_Fail C (dl_status s) LengthAndChunked s
     else let s = s\<lparr>dl_headerDone := True, dl_quotaBase := (if dl_status s = 206 then dl_resumedFrom s else 0)\<rparr> in
       if dl_hasContentLength s \<and> over_quota C (dl_quotaBase s) (dl_contentLength s) then dl_Fail C (dl_status s) OverQuota s
       else branch_status C s)"

definition ProcessHeaderData :: "dl_config \<Rightarrow> string \<Rightarrow> dl \<Rightarrow> dl" where
  "ProcessHeaderData C head s =
    (case (case cut_text CRLF head of Some lr \<Rightarrow> lr | None \<Rightarrow> (head, drop 1 head)) of (statusLine, rest) \<Rightarrow>
     (case ParseStatusLine statusLine of
        None \<Rightarrow> dl_Fail C 0 BadStatusLine s
      | Some code \<Rightarrow>
          let s = s\<lparr>dl_status := code\<rparr> in
          if code = 100 then s
          else (case apply_lines C (head_lines rest) (0, s) of
              Inl s \<Rightarrow> s
            | Inr (n, s) \<Rightarrow> after_lines C n s)))"

section \<open>The body\<close>

fun dl_hex_digit :: "char \<Rightarrow> nat option" where
  "dl_hex_digit c =
    (let n = char_code c in
     if 48 \<le> n \<and> n \<le> 57 then Some (n - 48)
     else if 97 \<le> n \<and> n \<le> 102 then Some (n - 87)
     else if 65 \<le> n \<and> n \<le> 70 then Some (n - 55)
     else None)"

definition hex_text_value :: "string \<Rightarrow> nat" where
  "hex_text_value s = foldl (\<lambda>a c. 16 * a + the (dl_hex_digit c)) 0 s"

definition strtoull16 :: "string \<Rightarrow> nat" where
  "strtoull16 s = min (hex_text_value s) unset_size"

text \<open>Reads the size of the next chunk if none is pending; \<open>Inl\<close> is a session that waits or has failed.\<close>

definition chunk_size :: "dl_config \<Rightarrow> dl \<Rightarrow> dl + dl" where
  "chunk_size C s =
    (if dl_chunkPending s \<noteq> unset_size then Inr s
     else (case cut_text CRLF (dl_pendingBuf s) of
         None \<Rightarrow> Inl (if 128 < length (dl_pendingBuf s) then dl_Fail C (dl_status s) ChunkLine s else s)
       | Some (line, rest) \<Rightarrow>
           let sizeLine = takeWhile (\<lambda>c. c \<noteq> CHR '';'') line in
           if sizeLine = [] then Inl (dl_Fail C (dl_status s) ChunkEmpty s)
           else if \<not> list_all (\<lambda>c. dl_hex_digit c \<noteq> None) sizeLine then Inl (dl_Fail C (dl_status s) ChunkNoHex s)
           else if q_cap C < strtoull16 sizeLine then Inl (dl_Fail C (dl_status s) ChunkTooBig s)
           else Inr (s\<lparr>dl_chunkPending := strtoull16 sizeLine, dl_pendingBuf := rest\<rparr>)))"

lemma chunk_bytes_pos [simp]: "0 < chunk_bytes C"
  by (simp add: chunk_bytes_def)

text \<open>The data of a chunk goes into the queue in blocks.\<close>

function enqueue_pieces :: "dl_config \<Rightarrow> string \<Rightarrow> dl \<Rightarrow> bool \<times> dl" where
  "enqueue_pieces C d s =
    (if d = [] then (True, s)
     else let n = min (length d) (chunk_bytes C) in
       (case EnqueueWrite C (take n d) s of
          (True, s) \<Rightarrow> enqueue_pieces C (drop n d) s
        | (False, s) \<Rightarrow> (False, s)))"
  by pat_completeness auto
termination
  by (relation "measure (\<lambda>(C, d, s). length d)") (auto simp: chunk_bytes_def)

declare enqueue_pieces.simps [simp del]

lemma chunk_size_Inr: "chunk_size C s = Inr t \<Longrightarrow> length (dl_pendingBuf t) \<le> length (dl_pendingBuf s)"
  by (auto simp: chunk_size_def Let_def dest!: cut_text_Some split: if_splits option.splits)

function chunk_loop :: "dl_config \<Rightarrow> dl \<Rightarrow> dl" where
  "chunk_loop C s0 =
    (case chunk_size C s0 of
       Inl s \<Rightarrow> s
     | Inr s \<Rightarrow>
         let buf = dl_pendingBuf s; n = dl_chunkPending s in
         if n = 0 then s\<lparr>dl_pendingBuf := [], dl_chunkTerminated := True\<rparr>
         else if length buf < n + 2 then s
         else if buf ! n \<noteq> CHR 0x0D \<or> buf ! (n + 1) \<noteq> CHR 0x0A then dl_Fail C (dl_status s) ChunkNoCRLF s
         else (case enqueue_pieces C (take n buf) s of
             (False, s) \<Rightarrow> s
           | (True, s) \<Rightarrow>
               let s = s\<lparr>dl_recvBody := dl_recvBody s + n\<rparr> in
               if over_quota C (dl_quotaBase s) (dl_recvBody s) then dl_Fail C (dl_status s) OverQuota s
               else chunk_loop C (s\<lparr>dl_pendingBuf := drop (n + 2) buf, dl_chunkPending := unset_size\<rparr>)))"
  by pat_completeness auto
termination
proof (relation "measure (\<lambda>(C, s). length (dl_pendingBuf s))", goal_cases)
  case (2 C s0 s buf n)
  then show ?case
    using chunk_size_Inr [of C s0 s] by auto
qed simp

declare chunk_loop.simps [simp del]

function flush_blocks :: "dl_config \<Rightarrow> dl \<Rightarrow> dl" where
  "flush_blocks C s =
    (if length (dl_pendingBuf s) < chunk_bytes C then s
     else (case EnqueueWrite C (take (chunk_bytes C) (dl_pendingBuf s)) s of
         (False, s') \<Rightarrow> s'
       | (True, s') \<Rightarrow> flush_blocks C (s'\<lparr>dl_pendingBuf := drop (chunk_bytes C) (dl_pendingBuf s)\<rparr>)))"
  by pat_completeness auto
termination
  by (relation "measure (\<lambda>(C, s). length (dl_pendingBuf s))") (auto simp: not_less intro!: diff_less order_less_le_trans [OF chunk_bytes_pos])

declare flush_blocks.simps [simp del]

definition HandleBodyData :: "dl_config \<Rightarrow> string \<Rightarrow> dl \<Rightarrow> dl" where
  "HandleBodyData C d s =
    (if d = [] \<or> dl_finished s then s
     else let s = s\<lparr>dl_raw := dl_raw s @ d\<rparr> in
       if dl_chunked s then chunk_loop C (s\<lparr>dl_pendingBuf := dl_pendingBuf s @ d\<rparr>)
       else let s = s\<lparr>dl_recvBody := dl_recvBody s + length d\<rparr> in
         if dl_hasContentLength s \<and> dl_contentLength s < dl_recvBody s then dl_Fail C (dl_status s) BodyTooLong s
         else if over_quota C (dl_quotaBase s) (dl_recvBody s) then dl_Fail C (dl_status s) OverQuota s
         else flush_blocks C (s\<lparr>dl_pendingBuf := dl_pendingBuf s @ d\<rparr>))"

definition CheckComplete :: "dl_config \<Rightarrow> dl \<Rightarrow> dl" where
  "CheckComplete C s =
    (if dl_finished s then s
     else if dl_chunked s then (if dl_chunkTerminated s then dl_Complete C s else s)
     else if dl_hasContentLength s then (if dl_contentLength s \<le> dl_recvBody s then dl_Complete C s else s)
     else s)"

section \<open>Callbacks of the loop\<close>

definition OnRecv :: "dl_config \<Rightarrow> string \<Rightarrow> dl \<Rightarrow> dl" where
  "OnRecv C d s =
    (let s = s\<lparr>dl_lastActivity := dl_now s, dl_input := dl_input s @ d\<rparr> in
     if dl_input s = [] then s
     else if \<not> dl_headerDone s then
       (case cut_text (CRLF @ CRLF) (dl_input s) of
          None \<Rightarrow> if 256 * 1024 < length (dl_input s) then dl_Fail C 0 HeaderTooLong s else s
        | Some (h, rest) \<Rightarrow>
            let t = ProcessHeaderData C (h @ CRLF @ CRLF) s in
            if dl_thrown t then t else
            let t = (if dl_epoch t = dl_epoch s then t\<lparr>dl_input := rest\<rparr> else t) in
            if dl_finished t then t
            else if \<not> dl_headerDone t then t
            else let t = (if rest \<noteq> [] then HandleBodyData C rest (t\<lparr>dl_input := []\<rparr>) else t) in
              if dl_finished t then t else CheckComplete C t)
     else let t = HandleBodyData C (dl_input s) (s\<lparr>dl_input := []\<rparr>) in
       if dl_finished t then t else CheckComplete C t)"

text \<open>The guard starts with the first connection that opens.\<close>

definition dl_OnConnected :: "dl_config \<Rightarrow> dl \<Rightarrow> dl" where
  "dl_OnConnected C s = s\<lparr>dl_lastActivity := dl_now s, dl_guardStarted := True,
     dl_sent := dl_sent s @ [(dl_tgt s, request_headers (dc_client C) (dc_headers C) (dl_tgt s) (dl_resumedFrom s)
       (dl_metaEtag s) (dl_metaLm s) (dl_strip s))]\<rparr>"

definition OnDisconnect :: "dl_config \<Rightarrow> dl \<Rightarrow> dl" where
  "OnDisconnect C s =
    (if dl_finished s then s
     else if \<not> dl_headerDone s then dl_Fail C 0 NoHeader s
     else if dl_chunked s \<and> \<not> dl_chunkTerminated s then dl_Fail C (dl_status s) ChunkCut s
     else if dl_hasContentLength s \<and> dl_recvBody s < dl_contentLength s then dl_Fail C (dl_status s) BodyShort s
     else dl_Complete C s)"

definition OnGuard :: "dl_config \<Rightarrow> bool \<Rightarrow> dl \<Rightarrow> dl" where
  "OnGuard C cancelled s =
    (if dl_finished s then s
     else if cancelled then dl_Fail C (dl_status s) Cancelled s
     else if 0 < dc_deadlineMs C \<and> dc_deadlineMs C < dl_now s then dl_Fail C (dl_status s) TotalTimeout s
     else if stall_ms C < dl_now s - dl_lastActivity s \<and> (dl_qBytes s = 0 \<or> stall_ms C < dl_now s - dl_lastWrite s)
     then dl_Fail C (dl_status s) Stalled s
     else s)"

section \<open>The writer\<close>

text \<open>What the file system answers: success, an error after some bytes, or a cancelled operation.\<close>

datatype io = IoOk | IoFails nat | IoAborted nat

definition Md5CanVerify :: "dl \<Rightarrow> bool" where
  "Md5CanVerify s \<longleftrightarrow> dl_respMd5 s \<noteq> [] \<and> dl_status s = 200"

definition Deliver :: "dl_result \<Rightarrow> dl \<Rightarrow> dl" where
  "Deliver r s = (if dl_done s = None then s\<lparr>dl_done := Some r\<rparr> else s)"

definition FinishOk :: "io \<Rightarrow> nat \<Rightarrow> dl \<Rightarrow> dl" where
  "FinishOk io finalWritten s =
    (let s = s\<lparr>dl_finished := True\<rparr> in
     if io \<noteq> IoOk
     then Deliver \<lparr>dr_ok = False, dr_status = dl_status s, dr_written = 0, dr_resumedFrom = dl_resumedFrom s, dr_error = Some RenameFailed\<rparr> s
     else Deliver \<lparr>dr_ok = True, dr_status = dl_status s, dr_written = finalWritten, dr_resumedFrom = dl_resumedFrom s, dr_error = None\<rparr>
       (s\<lparr>dl_dest := Some (dl_part s), dl_meta := None\<rparr>))"

definition AbortPath :: "dl_why option \<Rightarrow> dl \<Rightarrow> dl" where
  "AbortPath why s =
    Deliver \<lparr>dr_ok = False, dr_status = dl_failStatus s, dr_written = 0, dr_resumedFrom = dl_resumedFrom s, dr_error = Some (Aborted why)\<rparr>
      (s\<lparr>dl_finished := True\<rparr>)"

definition WriterFail :: "dl_error \<Rightarrow> dl \<Rightarrow> dl" where
  "WriterFail e s =
    Deliver \<lparr>dr_ok = False, dr_status = dl_status s, dr_written = 0, dr_resumedFrom = dl_resumedFrom s, dr_error = Some e\<rparr>
      (s\<lparr>dl_finished := True\<rparr>)"

text \<open>The hash begins with the first data that can be verified; \<open>hashes\<close> says whether the library starts one.\<close>

definition hash_write :: "bool \<Rightarrow> string \<Rightarrow> dl \<Rightarrow> dl" where
  "hash_write hashes d s =
    (if Md5CanVerify s \<and> \<not> dl_md5Broken s then
       (case dl_hash s of
          Some h \<Rightarrow> s\<lparr>dl_hash := Some (h @ d)\<rparr>
        | None \<Rightarrow> if hashes then s\<lparr>dl_hash := Some d\<rparr> else s\<lparr>dl_md5Broken := True\<rparr>)
     else s)"

definition md5_error :: "dl_config \<Rightarrow> bool \<Rightarrow> dl \<Rightarrow> dl_error option" where
  "md5_error C hashes s =
    (if Md5CanVerify s then
       (case (case dl_hash s of Some h \<Rightarrow> Some h | None \<Rightarrow> if hashes then Some [] else None) of
          None \<Rightarrow> Some Md5Unavailable
        | Some h \<Rightarrow>
            if dl_Base64Decode (dl_respMd5 s) = [] then Some Md5Invalid
            else if dc_md5 C h \<noteq> dl_Base64Decode (dl_respMd5 s) then Some Md5Mismatch
            else None)
     else None)"

fun take_action :: "dl_config \<Rightarrow> io \<Rightarrow> bool \<Rightarrow> dl_action \<Rightarrow> dl \<Rightarrow> dl" where
  "take_action C io hashes (WriteData d) s =
    (case io of
       IoOk \<Rightarrow> hash_write hashes d (s\<lparr>dl_part := dl_part s @ d\<rparr>)
     | IoFails n \<Rightarrow> WriterFail WriteFailed (s\<lparr>dl_part := dl_part s @ take n d\<rparr>)
     | IoAborted n \<Rightarrow>
         let s = s\<lparr>dl_part := dl_part s @ take n d\<rparr> in
         if dl_writerStop s then WriterFail ChannelClosed s else AbortPath (dl_failWhy s) s)"
| "take_action C io hashes TruncateFile s = (if io = IoOk then s\<lparr>dl_part := []\<rparr> else WriterFail TruncateFailed s)"
| "take_action C io hashes (WriteMeta d) s = (if io = IoOk then s\<lparr>dl_meta := Some d\<rparr> else s)"
| "take_action C io hashes (FinishFile n) s =
    (case md5_error C hashes s of
       Some e \<Rightarrow> WriterFail e (s\<lparr>dl_part := [], dl_meta := None\<rparr>)
     | None \<Rightarrow> FinishOk io n s)"
| "take_action C io hashes AbortFile s = AbortPath (dl_failWhy s) s"

text \<open>One round of \<open>WriterLoop\<close>; a thread with nothing to do waits.\<close>

definition WriterLoop :: "dl_config \<Rightarrow> io \<Rightarrow> bool \<Rightarrow> dl \<Rightarrow> dl" where
  "WriterLoop C io hashes s =
    (if dl_done s \<noteq> None then s
     else if dl_writerStop s then WriterFail ChannelClosed s
     else (case dl_queue s of
         [] \<Rightarrow> s
       | a # q \<Rightarrow> take_action C io hashes a (s\<lparr>dl_queue := q, dl_qBytes := dl_qBytes s - action_size a, dl_lastWrite := dl_now s\<rparr>)))"

section \<open>Sessions\<close>

text \<open>\<open>Create\<close> after the file \<open>.part\<close> has been opened: its content and that of the side file, if there is one.\<close>

definition sidecar_text :: "json_api \<Rightarrow> string option \<Rightarrow> string \<Rightarrow> string" where
  "sidecar_text J meta k =
    (case meta of
       None \<Rightarrow> []
     | Some content \<Rightarrow>
         (case jparse J content of
            None \<Rightarrow> []
          | Some j \<Rightarrow> (case json_find j k of Some (JStr v) \<Rightarrow> v | _ \<Rightarrow> [])))"

definition dl_Create :: "dl_config \<Rightarrow> string \<Rightarrow> string \<Rightarrow> string option \<Rightarrow> int \<Rightarrow> string + dl" where
  "dl_Create C url part meta now =
    (case (create_error (dc_client C) (dc_headers C) (ParseDownloadUrl url), ParseDownloadUrl url) of
       (Some e, _) \<Rightarrow> Inl e
     | (None, None) \<Rightarrow> Inl ''url''
     | (None, Some t) \<Rightarrow> Inr
        \<lparr>dl_url = url, dl_tgt = t, dl_epoch = 0, dl_input = [], dl_now = now, dl_lastActivity = now, dl_quotaBase = 0,
         dl_resumedFrom = length part, dl_cursor = length part,
         dl_metaEtag = (if part \<noteq> [] then sidecar_text (dc_json C) meta ''etag'' else []),
         dl_metaLm = (if part \<noteq> [] then sidecar_text (dc_json C) meta ''lastModified'' else []),
         dl_respEtag = [], dl_respLm = [], dl_restartUsed = False, dl_redirectsUsed = 0, dl_strip = False,
         dl_headerDone = False, dl_status = 0, dl_chunked = False, dl_hasContentLength = False, dl_contentLength = 0,
         dl_hasContentRange = False, dl_contentRangeFirst = 0, dl_location = [], dl_respMd5 = [], dl_recvBody = 0,
         dl_chunkPending = unset_size, dl_chunkTerminated = False, dl_pendingBuf = [], dl_finished = False,
         dl_failStatus = 0, dl_failWhy = None, dl_queue = [], dl_qBytes = 0, dl_writerStop = False, dl_thrown = False, dl_guardStarted = False, dl_lastWrite = now,
         dl_part = part, dl_meta = meta, dl_dest = None, dl_hash = None, dl_md5Broken = False, dl_done = None,
         dl_raw = [], dl_sent = []\<rparr>)"

text \<open>The callbacks carry their epoch; \<open>Alive\<close> drops those of an older connection and all of them after the end.\<close>

datatype dl_event =
    Starts
  | ConnOpen nat int
  | Receives nat int string
  | ConnClosed nat int
  | ConnRefused nat int
  | TlsError nat int
  | GuardTick int bool
  | WriterTurn int io bool
  | ShutsDown

definition dl_Alive :: "nat \<Rightarrow> dl \<Rightarrow> bool" where
  "dl_Alive ep s \<longleftrightarrow> dl_epoch s = ep \<and> \<not> dl_finished s"

text \<open>A loop that an exception has left runs no callback any more; the writer is a thread of its own.\<close>

fun dl_step :: "dl_config \<Rightarrow> dl_event \<Rightarrow> dl \<Rightarrow> dl" where
  "dl_step C Starts s = (if \<not> dl_thrown s \<and> dl_epoch s = 0 then BeginConnect s else s)"
| "dl_step C (ConnOpen ep now) s = (if \<not> dl_thrown s \<and> dl_Alive ep s then dl_OnConnected C (s\<lparr>dl_now := now\<rparr>) else s)"
| "dl_step C (Receives ep now d) s = (if \<not> dl_thrown s \<and> dl_Alive ep s then OnRecv C d (s\<lparr>dl_now := now\<rparr>) else s)"
| "dl_step C (ConnClosed ep now) s = (if \<not> dl_thrown s \<and> dl_Alive ep s then OnDisconnect C (s\<lparr>dl_now := now\<rparr>) else s)"
| "dl_step C (ConnRefused ep now) s = (if \<not> dl_thrown s \<and> dl_Alive ep s then dl_Fail C 0 ConnectFailed (s\<lparr>dl_now := now\<rparr>) else s)"
| "dl_step C (TlsError ep now) s = (if \<not> dl_thrown s \<and> dl_Alive ep s then dl_Fail C 0 TlsFailed (s\<lparr>dl_now := now\<rparr>) else s)"
| "dl_step C (GuardTick now cancelled) s = (if \<not> dl_thrown s \<and> dl_guardStarted s then OnGuard C cancelled (s\<lparr>dl_now := now\<rparr>) else s)"
| "dl_step C (WriterTurn now io hashes) s = WriterLoop C io hashes (s\<lparr>dl_now := now\<rparr>)"
| "dl_step C ShutsDown s = s\<lparr>dl_writerStop := True\<rparr>"

definition dl_run :: "dl_config \<Rightarrow> dl_event list \<Rightarrow> dl \<Rightarrow> dl" where
  "dl_run C es s = fold (dl_step C) es s"

end
