(* ===== verification/DlProps.thy ===== *)
theory DlProps
  imports DlSession
begin

text \<open>
  What a download delivers.  The content is what the file \<open>.part\<close> will hold when the queue has been worked off; it is
  related to the bytes of the response by the framing, for the chunked coding by its grammar.
\<close>

section \<open>The grammar of the chunked coding\<close>

definition size_line :: "string \<Rightarrow> nat \<Rightarrow> bool" where
  "size_line line n \<longleftrightarrow> cut_text CRLF (line @ CRLF) = Some (line, [])
     \<and> (let t = takeWhile (\<lambda>c. c \<noteq> CHR '';'') line in t \<noteq> [] \<and> list_all (\<lambda>c. dl_hex_digit c \<noteq> None) t \<and> hex_text_value t = n)"

inductive chunked :: "string \<Rightarrow> string \<Rightarrow> bool" where
  last_chunk: "size_line line 0 \<Longrightarrow> chunked (line @ CRLF @ trailer) []"
| more_chunks: "size_line line (length d) \<Longrightarrow> d \<noteq> [] \<Longrightarrow> chunked rest b \<Longrightarrow> chunked (line @ CRLF @ d @ CRLF @ rest) (d @ b)"

text \<open>What is left to decode when a chunk of a certain size is pending.\<close>

definition decodes :: "nat \<Rightarrow> string \<Rightarrow> string \<Rightarrow> bool" where
  "decodes pend buf b \<longleftrightarrow>
    (if pend = unset_size then chunked buf b
     else if pend = 0 then b = []
     else \<exists>d rest b'. length d = pend \<and> buf = d @ CRLF @ rest \<and> b = d @ b' \<and> chunked rest b')"

definition chunk_state :: "string \<Rightarrow> string \<Rightarrow> nat \<Rightarrow> string \<Rightarrow> bool" where
  "chunk_state raw body pend buf \<longleftrightarrow> (\<forall>rest b. decodes pend (buf @ rest) b \<longrightarrow> chunked (raw @ rest) (body @ b))"

lemma chunk_state_start: "chunk_state [] [] unset_size []"
  by (simp add: chunk_state_def decodes_def)

lemma chunk_state_receive: "chunk_state raw body pend buf \<Longrightarrow> chunk_state (raw @ d) body pend (buf @ d)"
  by (simp add: chunk_state_def)

lemma chunk_state_size:
  assumes "chunk_state raw body unset_size (line @ CRLF @ rest)" "size_line line n" "n < unset_size"
  shows "chunk_state raw body n rest"
  unfolding chunk_state_def
proof (intro allI impI)
  fix more b
  assume left: "decodes n (rest @ more) b"
  have "chunked (line @ CRLF @ rest @ more) b"
  proof (cases "n = 0")
    case True
    then show ?thesis
      using left assms(2) last_chunk [of line "rest @ more"] by (simp add: decodes_def unset_size_def)
  next
    case False
    then obtain d r b' where "length d = n" "rest @ more = d @ CRLF @ r" "b = d @ b'" "chunked r b'"
      using left assms(3) by (auto simp: decodes_def)
    then show ?thesis
      using more_chunks [of line d r b'] assms(2) False by auto
  qed
  then show "chunked (raw @ more) (body @ b)"
    using assms(1) by (simp add: chunk_state_def decodes_def)
qed

lemma chunk_state_data:
  assumes "chunk_state raw body (length d) (d @ CRLF @ rest)" "d \<noteq> []" "length d < unset_size"
  shows "chunk_state raw (body @ d) unset_size rest"
  unfolding chunk_state_def
proof (intro allI impI)
  fix more b
  assume "decodes unset_size (rest @ more) b"
  then have "decodes (length d) ((d @ CRLF @ rest) @ more) (d @ b)"
    using assms(2,3) by (auto simp: decodes_def)
  then show "chunked (raw @ more) ((body @ d) @ b)"
    using assms(1) unfolding chunk_state_def by fastforce
qed

lemma unset_pos [simp]: "0 < unset_size"
  by (simp add: unset_size_def)

lemma chunk_state_end: "chunk_state raw body 0 buf \<Longrightarrow> chunked raw body"
  unfolding chunk_state_def decodes_def using unset_pos by (metis append_Nil2 less_irrefl)

lemma chunk_state_done: "chunk_state raw body 0 buf \<Longrightarrow> chunk_state (raw @ d) body 0 buf'"
  using unset_pos by (simp add: chunk_state_def decodes_def del: unset_pos)

section \<open>What the queue will do\<close>

fun exec_action :: "string \<Rightarrow> dl_action \<Rightarrow> string" where
  "exec_action f (WriteData d) = f @ d"
| "exec_action f TruncateFile = []"
| "exec_action f _ = f"

definition exec :: "dl_action list \<Rightarrow> string \<Rightarrow> string" where
  "exec q f = foldl exec_action f q"

fun writes_of :: "dl_action list \<Rightarrow> string" where
  "writes_of [] = []"
| "writes_of (WriteData d # q) = d @ writes_of q"
| "writes_of (_ # q) = writes_of q"

lemma exec_simps [simp]: "exec [] f = f" "exec (a # q) f = exec q (exec_action f a)" "exec (q @ r) f = exec r (exec q f)"
  by (simp_all add: exec_def)

lemma writes_append [simp]: "writes_of (q @ r) = writes_of q @ writes_of r"
  by (induction q rule: writes_of.induct) auto

definition content :: "dl \<Rightarrow> string" where
  "content s = exec (dl_queue s) (dl_part s)"

definition base :: "string \<Rightarrow> dl \<Rightarrow> string" where
  "base p0 s = (if dl_headerDone s \<and> dl_status s = 200 then [] else take (dl_resumedFrom s) p0)"

abbreviation hashed :: "dl \<Rightarrow> string" where
  "hashed s \<equiv> (case dl_hash s of Some h \<Rightarrow> h | None \<Rightarrow> [])"

text \<open>The file, the cursor and the hash follow the body; \<open>fl\<close> is the part of it that has been put into the queue.\<close>

definition core_inv :: "string \<Rightarrow> dl \<Rightarrow> string \<Rightarrow> bool" where
  "core_inv p0 s fl \<longleftrightarrow> content s = base p0 s @ fl \<and> dl_cursor s = length (content s) \<and> dl_resumedFrom s \<le> length p0
     \<and> list_all (\<lambda>a. \<not> is_terminal a) (dl_queue s)
     \<and> (if dl_headerDone s
        then 200 \<le> dl_status s \<and> dl_status s < 300 \<and> (dl_status s = 206 \<longrightarrow> dl_contentRangeFirst s = dl_resumedFrom s)
          \<and> (Md5CanVerify s \<and> \<not> dl_md5Broken s \<longrightarrow> hashed s @ writes_of (dl_queue s) = fl)
          \<and> \<not> (dl_hasContentLength s \<and> dl_chunked s)
        else fl = [] \<and> hashed s = [] \<and> writes_of (dl_queue s) = [])"

definition frame_inv :: "dl \<Rightarrow> string \<Rightarrow> bool" where
  "frame_inv s fl \<longleftrightarrow>
    (if \<not> dl_headerDone s
     then dl_raw s = [] \<and> dl_pendingBuf s = [] \<and> dl_recvBody s = 0 \<and> dl_chunkPending s = unset_size \<and> \<not> dl_chunkTerminated s
     else if dl_chunked s
     then chunk_state (dl_raw s) fl (dl_chunkPending s) (dl_pendingBuf s) \<and> dl_chunkPending s \<le> unset_size
       \<and> (dl_chunkTerminated s \<longrightarrow> dl_chunkPending s = 0 \<and> dl_pendingBuf s = [])
     else dl_raw s = fl @ dl_pendingBuf s \<and> dl_recvBody s = length (dl_raw s)
       \<and> (dl_hasContentLength s \<longrightarrow> dl_recvBody s \<le> dl_contentLength s))"

text \<open>A body that is complete by the framing of the response.\<close>

definition framed :: "dl \<Rightarrow> string \<Rightarrow> bool" where
  "framed s body \<longleftrightarrow> (if dl_chunked s then chunked (dl_raw s) body
     else dl_raw s = body \<and> (if dl_hasContentLength s then length body = dl_contentLength s else True))"

definition end_inv :: "string \<Rightarrow> dl \<Rightarrow> bool" where
  "end_inv p0 s \<longleftrightarrow> (\<exists>q a. dl_queue s = q @ [a] \<and> list_all (\<lambda>a. \<not> is_terminal a) q
     \<and> (a = AbortFile
        \<or> dl_headerDone s \<and> (\<exists>body. a = FinishFile (length (base p0 s @ body)) \<and> exec q (dl_part s) = base p0 s @ body \<and> framed s body
            \<and> (dl_status s = 206 \<longrightarrow> dl_contentRangeFirst s = dl_resumedFrom s) \<and> 200 \<le> dl_status s \<and> dl_status s < 300
            \<and> (Md5CanVerify s \<and> \<not> dl_md5Broken s \<longrightarrow> hashed s @ writes_of q = body))))"

definition live :: "string \<Rightarrow> dl \<Rightarrow> string \<Rightarrow> bool" where
  "live p0 s fl \<longleftrightarrow> \<not> dl_finished s \<and> \<not> dl_writerStop s \<and> core_inv p0 s fl \<and> frame_inv s fl"

definition dl_ok :: "string \<Rightarrow> dl \<Rightarrow> bool" where
  "dl_ok p0 s \<longleftrightarrow> dl_writerStop s \<or> (if dl_finished s then end_inv p0 s else \<exists>fl. live p0 s fl)"

lemma live_ok: "live p0 s fl \<Longrightarrow> dl_ok p0 s"
  unfolding dl_ok_def live_def by auto

lemmas dl_defs = core_inv_def frame_inv_def content_def base_def framed_def Md5CanVerify_def

lemma live_other [simp]:
  "live p0 (s\<lparr>dl_input := x\<rparr>) = live p0 s" "live p0 (s\<lparr>dl_now := y\<rparr>) = live p0 s"
  "live p0 (s\<lparr>dl_lastActivity := y\<rparr>) = live p0 s" "live p0 (s\<lparr>dl_sent := z\<rparr>) = live p0 s"
  "live p0 (s\<lparr>dl_epoch := n\<rparr>) = live p0 s" "live p0 (s\<lparr>dl_guardStarted := b\<rparr>) = live p0 s"
  "live p0 (s\<lparr>dl_thrown := b\<rparr>) = live p0 s"
  by (simp_all add: fun_eq_iff live_def dl_defs)

lemma end_other [simp]:
  "end_inv p0 (s\<lparr>dl_input := x\<rparr>) = end_inv p0 s" "end_inv p0 (s\<lparr>dl_now := y\<rparr>) = end_inv p0 s"
  "end_inv p0 (s\<lparr>dl_lastActivity := y\<rparr>) = end_inv p0 s" "end_inv p0 (s\<lparr>dl_sent := z\<rparr>) = end_inv p0 s"
  "end_inv p0 (s\<lparr>dl_epoch := n\<rparr>) = end_inv p0 s"
  by (simp_all add: end_inv_def dl_defs)

lemma ok_other [simp]:
  "dl_ok p0 (s\<lparr>dl_input := x\<rparr>) = dl_ok p0 s" "dl_ok p0 (s\<lparr>dl_now := y\<rparr>) = dl_ok p0 s"
  "dl_ok p0 (s\<lparr>dl_lastActivity := y\<rparr>) = dl_ok p0 s" "dl_ok p0 (s\<lparr>dl_sent := z\<rparr>) = dl_ok p0 s"
  "dl_ok p0 (s\<lparr>dl_epoch := n\<rparr>) = dl_ok p0 s"
  by (simp_all add: dl_ok_def)

section \<open>What the operations of the loop keep\<close>

lemma Fail_fields [simp]: "dl_done (dl_Fail C st why s) = dl_done s" "dl_writerStop (dl_Fail C st why s) = dl_writerStop s"
  "dl_finished (dl_Fail C st why s)" "dl_headerDone (dl_Fail C st why s) = dl_headerDone s" "dl_epoch (dl_Fail C st why s) = dl_epoch s"
  by (auto simp: dl_Fail_def EnqueueAction_def)

lemma Fail_ok:
  "\<not> dl_finished s \<Longrightarrow> list_all (\<lambda>a. \<not> is_terminal a) (dl_queue s) \<Longrightarrow> dl_ok p0 (dl_Fail C st why s)"
  by (auto simp: dl_Fail_def EnqueueAction_def dl_ok_def end_inv_def)

lemma Fail_live: "live p0 s fl \<Longrightarrow> dl_ok p0 (dl_Fail C st why s)"
  by (intro Fail_ok) (simp_all add: live_def core_inv_def)

lemma EnqueueWrite_eq:
  "\<not> dl_finished s \<Longrightarrow> EnqueueWrite C d s =
    (if dl_writerStop s \<or> q_cap C < dl_qBytes s + length d then (False, dl_Fail C 0 Backlog s)
     else (True, s\<lparr>dl_qBytes := dl_qBytes s + length d, dl_queue := dl_queue s @ [WriteData d], dl_lastActivity := dl_now s,
        dl_cursor := dl_cursor s + length d\<rparr>))"
  by (simp add: EnqueueWrite_def EnqueueAction_def)

definition rewrite_only :: "dl \<Rightarrow> dl \<Rightarrow> bool" where
  "rewrite_only s t \<longleftrightarrow> dl_headerDone t = dl_headerDone s \<and> dl_chunked t = dl_chunked s \<and> dl_chunkPending t = dl_chunkPending s
     \<and> dl_chunkTerminated t = dl_chunkTerminated s \<and> dl_pendingBuf t = dl_pendingBuf s \<and> dl_raw t = dl_raw s
     \<and> dl_recvBody t = dl_recvBody s \<and> dl_hasContentLength t = dl_hasContentLength s \<and> dl_contentLength t = dl_contentLength s
     \<and> dl_finished t = dl_finished s \<and> dl_writerStop t = dl_writerStop s \<and> dl_done t = dl_done s"

text \<open>A block put into the queue extends the body; otherwise the session has failed.\<close>

definition enqueued :: "string \<Rightarrow> dl \<Rightarrow> string \<Rightarrow> bool \<Rightarrow> dl \<Rightarrow> bool" where
  "enqueued p0 s fl ok t \<longleftrightarrow>
    (if ok then core_inv p0 t fl \<and> rewrite_only s t
     else dl_ok p0 t \<and> dl_finished t \<and> dl_writerStop t = dl_writerStop s \<and> dl_done t = dl_done s \<and> dl_headerDone t = dl_headerDone s)"

lemma EnqueueWrite_core:
  assumes "core_inv p0 s fl" "dl_headerDone s" "\<not> dl_finished s" "EnqueueWrite C d s = (ok, t)"
  shows "enqueued p0 s (fl @ d) ok t"
proof (cases "dl_writerStop s \<or> q_cap C < dl_qBytes s + length d")
  case True
  then have "ok = False" "t = dl_Fail C 0 Backlog s"
    using assms(4) unfolding EnqueueWrite_eq [OF assms(3)] by simp_all
  then show ?thesis
    using Fail_ok [OF assms(3), of p0 C 0 Backlog] assms(1) by (simp add: enqueued_def core_inv_def)
next
  case False
  then have "ok" "t = s\<lparr>dl_qBytes := dl_qBytes s + length d, dl_queue := dl_queue s @ [WriteData d], dl_lastActivity := dl_now s,
      dl_cursor := dl_cursor s + length d\<rparr>"
    using assms(4) unfolding EnqueueWrite_eq [OF assms(3)] by auto
  then show ?thesis
    using assms(1-3) by (auto simp: enqueued_def rewrite_only_def core_inv_def content_def base_def Md5CanVerify_def)
qed

lemma enqueue_pieces_core:
  "core_inv p0 s fl \<Longrightarrow> dl_headerDone s \<Longrightarrow> \<not> dl_finished s \<Longrightarrow> enqueue_pieces C d s = (ok, t) \<Longrightarrow> enqueued p0 s (fl @ d) ok t"
proof (induction C d s arbitrary: fl rule: enqueue_pieces.induct)
  case (1 C d s)
  show ?case
  proof (cases "d = []")
    case True
    then show ?thesis
      using 1 by (auto simp: enqueue_pieces.simps enqueued_def rewrite_only_def)
  next
    case False
    let ?n = "min (length d) (chunk_bytes C)"
    obtain ok1 s1 where s1: "EnqueueWrite C (take ?n d) s = (ok1, s1)"
      by fastforce
    note w = EnqueueWrite_core [OF 1(2,3,4) s1]
    show ?thesis
    proof (cases ok1)
      case True
      then have step: "core_inv p0 s1 (fl @ take ?n d)" "rewrite_only s s1"
        using w by (auto simp: enqueued_def)
      have "enqueue_pieces C (drop ?n d) s1 = (ok, t)"
        using 1(5) False True s1 by (subst (asm) enqueue_pieces.simps) (simp add: Let_def)
      have "core_inv p0 s1 fl' \<Longrightarrow> enqueued p0 s1 (fl' @ drop ?n d) ok t" for fl'
        using 1(1) [OF False refl s1 [symmetric]] True step \<open>enqueue_pieces C (drop ?n d) s1 = (ok, t)\<close> 1(3,4)
        by (simp add: rewrite_only_def)
      from this [OF step(1)] have "enqueued p0 s1 (fl @ d) ok t"
        by simp
      then show ?thesis
        using step(2) 1(3,4) by (auto simp: enqueued_def rewrite_only_def)
    next
      case f: False
      have "(ok, t) = (False, s1)"
        using 1(5) False f s1 by (subst (asm) enqueue_pieces.simps) (simp add: Let_def)
      then show ?thesis
        using w f by (simp add: enqueued_def)
    qed
  qed
qed

lemma live_core: "live p0 s fl \<Longrightarrow> core_inv p0 s fl" "live p0 s fl \<Longrightarrow> \<not> dl_finished s" "live p0 s fl \<Longrightarrow> \<not> dl_writerStop s"
  "live p0 s fl \<Longrightarrow> frame_inv s fl"
  by (simp_all add: live_def)

text \<open>The result of an operation on the body of a response.\<close>

definition body_ok :: "string \<Rightarrow> dl \<Rightarrow> dl \<Rightarrow> bool" where
  "body_ok p0 s t \<longleftrightarrow> dl_ok p0 t \<and> dl_done t = dl_done s \<and> dl_headerDone t = dl_headerDone s"

lemma body_ok_Fail: "live p0 s fl \<Longrightarrow> body_ok p0 s (dl_Fail C st why s)"
  using Fail_live [of p0 s fl C st why] by (simp add: body_ok_def)

lemma body_ok_live: "live p0 s fl \<Longrightarrow> body_ok p0 s s"
  by (auto simp: body_ok_def live_ok)

lemma body_ok_cong: "body_ok p0 s t \<Longrightarrow> dl_done s' = dl_done s \<Longrightarrow> dl_headerDone s' = dl_headerDone s \<Longrightarrow> body_ok p0 s' t"
  by (simp add: body_ok_def)

declare dl_hex_digit.simps [simp del]

lemma chunk_size_live:
  assumes "live p0 s fl" "dl_headerDone s" "dl_chunked s" "q_cap C < unset_size"
  shows "case chunk_size C s of
      Inl t \<Rightarrow> body_ok p0 s t
    | Inr t \<Rightarrow> live p0 t fl \<and> dl_chunkPending t < unset_size \<and> dl_chunked t \<and> dl_headerDone t \<and> dl_done t = dl_done s"
proof (cases "dl_chunkPending s = unset_size")
  case False
  then show ?thesis
    using assms by (simp add: chunk_size_def live_def frame_inv_def)
next
  case True
  note fail = body_ok_Fail [OF assms(1)] body_ok_live [OF assms(1)]
  show ?thesis
  proof (cases "cut_text CRLF (dl_pendingBuf s)")
    case None
    then show ?thesis
      using True fail by (simp add: chunk_size_def)
  next
    case (Some lr)
    then obtain line rest where cut: "cut_text CRLF (dl_pendingBuf s) = Some (line, rest)"
      by (cases lr) auto
    let ?t = "takeWhile (\<lambda>c. c \<noteq> CHR '';'') line"
    show ?thesis
    proof (cases "?t = [] \<or> \<not> list_all (\<lambda>c. dl_hex_digit c \<noteq> None) ?t \<or> q_cap C < strtoull16 ?t")
      case bad: True
      then show ?thesis
        using True cut fail by (auto simp: chunk_size_def Let_def)
    next
      case good: False
      have n: "strtoull16 ?t = hex_text_value ?t" "strtoull16 ?t < unset_size"
        using good assms(4) by (auto simp: strtoull16_def min_def split: if_splits)
      have line: "size_line line (strtoull16 ?t)"
        using good n cut_text_again [OF cut, of "[]"] by (simp add: size_line_def)
      have buf: "dl_pendingBuf s = line @ CRLF @ rest"
        by (rule cut_text_Some [OF cut])
      have raw: "chunk_state (dl_raw s) fl (strtoull16 ?t) rest"
      proof (rule chunk_state_size [OF _ line n(2)])
        show "chunk_state (dl_raw s) fl unset_size (line @ CRLF @ rest)"
          using assms(1-3) True buf by (simp add: live_def frame_inv_def)
      qed
      have "dl_chunkTerminated s \<longrightarrow> dl_chunkPending s = 0"
        using assms(1-3) by (simp add: live_def frame_inv_def)
      then have "\<not> dl_chunkTerminated s"
        using True unset_pos by (metis less_irrefl)
      then have "live p0 (s\<lparr>dl_chunkPending := strtoull16 ?t, dl_pendingBuf := rest\<rparr>) fl"
        using assms(1-3) raw n(2) by (simp add: live_def dl_defs)
      then show ?thesis
        using True cut good n(2) assms(2,3) by (simp add: chunk_size_def Let_def)
    qed
  qed
qed

lemma split_at_crlf:
  assumes "n + 2 \<le> length buf" "buf ! n = CHR 0x0D" "buf ! (n + 1) = CHR 0x0A"
  shows "buf = take n buf @ CRLF @ drop (n + 2) buf"
proof -
  have "drop n buf = buf ! n # buf ! (n + 1) # drop (n + 2) buf"
    using assms(1) by (metis Cons_nth_drop_Suc Suc_eq_plus1 add_2_eq_Suc' add_lessD1 less_le_trans lessI Suc_le_eq)
  then have "drop n buf = CRLF @ drop (n + 2) buf"
    using assms(2,3) by simp
  then show ?thesis
    by (metis append_take_drop_id)
qed

lemma chunk_loop_live:
  "live p0 s fl \<Longrightarrow> dl_headerDone s \<Longrightarrow> dl_chunked s \<Longrightarrow> q_cap C < unset_size \<Longrightarrow> body_ok p0 s (chunk_loop C s)"
proof (induction C s arbitrary: fl rule: chunk_loop.induct)
  case (1 C s0)
  note size = chunk_size_live [OF 1(2-5)]
  show ?case
  proof (cases "chunk_size C s0")
    case (Inl t)
    then show ?thesis
      using size by (simp add: chunk_loop.simps [of C s0])
  next
    case (Inr s)
    let ?buf = "dl_pendingBuf s"
    let ?n = "dl_chunkPending s"
    have s: "live p0 s fl" "?n < unset_size" "dl_chunked s" "dl_headerDone s" "dl_done s = dl_done s0"
      using size Inr by simp_all
    note loop = chunk_loop.simps [of C s0, unfolded Inr sum.case Let_def]
    consider (zero) "?n = 0" | (short) "?n \<noteq> 0" "length ?buf < ?n + 2"
      | (bad) "?n \<noteq> 0" "\<not> length ?buf < ?n + 2" "?buf ! ?n \<noteq> CHR 0x0D \<or> ?buf ! (?n + 1) \<noteq> CHR 0x0A"
      | (piece) "?n \<noteq> 0" "\<not> length ?buf < ?n + 2" "?buf ! ?n = CHR 0x0D" "?buf ! (?n + 1) = CHR 0x0A"
      by blast
    then show ?thesis
    proof cases
      case zero
      have "live p0 (s\<lparr>dl_pendingBuf := [], dl_chunkTerminated := True\<rparr>) fl"
        using s zero by (simp add: live_def dl_defs chunk_state_def decodes_def)
      then show ?thesis
        using zero s(4,5) 1(3) unfolding loop by (auto simp: body_ok_def live_ok)
    next
      case short
      then show ?thesis
        using s(4,5) 1(3) live_ok [OF s(1)] unfolding loop by (simp add: body_ok_def)
    next
      case bad
      then show ?thesis
        using s(4,5) 1(3) body_ok_Fail [OF s(1), of C "dl_status s" ChunkNoCRLF] unfolding loop by (auto simp: body_ok_def)
    next
      case piece
      let ?d = "take ?n ?buf"
      obtain ok t where t: "enqueue_pieces C ?d s = (ok, t)"
        by fastforce
      have w: "enqueued p0 s (fl @ ?d) ok t"
        using s by (intro enqueue_pieces_core [OF _ _ _ t]) (simp_all add: live_def)
      show ?thesis
      proof (cases ok)
        case False
        then show ?thesis
          using piece t w s(4,5) 1(3) unfolding loop by (simp add: enqueued_def body_ok_def)
      next
        case ok: True
        have core: "core_inv p0 t (fl @ ?d)" and keep: "rewrite_only s t"
          using w ok by (simp_all add: enqueued_def)
        let ?u = "t\<lparr>dl_recvBody := dl_recvBody t + ?n\<rparr>"
        let ?v = "?u\<lparr>dl_pendingBuf := drop (?n + 2) ?buf, dl_chunkPending := unset_size\<rparr>"
        have u: "core_inv p0 ?u (fl @ ?d)" "\<not> dl_finished ?u" "dl_done ?u = dl_done s0" "dl_headerDone ?u" "dl_chunked ?v"
          using core keep s by (simp_all add: rewrite_only_def live_def dl_defs)
        have split: "?buf = ?d @ CRLF @ drop (?n + 2) ?buf"
          using piece by (intro split_at_crlf) simp_all
        have len: "length ?d = ?n" "?d \<noteq> []"
          using piece by auto
        have "chunk_state (dl_raw s) (fl @ ?d) unset_size (drop (?n + 2) ?buf)"
          using s len split by (intro chunk_state_data) (simp_all add: live_def frame_inv_def del: length_take)
        moreover have "\<not> dl_chunkTerminated s"
          using s piece by (auto simp: live_def frame_inv_def)
        ultimately have v: "live p0 ?v (fl @ ?d)"
          using core keep s by (simp add: rewrite_only_def live_def dl_defs)
        show ?thesis
        proof (cases "over_quota C (dl_quotaBase ?u) (dl_recvBody ?u)")
          case True
          have "dl_ok p0 (dl_Fail C (dl_status ?u) OverQuota ?u)"
            using u by (intro Fail_ok) (simp_all add: core_inv_def)
          then show ?thesis
            using True piece t ok u 1(3) unfolding loop by (simp add: body_ok_def)
        next
          case False
          have crlf: "\<not> (?buf ! ?n \<noteq> CHR 0x0D \<or> ?buf ! (?n + 1) \<noteq> CHR 0x0A)"
            using piece by simp
          have "body_ok p0 ?v (chunk_loop C ?v)"
            using 1(1) [OF Inr refl refl piece(1,2) crlf t [symmetric] eqTrueI [OF ok] refl False v _ u(5) 1(5)] u(4) by simp
          then show ?thesis
            using False piece t ok u 1(3) unfolding loop by (simp add: body_ok_def)
        qed
      qed
    qed
  qed
qed

lemma flush_blocks_live:
  "live p0 s fl \<Longrightarrow> dl_headerDone s \<Longrightarrow> \<not> dl_chunked s \<Longrightarrow> body_ok p0 s (flush_blocks C s)"
proof (induction C s arbitrary: fl rule: flush_blocks.induct)
  case (1 C s)
  note loop = flush_blocks.simps [of C s]
  show ?case
  proof (cases "length (dl_pendingBuf s) < chunk_bytes C")
    case True
    then show ?thesis
      using body_ok_live [OF 1(2)] by (simp add: loop)
  next
    case False
    let ?d = "take (chunk_bytes C) (dl_pendingBuf s)"
    obtain ok t where t: "EnqueueWrite C ?d s = (ok, t)"
      by fastforce
    have w: "enqueued p0 s (fl @ ?d) ok t"
      using 1 by (intro EnqueueWrite_core [OF _ _ _ t]) (simp_all add: live_def)
    show ?thesis
    proof (cases ok)
      case f: False
      then show ?thesis
        using False t w unfolding loop by (simp add: enqueued_def body_ok_def)
    next
      case ok: True
      let ?u = "t\<lparr>dl_pendingBuf := drop (chunk_bytes C) (dl_pendingBuf s)\<rparr>"
      have u: "live p0 ?u (fl @ ?d)" "dl_headerDone ?u" "\<not> dl_chunked ?u" "dl_done ?u = dl_done s" "dl_headerDone ?u = dl_headerDone s"
        using w ok 1(2-4) by (auto simp: enqueued_def rewrite_only_def live_def core_inv_def frame_inv_def content_def base_def Md5CanVerify_def)
      have "body_ok p0 ?u (flush_blocks C ?u)"
        using 1(1) [OF False t [symmetric] eqTrueI [OF ok] u(1-3)] .
      then show ?thesis
        using False t ok u(4,5) unfolding loop by (simp add: body_ok_def)
    qed
  qed
qed

lemma HandleBodyData_live:
  assumes "live p0 s fl" "dl_headerDone s" "q_cap C < unset_size"
  shows "body_ok p0 s (HandleBodyData C d s)"
proof (cases "d = []")
  case True
  then show ?thesis
    using body_ok_live [OF assms(1)] by (simp add: HandleBodyData_def)
next
  case False
  have fin: "\<not> dl_finished s"
    by (rule live_core [OF assms(1)])
  let ?r = "s\<lparr>dl_raw := dl_raw s @ d\<rparr>"
  show ?thesis
  proof (cases "dl_chunked s")
    case True
    let ?c = "?r\<lparr>dl_pendingBuf := dl_pendingBuf s @ d\<rparr>"
    show ?thesis
    proof (cases "dl_chunkTerminated s")
      case t: True
      then have "chunk_loop C ?c = ?c\<lparr>dl_pendingBuf := [], dl_chunkTerminated := True\<rparr>"
        using assms(1,2) True by (subst chunk_loop.simps) (simp add: chunk_size_def live_def frame_inv_def)
      moreover have "live p0 (?c\<lparr>dl_pendingBuf := [], dl_chunkTerminated := True\<rparr>) fl"
        using assms(1,2) True t chunk_state_done [of "dl_raw s" fl "[]" d "[]"] by (auto simp: live_def dl_defs)
      ultimately show ?thesis
        using False fin True by (auto simp: HandleBodyData_def body_ok_def live_ok)
    next
      case t: False
      have "live p0 ?c fl" "dl_headerDone ?c" "dl_chunked ?c"
        using assms(1,2) True t by (simp_all add: live_def dl_defs chunk_state_receive)
      then show ?thesis
        using chunk_loop_live [of p0 ?c fl C] False fin True assms(3) by (simp add: HandleBodyData_def body_ok_def)
    qed
  next
    case plain: False
    let ?n = "?r\<lparr>dl_recvBody := dl_recvBody s + length d\<rparr>"
    let ?v = "?n\<lparr>dl_pendingBuf := dl_pendingBuf s @ d\<rparr>"
    have fail: "dl_ok p0 (dl_Fail C (dl_status s) why ?n)" for why
      using assms(1) by (intro Fail_ok) (simp_all add: live_def core_inv_def)
    consider (long) "dl_hasContentLength s \<and> dl_contentLength s < dl_recvBody s + length d"
      | (quota) "\<not> (dl_hasContentLength s \<and> dl_contentLength s < dl_recvBody s + length d)" "over_quota C (dl_quotaBase s) (dl_recvBody s + length d)"
      | (fine) "\<not> (dl_hasContentLength s \<and> dl_contentLength s < dl_recvBody s + length d)" "\<not> over_quota C (dl_quotaBase s) (dl_recvBody s + length d)"
      by blast
    then show ?thesis
    proof cases
      case fine
      have "live p0 ?v fl" "dl_headerDone ?v" "\<not> dl_chunked ?v"
        using assms(1,2) plain fine by (auto simp: live_def dl_defs)
      then show ?thesis
        using flush_blocks_live [of p0 ?v fl C] False fin plain fine by (auto simp: HandleBodyData_def body_ok_def Let_def)
    qed (use False fin plain fail in \<open>simp_all add: HandleBodyData_def body_ok_def Let_def\<close>)
  qed
qed

text \<open>A response is complete when its framing says so, or when the connection has closed on one without a length.\<close>

definition complete :: "dl \<Rightarrow> bool" where
  "complete s \<longleftrightarrow> dl_headerDone s \<and> (if dl_chunked s then dl_chunkTerminated s
     else (dl_hasContentLength s \<longrightarrow> dl_contentLength s \<le> dl_recvBody s))"

lemma Complete_live:
  assumes "live p0 s fl" "complete s"
  shows "dl_ok p0 (dl_Complete C s)" "dl_done (dl_Complete C s) = dl_done s"
proof -
  let ?body = "fl @ dl_pendingBuf s"
  have fr: "framed s ?body"
  proof (cases "dl_chunked s")
    case True
    then have "chunk_state (dl_raw s) fl 0 (dl_pendingBuf s)" "dl_pendingBuf s = []"
      using assms by (auto simp: live_def frame_inv_def complete_def)
    then show ?thesis
      using True by (auto simp: framed_def intro: chunk_state_end)
  next
    case False
    then show ?thesis
      using assms by (auto simp: framed_def live_def frame_inv_def complete_def)
  qed
  let ?q = "dl_queue s @ (if dl_pendingBuf s = [] then [] else [WriteData (dl_pendingBuf s)])"
  have q: "dl_queue (dl_Complete C s) = ?q @ [FinishFile (length (base p0 s @ ?body))]"
    using assms(1) by (simp add: dl_Complete_def EnqueueAction_def live_def core_inv_def Let_def)
  have keep: "base p0 (dl_Complete C s) = base p0 s" "framed (dl_Complete C s) = framed s" "dl_part (dl_Complete C s) = dl_part s"
    "dl_headerDone (dl_Complete C s) = dl_headerDone s" "dl_status (dl_Complete C s) = dl_status s"
    "dl_contentRangeFirst (dl_Complete C s) = dl_contentRangeFirst s" "dl_resumedFrom (dl_Complete C s) = dl_resumedFrom s"
    "Md5CanVerify (dl_Complete C s) = Md5CanVerify s" "dl_md5Broken (dl_Complete C s) = dl_md5Broken s"
    "dl_hash (dl_Complete C s) = dl_hash s" "dl_finished (dl_Complete C s)"
    using assms(1) by (auto simp: dl_Complete_def EnqueueAction_def live_def dl_defs Let_def fun_eq_iff)
  have "list_all (\<lambda>a. \<not> is_terminal a) ?q" "exec ?q (dl_part s) = base p0 s @ ?body" "writes_of ?q = writes_of (dl_queue s) @ dl_pendingBuf s"
    using assms(1) by (auto simp: live_def core_inv_def content_def)
  then have "end_inv p0 (dl_Complete C s)"
    unfolding end_inv_def q keep using fr assms
    by (intro exI [of _ ?q] exI [of _ "FinishFile (length (base p0 s @ ?body))"])
       (auto simp: live_def core_inv_def complete_def intro!: exI [of _ ?body])
  then show "dl_ok p0 (dl_Complete C s)"
    using keep by (simp add: dl_ok_def)
  show "dl_done (dl_Complete C s) = dl_done s"
    by (simp add: dl_Complete_def EnqueueAction_def Let_def)
qed

lemma EnqueueAction_stopped [simp]: "dl_writerStop (snd (EnqueueAction C a force s)) = dl_writerStop s"
  "dl_done (snd (EnqueueAction C a force s)) = dl_done s" "dl_sent (snd (EnqueueAction C a force s)) = dl_sent s"
  "dl_strip (snd (EnqueueAction C a force s)) = dl_strip s" "dl_tgt (snd (EnqueueAction C a force s)) = dl_tgt s"
  by (auto simp: EnqueueAction_def)

lemma CheckComplete_ok:
  assumes "dl_ok p0 s" "dl_headerDone s"
  shows "dl_ok p0 (CheckComplete C s)" "dl_done (CheckComplete C s) = dl_done s"
proof -
  show "dl_done (CheckComplete C s) = dl_done s"
    by (simp add: CheckComplete_def dl_Complete_def Let_def)
  show "dl_ok p0 (CheckComplete C s)"
  proof (cases "CheckComplete C s = s \<or> dl_writerStop s")
    case True
    then show ?thesis
    proof
      assume "dl_writerStop s"
      then show ?thesis
        by (auto simp: dl_ok_def CheckComplete_def dl_Complete_def Let_def)
    qed (use assms in simp)
  next
    case False
    then have "\<not> dl_finished s" "complete s" "CheckComplete C s = dl_Complete C s"
      using assms(2) by (auto simp: CheckComplete_def complete_def split: if_splits)
    moreover from this(1) obtain fl where "live p0 s fl"
      using assms(1) False by (auto simp: dl_ok_def)
    ultimately show ?thesis
      using Complete_live by simp
  qed
qed

section \<open>The header of a response\<close>

text \<open>Nothing of the body of a response has been seen.\<close>

definition fresh :: "string \<Rightarrow> dl \<Rightarrow> bool" where
  "fresh p0 s \<longleftrightarrow> \<not> dl_finished s \<and> \<not> dl_writerStop s \<and> content s = take (dl_resumedFrom s) p0 \<and> dl_resumedFrom s \<le> length p0
     \<and> dl_cursor s = length (content s) \<and> list_all (\<lambda>a. \<not> is_terminal a) (dl_queue s) \<and> writes_of (dl_queue s) = []
     \<and> hashed s = [] \<and> dl_raw s = [] \<and> dl_pendingBuf s = [] \<and> dl_recvBody s = 0 \<and> dl_chunkPending s = unset_size
     \<and> \<not> dl_chunkTerminated s"

lemma fresh_iff: "\<not> dl_headerDone s \<Longrightarrow> live p0 s fl \<longleftrightarrow> fresh p0 s \<and> fl = []"
  by (auto simp: live_def fresh_def core_inv_def frame_inv_def base_def)

lemma fresh_Fail: "fresh p0 s \<Longrightarrow> dl_ok p0 (dl_Fail C st why s)"
  by (intro Fail_ok) (simp_all add: fresh_def)

lemma fresh_ok: "fresh p0 s \<Longrightarrow> \<not> dl_headerDone s \<Longrightarrow> dl_ok p0 s"
  by (auto simp: dl_ok_def fresh_iff fresh_def)

text \<open>The reading of the lines sets fields of the response only.\<close>

definition lines_ok :: "string \<Rightarrow> dl \<Rightarrow> dl + (nat \<times> dl) \<Rightarrow> bool" where
  "lines_ok p0 s r \<longleftrightarrow>
    (case r of Inl t \<Rightarrow> dl_ok p0 t \<and> dl_finished t \<and> dl_done t = dl_done s
     | Inr (n, t) \<Rightarrow> fresh p0 t \<and> dl_headerDone t = dl_headerDone s \<and> dl_done t = dl_done s)"

lemma apply_header_ok: "fresh p0 s \<Longrightarrow> lines_ok p0 s (apply_header C key val (n, s))"
  using fresh_Fail [of p0 s C] by (simp add: apply_header_def lines_ok_def fresh_def content_def split: if_splits)

lemma apply_lines_ok: "fresh p0 s \<Longrightarrow> lines_ok p0 s (apply_lines C ls (n, s))"
proof (induction ls arbitrary: n s)
  case Nil
  then show ?case
    by (simp add: lines_ok_def)
next
  case (Cons l ls)
  let ?r = "apply_header C (ToLowerCopy (dl_Trim (takeWhile (\<lambda>c. c \<noteq> CHR '':'') l))) (dl_Trim (tl (dropWhile (\<lambda>c. c \<noteq> CHR '':'') l))) (n, s)"
  have "lines_ok p0 s ?r"
    by (rule apply_header_ok [OF Cons(2)])
  moreover have "lines_ok p0 s (apply_lines C ls (m, u))" if "fresh p0 u" "dl_headerDone u = dl_headerDone s" "dl_done u = dl_done s" for m u
    using Cons(1) [OF that(1), of m] that(2,3) by (simp add: lines_ok_def split: sum.splits prod.splits)
  ultimately show ?case
    using Cons by (cases ?r) (simp_all add: lines_ok_def [of p0 s "Inl _"] lines_ok_def [of p0 s "Inr _"] split: prod.splits)
qed

lemma BeginConnect_fresh: "fresh p0 s \<Longrightarrow> fresh p0 (BeginConnect s)" "dl_done (BeginConnect s) = dl_done s"
  "dl_headerDone (BeginConnect s) = dl_headerDone s" "dl_finished (BeginConnect s) = dl_finished s"
  by (simp_all add: fresh_def BeginConnect_def content_def)

lemma ResetResponseState_fresh: "fresh p0 s \<Longrightarrow> fresh p0 (ResetResponseState s)" "dl_done (ResetResponseState s) = dl_done s"
  "\<not> dl_headerDone (ResetResponseState s)" "dl_finished (ResetResponseState s) = dl_finished s"
  by (simp_all add: fresh_def ResetResponseState_def content_def)

lemma RestartOnce_ok:
  assumes "fresh p0 s"
  shows "dl_ok p0 (RestartOnce C s)" "dl_done (RestartOnce C s) = dl_done s"
proof -
  let ?r = "ResetResponseState (s\<lparr>dl_restartUsed := True\<rparr>)"
  let ?u = "(EnqueueTruncate C (?r\<lparr>dl_metaEtag := [], dl_metaLm := []\<rparr>))\<lparr>dl_resumedFrom := 0, dl_cursor := 0\<rparr>"
  have "fresh p0 ?u" "\<not> dl_headerDone ?u" "dl_done ?u = dl_done s"
    using assms by (simp_all add: fresh_def EnqueueTruncate_def EnqueueAction_def ResetResponseState_def content_def)
  then show "dl_ok p0 (RestartOnce C s)" "dl_done (RestartOnce C s) = dl_done s"
    using fresh_Fail [OF assms] fresh_ok BeginConnect_fresh(1) [of p0 ?u] BeginConnect_fresh(2-4) [of ?u] by (simp_all add: RestartOnce_def Let_def)
qed

lemma FollowRedirect_ok:
  assumes "fresh p0 s"
  shows "dl_ok p0 (FollowRedirect C s)" "dl_done (FollowRedirect C s) = dl_done s"
proof -
  let ?u = "\<lambda>u t. s\<lparr>dl_redirectsUsed := dl_redirectsUsed s + 1, dl_strip := dl_strip s \<or> other_target t (dl_tgt s), dl_tgt := t, dl_url := u\<rparr>"
  have "fresh p0 (?u u t)" for u t
    using assms by (simp add: fresh_def content_def)
  then have "dl_ok p0 (BeginConnect (ResetResponseState (?u u t)))" for u t
    using BeginConnect_fresh(1) ResetResponseState_fresh(1) by (intro fresh_ok) (simp_all add: BeginConnect_fresh ResetResponseState_fresh)
  then show "dl_ok p0 (FollowRedirect C s)" "dl_done (FollowRedirect C s) = dl_done s"
    using fresh_Fail [OF assms]
    by (auto simp: FollowRedirect_def Let_def BeginConnect_fresh ResetResponseState_fresh split: option.splits)
qed

lemma WriteMeta_live: "live p0 s fl \<Longrightarrow> live p0 (EnqueueWriteMeta C s) fl"
proof -
  assume live: "live p0 s fl"
  have "live p0 (s\<lparr>dl_qBytes := dl_qBytes s + length d, dl_queue := dl_queue s @ [WriteMeta d], dl_lastActivity := dl_now s\<rparr>) fl" for d
    using live by (auto simp: live_def dl_defs)
  then show ?thesis
    using live by (auto simp: EnqueueWriteMeta_def EnqueueAction_def live_def [of p0 s] split: option.split)
qed

lemma WriteMeta_fields: "dl_done (EnqueueWriteMeta C s) = dl_done s" "dl_writerStop (EnqueueWriteMeta C s) = dl_writerStop s"
  "dl_sent (EnqueueWriteMeta C s) = dl_sent s" "dl_strip (EnqueueWriteMeta C s) = dl_strip s" "dl_tgt (EnqueueWriteMeta C s) = dl_tgt s"
  "dl_cursor (EnqueueWriteMeta C s) = dl_cursor s" "dl_resumedFrom (EnqueueWriteMeta C s) = dl_resumedFrom s"
  by (simp_all add: EnqueueWriteMeta_def EnqueueAction_def split: option.split)

lemma branch_status_ok:
  assumes "fresh p0 s" "dl_headerDone s" "\<not> (dl_hasContentLength s \<and> dl_chunked s)"
  shows "dl_ok p0 (branch_status C s)" "dl_done (branch_status C s) = dl_done s"
proof -
  have keep: "dl_done (branch_status C s) = dl_done s"
    using RestartOnce_ok(2) [OF assms(1)] FollowRedirect_ok(2) [OF assms(1)]
    by (simp add: branch_status_def WriteMeta_fields EnqueueTruncate_def Let_def)
  have cursor: "length (take (dl_resumedFrom s) p0) = dl_resumedFrom s"
    using assms(1) by (simp add: fresh_def)
  consider (ok) "dl_status s = 200" | (part) "dl_status s = 206" "dl_hasContentRange s" "dl_hasContentLength s" "dl_contentRangeFirst s = dl_resumedFrom s"
    | (odd) "dl_status s \<noteq> 200" "dl_status s \<noteq> 206" "200 \<le> dl_status s" "dl_status s < 300"
    | (other) "dl_status s \<noteq> 200" "dl_status s = 206 \<Longrightarrow> \<not> (dl_hasContentRange s \<and> dl_hasContentLength s \<and> dl_contentRangeFirst s = dl_resumedFrom s)"
        "dl_status s = 206 \<or> \<not> (200 \<le> dl_status s \<and> dl_status s < 300)"
    by (cases "dl_status s = 200"; cases "dl_status s = 206"; cases "200 \<le> dl_status s \<and> dl_status s < 300") blast+
  then have "dl_ok p0 (branch_status C s)"
  proof cases
    case ok
    let ?t = "if 0 < dl_resumedFrom s then (EnqueueTruncate C s)\<lparr>dl_cursor := 0\<rparr> else s"
    have "live p0 ?t []"
      using assms ok by (simp add: fresh_def live_def dl_defs EnqueueTruncate_def EnqueueAction_def chunk_state_start)
    then have "live p0 (EnqueueWriteMeta C ?t) []"
      by (rule WriteMeta_live)
    then show ?thesis
      using ok by (auto simp: branch_status_def intro: live_ok)
  next
    case part
    have "live p0 s []" "dl_cursor s = dl_resumedFrom s"
      using assms part cursor by (simp_all add: fresh_def live_def dl_defs)
    then have "live p0 (EnqueueWriteMeta C s) []" "(EnqueueWriteMeta C s)\<lparr>dl_cursor := dl_resumedFrom s\<rparr> = EnqueueWriteMeta C s"
      using WriteMeta_live WriteMeta_fields(6) [of C s] by (auto intro: dl.equality)
    then show ?thesis
      using part by (auto simp: branch_status_def Let_def WriteMeta_fields intro: live_ok)
  next
    case odd
    then have "live p0 s []"
      using assms by (simp add: fresh_def live_def dl_defs chunk_state_start)
    then show ?thesis
      using odd by (auto simp: branch_status_def intro: live_ok)
  next
    case other
    then show ?thesis
      using RestartOnce_ok(1) [OF assms(1)] FollowRedirect_ok(1) [OF assms(1)] fresh_Fail [OF assms(1)]
      by (auto simp: branch_status_def)
  qed
  then show "dl_ok p0 (branch_status C s)" "dl_done (branch_status C s) = dl_done s"
    using keep by simp_all
qed

lemma after_lines_ok:
  assumes "fresh p0 s"
  shows "dl_ok p0 (after_lines C n s)" "dl_done (after_lines C n s) = dl_done s"
proof -
  let ?t = "s\<lparr>dl_headerDone := True, dl_quotaBase := (if dl_status s = 206 then dl_resumedFrom s else 0)\<rparr>"
  have t: "fresh p0 ?t" "dl_headerDone ?t"
    using assms by (simp_all add: fresh_def content_def)
  show "dl_ok p0 (after_lines C n s)" "dl_done (after_lines C n s) = dl_done s"
    using fresh_Fail [OF assms] fresh_Fail [OF t(1)] branch_status_ok [OF t, of C] by (auto simp: after_lines_def Let_def)
qed

lemma ProcessHeaderData_ok:
  assumes "fresh p0 s" "\<not> dl_headerDone s"
  shows "dl_ok p0 (ProcessHeaderData C h s)" "dl_done (ProcessHeaderData C h s) = dl_done s"
proof -
  have t: "fresh p0 (s\<lparr>dl_status := c\<rparr>)" "\<not> dl_headerDone (s\<lparr>dl_status := c\<rparr>)" for c
    using assms by (simp_all add: fresh_def content_def)
  have lines: "lines_ok p0 (s\<lparr>dl_status := c\<rparr>) (apply_lines C ls (0, s\<lparr>dl_status := c\<rparr>))" for c ls
    by (rule apply_lines_ok [OF t(1)])
  have step: "dl_ok p0 (case apply_lines C ls (0, s\<lparr>dl_status := c\<rparr>) of Inl s \<Rightarrow> s | Inr (n, s) \<Rightarrow> after_lines C n s)"
    "dl_done (case apply_lines C ls (0, s\<lparr>dl_status := c\<rparr>) of Inl s \<Rightarrow> s | Inr (n, s) \<Rightarrow> after_lines C n s) = dl_done s" for c ls
    using lines [of c ls] by (auto simp: lines_ok_def after_lines_ok split: sum.splits prod.splits)
  show "dl_ok p0 (ProcessHeaderData C h s)" "dl_done (ProcessHeaderData C h s) = dl_done s"
    unfolding ProcessHeaderData_def Let_def
    using step fresh_ok [OF t] fresh_Fail [OF assms(1)] by (simp_all split: option.splits prod.splits)
qed

section \<open>Steps\<close>

text \<open>The loop neither delivers a result nor stops the writer; requests are sent when a connection opens only; the sensitive
  headers are stripped before the target becomes another one.\<close>

definition loop_kept :: "dl \<Rightarrow> dl \<Rightarrow> bool" where
  "loop_kept s t \<longleftrightarrow> dl_done t = dl_done s \<and> dl_writerStop t = dl_writerStop s \<and> dl_sent t = dl_sent s
     \<and> (dl_strip s \<longrightarrow> dl_strip t) \<and> (other_target (dl_tgt t) (dl_tgt s) \<longrightarrow> dl_strip t)"

lemma other_target_refl [simp]: "\<not> other_target t t"
  by (simp add: other_target_def)

lemma Fail_trail [simp]: "dl_sent (dl_Fail C st why s) = dl_sent s" "dl_strip (dl_Fail C st why s) = dl_strip s"
  "dl_tgt (dl_Fail C st why s) = dl_tgt s"
  by (auto simp: dl_Fail_def EnqueueAction_def)

lemma kept_Fail [simp]: "loop_kept s (dl_Fail C st why t) = loop_kept s t"
  by (simp add: loop_kept_def)

lemma kept_trans: "loop_kept s t \<Longrightarrow> loop_kept t u \<Longrightarrow> loop_kept s u"
  by (auto simp: loop_kept_def other_target_def)

lemma kept_refl [simp]: "loop_kept s s"
  by (simp add: loop_kept_def)

lemma kept_EnqueueWrite: "EnqueueWrite C d s = (ok, t) \<Longrightarrow> loop_kept s t"
  by (auto simp: EnqueueWrite_def EnqueueAction_def loop_kept_def split: if_splits)

lemma kept_pieces: "enqueue_pieces C d s = (ok, t) \<Longrightarrow> loop_kept s t"
proof (induction C d s rule: enqueue_pieces.induct)
  case (1 C d s)
  obtain k u where u: "EnqueueWrite C (take (min (length d) (chunk_bytes C)) d) s = (k, u)"
    by fastforce
  have "loop_kept u t \<Longrightarrow> loop_kept s t"
    by (rule kept_trans [OF kept_EnqueueWrite [OF u]])
  then show ?case
    using 1 u kept_EnqueueWrite [OF u] by (cases k) (auto simp: enqueue_pieces.simps [of C d s] Let_def split: if_splits)
qed

lemma kept_chunk_size: "chunk_size C s = Inl t \<Longrightarrow> loop_kept s t" "chunk_size C s = Inr t \<Longrightarrow> loop_kept s t"
  by (auto simp: chunk_size_def Let_def loop_kept_def split: if_splits option.splits)

lemma kept_chunk_loop: "loop_kept s (chunk_loop C s)"
proof (induction C s rule: chunk_loop.induct)
  case (1 C s0)
  show ?case
  proof (cases "chunk_size C s0")
    case (Inl t)
    then show ?thesis
      using kept_chunk_size by (simp add: chunk_loop.simps [of C s0])
  next
    case (Inr s)
    note s = kept_chunk_size(2) [OF Inr]
    note loop = chunk_loop.simps [of C s0, unfolded Inr sum.case Let_def]
    obtain ok t where t: "enqueue_pieces C (take (dl_chunkPending s) (dl_pendingBuf s)) s = (ok, t)"
      by fastforce
    have st: "loop_kept s0 t"
      using s kept_pieces [OF t] by (rule kept_trans)
    let ?u = "t\<lparr>dl_recvBody := dl_recvBody t + dl_chunkPending s\<rparr>"
    let ?v = "?u\<lparr>dl_pendingBuf := drop (dl_chunkPending s + 2) (dl_pendingBuf s), dl_chunkPending := unset_size\<rparr>"
    have v: "loop_kept s0 ?v" "loop_kept s0 ?u"
      using st by (simp_all add: loop_kept_def)
    have IH: "loop_kept s0 (chunk_loop C ?v)"
      if "dl_chunkPending s \<noteq> 0" "\<not> length (dl_pendingBuf s) < dl_chunkPending s + 2"
        "\<not> (dl_pendingBuf s ! dl_chunkPending s \<noteq> CHR 0x0D \<or> dl_pendingBuf s ! (dl_chunkPending s + 1) \<noteq> CHR 0x0A)" "ok"
        "\<not> over_quota C (dl_quotaBase ?u) (dl_recvBody ?u)"
      using 1 [OF Inr refl refl that(1-3) t [symmetric] eqTrueI [OF that(4)] refl that(5)] by (rule kept_trans [OF v(1)])
    have "loop_kept s0 (s\<lparr>dl_pendingBuf := [], dl_chunkTerminated := True\<rparr>)"
      using s by (simp add: loop_kept_def)
    then show ?thesis
      using IH s st v(2) unfolding loop t by (cases ok) simp_all
  qed
qed

lemma kept_flush_blocks: "loop_kept s (flush_blocks C s)"
proof (induction C s rule: flush_blocks.induct)
  case (1 C s)
  obtain ok t where t: "EnqueueWrite C (take (chunk_bytes C) (dl_pendingBuf s)) s = (ok, t)"
    by fastforce
  have "loop_kept s (flush_blocks C (t\<lparr>dl_pendingBuf := drop (chunk_bytes C) (dl_pendingBuf s)\<rparr>))"
    if "\<not> length (dl_pendingBuf s) < chunk_bytes C" ok
  proof (rule kept_trans)
    show "loop_kept s (t\<lparr>dl_pendingBuf := drop (chunk_bytes C) (dl_pendingBuf s)\<rparr>)"
      using kept_EnqueueWrite [OF t] by (simp add: loop_kept_def)
    show "loop_kept (t\<lparr>dl_pendingBuf := drop (chunk_bytes C) (dl_pendingBuf s)\<rparr>) (flush_blocks C (t\<lparr>dl_pendingBuf := drop (chunk_bytes C) (dl_pendingBuf s)\<rparr>))"
      by (rule 1 [OF that(1) t [symmetric] eqTrueI [OF that(2)]])
  qed
  then show ?case
    using kept_EnqueueWrite [OF t] t by (cases ok) (simp_all add: flush_blocks.simps [of C s])
qed

lemma kept_upd: "loop_kept t u \<Longrightarrow> dl_done t = dl_done s \<Longrightarrow> dl_writerStop t = dl_writerStop s \<Longrightarrow> dl_sent t = dl_sent s
  \<Longrightarrow> dl_strip t = dl_strip s \<Longrightarrow> dl_tgt t = dl_tgt s \<Longrightarrow> loop_kept s u"
  by (simp add: loop_kept_def)

lemma kept_HandleBodyData: "loop_kept s (HandleBodyData C d s)"
proof -
  let ?r = "s\<lparr>dl_raw := dl_raw s @ d\<rparr>"
  let ?n = "?r\<lparr>dl_recvBody := dl_recvBody s + length d\<rparr>"
  have "loop_kept s (chunk_loop C (?r\<lparr>dl_pendingBuf := dl_pendingBuf s @ d\<rparr>))" "loop_kept s (flush_blocks C (?n\<lparr>dl_pendingBuf := dl_pendingBuf s @ d\<rparr>))"
    by (rule kept_upd [OF kept_chunk_loop]; simp) (rule kept_upd [OF kept_flush_blocks]; simp)
  moreover have "loop_kept s ?n"
    by (simp add: loop_kept_def)
  ultimately show ?thesis
    by (simp add: HandleBodyData_def Let_def)
qed

lemma kept_CheckComplete: "loop_kept s (CheckComplete C s)"
  by (simp add: CheckComplete_def dl_Complete_def Let_def loop_kept_def)

definition kept_lines :: "dl \<Rightarrow> dl + (nat \<times> dl) \<Rightarrow> bool" where
  "kept_lines s r \<longleftrightarrow> (case r of Inl t \<Rightarrow> loop_kept s t | Inr nt \<Rightarrow> loop_kept s (snd nt))"

lemma kept_apply_header: "kept_lines s (apply_header C k v (n, s))"
  by (simp add: apply_header_def kept_lines_def loop_kept_def split: if_splits)

lemma kept_apply_lines: "kept_lines s (apply_lines C ls (n, s))"
proof (induction ls arbitrary: n s)
  case Nil
  then show ?case
    by (simp add: kept_lines_def loop_kept_def)
next
  case (Cons l ls)
  let ?r = "apply_header C (ToLowerCopy (dl_Trim (takeWhile (\<lambda>c. c \<noteq> CHR '':'') l))) (dl_Trim (tl (dropWhile (\<lambda>c. c \<noteq> CHR '':'') l))) (n, s)"
  have r: "kept_lines s ?r"
    by (rule kept_apply_header)
  have "loop_kept s u \<Longrightarrow> kept_lines s (apply_lines C ls (m, u))" for m u
    using Cons [where s = u and n = m] kept_trans [of s u] by (auto simp: kept_lines_def split: sum.splits)
  then show ?case
    using Cons [where s = s and n = n] r by (cases ?r) (auto simp: kept_lines_def [of s "Inl _"] kept_lines_def [of s "Inr _"])
qed

lemma kept_branch_status: "loop_kept s (branch_status C s)"
  by (auto simp: branch_status_def WriteMeta_fields EnqueueTruncate_def RestartOnce_def FollowRedirect_def BeginConnect_def
      ResetResponseState_def Let_def loop_kept_def split: option.splits)

lemma kept_after_lines: "loop_kept s (after_lines C n s)"
  using kept_branch_status [where s = "s\<lparr>dl_headerDone := True, dl_quotaBase := (if dl_status s = 206 then dl_resumedFrom s else 0)\<rparr>" and C = C]
  by (auto simp: after_lines_def Let_def loop_kept_def)

lemma kept_ProcessHeaderData: "loop_kept s (ProcessHeaderData C h s)"
proof -
  have "loop_kept s (case apply_lines C ls (0, s\<lparr>dl_status := c\<rparr>) of Inl t \<Rightarrow> t | Inr (n, t) \<Rightarrow> after_lines C n t)" for ls c
    using kept_apply_lines [where C = C and ls = ls and n = 0 and s = "s\<lparr>dl_status := c\<rparr>"]
      kept_upd [OF kept_trans [OF _ kept_after_lines], of "s\<lparr>dl_status := c\<rparr>" _ s] kept_upd [of "s\<lparr>dl_status := c\<rparr>" _ s]
    by (auto simp: kept_lines_def split: sum.splits prod.splits)
  then show ?thesis
    by (auto simp: ProcessHeaderData_def Let_def loop_kept_def split: option.splits prod.splits)
qed

text \<open>The rest of a segment after its header, and the body.\<close>

definition body_part :: "dl_config \<Rightarrow> string \<Rightarrow> dl \<Rightarrow> dl" where
  "body_part C rest s =
    (if dl_finished s \<or> \<not> dl_headerDone s then s
     else let t = (if rest \<noteq> [] then HandleBodyData C rest (s\<lparr>dl_input := []\<rparr>) else s) in
       if dl_finished t then t else CheckComplete C t)"

lemma OnRecv_eq:
  "OnRecv C d s =
    (let s = s\<lparr>dl_lastActivity := dl_now s, dl_input := dl_input s @ d\<rparr> in
     if dl_input s = [] then s
     else if \<not> dl_headerDone s then
       (case cut_text (CRLF @ CRLF) (dl_input s) of
          None \<Rightarrow> if 256 * 1024 < length (dl_input s) then dl_Fail C 0 HeaderTooLong s else s
        | Some (h, rest) \<Rightarrow>
            let t = ProcessHeaderData C (h @ CRLF @ CRLF) s in
            if dl_thrown t then t else body_part C rest (if dl_epoch t = dl_epoch s then t\<lparr>dl_input := rest\<rparr> else t))
     else if dl_finished s then let t = HandleBodyData C (dl_input s) (s\<lparr>dl_input := []\<rparr>) in if dl_finished t then t else CheckComplete C t
     else body_part C (dl_input s) s)"
  by (simp add: OnRecv_def body_part_def Let_def split: option.splits prod.splits)

lemma kept_body_part: "loop_kept s (body_part C x s)"
proof -
  have h: "loop_kept s (HandleBodyData C x (s\<lparr>dl_input := []\<rparr>))"
    using kept_HandleBodyData [where s = "s\<lparr>dl_input := []\<rparr>" and C = C and d = x] by (simp add: loop_kept_def)
  moreover have "loop_kept s (CheckComplete C t)" if "loop_kept s t" for t
    using that kept_CheckComplete by (rule kept_trans)
  moreover have "loop_kept s s"
    by (simp add: loop_kept_def)
  ultimately show ?thesis
    by (simp add: body_part_def Let_def)
qed

lemma kept_OnRecv:
  assumes "\<not> dl_finished s"
  shows "loop_kept s (OnRecv C d s)"
proof -
  let ?s = "s\<lparr>dl_lastActivity := dl_now s, dl_input := dl_input s @ d\<rparr>"
  have p: "loop_kept s (ProcessHeaderData C h ?s)" for h
    using kept_ProcessHeaderData [where s = ?s and C = C and h = h] by (simp add: loop_kept_def)
  have b: "loop_kept s (body_part C x t)" if "loop_kept s t" for x t
    using that kept_body_part by (rule kept_trans)
  have b': "loop_kept s (body_part C x (if c then (ProcessHeaderData C h ?s)\<lparr>dl_input := x\<rparr> else ProcessHeaderData C h ?s))" for c h x
    by (rule b) (use p [of h] in \<open>simp add: loop_kept_def\<close>)
  have i: "loop_kept s ?s" "loop_kept s (body_part C x ?s)" "loop_kept s (s\<lparr>dl_lastActivity := dl_now s, dl_input := []\<rparr>)" for x
    using b [of ?s] by (simp_all add: loop_kept_def)
  show ?thesis
    unfolding OnRecv_eq Let_def using assms i b' p by (simp split: option.splits prod.splits)
qed

lemma body_part_ok:
  assumes "dl_ok p0 s" "q_cap C < unset_size" "\<not> dl_writerStop s"
  shows "dl_ok p0 (body_part C x s)"
proof (cases "dl_finished s \<or> \<not> dl_headerDone s")
  case True
  then show ?thesis
    using assms(1) by (simp add: body_part_def)
next
  case False
  then obtain fl where fl: "live p0 (s\<lparr>dl_input := []\<rparr>) fl"
    using assms by (auto simp: dl_ok_def)
  have "dl_ok p0 (HandleBodyData C x (s\<lparr>dl_input := []\<rparr>))" "dl_headerDone (HandleBodyData C x (s\<lparr>dl_input := []\<rparr>))"
    using HandleBodyData_live [OF fl, of C x] False assms(2) by (simp_all add: body_ok_def)
  then show ?thesis
    using False assms(1) CheckComplete_ok(1) by (simp add: body_part_def Let_def)
qed

lemma OnRecv_ok:
  assumes "live p0 s fl" "q_cap C < unset_size"
  shows "dl_ok p0 (OnRecv C d s)"
proof -
  let ?s = "s\<lparr>dl_lastActivity := dl_now s, dl_input := dl_input s @ d\<rparr>"
  have s: "live p0 ?s fl" "\<not> dl_finished s" "\<not> dl_writerStop s"
    using assms(1) by (simp_all add: live_core)
  show ?thesis
  proof (cases "dl_headerDone s")
    case True
    then show ?thesis
      using s live_ok [OF s(1)] body_part_ok [OF live_ok [OF s(1)] assms(2)] unfolding OnRecv_eq Let_def by simp
  next
    case False
    then have fr: "fresh p0 ?s" "\<not> dl_headerDone ?s"
      using s(1) fresh_iff [of ?s p0 fl] by simp_all
    have h: "dl_ok p0 (ProcessHeaderData C h ?s)" "\<not> dl_writerStop (ProcessHeaderData C h ?s)" for h
      using ProcessHeaderData_ok(1) [OF fr] kept_ProcessHeaderData [where s = ?s and C = C and h = h] s(3) by (simp_all add: loop_kept_def)
    then have "dl_ok p0 (body_part C x (if c then (ProcessHeaderData C h ?s)\<lparr>dl_input := x\<rparr> else ProcessHeaderData C h ?s))" for c h x
      using assms(2) by (intro body_part_ok) simp_all
    then show ?thesis
      using False live_ok [OF s(1)] Fail_live [OF s(1)] h(1) unfolding OnRecv_eq Let_def by (simp split: option.splits prod.splits)
  qed
qed

text \<open>The state of a session, finished or not.\<close>

definition delivered :: "dl_config \<Rightarrow> string \<Rightarrow> dl \<Rightarrow> dl_result \<Rightarrow> bool" where
  "delivered C p0 s r \<longleftrightarrow> dl_headerDone s \<and> 200 \<le> dl_status s \<and> dl_status s < 300 \<and> dr_status r = dl_status s
     \<and> (dl_status s = 206 \<longrightarrow> dl_contentRangeFirst s = dl_resumedFrom s)
     \<and> (\<exists>body. dl_dest s = Some (base p0 s @ body) \<and> dr_written r = length (base p0 s @ body) \<and> framed s body
        \<and> (Md5CanVerify s \<and> \<not> dl_md5Broken s \<longrightarrow> dc_md5 C body = dl_Base64Decode (dl_respMd5 s)))"

definition sess_inv :: "dl_config \<Rightarrow> string \<Rightarrow> dl \<Rightarrow> bool" where
  "sess_inv C p0 s \<longleftrightarrow>
    (case dl_done s of None \<Rightarrow> dl_ok p0 s | Some r \<Rightarrow> dl_finished s \<and> (dr_ok r \<longrightarrow> delivered C p0 s r))"

definition failed :: "dl \<Rightarrow> bool" where
  "failed s \<longleftrightarrow> dl_finished s \<and> (case dl_done s of None \<Rightarrow> False | Some r \<Rightarrow> \<not> dr_ok r)"

lemma failed_inv: "failed s \<Longrightarrow> sess_inv C p0 s"
  by (auto simp: failed_def sess_inv_def split: option.splits)

lemma failed_writer [simp]: "dl_done s = None \<Longrightarrow> failed (WriterFail e s)" "dl_done s = None \<Longrightarrow> failed (AbortPath why s)"
  by (simp_all add: failed_def WriterFail_def AbortPath_def Deliver_def)

lemma failed_finish: "dl_done s = None \<Longrightarrow> io \<noteq> IoOk \<Longrightarrow> failed (FinishOk io n s)"
  by (simp add: failed_def FinishOk_def Deliver_def Let_def)

text \<open>An action on the file, as the queue foresees it.\<close>

definition acted :: "dl_action \<Rightarrow> dl \<Rightarrow> dl \<Rightarrow> bool" where
  "acted a s t \<longleftrightarrow> dl_part t = exec_action (dl_part s) a
     \<and> (hashed t = hashed s @ writes_of [a] \<or> hashed t = hashed s \<and> (Md5CanVerify s \<longrightarrow> dl_md5Broken t))
     \<and> (dl_md5Broken s \<longrightarrow> dl_md5Broken t)
     \<and> t = s\<lparr>dl_part := dl_part t, dl_hash := dl_hash t, dl_md5Broken := dl_md5Broken t, dl_meta := dl_meta t\<rparr>"

lemma take_action_acted:
  assumes "\<not> is_terminal a" "dl_done s = None"
  shows "failed (take_action C io hashes a s) \<or> acted a s (take_action C io hashes a s)"
proof (cases a)
  case (WriteData d)
  then show ?thesis
    using assms(2) by (cases io) (auto simp: acted_def hash_write_def Let_def Md5CanVerify_def split: option.splits)
next
  case TruncateFile
  then show ?thesis
    using assms(2) by (auto simp: acted_def)
next
  case (WriteMeta d)
  then show ?thesis
    by (auto simp: acted_def)
qed (use assms in simp_all)

lemma acted_fields:
  "acted a s t \<Longrightarrow> dl_queue t = dl_queue s \<and> dl_headerDone t = dl_headerDone s \<and> dl_status t = dl_status s \<and> dl_resumedFrom t = dl_resumedFrom s
    \<and> dl_cursor t = dl_cursor s \<and> dl_finished t = dl_finished s \<and> dl_writerStop t = dl_writerStop s \<and> dl_done t = dl_done s
    \<and> dl_contentRangeFirst t = dl_contentRangeFirst s \<and> dl_respMd5 t = dl_respMd5 s \<and> dl_chunked t = dl_chunked s
    \<and> dl_hasContentLength t = dl_hasContentLength s \<and> dl_contentLength t = dl_contentLength s \<and> dl_raw t = dl_raw s
    \<and> dl_pendingBuf t = dl_pendingBuf s \<and> dl_recvBody t = dl_recvBody s \<and> dl_chunkPending t = dl_chunkPending s
    \<and> dl_chunkTerminated t = dl_chunkTerminated s"
proof -
  assume "acted a s t"
  then obtain p h b m where "t = s\<lparr>dl_part := p, dl_hash := h, dl_md5Broken := b, dl_meta := m\<rparr>"
    unfolding acted_def by blast
  then show ?thesis
    by simp
qed

lemma writes_Cons: "writes_of (a # q) = writes_of [a] @ writes_of q"
  by (cases a) simp_all

lemma acted_md5:
  "acted a s t \<Longrightarrow> Md5CanVerify t \<and> \<not> dl_md5Broken t \<Longrightarrow> Md5CanVerify s \<and> \<not> dl_md5Broken s \<and> hashed t = hashed s @ writes_of [a]"
  using acted_fields [of a s t] unfolding acted_def Md5CanVerify_def by auto

lemma acted_live:
  assumes "live p0 s fl" "dl_queue s = a # q" "acted a (s\<lparr>dl_queue := q, dl_qBytes := n, dl_lastWrite := now\<rparr>) t"
  shows "live p0 t fl"
proof -
  let ?s = "s\<lparr>dl_queue := q, dl_qBytes := n, dl_lastWrite := now\<rparr>"
  note f = acted_fields [OF assms(3)]
  have part: "dl_part t = exec_action (dl_part s) a"
    using assms(3) by (simp add: acted_def)
  have hash: "Md5CanVerify s \<and> \<not> dl_md5Broken s \<and> hashed t = hashed s @ writes_of [a]" if "Md5CanVerify t \<and> \<not> dl_md5Broken t"
    using acted_md5 [OF assms(3) that] by (simp add: Md5CanVerify_def)
  have wr: "writes_of (dl_queue s) = writes_of [a] @ writes_of q"
    unfolding assms(2) by (rule writes_Cons)
  have empty: "hashed t = []" if "hashed s = []" "writes_of [a] = []"
    using assms(3) that unfolding acted_def by auto
  have cont: "content t = content s"
    using f part assms(2) by (simp add: content_def)
  have base: "base p0 t = base p0 s"
    using f by (simp add: base_def)
  have "core_inv p0 s fl"
    by (rule live_core [OF assms(1)])
  moreover have "list_all (\<lambda>a. \<not> is_terminal a) q" if "list_all (\<lambda>a. \<not> is_terminal a) (dl_queue s)"
    using that assms(2) by simp
  ultimately have "core_inv p0 t fl"
    unfolding core_inv_def cont base wr using f hash empty by (cases "dl_headerDone s") auto
  moreover have "frame_inv t fl"
  proof -
    have "frame_inv t fl = frame_inv s fl"
      using f by (simp add: frame_inv_def)
    then show ?thesis
      using live_core(4) [OF assms(1)] by simp
  qed
  ultimately show ?thesis
    using assms(1) f by (simp add: live_def)
qed

lemma acted_end:
  assumes "end_inv p0 s" "dl_queue s = a # q" "\<not> is_terminal a" "acted a (s\<lparr>dl_queue := q, dl_qBytes := n, dl_lastWrite := now\<rparr>) t"
  shows "end_inv p0 t"
proof -
  note f = acted_fields [OF assms(4)]
  have part: "dl_part t = exec_action (dl_part s) a"
    using assms(4) by (simp add: acted_def)
  have hash: "Md5CanVerify s \<and> \<not> dl_md5Broken s \<and> hashed t = hashed s @ writes_of [a]" if "Md5CanVerify t \<and> \<not> dl_md5Broken t"
    using acted_md5 [OF assms(4) that] by (simp add: Md5CanVerify_def)
  have same: "base p0 t = base p0 s" "framed t = framed s"
    using f by (simp_all add: base_def framed_def fun_eq_iff)
  obtain q' z where z: "dl_queue s = q' @ [z]" "list_all (\<lambda>a. \<not> is_terminal a) q'" "z = AbortFile
        \<or> dl_headerDone s \<and> (\<exists>body. z = FinishFile (length (base p0 s @ body)) \<and> exec q' (dl_part s) = base p0 s @ body \<and> framed s body
            \<and> (dl_status s = 206 \<longrightarrow> dl_contentRangeFirst s = dl_resumedFrom s) \<and> 200 \<le> dl_status s \<and> dl_status s < 300
            \<and> (Md5CanVerify s \<and> \<not> dl_md5Broken s \<longrightarrow> hashed s @ writes_of q' = body))"
    using assms(1) unfolding end_inv_def by blast
  then obtain r where r: "q' = a # r" "q = r @ [z]"
    using assms(2,3) by (cases q') auto
  have "dl_queue t = r @ [z]" "list_all (\<lambda>a. \<not> is_terminal a) r"
    using f r z(2) by simp_all
  moreover have "exec r (dl_part t) = exec q' (dl_part s)" "writes_of q' = writes_of [a] @ writes_of r"
    using part r(1) writes_Cons [of a r] by simp_all
  ultimately show ?thesis
    unfolding end_inv_def same using z(3) f hash by (intro exI [of _ r] exI [of _ z]) auto
qed

text \<open>The last action: the file is renamed, unless the hash or the file system object.\<close>

lemma take_finish:
  assumes "end_inv p0 s" "dl_queue s = [a]" "dl_done s = None"
  shows "sess_inv C p0 (take_action C io hashes a (s\<lparr>dl_queue := [], dl_qBytes := n, dl_lastWrite := now\<rparr>))"
proof -
  let ?s = "s\<lparr>dl_queue := [], dl_qBytes := n, dl_lastWrite := now\<rparr>"
  consider (abort) "a = AbortFile"
    | (finish) body where "dl_headerDone s" "a = FinishFile (length (base p0 s @ body))" "dl_part s = base p0 s @ body" "framed s body"
      "dl_status s = 206 \<longrightarrow> dl_contentRangeFirst s = dl_resumedFrom s" "200 \<le> dl_status s" "dl_status s < 300"
      "Md5CanVerify s \<and> \<not> dl_md5Broken s \<longrightarrow> hashed s = body"
    using assms(1,2) by (auto simp: end_inv_def)
  then show ?thesis
  proof cases
    case abort
    then show ?thesis
      using assms(3) by (intro failed_inv) simp
  next
    case finish
    show ?thesis
    proof (cases "md5_error C hashes ?s = None \<and> io = IoOk")
      case False
      then have "failed (take_action C io hashes a ?s)"
        using finish(2) assms(3) by (auto simp: failed_finish split: option.splits)
      then show ?thesis
        by (rule failed_inv)
    next
      case True
      have md5: "dc_md5 C body = dl_Base64Decode (dl_respMd5 s)" if "Md5CanVerify s" "\<not> dl_md5Broken s"
      proof -
        have "Md5CanVerify ?s" "hashed ?s = body"
          using that finish(8) by (simp_all add: Md5CanVerify_def)
        then show ?thesis
          using True by (auto simp: md5_error_def split: option.splits if_splits)
      qed
      let ?t = "take_action C io hashes a ?s"
      let ?r = "\<lparr>dr_ok = True, dr_status = dl_status s, dr_written = length (base p0 s @ body), dr_resumedFrom = dl_resumedFrom s, dr_error = None\<rparr>"
      have t: "?t = ?s\<lparr>dl_finished := True, dl_dest := Some (dl_part s), dl_meta := None, dl_done := Some ?r\<rparr>"
        using True finish(2) assms(3) by (simp add: FinishOk_def Deliver_def Let_def)
      have "delivered C p0 ?t ?r"
        unfolding t delivered_def using finish md5
        by (auto simp: base_def framed_def Md5CanVerify_def intro!: exI [of _ body])
      then show ?thesis
        unfolding t sess_inv_def by simp
    qed
  qed
qed

lemma WriterLoop_inv:
  assumes "sess_inv C p0 s"
  shows "sess_inv C p0 (WriterLoop C io hashes s)"
proof (cases "dl_done s = None \<and> \<not> dl_writerStop s \<and> dl_queue s \<noteq> []")
  case False
  then show ?thesis
    using assms by (auto simp: WriterLoop_def intro!: failed_inv split: list.splits)
next
  case True
  then obtain a q where q: "dl_queue s = a # q"
    by (cases "dl_queue s") auto
  let ?s = "s\<lparr>dl_queue := q, dl_qBytes := dl_qBytes s - action_size a, dl_lastWrite := dl_now s\<rparr>"
  have w: "WriterLoop C io hashes s = take_action C io hashes a ?s"
    using True q by (simp add: WriterLoop_def)
  have ok: "dl_ok p0 s"
    using assms True by (simp add: sess_inv_def)
  show ?thesis
  proof (cases "is_terminal a")
    case tm: True
    have fin: "dl_finished s" "end_inv p0 s"
      using ok tm True q by (auto simp: dl_ok_def live_def core_inv_def split: if_splits)
    then have "q = []"
      using q tm unfolding end_inv_def by (auto simp: Cons_eq_append_conv)
    then show ?thesis
      using take_finish [OF fin(2) _ conjunct1 [OF True]] q unfolding w by simp
  next
    case nt: False
    have "failed (take_action C io hashes a ?s) \<or> acted a ?s (take_action C io hashes a ?s)"
      using True by (intro take_action_acted [OF nt]) simp
    then show ?thesis
    proof
      assume "acted a ?s (take_action C io hashes a ?s)"
      note act = this
      have t: "dl_done (take_action C io hashes a ?s) = None" "dl_finished (take_action C io hashes a ?s) = dl_finished s"
        using acted_fields [OF act] True by simp_all
      have "dl_ok p0 (take_action C io hashes a ?s)"
      proof (cases "dl_finished s")
        case f: True
        then have "end_inv p0 s"
          using ok True by (simp add: dl_ok_def)
        then show ?thesis
          using acted_end [OF _ q nt act] f t by (simp add: dl_ok_def)
      next
        case f: False
        then obtain fl where "live p0 s fl"
          using ok True by (auto simp: dl_ok_def)
        then show ?thesis
          using acted_live [OF _ q act] by (auto intro: live_ok)
      qed
      then show ?thesis
        using t by (simp add: w sess_inv_def)
    qed (simp add: w failed_inv)
  qed
qed

lemma delivered_other [simp]: "delivered C p0 (s\<lparr>dl_now := y\<rparr>) r = delivered C p0 s r"
  "delivered C p0 (s\<lparr>dl_writerStop := b\<rparr>) r = delivered C p0 s r"
  by (simp_all add: delivered_def base_def framed_def Md5CanVerify_def)

lemma kept_same: "loop_kept s t \<Longrightarrow> dl_done t = dl_done s" "loop_kept s t \<Longrightarrow> dl_writerStop t = dl_writerStop s"
  by (simp_all add: loop_kept_def)

text \<open>A step of the loop on a session that has not ended.\<close>

lemma loop_inv:
  assumes "sess_inv C p0 s" "\<not> dl_finished s"
    and "dl_done t = dl_done s" "dl_writerStop t = dl_writerStop s" "\<And>fl. live p0 s fl \<Longrightarrow> dl_ok p0 t"
  shows "sess_inv C p0 t"
proof -
  have "dl_done s = None" "dl_ok p0 s"
    using assms(1,2) by (auto simp: sess_inv_def split: option.splits)
  then show ?thesis
    using assms(2-5) by (auto simp: sess_inv_def dl_ok_def)
qed

lemma OnDisconnect_ok: "live p0 s fl \<Longrightarrow> dl_ok p0 (OnDisconnect C s)"
  using Fail_live [of p0 s fl C] Complete_live(1) [of p0 s fl C] live_core(2) [of p0 s fl]
  by (simp add: OnDisconnect_def complete_def not_less)

lemma kept_OnDisconnect: "loop_kept s (OnDisconnect C s)"
  by (simp add: OnDisconnect_def dl_Complete_def Let_def loop_kept_def)

lemma dl_step_inv:
  assumes "sess_inv C p0 s" "q_cap C < unset_size"
  shows "sess_inv C p0 (dl_step C e s)"
proof -
  have now: "sess_inv C p0 (s\<lparr>dl_now := n\<rparr>)" for n
    using assms(1) by (simp add: sess_inv_def split: option.splits)
  have fail: "sess_inv C p0 (dl_Fail C st why (s\<lparr>dl_now := n\<rparr>))" if "\<not> dl_finished s" for n st why
    by (rule loop_inv [OF now]) (use that in \<open>auto simp: loop_kept_def intro: Fail_live\<close>)
  show ?thesis
  proof (cases e)
    case Starts
    show ?thesis
    proof (cases "dl_finished s \<or> dl_epoch s \<noteq> 0")
      case False
      have "sess_inv C p0 (BeginConnect s)"
        by (rule loop_inv [OF assms(1)]) (use False in \<open>auto simp: BeginConnect_def loop_kept_def intro: live_ok\<close>)
      then show ?thesis
        using Starts assms(1) by simp
    qed (use assms(1) Starts in \<open>auto simp: BeginConnect_def\<close>)
  next
    case (ConnOpen ep n)
    have "sess_inv C p0 (dl_OnConnected C (s\<lparr>dl_now := n\<rparr>))" if "\<not> dl_finished s"
      by (rule loop_inv [OF now]) (use that in \<open>auto simp: dl_OnConnected_def loop_kept_def intro: live_ok\<close>)
    then show ?thesis
      using ConnOpen assms(1) by (simp add: dl_Alive_def)
  next
    case (Receives ep n d)
    have "sess_inv C p0 (OnRecv C d (s\<lparr>dl_now := n\<rparr>))" if "\<not> dl_finished s"
      by (rule loop_inv [OF now]) (use that assms(2) in \<open>auto intro!: OnRecv_ok simp: kept_same [OF kept_OnRecv] simp del: live_other\<close>)
    then show ?thesis
      using Receives assms(1) by (simp add: dl_Alive_def)
  next
    case (ConnClosed ep n)
    have "sess_inv C p0 (OnDisconnect C (s\<lparr>dl_now := n\<rparr>))" if "\<not> dl_finished s"
      by (rule loop_inv [OF now]) (use that in \<open>auto intro!: OnDisconnect_ok simp: kept_same [OF kept_OnDisconnect] simp del: live_other\<close>)
    then show ?thesis
      using ConnClosed assms(1) by (simp add: dl_Alive_def)
  next
    case (GuardTick n cancelled)
    then show ?thesis
      using now fail assms(1) by (simp add: OnGuard_def)
  next
    case (WriterTurn n io hashes)
    then show ?thesis
      using WriterLoop_inv [OF now] by simp
  next
    case ShutsDown
    then show ?thesis
      using assms(1) by (simp add: sess_inv_def dl_ok_def split: option.splits)
  qed (use assms(1) fail in \<open>simp_all add: dl_Alive_def\<close>)
qed

lemma dl_run_inv: "sess_inv C p0 s \<Longrightarrow> q_cap C < unset_size \<Longrightarrow> sess_inv C p0 (dl_run C es s)"
  unfolding dl_run_def by (induction es arbitrary: s) (simp_all add: dl_step_inv)

lemma dl_Create_inv: "dl_Create C url part meta now = Inr s \<Longrightarrow> sess_inv C part s"
  by (auto simp: dl_Create_def sess_inv_def dl_ok_def live_def dl_defs split: option.splits)


end
