(* ===== verification/DlFlow.thy ===== *)
theory DlFlow
  imports DlProps "HOL-Library.Code_Target_Nat"
begin

text \<open>
  What a download does over its whole life: where credentials go, that it ends, and runs on concrete responses.
\<close>

section \<open>Credentials\<close>

definition creds_inv :: "target \<Rightarrow> dl \<Rightarrow> bool" where
  "creds_inv t0 s \<longleftrightarrow> (other_target (dl_tgt s) t0 \<longrightarrow> dl_strip s)
     \<and> list_all (\<lambda>(t, hs). \<not> other_target t t0 \<or> list_all (\<lambda>(k, v). \<not> IsSensitiveHeaderName k) hs) (dl_sent s)"

lemma creds_kept: "creds_inv t0 s \<Longrightarrow> loop_kept s t \<Longrightarrow> creds_inv t0 t"
  by (auto simp: creds_inv_def loop_kept_def other_target_def)

lemma creds_other: "creds_inv t0 s \<Longrightarrow> dl_tgt u = dl_tgt s \<Longrightarrow> dl_strip u = dl_strip s \<Longrightarrow> dl_sent u = dl_sent s \<Longrightarrow> creds_inv t0 u"
  by (simp add: creds_inv_def)

lemma stripped_headers:
  "list_all (\<lambda>(k, v). \<not> IsSensitiveHeaderName k) (request_headers def opts t n etag lm True)"
proof -
  have "list_all (\<lambda>(k, v). \<not> IsSensitiveHeaderName k) (kept_headers True hs)" for hs
    by (auto simp: kept_headers_def list_all_iff)
  moreover have "\<not> IsSensitiveHeaderName ''Host''" "\<not> IsSensitiveHeaderName ''User-Agent''" "\<not> IsSensitiveHeaderName ''Connection''"
    "\<not> IsSensitiveHeaderName ''Accept-Encoding''" "\<not> IsSensitiveHeaderName ''Range''" "\<not> IsSensitiveHeaderName ''If-Range''"
    by code_simp+
  ultimately show ?thesis
    by (simp add: request_headers_def range_headers_def split: option.splits)
qed

lemma creds_sent:
  "creds_inv t0 s \<Longrightarrow> creds_inv t0 (dl_OnConnected C s)"
  using stripped_headers by (auto simp: creds_inv_def dl_OnConnected_def)

text \<open>The writer does not touch the target.\<close>

lemma writer_kept: "dl_tgt (WriterLoop C io hashes s) = dl_tgt s" "dl_strip (WriterLoop C io hashes s) = dl_strip s"
  "dl_sent (WriterLoop C io hashes s) = dl_sent s"
proof -
  have "dl_tgt (take_action C io hashes a u) = dl_tgt u \<and> dl_strip (take_action C io hashes a u) = dl_strip u
      \<and> dl_sent (take_action C io hashes a u) = dl_sent u" for a u
    by (cases a; cases io) (auto simp: hash_write_def FinishOk_def AbortPath_def WriterFail_def Deliver_def Let_def split: option.splits)
  then show "dl_tgt (WriterLoop C io hashes s) = dl_tgt s" "dl_strip (WriterLoop C io hashes s) = dl_strip s"
    "dl_sent (WriterLoop C io hashes s) = dl_sent s"
    by (simp_all add: WriterLoop_def WriterFail_def Deliver_def split: list.splits)
qed

lemma creds_step: "creds_inv t0 s \<Longrightarrow> creds_inv t0 (dl_step C e s)"
proof -
  assume inv: "creds_inv t0 s"
  have now: "creds_inv t0 (s\<lparr>dl_now := n\<rparr>)" for n
    using inv by (simp add: creds_inv_def)
  have fail: "creds_inv t0 (dl_Fail C st why (s\<lparr>dl_now := n\<rparr>))" for st why n
    by (rule creds_kept [OF now [of n]]) simp
  show "creds_inv t0 (dl_step C e s)"
  proof (cases e)
    case Starts
    then show ?thesis
      using inv by (simp add: BeginConnect_def creds_inv_def)
  next
    case (Receives ep n d)
    then show ?thesis
      using inv creds_kept [OF now kept_OnRecv] by (simp add: dl_Alive_def)
  next
    case (ConnClosed ep n)
    then show ?thesis
      using inv creds_kept [OF now kept_OnDisconnect] by simp
  next
    case (WriterTurn n io hashes)
    then show ?thesis
      using inv by (simp add: creds_inv_def writer_kept)
  next
    case (GuardTick n cancelled)
    then show ?thesis
      using now fail inv by (simp add: OnGuard_def)
  next
    case ShutsDown
    then show ?thesis
      using inv by (simp add: creds_inv_def)
  qed (use inv fail creds_sent [OF now] in simp_all)
qed

lemma creds_run: "creds_inv t0 s \<Longrightarrow> creds_inv t0 (dl_run C es s)"
  unfolding dl_run_def by (induction es arbitrary: s) (simp_all add: creds_step)

text \<open>C12: credentials stay with the origin they were meant for: whatever redirections a server sends, no request to another
  scheme, host or port than that of the first URL carries a header named Authorization, Cookie or Proxy-Authorization,
  neither from the common headers nor from those of the call.\<close>

theorem credentials_stay:
  assumes "dl_Create C url part meta now = Inr s0" "(t, hs) \<in> set (dl_sent (dl_run C es s0))" "other_target t (dl_tgt s0)"
  shows "list_all (\<lambda>(k, v). \<not> IsSensitiveHeaderName k) hs"
proof -
  have "creds_inv (dl_tgt s0) s0"
    using assms(1) by (auto simp: dl_Create_def creds_inv_def split: option.splits)
  from creds_run [OF this, of C es] show ?thesis
    using assms(2,3) by (auto simp: creds_inv_def list_all_iff)
qed

section \<open>Every download ends\<close>

lemma done_step:
  assumes "dl_done s = Some r" "dl_finished s"
  shows "dl_done (dl_step C e s) = Some r" "dl_finished (dl_step C e s)"
  using assms by (cases e; simp add: BeginConnect_def dl_Alive_def OnGuard_def WriterLoop_def)+

lemma done_run: "dl_done s = Some r \<Longrightarrow> dl_finished s \<Longrightarrow> dl_done (dl_run C es s) = Some r"
  unfolding dl_run_def by (induction es arbitrary: s) (simp_all add: done_step)

lemma writer_progress:
  assumes "sess_inv C p0 s" "dl_done s = None" "dl_finished s"
  shows "dl_done (WriterLoop C io hashes s) \<noteq> None
    \<or> dl_finished (WriterLoop C io hashes s) \<and> Suc (length (dl_queue (WriterLoop C io hashes s))) = length (dl_queue s)"
proof (cases "dl_writerStop s")
  case True
  then show ?thesis
    using assms(2) by (simp add: WriterLoop_def WriterFail_def Deliver_def)
next
  case False
  have "end_inv p0 s"
    using assms False by (simp add: sess_inv_def dl_ok_def)
  then obtain a q where q: "dl_queue s = a # q"
    unfolding end_inv_def by (cases "dl_queue s") auto
  let ?s = "s\<lparr>dl_queue := q, dl_qBytes := dl_qBytes s - action_size a, dl_lastWrite := dl_now s\<rparr>"
  have w: "WriterLoop C io hashes s = take_action C io hashes a ?s"
    using assms(2) False q by (simp add: WriterLoop_def)
  show ?thesis
  proof (cases "is_terminal a")
    case True
    then have "dl_done (take_action C io hashes a ?s) \<noteq> None"
      using assms(2) by (cases a) (auto simp: WriterFail_def FinishOk_def AbortPath_def Deliver_def Let_def split: option.splits)
    then show ?thesis
      unfolding w ..
  next
    case nt: False
    have "failed (take_action C io hashes a ?s) \<or> acted a ?s (take_action C io hashes a ?s)"
      using assms(2) by (intro take_action_acted [OF nt]) simp
    then show ?thesis
      unfolding w using acted_fields [of a ?s] assms(3) q by (auto simp: failed_def split: option.splits)
  qed
qed

definition writer_turns :: "(int \<times> io \<times> bool) list \<Rightarrow> dl_event list" where
  "writer_turns ws = map (\<lambda>(n, io, h). WriterTurn n io h) ws"

lemma turns_deliver:
  "sess_inv C p0 s \<Longrightarrow> dl_finished s \<Longrightarrow> length (dl_queue s) < length ws
    \<Longrightarrow> dl_done (dl_run C (writer_turns ws) s) \<noteq> None"
proof (induction ws arbitrary: s)
  case (Cons w ws)
  obtain n io h where w: "w = (n, io, h)"
    by (cases w)
  let ?s = "s\<lparr>dl_now := n\<rparr>"
  let ?t = "WriterLoop C io h ?s"
  have run: "dl_run C (writer_turns (w # ws)) s = dl_run C (writer_turns ws) ?t"
    by (simp add: dl_run_def writer_turns_def w)
  show ?case
  proof (cases "dl_done s")
    case (Some r)
    then show ?thesis
      using done_run [OF Some Cons(3)] by simp
  next
    case None
    have inv: "sess_inv C p0 ?s"
      using Cons(2) None by (simp add: sess_inv_def)
    have t: "sess_inv C p0 ?t"
      by (rule WriterLoop_inv [OF inv])
    have "dl_done ?t \<noteq> None \<or> dl_finished ?t \<and> Suc (length (dl_queue ?t)) = length (dl_queue s)"
      using writer_progress [OF inv, of io h] None Cons(3) by simp
    then show ?thesis
    proof
      assume "dl_done ?t \<noteq> None"
      then obtain r where r: "dl_done ?t = Some r"
        by auto
      then have "dl_finished ?t"
        using t by (simp add: sess_inv_def)
      then show ?thesis
        using done_run [OF r] unfolding run by simp
    next
      assume "dl_finished ?t \<and> Suc (length (dl_queue ?t)) = length (dl_queue s)"
      then show ?thesis
        using Cons(1) [OF t] Cons(4) unfolding run by simp
    qed
  qed
qed simp


section \<open>Runs\<close>

definition demo :: dl_config where
  "demo = \<lparr>dc_client = \<lparr>co_userAgent = ''zm'', co_commonHeaders = [(''Cookie'', ''k=v'')]\<rparr>, dc_headers = None, dc_followRedirect = True,
     dc_maxRedirects = 0, dc_downloadChunkBytes = 4, dc_downloadQueueMaxBytes = 0, dc_downloadStallAbortMs = 0, dc_maxBytes = 0,
     dc_deadlineMs = 0, dc_json = \<lparr>jparse = (\<lambda>_. None), jdump = (\<lambda>_. ''{}'')\<rparr>, dc_md5 = (\<lambda>_. [])\<rparr>"

definition demo_start :: "string \<Rightarrow> dl" where
  "demo_start part = (case dl_Create demo ''http://a/f'' part None 0 of Inr s \<Rightarrow> s)"

definition turns :: "nat \<Rightarrow> dl_event list" where
  "turns n = replicate n (WriterTurn 0 IoOk True)"

definition demo_run :: "string \<Rightarrow> string list \<Rightarrow> string \<Rightarrow> dl" where
  "demo_run part lines body =
    dl_run demo ([Starts, ConnOpen 1 0, Receives 1 0 (concat (map (\<lambda>l. l @ CRLF) lines) @ CRLF @ body), ConnClosed 1 0] @ turns 6) (demo_start part)"

lemma demo_200: "dl_dest (demo_run ''old'' [''HTTP/1.1 200 OK'', ''Content-Length: 5''] ''hello'') = Some ''hello''"
  by code_simp

lemma demo_206: "dl_dest (demo_run ''old'' [''HTTP/1.1 206 OK'', ''Content-Range: bytes 3-7/8'', ''Content-Length: 5''] ''hello'') = Some ''oldhello''"
  by code_simp

lemma demo_chunked: "dl_dest (demo_run [] [''HTTP/1.1 200 OK'', ''Transfer-Encoding: chunked''] (''5;x'' @ CRLF @ ''hello'' @ CRLF @ ''0'' @ CRLF @ CRLF)) = Some ''hello''"
  by code_simp

lemma demo_create: "dl_Create demo ''http://a/f'' ''old'' None 0 = Inr (demo_start ''old'')"
  by code_simp

lemma demo_size: "q_cap demo < unset_size"
  by (simp add: demo_def q_cap_def unset_size_def)


definition redirected :: "dl_event list" where
  "redirected = [Starts, ConnOpen 1 0, Receives 1 0 (''HTTP/1.1 302 Found'' @ CRLF @ ''Location: http://b/g'' @ CRLF @ CRLF), ConnOpen 2 0]"

lemma credentials_stay_witness:
  "dl_sent (dl_run demo redirected (demo_start ''old'')) \<noteq> []
    \<and> list_all (\<lambda>(k, v). \<not> IsSensitiveHeaderName k) (snd (last (dl_sent (dl_run demo redirected (demo_start ''old'')))))"
proof -
  let ?sent = "dl_sent (dl_run demo redirected (demo_start ''old''))"
  have l: "?sent \<noteq> []" "other_target (fst (last ?sent)) (dl_tgt (demo_start ''old''))"
    by code_simp+
  then have "(fst (last ?sent), snd (last ?sent)) \<in> set ?sent"
    by simp
  from credentials_stay [OF demo_create this l(2)] l(1) show ?thesis
    by simp
qed

lemma demo_first_request:
  "map snd (filter (\<lambda>(k, v). k = ''Cookie'') (snd (hd (dl_sent (dl_run demo redirected (demo_start ''old'')))))) = [''k=v'']"
  by code_simp


text \<open>An ETag that is not UTF-8 throws in the loop: no tick of the guard ends the download then, and nothing is delivered.\<close>

lemma bad_etag_never_ends:
  "let s = dl_run demo [Starts, ConnOpen 1 0, Receives 1 0 (''HTTP/1.1 200 OK'' @ CRLF @ ''ETag: '' @ [char_of (255 :: nat)] @ CRLF @ CRLF),
        GuardTick 200000 True, ConnClosed 1 200000] (demo_start ''old'')
   in dl_thrown s \<and> \<not> dl_finished s \<and> dl_done (dl_run demo (turns 6) s) = None"
  by code_simp

text \<open>Any other 2xx appends the whole body to the old part.\<close>

lemma odd_status_appends:
  "dl_dest (demo_run ''old'' [''HTTP/1.1 203 Other'', ''Content-Length: 5''] ''hello'') = Some ''oldhello''"
  by code_simp

text \<open>A range that ends early is taken as the whole rest.\<close>

lemma short_range_accepted:
  "dl_dest (demo_run ''old'' [''HTTP/1.1 206 OK'', ''Content-Range: bytes 3-4/8'', ''Content-Length: 2''] ''he'') = Some ''oldhe''"
  by code_simp

text \<open>The announced MD5 is not compared for a 206.\<close>

lemma md5_ignored_on_206:
  "dl_dest (demo_run ''old'' [''HTTP/1.1 206 OK'', ''Content-Range: bytes 3-7/8'', ''Content-Length: 5'', ''Content-MD5: AAAA''] ''hello'') = Some ''oldhello''"
  "dc_md5 demo ''oldhello'' \<noteq> dl_Base64Decode ''AAAA'' \<and> dc_md5 demo ''hello'' \<noteq> dl_Base64Decode ''AAAA''"
  by code_simp+

text \<open>After a 200 the result still names the old part as resumed.\<close>

lemma resumed_from_after_200:
  "map_option (\<lambda>r. (dr_written r, dr_resumedFrom r)) (dl_done (demo_run ''old'' [''HTTP/1.1 200 OK'', ''Content-Length: 5''] ''hello'')) = Some (5, 3)"
  by code_simp

text \<open>An interim response and the final one in one segment: the final one is read only when more bytes come; if the peer
  closes, the download fails although the whole response has arrived.\<close>

lemma interim_swallows_final:
  "map_option (\<lambda>r. (dr_ok r, dr_error r)) (dl_done (demo_run [] [''HTTP/1.1 100 Continue''] (''HTTP/1.1 200 OK'' @ CRLF @ ''Content-Length: 2'' @ CRLF @ CRLF @ ''hi'')))
    = Some (False, Some (Aborted (Some NoHeader)))"
  by code_simp

text \<open>Other interim responses end the download.\<close>

lemma early_hints_fail:
  "map_option (\<lambda>r. (dr_ok r, dr_error r)) (dl_done (demo_run [] [''HTTP/1.1 103 Early Hints''] [])) = Some (False, Some (Aborted (Some Not2xx)))"
  by code_simp

text \<open>Before the first connection opens nothing looks at the token, the deadline or the silence.\<close>

lemma cancel_waits_for_connection:
  "dl_finished (dl_run demo (Starts # replicate 3 (GuardTick 1000000 True)) (demo_start [])) = False"
  by code_simp

end
