(* ===== verification/HcText.thy ===== *)
theory HcText
  imports DlUrl StrCodec
begin

text \<open>
  Addresses and bodies of the HTTP client (\<open>net/zm_net_http_client.cpp\<close>): the parser of URLs with its check of the path,
  the resolution of \<open>Location\<close>, the encoders of credentials and forms, and the multipart body of an upload.

  The parser of authority and port is the same text as in the download channel and is used from there.
\<close>

section \<open>URLs\<close>

record url_target =
  ut_ssl :: bool
  ut_host :: string
  ut_port :: nat
  ut_path :: string
  ut_key :: string

definition hex_char :: "char \<Rightarrow> bool" where
  "hex_char c \<longleftrightarrow> is_digit c \<or> 65 \<le> char_code c \<and> char_code c \<le> 70 \<or> 97 \<le> char_code c \<and> char_code c \<le> 102"

fun IsSafePath :: "string \<Rightarrow> bool" where
  "IsSafePath [] = True"
| "IsSafePath (c # cs) =
    (if char_code c \<le> 0x20 \<or> char_code c = 0x7F then False
     else if c = CHR ''%'' then
       (case cs of
          a # b # rest \<Rightarrow> if hex_char a \<and> hex_char b then IsSafePath rest else False
        | _ \<Rightarrow> False)
     else IsSafePath cs)"

definition ParseUrl :: "string \<Rightarrow> url_target option" where
  "ParseUrl raw =
    (case ParseDownloadUrl raw of
       None \<Rightarrow> None
     | Some t \<Rightarrow>
         if \<not> IsSafePath (tg_pathQuery t) then None
         else Some \<lparr>ut_ssl = tg_ssl t, ut_host = tg_host t, ut_port = tg_port t, ut_path = tg_pathQuery t,
           ut_key = (if tg_ssl t then ''https'' else ''http'') @ ''://'' @ tg_host t @ '':'' @ to_string (tg_port t)\<rparr>)"

text \<open>The directory of the base is taken from the path with its query.\<close>

definition hc_dir :: "string \<Rightarrow> string" where
  "hc_dir path = (if CHR ''/'' \<notin> set path \<or> before_last CHR ''/'' path = [] then ''/'' else before_last CHR ''/'' path @ ''/'')"

definition ResolveRedirect :: "string \<Rightarrow> string \<Rightarrow> string" where
  "ResolveRedirect baseUrl loc =
    (let l = dl_Trim loc in
     if l = [] then []
     else if starts_with ''http://'' l \<or> starts_with ''https://'' l then l
     else (case (ParseUrl baseUrl, cut_text ''://'' baseUrl) of
         (Some base, Some (sch, rest)) \<Rightarrow>
           if starts_with ''//'' l then sch @ '':'' @ l
           else sch @ ''://'' @ takeWhile (\<lambda>c. c \<noteq> CHR ''/'') rest
             @ normalize_path (if hd l = CHR ''/'' then l else hc_dir (ut_path base) @ l)
       | _ \<Rightarrow> []))"

lemma ParseUrl_safe: "ParseUrl raw = Some t \<Longrightarrow> IsSafePath (ut_path t)"
  by (auto simp: ParseUrl_def split: option.splits if_splits)

lemma safe_path_bytes: "IsSafePath p \<Longrightarrow> IsSafeRequestBytes p"
proof (induction p rule: IsSafePath.induct)
  case (2 c cs)
  have hex: "hex_char a \<Longrightarrow> \<not> (char_code a \<le> 0x20 \<or> char_code a = 0x7F)" for a
    by (auto simp: hex_char_def is_digit_def)
  show ?case
  proof (cases "c = CHR ''%''")
    case True
    then obtain a b rest where "cs = a # b # rest" "hex_char a" "hex_char b" "IsSafePath rest"
      using 2(3) by (auto split: if_splits list.splits)
    then show ?thesis
      using 2(1) [OF _ True] 2(3) True hex by (simp add: IsSafeRequestBytes_def split: if_splits)
  next
    case False
    then show ?thesis
      using 2 by (auto simp: IsSafeRequestBytes_def split: if_splits)
  qed
qed (simp add: IsSafeRequestBytes_def)

text \<open>A slash in the query moves the directory of a relative redirection.\<close>

lemma redirect_uses_query:
  "ResolveRedirect ''http://h/a/b?u=/x/y'' ''c'' = ''http://h/a/b?u=/x/c''"
  "ResolveRedirectUrl ''http://h/a/b?u=/x/y'' ''c'' = ''http://h/a/c''"
  by code_simp+

section \<open>Credentials\<close>

text \<open>Three bytes at a time, as in the loop; the rest with the missing bytes as zero.\<close>

definition hc_tbl :: bytes where
  "hc_tbl = ascii ''ABCDEFGHIJKLMNOPQRSTUVWXYZabcdefghijklmnopqrstuvwxyz0123456789+/''"

definition hc_index :: "u32 \<Rightarrow> nat \<Rightarrow> u8" where
  "hc_index v sh = hc_tbl ! unat (drop_bit sh v AND 0x3F)"

definition hc_word :: "u8 \<Rightarrow> u8 \<Rightarrow> u8 \<Rightarrow> u32" where
  "hc_word a b c = push_bit 16 (ucast a) OR push_bit 8 (ucast b) OR ucast c"

fun hc_Base64Encode :: "bytes \<Rightarrow> bytes" where
  "hc_Base64Encode [] = []"
| "hc_Base64Encode [a] = (let v = hc_word a 0 0 in [hc_index v 18, hc_index v 12, 0x3D, 0x3D])"
| "hc_Base64Encode [a, b] = (let v = hc_word a b 0 in [hc_index v 18, hc_index v 12, hc_index v 6, 0x3D])"
| "hc_Base64Encode (a # b # c # r) =
    (let v = hc_word a b c in [hc_index v 18, hc_index v 12, hc_index v 6, hc_index v 0] @ hc_Base64Encode r)"

lemma mask32: "(0x3F :: u32) = mask 6"
  by (simp add: mask_eq_exp_minus_1)

lemma hc_split:
  fixes a b c :: u8
  defines "v \<equiv> hc_word a b c"
  shows "drop_bit 18 v AND 0x3F = ucast (drop_bit 2 (a AND 0xFC))"
    "drop_bit 12 v AND 0x3F = ucast (push_bit 4 (a AND 0x03) OR drop_bit 4 (b AND 0xF0))"
    "drop_bit 6 v AND 0x3F = ucast (push_bit 2 (b AND 0x0F) OR drop_bit 6 (c AND 0xC0))"
    "drop_bit 0 v AND 0x3F = ucast (c AND 0x3F)"
  unfolding v_def hc_word_def b64_masks mask32
  by (rule bit_word_eqI; auto simp: bit_simps dest: bit_imp_le_length)+

lemma unat_ucast32: "unat (ucast (x :: u8) :: u32) = unat x"
  using take_bit_nat_eq_self [of "unat x" 32] unat_byte_less [of x] by (simp add: unsigned_ucast_eq)

lemma hc_index_split:
  "[hc_index (hc_word a b c) 18, hc_index (hc_word a b c) 12, hc_index (hc_word a b c) 6, hc_index (hc_word a b c) 0]
    = map (\<lambda>i. g_base64Chars ! unat i) (b64_split a b c)"
  unfolding hc_index_def hc_split b64_split_def b64_or
  by (simp add: hc_tbl_def g_base64Chars_def unat_ucast32)

lemma hc_core: "hc_Base64Encode bs = b64_core g_base64Chars bs @ replicate (b64_missing (length bs)) 0x3D"
proof (induction bs rule: hc_Base64Encode.induct)
  case (2 a)
  show ?case
    unfolding hc_Base64Encode.simps b64_core.simps Let_def hc_index_split [symmetric] by (simp add: b64_missing_def numeral_2_eq_2)
next
  case (3 a b)
  show ?case
    unfolding hc_Base64Encode.simps b64_core.simps Let_def hc_index_split [symmetric] by (simp add: b64_missing_def)
next
  case (4 a b c r)
  show ?case
    unfolding hc_Base64Encode.simps b64_core.simps Let_def hc_index_split [symmetric] using 4 by (simp add: b64_missing_step)
qed (simp add: b64_missing_def)

lemma hc_encoder_agrees: "length bs \<le> 2 ^ 32 \<Longrightarrow> Base64Encode bs = Inr (hc_Base64Encode bs)"
  by (simp add: hc_core Base64Encode_def base64EncodeImpl_core)

section \<open>Forms\<close>

fun UrlEncode :: "bytes \<Rightarrow> bytes" where
  "UrlEncode [] = []"
| "UrlEncode (c # r) =
    (if url_plain c then c # UrlEncode r
     else if c = 0x20 then 0x2B # UrlEncode r
     else 0x25 # g_hexUpper ! unat (drop_bit 4 c) # g_hexUpper ! unat (c AND 0x0F) # UrlEncode r)"

definition form_field :: "bytes \<times> bytes \<Rightarrow> bytes" where
  "form_field kv = UrlEncode (fst kv) @ [0x3D] @ UrlEncode (snd kv)"

definition BuildFormBody :: "(bytes \<times> bytes) list \<Rightarrow> bytes" where
  "BuildFormBody kvs = foldl (\<lambda>out kv. (if out \<noteq> [] then out @ [0x26] else out) @ form_field kv) [] kvs"

text \<open>What a receiver does: cut at \<open>&\<close>, cut at the first \<open>=\<close>, decode with the decoder of the string utilities.\<close>

fun split_byte :: "u8 \<Rightarrow> bytes \<Rightarrow> bytes list" where
  "split_byte c [] = [[]]"
| "split_byte c (x # xs) =
    (if x = c then [] # split_byte c xs
     else (case split_byte c xs of s # ss \<Rightarrow> (x # s) # ss | [] \<Rightarrow> [[x]]))"

definition read_field :: "bytes \<Rightarrow> bytes \<times> bytes" where
  "read_field f = (URLDecode_str (takeWhile (\<lambda>c. c \<noteq> 0x3D) f), URLDecode_str (tl (dropWhile (\<lambda>c. c \<noteq> 0x3D) f)))"

definition read_form :: "bytes \<Rightarrow> (bytes \<times> bytes) list" where
  "read_form body = (if body = [] then [] else map read_field (split_byte 0x26 body))"

lemma UrlDecode_UrlEncode: "URLDecode_str (UrlEncode bs) = bs"
proof (induction bs)
  case (Cons c bs)
  have "c \<noteq> 0x25 \<and> c \<noteq> 0x2B" if "url_plain c"
    using that by (auto simp: url_plain_def is_alnum_def)
  with Cons show ?case
    by (auto simp: hex_digit_back(2) [OF unat_nibble(1)] hex_digit_back(2) [OF unat_nibble(2)] nibbles_join)
qed simp

lemma hexUpper_free: "unat (n :: u8) < 16 \<Longrightarrow> g_hexUpper ! unat n \<noteq> 0x26 \<and> g_hexUpper ! unat n \<noteq> 0x3D"
proof -
  assume n: "unat n < 16"
  have "list_all (\<lambda>n :: u8. g_hexUpper ! unat n \<noteq> 0x26 \<and> g_hexUpper ! unat n \<noteq> 0x3D) (map word_of_nat [0..<16])"
    by code_simp
  from byte_check [OF this n] show ?thesis .
qed

lemma UrlEncode_free: "0x26 \<notin> set (UrlEncode bs)" "0x3D \<notin> set (UrlEncode bs)"
proof (induction bs)
  case (Cons c bs)
  have "c \<noteq> 0x26 \<and> c \<noteq> 0x3D" if "url_plain c"
    using that by (auto simp: url_plain_def is_alnum_def)
  with Cons show "0x26 \<notin> set (UrlEncode (c # bs))" "0x3D \<notin> set (UrlEncode (c # bs))"
    using hexUpper_free [OF unat_nibble(1), of c] hexUpper_free [OF unat_nibble(2), of c] by auto
qed simp_all

lemma split_byte_one: "c \<notin> set xs \<Longrightarrow> split_byte c xs = [xs]"
  by (induction xs) auto

lemma split_byte_sep: "c \<notin> set xs \<Longrightarrow> split_byte c (xs @ c # ys) = xs # split_byte c ys"
  by (induction xs) auto

lemma split_byte_some: "split_byte c xs \<noteq> []"
  by (induction xs) (auto split: list.splits)

lemma split_byte_append: "c \<notin> set ys \<Longrightarrow> split_byte c (xs @ c # ys) = split_byte c xs @ [ys]"
proof (induction xs)
  case (Cons x xs)
  moreover obtain s ss where "split_byte c xs = s # ss"
    using split_byte_some [of c xs] by (cases "split_byte c xs") auto
  ultimately show ?case
    by auto
qed (simp add: split_byte_one)

lemma read_form_field: "read_field (form_field kv) = kv"
proof -
  have free: "\<And>x. x \<in> set (UrlEncode (fst kv)) \<Longrightarrow> x \<noteq> 0x3D"
    using UrlEncode_free(2) [of "fst kv"] by blast
  have "takeWhile (\<lambda>c. c \<noteq> 0x3D) (form_field kv) = UrlEncode (fst kv)"
    "dropWhile (\<lambda>c. c \<noteq> 0x3D) (form_field kv) = 0x3D # UrlEncode (snd kv)"
    using free by (simp_all add: form_field_def takeWhile_append2 dropWhile_append2)
  then show ?thesis
    by (simp add: read_field_def UrlDecode_UrlEncode)
qed

text \<open>A form survives its way: cutting the body of \<open>PostForm\<close> at \<open>&\<close> and \<open>=\<close> and decoding with the decoder of the
  string utilities gives back every field, whatever bytes names and values hold.\<close>

theorem form_roundtrip: "read_form (BuildFormBody kvs) = kvs"
proof -
  have free: "0x26 \<notin> set (form_field kv)" for kv
    using UrlEncode_free by (simp add: form_field_def)
  have "BuildFormBody kvs = [] \<longleftrightarrow> kvs = []" and body: "kvs \<noteq> [] \<Longrightarrow> map read_field (split_byte 0x26 (BuildFormBody kvs)) = kvs"
  proof (induction kvs rule: rev_induct)
    case (snoc kv kvs)
    {
      case 1
      show ?case
        by (simp add: BuildFormBody_def form_field_def)
    next
      case 2
      show ?case
      proof (cases "kvs = []")
        case True
        then show ?thesis
          using free [of kv] by (simp add: BuildFormBody_def split_byte_one read_form_field)
      next
        case False
        then have "BuildFormBody (kvs @ [kv]) = BuildFormBody kvs @ 0x26 # form_field kv"
          using snoc(1) by (simp add: BuildFormBody_def)
        then show ?thesis
          using snoc(2) [OF False] free [of kv] by (simp add: split_byte_append read_form_field)
      qed
    }
  qed (simp_all add: BuildFormBody_def)
  then show ?thesis
    by (simp add: read_form_def)
qed

interpretation form_codec: codec "\<lambda>_. True" BuildFormBody read_form
  by unfold_locales (rule form_roundtrip)

section \<open>Multipart bodies\<close>

definition EscapeMultipartQuoted :: "string \<Rightarrow> string" where
  "EscapeMultipartQuoted s =
    concat (map (\<lambda>c. if char_code c < 0x20 \<or> char_code c = 0x7F then []
      else if c = CHR 0x22 \<or> c = CHR 0x5C then [CHR 0x5C, c] else [c]) s)"

text \<open>The candidates are the texts with the random numbers of the eight rounds.\<close>

definition boundary_free :: "string \<Rightarrow> string \<Rightarrow> bool" where
  "boundary_free b s \<longleftrightarrow> cut_text b s = None"

fun MakeMultipartBoundary :: "string list \<Rightarrow> string \<Rightarrow> string \<Rightarrow> string \<Rightarrow> string" where
  "MakeMultipartBoundary [] fileData field fileName = ''ZiMoFormBoundaryFailback''"
| "MakeMultipartBoundary (b # bs) fileData field fileName =
    (if boundary_free b fileData \<and> boundary_free b field \<and> boundary_free b fileName then b
     else MakeMultipartBoundary bs fileData field fileName)"

definition upload_mimes :: "(string \<times> string) list" where
  "upload_mimes = [(''txt'', ''text/plain''), (''json'', ''application/json''), (''html'', ''text/html''), (''xml'', ''application/xml''),
     (''png'', ''image/png''), (''jpg'', ''image/jpeg''), (''jpeg'', ''image/jpeg''), (''gif'', ''image/gif''),
     (''mp3'', ''audio/mpeg''), (''mp4'', ''video/mp4''), (''zip'', ''application/zip'')]"

definition mime_of :: "string \<Rightarrow> string" where
  "mime_of fileName =
    (if CHR ''.'' \<in> set fileName
     then (case map_of upload_mimes (ToLowerCopy (after_last CHR ''.'' fileName)) of Some m \<Rightarrow> m | None \<Rightarrow> ''application/octet-stream'')
     else ''application/octet-stream'')"

definition AssembleMultipart :: "string \<Rightarrow> string \<Rightarrow> string \<Rightarrow> string \<Rightarrow> string" where
  "AssembleMultipart fileData fileName field boundary =
    ''--'' @ boundary @ CRLF
    @ ''Content-Disposition: form-data; name='' @ [CHR 0x22] @ field @ [CHR 0x22] @ ''; filename='' @ [CHR 0x22] @ fileName @ [CHR 0x22] @ CRLF
    @ ''Content-Type: '' @ mime_of fileName @ CRLF @ CRLF
    @ fileData @ CRLF @ ''--'' @ boundary @ ''--'' @ CRLF"

definition base_name :: "string \<Rightarrow> string" where
  "base_name path = rev (takeWhile (\<lambda>c. c \<noteq> CHR ''/'' \<and> c \<noteq> CHR 0x5C) (rev path))"

definition ZmUploadPrelude :: "string list \<Rightarrow> string \<Rightarrow> string \<Rightarrow> string \<Rightarrow> string \<times> string" where
  "ZmUploadPrelude candidates filePath field fileData =
    (let fieldEsc = EscapeMultipartQuoted field;
         fileEsc = EscapeMultipartQuoted (base_name filePath);
         boundary = MakeMultipartBoundary candidates fileData fieldEsc fileEsc in
     (AssembleMultipart fileData fileEsc fieldEsc boundary, ''multipart/form-data; boundary='' @ boundary))"

lemma cut_skip: "hd pat \<notin> set xs \<Longrightarrow> pat \<noteq> [] \<Longrightarrow> cut_text pat (xs @ s) = map_option (\<lambda>(a, b). (xs @ a, b)) (cut_text pat s)"
proof (induction xs)
  case Nil
  then show ?case
    by (simp add: option.map_ident case_prod_unfold)
next
  case (Cons x xs)
  then have "take (length pat) (x # xs @ s) \<noteq> pat"
    by (cases pat) auto
  then show ?case
    using Cons by (simp add: option.map_comp comp_def case_prod_unfold)
qed

lemma cut_found: "pat \<noteq> [] \<Longrightarrow> cut_text pat (x @ pat @ y) \<noteq> None"
proof (induction x)
  case Nil
  then show ?case
    by (simp add: cut_text_front)
qed auto

text \<open>A boundary after a line break is found where it was put, as it does not begin inside the data.\<close>

lemma cut_boundary:
  assumes "cut_text b s = None" "CHR 0x0D \<notin> set b" "b \<noteq> []"
  shows "cut_text (CRLF @ ''--'' @ b) (s @ CRLF @ ''--'' @ b @ r) = Some (s, r)"
  using assms(1)
proof (induction s)
  case Nil
  show ?case
    using cut_text_front [of "CRLF @ ''--'' @ b" r] by simp
next
  case (Cons c s)
  let ?pat = "CRLF @ ''--'' @ b"
  have "take (length ?pat) ((c # s) @ ?pat @ r) \<noteq> ?pat"
  proof
    assume m: "take (length ?pat) ((c # s) @ ?pat @ r) = ?pat"
    show False
    proof (cases "length ?pat \<le> length (c # s)")
      case True
      then have "take (length ?pat) (c # s) = ?pat"
        using m by simp
      then have "c # s = (CRLF @ ''--'') @ b @ drop (length ?pat) (c # s)"
        by (metis append.assoc append_take_drop_id)
      then show False
        using Cons.prems cut_found [OF assms(3), of "CRLF @ ''--''" "drop (length ?pat) (c # s)"] by metis
    next
      case False
      let ?k = "length (c # s)"
      have "?pat ! ?k = ((c # s) @ ?pat @ r) ! ?k"
        using False m by (metis not_le nth_take)
      then have "?pat ! ?k = CHR 0x0D"
        by (simp add: nth_append)
      moreover have "?pat ! ?k \<in> set (tl ?pat)"
        using False by (simp add: nth_Cons')
      ultimately show False
        using assms(2) by auto
    qed
  qed
  moreover have "cut_text b s = None"
    using Cons.prems by (simp split: if_splits)
  ultimately show ?case
    using Cons.IH by simp
qed

lemma cut_head:
  assumes "CHR 0x0D \<notin> set (l1 @ l2 @ l3)" "l2 \<noteq> []" "l3 \<noteq> []"
  shows "cut_text (CRLF @ CRLF) (l1 @ CRLF @ l2 @ CRLF @ l3 @ CRLF @ CRLF @ r) = Some (l1 @ CRLF @ l2 @ CRLF @ l3, r)"
proof -
  have skip: "cut_text (CRLF @ CRLF) (l @ s) = map_option (\<lambda>(a, b). (l @ a, b)) (cut_text (CRLF @ CRLF) s)" if "CHR 0x0D \<notin> set l" for l s
    using that by (intro cut_skip) simp_all
  have line: "cut_text (CRLF @ CRLF) (CRLF @ l @ s) = map_option (\<lambda>(a, b). (CRLF @ l @ a, b)) (cut_text (CRLF @ CRLF) s)"
    if "CHR 0x0D \<notin> set l" "l \<noteq> []" for l s
    using that skip [of l s] by (cases l) (auto simp: option.map_comp comp_def case_prod_unfold)
  have "cut_text (CRLF @ CRLF) ((CRLF @ CRLF) @ r) = Some ([], r)"
    by (rule cut_text_front)
  then show ?thesis
    using assms line [of l3 "CRLF @ CRLF @ r"] line [of l2 "CRLF @ l3 @ CRLF @ CRLF @ r"] skip [of l1] by simp
qed

fun read_quoted :: "string \<Rightarrow> (string \<times> string) option" where
  "read_quoted [] = None"
| "read_quoted (c # r) =
    (if c = CHR 0x22 then Some ([], r)
     else if c = CHR 0x5C then (case r of d # r' \<Rightarrow> map_option (\<lambda>(a, b). (d # a, b)) (read_quoted r') | [] \<Rightarrow> None)
     else map_option (\<lambda>(a, b). (c # a, b)) (read_quoted r))"

definition shown_char :: "char \<Rightarrow> bool" where
  "shown_char c \<longleftrightarrow> \<not> (char_code c < 0x20 \<or> char_code c = 0x7F)"

lemma read_quoted_escape:
  "read_quoted (EscapeMultipartQuoted s @ [CHR 0x22] @ r) = Some (filter shown_char s, r)"
  by (induction s) (auto simp: EscapeMultipartQuoted_def shown_char_def char_code_def)

lemma escaped_no_break: "CHR 0x0D \<notin> set (EscapeMultipartQuoted s)"
  by (auto simp: EscapeMultipartQuoted_def char_code_def split: if_splits)

lemma mime_no_break: "CHR 0x0D \<notin> set (mime_of f)"
proof -
  have t: "list_all (\<lambda>(k, m). CHR 0x0D \<notin> set m) upload_mimes" "CHR 0x0D \<notin> set ''application/octet-stream''"
    by code_simp+
  have "CHR 0x0D \<notin> set m" if "map_of upload_mimes k = Some m" for k m
    using t(1) map_of_SomeD [OF that] by (auto simp: list_all_iff)
  then show ?thesis
    using t(2) by (auto simp: mime_of_def split: option.splits)
qed

lemma boundary_found:
  "list_ex (\<lambda>b. boundary_free b d \<and> boundary_free b f \<and> boundary_free b n) cs \<Longrightarrow> MakeMultipartBoundary cs d f n \<in> set cs
    \<and> boundary_free (MakeMultipartBoundary cs d f n) d"
  by (induction cs) auto

text \<open>C26: an upload survives its way: if one of the random boundaries is free, the body has one part, whose header is the
  three lines meant, whatever field and file are called, and whose content, up to the boundary named in the content type, is
  the file byte by byte; the names are read back without their control characters.\<close>

theorem upload_roundtrip:
  assumes "list_all (\<lambda>b. b \<noteq> [] \<and> list_all is_alnum_char b) cs"
    and "list_ex (\<lambda>b. boundary_free b d \<and> boundary_free b (EscapeMultipartQuoted field) \<and> boundary_free b (EscapeMultipartQuoted (base_name path))) cs"
  shows "\<exists>b rest. snd (ZmUploadPrelude cs path field d) = ''multipart/form-data; boundary='' @ b
    \<and> cut_text (CRLF @ CRLF) (fst (ZmUploadPrelude cs path field d)) = Some (''--'' @ b @ CRLF
        @ ''Content-Disposition: form-data; name='' @ [CHR 0x22] @ EscapeMultipartQuoted field @ [CHR 0x22] @ ''; filename=''
        @ [CHR 0x22] @ EscapeMultipartQuoted (base_name path) @ [CHR 0x22] @ CRLF
        @ ''Content-Type: '' @ mime_of (EscapeMultipartQuoted (base_name path)), rest)
    \<and> cut_text (CRLF @ ''--'' @ b) rest = Some (d, ''--'' @ CRLF)
    \<and> read_quoted (EscapeMultipartQuoted field @ [CHR 0x22]) = Some (filter shown_char field, [])
    \<and> read_quoted (EscapeMultipartQuoted (base_name path) @ [CHR 0x22]) = Some (filter shown_char (base_name path), [])"
proof -
  let ?f = "EscapeMultipartQuoted field" and ?n = "EscapeMultipartQuoted (base_name path)"
  let ?b = "MakeMultipartBoundary cs d ?f ?n"
  have b: "?b \<in> set cs" "cut_text ?b d = None"
    using boundary_found [OF assms(2)] by (simp_all add: boundary_free_def)
  then have alnum: "?b \<noteq> []" "list_all is_alnum_char ?b"
    using assms(1) by (auto simp: list_all_iff)
  then have cr: "CHR 0x0D \<notin> set ?b"
    by (auto simp: list_all_iff is_alnum_char_def is_digit_def char_code_def)
  let ?l2 = "''Content-Disposition: form-data; name='' @ [CHR 0x22] @ ?f @ [CHR 0x22] @ ''; filename='' @ [CHR 0x22] @ ?n @ [CHR 0x22]"
  let ?rest = "d @ CRLF @ ''--'' @ ?b @ ''--'' @ CRLF"
  have body: "fst (ZmUploadPrelude cs path field d) = (''--'' @ ?b) @ CRLF @ ?l2 @ CRLF @ (''Content-Type: '' @ mime_of ?n) @ CRLF @ CRLF @ ?rest"
    by (simp add: ZmUploadPrelude_def AssembleMultipart_def Let_def)
  have "cut_text (CRLF @ CRLF) ((''--'' @ ?b) @ CRLF @ ?l2 @ CRLF @ (''Content-Type: '' @ mime_of ?n) @ CRLF @ CRLF @ ?rest)
      = Some ((''--'' @ ?b) @ CRLF @ ?l2 @ CRLF @ ''Content-Type: '' @ mime_of ?n, ?rest)"
    by (rule cut_head) (use cr escaped_no_break mime_no_break in simp_all)
  moreover have "cut_text (CRLF @ ''--'' @ ?b) ?rest = Some (d, ''--'' @ CRLF)"
    by (rule cut_boundary [OF b(2) cr alnum(1)])
  moreover have "snd (ZmUploadPrelude cs path field d) = ''multipart/form-data; boundary='' @ ?b"
    by (simp add: ZmUploadPrelude_def Let_def)
  ultimately show ?thesis
    unfolding body using read_quoted_escape [of field "[]"] read_quoted_escape [of "base_name path" "[]"]
    by (intro exI [of _ ?b] exI [of _ ?rest]) simp
qed

theorem upload_roundtrip_witness:
  "\<exists>b rest. snd (ZmUploadPrelude [''B1''] ''/tmp/a.txt'' ''f'' ''hi'') = ''multipart/form-data; boundary='' @ b
    \<and> cut_text (CRLF @ ''--'' @ b) rest = Some (''hi'', ''--'' @ CRLF)"
  using upload_roundtrip [of "[''B1'']" "''hi''" "''f''" "''/tmp/a.txt''"]
  by (auto simp: boundary_free_def EscapeMultipartQuoted_def base_name_def char_code_def is_alnum_char_def is_digit_def)

text \<open>With an opening quote or a line break in the names the text stays one header.\<close>

lemma hostile_names:
  "fst (ZmUploadPrelude [''B1''] ([CHR 0x22, CHR 0x0A] @ ''x.zip'') ''f'' ''d'')
    = ''--B1'' @ CRLF @ ''Content-Disposition: form-data; name='' @ [CHR 0x22] @ ''f'' @ [CHR 0x22] @ ''; filename=''
      @ [CHR 0x22, CHR 0x5C, CHR 0x22] @ ''x.zip'' @ [CHR 0x22] @ CRLF @ ''Content-Type: application/zip'' @ CRLF @ CRLF
      @ ''d'' @ CRLF @ ''--B1--'' @ CRLF"
  by code_simp

end
