(* ===== verification/HcMachine.thy ===== *)
theory HcMachine
  imports HcText ZmJson
begin

text \<open>
  One request of the HTTP client: \<open>ZmSendMachine\<close> in \<open>net/zm_net_http_client.cpp\<close>, with its retries, redirections, budgets,
  cancellation and its one result.

  Every callback is a step: a scheduled \<open>NextAttempt\<close> runs, the response of an attempt arrives, the preparation of an
  upload ends, the token is set, the client closes and its loops drop what was scheduled.  The pool's client and drogon's
  answer are inputs.  A client's loop is never null, as drogon gives it one on creation.
\<close>

section \<open>Parameters\<close>

datatype req_result =
    ReqOk | ReqBadResponse | ReqNetworkFailure | ReqBadServerAddress | ReqTimeout
  | ReqHandshakeError | ReqInvalidCertificate | ReqEncryptionFailure

datatype hc_failure = FailNone | FailNotReady | FailLocalFile | FailCancelled

datatype hc_method = HGet | HPost | HHead | HPut | HDelete | HOptions | HPatch | HInvalid

record hc_response =
  rs_status :: nat
  rs_bodySize :: nat
  rs_location :: string      \<comment> \<open>\<open>getHeader\<close>, empty without the header\<close>

record hc_options =
  ho_retryMax :: int
  ho_maxTotalAttempts :: int
  ho_maxRedirects :: int
  ho_maxBodyBytes :: nat
  ho_commonHeaders :: "(string \<times> string) list"
  ho_json :: json_api

record hc_request_options =
  hq_retryCount :: int
  hq_idempotent :: bool
  hq_followRedirect :: bool
  hq_headers :: "(string \<times> string) list"
  hq_basicAuthUser :: string
  hq_basicAuthPass :: string
  hq_maxBodyBytes :: nat

record hc_result =
  hr_err :: req_result
  hr_status :: nat
  hr_resp :: "hc_response option"
  hr_retries :: nat
  hr_followedRedirect :: bool
  hr_finalUrl :: string
  hr_failure :: hc_failure

record hc_stats =
  st_requests :: nat
  st_ok :: nat
  st_status4xx :: nat
  st_badResponse :: nat
  st_timeout :: nat
  st_networkErr :: nat
  st_bytesIn :: nat

definition MakeErrorResult :: "req_result \<Rightarrow> nat \<Rightarrow> hc_result" where
  "MakeErrorResult err status = \<lparr>hr_err = err, hr_status = status, hr_resp = None, hr_retries = 0, hr_followedRedirect = False,
     hr_finalUrl = [], hr_failure = FailNone\<rparr>"

section \<open>Requests\<close>

record hc_request =
  rq_method :: hc_method
  rq_key :: string
  rq_path :: string
  rq_headers :: "(string \<times> string) list"
  rq_body :: "(string \<times> string) option"    \<comment> \<open>content type and text\<close>

fun IsIdempotentMethod :: "hc_method \<Rightarrow> bool" where
  "IsIdempotentMethod HGet = True"
| "IsIdempotentMethod HHead = True"
| "IsIdempotentMethod HPut = True"
| "IsIdempotentMethod HOptions = True"
| "IsIdempotentMethod HDelete = True"
| "IsIdempotentMethod _ = False"

definition IsSensitiveHeader :: "string \<Rightarrow> bool" where
  "IsSensitiveHeader name \<longleftrightarrow> (let l = ToLowerCopy name in l = ''authorization'' \<or> l = ''cookie'' \<or> l = ''proxy-authorization'')"

definition HasHeaderNoCase :: "(string \<times> string) list \<Rightarrow> string \<Rightarrow> bool" where
  "HasHeaderNoCase headers name \<longleftrightarrow> list_ex (\<lambda>(k, v). ToLowerCopy k = ToLowerCopy name) headers"

text \<open>The body, if there is one; none on the outside is the exception that \<open>dump\<close> throws for a string that is not UTF-8.\<close>

definition request_body :: "json_api \<Rightarrow> hc_method \<Rightarrow> json \<Rightarrow> string option \<Rightarrow> string \<Rightarrow> (string \<times> string) option option" where
  "request_body J m jsonBody rawBody rawContentType =
    (if m = HGet \<or> m = HHead then Some None
     else (case rawBody of
         Some b \<Rightarrow> Some (Some (rawContentType, b))
       | None \<Rightarrow>
           if jsonBody \<noteq> JNull
           then (case json_dump J jsonBody of None \<Rightarrow> None | Some t \<Rightarrow> Some (Some (''application/json'', t)))
           else Some None))"

definition PrepareRequest ::
  "json_api \<Rightarrow> hc_method \<Rightarrow> json \<Rightarrow> string option \<Rightarrow> string \<Rightarrow> (string \<times> string) list \<Rightarrow> url_target \<Rightarrow> bool \<Rightarrow> hc_request option" where
  "PrepareRequest J m jsonBody rawBody rawContentType headers tgt strip =
    (case request_body J m jsonBody rawBody rawContentType of
       None \<Rightarrow> None
     | Some b \<Rightarrow> Some \<lparr>rq_method = m, rq_key = ut_key tgt, rq_path = ut_path tgt,
         rq_headers = filter (\<lambda>(k, v). \<not> (strip \<and> IsSensitiveHeader k)) headers, rq_body = b\<rparr>)"

text \<open>The headers of a request, taken at the start.\<close>

definition basic_credentials :: "string \<Rightarrow> string \<Rightarrow> string" where
  "basic_credentials user pass = ''Basic '' @ map byte_char (hc_Base64Encode (map char_byte (user @ '':'' @ pass)))"

definition header_snapshot :: "hc_options \<Rightarrow> hc_request_options \<Rightarrow> (string \<times> string) list" where
  "header_snapshot d q = ho_commonHeaders d @ hq_headers q
    @ (if hq_basicAuthUser q \<noteq> [] \<and> \<not> HasHeaderNoCase (hq_headers q) ''Authorization'' \<and> \<not> HasHeaderNoCase (ho_commonHeaders d) ''Authorization''
       then [(''Authorization'', basic_credentials (hq_basicAuthUser q) (hq_basicAuthPass q))] else [])"

section \<open>State\<close>

datatype hc_cause = FirstTry | Retried | Redirected

record hm =
  hm_url0 :: string
  hm_curMethod :: hc_method
  hm_currentUrl :: string
  hm_lastUrl :: string
  hm_curBody :: json
  hm_curRaw :: string
  hm_curContentType :: string
  hm_rawProvided :: bool
  hm_headers :: "(string \<times> string) list"
  hm_retryBudget :: int
  hm_totalBudget :: int
  hm_retriesUsed :: nat
  hm_redirectsUsed :: nat
  hm_attemptUsed :: nat
  hm_everRedirected :: bool
  hm_strip :: bool
  hm_finished :: bool
  hm_thrown :: bool                      \<comment> \<open>an exception has left \<open>NextAttempt\<close>\<close>
  hm_lastTargetKey :: string
  hm_lastClient :: "nat option"
  hm_lastFailedClient :: "nat option"
  hm_attemptResult :: hc_result
  hm_cancelled :: bool
  hm_ready :: bool
  hm_prelude :: nat                      \<comment> \<open>preparations that run in the pool\<close>
  hm_ticks :: nat                        \<comment> \<open>calls of \<open>NextAttempt\<close> in the loops\<close>
  hm_waiting :: "nat list"               \<comment> \<open>attempts whose response has not come\<close>
  hm_stats :: hc_stats
  hm_results :: "hc_result list"         \<comment> \<open>what the callback has been given\<close>
  hm_cause :: hc_cause                   \<comment> \<open>history: why the next attempt is made\<close>
  hm_sent :: "(hc_cause \<times> hc_request) list"   \<comment> \<open>history: the requests\<close>
  hm_removed :: "(string \<times> nat) list"   \<comment> \<open>clients given back as broken\<close>

definition count_result :: "hc_result \<Rightarrow> hc_stats \<Rightarrow> hc_stats" where
  "count_result r st =
    (let st = st\<lparr>st_requests := st_requests st + 1\<rparr>;
         st = (case hr_err r of
             ReqOk \<Rightarrow> st\<lparr>st_ok := st_ok st + 1, st_status4xx := st_status4xx st + (if 400 \<le> hr_status r \<and> hr_status r \<le> 499 then 1 else 0)\<rparr>
           | ReqBadResponse \<Rightarrow> st\<lparr>st_badResponse := st_badResponse st + 1\<rparr>
           | ReqTimeout \<Rightarrow> st\<lparr>st_timeout := st_timeout st + 1\<rparr>
           | _ \<Rightarrow> st\<lparr>st_networkErr := st_networkErr st + 1\<rparr>) in
     (case hr_resp r of Some p \<Rightarrow> st\<lparr>st_bytesIn := st_bytesIn st + rs_bodySize p\<rparr> | None \<Rightarrow> st))"

definition hm_Finish :: "hc_result \<Rightarrow> hm \<Rightarrow> hm" where
  "hm_Finish r s =
    (if hm_finished s then s
     else let r = r\<lparr>hr_retries := hm_retriesUsed s, hr_followedRedirect := hm_everRedirected s, hr_finalUrl := hm_lastUrl s\<rparr> in
       s\<lparr>hm_finished := True, hm_stats := count_result r (hm_stats s), hm_results := hm_results s @ [r]\<rparr>)"

definition FinishErr :: "req_result \<Rightarrow> hc_failure \<Rightarrow> hm \<Rightarrow> hm" where
  "FinishErr err failure s = hm_Finish ((MakeErrorResult err 0)\<lparr>hr_failure := failure\<rparr>) s"

definition FinishCancelled :: "hm \<Rightarrow> hm" where
  "FinishCancelled s = FinishErr ReqNetworkFailure FailCancelled s"

text \<open>One attempt; the pool gives a client or none.  The exception of \<open>dump\<close> leaves it (\<open>hm_thrown\<close>): in a loop nothing catches
  it, and the request has nothing pending any more.\<close>

definition raw_body :: "hm \<Rightarrow> string option" where
  "raw_body s = (if hm_rawProvided s then Some (hm_curRaw s) else None)"

definition NextAttempt :: "hc_options \<Rightarrow> nat option \<Rightarrow> hm \<Rightarrow> hm" where
  "NextAttempt d client s =
    (if hm_finished s then s
     else if hm_cancelled s then FinishCancelled s
     else if \<not> hm_ready s then FinishErr ReqNetworkFailure FailNone s
     else if hm_totalBudget s \<le> int (hm_attemptUsed s) then hm_Finish (hm_attemptResult s) s
     else let s = s\<lparr>hm_attemptUsed := hm_attemptUsed s + 1\<rparr> in
       (case ParseUrl (hm_currentUrl s) of
          None \<Rightarrow> FinishErr ReqBadServerAddress FailNone s
        | Some tgt \<Rightarrow>
            let s = s\<lparr>hm_lastTargetKey := ut_key tgt\<rparr> in
            (case client of
               None \<Rightarrow> FinishErr ReqNetworkFailure FailNone s
             | Some c \<Rightarrow>
                 let s = s\<lparr>hm_lastClient := Some c, hm_lastFailedClient := None\<rparr> in
                 (case PrepareRequest (ho_json d) (hm_curMethod s) (hm_curBody s)
                     (raw_body s) (hm_curContentType s) (hm_headers s) tgt (hm_strip s) of
                    None \<Rightarrow> s\<lparr>hm_thrown := True\<rparr>
                  | Some rq \<Rightarrow>
                      s\<lparr>hm_waiting := hm_waiting s @ [hm_attemptUsed s], hm_sent := hm_sent s @ [(hm_cause s, rq)]\<rparr>))))"

definition attempt_result :: "hc_options \<Rightarrow> hc_request_options \<Rightarrow> req_result \<Rightarrow> hc_response option \<Rightarrow> hm \<Rightarrow> hc_result" where
  "attempt_result d q r resp s =
    (case (r, resp) of
       (ReqOk, Some p) \<Rightarrow>
         if (if 0 < hq_maxBodyBytes q then hq_maxBodyBytes q else ho_maxBodyBytes d) < rs_bodySize p
         then MakeErrorResult ReqBadResponse (rs_status p)
         else (hm_attemptResult s)\<lparr>hr_err := ReqOk, hr_status := rs_status p, hr_resp := Some p\<rparr>
     | _ \<Rightarrow> MakeErrorResult r 0)"

text \<open>A client without a response is avoided next time after a timeout, and given back otherwise.\<close>

definition drop_client :: "req_result \<Rightarrow> hc_response option \<Rightarrow> hm \<Rightarrow> hm" where
  "drop_client r resp s =
    (if resp \<noteq> None then s
     else if r = ReqTimeout then s\<lparr>hm_lastFailedClient := hm_lastClient s\<rparr>
     else (case hm_lastClient s of
         None \<Rightarrow> s
       | Some c \<Rightarrow> s\<lparr>hm_removed := hm_removed s @ [(hm_lastTargetKey s, c)]\<rparr>))"

definition redirect_to :: "nat \<Rightarrow> string \<Rightarrow> hm \<Rightarrow> hm" where
  "redirect_to status nextUrl s =
    (let crossed = (case ParseUrl nextUrl of Some nt \<Rightarrow> ut_key nt \<noteq> hm_lastTargetKey s | None \<Rightarrow> False);
         s = s\<lparr>hm_strip := hm_strip s \<or> crossed, hm_redirectsUsed := hm_redirectsUsed s + 1, hm_everRedirected := True,
           hm_currentUrl := nextUrl, hm_lastUrl := nextUrl, hm_cause := Redirected, hm_ticks := hm_ticks s + 1\<rparr> in
     if status = 303 \<or> (status = 301 \<or> status = 302) \<and> hm_curMethod s \<noteq> HGet \<and> hm_curMethod s \<noteq> HHead
     then s\<lparr>hm_curMethod := HGet, hm_curBody := JNull, hm_curRaw := [], hm_rawProvided := False\<rparr>
     else s)"

definition OnResponse :: "hc_options \<Rightarrow> hc_request_options \<Rightarrow> req_result \<Rightarrow> hc_response option \<Rightarrow> hm \<Rightarrow> hm" where
  "OnResponse d q r resp s =
    (let ar = attempt_result d q r resp s;
         s = s\<lparr>hm_attemptResult := ar\<rparr>;
         status = hr_status ar in
     if hm_cancelled s then FinishCancelled s
     else let
         netRetriable = (hr_err ar = ReqTimeout \<or> hr_err ar = ReqNetworkFailure);
         statusRetriable = (hr_err ar = ReqOk \<and> (500 \<le> status \<and> status \<le> 599 \<or> status = 429));
         methodRetriable = (IsIdempotentMethod (hm_curMethod s) \<or> hq_idempotent q);
         s = drop_client r resp s in
       if (netRetriable \<or> statusRetriable) \<and> methodRetriable \<and> int (hm_retriesUsed s) < hm_retryBudget s
       then s\<lparr>hm_retriesUsed := hm_retriesUsed s + 1, hm_ticks := hm_ticks s + 1, hm_cause := Retried\<rparr>
       else if hr_err ar = ReqOk \<and> 300 \<le> status \<and> status \<le> 399 \<and> status \<noteq> 300 \<and> hq_followRedirect q
         \<and> int (hm_redirectsUsed s) < ho_maxRedirects d
       then let loc = (case resp of Some p \<Rightarrow> dl_Trim (rs_location p) | None \<Rightarrow> []);
                nextUrl = (if loc = [] then [] else ResolveRedirect (hm_currentUrl s) loc) in
         if nextUrl \<noteq> [] then redirect_to status nextUrl s else hm_Finish ar s
       else hm_Finish ar s)"

text \<open>The gate of each attempt lets the first call through.\<close>

definition OnAttemptResponse :: "hc_options \<Rightarrow> hc_request_options \<Rightarrow> nat \<Rightarrow> req_result \<Rightarrow> hc_response option \<Rightarrow> hm \<Rightarrow> hm" where
  "OnAttemptResponse d q n r resp s =
    (if n \<in> set (hm_waiting s) then OnResponse d q r resp (s\<lparr>hm_waiting := remove1 n (hm_waiting s)\<rparr>) else s)"

text \<open>In the pool an exception is caught, and ends the request.\<close>

definition RunPreludeOnPool :: "hc_options \<Rightarrow> (string \<times> string) option \<Rightarrow> nat option \<Rightarrow> hm \<Rightarrow> hm" where
  "RunPreludeOnPool d prepared client s =
    (case prepared of
       None \<Rightarrow> FinishErr ReqNetworkFailure FailLocalFile s
     | Some (raw, ct) \<Rightarrow>
         let s = NextAttempt d client (s\<lparr>hm_curRaw := raw, hm_curContentType := ct\<rparr>)
         in if hm_thrown s then FinishErr ReqNetworkFailure FailLocalFile (s\<lparr>hm_thrown := False\<rparr>) else s)"

text \<open>\<open>Start\<close>: \<open>upload\<close> says that there is a preparation, \<open>running\<close> that pool and loops are there.\<close>

definition hm_Start ::
  "hc_options \<Rightarrow> hc_request_options \<Rightarrow> hc_method \<Rightarrow> string \<Rightarrow> json \<Rightarrow> string option \<Rightarrow> string \<Rightarrow> bool \<Rightarrow> bool \<Rightarrow> bool \<Rightarrow> hc_stats \<Rightarrow> hm" where
  "hm_Start d q m url body raw contentType upload running cancelled st =
    (let s = \<lparr>hm_url0 = url, hm_curMethod = m, hm_currentUrl = url, hm_lastUrl = url, hm_curBody = body,
         hm_curRaw = (case raw of Some b \<Rightarrow> b | None \<Rightarrow> []), hm_curContentType = contentType, hm_rawProvided = (raw \<noteq> None),
         hm_headers = header_snapshot d q,
         hm_retryBudget = (if 0 \<le> hq_retryCount q then hq_retryCount q else ho_retryMax d),
         hm_totalBudget = (if 0 < ho_maxTotalAttempts d then ho_maxTotalAttempts d else 8),
         hm_retriesUsed = 0, hm_redirectsUsed = 0, hm_attemptUsed = 0, hm_everRedirected = False, hm_strip = False,
         hm_finished = False, hm_thrown = False, hm_lastTargetKey = [], hm_lastClient = None, hm_lastFailedClient = None,
         hm_attemptResult = MakeErrorResult ReqOk 0, hm_cancelled = cancelled, hm_ready = running, hm_prelude = 0, hm_ticks = 0,
         hm_waiting = [], hm_stats = st, hm_results = [], hm_cause = FirstTry, hm_sent = [], hm_removed = []\<rparr> in
     if \<not> running then FinishErr ReqNetworkFailure FailNone s
     else if upload then s\<lparr>hm_prelude := 1\<rparr>
     else s\<lparr>hm_ticks := 1\<rparr>)"

section \<open>Steps\<close>

datatype hm_event =
    HTick "nat option"
  | HResponse nat req_result "hc_response option"
  | HPrepared "(string \<times> string) option" "nat option"
  | HCancel
  | HClose
  | HLost

fun hm_step :: "hc_options \<Rightarrow> hc_request_options \<Rightarrow> hm_event \<Rightarrow> hm \<Rightarrow> hm" where
  "hm_step d q (HTick client) s = (if 0 < hm_ticks s then NextAttempt d client (s\<lparr>hm_ticks := hm_ticks s - 1\<rparr>) else s)"
| "hm_step d q (HResponse n r resp) s = OnAttemptResponse d q n r resp s"
| "hm_step d q (HPrepared prepared client) s =
    (if 0 < hm_prelude s then RunPreludeOnPool d prepared client (s\<lparr>hm_prelude := hm_prelude s - 1\<rparr>) else s)"
| "hm_step d q HCancel s = s\<lparr>hm_cancelled := True\<rparr>"
| "hm_step d q HClose s = s\<lparr>hm_ready := False\<rparr>"
| "hm_step d q HLost s = (if hm_ready s then s else s\<lparr>hm_ticks := 0, hm_waiting := []\<rparr>)"

definition hm_run :: "hc_options \<Rightarrow> hc_request_options \<Rightarrow> hm_event list \<Rightarrow> hm \<Rightarrow> hm" where
  "hm_run d q es s = fold (hm_step d q) es s"

end
