(* ===== verification/HcProps.thy ===== *)
theory HcProps
  imports HcMachine "HOL-Library.Code_Target_Nat"
begin

text \<open>
  What a request of the HTTP client does: it ends with one result, within its budgets, repeats only what may be repeated,
  keeps credentials at their origin, and stops when it is cancelled.
\<close>

section \<open>One pending step, one result\<close>

definition pending :: "hm \<Rightarrow> nat" where
  "pending s = hm_ticks s + length (hm_waiting s) + hm_prelude s"

definition once_inv :: "hm \<Rightarrow> bool" where
  "once_inv s \<longleftrightarrow> (if hm_finished s then pending s = 0 \<and> length (hm_results s) = 1 \<and> \<not> hm_thrown s
     else hm_results s = [] \<and> (if hm_thrown s then pending s = 0 else pending s \<le> 1 \<and> (hm_ready s \<longrightarrow> pending s = 1)))"

text \<open>The step that was pending has been taken.\<close>

definition open_inv :: "hm \<Rightarrow> bool" where
  "open_inv s \<longleftrightarrow> \<not> hm_finished s \<and> pending s = 0 \<and> hm_results s = [] \<and> \<not> hm_thrown s"

lemma Finish_once: "open_inv s \<Longrightarrow> once_inv (hm_Finish r s)"
  by (simp add: open_inv_def once_inv_def hm_Finish_def pending_def Let_def)

lemma FinishErr_once: "open_inv s \<Longrightarrow> once_inv (FinishErr e f s)"
  by (simp add: FinishErr_def Finish_once)

lemma NextAttempt_once: "open_inv s \<Longrightarrow> once_inv (NextAttempt d client s)"
proof -
  assume s: "open_inv s"
  have u: "open_inv (s\<lparr>hm_attemptUsed := a\<rparr>)" "open_inv (s\<lparr>hm_attemptUsed := a, hm_lastTargetKey := k\<rparr>)" for a k
    using s by (simp_all add: open_inv_def pending_def)
  have "once_inv (s\<lparr>hm_attemptUsed := a, hm_lastTargetKey := k, hm_lastClient := c, hm_lastFailedClient := f, hm_waiting := hm_waiting s @ [n], hm_sent := x\<rparr>)"
    "once_inv (s\<lparr>hm_attemptUsed := a, hm_lastTargetKey := k, hm_lastClient := c, hm_lastFailedClient := f, hm_thrown := True\<rparr>)"
    for a k c f n x
    using s by (simp_all add: open_inv_def once_inv_def pending_def)
  then show ?thesis
    using s u Finish_once FinishErr_once by (auto simp: NextAttempt_def FinishCancelled_def Let_def open_inv_def split: option.splits)
qed

lemma NextAttempt_thrown: "open_inv s \<Longrightarrow> hm_thrown (NextAttempt d client s) \<longrightarrow> open_inv (NextAttempt d client s\<lparr>hm_thrown := False\<rparr>)"
  by (simp add: NextAttempt_def FinishCancelled_def FinishErr_def hm_Finish_def open_inv_def pending_def Let_def split: option.split)

lemma RunPreludeOnPool_once: "open_inv s \<Longrightarrow> once_inv (RunPreludeOnPool d prepared client s)"
proof -
  assume s: "open_inv s"
  then have "open_inv (s\<lparr>hm_curRaw := a, hm_curContentType := b\<rparr>)" for a b
    by (simp add: open_inv_def pending_def)
  then show ?thesis
    using NextAttempt_once NextAttempt_thrown FinishErr_once s by (auto simp: RunPreludeOnPool_def Let_def split: option.split)
qed

lemma drop_client_once: "open_inv (drop_client r resp s) = open_inv s"
  by (simp add: drop_client_def open_inv_def pending_def split: option.splits)

lemma OnResponse_once: "open_inv s \<Longrightarrow> once_inv (OnResponse d q r resp s)"
proof -
  assume s: "open_inv s"
  let ?s = "drop_client r resp (s\<lparr>hm_attemptResult := attempt_result d q r resp s\<rparr>)"
  have o: "open_inv (s\<lparr>hm_attemptResult := x\<rparr>)" "open_inv ?s" for x
    using s by (simp_all add: drop_client_once) (simp_all add: open_inv_def pending_def)
  have tick: "once_inv (?s\<lparr>hm_retriesUsed := n, hm_ticks := hm_ticks ?s + 1, hm_cause := c\<rparr>)" for n c
    using o(2) by (simp add: open_inv_def once_inv_def pending_def)
  have red: "once_inv (redirect_to st u ?s)" for st u
    using o(2) by (simp add: redirect_to_def Let_def open_inv_def once_inv_def pending_def)
  show ?thesis
    unfolding OnResponse_def Let_def
    using o tick red Finish_once FinishErr_once by (simp add: FinishCancelled_def split: option.splits)
qed

lemma hm_step_once: "once_inv s \<Longrightarrow> once_inv (hm_step d q e s)"
proof (cases e)
  case (HTick client)
  assume s: "once_inv s"
  then have "0 < hm_ticks s \<Longrightarrow> open_inv (s\<lparr>hm_ticks := hm_ticks s - 1\<rparr>)"
    by (auto simp: once_inv_def open_inv_def pending_def split: if_splits)
  then show ?thesis
    using s HTick NextAttempt_once by simp
next
  case (HResponse n r resp)
  assume s: "once_inv s"
  have "open_inv (s\<lparr>hm_waiting := remove1 n (hm_waiting s)\<rparr>)" if "n \<in> set (hm_waiting s)"
    using s that by (cases "hm_waiting s") (auto simp: once_inv_def open_inv_def pending_def split: if_splits)
  then show ?thesis
    using s HResponse OnResponse_once by (simp add: OnAttemptResponse_def)
next
  case (HPrepared p client)
  assume s: "once_inv s"
  then have "0 < hm_prelude s \<Longrightarrow> open_inv (s\<lparr>hm_prelude := hm_prelude s - 1\<rparr>)"
    by (auto simp: once_inv_def open_inv_def pending_def split: if_splits)
  then show ?thesis
    using s HPrepared RunPreludeOnPool_once by simp
next
  case HLost
  assume "once_inv s"
  then show ?thesis
    using HLost by (auto simp: once_inv_def pending_def)
qed (auto simp: once_inv_def pending_def split: if_splits)

lemma hm_Start_once: "once_inv (hm_Start d q m url body raw ct upload running cancelled st)"
  by (simp add: hm_Start_def FinishErr_def hm_Finish_def once_inv_def pending_def Let_def)

text \<open>A run is one of the library's systems whose steps do not fail.\<close>

lemma run_steps_hm: "run_steps (\<lambda>e s. Inr (hm_step d q e s) :: unit + hm) es s = Inr (hm_run d q es s)"
  by (induction es arbitrary: s) (simp_all add: hm_run_def)

interpretation hm_once: total_system once_inv "\<lambda>_. True" "\<lambda>e s. Inr (hm_step d q e s) :: unit + hm" for d q
  by unfold_locales (auto simp: hm_step_once)

lemma hm_run_once: "once_inv s \<Longrightarrow> once_inv (hm_run d q es s)"
  using hm_once.inv_run [of s es d q] by (simp add: run_steps_hm)

section \<open>Budgets\<close>

definition budget_inv :: "hc_options \<Rightarrow> hm \<Rightarrow> bool" where
  "budget_inv d s \<longleftrightarrow> length (hm_sent s) \<le> hm_attemptUsed s \<and> int (hm_attemptUsed s) \<le> hm_totalBudget s
     \<and> int (hm_retriesUsed s) \<le> max 0 (hm_retryBudget s) \<and> int (hm_redirectsUsed s) \<le> max 0 (ho_maxRedirects d)
     \<and> hm_attemptUsed s + hm_ticks s + hm_prelude s \<le> 1 + hm_retriesUsed s + hm_redirectsUsed s"

lemma Finish_budget [simp]: "budget_inv d (hm_Finish r s) = budget_inv d s" "budget_inv d (FinishErr e f s) = budget_inv d s"
  "budget_inv d (FinishCancelled s) = budget_inv d s"
  by (simp_all add: budget_inv_def hm_Finish_def FinishErr_def FinishCancelled_def Let_def)

lemma NextAttempt_budget:
  assumes "budget_inv d s" "hm_attemptUsed s + hm_ticks s + hm_prelude s \<le> hm_retriesUsed s + hm_redirectsUsed s"
  shows "budget_inv d (NextAttempt d client s)"
proof -
  have "budget_inv d (s\<lparr>hm_attemptUsed := hm_attemptUsed s + 1, hm_lastTargetKey := k\<rparr>)" "budget_inv d (s\<lparr>hm_attemptUsed := hm_attemptUsed s + 1\<rparr>)"
    if "\<not> hm_totalBudget s \<le> int (hm_attemptUsed s)" for k
    using assms that by (simp_all add: budget_inv_def)
  then show ?thesis
    using assms by (auto simp: NextAttempt_def Let_def split: option.splits) (auto simp: budget_inv_def)
qed

lemma RunPreludeOnPool_budget:
  assumes "budget_inv d s" "hm_attemptUsed s + hm_ticks s + hm_prelude s \<le> hm_retriesUsed s + hm_redirectsUsed s"
  shows "budget_inv d (RunPreludeOnPool d prepared client s)"
proof -
  have "budget_inv d (NextAttempt d client (s\<lparr>hm_curRaw := a, hm_curContentType := b\<rparr>))" for a b
    using assms by (intro NextAttempt_budget) (auto simp: budget_inv_def)
  moreover have "budget_inv d (t\<lparr>hm_thrown := False\<rparr>) = budget_inv d t" for t
    by (simp add: budget_inv_def)
  ultimately show ?thesis
    using assms by (auto simp: RunPreludeOnPool_def Let_def split: option.split)
qed

lemma drop_client_budget [simp]: "budget_inv d (drop_client r resp s) = budget_inv d s" "hm_retriesUsed (drop_client r resp s) = hm_retriesUsed s"
  "hm_redirectsUsed (drop_client r resp s) = hm_redirectsUsed s" "hm_retryBudget (drop_client r resp s) = hm_retryBudget s"
  "hm_currentUrl (drop_client r resp s) = hm_currentUrl s"
  by (simp_all add: drop_client_def budget_inv_def split: option.splits)

lemma OnResponse_budget: "budget_inv d s \<Longrightarrow> budget_inv d (OnResponse d q r resp s)"
proof -
  assume s: "budget_inv d s"
  have a: "budget_inv d (s\<lparr>hm_attemptResult := x\<rparr>)" for x
    using s by (simp add: budget_inv_def)
  let ?t = "drop_client r resp (s\<lparr>hm_attemptResult := attempt_result d q r resp s\<rparr>)"
  have t: "budget_inv d ?t"
    using a by simp
  then have "budget_inv d (?t\<lparr>hm_retriesUsed := hm_retriesUsed ?t + 1, hm_ticks := hm_ticks ?t + 1, hm_cause := c\<rparr>)"
    if "int (hm_retriesUsed ?t) < hm_retryBudget ?t" for c
    using that by (simp add: budget_inv_def del: drop_client_budget)
  moreover have "budget_inv d (redirect_to st u ?t)" if "int (hm_redirectsUsed ?t) < ho_maxRedirects d" for st u
    using t that by (simp add: redirect_to_def Let_def budget_inv_def del: drop_client_budget)
  ultimately show ?thesis
    unfolding OnResponse_def Let_def using a by (simp split: option.splits)
qed

lemma hm_step_budget: "budget_inv d s \<Longrightarrow> budget_inv d (hm_step d q e s)"
proof (cases e)
  case (HTick client)
  assume s: "budget_inv d s"
  have "budget_inv d (NextAttempt d client (s\<lparr>hm_ticks := hm_ticks s - 1\<rparr>))" if "0 < hm_ticks s"
    using s that by (intro NextAttempt_budget) (auto simp: budget_inv_def)
  then show ?thesis
    using s HTick by simp
next
  case (HResponse n r resp)
  assume s: "budget_inv d s"
  then have "budget_inv d (s\<lparr>hm_waiting := w\<rparr>)" for w
    by (simp add: budget_inv_def)
  then show ?thesis
    using s HResponse OnResponse_budget by (simp add: OnAttemptResponse_def)
next
  case (HPrepared p client)
  assume s: "budget_inv d s"
  have "budget_inv d (RunPreludeOnPool d p client (s\<lparr>hm_prelude := hm_prelude s - 1\<rparr>))" if "0 < hm_prelude s"
    using s that by (intro RunPreludeOnPool_budget) (auto simp: budget_inv_def)
  then show ?thesis
    using s HPrepared by simp
qed (simp_all add: budget_inv_def)

lemma hm_Start_budget: "budget_inv d (hm_Start d q m url body raw ct upload running cancelled st)"
  by (simp add: hm_Start_def Let_def) (simp add: budget_inv_def)

interpretation hm_budget: total_system "budget_inv d" "\<lambda>_. True" "\<lambda>e s. Inr (hm_step d q e s) :: unit + hm" for d q
  by unfold_locales (auto simp: hm_step_budget)

lemma hm_run_budget: "budget_inv d s \<Longrightarrow> budget_inv d (hm_run d q es s)"
  using hm_budget.inv_run [of d s es] by (simp add: run_steps_hm)

section \<open>What a response leads to\<close>

lemma drop_client_fields [simp]: "hm_totalBudget (drop_client r resp s) = hm_totalBudget s" "hm_curMethod (drop_client r resp s) = hm_curMethod s"
  "hm_strip (drop_client r resp s) = hm_strip s" "hm_sent (drop_client r resp s) = hm_sent s" "hm_cause (drop_client r resp s) = hm_cause s"
  "hm_finished (drop_client r resp s) = hm_finished s" "hm_waiting (drop_client r resp s) = hm_waiting s"
  "hm_lastTargetKey (drop_client r resp s) = hm_lastTargetKey s" "hm_results (drop_client r resp s) = hm_results s"
  "hm_cancelled (drop_client r resp s) = hm_cancelled s" "hm_prelude (drop_client r resp s) = hm_prelude s"
  "hm_ticks (drop_client r resp s) = hm_ticks s" "hm_attemptUsed (drop_client r resp s) = hm_attemptUsed s" "hm_headers (drop_client r resp s) = hm_headers s"
  by (simp_all add: drop_client_def split: option.splits)

lemma OnResponse_outcome:
  fixes d :: hc_options and q :: hc_request_options and r :: req_result and resp :: "hc_response option" and s :: hm
  defines "ar \<equiv> attempt_result d q r resp s"
  defines "t \<equiv> drop_client r resp (s\<lparr>hm_attemptResult := ar\<rparr>)"
  obtains (cancel) "hm_cancelled s" "OnResponse d q r resp s = FinishCancelled (s\<lparr>hm_attemptResult := ar\<rparr>)"
  | (retry) "\<not> hm_cancelled s" "IsIdempotentMethod (hm_curMethod s) \<or> hq_idempotent q"
      "OnResponse d q r resp s = t\<lparr>hm_retriesUsed := hm_retriesUsed t + 1, hm_ticks := hm_ticks t + 1, hm_cause := Retried\<rparr>"
  | (redirect) st u where "\<not> hm_cancelled s" "OnResponse d q r resp s = redirect_to st u t"
  | (finish) "\<not> hm_cancelled s" "OnResponse d q r resp s = hm_Finish ar t"
proof (cases "hm_cancelled s")
  case True
  then show ?thesis
    by (intro cancel) (simp_all add: OnResponse_def Let_def ar_def)
next
  case False
  define R where "R \<longleftrightarrow> ((hr_err ar = ReqTimeout \<or> hr_err ar = ReqNetworkFailure)
      \<or> (hr_err ar = ReqOk \<and> (500 \<le> hr_status ar \<and> hr_status ar \<le> 599 \<or> hr_status ar = 429)))
    \<and> (IsIdempotentMethod (hm_curMethod s) \<or> hq_idempotent q) \<and> int (hm_retriesUsed t) < hm_retryBudget t"
  define D where "D \<longleftrightarrow> hr_err ar = ReqOk \<and> 300 \<le> hr_status ar \<and> hr_status ar \<le> 399 \<and> hr_status ar \<noteq> 300 \<and> hq_followRedirect q
    \<and> int (hm_redirectsUsed t) < ho_maxRedirects d"
  define loc where "loc = (case resp of Some p \<Rightarrow> dl_Trim (rs_location p) | None \<Rightarrow> [])"
  define u where "u = (if loc = [] then [] else ResolveRedirect (hm_currentUrl t) loc)"
  have eq: "OnResponse d q r resp s = (if R then t\<lparr>hm_retriesUsed := hm_retriesUsed t + 1, hm_ticks := hm_ticks t + 1, hm_cause := Retried\<rparr>
      else if D then (if u \<noteq> [] then redirect_to (hr_status ar) u t else hm_Finish ar t) else hm_Finish ar t)"
    using False unfolding OnResponse_def Let_def ar_def t_def R_def D_def loc_def u_def by simp
  consider "R" | "\<not> R" "D \<and> u \<noteq> []" | "\<not> R" "\<not> (D \<and> u \<noteq> [])"
    by blast
  then show ?thesis
  proof cases
    case 1
    then show ?thesis
      using False eq retry by (auto simp: R_def)
  next
    case 2
    then show ?thesis
      using False eq redirect by auto
  next
    case 3
    then have "OnResponse d q r resp s = hm_Finish ar t"
      using eq by auto
    then show ?thesis
      by (rule finish [OF False])
  qed
qed

text \<open>The budgets are set by the start.\<close>

definition same_budgets :: "hm \<Rightarrow> hm \<Rightarrow> bool" where
  "same_budgets s t \<longleftrightarrow> hm_totalBudget t = hm_totalBudget s \<and> hm_retryBudget t = hm_retryBudget s"

lemma same_budgets_step: "same_budgets s (hm_step d q e s)"
proof -
  have f: "same_budgets s (hm_Finish r t) = same_budgets s t" "same_budgets s (FinishErr x y t) = same_budgets s t"
    "same_budgets s (FinishCancelled t) = same_budgets s t" "same_budgets s (drop_client rr resp t) = same_budgets s t" for s t r x y rr resp
    by (simp_all add: same_budgets_def hm_Finish_def FinishErr_def FinishCancelled_def Let_def drop_client_def split: option.splits)
  have n: "same_budgets s (NextAttempt d c t)" if "same_budgets s t" for s t c
    using that by (simp add: NextAttempt_def Let_def f split: option.splits) (simp add: same_budgets_def)
  have r: "same_budgets s (OnResponse d q rr resp t)" if "same_budgets s t" for s t rr resp
    using that by (cases rule: OnResponse_outcome [where d = d and q = q and r = rr and resp = resp and s = t])
      (simp_all add: f redirect_to_def Let_def, simp_all add: same_budgets_def)
  have p: "same_budgets s (RunPreludeOnPool d prepared c t)" if "same_budgets s t" for s t prepared c
  proof -
    have "same_budgets s (t\<lparr>hm_curRaw := a, hm_curContentType := b\<rparr>)" for a b
      using that by (simp add: same_budgets_def)
    then have "same_budgets s (NextAttempt d c (t\<lparr>hm_curRaw := a, hm_curContentType := b\<rparr>))" for a b
      by (rule n)
    moreover have "same_budgets s (u\<lparr>hm_thrown := False\<rparr>) = same_budgets s u" for u
      by (simp add: same_budgets_def)
    ultimately show ?thesis
      using that by (simp add: RunPreludeOnPool_def Let_def f split: option.split prod.split)
  qed
  show ?thesis
    by (cases e) (auto simp: OnAttemptResponse_def f intro!: n r p split: option.splits prod.splits, simp_all add: same_budgets_def)
qed

lemma hm_Start_budgets:
  "hm_totalBudget (hm_Start d q m url body raw ct upload running cancelled st) = (if 0 < ho_maxTotalAttempts d then ho_maxTotalAttempts d else 8)"
  "hm_retryBudget (hm_Start d q m url body raw ct upload running cancelled st) = (if 0 \<le> hq_retryCount q then hq_retryCount q else ho_retryMax d)"
  by (simp_all add: hm_Start_def Let_def FinishErr_def hm_Finish_def)

lemma same_budgets_run: "same_budgets s (hm_run d q es s)"
proof -
  have "same_budgets s t \<Longrightarrow> same_budgets s (fold (hm_step d q) es t)" for t
    using same_budgets_step by (induction es arbitrary: t) (auto simp: same_budgets_def)
  then show ?thesis
    by (simp add: hm_run_def same_budgets_def)
qed

section \<open>Repetitions and credentials\<close>

lemma Finish_fields [simp]: "hm_sent (hm_Finish r s) = hm_sent s" "hm_sent (FinishErr e f s) = hm_sent s" "hm_sent (FinishCancelled s) = hm_sent s"
  "hm_finished (hm_Finish r s)" "hm_finished (FinishErr e f s)" "hm_finished (FinishCancelled s)"
  "hm_waiting (hm_Finish r s) = hm_waiting s" "hm_waiting (FinishErr e f s) = hm_waiting s" "hm_waiting (FinishCancelled s) = hm_waiting s"
  "hm_ticks (hm_Finish r s) = hm_ticks s" "hm_ticks (FinishErr e f s) = hm_ticks s" "hm_ticks (FinishCancelled s) = hm_ticks s"
  by (auto simp: hm_Finish_def FinishErr_def FinishCancelled_def Let_def)

text \<open>What a request is sent for, and where to; \<open>key\<close> is the origin of the first URL.\<close>

definition hc_sent_ok :: "hc_request_options \<Rightarrow> string \<Rightarrow> hc_cause \<times> hc_request \<Rightarrow> bool" where
  "hc_sent_ok q key cr \<longleftrightarrow> (if fst cr = Retried then IsIdempotentMethod (rq_method (snd cr)) \<or> hq_idempotent q else True)
     \<and> (if rq_key (snd cr) \<noteq> key then list_all (\<lambda>(k, v). \<not> IsSensitiveHeader k) (rq_headers (snd cr)) else True)"

definition sent_inv :: "hc_request_options \<Rightarrow> string \<Rightarrow> hm \<Rightarrow> bool" where
  "sent_inv q key s \<longleftrightarrow> list_all (hc_sent_ok q key) (hm_sent s)
     \<and> (hm_finished s
       \<or> (hm_cause s = Retried \<longrightarrow> IsIdempotentMethod (hm_curMethod s) \<or> hq_idempotent q)
         \<and> (\<not> hm_strip s \<longrightarrow> (case ParseUrl (hm_currentUrl s) of None \<Rightarrow> True | Some t \<Rightarrow> ut_key t = key)
           \<and> (hm_waiting s \<noteq> [] \<longrightarrow> hm_lastTargetKey s = key)))"

lemma sent_finish: "list_all (hc_sent_ok q key) (hm_sent s) \<Longrightarrow> sent_inv q key (hm_Finish r s)"
  "list_all (hc_sent_ok q key) (hm_sent s) \<Longrightarrow> sent_inv q key (FinishErr e f s)"
  "list_all (hc_sent_ok q key) (hm_sent s) \<Longrightarrow> sent_inv q key (FinishCancelled s)"
  by (simp_all add: sent_inv_def)

lemma sent_all: "sent_inv q key s \<Longrightarrow> list_all (hc_sent_ok q key) (hm_sent s)"
  by (simp add: sent_inv_def)

lemma NextAttempt_sent:
  assumes "sent_inv q key s"
  shows "sent_inv q key (NextAttempt d client s)"
proof (cases "hm_finished s")
  case True
  then show ?thesis
    using assms by (simp add: NextAttempt_def)
next
  case False
  note all = sent_all [OF assms]
  have send: "sent_inv q key (s\<lparr>hm_attemptUsed := n, hm_lastTargetKey := ut_key t, hm_lastClient := c, hm_lastFailedClient := None,
      hm_waiting := w, hm_sent := hm_sent s @ [(hm_cause s, rq)]\<rparr>)"
    if "ParseUrl (hm_currentUrl s) = Some t"
      and rq: "PrepareRequest J (hm_curMethod s) b raw ct (hm_headers s) t (hm_strip s) = Some rq" for t n c w J b raw ct rq
  proof -
    have "rq_method rq = hm_curMethod s" "rq_key rq = ut_key t"
      "rq_headers rq = filter (\<lambda>(k, v). \<not> (hm_strip s \<and> IsSensitiveHeader k)) (hm_headers s)"
      using rq by (auto simp: PrepareRequest_def split: option.splits)
    then have new: "hc_sent_ok q key (hm_cause s, rq)"
      using assms False that(1) by (cases "hm_strip s") (auto simp: sent_inv_def hc_sent_ok_def list_all_iff)
    show ?thesis
      using assms False that(1) new by (auto simp: sent_inv_def)
  qed
  have thrown: "sent_inv q key (s\<lparr>hm_attemptUsed := n, hm_lastTargetKey := ut_key t, hm_lastClient := c, hm_lastFailedClient := None, hm_thrown := True\<rparr>)"
    if "ParseUrl (hm_currentUrl s) = Some t" for t n c
    using assms False that by (auto simp: sent_inv_def)
  show ?thesis
    using all send thrown False by (auto simp: NextAttempt_def Let_def split: option.splits intro: sent_finish)
qed

lemma RunPreludeOnPool_sent:
  assumes "sent_inv q key s"
  shows "sent_inv q key (RunPreludeOnPool d prepared client s)"
proof -
  have "sent_inv q key (s\<lparr>hm_curRaw := a, hm_curContentType := b\<rparr>)" for a b
    using assms by (simp add: sent_inv_def)
  then have n: "sent_inv q key (NextAttempt d client (s\<lparr>hm_curRaw := a, hm_curContentType := b\<rparr>))" for a b
    by (rule NextAttempt_sent)
  then have "list_all (hc_sent_ok q key) (hm_sent (NextAttempt d client (s\<lparr>hm_curRaw := a, hm_curContentType := b\<rparr>)\<lparr>hm_thrown := False\<rparr>))" for a b
    using sent_all by fastforce
  then show ?thesis
    using n sent_all [OF assms] by (auto simp: RunPreludeOnPool_def Let_def sent_finish split: option.split)
qed

lemma OnResponse_sent:
  assumes "sent_inv q key s" "hm_finished s \<or> hm_strip s \<or> hm_lastTargetKey s = key"
  shows "sent_inv q key (OnResponse d q r resp s)"
proof -
  let ?s = "s\<lparr>hm_attemptResult := attempt_result d q r resp s\<rparr>"
  have all: "list_all (hc_sent_ok q key) (hm_sent s)"
    by (rule sent_all [OF assms(1)])
  show ?thesis
  proof (cases rule: OnResponse_outcome [where d = d and q = q and r = r and resp = resp and s = s])
    case retry
    have "hm_currentUrl (drop_client r resp ?s) = hm_currentUrl s"
      by simp
    then show ?thesis
      using assms(1) retry(2) unfolding retry(3) by (auto simp: sent_inv_def)
  next
    case (redirect st u)
    have "sent_inv q key (redirect_to st u t)" if "list_all (hc_sent_ok q key) (hm_sent t)"
      "hm_finished t \<or> hm_strip t \<or> hm_lastTargetKey t = key" for t
      using that by (auto simp: redirect_to_def Let_def sent_inv_def split: option.splits)
    then show ?thesis
      unfolding redirect(2) using all assms(2) by simp
  qed (use all in \<open>simp_all add: sent_finish\<close>)
qed

lemma hm_step_sent:
  assumes "sent_inv q key s"
  shows "sent_inv q key (hm_step d q e s)"
proof (cases e)
  case (HResponse n r resp)
  let ?s = "s\<lparr>hm_waiting := remove1 n (hm_waiting s)\<rparr>"
  have "sent_inv q key ?s"
    using assms set_remove1_subset [of n "hm_waiting s"] by (auto simp: sent_inv_def)
  moreover have "hm_finished s \<or> hm_strip s \<or> hm_lastTargetKey s = key" if "n \<in> set (hm_waiting s)"
    using assms that by (auto simp: sent_inv_def)
  ultimately show ?thesis
    using assms HResponse OnResponse_sent [of q key ?s] by (simp add: OnAttemptResponse_def)
next
  case (HPrepared p client)
  have "sent_inv q key (s\<lparr>hm_prelude := x\<rparr>)" for x
    using assms by (simp add: sent_inv_def)
  then show ?thesis
    using assms HPrepared RunPreludeOnPool_sent by simp
next
  case (HTick client)
  have "sent_inv q key (s\<lparr>hm_ticks := x\<rparr>)" for x
    using assms by (simp add: sent_inv_def)
  then show ?thesis
    using assms HTick NextAttempt_sent by simp
qed (use assms in \<open>auto simp: sent_inv_def\<close>)

interpretation hm_safe: total_system "sent_inv q key" "\<lambda>_. True" "\<lambda>e s. Inr (hm_step d q e s) :: unit + hm" for d q key
  by unfold_locales (auto simp: hm_step_sent)

lemma hm_run_sent: "sent_inv q key s \<Longrightarrow> sent_inv q key (hm_run d q es s)"
  using hm_safe.inv_run [of q key s es] by (simp add: run_steps_hm)

lemma hm_Start_sent:
  "(case ParseUrl url of None \<Rightarrow> True | Some t \<Rightarrow> ut_key t = key) \<Longrightarrow> sent_inv q key (hm_Start d q m url body raw ct upload running cancelled st)"
  by (simp add: hm_Start_def Let_def sent_finish) (simp add: sent_inv_def)

section \<open>Bodies that can be written\<close>

definition sendable :: "hc_method \<Rightarrow> json \<Rightarrow> bool \<Rightarrow> bool" where
  "sendable m body raw \<longleftrightarrow> raw \<or> m = HGet \<or> m = HHead \<or> json_utf8 body"

definition dumps_inv :: "hm \<Rightarrow> bool" where
  "dumps_inv s \<longleftrightarrow> \<not> hm_thrown s \<and> sendable (hm_curMethod s) (hm_curBody s) (hm_rawProvided s)"

lemma prepared_sendable: "sendable m body (raw \<noteq> None) \<Longrightarrow> PrepareRequest J m body raw ct hs tgt strip \<noteq> None"
  by (auto simp: PrepareRequest_def request_body_def json_dump_def sendable_def split: option.split)

lemma finish_dumps [simp]: "dumps_inv (hm_Finish r s) = dumps_inv s" "dumps_inv (FinishErr e f s) = dumps_inv s" "dumps_inv (FinishCancelled s) = dumps_inv s"
  "dumps_inv (drop_client rr resp s) = dumps_inv s"
  by (simp_all add: dumps_inv_def hm_Finish_def FinishErr_def FinishCancelled_def drop_client_def Let_def split: option.split)

lemma NextAttempt_body:
  "hm_curMethod (NextAttempt d client s) = hm_curMethod s" "hm_curBody (NextAttempt d client s) = hm_curBody s"
  "hm_rawProvided (NextAttempt d client s) = hm_rawProvided s"
  by (simp_all add: NextAttempt_def FinishErr_def FinishCancelled_def hm_Finish_def Let_def split: option.split)

lemma NextAttempt_throws:
  "hm_thrown (NextAttempt d client s) \<longrightarrow> hm_thrown s
    \<or> (\<exists>ct hs tgt strip. PrepareRequest (ho_json d) (hm_curMethod s) (hm_curBody s) (raw_body s) ct hs tgt strip = None)"
proof -
  have "raw_body (s\<lparr>hm_attemptUsed := n, hm_lastTargetKey := k, hm_lastClient := c, hm_lastFailedClient := f\<rparr>) = raw_body s" for n k c f
    by (simp add: raw_body_def)
  then show ?thesis
    by (auto simp: NextAttempt_def FinishErr_def FinishCancelled_def hm_Finish_def Let_def split: option.split)
      (metis option.distinct(1))
qed

lemma NextAttempt_dumps:
  assumes "dumps_inv s"
  shows "dumps_inv (NextAttempt d client s)"
proof -
  have "PrepareRequest (ho_json d) (hm_curMethod s) (hm_curBody s) (raw_body s) ct hs tgt strip \<noteq> None" for ct hs tgt strip
    using assms by (intro prepared_sendable) (cases "hm_rawProvided s"; simp add: dumps_inv_def raw_body_def)
  then show ?thesis
    using assms NextAttempt_throws [of d client s] unfolding dumps_inv_def NextAttempt_body by metis
qed

lemma RunPreludeOnPool_dumps: "dumps_inv s \<Longrightarrow> dumps_inv (RunPreludeOnPool d prepared client s)"
proof -
  assume s: "dumps_inv s"
  then have "dumps_inv (NextAttempt d client (s\<lparr>hm_curRaw := a, hm_curContentType := b\<rparr>))" for a b
    by (intro NextAttempt_dumps) (simp add: dumps_inv_def)
  then show ?thesis
    using s by (auto simp: RunPreludeOnPool_def Let_def dumps_inv_def [of "NextAttempt d client t" for t] split: option.split)
qed

lemma OnResponse_dumps:
  assumes "dumps_inv s"
  shows "dumps_inv (OnResponse d q r resp s)"
proof -
  have red: "dumps_inv (redirect_to st u t)" if "dumps_inv t" for st u t
    using that by (auto simp: redirect_to_def Let_def dumps_inv_def sendable_def)
  have retry: "dumps_inv (t\<lparr>hm_retriesUsed := n, hm_ticks := k, hm_cause := c\<rparr>) = dumps_inv t" for t n k c
    by (simp add: dumps_inv_def)
  have s: "dumps_inv (s\<lparr>hm_attemptResult := x\<rparr>)" for x
    using assms by (simp add: dumps_inv_def)
  show ?thesis
    by (cases rule: OnResponse_outcome [where d = d and q = q and r = r and resp = resp and s = s])
      (simp_all add: red retry s)
qed

lemma hm_step_dumps: "dumps_inv s \<Longrightarrow> dumps_inv (hm_step d q e s)"
proof (cases e)
  case (HTick client)
  assume s: "dumps_inv s"
  then have "dumps_inv (s\<lparr>hm_ticks := x\<rparr>)" for x
    by (simp add: dumps_inv_def)
  then show ?thesis
    using s HTick NextAttempt_dumps by simp
next
  case (HResponse n r resp)
  assume s: "dumps_inv s"
  then have "dumps_inv (s\<lparr>hm_waiting := x\<rparr>)" for x
    by (simp add: dumps_inv_def)
  then show ?thesis
    using s HResponse OnResponse_dumps by (simp add: OnAttemptResponse_def)
next
  case (HPrepared p client)
  assume s: "dumps_inv s"
  then have "dumps_inv (s\<lparr>hm_prelude := x\<rparr>)" for x
    by (simp add: dumps_inv_def)
  then show ?thesis
    using s HPrepared RunPreludeOnPool_dumps by simp
qed (simp_all add: dumps_inv_def)

lemma hm_Start_dumps: "sendable m body (raw \<noteq> None) \<Longrightarrow> dumps_inv (hm_Start d q m url body raw ct upload running cancelled st)"
  by (simp add: hm_Start_def Let_def) (simp add: dumps_inv_def)

interpretation hm_dumps: total_system dumps_inv "\<lambda>_. True" "\<lambda>e s. Inr (hm_step d q e s) :: unit + hm" for d q
  by unfold_locales (auto simp: hm_step_dumps)

lemma hm_run_dumps: "dumps_inv s \<Longrightarrow> dumps_inv (hm_run d q es s)"
  using hm_dumps.inv_run [of s es d q] by (simp add: run_steps_hm)

text \<open>A request out of which the exception has gone, as its body could not be written.\<close>

definition lost_inv :: "(hc_cause \<times> hc_request) list \<Rightarrow> hm \<Rightarrow> bool" where
  "lost_inv sent s \<longleftrightarrow> \<not> hm_finished s \<and> pending s = 0 \<and> hm_results s = [] \<and> hm_sent s = sent"

lemma lost_step: "lost_inv sent s \<Longrightarrow> lost_inv sent (hm_step d q e s)"
  by (cases e) (auto simp: lost_inv_def pending_def OnAttemptResponse_def)

interpretation hm_lost: total_system "lost_inv sent" "\<lambda>_. True" "\<lambda>e s. Inr (hm_step d q e s) :: unit + hm" for d q sent
  by unfold_locales (auto simp: lost_step)

lemma lost_run: "lost_inv sent s \<Longrightarrow> lost_inv sent (hm_run d q es s)"
  using hm_lost.inv_run [of sent s es d q] by (simp add: run_steps_hm)

section \<open>Cancellation\<close>

definition cancel_inv :: "(hc_cause \<times> hc_request) list \<Rightarrow> bool \<Rightarrow> hm \<Rightarrow> bool" where
  "cancel_inv sent prep s \<longleftrightarrow> hm_cancelled s \<and> hm_sent s = sent \<and> \<not> hm_thrown s
     \<and> (if hm_finished s
        then list_all (\<lambda>r. hr_failure r = FailCancelled \<or> prep \<and> hr_failure r = FailLocalFile) (hm_results s) \<and> pending s = 0
        else hm_results s = [] \<and> pending s \<le> 1 \<and> (0 < hm_prelude s \<longrightarrow> prep))"

lemma FinishCancelled_inv: "cancel_inv sent prep s \<Longrightarrow> \<not> hm_finished s \<Longrightarrow> pending s = 0 \<Longrightarrow> cancel_inv sent prep (FinishCancelled s)"
  by (simp add: cancel_inv_def FinishCancelled_def FinishErr_def hm_Finish_def Let_def pending_def)

lemma NextAttempt_cancel:
  "cancel_inv sent prep s \<Longrightarrow> \<not> hm_finished s \<Longrightarrow> pending s = 0 \<Longrightarrow> cancel_inv sent prep (NextAttempt d client s) \<and> \<not> hm_thrown (NextAttempt d client s)"
  using FinishCancelled_inv [of sent prep s] by (simp add: NextAttempt_def cancel_inv_def)

lemma cancel_step:
  assumes "cancel_inv sent prep s"
  shows "cancel_inv sent prep (hm_step d q e s)"
proof (cases e)
  case (HTick client)
  have "cancel_inv sent prep (s\<lparr>hm_ticks := hm_ticks s - 1\<rparr>) \<and> \<not> hm_finished s \<and> pending (s\<lparr>hm_ticks := hm_ticks s - 1\<rparr>) = 0" if "0 < hm_ticks s"
    using assms that by (auto simp: cancel_inv_def pending_def split: if_splits)
  then show ?thesis
    using assms HTick NextAttempt_cancel [of sent prep "s\<lparr>hm_ticks := hm_ticks s - 1\<rparr>"] by simp
next
  case (HResponse n r resp)
  have "cancel_inv sent prep (OnResponse d q r resp (s\<lparr>hm_waiting := remove1 n (hm_waiting s)\<rparr>))" if "n \<in> set (hm_waiting s)"
  proof -
    let ?s = "s\<lparr>hm_waiting := remove1 n (hm_waiting s)\<rparr>"
    let ?t = "?s\<lparr>hm_attemptResult := attempt_result d q r resp ?s\<rparr>"
    have "cancel_inv sent prep ?t" "\<not> hm_finished ?t" "pending ?t = 0"
      using assms that by (cases "hm_waiting s"; auto simp: cancel_inv_def pending_def split: if_splits)+
    moreover have "OnResponse d q r resp ?s = FinishCancelled ?t"
      using assms by (simp add: OnResponse_def Let_def cancel_inv_def)
    ultimately show ?thesis
      using FinishCancelled_inv by metis
  qed
  then show ?thesis
    using assms HResponse by (simp add: OnAttemptResponse_def)
next
  case (HPrepared prepared client)
  let ?s = "s\<lparr>hm_prelude := hm_prelude s - 1\<rparr>"
  have o: "cancel_inv sent prep ?s \<and> \<not> hm_finished ?s \<and> pending ?s = 0 \<and> prep" if "0 < hm_prelude s"
    using assms that by (auto simp: cancel_inv_def pending_def split: if_splits)
  have "cancel_inv sent prep (RunPreludeOnPool d prepared client ?s)" if "0 < hm_prelude s"
  proof (cases prepared)
    case None
    have "\<not> hm_finished s" "hm_results s = []"
      using o [OF that] assms by (auto simp: cancel_inv_def split: if_splits)
    then show ?thesis
      using None o [OF that] by (simp add: RunPreludeOnPool_def cancel_inv_def FinishErr_def hm_Finish_def Let_def pending_def)
  next
    case (Some rc)
    let ?t = "?s\<lparr>hm_curRaw := fst rc, hm_curContentType := snd rc\<rparr>"
    have "cancel_inv sent prep ?t \<and> \<not> hm_finished ?t \<and> pending ?t = 0"
      using o [OF that] assms by (auto simp: cancel_inv_def pending_def)
    then show ?thesis
      using Some NextAttempt_cancel [of sent prep ?t d client] by (auto simp: RunPreludeOnPool_def Let_def split: prod.split)
  qed
  then show ?thesis
    using assms HPrepared by simp
qed (use assms in \<open>auto simp: cancel_inv_def pending_def\<close>)

interpretation hm_cancel: total_system "cancel_inv sent prep" "\<lambda>_. True" "\<lambda>e s. Inr (hm_step d q e s) :: unit + hm" for d q sent prep
  by unfold_locales (auto simp: cancel_step)

lemma cancel_run: "cancel_inv sent prep s \<Longrightarrow> cancel_inv sent prep (hm_run d q es s)"
  using hm_cancel.inv_run [of sent prep s es] by (simp add: run_steps_hm)

section \<open>Properties\<close>

text \<open>Serving a request: whatever is pending happens, with answers of the environment.\<close>

type_synonym hc_world = "nat \<Rightarrow> nat option \<times> req_result \<times> hc_response option \<times> (string \<times> string) option"

definition serve_one :: "hc_options \<Rightarrow> hc_request_options \<Rightarrow> nat option \<times> req_result \<times> hc_response option \<times> (string \<times> string) option \<Rightarrow> hm \<Rightarrow> hm" where
  "serve_one d q w s =
    (case w of (client, r, resp, prepared) \<Rightarrow>
      if 0 < hm_ticks s then hm_step d q (HTick client) s
      else (case hm_waiting s of
          k # _ \<Rightarrow> hm_step d q (HResponse k r resp) s
        | [] \<Rightarrow> hm_step d q (HPrepared prepared client) s))"

fun serve :: "hc_options \<Rightarrow> hc_request_options \<Rightarrow> hc_world \<Rightarrow> nat \<Rightarrow> hm \<Rightarrow> hm" where
  "serve d q world 0 s = s"
| "serve d q world (Suc n) s = serve d q world n (serve_one d q (world n) s)"

definition hc_rank :: "hm \<Rightarrow> nat" where
  "hc_rank s = (if hm_finished s then 0 else 2 * nat (hm_totalBudget s - int (hm_attemptUsed s)) + (if 0 < hm_ticks s then 1 else 2))"

lemma NextAttempt_rank:
  "\<not> hm_finished s \<Longrightarrow> hm_finished (NextAttempt d c s)
    \<or> (hm_ready (NextAttempt d c s) = hm_ready s \<and> hm_attemptUsed (NextAttempt d c s) = hm_attemptUsed s + 1 \<and> int (hm_attemptUsed s) < hm_totalBudget s
      \<and> hm_totalBudget (NextAttempt d c s) = hm_totalBudget s)"
  by (simp add: NextAttempt_def Let_def split: option.splits)

lemma OnResponse_rank:
  "hm_finished (OnResponse d q r resp s)
    \<or> (hm_ready (OnResponse d q r resp s) = hm_ready s \<and> hm_attemptUsed (OnResponse d q r resp s) = hm_attemptUsed s \<and> 0 < hm_ticks (OnResponse d q r resp s)
      \<and> hm_totalBudget (OnResponse d q r resp s) = hm_totalBudget s)"
proof -
  have ready: "hm_ready (drop_client r resp t) = hm_ready t" for t
    by (simp add: drop_client_def split: option.splits)
  show ?thesis
    by (cases rule: OnResponse_outcome [where d = d and q = q and r = r and resp = resp and s = s]) (auto simp: redirect_to_def Let_def ready)
qed

lemma serve_one_rank:
  assumes "once_inv s" "hm_ready s" "\<not> hm_finished s" "\<not> hm_thrown s"
  shows "hc_rank (serve_one d q w s) < hc_rank s \<and> (hm_finished (serve_one d q w s) \<or> hm_ready (serve_one d q w s))"
proof -
  obtain client r resp prepared where w: "w = (client, r, resp, prepared)"
    by (cases w)
  have pend: "hm_ticks s + length (hm_waiting s) + hm_prelude s = 1"
    using assms by (simp add: once_inv_def pending_def)
  consider (tick) "0 < hm_ticks s" | (wait) k ks where "hm_ticks s = 0" "hm_waiting s = k # ks" | (prep) "hm_ticks s = 0" "hm_waiting s = []" "0 < hm_prelude s"
    using pend by (cases "hm_waiting s"; cases "hm_ticks s = 0") auto
  then show ?thesis
  proof cases
    case tick
    then show ?thesis
      using NextAttempt_rank [of "s\<lparr>hm_ticks := hm_ticks s - 1\<rparr>" d client] assms w
      by (auto simp: serve_one_def hc_rank_def)
  next
    case wait
    then show ?thesis
      using OnResponse_rank [of d q r resp "s\<lparr>hm_waiting := remove1 k (hm_waiting s)\<rparr>"] assms w
      by (auto simp: serve_one_def hc_rank_def OnAttemptResponse_def)
  next
    case prep
    then show ?thesis
      using NextAttempt_rank [of "s\<lparr>hm_prelude := hm_prelude s - 1, hm_curRaw := fst (the prepared), hm_curContentType := snd (the prepared)\<rparr>" d client] assms w
      by (cases prepared) (auto simp: serve_one_def hc_rank_def RunPreludeOnPool_def Let_def split: if_splits)
  qed
qed

lemma serve_one_once: "once_inv s \<Longrightarrow> once_inv (serve_one d q w s)"
  by (simp add: serve_one_def hm_step_once del: hm_step.simps split: prod.splits list.splits)

lemma serve_one_dumps: "dumps_inv s \<Longrightarrow> dumps_inv (serve_one d q w s)"
  by (simp add: serve_one_def hm_step_dumps del: hm_step.simps split: prod.splits list.splits)

lemma serve_done: "once_inv s \<Longrightarrow> hm_finished s \<Longrightarrow> serve d q world n s = s"
proof (induction n)
  case (Suc n)
  then have "serve_one d q (world n) s = s"
    by (auto simp: serve_one_def once_inv_def pending_def split: prod.splits)
  then show ?case
    using Suc by simp
qed simp

lemma serve_ends: "once_inv s \<Longrightarrow> hm_ready s \<Longrightarrow> dumps_inv s \<Longrightarrow> hc_rank s \<le> n \<Longrightarrow> hm_finished (serve d q world n s) \<and> once_inv (serve d q world n s)"
proof (induction n arbitrary: s)
  case 0
  then show ?case
    by (simp add: hc_rank_def split: if_splits)
next
  case (Suc n)
  show ?case
  proof (cases "hm_finished s")
    case True
    then show ?thesis
      using serve_done [OF Suc(2) True] Suc(2) by (metis)
  next
    case False
    let ?t = "serve_one d q (world n) s"
    have nt: "\<not> hm_thrown s"
      using Suc(4) by (simp add: dumps_inv_def)
    have t: "hc_rank ?t < hc_rank s" "hm_finished ?t \<or> hm_ready ?t" "once_inv ?t" "dumps_inv ?t"
      using serve_one_rank [OF Suc(2,3) False nt, of d q "world n"] serve_one_once [OF Suc(2)] serve_one_dumps [OF Suc(4)] by auto
    show ?thesis
    proof (cases "hm_finished ?t")
      case True
      then show ?thesis
        using serve_done [OF t(3) True, of d q world n] t(3) by simp
    next
      case nf: False
      then show ?thesis
        using Suc(1) [OF t(3)] t Suc(5) by simp
    qed
  qed
qed


text \<open>And one whose JSON body has a string that is not UTF-8 never ends: the exception of \<open>dump\<close> leaves the loop, nothing of the
  request is pending after it, and neither a request nor a result comes, whatever happens later.\<close>

theorem request_lost:
  assumes "\<not> json_utf8 body" "m \<noteq> HGet" "m \<noteq> HHead" "ParseUrl url = Some tgt"
  shows "let s = hm_run d q (HTick (Some c) # later) (hm_Start d q m url body None ct False True False st) in
    hm_results s = [] \<and> hm_sent s = [] \<and> hm_ticks s + length (hm_waiting s) + hm_prelude s = 0"
proof -
  let ?s = "hm_step d q (HTick (Some c)) (hm_Start d q m url body None ct False True False st)"
  have "PrepareRequest J m body None ct' hs tgt' strip = None" for J ct' hs tgt' strip
    using assms(1-3) by (auto simp: PrepareRequest_def request_body_def json_dump_def)
  then have "lost_inv [] ?s"
    using assms(4) by (simp add: hm_Start_def NextAttempt_def Let_def raw_body_def lost_inv_def pending_def)
  then have "lost_inv [] (hm_run d q later ?s)"
    by (rule lost_run)
  then show ?thesis
    by (simp add: hm_run_def lost_inv_def pending_def Let_def)
qed

text \<open>C15: no request exceeds its budgets: in every order of events at most \<open>maxTotalAttempts\<close> (8 if that is not positive)
  requests are sent, at most one more than there were retries and redirections, at most as many retries as the call allows
  (the global maximum if it is silent) and at most \<open>maxRedirects\<close> redirections; and no result is delivered twice.\<close>

theorem request_budgets:
  "let s = hm_run d q es (hm_Start d q m url body raw ct upload running cancelled st) in
    int (length (hm_sent s)) \<le> (if 0 < ho_maxTotalAttempts d then ho_maxTotalAttempts d else 8)
    \<and> length (hm_sent s) \<le> 1 + hm_retriesUsed s + hm_redirectsUsed s
    \<and> int (hm_retriesUsed s) \<le> max 0 (if 0 \<le> hq_retryCount q then hq_retryCount q else ho_retryMax d)
    \<and> int (hm_redirectsUsed s) \<le> max 0 (ho_maxRedirects d) \<and> length (hm_results s) \<le> 1"
proof -
  define s0 where "s0 = hm_Start d q m url body raw ct upload running cancelled st"
  define s where "s = hm_run d q es s0"
  have "budget_inv d s" "once_inv s"
    unfolding s_def s0_def by (intro hm_run_budget hm_Start_budget, intro hm_run_once hm_Start_once)
  moreover have "hm_totalBudget s = hm_totalBudget s0" "hm_retryBudget s = hm_retryBudget s0"
    using same_budgets_run [of s0 d q es] by (simp_all add: same_budgets_def s_def)
  ultimately show ?thesis
    unfolding s0_def [symmetric] s_def [symmetric] Let_def
    by (auto simp: budget_inv_def once_inv_def hm_Start_budgets s0_def split: if_splits)
qed

text \<open>C9: only what may be repeated is repeated, and credentials stay at their origin: in every order of events a request is
  sent again after a failure, a server error or a 429 only if its method is idempotent or the call says so, and no request to
  another origin than that of the first URL carries Authorization, Cookie or Proxy-Authorization, the generated
  credentials included.\<close>

theorem requests_sent_safely:
  assumes "s = hm_run d q es (hm_Start d q m url body raw ct upload running cancelled st)" "ParseUrl url = Some t0"
  shows "list_all (\<lambda>(cause, rq). (if cause = Retried then IsIdempotentMethod (rq_method rq) \<or> hq_idempotent q else True)
    \<and> (if rq_key rq \<noteq> ut_key t0 then list_all (\<lambda>(k, v). \<not> IsSensitiveHeader k) (rq_headers rq) else True)) (hm_sent s)"
proof -
  have "sent_inv q (ut_key t0) s"
    unfolding assms(1) by (intro hm_run_sent hm_Start_sent) (simp add: assms(2))
  then have "list_all (hc_sent_ok q (ut_key t0)) (hm_sent s)"
    by (rule sent_all)
  then show ?thesis
    by (simp add: hc_sent_ok_def [abs_def] case_prod_unfold)
qed


section \<open>Runs\<close>

definition hc_demo :: hc_options where
  "hc_demo = \<lparr>ho_retryMax = 2, ho_maxTotalAttempts = 2, ho_maxRedirects = 5, ho_maxBodyBytes = 9,
     ho_commonHeaders = [(''Cookie'', ''k=v''), (''X'', ''y'')], ho_json = \<lparr>jparse = (\<lambda>_. None), jdump = (\<lambda>_. ''{}'')\<rparr>\<rparr>"

definition hc_demo_opts :: hc_request_options where
  "hc_demo_opts = \<lparr>hq_retryCount = -1, hq_idempotent = False, hq_followRedirect = True, hq_headers = [], hq_basicAuthUser = ''u'',
     hq_basicAuthPass = ''p'', hq_maxBodyBytes = 0\<rparr>"

definition hc_demo_run :: "hc_method \<Rightarrow> hm_event list \<Rightarrow> hm" where
  "hc_demo_run m es = hm_run hc_demo hc_demo_opts es (hm_Start hc_demo hc_demo_opts m ''http://a/f'' JNull None [] False True False
     \<lparr>st_requests = 0, st_ok = 0, st_status4xx = 0, st_badResponse = 0, st_timeout = 0, st_networkErr = 0, st_bytesIn = 0\<rparr>)"

definition answers :: "nat \<Rightarrow> string \<Rightarrow> hc_response" where
  "answers status loc = \<lparr>rs_status = status, rs_bodySize = 3, rs_location = loc\<rparr>"

abbreviation hc_answered :: "nat \<Rightarrow> nat \<Rightarrow> string \<Rightarrow> hm_event list" where
  "hc_answered n status loc \<equiv> [HTick (Some 1), HResponse n ReqOk (Some (answers status loc))]"

text \<open>The cookie and the generated credentials stay at the first origin.\<close>

lemma demo_redirect:
  "map (\<lambda>(c, r). (c, rq_key r, map fst (rq_headers r))) (hm_sent (hc_demo_run HGet (hc_answered 1 302 ''//b/g'' @ hc_answered 2 200 [])))
    = [(FirstTry, ''http://a:80'', [''Cookie'', ''X'', ''Authorization'']), (Redirected, ''http://b:80'', [''X''])]"
  by code_simp

lemma demo_retry:
  "map (\<lambda>(c, r). c) (hm_sent (hc_demo_run HGet (hc_answered 1 503 [] @ hc_answered 2 200 []))) = [FirstTry, Retried]"
  "map hr_status (hm_results (hc_demo_run HPost (hc_answered 1 503 []))) = [503]"
  by code_simp+

text \<open>When the attempts are used up, the retry that was counted is not made: two requests, one repetition, two retries reported.\<close>

lemma retry_overcounted:
  "let s = hc_demo_run HGet (hc_answered 1 503 [] @ hc_answered 2 503 [] @ [HTick (Some 1)]) in
    length (hm_sent s) = 2 \<and> map (\<lambda>r. (hr_status r, hr_retries r)) (hm_results s) = [(503, 2)]"
  by code_simp

text \<open>And the URL of a redirection that was not followed is reported as the final one.\<close>

lemma final_url_not_requested:
  "let s = hc_demo_run HGet (hc_answered 1 302 ''/g'' @ hc_answered 2 302 ''/h'' @ [HTick (Some 1)]) in
    map (\<lambda>(c, r). rq_path r) (hm_sent s) = [''/f'', ''/g''] \<and> map (\<lambda>r. (hr_status r, hr_finalUrl r)) (hm_results s) = [(302, ''http://a/h'')]"
  by code_simp

section \<open>Witnesses\<close>


theorem requests_sent_safely_witness:
  "list_all (\<lambda>(cause, rq). (if cause = Retried then IsIdempotentMethod (rq_method rq) \<or> hq_idempotent hc_demo_opts else True)
    \<and> (if rq_key rq \<noteq> ''http://a:80'' then list_all (\<lambda>(k, v). \<not> IsSensitiveHeader k) (rq_headers rq) else True))
    (hm_sent (hc_demo_run HGet (hc_answered 1 302 ''//b/g'' @ hc_answered 2 200 [])))"
proof -
  have "ParseUrl ''http://a/f'' = Some \<lparr>ut_ssl = False, ut_host = ''a'', ut_port = 80, ut_path = ''/f'', ut_key = ''http://a:80''\<rparr>"
    by code_simp
  from requests_sent_safely [OF hc_demo_run_def this, of HGet "hc_answered 1 302 ''//b/g'' @ hc_answered 2 200 []"] show ?thesis
    by simp
qed


theorem request_lost_witness:
  "hm_results (hm_run hc_demo hc_demo_opts [HTick (Some 1), HTick (Some 1)]
     (hm_Start hc_demo hc_demo_opts HPost ''http://a/f'' (JStr [char_of (255 :: nat)]) None [] False True False
       \<lparr>st_requests = 0, st_ok = 0, st_status4xx = 0, st_badResponse = 0, st_timeout = 0, st_networkErr = 0, st_bytesIn = 0\<rparr>)) = []"
proof -
  have "\<not> json_utf8 (JStr [char_of (255 :: nat)])"
    "ParseUrl ''http://a/f'' = Some \<lparr>ut_ssl = False, ut_host = ''a'', ut_port = 80, ut_path = ''/f'', ut_key = ''http://a:80''\<rparr>"
    by code_simp+
  from request_lost [OF this(1) _ _ this(2), of HPost] show ?thesis
    by (simp add: Let_def)
qed

end
