(* ===== verification/HcPool.thy ===== *)
theory HcPool
  imports HcText "HOL-Library.Code_Target_Nat"
begin

text \<open>
  The connection pool of the HTTP client (\<open>net/zm_net_http_client.cpp\<close>): for each origin a few clients of drogon, the origin
  created first given up when there are too many.

  \<open>GetPoolClient\<close> takes the lock twice, and between its two regions other threads come in; each region is a step, what the
  caller holds in between is in \<open>hp_calls\<close>.  An entry is shared by pointer, so entries live in a list and the table holds
  their places: an entry given up is still used by those who hold it.  A client is the number under which \<open>hp_uris\<close> keeps the
  address it was made for.  The loop of an entry, the TLS options and the user agent are left out.
\<close>

section \<open>Entries\<close>

record pool_entry =
  pe_key :: string
  pe_host :: string
  pe_port :: nat
  pe_ssl :: bool
  pe_clients :: "nat list"
  pe_createSeq :: nat

record pool_call =
  pc_target :: url_target
  pc_entry :: nat
  pc_snap :: "nat list"
  pc_avoid :: "nat option"

record hc_pool =
  hp_pools :: "(string \<times> nat) list"
  hp_entries :: "pool_entry list"
  hp_seq :: nat
  hp_uris :: "string list"
  hp_calls :: "(nat \<times> pool_call) list"
  hp_given :: "(url_target \<times> nat option \<times> nat) list"   \<comment> \<open>history: target, client to avoid, client given\<close>

definition empty_pool :: hc_pool where
  "empty_pool = \<lparr>hp_pools = [], hp_entries = [], hp_seq = 0, hp_uris = [], hp_calls = [], hp_given = []\<rparr>"

definition client_uri :: "bool \<Rightarrow> string \<Rightarrow> nat \<Rightarrow> string" where
  "client_uri ssl host port = (if ssl then ''https://'' else ''http://'') @ BracketHost host @ '':'' @ to_string port"

text \<open>\<open>v.push_back(CreatePoolClient(e))\<close>\<close>

definition CreatePoolClient :: "nat \<Rightarrow> hc_pool \<Rightarrow> hc_pool" where
  "CreatePoolClient k s =
    (let e = hp_entries s ! k in
     s\<lparr>hp_uris := hp_uris s @ [client_uri (pe_ssl e) (pe_host e) (pe_port e)],
       hp_entries := (hp_entries s)[k := e\<lparr>pe_clients := pe_clients e @ [length (hp_uris s)]\<rparr>]\<rparr>)"

definition set_clients :: "nat \<Rightarrow> nat list \<Rightarrow> hc_pool \<Rightarrow> hc_pool" where
  "set_clients k cs s = s\<lparr>hp_entries := (hp_entries s)[k := (hp_entries s ! k)\<lparr>pe_clients := cs\<rparr>]\<rparr>"

section \<open>Eviction\<close>

fun oldest_other :: "string \<Rightarrow> (nat \<Rightarrow> nat) \<Rightarrow> (string \<times> nat) list \<Rightarrow> (nat \<times> string) option" where
  "oldest_other key seq [] = None"
| "oldest_other key seq ((k, i) # ps) =
    (if k = key then oldest_other key seq ps
     else (case oldest_other key seq ps of
         None \<Rightarrow> Some (seq i, k)
       | Some (q, k') \<Rightarrow> if seq i < q then Some (seq i, k) else Some (q, k')))"

lemma oldest_other_mem: "oldest_other key seq ps = Some (q, k) \<Longrightarrow> k \<noteq> key \<and> k \<in> fst ` set ps"
  by (induction ps arbitrary: q k) (auto split: if_splits option.splits prod.splits)

function evict_targets :: "nat \<Rightarrow> string \<Rightarrow> (nat \<Rightarrow> nat) \<Rightarrow> (string \<times> nat) list \<Rightarrow> (string \<times> nat) list" where
  "evict_targets maxT key seq ps =
    (if length ps \<le> maxT then ps
     else (case oldest_other key seq ps of
         None \<Rightarrow> ps
       | Some (q, k) \<Rightarrow> evict_targets maxT key seq (filter (\<lambda>(k', i). k' \<noteq> k) ps)))"
  by pat_completeness auto

termination
proof (relation "measure (\<lambda>(maxT, key, seq, ps). length ps)", simp)
  fix maxT key seq ps p q k
  assume "oldest_other key seq ps = Some p" "(q, k) = p"
  then have "k \<in> fst ` set ps"
    using oldest_other_mem by blast
  then show "((maxT, key, seq, filter (\<lambda>(k', i). k' \<noteq> k) ps), maxT, key, seq, ps) \<in> measure (\<lambda>(maxT, key, seq, ps). length ps)"
    by (force intro!: length_filter_less)
qed

declare evict_targets.simps [simp del]

section \<open>Operations\<close>

definition pool_limit :: "nat \<Rightarrow> nat" where
  "pool_limit maxTargets = (if 0 < maxTargets then maxTargets else 256)"

definition new_entry :: "url_target \<Rightarrow> hc_pool \<Rightarrow> hc_pool" where
  "new_entry t s =
    CreatePoolClient (length (hp_entries s)) (s\<lparr>hp_seq := hp_seq s + 1, hp_entries := hp_entries s @
      [\<lparr>pe_key = ut_key t, pe_host = ut_host t, pe_port = ut_port t, pe_ssl = ut_ssl t, pe_clients = [], pe_createSeq = hp_seq s + 1\<rparr>]\<rparr>)"

text \<open>The first region: find or make the entry, copy its clients.\<close>

definition pool_begin :: "nat \<Rightarrow> nat \<Rightarrow> url_target \<Rightarrow> nat option \<Rightarrow> hc_pool \<Rightarrow> hc_pool" where
  "pool_begin maxTargets i t avoid s =
    (let (k, s) = (case map_of (hp_pools s) (ut_key t) of
         Some k \<Rightarrow> (k, s)
       | None \<Rightarrow>
           let k = length (hp_entries s);
               s = new_entry t s in
           (k, s\<lparr>hp_pools := evict_targets (pool_limit maxTargets) (ut_key t)
             (\<lambda>i. pe_createSeq (hp_entries s ! i)) ((ut_key t, k) # hp_pools s)\<rparr>)) in
     s\<lparr>hp_calls := (i, \<lparr>pc_target = t, pc_entry = k, pc_snap = pe_clients (hp_entries s ! k), pc_avoid = avoid\<rparr>) # hp_calls s\<rparr>)"

definition least_busy :: "(nat \<Rightarrow> nat) \<Rightarrow> nat \<Rightarrow> nat list \<Rightarrow> nat" where
  "least_busy busy c cs = foldl (\<lambda>best c. if busy c < busy best then c else best) c cs"

text \<open>What follows outside the lock, and the second region; \<open>busy\<close> is what the clients answer.\<close>

definition pool_end :: "nat \<Rightarrow> (nat \<Rightarrow> nat) \<Rightarrow> nat \<Rightarrow> hc_pool \<Rightarrow> hc_pool" where
  "pool_end maxConnPerHost busy i s =
    (case map_of (hp_calls s) i of
       None \<Rightarrow> s
     | Some p \<Rightarrow>
         let s = s\<lparr>hp_calls := filter (\<lambda>(j, p). j \<noteq> i) (hp_calls s)\<rparr>;
             k = pc_entry p;
             give = (\<lambda>c s. s\<lparr>hp_given := hp_given s @ [(pc_target p, pc_avoid p, c)]\<rparr>) in
         (case filter (\<lambda>c. pc_avoid p \<noteq> Some c) (pc_snap p) of
            [] \<Rightarrow>
              let v = pe_clients (hp_entries s ! k);
                  v = (case pc_avoid p of Some a \<Rightarrow> remove1 a v | None \<Rightarrow> v) in
              give (length (hp_uris s)) (CreatePoolClient k (set_clients k v s))
          | c # cs \<Rightarrow>
              give (least_busy busy c cs)
                (if list_all (\<lambda>c. 0 < busy c) (c # cs) \<and> length (pe_clients (hp_entries s ! k)) < maxConnPerHost
                 then CreatePoolClient k s else s)))"

definition RemovePoolClient :: "string \<Rightarrow> nat \<Rightarrow> hc_pool \<Rightarrow> hc_pool" where
  "RemovePoolClient key bad s =
    (case map_of (hp_pools s) key of
       None \<Rightarrow> s
     | Some k \<Rightarrow>
         let v = removeAll bad (pe_clients (hp_entries s ! k));
             s = set_clients k v s in
         if v = [] then CreatePoolClient k s else s)"

text \<open>A call goes with a URL that is parsed first; the client to avoid is one there is.\<close>

datatype pool_event =
    PBegin nat string "nat option"
  | PEnd nat "nat \<Rightarrow> nat"
  | PRemove string nat

definition hc_avoid :: "nat option \<Rightarrow> hc_pool \<Rightarrow> nat option" where
  "hc_avoid a s = (case a of Some c \<Rightarrow> if c < length (hp_uris s) then Some c else None | None \<Rightarrow> None)"

fun pool_ev_step :: "nat \<Rightarrow> nat \<Rightarrow> pool_event \<Rightarrow> hc_pool \<Rightarrow> hc_pool" where
  "pool_ev_step maxT maxC (PBegin i url avoid) s =
    (case ParseUrl url of None \<Rightarrow> s | Some t \<Rightarrow> pool_begin maxT i t (hc_avoid avoid s) s)"
| "pool_ev_step maxT maxC (PEnd i busy) s = pool_end maxC busy i s"
| "pool_ev_step maxT maxC (PRemove key bad) s = RemovePoolClient key bad s"

definition pool_run :: "nat \<Rightarrow> nat \<Rightarrow> pool_event list \<Rightarrow> hc_pool" where
  "pool_run maxT maxC es = fold (pool_ev_step maxT maxC) es empty_pool"

section \<open>Keys\<close>

definition target_key :: "bool \<Rightarrow> string \<Rightarrow> nat \<Rightarrow> string" where
  "target_key ssl host port = (if ssl then ''https'' else ''http'') @ ''://'' @ host @ '':'' @ to_string port"

text \<open>Two origins with one key are one origin, whatever colons a host has.\<close>

lemma target_key_inject: "target_key ssl h p = target_key ssl' h' p' \<longleftrightarrow> ssl = ssl' \<and> h = h' \<and> p = p'"
proof
  let ?f = "\<lambda>ssl h. (if ssl then ''https'' else ''http'') @ ''://'' @ h"
  assume eq: "target_key ssl h p = target_key ssl' h' p'"
  have d: "CHR '':'' \<notin> set (to_string n)" for n
    by (rule digit_not_mem) (simp add: is_digit_def char_code_def)
  have k: "target_key ssl h p = ?f ssl h @ CHR '':'' # to_string p" for ssl h p
    by (simp add: target_key_def)
  have "to_string p = to_string p'" "?f ssl h = ?f ssl' h'"
    using last_cut [OF d, of "?f ssl h" p] last_cut [OF d, of "?f ssl' h'" p'] eq unfolding k by simp_all
  then show "ssl = ssl' \<and> h = h' \<and> p = p'"
    by (simp split: if_splits)
qed simp

abbreviation uri_of :: "pool_entry \<Rightarrow> string" where
  "uri_of e \<equiv> client_uri (pe_ssl e) (pe_host e) (pe_port e)"

abbreviation target_uri :: "url_target \<Rightarrow> string" where
  "target_uri t \<equiv> client_uri (ut_ssl t) (ut_host t) (ut_port t)"

definition target_ok :: "url_target \<Rightarrow> bool" where
  "target_ok t \<longleftrightarrow> ut_key t = target_key (ut_ssl t) (ut_host t) (ut_port t)"

lemma ParseUrl_target_ok: "ParseUrl url = Some t \<Longrightarrow> target_ok t"
  by (auto simp: ParseUrl_def target_ok_def target_key_def split: option.splits if_splits)

section \<open>The clients that are given\<close>

definition made_for :: "string list \<Rightarrow> string \<Rightarrow> nat \<Rightarrow> bool" where
  "made_for uris u c \<longleftrightarrow> c < length uris \<and> uris ! c = u"

lemma made_for_more [simp]: "made_for uris u c \<Longrightarrow> made_for (uris @ us) u c"
  by (simp add: made_for_def nth_append)

lemma made_for_new [simp]: "made_for (uris @ [u]) v (length uris) \<longleftrightarrow> u = v"
  by (simp add: made_for_def)

definition entry_ok :: "string list \<Rightarrow> pool_entry \<Rightarrow> bool" where
  "entry_ok uris e \<longleftrightarrow> pe_key e = target_key (pe_ssl e) (pe_host e) (pe_port e) \<and> list_all (made_for uris (uri_of e)) (pe_clients e)"

definition same_entry :: "pool_entry \<Rightarrow> pool_entry \<Rightarrow> bool" where
  "same_entry e e' \<longleftrightarrow> pe_key e' = pe_key e \<and> uri_of e' = uri_of e \<and> pe_createSeq e' = pe_createSeq e"

definition call_ok :: "hc_pool \<Rightarrow> pool_call \<Rightarrow> bool" where
  "call_ok s p \<longleftrightarrow> target_ok (pc_target p) \<and> pc_entry p < length (hp_entries s)
     \<and> pe_key (hp_entries s ! pc_entry p) = ut_key (pc_target p)
     \<and> list_all (made_for (hp_uris s) (target_uri (pc_target p))) (pc_snap p)
     \<and> (case pc_avoid p of Some a \<Rightarrow> a < length (hp_uris s) | None \<Rightarrow> True)"

definition given_ok :: "hc_pool \<Rightarrow> url_target \<times> nat option \<times> nat \<Rightarrow> bool" where
  "given_ok s = (\<lambda>(t, a, c). made_for (hp_uris s) (target_uri t) c \<and> a \<noteq> Some c)"

lemma ok_updates [simp]:
  "call_ok (s\<lparr>hp_calls := x\<rparr>) = call_ok s" "call_ok (s\<lparr>hp_given := y\<rparr>) = call_ok s" "call_ok (s\<lparr>hp_pools := z\<rparr>) = call_ok s"
  "given_ok (s\<lparr>hp_calls := x\<rparr>) = given_ok s" "given_ok (s\<lparr>hp_given := y\<rparr>) = given_ok s" "given_ok (s\<lparr>hp_pools := z\<rparr>) = given_ok s"
  by (simp_all add: fun_eq_iff call_ok_def given_ok_def split: option.splits)

definition clients_ok :: "hc_pool \<Rightarrow> bool" where
  "clients_ok s \<longleftrightarrow> list_all (entry_ok (hp_uris s)) (hp_entries s) \<and> list_all (\<lambda>(i, p). call_ok s p) (hp_calls s)
     \<and> list_all (given_ok s) (hp_given s)"

text \<open>What entries and clients there are never changes its address.\<close>

definition grows :: "hc_pool \<Rightarrow> hc_pool \<Rightarrow> bool" where
  "grows s s' \<longleftrightarrow> length (hp_entries s) \<le> length (hp_entries s')
     \<and> (\<forall>i < length (hp_entries s). same_entry (hp_entries s ! i) (hp_entries s' ! i)) \<and> (\<exists>us. hp_uris s' = hp_uris s @ us)"

lemma grows_call: "grows s s' \<Longrightarrow> call_ok s p \<Longrightarrow> call_ok s' p"
  by (auto simp: grows_def call_ok_def same_entry_def list_all_iff split: option.splits)

lemma grows_given: "grows s s' \<Longrightarrow> given_ok s g \<Longrightarrow> given_ok s' g"
  by (auto simp: grows_def given_ok_def)

lemma grows_lists:
  assumes "grows s s'" "clients_ok s" "list_all (entry_ok (hp_uris s')) (hp_entries s')"
    and "set (hp_calls s') \<subseteq> set (hp_calls s)" "hp_given s' = hp_given s"
  shows "clients_ok s'"
  using assms grows_call [OF assms(1)] grows_given [OF assms(1)] by (fastforce simp: clients_ok_def list_all_iff)

lemma same_entry_refl [simp]: "same_entry e e" "same_entry e (e\<lparr>pe_clients := cs\<rparr>)"
  by (simp_all add: same_entry_def)

lemma grows_create: "k < length (hp_entries s) \<Longrightarrow> grows s (CreatePoolClient k s)"
  by (auto simp: grows_def CreatePoolClient_def Let_def nth_list_update)

lemma grows_set: "k < length (hp_entries s) \<Longrightarrow> grows s (set_clients k cs s)"
  by (auto simp: grows_def set_clients_def nth_list_update)

lemma entry_ok_more: "entry_ok uris e \<Longrightarrow> entry_ok (uris @ us) e"
  by (auto simp: entry_ok_def list_all_iff)

lemma create_ok:
  assumes "clients_ok s" "k < length (hp_entries s)"
  shows "clients_ok (CreatePoolClient k s)"
proof (rule grows_lists [OF grows_create [OF assms(2)] assms(1)])
  have e: "entry_ok (hp_uris s) e" if "e \<in> set (hp_entries s)" for e
    using assms(1) that by (simp add: clients_ok_def list_all_iff)
  then have "entry_ok (hp_uris s @ us) e" if "e \<in> set (hp_entries s)" for e us
    using that entry_ok_more by blast
  moreover have "entry_ok (hp_uris s @ [uri_of x]) (x\<lparr>pe_clients := pe_clients x @ [length (hp_uris s)]\<rparr>)"
    if "x = hp_entries s ! k" for x
    using e [of x] assms(2) that by (auto simp: entry_ok_def list_all_iff)
  ultimately show "list_all (entry_ok (hp_uris (CreatePoolClient k s))) (hp_entries (CreatePoolClient k s))"
    by (auto simp: CreatePoolClient_def Let_def list_all_iff dest!: set_update_subset_insert [THEN subsetD])
qed (simp_all add: CreatePoolClient_def Let_def)

lemma set_ok:
  assumes "clients_ok s" "k < length (hp_entries s)" "set cs \<subseteq> set (pe_clients (hp_entries s ! k))"
  shows "clients_ok (set_clients k cs s)"
proof (rule grows_lists [OF grows_set [OF assms(2)] assms(1)])
  have e: "entry_ok (hp_uris s) e" if "e \<in> set (hp_entries s)" for e
    using assms(1) that by (simp add: clients_ok_def list_all_iff)
  moreover have "entry_ok (hp_uris s) (x\<lparr>pe_clients := cs\<rparr>)" if "x = hp_entries s ! k" for x
    using e [of x] assms(2,3) that by (auto simp: entry_ok_def list_all_iff)
  ultimately show "list_all (entry_ok (hp_uris (set_clients k cs s))) (hp_entries (set_clients k cs s))"
    by (auto simp: set_clients_def list_all_iff dest!: set_update_subset_insert [THEN subsetD])
qed (simp_all add: set_clients_def)

lemma CreatePoolClient_simps [simp]:
  "hp_pools (CreatePoolClient k s) = hp_pools s" "hp_calls (CreatePoolClient k s) = hp_calls s" "hp_given (CreatePoolClient k s) = hp_given s"
  "hp_seq (CreatePoolClient k s) = hp_seq s" "length (hp_entries (CreatePoolClient k s)) = length (hp_entries s)"
  by (simp_all add: CreatePoolClient_def Let_def)

lemma set_clients_simps [simp]:
  "hp_pools (set_clients k cs s) = hp_pools s" "hp_calls (set_clients k cs s) = hp_calls s" "hp_given (set_clients k cs s) = hp_given s"
  "hp_seq (set_clients k cs s) = hp_seq s" "length (hp_entries (set_clients k cs s)) = length (hp_entries s)" "hp_uris (set_clients k cs s) = hp_uris s"
  by (simp_all add: set_clients_def)

section \<open>The table\<close>

abbreviation seq_of :: "hc_pool \<Rightarrow> nat \<Rightarrow> nat" where
  "seq_of s i \<equiv> pe_createSeq (hp_entries s ! i)"

definition table_ok :: "nat \<Rightarrow> hc_pool \<Rightarrow> bool" where
  "table_ok lim s \<longleftrightarrow> distinct (map fst (hp_pools s)) \<and> length (hp_pools s) \<le> lim
     \<and> list_all (\<lambda>(k, i). i < length (hp_entries s) \<and> pe_key (hp_entries s ! i) = k \<and> seq_of s i \<le> hp_seq s) (hp_pools s)
     \<and> sorted_wrt (\<lambda>x y. seq_of s (snd y) < seq_of s (snd x)) (hp_pools s)"

definition never_empty :: "hc_pool \<Rightarrow> bool" where
  "never_empty s \<longleftrightarrow> list_all (\<lambda>e. pe_clients e \<noteq> []) (hp_entries s)"

lemma grows_table:
  assumes "grows s s'" "table_ok lim s" "hp_pools s' = hp_pools s" "hp_seq s \<le> hp_seq s'"
  shows "table_ok lim s'"
proof -
  have same: "seq_of s' i = seq_of s i" "pe_key (hp_entries s' ! i) = pe_key (hp_entries s ! i)" if "i < length (hp_entries s)" for i
    using assms(1) that by (auto simp: grows_def same_entry_def)
  have bound: "i < length (hp_entries s)" if "(k, i) \<in> set (hp_pools s)" for k i
    using assms(2) that by (auto simp: table_ok_def list_all_iff)
  have "sorted_wrt (\<lambda>x y. seq_of s' (snd y) < seq_of s' (snd x)) (hp_pools s)"
    using assms(2) by (auto simp: table_ok_def same bound elim!: sorted_wrt_mono_rel [rotated])
  moreover have "list_all (\<lambda>(k, i). i < length (hp_entries s') \<and> pe_key (hp_entries s' ! i) = k \<and> seq_of s' i \<le> hp_seq s') (hp_pools s)"
    using assms(1,2,4) by (fastforce simp: table_ok_def list_all_iff same grows_def)
  ultimately show ?thesis
    using assms(2,3) by (simp add: table_ok_def)
qed

text \<open>The oldest target is the last one of the table.\<close>

lemma oldest_is_last:
  "ps \<noteq> [] \<Longrightarrow> key \<notin> fst ` set ps \<Longrightarrow> sorted_wrt (\<lambda>x y. seq (snd y) < seq (snd x)) ps
    \<Longrightarrow> oldest_other key seq ps = Some (seq (snd (last ps)), fst (last ps))"
proof (induction ps)
  case (Cons p ps)
  obtain k i where p: "p = (k, i)"
    by (cases p)
  show ?case
  proof (cases "ps = []")
    case False
    then have "seq (snd (last ps)) < seq i"
      using Cons.prems p last_in_set by auto
    then have "\<not> seq i < seq (snd (last ps))"
      by simp
    then show ?thesis
      using Cons False p by simp
  qed (use Cons.prems p in auto)
qed simp

lemma filter_last: "distinct (map fst ps) \<Longrightarrow> ps \<noteq> [] \<Longrightarrow> filter (\<lambda>(k', i). k' \<noteq> fst (last ps)) ps = butlast ps"
proof (induction ps rule: rev_induct)
  case (snoc p ps)
  have "filter (\<lambda>(k', i). k' \<noteq> fst p) ps = ps"
    using snoc.prems by (intro filter_True ballI) (auto simp: image_iff case_prod_unfold)
  then show ?case
    by (simp add: case_prod_unfold)
qed simp

lemma evict_is_take:
  assumes "0 < lim" "length ps \<le> lim" "key \<notin> fst ` set ps" "distinct (map fst ps)" "sorted_wrt (\<lambda>x y. seq (snd y) < seq (snd x)) ps"
  shows "evict_targets lim key seq ((key, k) # ps) = take lim ((key, k) # ps)"
proof (cases "length ps < lim")
  case True
  then show ?thesis
    by (subst evict_targets.simps) simp
next
  case False
  then have len: "length ps = lim" "ps \<noteq> []"
    using assms(1,2) by auto
  have "key \<noteq> fst (last ps)"
    using assms(3) len(2) by (metis last_in_set image_eqI)
  then have "evict_targets lim key seq ((key, k) # ps) = evict_targets lim key seq ((key, k) # butlast ps)"
    using oldest_is_last [OF len(2) assms(3,5)] filter_last [OF assms(4) len(2)] len(1)
    by (subst evict_targets.simps) simp
  also have "\<dots> = (key, k) # butlast ps"
    using len assms(1) by (subst evict_targets.simps) simp
  also have "\<dots> = take lim ((key, k) # ps)"
    using len assms(1) by (simp add: butlast_conv_take take_Cons')
  finally show ?thesis .
qed

section \<open>Steps\<close>

definition hc_pool_inv :: "nat \<Rightarrow> hc_pool \<Rightarrow> bool" where
  "hc_pool_inv lim s \<longleftrightarrow> clients_ok s \<and> table_ok lim s \<and> never_empty s"

definition fifo_step :: "nat \<Rightarrow> string list \<Rightarrow> string \<Rightarrow> string list" where
  "fifo_step lim keys key = (if key \<in> set keys then keys else take lim (key # keys))"

lemma never_empty_create: "never_empty s \<Longrightarrow> never_empty (CreatePoolClient k s)"
  by (auto simp: never_empty_def CreatePoolClient_def Let_def list_all_iff dest!: set_update_subset_insert [THEN subsetD])

lemma never_empty_refill:
  assumes "list_all (\<lambda>i. i \<noteq> k \<longrightarrow> pe_clients (hp_entries s ! i) \<noteq> []) [0..<length (hp_entries s)]" "k < length (hp_entries s)"
  shows "never_empty (CreatePoolClient k s)"
  using assms by (auto simp: never_empty_def CreatePoolClient_def Let_def list_all_length nth_list_update)

lemma never_empty_set:
  assumes "never_empty s" "k < length (hp_entries s)"
  shows "never_empty (CreatePoolClient k (set_clients k cs s))" "cs \<noteq> [] \<Longrightarrow> never_empty (set_clients k cs s)"
proof -
  show "never_empty (CreatePoolClient k (set_clients k cs s))"
    using assms by (intro never_empty_refill) (auto simp: never_empty_def set_clients_def list_all_iff)
  show "cs \<noteq> [] \<Longrightarrow> never_empty (set_clients k cs s)"
    using assms by (auto simp: never_empty_def set_clients_def list_all_iff dest!: set_update_subset_insert [THEN subsetD])
qed

lemma inv_create: "hc_pool_inv lim s \<Longrightarrow> k < length (hp_entries s) \<Longrightarrow> hc_pool_inv lim (CreatePoolClient k s)"
  using grows_table [OF grows_create] by (simp add: hc_pool_inv_def create_ok never_empty_create)

lemma inv_replace:
  assumes "hc_pool_inv lim s" "k < length (hp_entries s)" "set cs \<subseteq> set (pe_clients (hp_entries s ! k))"
  shows "hc_pool_inv lim (CreatePoolClient k (set_clients k cs s))" "cs \<noteq> [] \<Longrightarrow> hc_pool_inv lim (set_clients k cs s)"
proof -
  have "clients_ok (set_clients k cs s)" "table_ok lim (set_clients k cs s)"
    using assms set_ok grows_table [OF grows_set [OF assms(2)]] by (simp_all add: hc_pool_inv_def)
  then show "hc_pool_inv lim (CreatePoolClient k (set_clients k cs s))" "cs \<noteq> [] \<Longrightarrow> hc_pool_inv lim (set_clients k cs s)"
    using assms never_empty_set [of s k cs] create_ok [of "set_clients k cs s" k] grows_table [OF grows_create [of k "set_clients k cs s"]]
    by (simp_all add: hc_pool_inv_def)
qed

lemma RemovePoolClient_inv: "hc_pool_inv lim s \<Longrightarrow> hc_pool_inv lim (RemovePoolClient key bad s)"
proof (cases "map_of (hp_pools s) key")
  case (Some k)
  assume inv: "hc_pool_inv lim s"
  then have "k < length (hp_entries s)"
    using map_of_SomeD [OF Some] by (auto simp: hc_pool_inv_def table_ok_def list_all_iff)
  then show ?thesis
    using Some inv_replace [OF inv, of k "removeAll bad (pe_clients (hp_entries s ! k))"] by (auto simp: RemovePoolClient_def Let_def)
qed (simp add: RemovePoolClient_def)

lemma least_busy_mem: "least_busy busy c cs \<in> set (c # cs)"
proof (induction cs arbitrary: c)
  case (Cons a cs)
  show ?case
    using Cons [of c] Cons [of a] by (auto simp: least_busy_def)
qed (simp add: least_busy_def)

lemma pool_end_inv: "hc_pool_inv lim s \<Longrightarrow> hc_pool_inv lim (pool_end maxC busy i s)"
proof (cases "map_of (hp_calls s) i")
  case (Some p)
  assume inv: "hc_pool_inv lim s"
  let ?s = "s\<lparr>hp_calls := filter (\<lambda>(j, p). j \<noteq> i) (hp_calls s)\<rparr>" and ?k = "pc_entry p" and ?t = "pc_target p"
  let ?give = "\<lambda>c s. s\<lparr>hp_given := hp_given s @ [(?t, pc_avoid p, c)]\<rparr>"
  have "call_ok s p"
    using inv map_of_SomeD [OF Some] by (auto simp: hc_pool_inv_def clients_ok_def list_all_iff)
  then have call: "target_ok ?t" "?k < length (hp_entries s)" "pe_key (hp_entries s ! ?k) = ut_key ?t"
    "list_all (made_for (hp_uris s) (target_uri ?t)) (pc_snap p)" "case pc_avoid p of Some a \<Rightarrow> a < length (hp_uris s) | None \<Rightarrow> True"
    by (simp_all add: call_ok_def)
  have s: "hc_pool_inv lim ?s"
    using inv by (auto simp: hc_pool_inv_def table_ok_def never_empty_def clients_ok_def list_all_iff)
  have give: "hc_pool_inv lim (?give c u)" if "hc_pool_inv lim u" "made_for (hp_uris u) (target_uri ?t) c" "pc_avoid p \<noteq> Some c" for c u
    using that by (simp add: hc_pool_inv_def table_ok_def never_empty_def clients_ok_def) (simp add: given_ok_def)
  have "entry_ok (hp_uris s) (hp_entries s ! ?k)"
    using inv call(2) by (simp add: hc_pool_inv_def clients_ok_def list_all_length)
  then have uri: "uri_of (hp_entries s ! ?k) = target_uri ?t"
    using call(1,3) by (simp add: entry_ok_def target_ok_def target_key_inject)
  show ?thesis
  proof (cases "filter (\<lambda>c. pc_avoid p \<noteq> Some c) (pc_snap p)")
    case Nil
    let ?v = "pe_clients (hp_entries s ! ?k)"
    define v where "v = (case pc_avoid p of Some a \<Rightarrow> remove1 a ?v | None \<Rightarrow> ?v)"
    have "set v \<subseteq> set ?v"
      by (auto simp: v_def split: option.splits dest: set_remove1_subset [THEN subsetD])
    then have "hc_pool_inv lim (CreatePoolClient ?k (set_clients ?k v ?s))"
      using inv_replace(1) [OF s, of ?k v] call(2) by simp
    moreover have "made_for (hp_uris (CreatePoolClient ?k (set_clients ?k v ?s))) (target_uri ?t) (length (hp_uris s))"
      using uri call(2) by (simp add: CreatePoolClient_def set_clients_def Let_def)
    moreover have "pc_avoid p \<noteq> Some (length (hp_uris s))"
      using call(5) by auto
    ultimately have "hc_pool_inv lim (?give (length (hp_uris s)) (CreatePoolClient ?k (set_clients ?k v ?s)))"
      by (rule give)
    then show ?thesis
      using Some Nil by (simp add: pool_end_def Let_def v_def cong: option.case_cong)
  next
    case (Cons c cs)
    let ?c = "least_busy busy c cs"
    have "?c \<in> set (filter (\<lambda>c. pc_avoid p \<noteq> Some c) (pc_snap p))"
      unfolding Cons by (rule least_busy_mem)
    then have c: "made_for (hp_uris s) (target_uri ?t) ?c" "pc_avoid p \<noteq> Some ?c"
      using call(4) by (auto simp: list_all_iff)
    moreover have "made_for (hp_uris (CreatePoolClient ?k ?s)) (target_uri ?t) ?c"
      using c(1) by (simp add: CreatePoolClient_def Let_def)
    ultimately show ?thesis
      using Some Cons give [OF s] give [OF inv_create [OF s]] call(2) by (simp add: pool_end_def Let_def)
  qed
qed (simp add: pool_end_def)

lemma table_take:
  assumes "list_all (\<lambda>(k, i). i < length (hp_entries s) \<and> pe_key (hp_entries s ! i) = k \<and> seq_of s i \<le> hp_seq s) ps"
    and "sorted_wrt (\<lambda>x y. seq_of s (snd y) < seq_of s (snd x)) ps" "distinct (map fst ps)"
  shows "table_ok lim (s\<lparr>hp_pools := take lim ps\<rparr>)"
proof -
  have "distinct (map fst (take lim ps))"
    using distinct_take [OF assms(3), of lim] by (simp add: take_map)
  moreover have "list_all (\<lambda>(k, i). i < length (hp_entries s) \<and> pe_key (hp_entries s ! i) = k \<and> seq_of s i \<le> hp_seq s) (take lim ps)"
    using assms(1) by (auto simp: list_all_iff dest: in_set_takeD)
  ultimately show ?thesis
    using assms(2) by (simp add: table_ok_def sorted_wrt_take)
qed

text \<open>A new entry goes to the front of the table and pushes the oldest one out.\<close>

lemma new_entry_inv:
  assumes "hc_pool_inv lim s" "target_ok t" "0 < lim" "ut_key t \<notin> fst ` set (hp_pools s)"
    and "s1 = new_entry t s"
  shows "evict_targets lim (ut_key t) (seq_of s1) ((ut_key t, length (hp_entries s)) # hp_pools s)
      = take lim ((ut_key t, length (hp_entries s)) # hp_pools s)"
    "hc_pool_inv lim (s1\<lparr>hp_pools := take lim ((ut_key t, length (hp_entries s)) # hp_pools s)\<rparr>)"
proof -
  let ?k = "length (hp_entries s)"
  let ?e = "\<lparr>pe_key = ut_key t, pe_host = ut_host t, pe_port = ut_port t, pe_ssl = ut_ssl t, pe_clients = [], pe_createSeq = hp_seq s + 1\<rparr>"
  let ?s = "s\<lparr>hp_seq := hp_seq s + 1, hp_entries := hp_entries s @ [?e]\<rparr>"
  have inv: "clients_ok s" "table_ok lim s" "never_empty s"
    using assms(1) by (simp_all add: hc_pool_inv_def)
  note s1 = assms(5) [unfolded new_entry_def]
  have g: "grows s ?s"
    by (simp add: grows_def nth_append)
  have "entry_ok (hp_uris s) ?e"
    using assms(2) by (simp add: entry_ok_def target_ok_def)
  then have "clients_ok ?s"
    using inv(1) by (intro grows_lists [OF g inv(1)]) (simp_all add: clients_ok_def)
  then have c1: "clients_ok s1"
    unfolding s1 by (rule create_ok) simp
  have t: "table_ok lim s1"
    unfolding s1 by (rule grows_table [OF grows_create]) (use grows_table [OF g inv(2)] in simp_all)
  have n1: "never_empty s1"
    unfolding s1 using inv(3) by (intro never_empty_refill) (auto simp: never_empty_def list_all_iff nth_append)
  have new: "seq_of s1 ?k = hp_seq s + 1" "pe_key (hp_entries s1 ! ?k) = ut_key t" "hp_pools s1 = hp_pools s" "hp_seq s1 = hp_seq s + 1"
    "length (hp_entries s1) = ?k + 1"
    by (simp_all add: s1 CreatePoolClient_def Let_def)
  have old: "seq_of s1 i \<le> hp_seq s" if "(k, i) \<in> set (hp_pools s)" for k i
    using that inv(2) by (auto simp: s1 CreatePoolClient_def Let_def table_ok_def list_all_iff nth_append nth_list_update)
  show "evict_targets lim (ut_key t) (seq_of s1) ((ut_key t, ?k) # hp_pools s) = take lim ((ut_key t, ?k) # hp_pools s)"
    using assms(3,4) t new(3) by (intro evict_is_take) (simp_all add: table_ok_def)
  let ?ps = "(ut_key t, ?k) # hp_pools s"
  have all: "list_all (\<lambda>(k, i). i < length (hp_entries s1) \<and> pe_key (hp_entries s1 ! i) = k \<and> seq_of s1 i \<le> hp_seq s1) ?ps"
    using t new by (simp add: table_ok_def)
  have "sorted_wrt (\<lambda>x y. seq_of s1 (snd y) < seq_of s1 (snd x)) ?ps" "distinct (map fst ?ps)"
    using t new old assms(4) by (fastforce simp: table_ok_def)+
  then have "table_ok lim (s1\<lparr>hp_pools := take lim ?ps\<rparr>)"
    using table_take all by blast
  moreover have "clients_ok (s1\<lparr>hp_pools := take lim ?ps\<rparr>)" "never_empty (s1\<lparr>hp_pools := take lim ?ps\<rparr>)"
    using c1 n1 by (simp_all add: clients_ok_def never_empty_def)
  ultimately show "hc_pool_inv lim (s1\<lparr>hp_pools := take lim ?ps\<rparr>)"
    by (simp add: hc_pool_inv_def)
qed

lemma new_entry_pools [simp]: "hp_pools (new_entry t s) = hp_pools s" "hp_calls (new_entry t s) = hp_calls s"
  by (simp_all add: new_entry_def)

lemma pool_begin_step:
  assumes "hc_pool_inv lim s" "target_ok t" "lim = pool_limit maxT" "case avoid of Some a \<Rightarrow> a < length (hp_uris s) | None \<Rightarrow> True"
  shows "hc_pool_inv lim (pool_begin maxT i t avoid s)"
    "map fst (hp_pools (pool_begin maxT i t avoid s)) = fifo_step lim (map fst (hp_pools s)) (ut_key t)"
proof -
  have call: "hc_pool_inv lim (u\<lparr>hp_calls := (i, \<lparr>pc_target = t, pc_entry = k, pc_snap = pe_clients (hp_entries u ! k), pc_avoid = avoid\<rparr>) # hp_calls u\<rparr>)"
    if "hc_pool_inv lim u" "k < length (hp_entries u)" "pe_key (hp_entries u ! k) = ut_key t" "\<exists>us. hp_uris u = hp_uris s @ us" for u k
  proof -
    have "entry_ok (hp_uris u) (hp_entries u ! k)"
      using that by (simp add: hc_pool_inv_def clients_ok_def list_all_length)
    then have "call_ok u \<lparr>pc_target = t, pc_entry = k, pc_snap = pe_clients (hp_entries u ! k), pc_avoid = avoid\<rparr>"
      using assms(2,4) that by (auto simp: call_ok_def entry_ok_def target_ok_def target_key_inject split: option.splits)
    then show ?thesis
      using that(1) by (simp add: hc_pool_inv_def table_ok_def never_empty_def clients_ok_def)
  qed
  show "hc_pool_inv lim (pool_begin maxT i t avoid s)"
    "map fst (hp_pools (pool_begin maxT i t avoid s)) = fifo_step lim (map fst (hp_pools s)) (ut_key t)"
  proof (atomize (full), cases "map_of (hp_pools s) (ut_key t)")
    case (Some k)
    have "(ut_key t, k) \<in> set (hp_pools s)"
      using map_of_SomeD [OF Some] .
    then have "k < length (hp_entries s)" "pe_key (hp_entries s ! k) = ut_key t" "ut_key t \<in> fst ` set (hp_pools s)"
      using assms(1) by (auto simp: hc_pool_inv_def table_ok_def list_all_iff intro: rev_image_eqI)
    then show "hc_pool_inv lim (pool_begin maxT i t avoid s)
      \<and> map fst (hp_pools (pool_begin maxT i t avoid s)) = fifo_step lim (map fst (hp_pools s)) (ut_key t)"
      using Some call [OF assms(1), of k] by (simp add: pool_begin_def fifo_step_def)
  next
    case None
    then have notin: "ut_key t \<notin> fst ` set (hp_pools s)"
      by (simp add: map_of_eq_None_iff)
    let ?k = "length (hp_entries s)"
    define s1 where "s1 = new_entry t s"
    define s2 where "s2 = s1\<lparr>hp_pools := take lim ((ut_key t, ?k) # hp_pools s)\<rparr>"
    have "0 < lim"
      using assms(3) by (simp add: pool_limit_def)
    note new = new_entry_inv [OF assms(1,2) this notin s1_def]
    have pools: "hp_pools s1 = hp_pools s"
      by (simp add: s1_def)
    have b: "pool_begin maxT i t avoid s
        = s2\<lparr>hp_calls := (i, \<lparr>pc_target = t, pc_entry = ?k, pc_snap = pe_clients (hp_entries s2 ! ?k), pc_avoid = avoid\<rparr>) # hp_calls s2\<rparr>"
      unfolding pool_begin_def None option.case prod.case Let_def assms(3) [symmetric] s1_def [symmetric] pools s2_def
      by (simp add: new(1))
    have "?k < length (hp_entries s2)" "pe_key (hp_entries s2 ! ?k) = ut_key t" "\<exists>us. hp_uris s2 = hp_uris s @ us"
      by (simp_all add: s2_def s1_def new_entry_def CreatePoolClient_def Let_def)
    then show "hc_pool_inv lim (pool_begin maxT i t avoid s)
      \<and> map fst (hp_pools (pool_begin maxT i t avoid s)) = fifo_step lim (map fst (hp_pools s)) (ut_key t)"
      using call [of s2 ?k] new(2) notin unfolding b by (simp add: s2_def fifo_step_def take_map [symmetric] del: take_map)
  qed
qed

definition begun :: "pool_event list \<Rightarrow> string list" where
  "begun es = concat (map (\<lambda>e. case e of PBegin i url a \<Rightarrow> (case ParseUrl url of Some t \<Rightarrow> [ut_key t] | None \<Rightarrow> []) | _ \<Rightarrow> []) es)"

lemma pool_ev_step_inv:
  assumes "hc_pool_inv (pool_limit maxT) s"
  shows "hc_pool_inv (pool_limit maxT) (pool_ev_step maxT maxC e s)
    \<and> map fst (hp_pools (pool_ev_step maxT maxC e s)) = foldl (fifo_step (pool_limit maxT)) (map fst (hp_pools s)) (begun [e])"
proof (cases e)
  case (PBegin i url a)
  have "case hc_avoid a s of Some c \<Rightarrow> c < length (hp_uris s) | None \<Rightarrow> True"
    by (simp add: hc_avoid_def split: option.splits)
  then show ?thesis
    using PBegin assms pool_begin_step [OF assms ParseUrl_target_ok refl] by (simp add: begun_def split: option.splits)
next
  case (PEnd i busy)
  have "hp_pools (pool_end maxC busy i s) = hp_pools s"
    by (simp add: pool_end_def Let_def split: option.splits list.splits)
  then show ?thesis
    using PEnd assms pool_end_inv by (simp add: begun_def)
next
  case (PRemove key bad)
  have "hp_pools (RemovePoolClient key bad s) = hp_pools s"
    by (simp add: RemovePoolClient_def Let_def split: option.splits)
  then show ?thesis
    using PRemove assms RemovePoolClient_inv by (simp add: begun_def)
qed

interpretation pool_sys: total_system "hc_pool_inv (pool_limit maxT)" "\<lambda>_. True" "\<lambda>e s. Inr (pool_ev_step maxT maxC e s) :: unit + hc_pool" for maxT maxC
  by unfold_locales (use pool_ev_step_inv in auto)

lemma run_steps_pool: "run_steps (\<lambda>e s. Inr (pool_ev_step maxT maxC e s) :: unit + hc_pool) es s = Inr (fold (pool_ev_step maxT maxC) es s)"
  by (induction es arbitrary: s) simp_all

lemma empty_pool_inv: "hc_pool_inv lim empty_pool"
  by (simp add: hc_pool_inv_def clients_ok_def table_ok_def never_empty_def empty_pool_def)

lemma pool_run_inv: "hc_pool_inv (pool_limit maxT) (pool_run maxT maxC es)"
  using pool_sys.inv_run [of maxT empty_pool es maxC] by (simp add: run_steps_pool pool_run_def empty_pool_inv)

lemma pool_run_keys:
  "hc_pool_inv (pool_limit maxT) s \<Longrightarrow>
    map fst (hp_pools (fold (pool_ev_step maxT maxC) es s)) = foldl (fifo_step (pool_limit maxT)) (map fst (hp_pools s)) (begun es)"
proof (induction es arbitrary: s)
  case (Cons e es)
  then show ?case
    using pool_ev_step_inv [OF Cons(2), of maxC e] by (simp add: begun_def)
qed (simp add: begun_def)

section \<open>Properties\<close>

text \<open>C21: the pool gives the right clients: whatever calls, from however many threads, come between the two regions of another,
  every client given for a URL was made for its scheme, host and port and is not the one to avoid, a target in the table always
  has a client, and the targets in the table are exactly those of a queue of \<open>maxTargets\<close> (256 if that is 0) places
  into which a target not present comes first and the oldest leaves last.\<close>

theorem pool_serves:
  "let s = pool_run maxT maxC es in
    list_all (\<lambda>(t, avoid, c). c < length (hp_uris s) \<and> hp_uris s ! c = client_uri (ut_ssl t) (ut_host t) (ut_port t) \<and> avoid \<noteq> Some c) (hp_given s)
    \<and> list_all (\<lambda>(k, i). pe_clients (hp_entries s ! i) \<noteq> []) (hp_pools s)
    \<and> map fst (hp_pools s) = foldl (fifo_step (pool_limit maxT)) [] (begun es)"
proof -
  let ?s = "pool_run maxT maxC es"
  have inv: "clients_ok ?s" "table_ok (pool_limit maxT) ?s" "never_empty ?s"
    using pool_run_inv by (simp_all add: hc_pool_inv_def)
  have "list_all (\<lambda>(t, avoid, c). c < length (hp_uris ?s) \<and> hp_uris ?s ! c = target_uri t \<and> avoid \<noteq> Some c) (hp_given ?s)"
    using inv(1) by (auto simp: clients_ok_def given_ok_def made_for_def list_all_iff)
  moreover have "list_all (\<lambda>(k, i). pe_clients (hp_entries ?s ! i) \<noteq> []) (hp_pools ?s)"
    using inv(2,3) by (auto simp: table_ok_def never_empty_def list_all_iff)
  moreover have "map fst (hp_pools ?s) = foldl (fifo_step (pool_limit maxT)) [] (begun es)"
    using pool_run_keys [OF empty_pool_inv] by (simp add: pool_run_def empty_pool_def)
  ultimately show ?thesis
    by (simp add: Let_def)
qed

section \<open>Runs\<close>

text \<open>A target used all the time is given up as soon as enough newer ones have come: the order is that of creation.\<close>

lemma pool_not_lru:
  "map fst (hp_pools (pool_run 2 1 [PBegin 1 ''http://a/'' None, PBegin 2 ''http://b/'' None, PBegin 3 ''http://a/'' None, PBegin 4 ''http://c/'' None]))
    = [''http://c:80'', ''http://b:80'']"
  by code_simp

text \<open>A busy pool grows for the next call, the client that failed is replaced, and one that is broken leaves.\<close>

lemma pool_runs:
  "map (\<lambda>(t, a, c). c) (hp_given (pool_run 2 2 [PBegin 1 ''http://a/'' None, PEnd 1 (\<lambda>c. 1), PBegin 1 ''http://a/x'' None, PEnd 1 (\<lambda>c. 1 - c)])) = [0, 1]"
  "map (\<lambda>(t, a, c). c) (hp_given (pool_run 2 1 [PBegin 1 ''http://a/'' None, PEnd 1 (\<lambda>c. 0), PBegin 1 ''http://a/x'' (Some 0), PEnd 1 (\<lambda>c. 0)])) = [0, 1]"
  "map (\<lambda>e. pe_clients e) (hp_entries (pool_run 2 1 [PBegin 1 ''http://a/'' None, PRemove ''http://a:80'' 0])) = [[1]]"
  by code_simp+

text \<open>Two calls that avoid the only client at the same time would both add one, above the limit; the code makes such calls in the
  one loop of the target only.\<close>

lemma pool_over_limit:
  "map pe_clients (hp_entries (pool_run 2 1 [PBegin 1 ''http://a/'' None, PEnd 1 (\<lambda>c. 0), PBegin 1 ''http://a/'' (Some 0), PBegin 2 ''http://a/'' (Some 0),
    PEnd 1 (\<lambda>c. 0), PEnd 2 (\<lambda>c. 0)])) = [[1, 2]]"
  by code_simp

end
