(* ===== verification/Spec2Isabelle.thy ===== *)
theory Spec2Isabelle
  imports BcLink Containers ObjectPool StrEdit NetIP ThreadPool ThreadCtl HttpCond StreamLoop RateLimit HttpGate HttpPipe HttpLife JsonRpc Jsonp DlFlow HcProps HcPool
begin

text \<open>
  A verification of the ZiMo public library, a C++ library for Windows services: broadcast over TCP, HTTP servers and an
  HTTP client over drogon and libevent, thread pools, containers, strings and addresses.  The paths below are those under
  \<open>src/\<close>; operations keep the names of the code, with a prefix where two parts use the same one.

  \<^bold>\<open>How the code is modelled.\<close>  An object is a record of its members, a member function a function on that record.  Text is a
  list of characters or of bytes, a \<open>size_t\<close> a 64 bit word where its wrap-around can be seen and a natural number elsewhere.
  Access outside of memory is a value of \<open>mem_error\<close>, a refusal a constructor of the result.  Code that several threads or
  callbacks run is a step relation (\<open>tp_step\<close>, \<open>thd_step\<close>, \<open>life_step\<close>) or a function from events to steps
  (\<open>bc_server_step\<close>, \<open>bc_cli_step\<close>, \<open>stream_step\<close>, \<open>deadline_step\<close>, \<open>dl_step\<close>, \<open>hm_step\<close>), and the properties hold for every
  order of steps.  A loop that need not end is a partial function.  The JSON library, drogon's limiter, libevent, the hash
  and the file system are parameters or come with the event; what is used of them is a hypothesis of the property.

  \<^bold>\<open>Foundations.\<close>  \<open>ZmPrelude\<close> has the common types, the block operations behind \<open>memcpy\<close> and \<open>memset\<close>, counting over lists of
  threads, and the interfaces \<open>invariant_system\<close>, \<open>total_system\<close> (steps that keep an invariant, and do not fail) and \<open>codec\<close>
  (an encoder with its decoder), which the components instantiate.  \<open>ZmJson\<close> is \<open>util/zm_util_json\<close>: values, access, paths, merge.

  \<^bold>\<open>Broadcast\<close> (\<open>net/zm_net_broadcast_base, _server, _client\<close>).  \<open>BcFrame\<close>: frames of a length and a body, and that decoding does
  not depend on how the bytes are cut.  \<open>BcServer\<close>, \<open>BcServerInv\<close>, \<open>BcServerProps\<close>: all operations and callbacks of the server,
  its invariant (every timer handle live and stored once), safety of every run, exact delivery, queue and connection limits.
  \<open>BcClient\<close>, \<open>BcClientInv\<close>: the same for the client.  \<open>BcLink\<close>: both ends together, the handshake over the bytes exchanged.

  \<^bold>\<open>Containers\<close> (\<open>util/zm_util_container\<close>).  \<open>ByteBuffer\<close>: the buffer over the bytes of its block, refining a list.
  \<open>Containers\<close>: array list and binary table, the table as a \<open>key_store\<close>.  \<open>ObjectPool\<close>: chunks and free list.

  \<^bold>\<open>Strings and addresses\<close> (\<open>util/zm_util_str\<close>, \<open>net/zm_net_ip\<close>).  \<open>StrCodec\<close>: hexadecimal, URL, base64, base64url, PKCS5, with
  their round trips.  \<open>StrUtil\<close>: tests, case, search, wildcards.  \<open>StrEdit\<close>: numbers, trimming, replacement, hash.  \<open>NetIPv6\<close>: the
  arithmetic of 16 bytes as that of a 128 bit word, and the splitting of ranges into blocks.  \<open>NetIP\<close>: conversions, classes, IPv4.

  \<^bold>\<open>Threads\<close> (\<open>util/zm_util_thread\<close>).  \<open>ThreadCtl\<close>: Start and Stop of one thread with many callers.  \<open>ThreadPool\<close>: workers, timer
  thread, cancel, wait and destructor under every interleaving; a queued task is run, no wake-up is lost, and two ways in which
  the destructor can wait for ever.

  \<^bold>\<open>HTTP server\<close> (\<open>net/zm_net_http_server\<close> and its faces \<open>_restful_\<close>, \<open>_frontend_\<close>, \<open>_jsonrpc_server\<close>).  A process has one server;
  faces claim roots and ports at it, a request passes the gates of all faces, then the pipeline.  \<open>HttpOwner\<close>: claims, routes,
  Open, the frozen snapshot, the owner of a path.  \<open>HttpGate\<close>: gates of the three faces, redirection, cache policy.  \<open>HttpPipe\<close>:
  identifiers, counters, draining, deadlines.  \<open>HttpLife\<close>: Open and Close with many callers.  \<open>HttpFile\<close>, \<open>HttpCond\<close>: ranges and file
  answers, conditional requests.  \<open>StreamLoop\<close>: sending a file block by block.  \<open>RateLimit\<close>: rules and buckets.  \<open>JsonRpc\<close>: method
  table and answers.  \<open>Jsonp\<close>: options by prefix and the wrapping of answers.

  \<^bold>\<open>HTTP client\<close> (\<open>net/zm_net_http_client, _client_download\<close>).  \<open>DlUrl\<close>: URLs, redirections, the text of a request.  \<open>DlSession\<close>: one
  download, the event loop that parses and queues and the writer that works the queue off.  \<open>DlProps\<close>: what success means for
  the file, with the grammar of the chunked coding.  \<open>DlFlow\<close>: credentials, the end of a download, concrete runs.  \<open>HcText\<close>: URLs of
  the client (its parser of host and port is the text of the download channel), forms, multipart bodies.  \<open>HcMachine\<close>: one
  request with retries, redirections, budgets and cancellation.  \<open>HcProps\<close>: one result, the budgets, what is repeated and where
  credentials go.  \<open>HcPool\<close>: the pool of connections, whose choice is an input of \<open>HcMachine\<close>.

  \<^bold>\<open>Groups of lemmas.\<close>  Each component has its invariant with the lemma that a step keeps it, the effect of an operation
  on every branch, and where it promises one a refinement to a list, map, cache or grammar.  Progress is shown by measures: the
  steps of a pool, of a thread object and of the lifecycle are bounded in number; a download and a request are \<open>served\<close> by taking
  what is pending.  A request takes at most two such steps for each attempt of its budget and two more, as an attempt is one
  call and one response; that is the fuel of \<open>serve\<close>, and it is proved to be enough.  The 512 rounds of
  \<open>CIDRFromRange\<close> are the limit of the code; for a range that does not end at the last address 128 are proved to be enough.
  Where a run is given by a list of events there is no fuel.

  \<^bold>\<open>Flaws shown.\<close>  Lemmas on concrete inputs show where the code does something else than it means to; they stand next to the
  operation (\<open>Replace_diverges\<close>, \<open>interim_swallows_final\<close>, \<open>redirect_injects\<close>, \<open>retry_overcounted\<close> and others).

  \<^bold>\<open>Not modelled.\<close>  Uploads, multipart reading, WebSocket, certificates and port probing of the server,
  the delay of a retry (floating point and random), Init and Close of the client, and the registry of downloads; the run loop of
  \<open>util/zm_util_evbase_runloop\<close> and the libevent helpers; SQLite, logger, service control and file utilities, which call the
  system.  Log lines and statistics texts are left out everywhere.
\<close>

end
